(* ===== verification/Prelude.thy ===== *)
theory Prelude
  imports Main "HOL-Library.Word"
begin

unbundle bit_operations_syntax

text \<open>
  Shared vocabulary of the development: the machine integer types of the C code (LP64, two's
  complement, little-endian host), byte buffers with bounds-checked writes, the little-endian
  view of 32-bit words, and the rewriting lemmas the components share.
\<close>

section \<open>Machine types\<close>

type_synonym byte = "8 word"
type_synonym u16 = "16 word"
type_synonym u32 = "32 word"
type_synonym u64 = "64 word"

named_theorems frame_simps \<open>what an operation leaves unchanged\<close>
named_theorems codec_simps \<open>conversions between bytes, words and digit strings\<close>

text \<open>An ASCII literal of the C source as its bytes (without the terminating NUL).\<close>

definition bytes :: "string \<Rightarrow> byte list" where
  "bytes s = map of_char s"

lemma bytes_Nil [simp]: "bytes [] = []"
  by (simp add: bytes_def)

lemma bytes_Cons [simp]: "bytes (c # cs) = of_char c # bytes cs"
  by (simp add: bytes_def)

lemma length_bytes [simp]: "length (bytes s) = length s"
  by (simp add: bytes_def)

section \<open>Byte buffers\<close>

text \<open>
  \<open>overwrite off bs buf\<close> is \<open>memcpy (buf + off, bs, length bs)\<close> for a write that stays inside
  the array; \<open>in_bounds\<close> is the condition under which the C write is defined.
\<close>

definition in_bounds :: "nat \<Rightarrow> byte list \<Rightarrow> byte list \<Rightarrow> bool" where
  "in_bounds off bs buf \<longleftrightarrow> off + length bs \<le> length buf"

definition overwrite :: "nat \<Rightarrow> byte list \<Rightarrow> byte list \<Rightarrow> byte list" where
  "overwrite off bs buf = take off buf @ bs @ drop (off + length bs) buf"

lemma length_overwrite [simp]:
  "in_bounds off bs buf \<Longrightarrow> length (overwrite off bs buf) = length buf"
  by (simp add: in_bounds_def overwrite_def)

lemma take_overwrite0 [simp]: "take (length bs) (overwrite 0 bs buf) = bs"
  by (simp add: overwrite_def)

lemma overwrite_nth_in:
  "in_bounds off bs buf \<Longrightarrow> off \<le> i \<Longrightarrow> i < off + length bs \<Longrightarrow> overwrite off bs buf ! i = bs ! (i - off)"
  by (auto simp: in_bounds_def overwrite_def nth_append)

lemma overwrite_nth_out:
  "in_bounds off bs buf \<Longrightarrow> i < off \<or> off + length bs \<le> i \<Longrightarrow> overwrite off bs buf ! i = buf ! i"
  by (auto simp: in_bounds_def overwrite_def nth_append)

section \<open>Little-endian words\<close>

definition le_bytes :: "u32 \<Rightarrow> byte list" where
  "le_bytes w = [ucast w, ucast (drop_bit 8 w), ucast (drop_bit 16 w), ucast (drop_bit 24 w)]"

fun le_word :: "byte list \<Rightarrow> u32" where
  "le_word [] = 0"
| "le_word (b # bs) = ucast b OR push_bit 8 (le_word bs)"

lemma length_le_bytes [simp]: "length (le_bytes w) = 4"
  by (simp add: le_bytes_def)

lemma le_word_le_bytes [simp]: "le_word (le_bytes w) = w"
proof (rule bit_word_eqI)
  fix n assume "n < LENGTH(32)"
  then consider "n < 8" | "8 \<le> n" "n < 16" | "16 \<le> n" "n < 24" | "24 \<le> n" "n < 32"
    by fastforce
  then show "bit (le_word (le_bytes w)) n = bit w n"
    by cases (auto simp: le_bytes_def bit_or_iff bit_push_bit_iff bit_ucast_iff bit_drop_bit_eq)
qed

lemma byte_bit_beyond: "8 \<le> k \<Longrightarrow> \<not> bit (a :: byte) k"
  using bit_imp_le_length [of a k] by auto

lemma le_bytes_le_word [simp]: "le_bytes (le_word [a, b, c, d]) = [a, b, c, d]"
  by (simp add: le_bytes_def) (auto intro!: bit_word_eqI
      simp: bit_or_iff bit_push_bit_iff bit_ucast_iff bit_drop_bit_eq byte_bit_beyond)

text \<open>An array of words seen as bytes, and back (a trailing group of fewer than four bytes is dropped).\<close>

definition le_of_words :: "u32 list \<Rightarrow> byte list" where
  "le_of_words ws = concat (map le_bytes ws)"

fun words_of_le :: "byte list \<Rightarrow> u32 list" where
  "words_of_le (a # b # c # d # bs) = le_word [a, b, c, d] # words_of_le bs"
| "words_of_le bs = []"

lemma length_le_of_words [simp]: "length (le_of_words ws) = 4 * length ws"
  by (induction ws) (simp_all add: le_of_words_def)

lemma words_of_le_append4: "length xs = 4 \<Longrightarrow> words_of_le (xs @ ys) = le_word xs # words_of_le ys"
  by (cases xs rule: words_of_le.cases) auto

lemma words_of_le_of_words [simp]: "words_of_le (le_of_words ws) = ws"
  by (induction ws) (simp_all add: le_of_words_def words_of_le_append4)

lemma length_words_of_le: "length (words_of_le bs) = length bs div 4"
  by (induction bs rule: words_of_le.induct) simp_all

lemma le_of_words_Nil [simp]: "le_of_words [] = []"
  and le_of_words_Cons [simp]: "le_of_words (w # ws) = le_bytes w @ le_of_words ws"
  by (simp_all add: le_of_words_def)

lemma le_of_words_of_le: "length bs mod 4 = 0 \<Longrightarrow> le_of_words (words_of_le bs) = bs"
  by (induction bs rule: words_of_le.induct) (auto simp del: le_word.simps)

section \<open>Nibbles\<close>

lemma nibble_less: "unat ((w :: 'a :: len word) AND 15) < 16"
proof -
  have "w AND 15 = take_bit 4 w" by (simp add: take_bit_eq_mask mask_eq_exp_minus_1)
  then have "unat (w AND 15) = take_bit 4 (unat w)" by (simp add: unsigned_take_bit_eq)
  then show ?thesis by (simp add: take_bit_eq_mod)
qed

lemma unat_byte_less [simp]: "unat (b :: byte) < 256"
  using unsigned_less [of b] by simp

lemma ucast_u16_u32 [simp]: "ucast (ucast (u :: u16) :: u32) = u"
  by (rule bit_word_eqI) (auto simp: bit_ucast_iff)

lemma ucast_byte_u32 [simp]: "ucast (ucast (b :: byte) :: u32) = b"
  by (rule bit_word_eqI) (auto simp: bit_ucast_iff)

section \<open>Words that agree below bit 31\<close>

lemma low_bit: "take_bit 31 (x :: u32) = take_bit 31 y \<Longrightarrow> n < 31 \<Longrightarrow> bit x n = bit y n"
  by (metis bit_take_bit_iff)

lemma low_mask:
  fixes x :: u32
  assumes "take_bit 31 x = take_bit 31 y" "take_bit 31 m = m"
  shows "x AND m = y AND m"
proof -
  have "take_bit 31 (x AND m) = take_bit 31 (y AND m)" by (simp only: take_bit_and assms(1))
  moreover have "take_bit 31 (z AND m) = z AND m" for z :: u32
  proof (rule bit_word_eqI)
    fix n
    have "bit m n \<Longrightarrow> n < 31" by (subst (asm) assms(2) [symmetric]) (simp add: bit_take_bit_iff)
    then show "bit (take_bit 31 (z AND m)) n = bit (z AND m) n" by (auto simp: bit_take_bit_iff bit_and_iff)
  qed
  ultimately show ?thesis by simp
qed

lemma bit_dmr1_st: "bit (0x00400000 :: u32) 22"
proof -
  have "(0x00400000 :: u32) = push_bit 22 1" by simp
  then show ?thesis by (simp only: bit_push_bit_iff) simp
qed

lemma bit_dsr_te: "bit (0x00002000 :: u32) 13"
proof -
  have "(0x00002000 :: u32) = push_bit 13 1" by simp
  then show ?thesis by (simp only: bit_push_bit_iff) simp
qed

text \<open>The offset of a byte in its word.\<close>

lemma and_3: "(x :: u32) AND 3 = take_bit 2 x"
  by (simp add: take_bit_eq_mask mask_eq_exp_minus_1)

lemma unat_and_3: "unat ((x :: u32) AND 3) = unat x mod 4"
proof -
  have "unat (x AND 3) = take_bit 2 (unat x)" by (simp only: and_3 unsigned_take_bit_eq)
  then show ?thesis by (simp add: take_bit_eq_mod)
qed

end
