(* ===== verification/RspCodec.thy ===== *)
theory RspCodec
  imports Prelude
begin

text \<open>
  The digit, escape and byte-order conversions of the GDB remote serial protocol server
  (\<open>orpsocv2/bench/verilog/vpi/c/gdb.c\<close>): \<open>hex\<close>, \<open>reg2hex\<close>, \<open>hex2reg\<close>, \<open>ascii2hex\<close>, \<open>hex2ascii\<close>,
  \<open>rsp_unescape\<close> and \<open>swap_buf\<close>, with their round trips.  \<open>WORDSBIGENDIAN\<close> is not defined by the
  source, so the most significant nibble comes first.
\<close>

section \<open>Hex digits\<close>

definition hexchars :: "byte list" where
  "hexchars = bytes ''0123456789abcdef''"

definition hex :: "int \<Rightarrow> int" where
  "hex c =
     (if 97 \<le> c \<and> c \<le> 102 then c - 97 + 10
      else if 48 \<le> c \<and> c \<le> 57 then c - 48
      else if 65 \<le> c \<and> c \<le> 70 then c - 65 + 10 else - 1)"

lemma length_hexchars [simp]: "length hexchars = 16"
  by (simp add: hexchars_def)

lemma less_16_cases:
  fixes n :: nat
  assumes "n < 16"
  obtains "n = 0" | "n = 1" | "n = 2" | "n = 3" | "n = 4" | "n = 5" | "n = 6" | "n = 7"
    | "n = 8" | "n = 9" | "n = 10" | "n = 11" | "n = 12" | "n = 13" | "n = 14" | "n = 15"
  using assms by atomize_elim arith

lemma hex_hexchars [codec_simps]: "n < 16 \<Longrightarrow> hex (sint (hexchars ! n)) = int n"
  by (erule less_16_cases) (simp_all add: hexchars_def hex_def)

lemma hex_uint_hexchars [codec_simps]: "n < 16 \<Longrightarrow> hex (uint (hexchars ! n)) = int n"
  by (erule less_16_cases) (simp_all add: hexchars_def hex_def)

lemma hexchars_nonzero [codec_simps]: "n < 16 \<Longrightarrow> hexchars ! n \<noteq> 0"
  by (erule less_16_cases) (simp_all add: hexchars_def)

lemma hex_range: "- 1 \<le> hex c \<and> hex c < 16"
  by (auto simp: hex_def)

text \<open>\<open>hexdigit n\<close> names the character the code indexes out of \<open>hexchars\<close>.\<close>

abbreviation hexdigit :: "'a :: len word \<Rightarrow> byte" where
  "hexdigit w \<equiv> hexchars ! unat (w AND 15)"

lemma hexdigit_nonzero [simp]: "hexdigit w \<noteq> 0"
  by (rule hexchars_nonzero) (rule nibble_less)

section \<open>Registers as digit strings\<close>

text \<open>The nine bytes \<open>reg2hex\<close> stores: eight digits and the terminating NUL.\<close>

definition reg2hex :: "u32 \<Rightarrow> byte list" where
  "reg2hex val = map (\<lambda>n. hexdigit (drop_bit (28 - n * 4) val)) [0..<8] @ [0]"

text \<open>\<open>hex\<close> takes a signed \<open>char\<close> promoted to \<open>int\<close>; its \<open>-1\<close> shifts in as all ones.\<close>

definition hex2reg :: "byte list \<Rightarrow> u32" where
  "hex2reg p_buf =
     foldl (\<lambda>val n. val OR push_bit (28 - n * 4) (word_of_int (hex (sint (p_buf ! n))))) 0 [0..<8]"

lemma length_reg2hex [simp]: "length (reg2hex val) = 9"
  by (simp add: reg2hex_def)

lemma of_int_hexdigit: "word_of_int (hex (sint (hexdigit w))) = (w AND 15 :: u32)"
  using nibble_less [of w] by (simp add: codec_simps)

lemma nibbles_combine:
  fixes w :: u32
  shows "push_bit 28 (drop_bit 28 w AND 15) OR push_bit 24 (drop_bit 24 w AND 15)
    OR push_bit 20 (drop_bit 20 w AND 15) OR push_bit 16 (drop_bit 16 w AND 15)
    OR push_bit 12 (drop_bit 12 w AND 15) OR push_bit 8 (drop_bit 8 w AND 15)
    OR push_bit 4 (drop_bit 4 w AND 15) OR (w AND 15) = w"
proof -
  have nib: "x AND 15 = take_bit 4 x" for x :: u32
    by (simp add: take_bit_eq_mask mask_eq_exp_minus_1)
  show ?thesis
  proof (rule bit_word_eqI)
    fix n assume "n < LENGTH(32)"
    then consider "n < 4" | "4 \<le> n" "n < 8" | "8 \<le> n" "n < 12" | "12 \<le> n" "n < 16"
      | "16 \<le> n" "n < 20" | "20 \<le> n" "n < 24" | "24 \<le> n" "n < 28" | "28 \<le> n" "n < 32"
      by fastforce
    then show "bit (push_bit 28 (drop_bit 28 w AND 15) OR push_bit 24 (drop_bit 24 w AND 15)
        OR push_bit 20 (drop_bit 20 w AND 15) OR push_bit 16 (drop_bit 16 w AND 15)
        OR push_bit 12 (drop_bit 12 w AND 15) OR push_bit 8 (drop_bit 8 w AND 15)
        OR push_bit 4 (drop_bit 4 w AND 15) OR (w AND 15)) n = bit w n"
      by cases (auto simp: nib bit_or_iff bit_push_bit_iff bit_take_bit_iff bit_drop_bit_eq)
  qed
qed

lemma upt_8: "[0..<8] = [0, 1, 2, 3, 4, 5, 6, 7 :: nat]"
  by (simp add: upt_conv_Cons)

lemma reg2hex_digits:
  "reg2hex val = [hexdigit (drop_bit 28 val), hexdigit (drop_bit 24 val), hexdigit (drop_bit 20 val),
     hexdigit (drop_bit 16 val), hexdigit (drop_bit 12 val), hexdigit (drop_bit 8 val),
     hexdigit (drop_bit 4 val), hexdigit val, 0]"
  by (simp add: reg2hex_def upt_8)

lemma hex2reg_reg2hex_append: "hex2reg (reg2hex val @ rest) = val"
  by (simp add: hex2reg_def reg2hex_digits upt_8 of_int_hexdigit or.assoc
      nibbles_combine [simplified])

section \<open>ASCII strings as digit pairs\<close>

text \<open>Both loops stop at the NUL of their source; the result ends with the NUL they store.\<close>

fun ascii2hex :: "byte list \<Rightarrow> byte list" where
  "ascii2hex [] = [0]"
| "ascii2hex (ch # src) =
     (if ch = 0 then [0] else hexdigit (drop_bit 4 ch) # hexdigit ch # ascii2hex src)"

fun hex2ascii :: "byte list \<Rightarrow> byte list" where
  "hex2ascii (a # b # src) =
     (if a \<noteq> 0 \<and> b \<noteq> 0
      then (push_bit 4 (word_of_int (hex (sint a)) AND 15) OR (word_of_int (hex (sint b)) AND 15))
             # hex2ascii src
      else [0])"
| "hex2ascii src = [0]"

lemma nibbles_of_byte: "push_bit 4 (drop_bit 4 (b :: byte) AND 15) OR (b AND 15) = b"
proof -
  have nib: "x AND 15 = take_bit 4 x" for x :: byte
    by (simp add: take_bit_eq_mask mask_eq_exp_minus_1)
  show ?thesis
  proof (rule bit_word_eqI)
    fix n assume "n < LENGTH(8)"
    then consider "n < 4" | "4 \<le> n" "n < 8" by fastforce
    then show "bit (push_bit 4 (drop_bit 4 b AND 15) OR (b AND 15)) n = bit b n"
      by cases (auto simp: nib bit_or_iff bit_push_bit_iff bit_take_bit_iff bit_drop_bit_eq)
  qed
qed

lemma of_int_hexdigit_byte:
  "word_of_int (hex (sint (hexdigit w))) AND 15 = (w AND 15 :: byte)"
  using nibble_less [of w] by (simp add: codec_simps)

lemma hex2ascii_ascii2hex_append: "0 \<notin> set s \<Longrightarrow> hex2ascii (ascii2hex (s @ 0 # r) @ t) = s @ [0]"
proof (induction s)
  case Nil
  then show ?case by (cases t) auto
next
  case (Cons c s)
  then show ?case by (simp add: of_int_hexdigit_byte nibbles_of_byte [simplified])
qed

lemma length_ascii2hex: "0 \<notin> set s \<Longrightarrow> length (ascii2hex (s @ 0 # r)) = 2 * length s + 1"
  by (induction s) auto

lemma length_hex2ascii_le: "2 * length (hex2ascii s) \<le> length s + 2"
  by (induction s rule: hex2ascii.induct) auto

section \<open>Escaping of binary data\<close>

text \<open>
  \<open>rsp_unescape\<close> works in place on the buffer that starts at its argument: \<open>from_off\<close> runs ahead
  of \<open>to_off\<close>.  The reads \<open>data ! from_off\<close> are inside the buffer when it is longer than \<open>len\<close>.
\<close>

function unescape_loop :: "byte list \<Rightarrow> nat \<Rightarrow> nat \<Rightarrow> nat \<Rightarrow> byte list \<times> nat" where
  "unescape_loop data len from_off to_off =
     (if from_off < len
      then (if data ! from_off = 0x7d
            then unescape_loop (data[to_off := data ! (from_off + 1) XOR 0x20]) len
                   (from_off + 2) (to_off + 1)
            else unescape_loop (data[to_off := data ! from_off]) len (from_off + 1) (to_off + 1))
      else (data, to_off))"
  by pat_completeness auto
termination
  by (relation "measure (\<lambda>(data, len, from_off, to_off). len - from_off)") auto

declare unescape_loop.simps [simp del]

definition rsp_unescape :: "byte list \<Rightarrow> nat \<Rightarrow> byte list \<times> nat" where
  "rsp_unescape data len = unescape_loop data len 0 0"

text \<open>The specification: what the escaped text stands for, and the escaping of \<open>put_packet\<close>.\<close>

fun unescape :: "byte list \<Rightarrow> byte list" where
  "unescape [] = []"
| "unescape [c] = [c]"
| "unescape (c # d # cs) = (if c = 0x7d then (d XOR 0x20) # unescape cs else c # unescape (d # cs))"

definition escape_char :: "byte \<Rightarrow> byte list" where
  "escape_char ch =
     (if ch = 0x24 \<or> ch = 0x23 \<or> ch = 0x2a \<or> ch = 0x7d then [0x7d, ch XOR 0x20] else [ch])"

definition escape :: "byte list \<Rightarrow> byte list" where
  "escape d = concat (map escape_char d)"

lemma escape_Nil [simp]: "escape [] = []"
  and escape_Cons [simp]: "escape (c # cs) = escape_char c @ escape cs"
  by (simp_all add: escape_def)

lemma unescape_literal: "c \<noteq> 0x7d \<Longrightarrow> unescape (c # cs) = c # unescape cs"
  by (cases cs) auto

lemma unescape_escape: "unescape (escape d) = d"
  by (induction d) (auto simp: escape_char_def unescape_literal)

lemma escape_no_special: "c \<in> set (escape d) \<Longrightarrow> c \<noteq> 0x24 \<and> c \<noteq> 0x23 \<and> c \<noteq> 0x2a"
  by (induction d) (auto simp: escape_char_def split: if_splits)

text \<open>No escape character is left without the character it escapes.\<close>

fun complete_escape :: "byte list \<Rightarrow> bool" where
  "complete_escape [] = True"
| "complete_escape [c] = (c \<noteq> 0x7d)"
| "complete_escape (c # d # cs) = (if c = 0x7d then complete_escape cs else complete_escape (d # cs))"

lemma complete_escape_literal: "c \<noteq> 0x7d \<Longrightarrow> complete_escape (c # cs) = complete_escape cs"
  by (cases cs) auto

lemma complete_escape_escape: "complete_escape (escape d)"
  by (induction d) (auto simp: escape_char_def complete_escape_literal)


definition segment :: "byte list \<Rightarrow> nat \<Rightarrow> nat \<Rightarrow> byte list" where
  "segment data len from_off = take (len - from_off) (drop from_off data)"

lemma segment_Cons:
  "from_off < len \<Longrightarrow> len \<le> length data \<Longrightarrow>
   segment data len from_off = data ! from_off # segment data len (from_off + 1)"
  by (simp add: segment_def Cons_nth_drop_Suc [symmetric] take_Cons' less_diff_conv)

lemma segment_end: "len \<le> from_off \<Longrightarrow> segment data len from_off = []"
  by (simp add: segment_def)

lemma segment_update: "i < from_off \<Longrightarrow> segment (data[i := v]) len from_off = segment data len from_off"
  by (simp add: segment_def)

lemma take_Suc_update: "i < length xs \<Longrightarrow> take (Suc i) (xs[i := v]) = take i xs @ [v]"
  by (simp add: take_Suc_conv_app_nth)

lemma unescape_loop_correct:
  assumes "to_off \<le> from_off" "from_off \<le> len" "len \<le> length data"
    and "complete_escape (segment data len from_off)"
    and "unescape_loop data len from_off to_off = (data', n)"
  shows "take n data' = take to_off data @ unescape (segment data len from_off)
     \<and> n = to_off + length (unescape (segment data len from_off))
     \<and> n \<le> len \<and> length data' = length data \<and> drop len data' = drop len data"
  using assms
proof (induction data len from_off to_off arbitrary: data' n rule: unescape_loop.induct)
  case (1 data len from_off to_off)
  show ?case
  proof (cases "from_off < len")
    case False
    then show ?thesis
      using "1.prems" by (simp add: unescape_loop.simps [of data] segment_end)
  next
    case less: True
    note seg = segment_Cons [OF less "1.prems"(3)]
    show ?thesis
    proof (cases "data ! from_off = 0x7d")
      case True
      with seg "1.prems"(4) have ne: "from_off + 1 < len"
        by (cases "from_off + 1 < len") (simp_all add: segment_end)
      note seg2 = segment_Cons [OF ne "1.prems"(3)]
      let ?v = "data ! (from_off + 1) XOR 0x20"
      have rec: "unescape_loop (data[to_off := ?v]) len (from_off + 2) (to_off + 1) = (data', n)"
        using "1.prems"(5) less True by (simp add: unescape_loop.simps [of data])
      have "complete_escape (segment (data[to_off := ?v]) len (from_off + 2))"
        using "1.prems"(1,4) seg seg2 True by (simp add: segment_update)
      from "1.IH"(1) [OF less True _ _ _ this rec] show ?thesis
        using "1.prems"(1,3) ne seg seg2 True less by (auto simp: segment_update take_Suc_update)
    next
      case False
      let ?v = "data ! from_off"
      have rec: "unescape_loop (data[to_off := ?v]) len (from_off + 1) (to_off + 1) = (data', n)"
        using "1.prems"(5) less False by (simp add: unescape_loop.simps [of data])
      have "complete_escape (segment (data[to_off := ?v]) len (from_off + 1))"
        using "1.prems"(1,4) seg False by (simp add: segment_update complete_escape_literal)
      from "1.IH"(2) [OF less False _ _ _ this rec] show ?thesis
        using "1.prems"(1,3) seg False less
        by (auto simp: segment_update take_Suc_update unescape_literal)
    qed
  qed
qed

lemma rsp_unescape_correct:
  assumes "len \<le> length data" "complete_escape (take len data)" "rsp_unescape data len = (data', n)"
  shows "take n data' = unescape (take len data)" "n = length (unescape (take len data))"
    "length data' = length data" "drop len data' = drop len data" "n \<le> len"
  using unescape_loop_correct [of 0 0 len data data' n] assms
  by (auto simp: rsp_unescape_def segment_def)

section \<open>Byte order of binary blocks\<close>

text \<open>
  \<open>swap_buf\<close> exchanges bytes 0/3 and 1/2 of every group of four that starts below \<open>len\<close>; the last
  group may reach past \<open>len\<close>, so the array has to hold \<open>swap_extent len\<close> bytes.
\<close>

function swap_loop :: "byte list \<Rightarrow> nat \<Rightarrow> nat \<Rightarrow> byte list" where
  "swap_loop p_buf len n =
     (if n < len
      then swap_loop (p_buf[n := p_buf ! (n + 3), n + 3 := p_buf ! n,
                            n + 1 := p_buf ! (n + 2), n + 2 := p_buf ! (n + 1)]) len (n + 4)
      else p_buf)"
  by pat_completeness auto
termination
  by (relation "measure (\<lambda>(p_buf, len, n). len - n)") auto

declare swap_loop.simps [simp del]

definition swap_buf :: "byte list \<Rightarrow> nat \<Rightarrow> byte list" where
  "swap_buf p_buf len = (if len > 2 then swap_loop p_buf len 0 else p_buf)"

definition swap_extent :: "nat \<Rightarrow> nat" where
  "swap_extent len = (if len > 2 then 4 * ((len + 3) div 4) else 0)"

fun swap4 :: "byte list \<Rightarrow> byte list" where
  "swap4 (a # b # c # d # bs) = d # c # b # a # swap4 bs"
| "swap4 bs = bs"

lemma length_swap4 [simp]: "length (swap4 bs) = length bs"
  by (induction bs rule: swap4.induct) auto

lemma swap4_swap4 [simp]: "swap4 (swap4 bs) = bs"
  by (induction bs rule: swap4.induct) auto

lemma split4: "4 \<le> length (xs :: byte list) \<Longrightarrow> \<exists>a b c d r. xs = a # b # c # d # r"
  by (cases xs rule: swap4.cases) auto

lemma div4_step:
  fixes d :: nat
  assumes "0 < d"
  shows "(d + 3) div 4 = (d - 4 + 3) div 4 + 1"
proof (cases "4 \<le> d")
  case True
  then obtain e where "d = e + 4" by (metis add.commute le_Suc_ex)
  then show ?thesis by simp
next
  case False
  with assms have "d = 1 \<or> d = 2 \<or> d = 3" by auto
  then show ?thesis by auto
qed

lemma swap_loop_groups:
  assumes "p_buf = pre @ grp @ post" "length pre = n" "length grp = 4 * ((len - n + 3) div 4)"
  shows "swap_loop p_buf len n = pre @ swap4 grp @ post"
  using assms
proof (induction p_buf len n arbitrary: pre grp rule: swap_loop.induct)
  case (1 p_buf len n)
  show ?case
  proof (cases "n < len")
    case False
    with "1.prems" show ?thesis by (simp add: swap_loop.simps [of "_ @ _"])
  next
    case True
    then have "4 \<le> length grp" using "1.prems"(3) by simp
    then obtain a b c d r where grp: "grp = a # b # c # d # r" using split4 by blast
    let ?p = "p_buf[n := p_buf ! (n + 3), n + 3 := p_buf ! n, n + 1 := p_buf ! (n + 2),
                    n + 2 := p_buf ! (n + 1)]"
    have "?p = (pre @ [d, c, b, a]) @ r @ post"
      using "1.prems"(1,2) grp by (simp add: list_update_append nth_append)
    moreover have "(len - n + 3) div 4 = (len - (n + 4) + 3) div 4 + 1"
      using div4_step [of "len - n"] True by simp
    then have "length r = 4 * ((len - (n + 4) + 3) div 4)"
      using "1.prems"(3) grp by simp
    ultimately have "swap_loop ?p len (n + 4) = (pre @ [d, c, b, a]) @ swap4 r @ post"
      using "1.IH" [OF True, of "pre @ [d, c, b, a]" r] "1.prems"(2) by simp
    with True grp show ?thesis by (simp add: swap_loop.simps [of p_buf])
  qed
qed

lemma swap_buf_groups:
  assumes "swap_extent len \<le> length p_buf" "2 < len"
  shows "swap_buf p_buf len = swap4 (take (swap_extent len) p_buf) @ drop (swap_extent len) p_buf"
  using assms swap_loop_groups [of p_buf "[]" "take (swap_extent len) p_buf" "drop (swap_extent len) p_buf" 0 len]
  by (simp add: swap_buf_def swap_extent_def)

lemma length_swap_loop [simp]: "length (swap_loop p_buf len n) = length p_buf"
  by (induction p_buf len n rule: swap_loop.induct) (simp add: swap_loop.simps)

lemma length_swap_buf [simp]: "length (swap_buf p_buf len) = length p_buf"
  by (simp add: swap_buf_def)

section \<open>Properties\<close>

text \<open>
  A register written by \<open>reg2hex\<close> into a packet is read back by \<open>hex2reg\<close> unchanged, whatever
  follows it in the buffer.
\<close>

lemma hex2reg_reg2hex: "hex2reg (reg2hex val @ rest) = val"
  by (rule hex2reg_reg2hex_append)

text \<open>
  \<open>hex2ascii\<close> recovers every string that \<open>ascii2hex\<close> encoded, up to its NUL and whatever the two
  arrays hold behind their NULs.
\<close>

lemma hex2ascii_ascii2hex:
  assumes "0 \<notin> set s"
  shows "hex2ascii (ascii2hex (s @ 0 # r) @ t) = s @ [0]"
  using assms by (rule hex2ascii_ascii2hex_append)

lemma hex2ascii_ascii2hex_witness:
  "hex2ascii (ascii2hex (bytes ''readspr 10'' @ 0 # []) @ [1]) = bytes ''readspr 10'' @ [0]"
  using hex2ascii_ascii2hex [of "bytes ''readspr 10''" "[]" "[1]"] by simp

text \<open>
  In place, \<open>rsp_unescape\<close> turns the text \<open>put_packet\<close> would send for \<open>d\<close> back into \<open>d\<close>, returns its
  length and leaves what follows the text alone.
\<close>

lemma rsp_unescape_inverts_escape:
  "case rsp_unescape (escape d @ rest) (length (escape d)) of
     (data', n) \<Rightarrow> n = length d \<and> take n data' = d \<and> drop (length (escape d)) data' = rest"
proof -
  obtain data' n where u: "rsp_unescape (escape d @ rest) (length (escape d)) = (data', n)"
    by (cases "rsp_unescape (escape d @ rest) (length (escape d))")
  have "complete_escape (take (length (escape d)) (escape d @ rest))"
    by (simp add: complete_escape_escape)
  from rsp_unescape_correct [OF _ this u] show ?thesis
    unfolding u by (simp add: unescape_escape)
qed

end
