(* ===== verification/DebugIf.thy ===== *)
theory DebugIf
  imports RspCodec
begin

text \<open>
  The debug-unit access functions that \<open>gdb.c\<close> calls (declared in \<open>rsp-rtl_sim.h\<close>), as a record of
  operations on a target state.  Every operation returns the C return value (0 is success) and the
  new target; a read also returns what it stored through its pointer, which all the functions of
  \<open>rsp-rtl_sim.c\<close> fill before they return.  Blocks are the bytes of the caller's \<open>uint32_t\<close> array.

  The locale \<open>dbg_target\<close> states what the server relies on: memory and special-purpose registers as
  the programmer sees them (\<open>tview\<close>), with the byte order of block transfers, the zero that a read of
  the NPC gives once the pipeline was flushed by a write to it, and the way the shift register of the
  debug module sends a block of words to the CPU.  What a special-purpose register keeps of a written
  value is a parameter of the view (\<open>tv_keeps\<close>): the status register of the OR1200, for instance, has
  17 bits and one of them is fixed.
\<close>

record 't dbg_ops =
  op_wb_read32 :: "u32 \<Rightarrow> 't \<Rightarrow> int \<times> u32 \<times> 't"
  op_wb_read8 :: "u32 \<Rightarrow> 't \<Rightarrow> int \<times> byte \<times> 't"
  op_wb_write32 :: "u32 \<Rightarrow> u32 \<Rightarrow> 't \<Rightarrow> int \<times> 't"
  op_wb_write16 :: "u32 \<Rightarrow> u16 \<Rightarrow> 't \<Rightarrow> int \<times> 't"
  op_wb_write8 :: "u32 \<Rightarrow> byte \<Rightarrow> 't \<Rightarrow> int \<times> 't"
  op_wb_read_block32 :: "u32 \<Rightarrow> nat \<Rightarrow> 't \<Rightarrow> int \<times> byte list \<times> 't"
  op_wb_write_block32 :: "u32 \<Rightarrow> byte list \<Rightarrow> 't \<Rightarrow> int \<times> 't"
  op_cpu0_read :: "u32 \<Rightarrow> nat \<Rightarrow> 't \<Rightarrow> int \<times> byte list \<times> 't"
  op_cpu0_write :: "u32 \<Rightarrow> byte list \<Rightarrow> 't \<Rightarrow> int \<times> 't"
  op_cpu0_read_ctrl :: "u32 \<Rightarrow> 't \<Rightarrow> int \<times> byte \<times> 't"
  op_cpu0_write_ctrl :: "u32 \<Rightarrow> byte \<Rightarrow> 't \<Rightarrow> int \<times> 't"
  op_client_detached :: "'t \<Rightarrow> 't"

section \<open>The programmer's view of a target\<close>

text \<open>
  \<open>tv_npc\<close> is where execution resumes; \<open>tv_flushed\<close> holds from a write of the NPC until the processor
  runs again.  A write of the PPC sets the program counter as well (\<open>pc_we\<close> in \<open>or1200_sprs.v\<close>).
\<close>

record tview =
  tv_mem :: "u32 \<Rightarrow> byte"
  tv_spr :: "u32 \<Rightarrow> u32"
  tv_npc :: u32
  tv_flushed :: bool
  tv_stalled :: bool
  tv_keeps :: "u32 \<Rightarrow> u32 \<Rightarrow> u32"

abbreviation (input) NPC_CPU_REG_ADD :: u32 where "NPC_CPU_REG_ADD \<equiv> 0x10"
abbreviation (input) SR_CPU_REG_ADD :: u32 where "SR_CPU_REG_ADD \<equiv> 0x11"
abbreviation (input) PPC_CPU_REG_ADD :: u32 where "PPC_CPU_REG_ADD \<equiv> 0x12"

definition mem_range :: "(u32 \<Rightarrow> byte) \<Rightarrow> u32 \<Rightarrow> nat \<Rightarrow> byte list" where
  "mem_range m a n = map (\<lambda>i. m (a + of_nat i)) [0..<n]"

fun mem_store :: "u32 \<Rightarrow> byte list \<Rightarrow> (u32 \<Rightarrow> byte) \<Rightarrow> u32 \<Rightarrow> byte" where
  "mem_store a [] m = m"
| "mem_store a (b # bs) m = (mem_store (a + 1) bs m)(a := b)"

definition reg_read :: "tview \<Rightarrow> u32 \<Rightarrow> u32" where
  "reg_read v r = (if r = NPC_CPU_REG_ADD then (if tv_flushed v then 0 else tv_npc v) else tv_spr v r)"

definition reg_write :: "u32 \<Rightarrow> u32 \<Rightarrow> tview \<Rightarrow> tview" where
  "reg_write r w v =
     (if r = NPC_CPU_REG_ADD \<or> r = PPC_CPU_REG_ADD then v\<lparr>tv_npc := w, tv_flushed := True\<rparr>
      else v\<lparr>tv_spr := (tv_spr v)(r := tv_keeps v r w)\<rparr>)"

fun regs_write :: "u32 \<Rightarrow> u32 list \<Rightarrow> tview \<Rightarrow> tview" where
  "regs_write r [] v = v"
| "regs_write r (w # ws) v = regs_write (r + 1) ws (reg_write r w v)"

definition regs_read :: "tview \<Rightarrow> u32 \<Rightarrow> nat \<Rightarrow> u32 list" where
  "regs_read v r n = map (\<lambda>i. reg_read v (r + of_nat i)) [0..<n]"

text \<open>
  The data phase of \<open>debug_cpu_go\<close> in \<open>vpi_debug_module.v\<close> picks the word to shift before it advances the
  word pointer, so the first bit sent for a word, bit 31, is still the one of the word before it.
\<close>

fun shift_from :: "bool \<Rightarrow> u32 list \<Rightarrow> u32 list" where
  "shift_from b [] = []"
| "shift_from b (w # ws) =
     (if b then set_bit 31 w else unset_bit 31 w) # shift_from (bit w 31) ws"

fun shifted_words :: "u32 list \<Rightarrow> u32 list" where
  "shifted_words [] = []"
| "shifted_words (w # ws) = w # shift_from (bit w 31) ws"

lemma length_mem_range [simp]: "length (mem_range m a n) = n"
  by (simp add: mem_range_def)

lemma length_regs_read [simp]: "length (regs_read v r n) = n"
  by (simp add: regs_read_def)

lemma length_shift_from [simp]: "length (shift_from b ws) = length ws"
  by (induction ws arbitrary: b) auto

lemma length_shifted_words [simp]: "length (shifted_words ws) = length ws"
  by (cases ws) auto

lemma mem_range_0 [simp]: "mem_range m a 0 = []"
  by (simp add: mem_range_def)

lemma mem_range_Suc: "mem_range m a (Suc n) = m a # mem_range m (a + 1) n"
  by (simp add: mem_range_def upt_conv_Cons map_Suc_upt [symmetric] del: upt_Suc) (simp add: ac_simps comp_def)

lemma mem_range_add: "mem_range m a (i + j) = mem_range m a i @ mem_range m (a + of_nat i) j"
  by (induction i arbitrary: a) (simp_all add: mem_range_Suc ac_simps)

lemma mem_store_append: "mem_store a (xs @ ys) m = mem_store a xs (mem_store (a + of_nat (length xs)) ys m)"
  by (induction xs arbitrary: a) (simp_all add: ac_simps)

lemma mem_store_other: "\<forall>i < length bs. x \<noteq> a + of_nat i \<Longrightarrow> mem_store a bs m x = m x"
proof (induction bs arbitrary: a)
  case (Cons b bs)
  have "\<forall>i < length bs. x \<noteq> a + 1 + of_nat i"
    using Cons.prems by (auto simp: ac_simps dest: spec [of _ "Suc _"])
  moreover have "x \<noteq> a" using Cons.prems by (auto dest: spec [of _ 0])
  ultimately show ?case using Cons.IH [of "a + 1"] by simp
qed simp

lemma mem_store_apply:
  "length bs \<le> 2 ^ 32 \<Longrightarrow>
   mem_store a bs m x = (if unat (x - a) < length bs then bs ! unat (x - a) else m x)"
proof (induction bs arbitrary: a)
  case (Cons b bs)
  show ?case
  proof (cases "x = a")
    case False
    then have "x - a \<noteq> 0" by simp
    then have "unat (x - a) = Suc (unat (x - a - 1))"
      by (simp add: unat_minus_one unat_gt_0)
    then have "unat (x - a) = Suc (unat (x - (a + 1)))"
      by (simp add: diff_diff_add)
    with False Cons show ?thesis by simp
  qed simp
qed simp

lemma mem_range_nth: "i < n \<Longrightarrow> mem_range m a n ! i = m (a + of_nat i)"
  by (simp add: mem_range_def)

text \<open>Storing the bytes that were there undoes a store.\<close>

lemma mem_store_restore:
  assumes "length bs \<le> 2 ^ 32"
  shows "mem_store a (mem_range m a (length bs)) (mem_store a bs m) = m"
proof
  fix x
  show "mem_store a (mem_range m a (length bs)) (mem_store a bs m) x = m x"
    using assms by (simp add: mem_store_apply mem_range_nth)
qed

lemma mem_store_twice: "length bs = length cs \<Longrightarrow> length bs \<le> 2 ^ 32 \<Longrightarrow> mem_store a bs (mem_store a cs m) = mem_store a bs m"
  by (rule ext) (simp add: mem_store_apply)

lemma mem_range_store:
  "length bs \<le> 2 ^ 32 \<Longrightarrow> mem_range (mem_store a bs m) a (length bs) = bs"
proof (induction bs arbitrary: a)
  case (Cons b bs)
  have "mem_range (mem_store a (b # bs) m) (a + 1) (length bs) = mem_range (mem_store (a + 1) bs m) (a + 1) (length bs)"
  proof -
    have "a + 1 + of_nat i \<noteq> a" if "i < length bs" for i
    proof
      assume "a + 1 + of_nat i = a"
      then have "of_nat (Suc i) = (0 :: u32)"
        by (simp add: add.assoc)
      moreover have "unat (of_nat (Suc i) :: u32) = Suc i"
        using that Cons.prems by (simp add: unsigned_of_nat take_bit_nat_eq_self del: of_nat_Suc)
      ultimately show False
        by simp
    qed
    then show ?thesis
      by (auto simp: mem_range_def)
  qed
  with Cons.IH [of "a + 1"] Cons.prems show ?case
    by (simp add: mem_range_Suc del: fun_upd_apply add: fun_upd_same)
qed simp

section \<open>Register blocks\<close>

text \<open>A block of registers that does not touch the program counter.\<close>

definition avoids_npc :: "u32 \<Rightarrow> nat \<Rightarrow> bool" where
  "avoids_npc r n \<longleftrightarrow> (\<forall>i < n. r + of_nat i \<noteq> NPC_CPU_REG_ADD \<and> r + of_nat i \<noteq> PPC_CPU_REG_ADD)"

lemma avoids_npc_Suc: "avoids_npc r (Suc n) \<longleftrightarrow> r \<noteq> NPC_CPU_REG_ADD \<and> r \<noteq> PPC_CPU_REG_ADD \<and> avoids_npc (r + 1) n"
  by (auto simp: avoids_npc_def less_Suc_eq_0_disj ac_simps)

lemma avoids_npc_above: "0x12 < r \<Longrightarrow> unat r + n \<le> 2 ^ 32 \<Longrightarrow> avoids_npc r n"
proof (unfold avoids_npc_def, intro allI impI)
  fix i assume r: "0x12 < r" "unat r + n \<le> 2 ^ 32" "i < n"
  then have "unat (r + of_nat i) = unat r + i"
    by (simp add: unat_word_ariths(1) unsigned_of_nat take_bit_nat_eq_self)
  with r show "r + of_nat i \<noteq> NPC_CPU_REG_ADD \<and> r + of_nat i \<noteq> PPC_CPU_REG_ADD"
    by (auto simp: word_less_nat_alt)
qed

lemma regs_write_frame [simp]:
  "tv_mem (regs_write r ws v) = tv_mem v" "tv_stalled (regs_write r ws v) = tv_stalled v"
  "tv_keeps (regs_write r ws v) = tv_keeps v"
  by (induction ws arbitrary: r v) (simp_all add: reg_write_def)

lemma regs_write_npc:
  "avoids_npc r (length ws) \<Longrightarrow>
   tv_npc (regs_write r ws v) = tv_npc v \<and> tv_flushed (regs_write r ws v) = tv_flushed v"
  by (induction ws arbitrary: r v) (simp_all add: reg_write_def avoids_npc_Suc)

lemma regs_write_other:
  "\<forall>i < length ws. q \<noteq> r + of_nat i \<Longrightarrow> tv_spr (regs_write r ws v) q = tv_spr v q"
proof (induction ws arbitrary: r v)
  case (Cons w ws)
  then have "\<forall>i < length ws. q \<noteq> r + 1 + of_nat i"
    by (auto simp: ac_simps dest: spec [of _ "Suc _"])
  moreover have "q \<noteq> r" using Cons.prems by (auto dest: spec [of _ 0])
  ultimately show ?case using Cons.IH [of "r + 1" "reg_write r w v"] by (simp add: reg_write_def)
qed simp

lemma regs_write_nth:
  assumes "avoids_npc r (length ws)" "unat r + length ws \<le> 2 ^ 32" "i < length ws"
  shows "tv_spr (regs_write r ws v) (r + of_nat i) = tv_keeps v (r + of_nat i) (ws ! i)"
  using assms
proof (induction ws arbitrary: r v i)
  case (Cons w ws)
  have r1: "unat (r + 1) = unat r + 1" if "ws \<noteq> []"
    using Cons.prems(2) that by (cases ws) (simp_all add: unat_word_ariths(1))
  show ?case
  proof (cases i)
    case 0
    have "\<forall>j < length ws. r \<noteq> r + 1 + of_nat j"
    proof (intro allI impI notI)
      fix j assume j: "j < length ws" and "r = r + 1 + of_nat j"
      then have "of_nat (Suc j) = (0 :: u32)" by (simp add: add.assoc)
      moreover have "unat (of_nat (Suc j) :: u32) = Suc j"
        using j Cons.prems(2) by (simp add: unsigned_of_nat take_bit_nat_eq_self del: of_nat_Suc)
      ultimately show False by simp
    qed
    with 0 Cons.prems(1) show ?thesis
      by (simp add: regs_write_other reg_write_def avoids_npc_Suc)
  next
    case (Suc j)
    with Cons.prems have "ws \<noteq> []" by auto
    from r1 [OF this] Suc Cons.prems Cons.IH [of "r + 1" j "reg_write r w v"] show ?thesis
      by (auto simp: avoids_npc_Suc ac_simps reg_write_def)
  qed
qed simp

lemma shift_from_bit: "i < length ws \<Longrightarrow> n < 31 \<Longrightarrow> bit (shift_from b ws ! i) n = bit (ws ! i) n"
  by (induction ws arbitrary: b i) (auto simp: nth_Cons bit_set_bit_iff bit_unset_bit_iff split: nat.split)

lemma shifted_words_low: "i < length ws \<Longrightarrow> take_bit 31 (shifted_words ws ! i) = take_bit 31 (ws ! i)"
  by (cases ws; cases i) (auto intro!: bit_word_eqI simp: bit_take_bit_iff shift_from_bit)

lemma shifted_words_top:
  "Suc i < length ws \<Longrightarrow> bit (shifted_words ws ! Suc i) 31 = bit (ws ! i) 31"
proof -
  have "i < length vs \<Longrightarrow> bit (shift_from b vs ! i) 31 = (if i = 0 then b else bit (vs ! (i - 1)) 31)" for b i and vs :: "u32 list"
    by (induction vs arbitrary: b i) (auto simp: nth_Cons bit_set_bit_iff bit_unset_bit_iff split: nat.split)
  then show "Suc i < length ws \<Longrightarrow> bit (shifted_words ws ! Suc i) 31 = bit (ws ! i) 31"
    by (cases ws; cases i) auto
qed

section \<open>What the server relies on\<close>

text \<open>The block transfers of the debug module: whole words, at most the 4096 words of its storage.\<close>

definition block_ok :: "nat \<Rightarrow> bool" where
  "block_ok n \<longleftrightarrow> 0 < n \<and> n mod 4 = 0 \<and> n \<le> 16384"

lemma block_ok_words:
  assumes "block_ok n"
  shows "n div 4 \<le> 4096" "0 < n div 4" "\<not> 4 < n \<Longrightarrow> n div 4 = Suc 0"
proof -
  from assms have b: "0 < n" "n mod 4 = 0" "n \<le> 16384" by (simp_all add: block_ok_def)
  then obtain k where "n = 4 * k" by (auto simp flip: dvd_eq_mod_eq_0)
  with b show "n div 4 \<le> 4096" "0 < n div 4" "\<not> 4 < n \<Longrightarrow> n div 4 = Suc 0" by auto
qed

locale dbg_target =
  fixes D :: "'t dbg_ops" and view :: "'t \<Rightarrow> tview" and ok :: "'t \<Rightarrow> bool"
  assumes wb_read8: "ok t \<Longrightarrow> tv_stalled (view t) \<Longrightarrow>
      \<exists>t'. op_wb_read8 D a t = (0, tv_mem (view t) a, t') \<and> view t' = view t \<and> ok t'"
    and wb_write8: "ok t \<Longrightarrow> tv_stalled (view t) \<Longrightarrow>
      \<exists>t'. op_wb_write8 D a b t = (0, t') \<and> view t' = (view t)\<lparr>tv_mem := (tv_mem (view t))(a := b)\<rparr> \<and> ok t'"
    and wb_read_block32: "ok t \<Longrightarrow> tv_stalled (view t) \<Longrightarrow> a AND 3 = 0 \<Longrightarrow> block_ok n \<Longrightarrow>
      \<exists>t'. op_wb_read_block32 D a n t = (0, swap4 (mem_range (tv_mem (view t)) a n), t') \<and> view t' = view t \<and> ok t'"
    and wb_write_block32: "ok t \<Longrightarrow> tv_stalled (view t) \<Longrightarrow> a AND 3 = 0 \<Longrightarrow> block_ok (length bs) \<Longrightarrow>
      \<exists>t'. op_wb_write_block32 D a bs t = (0, t') \<and>
        view t' = (view t)\<lparr>tv_mem := mem_store a (swap4 bs) (tv_mem (view t))\<rparr> \<and> ok t'"
    and cpu0_read: "ok t \<Longrightarrow> tv_stalled (view t) \<Longrightarrow> block_ok n \<Longrightarrow>
      \<exists>t'. op_cpu0_read D r n t = (0, le_of_words (regs_read (view t) r (n div 4)), t') \<and> view t' = view t \<and> ok t'"
    and cpu0_write: "ok t \<Longrightarrow> tv_stalled (view t) \<Longrightarrow> block_ok (length bs) \<Longrightarrow>
      \<exists>t'. op_cpu0_write D r bs t = (0, t') \<and>
        view t' = regs_write r (shifted_words (words_of_le bs)) (view t) \<and> ok t'"
    and cpu0_read_ctrl: "ok t \<Longrightarrow> tv_stalled (view t) \<Longrightarrow>
      \<exists>t' b. op_cpu0_read_ctrl D 0 t = (0, b, t') \<and> b AND 1 = 1 \<and> view t' = view t \<and> ok t'"
    and cpu0_unstall: "ok t \<Longrightarrow>
      \<exists>t'. op_cpu0_write_ctrl D 0 0 t = (0, t') \<and> view t' = (view t)\<lparr>tv_stalled := False, tv_flushed := False\<rparr> \<and> ok t'"
    and cpu0_stall: "ok t \<Longrightarrow>
      \<exists>t'. op_cpu0_write_ctrl D 0 1 t = (0, t') \<and> view t' = (view t)\<lparr>tv_stalled := True\<rparr> \<and> ok t'"
begin

lemma cpu0_write_word:
  assumes "ok t" "tv_stalled (view t)"
  obtains t' where "op_cpu0_write D r (le_bytes w) t = (0, t')" "view t' = reg_write r w (view t)" "ok t'"
  using cpu0_write [OF assms, of "le_bytes w" r] words_of_le_of_words [of "[w]"]
  by (auto simp: block_ok_def simp del: words_of_le_of_words)

lemma cpu0_read_word:
  assumes "ok t" "tv_stalled (view t)"
  obtains t' where "op_cpu0_read D r 4 t = (0, le_bytes (reg_read (view t) r), t')" "view t' = view t" "ok t'"
  using cpu0_read [OF assms, of 4 r] by (auto simp: block_ok_def regs_read_def)

end

end
