(* ===== verification/JpVpi.thy ===== *)
theory JpVpi
  imports Prelude
begin

text \<open>
  The simulator end of the pipes between the RSP server and the RTL simulation: the VPI system tasks of
  \<open>orpsocv2/bench/verilog/vpi/c/jp_vpi.c\<close> (\<open>check_for_command\<close>, \<open>get_command_address\<close>, \<open>get_command_data\<close>,
  \<open>get_command_block_data\<close>, \<open>return_command_data\<close>, \<open>return_command_block_data\<close>, \<open>return_response\<close>), in the
  order in which the command loop of \<open>vpi_debug_module.v\<close> calls them.  The JTAG tasks of that Verilog
  module, which drive the debug interface bit by bit, are the record \<open>hw_tasks\<close>.

  A pipe is the list of bytes in it.  The simulator is a coroutine: it stays in \<open>Polling\<close> until a command
  byte is there, acknowledges it and goes to \<open>Serving\<close>; it leaves \<open>Serving\<close> when all the arguments of the
  command can be read, since the calls in between only wait for them.
\<close>

section \<open>The Verilog side\<close>

record 'h hw_tasks =
  hw_reset_tap :: "'h \<Rightarrow> 'h"
  hw_set_instruction :: "u32 \<Rightarrow> 'h \<Rightarrow> 'h"
  hw_read_id_code :: "'h \<Rightarrow> u32 \<times> 'h"
  hw_module_select :: "u32 \<Rightarrow> 'h \<Rightarrow> 'h"
  hw_cpu_wr_ctrl :: "u32 \<Rightarrow> 'h \<Rightarrow> 'h"
  hw_cpu_rd_ctrl :: "'h \<Rightarrow> u32 \<times> 'h"
  hw_cpu_write :: "u32 \<Rightarrow> u32 list \<Rightarrow> 'h \<Rightarrow> 'h"
  hw_cpu_read :: "u32 \<Rightarrow> nat \<Rightarrow> 'h \<Rightarrow> u32 list \<times> 'h"
  hw_wb_write_32 :: "u32 \<Rightarrow> u32 \<Rightarrow> 'h \<Rightarrow> 'h"
  hw_wb_write_16 :: "u16 \<Rightarrow> u32 \<Rightarrow> 'h \<Rightarrow> 'h"
  hw_wb_write_8 :: "byte \<Rightarrow> u32 \<Rightarrow> 'h \<Rightarrow> 'h"
  hw_wb_read_32 :: "u32 \<Rightarrow> 'h \<Rightarrow> u32 \<times> 'h"
  hw_wb_read_8 :: "u32 \<Rightarrow> 'h \<Rightarrow> u32 \<times> 'h"
  hw_wb_block_write :: "u32 \<Rightarrow> u32 list \<Rightarrow> 'h \<Rightarrow> 'h"
  hw_wb_block_read :: "u32 \<Rightarrow> nat \<Rightarrow> 'h \<Rightarrow> u32 list \<times> 'h"

datatype vpi_state = Polling | Serving byte | Finished

text \<open>\<open>data_storage\<close> has 4096 words; \<open>heap_junk\<close> fills what \<open>malloc\<close> returned uninitialised.\<close>

record 'h vpi =
  command_pipe :: "byte list"
  rsp_to_vpi_pipe :: "byte list"
  vpi_to_rsp_pipe :: "byte list"
  vpi_pc :: vpi_state
  data_storage :: "u32 list"
  heap_junk :: byte
  hw :: 'h

abbreviation (input) CMD_JTAG_SET_IR :: byte where "CMD_JTAG_SET_IR \<equiv> 0x1"
abbreviation (input) CMD_SET_DEBUG_CHAIN :: byte where "CMD_SET_DEBUG_CHAIN \<equiv> 0x2"
abbreviation (input) CMD_CPU_CTRL_WR :: byte where "CMD_CPU_CTRL_WR \<equiv> 0x3"
abbreviation (input) CMD_CPU_CTRL_RD :: byte where "CMD_CPU_CTRL_RD \<equiv> 0x4"
abbreviation (input) CMD_CPU_WR_REG :: byte where "CMD_CPU_WR_REG \<equiv> 0x5"
abbreviation (input) CMD_CPU_RD_REG :: byte where "CMD_CPU_RD_REG \<equiv> 0x6"
abbreviation (input) CMD_WB_WR :: byte where "CMD_WB_WR \<equiv> 0x7"
abbreviation (input) CMD_WB_RD32 :: byte where "CMD_WB_RD32 \<equiv> 0x8"
abbreviation (input) CMD_WB_BLOCK_WR32 :: byte where "CMD_WB_BLOCK_WR32 \<equiv> 0x9"
abbreviation (input) CMD_WB_BLOCK_RD32 :: byte where "CMD_WB_BLOCK_RD32 \<equiv> 0xa"
abbreviation (input) CMD_RESET :: byte where "CMD_RESET \<equiv> 0xb"
abbreviation (input) CMD_READ_JTAG_ID :: byte where "CMD_READ_JTAG_ID \<equiv> 0xc"
abbreviation (input) CMD_GDB_DETACH :: byte where "CMD_GDB_DETACH \<equiv> 0xd"
abbreviation (input) CMD_WB_RD8 :: byte where "CMD_WB_RD8 \<equiv> 0xe"

section \<open>The system tasks\<close>

text \<open>Reads return \<open>None\<close> when they would wait.\<close>

definition check_for_command :: "'h vpi \<Rightarrow> (byte \<times> 'h vpi) option" where
  "check_for_command v =
     (case command_pipe v of
        [] \<Rightarrow> None
      | cmd # cs \<Rightarrow> Some (cmd, v\<lparr>command_pipe := cs, vpi_to_rsp_pipe := vpi_to_rsp_pipe v @ [cmd]\<rparr>))"

definition get_command_data :: "'h vpi \<Rightarrow> (u32 \<times> 'h vpi) option" where
  "get_command_data v =
     (if length (rsp_to_vpi_pipe v) < 4 then None
      else Some (le_word (take 4 (rsp_to_vpi_pipe v)), v\<lparr>rsp_to_vpi_pipe := drop 4 (rsp_to_vpi_pipe v)\<rparr>))"

definition get_command_address :: "'h vpi \<Rightarrow> (u32 \<times> 'h vpi) option" where
  "get_command_address v =
     (if length (rsp_to_vpi_pipe v) < 4 then None
      else Some (le_word (take 4 (rsp_to_vpi_pipe v)), v\<lparr>rsp_to_vpi_pipe := drop 4 (rsp_to_vpi_pipe v)\<rparr>))"

fun load_words :: "nat \<Rightarrow> nat \<Rightarrow> 'h vpi \<Rightarrow> 'h vpi option" where
  "load_words loaded 0 v = Some v"
| "load_words loaded (Suc n) v =
     (case get_command_data v of
        None \<Rightarrow> None
      | Some (w, v') \<Rightarrow> load_words (Suc loaded) n (v'\<lparr>data_storage := (data_storage v')[loaded := w]\<rparr>))"

text \<open>A block that does not fit into the memory is left in the pipe; odd bytes at the end are dropped.\<close>

definition get_command_block_data :: "nat \<Rightarrow> 'h vpi \<Rightarrow> 'h vpi option" where
  "get_command_block_data len v =
     (let num_words = len div 4; throw_away_bytes = len mod 4
      in if length (data_storage v) < num_words then Some v
         else (case load_words 0 num_words v of
                 None \<Rightarrow> None
               | Some v1 \<Rightarrow>
                   if throw_away_bytes \<noteq> 0
                   then (if length (rsp_to_vpi_pipe v1) < throw_away_bytes then None
                         else Some (v1\<lparr>rsp_to_vpi_pipe := drop throw_away_bytes (rsp_to_vpi_pipe v1)\<rparr>))
                   else Some v1))"

definition return_command_data :: "nat \<Rightarrow> u32 \<Rightarrow> 'h vpi \<Rightarrow> 'h vpi" where
  "return_command_data len data v = v\<lparr>vpi_to_rsp_pipe := vpi_to_rsp_pipe v @ take len (le_bytes data)\<rparr>"

text \<open>
  Up to four bytes come from the variable of the last word read, more from the allocated block.  A word
  index outside the memory ends the call without a reply.
\<close>

definition return_command_block_data :: "nat \<Rightarrow> 'h vpi \<Rightarrow> 'h vpi" where
  "return_command_block_data len v =
     (let num_words = len div 4
      in if length (data_storage v) < num_words then v
         else (let block = le_of_words (take num_words (data_storage v)) @ replicate (len mod 4) (heap_junk v);
                   last = (if num_words = 0 then replicate 4 (heap_junk v) else le_bytes (data_storage v ! (num_words - 1)));
                   out = (if len > 4 then block else take len last)
               in v\<lparr>vpi_to_rsp_pipe := vpi_to_rsp_pipe v @ out\<rparr>))"

definition return_response :: "'h vpi \<Rightarrow> 'h vpi" where
  "return_response v = v\<lparr>vpi_to_rsp_pipe := vpi_to_rsp_pipe v @ [0]\<rparr>"

section \<open>The command loop\<close>

text \<open>The \<open>reg [31:0] data_storage\<close> after a block read: the words shifted in overwrite its start.\<close>

definition store_words :: "u32 list \<Rightarrow> 'h vpi \<Rightarrow> 'h vpi" where
  "store_words ws v = v\<lparr>data_storage := take (length (data_storage v)) (ws @ drop (length ws) (data_storage v))\<rparr>"

definition with_data :: "('h vpi \<Rightarrow> (u32 \<times> 'h vpi) option) \<Rightarrow> 'h vpi \<Rightarrow> (u32 \<Rightarrow> 'h vpi \<Rightarrow> 'h vpi option) \<Rightarrow> 'h vpi option" where
  "with_data get v f = (case get v of None \<Rightarrow> None | Some (w, v') \<Rightarrow> f w v')"

definition serve :: "'h hw_tasks \<Rightarrow> byte \<Rightarrow> 'h vpi \<Rightarrow> 'h vpi option" where
  "serve H cmd v =
     (if cmd = CMD_RESET then Some (v\<lparr>hw := hw_reset_tap H (hw v)\<rparr>)
      else if cmd = CMD_JTAG_SET_IR
      then with_data get_command_data v (\<lambda>ir v1. Some (v1\<lparr>hw := hw_set_instruction H ir (hw v1)\<rparr>))
      else if cmd = CMD_SET_DEBUG_CHAIN
      then with_data get_command_data v (\<lambda>ch v1. Some (v1\<lparr>hw := hw_module_select H ch (hw v1)\<rparr>))
      else if cmd = CMD_CPU_CTRL_WR
      then with_data get_command_data v (\<lambda>c v1. Some (v1\<lparr>hw := hw_cpu_wr_ctrl H (c AND 3) (hw v1)\<rparr>))
      else if cmd = CMD_CPU_CTRL_RD
      then (let (c, h) = hw_cpu_rd_ctrl H (hw v) in Some (return_command_data 4 (c AND 3) (v\<lparr>hw := h\<rparr>)))
      else if cmd = CMD_CPU_WR_REG
      then with_data get_command_address v (\<lambda>adr v1. with_data get_command_data v1 (\<lambda>len v2.
             (case get_command_block_data (unat len) v2 of
                None \<Rightarrow> None
              | Some v3 \<Rightarrow>
                  (let n = (if unat len > 4 then unat len div 4 else 1)
                   in Some (v3\<lparr>hw := hw_cpu_write H adr (take n (data_storage v3)) (hw v3)\<rparr>)))))
      else if cmd = CMD_CPU_RD_REG
      then with_data get_command_address v (\<lambda>adr v1. with_data get_command_data v1 (\<lambda>len v2.
             (let (ws, h) = hw_cpu_read H adr (if unat len > 4 then unat len div 4 else 1) (hw v2)
              in Some (return_command_block_data (unat len) (store_words ws (v2\<lparr>hw := h\<rparr>))))))
      else if cmd = CMD_WB_WR
      then with_data get_command_address v (\<lambda>adr v1. with_data get_command_data v1 (\<lambda>size v2.
             with_data get_command_data v2 (\<lambda>data v3.
               Some (if size = 4 then v3\<lparr>hw := hw_wb_write_32 H data adr (hw v3)\<rparr>
                     else if size = 2 then v3\<lparr>hw := hw_wb_write_16 H (ucast data) adr (hw v3)\<rparr>
                     else if size = 1 then v3\<lparr>hw := hw_wb_write_8 H (ucast data) adr (hw v3)\<rparr>
                     else v3))))
      else if cmd = CMD_WB_RD32
      then with_data get_command_address v (\<lambda>adr v1.
             (let (w, h) = hw_wb_read_32 H adr (hw v1) in Some (return_command_data 4 w (v1\<lparr>hw := h\<rparr>))))
      else if cmd = CMD_WB_RD8
      then with_data get_command_address v (\<lambda>adr v1.
             (let (w, h) = hw_wb_read_8 H adr (hw v1) in Some (return_command_data 1 w (v1\<lparr>hw := h\<rparr>))))
      else if cmd = CMD_WB_BLOCK_WR32
      then with_data get_command_address v (\<lambda>adr v1. with_data get_command_data v1 (\<lambda>len v2.
             (case get_command_block_data (unat len) v2 of
                None \<Rightarrow> None
              | Some v3 \<Rightarrow>
                  Some (v3\<lparr>hw := hw_wb_block_write H adr (take (unat len div 4) (data_storage v3)) (hw v3)\<rparr>))))
      else if cmd = CMD_WB_BLOCK_RD32
      then with_data get_command_address v (\<lambda>adr v1. with_data get_command_data v1 (\<lambda>len v2.
             (let (ws, h) = hw_wb_block_read H adr (unat len div 4) (hw v2)
              in Some (return_command_block_data (unat len) (store_words ws (v2\<lparr>hw := h\<rparr>))))))
      else if cmd = CMD_READ_JTAG_ID
      then (let (i, h) = hw_read_id_code H (hw v) in Some (return_command_data 4 i (v\<lparr>hw := h\<rparr>)))
      else Some (v\<lparr>vpi_pc := Finished\<rparr>))"

text \<open>One step of the loop: \<open>None\<close> when it waits.  \<open>$finish\<close> (a detach or an unknown command) ends it.\<close>

definition vpi_step :: "'h hw_tasks \<Rightarrow> 'h vpi \<Rightarrow> 'h vpi option" where
  "vpi_step H v =
     (case vpi_pc v of
        Polling \<Rightarrow> (case check_for_command v of None \<Rightarrow> None | Some (cmd, v1) \<Rightarrow> Some (v1\<lparr>vpi_pc := Serving cmd\<rparr>))
      | Serving cmd \<Rightarrow>
          (case serve H cmd v of
             None \<Rightarrow> None
           | Some v1 \<Rightarrow> if vpi_pc v1 = Finished then Some v1 else Some ((return_response v1)\<lparr>vpi_pc := Polling\<rparr>))
      | Finished \<Rightarrow> None)"

text \<open>The simulator runs until it waits; every step uses up a command byte or a served command.\<close>

definition vpi_work :: "'h vpi \<Rightarrow> nat" where
  "vpi_work v = 2 * length (command_pipe v) + (case vpi_pc v of Serving cmd \<Rightarrow> 1 | _ \<Rightarrow> 0)"

lemma get_command_data_frame [frame_simps]:
  "get_command_data v = Some (w, v') \<Longrightarrow> command_pipe v' = command_pipe v \<and> vpi_pc v' = vpi_pc v"
  by (auto simp: get_command_data_def split: if_splits)

lemma get_command_address_data: "get_command_address = get_command_data"
  by (rule ext) (simp add: get_command_address_def get_command_data_def)

lemma load_words_frame:
  "load_words i n v = Some v' \<Longrightarrow> command_pipe v' = command_pipe v \<and> vpi_pc v' = vpi_pc v"
proof (induction n arbitrary: i v)
  case (Suc n)
  then show ?case
    by (force simp: get_command_data_def split: if_splits option.splits)
qed simp

lemma get_command_block_data_frame:
  "get_command_block_data len v = Some v' \<Longrightarrow> command_pipe v' = command_pipe v \<and> vpi_pc v' = vpi_pc v"
  by (auto simp: get_command_block_data_def Let_def dest: load_words_frame split: if_splits option.splits)

lemma serve_command_pipe: "serve H cmd v = Some v' \<Longrightarrow> command_pipe v' = command_pipe v"
  by (auto simp: serve_def with_data_def Let_def get_command_address_data return_command_data_def
      return_command_block_data_def store_words_def
      dest!: get_command_data_frame get_command_block_data_frame split: if_splits option.splits prod.splits)

lemma vpi_step_work: "vpi_step H v = Some v' \<Longrightarrow> vpi_work v' < vpi_work v"
  by (auto simp: vpi_step_def vpi_work_def check_for_command_def return_response_def
      dest!: serve_command_pipe split: vpi_state.splits list.splits option.splits if_splits)

function vpi_run :: "'h hw_tasks \<Rightarrow> 'h vpi \<Rightarrow> 'h vpi" where
  "vpi_run H v = (case vpi_step H v of None \<Rightarrow> v | Some v' \<Rightarrow> vpi_run H v')"
  by pat_completeness auto
termination
  by (relation "measure (\<lambda>(H, v). vpi_work v)") (auto dest: vpi_step_work)

declare vpi_run.simps [simp del]

end
