(* ===== verification/RtlSim.thy ===== *)
theory RtlSim
  imports DebugIf JpVpi
begin

text \<open>
  The server end of the pipes, \<open>orpsocv2/bench/verilog/vpi/c/rsp-rtl_sim.c\<close>: the transfers to the VPI
  module, the chain selection, the debug-unit accesses \<open>dbg_*\<close> that \<open>gdb.c\<close> calls, the reset sequence with
  its retry counter, and the CRC step.  A blocking read lets the simulator run until it waits; this loses
  no behaviour, because each end of a pipe only ever waits for the other and what it reads does not depend
  on when it reads.  A read that the simulator does not satisfy would wait for ever and sets \<open>stuck\<close>.

  The accesses are shown to be the calls of the Verilog tasks with nothing left in the pipes, and
  \<open>rtl_ops\<close> collects them for the server.
\<close>

record 'h rtl =
  current_chain :: int
  dbg_chain :: int
  retry_no :: nat
  stuck :: bool
  bad_ack :: bool
  sim :: "'h vpi"

section \<open>Transfers\<close>

definition read_vpi :: "'h hw_tasks \<Rightarrow> nat \<Rightarrow> 'h rtl \<Rightarrow> byte list \<times> 'h rtl" where
  "read_vpi H n r =
     (let v = vpi_run H (sim r)
      in if length (vpi_to_rsp_pipe v) < n then (replicate n 0, r\<lparr>sim := v, stuck := True\<rparr>)
         else (take n (vpi_to_rsp_pipe v), r\<lparr>sim := v\<lparr>vpi_to_rsp_pipe := drop n (vpi_to_rsp_pipe v)\<rparr>\<rparr>))"

definition send_command_to_vpi :: "'h hw_tasks \<Rightarrow> byte \<Rightarrow> 'h rtl \<Rightarrow> 'h rtl" where
  "send_command_to_vpi H cmd r =
     (let r1 = r\<lparr>sim := (sim r)\<lparr>command_pipe := command_pipe (sim r) @ [cmd]\<rparr>\<rparr>;
          (resp, r2) = read_vpi H 1 r1
      in if resp \<noteq> [cmd] then r2\<lparr>bad_ack := True\<rparr> else r2)"

definition send_block_data_to_vpi :: "byte list \<Rightarrow> 'h rtl \<Rightarrow> 'h rtl" where
  "send_block_data_to_vpi bs r = r\<lparr>sim := (sim r)\<lparr>rsp_to_vpi_pipe := rsp_to_vpi_pipe (sim r) @ bs\<rparr>\<rparr>"

definition send_data_to_vpi :: "u32 \<Rightarrow> 'h rtl \<Rightarrow> 'h rtl" where
  "send_data_to_vpi data r = r\<lparr>sim := (sim r)\<lparr>rsp_to_vpi_pipe := rsp_to_vpi_pipe (sim r) @ le_bytes data\<rparr>\<rparr>"

definition send_address_to_vpi :: "u32 \<Rightarrow> 'h rtl \<Rightarrow> 'h rtl" where
  "send_address_to_vpi address r = r\<lparr>sim := (sim r)\<lparr>rsp_to_vpi_pipe := rsp_to_vpi_pipe (sim r) @ le_bytes address\<rparr>\<rparr>"

definition get_byte_from_vpi :: "'h hw_tasks \<Rightarrow> 'h rtl \<Rightarrow> byte \<times> 'h rtl" where
  "get_byte_from_vpi H r = (let (bs, r1) = read_vpi H 1 r in (bs ! 0, r1))"

definition get_word_from_vpi :: "'h hw_tasks \<Rightarrow> 'h rtl \<Rightarrow> u32 \<times> 'h rtl" where
  "get_word_from_vpi H r = (let (bs, r1) = read_vpi H 4 r in (le_word bs, r1))"

text \<open>The VPI end writes a block with one call, so the first read of the loop returns all of it.\<close>

definition get_block_data_from_vpi :: "'h hw_tasks \<Rightarrow> nat \<Rightarrow> 'h rtl \<Rightarrow> byte list \<times> 'h rtl" where
  "get_block_data_from_vpi H len r = read_vpi H len r"

definition get_response_from_vpi :: "'h hw_tasks \<Rightarrow> 'h rtl \<Rightarrow> 'h rtl" where
  "get_response_from_vpi H r = snd (read_vpi H 1 r)"

section \<open>Reset, retries and chains\<close>

abbreviation (input) JI_IDCODE :: u32 where "JI_IDCODE \<equiv> 2"
abbreviation (input) JI_DEBUG :: u32 where "JI_DEBUG \<equiv> 8"
abbreviation (input) DC_WISHBONE :: int where "DC_WISHBONE \<equiv> 0"
abbreviation (input) DC_CPU0 :: int where "DC_CPU0 \<equiv> 1"
abbreviation (input) DBG_ERR_OK :: int where "DBG_ERR_OK \<equiv> 0"

definition jp2_reset_JTAG :: "'h hw_tasks \<Rightarrow> 'h rtl \<Rightarrow> 'h rtl" where
  "jp2_reset_JTAG H r = get_response_from_vpi H (send_command_to_vpi H CMD_RESET r)"

definition dbg_reset :: "'h hw_tasks \<Rightarrow> 'h rtl \<Rightarrow> int \<times> 'h rtl" where
  "dbg_reset H r =
     (let r1 = jp2_reset_JTAG H r;
          r2 = get_response_from_vpi H (send_data_to_vpi JI_IDCODE (send_command_to_vpi H CMD_JTAG_SET_IR r1));
          (jtag_id, r3) = get_word_from_vpi H (send_command_to_vpi H CMD_READ_JTAG_ID r2);
          r4 = get_response_from_vpi H r3;
          r5 = get_response_from_vpi H (send_data_to_vpi JI_DEBUG (send_command_to_vpi H CMD_JTAG_SET_IR r4))
      in (DBG_ERR_OK, r5\<lparr>current_chain := - 1\<rparr>))"

text \<open>\<open>NUM_SOFT_RETRIES\<close> and \<open>NUM_HARD_RETRIES\<close> are 3.\<close>

definition retry_do :: "'h hw_tasks \<Rightarrow> 'h rtl \<Rightarrow> int \<times> 'h rtl" where
  "retry_do H r =
     (let (e, r1) = (if retry_no r \<ge> 3 then dbg_reset H r else (0, r))
      in if e \<noteq> 0 then (e, r1)
         else if retry_no r1 \<ge> 3 + 3 then (0, r1\<lparr>retry_no := 0\<rparr>)
         else (1, r1\<lparr>retry_no := retry_no r1 + 1\<rparr>))"

definition retry_ok :: "'h rtl \<Rightarrow> 'h rtl" where
  "retry_ok r = r\<lparr>retry_no := 0\<rparr>"

definition dbg_set_chain :: "'h hw_tasks \<Rightarrow> int \<Rightarrow> 'h rtl \<Rightarrow> int \<times> 'h rtl" where
  "dbg_set_chain H chain r =
     (if current_chain r = chain then (DBG_ERR_OK, r)
      else (let r1 = send_command_to_vpi H CMD_SET_DEBUG_CHAIN (r\<lparr>dbg_chain := chain\<rparr>);
                r2 = get_response_from_vpi H (send_data_to_vpi (word_of_int chain) r1)
            in (DBG_ERR_OK, r2\<lparr>current_chain := chain\<rparr>)))"

definition dbg_ctrl :: "'h hw_tasks \<Rightarrow> u32 \<Rightarrow> u32 \<Rightarrow> 'h rtl \<Rightarrow> int \<times> 'h rtl" where
  "dbg_ctrl H reset stall r =
     (let (_, r1) = dbg_set_chain H (dbg_chain r) r;
          r2 = send_command_to_vpi H CMD_CPU_CTRL_WR r1;
          r3 = send_data_to_vpi ((stall AND 1) OR push_bit 1 (reset AND 1)) r2
      in (DBG_ERR_OK, get_response_from_vpi H r3))"

definition dbg_ctrl_read :: "'h hw_tasks \<Rightarrow> 'h rtl \<Rightarrow> int \<times> u32 \<times> u32 \<times> 'h rtl" where
  "dbg_ctrl_read H r =
     (let (_, r1) = dbg_set_chain H (dbg_chain r) r;
          (_, r2) = dbg_set_chain H (dbg_chain r1) r1;
          (resp, r3) = get_word_from_vpi H (send_command_to_vpi H CMD_CPU_CTRL_RD r2);
          r4 = get_response_from_vpi H r3
      in (DBG_ERR_OK, resp AND 1, drop_bit 1 resp AND 1, r4))"

section \<open>Accesses\<close>

definition dbg_wb_read32 :: "'h hw_tasks \<Rightarrow> u32 \<Rightarrow> 'h rtl \<Rightarrow> int \<times> u32 \<times> 'h rtl" where
  "dbg_wb_read32 H adr r =
     (let (_, r1) = dbg_set_chain H DC_WISHBONE r;
          r2 = send_address_to_vpi adr (send_command_to_vpi H CMD_WB_RD32 r1);
          (data, r3) = get_word_from_vpi H r2
      in (0, data, get_response_from_vpi H r3))"

definition dbg_wb_read8 :: "'h hw_tasks \<Rightarrow> u32 \<Rightarrow> 'h rtl \<Rightarrow> int \<times> byte \<times> 'h rtl" where
  "dbg_wb_read8 H adr r =
     (let (_, r1) = dbg_set_chain H DC_WISHBONE r;
          r2 = send_address_to_vpi adr (send_command_to_vpi H CMD_WB_RD8 r1);
          (data, r3) = get_byte_from_vpi H r2
      in (0, data, get_response_from_vpi H r3))"

definition dbg_wb_write32 :: "'h hw_tasks \<Rightarrow> u32 \<Rightarrow> u32 \<Rightarrow> 'h rtl \<Rightarrow> int \<times> 'h rtl" where
  "dbg_wb_write32 H adr data r =
     (let (_, r1) = dbg_set_chain H DC_WISHBONE r;
          r2 = send_address_to_vpi adr (send_command_to_vpi H CMD_WB_WR r1);
          r3 = send_data_to_vpi data (send_data_to_vpi 4 r2)
      in (0, get_response_from_vpi H r3))"

definition dbg_wb_write16 :: "'h hw_tasks \<Rightarrow> u32 \<Rightarrow> u16 \<Rightarrow> 'h rtl \<Rightarrow> int \<times> 'h rtl" where
  "dbg_wb_write16 H adr data r =
     (let (_, r1) = dbg_set_chain H DC_WISHBONE r;
          r2 = send_address_to_vpi adr (send_command_to_vpi H CMD_WB_WR r1);
          r3 = send_data_to_vpi (ucast data) (send_data_to_vpi 2 r2)
      in (0, get_response_from_vpi H r3))"

definition dbg_wb_write8 :: "'h hw_tasks \<Rightarrow> u32 \<Rightarrow> byte \<Rightarrow> 'h rtl \<Rightarrow> int \<times> 'h rtl" where
  "dbg_wb_write8 H adr data r =
     (let (_, r1) = dbg_set_chain H DC_WISHBONE r;
          r2 = send_address_to_vpi adr (send_command_to_vpi H CMD_WB_WR r1);
          r3 = send_data_to_vpi (ucast data) (send_data_to_vpi 1 r2)
      in (0, get_response_from_vpi H r3))"

definition dbg_wb_read_block32 :: "'h hw_tasks \<Rightarrow> u32 \<Rightarrow> nat \<Rightarrow> 'h rtl \<Rightarrow> int \<times> byte list \<times> 'h rtl" where
  "dbg_wb_read_block32 H adr len r =
     (let (_, r1) = dbg_set_chain H DC_WISHBONE r;
          r2 = send_data_to_vpi adr (send_command_to_vpi H CMD_WB_BLOCK_RD32 r1);
          (data, r3) = get_block_data_from_vpi H len (send_data_to_vpi (of_nat len) r2)
      in (DBG_ERR_OK, data, get_response_from_vpi H r3))"

definition dbg_wb_write_block32 :: "'h hw_tasks \<Rightarrow> u32 \<Rightarrow> byte list \<Rightarrow> 'h rtl \<Rightarrow> int \<times> 'h rtl" where
  "dbg_wb_write_block32 H adr data r =
     (let (_, r1) = dbg_set_chain H DC_WISHBONE r;
          r2 = send_data_to_vpi adr (send_command_to_vpi H CMD_WB_BLOCK_WR32 r1);
          r3 = send_block_data_to_vpi data (send_data_to_vpi (of_nat (length data)) r2)
      in (DBG_ERR_OK, get_response_from_vpi H r3))"

definition dbg_cpu0_read :: "'h hw_tasks \<Rightarrow> u32 \<Rightarrow> nat \<Rightarrow> 'h rtl \<Rightarrow> int \<times> byte list \<times> 'h rtl" where
  "dbg_cpu0_read H adr len r =
     (let (_, r1) = dbg_set_chain H DC_CPU0 r;
          r2 = send_address_to_vpi adr (send_command_to_vpi H CMD_CPU_RD_REG r1);
          (data, r3) = get_block_data_from_vpi H len (send_data_to_vpi (of_nat len) r2)
      in (0, data, get_response_from_vpi H r3))"

definition dbg_cpu0_write :: "'h hw_tasks \<Rightarrow> u32 \<Rightarrow> byte list \<Rightarrow> 'h rtl \<Rightarrow> int \<times> 'h rtl" where
  "dbg_cpu0_write H adr data r =
     (let (_, r1) = dbg_set_chain H DC_CPU0 r;
          r2 = send_address_to_vpi adr (send_command_to_vpi H CMD_CPU_WR_REG r1);
          r3 = send_block_data_to_vpi data (send_data_to_vpi (of_nat (length data)) r2)
      in (0, get_response_from_vpi H r3))"

text \<open>The control accesses ignore their address.\<close>

definition dbg_cpu0_write_ctrl :: "'h hw_tasks \<Rightarrow> u32 \<Rightarrow> byte \<Rightarrow> 'h rtl \<Rightarrow> int \<times> 'h rtl" where
  "dbg_cpu0_write_ctrl H adr data r =
     (let (e, r1) = dbg_set_chain H DC_CPU0 r
      in if e \<noteq> 0 then (e, r1)
         else (let (e2, r2) = dbg_ctrl H (ucast data AND 2) (ucast data AND 1) r1
               in if e2 \<noteq> 0 then (e2, r2) else (DBG_ERR_OK, r2)))"

definition dbg_cpu0_read_ctrl :: "'h hw_tasks \<Rightarrow> u32 \<Rightarrow> 'h rtl \<Rightarrow> int \<times> byte \<times> 'h rtl" where
  "dbg_cpu0_read_ctrl H adr r =
     (let (_, r1) = dbg_set_chain H DC_CPU0 r;
          (e, rst, stl, r2) = dbg_ctrl_read H r1
      in (e, ucast (push_bit 1 rst OR stl), r2))"

definition dbg_client_detached :: "'h hw_tasks \<Rightarrow> 'h rtl \<Rightarrow> 'h rtl" where
  "dbg_client_detached H r = send_command_to_vpi H CMD_GDB_DETACH r"

text \<open>The stubs for a second CPU.\<close>

definition dbg_cpu1_read :: "u32 \<Rightarrow> 'h rtl \<Rightarrow> int \<times> 'h rtl" where
  "dbg_cpu1_read adr r = (DBG_ERR_OK, r)"

definition dbg_cpu1_write :: "u32 \<Rightarrow> u32 \<Rightarrow> 'h rtl \<Rightarrow> int \<times> 'h rtl" where
  "dbg_cpu1_write adr data r = (DBG_ERR_OK, r)"

definition dbg_cpu1_read_ctrl :: "u32 \<Rightarrow> 'h rtl \<Rightarrow> int \<times> 'h rtl" where
  "dbg_cpu1_read_ctrl adr r = (DBG_ERR_OK, r)"

text \<open>\<open>dbg_test\<close>, run once before the server starts: stall, check, read the program counters and r1.\<close>

definition dbg_test :: "'h hw_tasks \<Rightarrow> 'h rtl \<Rightarrow> 'h rtl" where
  "dbg_test H r =
     (let (_, r1) = dbg_cpu0_write_ctrl H 0 1 r;
          (_, stalled, r2) = dbg_cpu0_read_ctrl H 0 r1;
          (_, pcs_and_sr, r3) = dbg_cpu0_read H 16 12 r2;
          (_, r1_val, r4) = dbg_cpu0_read H 0x401 4 r3
      in r4)"

definition rtl_ops :: "'h hw_tasks \<Rightarrow> 'h rtl dbg_ops" where
  "rtl_ops H =
     \<lparr>op_wb_read32 = dbg_wb_read32 H, op_wb_read8 = dbg_wb_read8 H, op_wb_write32 = dbg_wb_write32 H,
      op_wb_write16 = dbg_wb_write16 H, op_wb_write8 = dbg_wb_write8 H, op_wb_read_block32 = dbg_wb_read_block32 H,
      op_wb_write_block32 = dbg_wb_write_block32 H, op_cpu0_read = dbg_cpu0_read H, op_cpu0_write = dbg_cpu0_write H,
      op_cpu0_read_ctrl = dbg_cpu0_read_ctrl H, op_cpu0_write_ctrl = dbg_cpu0_write_ctrl H,
      op_client_detached = dbg_client_detached H\<rparr>"

section \<open>CRC\<close>

definition crc_calc :: "u32 \<Rightarrow> u32 \<Rightarrow> u32" where
  "crc_calc crc input_bit =
     (let d = (if input_bit AND 1 \<noteq> 0 then 0xfffffff else 0x0000000);
          crc_32 = (if drop_bit 31 crc AND 1 \<noteq> 0 then 0xfffffff else 0x0000000)
      in push_bit 1 crc XOR ((d XOR crc_32) AND 0x04c11db7))"

section \<open>The exchange of one command\<close>

text \<open>Between two accesses nothing is in the pipes and the simulator polls for a command.\<close>

definition idle :: "'h rtl \<Rightarrow> bool" where
  "idle r \<longleftrightarrow> command_pipe (sim r) = [] \<and> rsp_to_vpi_pipe (sim r) = [] \<and> vpi_to_rsp_pipe (sim r) = []
     \<and> vpi_pc (sim r) = Polling \<and> length (data_storage (sim r)) = 4096 \<and> \<not> stuck r \<and> \<not> bad_ack r"

lemma vpi_run_poll: "vpi_pc v = Polling \<Longrightarrow> command_pipe v = [] \<Longrightarrow> vpi_run H v = v"
  by (simp add: vpi_run.simps [of H v] vpi_step_def check_for_command_def)

lemma vpi_run_command:
  "vpi_pc v = Polling \<Longrightarrow> command_pipe v = [cmd] \<Longrightarrow>
   vpi_run H v = vpi_run H (v\<lparr>command_pipe := [], vpi_to_rsp_pipe := vpi_to_rsp_pipe v @ [cmd], vpi_pc := Serving cmd\<rparr>)"
  by (simp add: vpi_run.simps [of H v] vpi_step_def check_for_command_def)

lemma vpi_run_wait: "vpi_pc v = Serving cmd \<Longrightarrow> serve H cmd v = None \<Longrightarrow> vpi_run H v = v"
  by (simp add: vpi_run.simps [of H v] vpi_step_def)

lemma vpi_run_serve:
  "vpi_pc v = Serving cmd \<Longrightarrow> serve H cmd v = Some v1 \<Longrightarrow> vpi_pc v1 \<noteq> Finished \<Longrightarrow> command_pipe v = [] \<Longrightarrow>
   vpi_run H v = (return_response v1)\<lparr>vpi_pc := Polling\<rparr>"
  using serve_command_pipe [of H cmd v v1]
  by (simp add: vpi_run.simps [of H v] vpi_step_def vpi_run_poll return_response_def)

text \<open>A command with arguments is acknowledged and waits for them.\<close>

lemma send_command_waits:
  assumes "idle r" "serve H cmd ((sim r)\<lparr>vpi_to_rsp_pipe := [cmd], vpi_pc := Serving cmd\<rparr>) = None"
  shows "send_command_to_vpi H cmd r = r\<lparr>sim := (sim r)\<lparr>vpi_pc := Serving cmd\<rparr>\<rparr>"
proof -
  have "vpi_run H ((sim r)\<lparr>command_pipe := [cmd]\<rparr>) = (sim r)\<lparr>vpi_to_rsp_pipe := [cmd], vpi_pc := Serving cmd\<rparr>"
    using assms by (cases "sim r") (simp add: vpi_run_command idle_def vpi_run_wait)
  with assms(1) show ?thesis
    by (cases "sim r") (simp add: send_command_to_vpi_def read_vpi_def idle_def Let_def)
qed

lemma serve_needs_data:
  assumes "cmd \<in> {CMD_JTAG_SET_IR, CMD_SET_DEBUG_CHAIN, CMD_CPU_CTRL_WR, CMD_CPU_WR_REG, CMD_CPU_RD_REG, CMD_WB_WR,
      CMD_WB_RD32, CMD_WB_RD8, CMD_WB_BLOCK_WR32, CMD_WB_BLOCK_RD32}"
    and "rsp_to_vpi_pipe v = []"
  shows "serve H cmd v = None"
  using assms
  by (auto simp: serve_def with_data_def get_command_data_def get_command_address_def)

lemma send_command_args:
  assumes "idle r" "cmd \<in> {CMD_JTAG_SET_IR, CMD_SET_DEBUG_CHAIN, CMD_CPU_CTRL_WR, CMD_CPU_WR_REG, CMD_CPU_RD_REG,
      CMD_WB_WR, CMD_WB_RD32, CMD_WB_RD8, CMD_WB_BLOCK_WR32, CMD_WB_BLOCK_RD32}"
  shows "send_command_to_vpi H cmd r = r\<lparr>sim := (sim r)\<lparr>vpi_pc := Serving cmd\<rparr>\<rparr>"
  using assms by (intro send_command_waits serve_needs_data) (auto simp: idle_def)

text \<open>
  Reading what a served command returned, then its response byte.  \<open>r\<close> is the link with the arguments in
  the pipe, \<open>v1\<close> the simulator after the body of the command.
\<close>

lemma read_reply:
  assumes "vpi_pc (sim r) = Serving cmd" "command_pipe (sim r) = []" "vpi_to_rsp_pipe (sim r) = []"
    and "serve H cmd (sim r) = Some v1" "vpi_pc v1 = Serving cmd" "vpi_to_rsp_pipe v1 = out"
  shows "read_vpi H (length out) r = (out, r\<lparr>sim := v1\<lparr>vpi_to_rsp_pipe := [0], vpi_pc := Polling\<rparr>\<rparr>)"
  using assms serve_command_pipe [OF assms(4)]
  by (simp add: read_vpi_def vpi_run_serve return_response_def Let_def)

lemma get_response_after_reply:
  assumes "command_pipe v1 = []" "vpi_pc v1 = Polling"
  shows "get_response_from_vpi H (r\<lparr>sim := v1\<lparr>vpi_to_rsp_pipe := [0]\<rparr>\<rparr>) = r\<lparr>sim := v1\<lparr>vpi_to_rsp_pipe := []\<rparr>\<rparr>"
  using assms by (simp add: get_response_from_vpi_def read_vpi_def vpi_run_poll Let_def)

lemma get_response_only:
  assumes "vpi_pc (sim r) = Serving cmd" "command_pipe (sim r) = []" "vpi_to_rsp_pipe (sim r) = []"
    and "serve H cmd (sim r) = Some v1" "vpi_pc v1 = Serving cmd" "vpi_to_rsp_pipe v1 = []"
  shows "get_response_from_vpi H r = r\<lparr>sim := v1\<lparr>vpi_to_rsp_pipe := [], vpi_pc := Polling\<rparr>\<rparr>"
  using assms serve_command_pipe [OF assms(4)]
  by (simp add: get_response_from_vpi_def read_vpi_def vpi_run_serve return_response_def Let_def)

section \<open>The accesses are the Verilog tasks\<close>

text \<open>\<open>with_hw r h\<close> is the link between accesses with the hardware in state \<open>h\<close>.\<close>

definition with_hw :: "'h rtl \<Rightarrow> 'h \<Rightarrow> 'h rtl" where
  "with_hw r h = r\<lparr>sim := (sim r)\<lparr>hw := h\<rparr>\<rparr>"

lemma with_hw_sels [simp]:
  "hw (sim (with_hw r h)) = h" "current_chain (with_hw r h) = current_chain r" "dbg_chain (with_hw r h) = dbg_chain r"
  "idle (with_hw r h) = idle r" "data_storage (sim (with_hw r h)) = data_storage (sim r)"
  by (simp_all add: with_hw_def idle_def)

lemma dbg_set_chain_idle:
  assumes "idle r"
  shows "dbg_set_chain H chain r =
     (0, if current_chain r = chain then r
         else (with_hw r (hw_module_select H (word_of_int chain) (hw (sim r))))\<lparr>dbg_chain := chain, current_chain := chain\<rparr>)"
proof (cases "current_chain r = chain")
  case True
  then show ?thesis by (simp add: dbg_set_chain_def)
next
  case False
  let ?r = "r\<lparr>dbg_chain := chain\<rparr>"
  have "idle ?r" using assms by (simp add: idle_def)
  note cmd = send_command_args [OF this, of CMD_SET_DEBUG_CHAIN H]
  let ?r2 = "send_data_to_vpi (word_of_int chain) (?r\<lparr>sim := (sim r)\<lparr>vpi_pc := Serving CMD_SET_DEBUG_CHAIN\<rparr>\<rparr>)"
  have "get_response_from_vpi H ?r2 =
      ?r2\<lparr>sim := (sim ?r2)\<lparr>rsp_to_vpi_pipe := [], hw := hw_module_select H (word_of_int chain) (hw (sim r)),
          vpi_to_rsp_pipe := [], vpi_pc := Polling\<rparr>\<rparr>"
    using assms
    by (cases "sim r", subst get_response_only [where cmd = CMD_SET_DEBUG_CHAIN])
      (auto simp: send_data_to_vpi_def idle_def serve_def with_data_def get_command_data_def simp del: le_word.simps)
  with False assms cmd show ?thesis
    by (cases "sim r") (simp add: dbg_set_chain_def Let_def send_data_to_vpi_def with_hw_def idle_def)
qed

text \<open>The link between accesses with the storage of the Verilog module and the hardware replaced.\<close>

definition with_sim :: "'h rtl \<Rightarrow> u32 list \<Rightarrow> 'h \<Rightarrow> 'h rtl" where
  "with_sim r ds h = r\<lparr>sim := (sim r)\<lparr>data_storage := ds, hw := h\<rparr>\<rparr>"

definition serving :: "'h rtl \<Rightarrow> byte \<Rightarrow> byte list \<Rightarrow> 'h rtl" where
  "serving r cmd args = r\<lparr>sim := (sim r)\<lparr>vpi_pc := Serving cmd, rsp_to_vpi_pipe := args\<rparr>\<rparr>"

lemma with_sim_sels [simp]:
  "hw (sim (with_sim r ds h)) = h" "current_chain (with_sim r ds h) = current_chain r"
  "dbg_chain (with_sim r ds h) = dbg_chain r" "data_storage (sim (with_sim r ds h)) = ds"
  by (simp_all add: with_sim_def)

lemma idle_with_sim [simp]: "idle r \<Longrightarrow> idle (with_sim r ds h) \<longleftrightarrow> length ds = 4096"
  by (simp add: with_sim_def idle_def)

lemma with_hw_with_sim: "with_hw r h = with_sim r (data_storage (sim r)) h"
  by (cases r, cases "sim r") (simp add: with_hw_def with_sim_def)

lemma command_reply:
  assumes "idle r"
    and "serve H cmd (sim (serving r cmd args)) = Some ((sim r)\<lparr>vpi_pc := Serving cmd, vpi_to_rsp_pipe := out, data_storage := ds, hw := h\<rparr>)"
  shows "read_vpi H (length out) (serving r cmd args) = (out, (with_sim r ds h)\<lparr>sim := (sim (with_sim r ds h))\<lparr>vpi_to_rsp_pipe := [0]\<rparr>\<rparr>)"
  using assms
  by (cases r, cases "sim r", subst read_reply [OF _ _ _ assms(2)])
    (auto simp: serving_def idle_def with_sim_def)

lemma command_reply_response:
  assumes "idle r"
  shows "get_response_from_vpi H ((with_sim r ds h)\<lparr>sim := (sim (with_sim r ds h))\<lparr>vpi_to_rsp_pipe := [0]\<rparr>\<rparr>) = with_sim r ds h"
  using assms
  by (cases r, cases "sim r", subst get_response_after_reply) (auto simp: idle_def with_sim_def)

lemma command_response:
  assumes "idle r"
    and "serve H cmd (sim (serving r cmd args)) = Some ((sim r)\<lparr>vpi_pc := Serving cmd, data_storage := ds, hw := h\<rparr>)"
  shows "get_response_from_vpi H (serving r cmd args) = with_sim r ds h"
  using assms
  by (cases r, cases "sim r", subst get_response_only [OF _ _ _ assms(2)])
    (auto simp: serving_def idle_def with_sim_def)

lemmas transfer_defs = send_data_to_vpi_def send_address_to_vpi_def send_block_data_to_vpi_def

lemma send_args:
  "idle r \<Longrightarrow> send_data_to_vpi a (r\<lparr>sim := (sim r)\<lparr>vpi_pc := Serving cmd\<rparr>\<rparr>) = serving r cmd (le_bytes a)"
  "idle r \<Longrightarrow> send_address_to_vpi a (r\<lparr>sim := (sim r)\<lparr>vpi_pc := Serving cmd\<rparr>\<rparr>) = serving r cmd (le_bytes a)"
  "send_data_to_vpi a (serving r cmd args) = serving r cmd (args @ le_bytes a)"
  "send_block_data_to_vpi bs (serving r cmd args) = serving r cmd (args @ bs)"
  by (simp_all add: transfer_defs serving_def idle_def)

text \<open>The chain an access selects first.\<close>

definition selected :: "'h hw_tasks \<Rightarrow> int \<Rightarrow> 'h rtl \<Rightarrow> 'h rtl" where
  "selected H chain r =
     (if current_chain r = chain then r
      else (with_hw r (hw_module_select H (word_of_int chain) (hw (sim r))))\<lparr>dbg_chain := chain, current_chain := chain\<rparr>)"

lemma idle_selected [simp]: "idle r \<Longrightarrow> idle (selected H chain r)"
  by (simp add: selected_def idle_def with_hw_def)

lemma dbg_set_chain_selected: "idle r \<Longrightarrow> dbg_set_chain H chain r = (0, selected H chain r)"
  by (simp add: dbg_set_chain_idle selected_def)

lemmas serve_simps = serve_def with_data_def get_command_data_def get_command_address_def return_command_data_def
  serving_def idle_def

lemma dbg_wb_read32_idle:
  assumes "idle r"
  shows "dbg_wb_read32 H adr r =
     (let r1 = selected H DC_WISHBONE r; (w, h) = hw_wb_read_32 H adr (hw (sim r1)) in (0, w, with_hw r1 h))"
proof -
  let ?r = "selected H DC_WISHBONE r"
  obtain w h where wh: "hw_wb_read_32 H adr (hw (sim ?r)) = (w, h)" by (cases "hw_wb_read_32 H adr (hw (sim ?r))")
  have i: "idle ?r" using assms by simp
  have "serve H CMD_WB_RD32 (sim (serving ?r CMD_WB_RD32 (le_bytes adr))) =
      Some ((sim ?r)\<lparr>vpi_pc := Serving CMD_WB_RD32, vpi_to_rsp_pipe := le_bytes w, data_storage := data_storage (sim ?r), hw := h\<rparr>)"
    using i wh by (cases "sim ?r") (simp add: serve_simps del: le_word.simps)
  from command_reply [OF i this] command_reply_response [OF i] show ?thesis
    by (simp add: dbg_wb_read32_def dbg_set_chain_selected [OF assms] send_command_args [OF i] send_args(2) [OF i]
        get_word_from_vpi_def wh with_hw_with_sim Let_def)
qed

lemma dbg_wb_read8_idle:
  assumes "idle r"
  shows "dbg_wb_read8 H adr r =
     (let r1 = selected H DC_WISHBONE r; (w, h) = hw_wb_read_8 H adr (hw (sim r1)) in (0, ucast w, with_hw r1 h))"
proof -
  let ?r = "selected H DC_WISHBONE r"
  obtain w h where wh: "hw_wb_read_8 H adr (hw (sim ?r)) = (w, h)" by (cases "hw_wb_read_8 H adr (hw (sim ?r))")
  have i: "idle ?r" using assms by simp
  have "serve H CMD_WB_RD8 (sim (serving ?r CMD_WB_RD8 (le_bytes adr))) =
      Some ((sim ?r)\<lparr>vpi_pc := Serving CMD_WB_RD8, vpi_to_rsp_pipe := [ucast w], data_storage := data_storage (sim ?r), hw := h\<rparr>)"
    using i wh by (cases "sim ?r") (simp add: serve_simps le_bytes_def [of w] del: le_word.simps)
  from command_reply [OF i this] command_reply_response [OF i] show ?thesis
    by (simp add: dbg_wb_read8_def dbg_set_chain_selected [OF assms] send_command_args [OF i] send_args(2) [OF i]
        get_byte_from_vpi_def wh with_hw_with_sim Let_def)
qed

lemma dbg_wb_write_idle:
  assumes "idle r"
  shows "dbg_wb_write32 H adr w r =
     (let r1 = selected H DC_WISHBONE r in (0, with_hw r1 (hw_wb_write_32 H w adr (hw (sim r1)))))" (is ?w32)
    and "dbg_wb_write16 H adr u r =
     (let r1 = selected H DC_WISHBONE r in (0, with_hw r1 (hw_wb_write_16 H u adr (hw (sim r1)))))" (is ?w16)
    and "dbg_wb_write8 H adr b r =
     (let r1 = selected H DC_WISHBONE r in (0, with_hw r1 (hw_wb_write_8 H b adr (hw (sim r1)))))" (is ?w8)
proof -
  let ?r = "selected H DC_WISHBONE r"
  have i: "idle ?r" using assms by simp
  have "serve H CMD_WB_WR (sim (serving ?r CMD_WB_WR ((le_bytes adr @ le_bytes 4) @ le_bytes w))) =
      Some ((sim ?r)\<lparr>vpi_pc := Serving CMD_WB_WR, data_storage := data_storage (sim ?r), hw := hw_wb_write_32 H w adr (hw (sim ?r))\<rparr>)"
    using i by (cases "sim ?r") (simp add: serve_simps del: le_word.simps)
  from command_response [OF i this] show ?w32
    by (simp add: dbg_wb_write32_def dbg_set_chain_selected [OF assms] send_command_args [OF i] send_args(2) [OF i]
        send_args(3) with_hw_with_sim Let_def)
  have "serve H CMD_WB_WR (sim (serving ?r CMD_WB_WR ((le_bytes adr @ le_bytes 2) @ le_bytes (ucast u)))) =
      Some ((sim ?r)\<lparr>vpi_pc := Serving CMD_WB_WR, data_storage := data_storage (sim ?r), hw := hw_wb_write_16 H u adr (hw (sim ?r))\<rparr>)"
    using i by (cases "sim ?r") (simp add: serve_simps del: le_word.simps)
  from command_response [OF i this] show ?w16
    by (simp add: dbg_wb_write16_def dbg_set_chain_selected [OF assms] send_command_args [OF i] send_args(2) [OF i]
        send_args(3) with_hw_with_sim Let_def)
  have "serve H CMD_WB_WR (sim (serving ?r CMD_WB_WR ((le_bytes adr @ le_bytes 1) @ le_bytes (ucast b)))) =
      Some ((sim ?r)\<lparr>vpi_pc := Serving CMD_WB_WR, data_storage := data_storage (sim ?r), hw := hw_wb_write_8 H b adr (hw (sim ?r))\<rparr>)"
    using i by (cases "sim ?r") (simp add: serve_simps del: le_word.simps)
  from command_response [OF i this] show ?w8
    by (simp add: dbg_wb_write8_def dbg_set_chain_selected [OF assms] send_command_args [OF i] send_args(2) [OF i]
        send_args(3) with_hw_with_sim Let_def)
qed

text \<open>The control register.  \<open>dbg_ctrl\<close> selects \<open>dbg_chain\<close>, the chain the last selection asked for.\<close>

definition chains_agree :: "'h rtl \<Rightarrow> bool" where
  "chains_agree r \<longleftrightarrow> current_chain r = - 1 \<or> dbg_chain r = current_chain r"

lemma chains_agree_frame [simp]:
  "chains_agree (with_hw r h) = chains_agree r" "chains_agree (with_sim r ds h) = chains_agree r"
  "chains_agree r \<Longrightarrow> chains_agree (selected H chain r)"
  by (auto simp: chains_agree_def with_hw_def with_sim_def selected_def)

lemma selected_again:
  "chains_agree r \<Longrightarrow> chain \<noteq> - 1 \<Longrightarrow> selected H (dbg_chain (selected H chain r)) (selected H chain r) = selected H chain r"
  by (auto simp: selected_def chains_agree_def)

lemma send_command_no_args:
  assumes "idle r"
    and "serve H cmd ((sim r)\<lparr>vpi_to_rsp_pipe := [cmd], vpi_pc := Serving cmd\<rparr>) =
      Some ((sim r)\<lparr>vpi_to_rsp_pipe := cmd # out, vpi_pc := Serving cmd, hw := h\<rparr>)"
  shows "send_command_to_vpi H cmd r = (with_hw r h)\<lparr>sim := (sim (with_hw r h))\<lparr>vpi_to_rsp_pipe := out @ [0]\<rparr>\<rparr>"
proof -
  have "vpi_run H ((sim r)\<lparr>command_pipe := [cmd]\<rparr>) = (sim r)\<lparr>vpi_to_rsp_pipe := (cmd # out) @ [0], hw := h\<rparr>"
    using assms(1) vpi_run_serve [OF _ assms(2)] by (cases "sim r") (simp add: vpi_run_command idle_def return_response_def)
  with assms(1) show ?thesis
    by (cases r, cases "sim r") (simp add: send_command_to_vpi_def read_vpi_def idle_def Let_def with_hw_def)
qed

lemma read_vpi_poll:
  "idle r \<Longrightarrow> read_vpi H (length out) (r\<lparr>sim := (sim r)\<lparr>vpi_to_rsp_pipe := out @ rest\<rparr>\<rparr>) =
     (out, r\<lparr>sim := (sim r)\<lparr>vpi_to_rsp_pipe := rest\<rparr>\<rparr>)"
  by (simp add: read_vpi_def idle_def vpi_run_poll Let_def)

lemma get_response_poll:
  "idle r \<Longrightarrow> get_response_from_vpi H (r\<lparr>sim := (sim r)\<lparr>vpi_to_rsp_pipe := [0]\<rparr>\<rparr>) = r"
  using read_vpi_poll [of r H "[0]" "[]"]
  by (cases r, cases "sim r") (simp add: get_response_from_vpi_def idle_def)

lemma dbg_ctrl_idle:
  assumes "idle r" "selected H (dbg_chain r) r = r"
  shows "dbg_ctrl H reset stall r =
     (0, with_hw r (hw_cpu_wr_ctrl H (((stall AND 1) OR push_bit 1 (reset AND 1)) AND 3) (hw (sim r))))"
proof -
  define w where "w = (stall AND 1) OR push_bit 1 (reset AND 1)"
  have "serve H CMD_CPU_CTRL_WR (sim (serving r CMD_CPU_CTRL_WR (le_bytes w))) =
      Some ((sim r)\<lparr>vpi_pc := Serving CMD_CPU_CTRL_WR, data_storage := data_storage (sim r),
        hw := hw_cpu_wr_ctrl H (w AND 3) (hw (sim r))\<rparr>)"
    using assms(1) by (cases "sim r") (simp add: serve_simps del: le_word.simps)
  from command_response [OF assms(1) this] show ?thesis
    unfolding dbg_ctrl_def w_def [symmetric]
    by (simp add: dbg_set_chain_selected [OF assms(1)] assms(2) send_command_args [OF assms(1)]
        send_args(1) [OF assms(1)] with_hw_with_sim)
qed

lemma dbg_cpu0_write_ctrl_idle:
  assumes "idle r" "chains_agree r"
  shows "dbg_cpu0_write_ctrl H adr b r =
     (let r1 = selected H DC_CPU0 r in (0, with_hw r1 (hw_cpu_wr_ctrl H (ucast b AND 1) (hw (sim r1)))))"
proof -
  let ?b = "ucast b :: u32"
  have "((?b AND 1) AND 1 OR push_bit 1 ((?b AND 2) AND 1)) AND 3 = ?b AND 1"
    by (simp add: and.assoc)
  with dbg_ctrl_idle [of "selected H DC_CPU0 r" H "?b AND 2" "?b AND 1"] assms selected_again [OF assms(2), of DC_CPU0 H]
  show ?thesis
    by (simp add: dbg_cpu0_write_ctrl_def dbg_set_chain_selected Let_def)
qed

text \<open>The bits of the control register in the order of \<open>debug_cpu_rd_ctrl\<close>: reset, then stall.\<close>

definition ctrl_byte :: "u32 \<Rightarrow> byte" where
  "ctrl_byte c = ucast (push_bit 1 ((c AND 3) AND 1) OR (drop_bit 1 (c AND 3) AND 1))"

lemma dbg_ctrl_read_idle:
  assumes "idle r" "selected H (dbg_chain r) r = r" "hw_cpu_rd_ctrl H (hw (sim r)) = (c, h)"
  shows "dbg_ctrl_read H r = (0, (c AND 3) AND 1, drop_bit 1 (c AND 3) AND 1, with_hw r h)"
proof -
  define x where "x = c AND 3"
  have "serve H CMD_CPU_CTRL_RD ((sim r)\<lparr>vpi_to_rsp_pipe := [CMD_CPU_CTRL_RD], vpi_pc := Serving CMD_CPU_CTRL_RD\<rparr>) =
      Some ((sim r)\<lparr>vpi_to_rsp_pipe := CMD_CPU_CTRL_RD # le_bytes x, vpi_pc := Serving CMD_CPU_CTRL_RD, hw := h\<rparr>)"
    using assms by (cases "sim r") (simp add: serve_simps x_def)
  note cmd = send_command_no_args [OF assms(1) this]
  have i: "idle (with_hw r h)" using assms(1) by simp
  show ?thesis
    unfolding x_def [symmetric]
    using read_vpi_poll [OF i, of H "le_bytes x" "[0]"] get_response_poll [OF i]
    by (simp add: dbg_ctrl_read_def dbg_set_chain_selected [OF assms(1)] assms(2) cmd get_word_from_vpi_def)
qed

lemma dbg_cpu0_read_ctrl_idle:
  assumes "idle r" "chains_agree r"
  shows "dbg_cpu0_read_ctrl H adr r =
     (let r1 = selected H DC_CPU0 r; (c, h) = hw_cpu_rd_ctrl H (hw (sim r1)) in (0, ctrl_byte c, with_hw r1 h))"
proof -
  let ?r = "selected H DC_CPU0 r"
  obtain c h where ch: "hw_cpu_rd_ctrl H (hw (sim ?r)) = (c, h)" by (cases "hw_cpu_rd_ctrl H (hw (sim ?r))")
  have "selected H (dbg_chain ?r) ?r = ?r"
    using selected_again [OF assms(2)] by simp
  from dbg_ctrl_read_idle [OF _ this ch] assms(1) show ?thesis
    by (simp only: dbg_cpu0_read_ctrl_def dbg_set_chain_selected [OF assms(1)] Let_def prod.case idle_selected ch
        ctrl_byte_def)
qed

section \<open>Block transfers\<close>

lemma list_update_middle: "i < length ds \<Longrightarrow> take (Suc i) (ds[i := w]) @ xs = take i ds @ w # xs"
  by (simp add: take_Suc_conv_app_nth)

lemma load_words_all:
  assumes "rsp_to_vpi_pipe v = le_of_words ws @ rest" "i + length ws \<le> length (data_storage v)"
  shows "load_words i (length ws) v =
     Some (v\<lparr>rsp_to_vpi_pipe := rest, data_storage := take i (data_storage v) @ ws @ drop (i + length ws) (data_storage v)\<rparr>)"
  using assms
proof (induction ws arbitrary: i v)
  case Nil
  then show ?case by (cases v) simp
next
  case (Cons w ws)
  let ?v = "v\<lparr>rsp_to_vpi_pipe := le_of_words ws @ rest, data_storage := (data_storage v)[i := w]\<rparr>"
  have "get_command_data v = Some (w, v\<lparr>rsp_to_vpi_pipe := le_of_words ws @ rest\<rparr>)"
    using Cons.prems by (simp add: get_command_data_def del: le_word.simps)
  with Cons.IH [of ?v "Suc i"] Cons.prems show ?case
    by (simp add: list_update_middle)
qed

lemma unat_block_length: "block_ok n \<Longrightarrow> unat (of_nat n :: u32) = n"
  by (simp add: block_ok_def unsigned_of_nat take_bit_nat_eq_self)

lemma get_command_block_data_all:
  assumes "rsp_to_vpi_pipe v = bs" "block_ok (length bs)" "length (data_storage v) = 4096"
  shows "get_command_block_data (length bs) v =
     Some (v\<lparr>rsp_to_vpi_pipe := [], data_storage := words_of_le bs @ drop (length bs div 4) (data_storage v)\<rparr>)"
proof -
  have m: "length bs mod 4 = 0" using assms(2) by (simp add: block_ok_def)
  note l = block_ok_words(1) [OF assms(2)]
  have "rsp_to_vpi_pipe v = le_of_words (words_of_le bs) @ []"
    using assms(1) m by (simp add: le_of_words_of_le)
  from load_words_all [OF this, of 0] show ?thesis
    using m l assms(3) by (simp add: get_command_block_data_def length_words_of_le)
qed

lemma dbg_wb_write_block32_idle:
  assumes "idle r" "block_ok (length bs)"
  shows "\<exists>ds. length ds = 4096 \<and> dbg_wb_write_block32 H adr bs r =
     (let r1 = selected H DC_WISHBONE r in (0, with_sim r1 ds (hw_wb_block_write H adr (words_of_le bs) (hw (sim r1)))))"
proof -
  let ?r = "selected H DC_WISHBONE r" and ?a = "(le_bytes adr @ le_bytes (of_nat (length bs))) @ bs"
  let ?ds = "words_of_le bs @ drop (length bs div 4) (data_storage (sim ?r))"
  have i: "idle ?r" using assms by simp
  note l = block_ok_words(1) [OF assms(2)]
  have "serve H CMD_WB_BLOCK_WR32 (sim (serving ?r CMD_WB_BLOCK_WR32 ?a)) =
      Some ((sim ?r)\<lparr>vpi_pc := Serving CMD_WB_BLOCK_WR32, data_storage := ?ds, hw := hw_wb_block_write H adr (words_of_le bs) (hw (sim ?r))\<rparr>)"
    using i assms(2)
    by (cases "sim ?r") (simp add: serve_simps unat_block_length get_command_block_data_all [OF _ assms(2)]
        length_words_of_le del: le_word.simps)
  from command_response [OF i this] show ?thesis
    using i l
    by (intro exI [of _ ?ds])
      (simp add: dbg_wb_write_block32_def dbg_set_chain_selected [OF assms(1)] send_command_args [OF i] send_args(1) [OF i]
        send_args(3,4) Let_def idle_def length_words_of_le)
qed

lemma dbg_cpu0_write_idle:
  assumes "idle r" "block_ok (length bs)"
  shows "\<exists>ds. length ds = 4096 \<and> dbg_cpu0_write H adr bs r =
     (let r1 = selected H DC_CPU0 r in (0, with_sim r1 ds (hw_cpu_write H adr (words_of_le bs) (hw (sim r1)))))"
proof -
  let ?r = "selected H DC_CPU0 r" and ?a = "(le_bytes adr @ le_bytes (of_nat (length bs))) @ bs"
  let ?ds = "words_of_le bs @ drop (length bs div 4) (data_storage (sim ?r))"
  have i: "idle ?r" using assms by simp
  note l = block_ok_words(1) [OF assms(2)]
  note n = block_ok_words(3) [OF assms(2)]
  have "serve H CMD_CPU_WR_REG (sim (serving ?r CMD_CPU_WR_REG ?a)) =
      Some ((sim ?r)\<lparr>vpi_pc := Serving CMD_CPU_WR_REG, data_storage := ?ds, hw := hw_cpu_write H adr (words_of_le bs) (hw (sim ?r))\<rparr>)"
    using i assms(2)
    by (cases "sim ?r") (simp add: serve_simps unat_block_length get_command_block_data_all [OF _ assms(2)]
        length_words_of_le n del: le_word.simps)
  from command_response [OF i this] show ?thesis
    using i l
    by (intro exI [of _ ?ds])
      (simp add: dbg_cpu0_write_def dbg_set_chain_selected [OF assms(1)] send_command_args [OF i] send_args(2) [OF i]
        send_args(3,4) Let_def idle_def length_words_of_le)
qed

lemma return_block:
  assumes "block_ok len" "length ws = len div 4" "length (data_storage v) = 4096" "vpi_to_rsp_pipe v = []"
  shows "return_command_block_data len (store_words ws v) =
     v\<lparr>vpi_to_rsp_pipe := le_of_words ws, data_storage := ws @ drop (length ws) (data_storage v)\<rparr>"
proof -
  have b: "0 < len" "len mod 4 = 0" "len \<le> 16384" using assms(1) by (simp_all add: block_ok_def)
  then have l: "len div 4 \<le> 4096" "0 < len div 4" by auto
  show ?thesis
  proof (cases "len > 4")
    case True
    with assms b l show ?thesis
      by (cases v) (simp add: return_command_block_data_def store_words_def Let_def)
  next
    case False
    with b have "len = 4" by (auto simp flip: dvd_eq_mod_eq_0 elim!: dvdE)
    moreover from this obtain w where "ws = [w]" using assms(2) by (cases ws) auto
    ultimately show ?thesis
      using assms by (cases v) (simp add: return_command_block_data_def store_words_def Let_def)
  qed
qed

lemma dbg_wb_read_block32_idle:
  assumes "idle r" "block_ok len" "hw_wb_block_read H adr (len div 4) (hw (sim (selected H DC_WISHBONE r))) = (ws, h)"
    and "length ws = len div 4"
  shows "\<exists>ds. length ds = 4096 \<and> dbg_wb_read_block32 H adr len r = (0, le_of_words ws, with_sim (selected H DC_WISHBONE r) ds h)"
proof -
  let ?r = "selected H DC_WISHBONE r" and ?a = "le_bytes adr @ le_bytes (of_nat len)"
  let ?ds = "ws @ drop (length ws) (data_storage (sim ?r))"
  have i: "idle ?r" using assms by simp
  have b: "4 * length ws = len" "len div 4 \<le> 4096" using assms(2,4) by (auto simp: block_ok_def)
  have "serve H CMD_WB_BLOCK_RD32 (sim (serving ?r CMD_WB_BLOCK_RD32 ?a)) =
      Some ((sim ?r)\<lparr>vpi_pc := Serving CMD_WB_BLOCK_RD32, vpi_to_rsp_pipe := le_of_words ws, data_storage := ?ds, hw := h\<rparr>)"
    using i assms(2,3)
    by (cases "sim ?r") (simp add: serve_simps unat_block_length return_block [OF assms(2,4)] del: le_word.simps)
  from command_reply [OF i this] command_reply_response [OF i] show ?thesis
    using i b assms(4)
    by (intro exI [of _ ?ds])
      (simp add: dbg_wb_read_block32_def dbg_set_chain_selected [OF assms(1)] send_command_args [OF i] send_args(1) [OF i]
        send_args(3) get_block_data_from_vpi_def Let_def idle_def)
qed

lemma dbg_cpu0_read_idle:
  assumes "idle r" "block_ok len" "hw_cpu_read H adr (len div 4) (hw (sim (selected H DC_CPU0 r))) = (ws, h)"
    and "length ws = len div 4"
  shows "\<exists>ds. length ds = 4096 \<and> dbg_cpu0_read H adr len r = (0, le_of_words ws, with_sim (selected H DC_CPU0 r) ds h)"
proof -
  let ?r = "selected H DC_CPU0 r" and ?a = "le_bytes adr @ le_bytes (of_nat len)"
  let ?ds = "ws @ drop (length ws) (data_storage (sim ?r))"
  have i: "idle ?r" using assms by simp
  have b: "4 * length ws = len" "len div 4 \<le> 4096" using assms(2,4) by (auto simp: block_ok_def)
  have rd: "4 < len \<Longrightarrow> hw_cpu_read H adr (len div 4) (hw (sim ?r)) = (ws, h)"
    "\<not> 4 < len \<Longrightarrow> hw_cpu_read H adr (Suc 0) (hw (sim ?r)) = (ws, h)"
    using assms(3) block_ok_words(3) [OF assms(2)] by simp_all
  have "serve H CMD_CPU_RD_REG (sim (serving ?r CMD_CPU_RD_REG ?a)) =
      Some ((sim ?r)\<lparr>vpi_pc := Serving CMD_CPU_RD_REG, vpi_to_rsp_pipe := le_of_words ws, data_storage := ?ds, hw := h\<rparr>)"
    using i assms(2) rd
    by (cases "sim ?r"; cases "4 < len")
      (simp_all add: serve_simps unat_block_length return_block [OF assms(2,4)] del: le_word.simps)
  from command_reply [OF i this] command_reply_response [OF i] show ?thesis
    using i b assms(4)
    by (intro exI [of _ ?ds])
      (simp add: dbg_cpu0_read_def dbg_set_chain_selected [OF assms(1)] send_command_args [OF i] send_args(2) [OF i]
        send_args(3) get_block_data_from_vpi_def Let_def idle_def)
qed

section \<open>Reset\<close>

text \<open>A command with one word of argument, outside the chain selection of the accesses.\<close>

lemma set_ir_idle:
  assumes "idle r"
  shows "get_response_from_vpi H (send_data_to_vpi ir (send_command_to_vpi H CMD_JTAG_SET_IR r)) =
     with_hw r (hw_set_instruction H ir (hw (sim r)))"
proof -
  have "serve H CMD_JTAG_SET_IR (sim (serving r CMD_JTAG_SET_IR (le_bytes ir))) =
      Some ((sim r)\<lparr>vpi_pc := Serving CMD_JTAG_SET_IR, data_storage := data_storage (sim r), hw := hw_set_instruction H ir (hw (sim r))\<rparr>)"
    using assms by (cases "sim r") (simp add: serve_simps del: le_word.simps)
  from command_response [OF assms this] show ?thesis
    by (simp add: send_command_args [OF assms] send_args(1) [OF assms] with_hw_with_sim)
qed

lemma jp2_reset_JTAG_idle: "idle r \<Longrightarrow> jp2_reset_JTAG H r = with_hw r (hw_reset_tap H (hw (sim r)))"
proof -
  assume i: "idle r"
  have "serve H CMD_RESET ((sim r)\<lparr>vpi_to_rsp_pipe := [CMD_RESET], vpi_pc := Serving CMD_RESET\<rparr>) =
      Some ((sim r)\<lparr>vpi_to_rsp_pipe := CMD_RESET # [], vpi_pc := Serving CMD_RESET, hw := hw_reset_tap H (hw (sim r))\<rparr>)"
    using i by (cases "sim r") (simp add: serve_simps)
  from send_command_no_args [OF i this] get_response_poll [of "with_hw r (hw_reset_tap H (hw (sim r)))" H] i
  show ?thesis by (simp add: jp2_reset_JTAG_def)
qed

lemma read_id_idle:
  assumes "idle r" "hw_read_id_code H (hw (sim r)) = (c, h)"
  shows "get_word_from_vpi H (send_command_to_vpi H CMD_READ_JTAG_ID r) =
     (c, (with_hw r h)\<lparr>sim := (sim (with_hw r h))\<lparr>vpi_to_rsp_pipe := [0]\<rparr>\<rparr>)"
proof -
  have "serve H CMD_READ_JTAG_ID ((sim r)\<lparr>vpi_to_rsp_pipe := [CMD_READ_JTAG_ID], vpi_pc := Serving CMD_READ_JTAG_ID\<rparr>) =
      Some ((sim r)\<lparr>vpi_to_rsp_pipe := CMD_READ_JTAG_ID # le_bytes c, vpi_pc := Serving CMD_READ_JTAG_ID, hw := h\<rparr>)"
    using assms by (cases "sim r") (simp add: serve_simps)
  note cmd = send_command_no_args [OF assms(1) this]
  from read_vpi_poll [of "with_hw r h" H "le_bytes c" "[0]"] assms(1) show ?thesis
    by (simp add: cmd get_word_from_vpi_def)
qed

lemma dbg_reset_idle:
  assumes "idle r"
  shows "dbg_reset H r =
     (let h = hw_set_instruction H JI_IDCODE (hw_reset_tap H (hw (sim r)))
      in (0, (with_hw r (hw_set_instruction H JI_DEBUG (snd (hw_read_id_code H h))))\<lparr>current_chain := - 1\<rparr>))"
proof -
  let ?h1 = "hw_set_instruction H JI_IDCODE (hw_reset_tap H (hw (sim r)))"
  obtain c h where id: "hw_read_id_code H ?h1 = (c, h)" by (cases "hw_read_id_code H ?h1")
  have i1: "idle (with_hw r (hw_reset_tap H (hw (sim r))))" and i2: "idle (with_hw r ?h1)" and i3: "idle (with_hw r h)"
    using assms by simp_all
  have w: "with_hw (with_hw r a) b = with_hw r b" for a b
    by (simp add: with_hw_def)
  have "get_response_from_vpi H ((with_hw r h)\<lparr>sim := (sim (with_hw r h))\<lparr>vpi_to_rsp_pipe := [0]\<rparr>\<rparr>) = with_hw r h"
    by (rule get_response_poll [OF i3])
  then show ?thesis
    using read_id_idle [OF i2, of H c h] id
    by (simp add: dbg_reset_def jp2_reset_JTAG_idle [OF assms] set_ir_idle [OF i1] set_ir_idle [OF i3] w)
qed

text \<open>No transfer touches the retry counter.\<close>

lemma transfer_retry:
  "retry_no (snd (read_vpi H n r)) = retry_no r" "retry_no (send_command_to_vpi H cmd r) = retry_no r"
  "retry_no (get_response_from_vpi H r) = retry_no r" "retry_no (snd (get_word_from_vpi H r)) = retry_no r"
  "retry_no (send_data_to_vpi d r) = retry_no r"
proof -
  show rd: "retry_no (snd (read_vpi H n r)) = retry_no r" for n r
    by (simp add: read_vpi_def Let_def)
  show "retry_no (send_command_to_vpi H cmd r) = retry_no r"
    using rd [of 1 "r\<lparr>sim := (sim r)\<lparr>command_pipe := command_pipe (sim r) @ [cmd]\<rparr>\<rparr>"]
    by (simp add: send_command_to_vpi_def Let_def split_beta)
  show "retry_no (get_response_from_vpi H r) = retry_no r" "retry_no (snd (get_word_from_vpi H r)) = retry_no r"
    "retry_no (send_data_to_vpi d r) = retry_no r"
    by (simp_all add: get_response_from_vpi_def get_word_from_vpi_def send_data_to_vpi_def rd split_beta)
qed

section \<open>Properties\<close>

text \<open>
  On an idle link a block write to the bus is the one Verilog block task at the address, with the
  words of the block in order, after the bus chain was selected if it was not; it succeeds, and the link is
  idle again.  This holds for every behaviour of the hardware behind the tasks.
\<close>

lemma dbg_wb_write_block32_transfers:
  assumes "idle r" "block_ok (length bs)"
  shows "case dbg_wb_write_block32 H adr bs r of (e, r') \<Rightarrow>
     e = 0 \<and> idle r' \<and> current_chain r' = DC_WISHBONE
     \<and> hw (sim r') = hw_wb_block_write H adr (words_of_le bs)
         (if current_chain r = DC_WISHBONE then hw (sim r) else hw_module_select H 0 (hw (sim r)))"
  using dbg_wb_write_block32_idle [OF assms, of H adr] assms(1)
  by (auto simp: Let_def selected_def) (simp add: idle_def with_sim_def with_hw_def)

text \<open>A link without hardware, for the examples.\<close>

definition ex_link :: "u32 list rtl" where
  "ex_link = \<lparr>current_chain = - 1, dbg_chain = - 1, retry_no = 0, stuck = False, bad_ack = False,
     sim = \<lparr>command_pipe = [], rsp_to_vpi_pipe = [], vpi_to_rsp_pipe = [], vpi_pc = Polling,
            data_storage = replicate 4096 0, heap_junk = 0, hw = []\<rparr>\<rparr>"

text \<open>Tasks that record the words of the calls.\<close>

definition ex_tasks :: "u32 list hw_tasks" where
  "ex_tasks =
     \<lparr>hw_reset_tap = (\<lambda>h. h @ [1]), hw_set_instruction = (\<lambda>i h. h @ [2, i]), hw_read_id_code = (\<lambda>h. (3, h @ [3])),
      hw_module_select = (\<lambda>c h. h @ [4, c]), hw_cpu_wr_ctrl = (\<lambda>c h. h @ [5, c]), hw_cpu_rd_ctrl = (\<lambda>h. (6, h @ [6])),
      hw_cpu_write = (\<lambda>a ws h. h @ 7 # a # ws), hw_cpu_read = (\<lambda>a n h. (replicate n a, h @ [8, a])),
      hw_wb_write_32 = (\<lambda>w a h. h @ [9, w, a]), hw_wb_write_16 = (\<lambda>w a h. h @ [10, ucast w, a]),
      hw_wb_write_8 = (\<lambda>b a h. h @ [11, ucast b, a]), hw_wb_read_32 = (\<lambda>a h. (a, h @ [12, a])),
      hw_wb_read_8 = (\<lambda>a h. (a, h @ [13, a])), hw_wb_block_write = (\<lambda>a ws h. h @ 14 # a # ws),
      hw_wb_block_read = (\<lambda>a n h. (replicate n a, h @ [15, a]))\<rparr>"

lemma ex_link_idle: "idle ex_link"
  by (simp add: idle_def ex_link_def)

lemma dbg_wb_write_block32_transfers_witness:
  "hw (sim (snd (dbg_wb_write_block32 ex_tasks 0x100 [1, 0, 0, 0, 2, 0, 0, 0] ex_link))) = [4, 0, 14, 0x100, 1, 2]"
  using dbg_wb_write_block32_transfers [OF ex_link_idle, of "[1, 0, 0, 0, 2, 0, 0, 0]" ex_tasks "0x100"]
  by (simp add: block_ok_def split_beta) (simp add: ex_tasks_def ex_link_def)

text \<open>
  A block read from the bus returns the words the Verilog task read, as bytes in the order of the
  caller's array, and leaves the link idle.
\<close>

lemma dbg_wb_read_block32_transfers:
  assumes "idle r" "block_ok len" "current_chain r = DC_WISHBONE"
    and "hw_wb_block_read H adr (len div 4) (hw (sim r)) = (ws, h)" "length ws = len div 4"
  shows "case dbg_wb_read_block32 H adr len r of (e, bs, r') \<Rightarrow>
     e = 0 \<and> words_of_le bs = ws \<and> length bs = len \<and> idle r' \<and> hw (sim r') = h"
  using dbg_wb_read_block32_idle [of r len H adr ws h] assms
  by (auto simp: selected_def block_ok_def)

lemma dbg_wb_read_block32_transfers_witness:
  "words_of_le (fst (snd (dbg_wb_read_block32 ex_tasks 0x100 8 (ex_link\<lparr>current_chain := 0\<rparr>)))) = [0x100, 0x100]"
proof -
  have two: "replicate 2 (0x100 :: u32) = [0x100, 0x100]" by (simp add: numeral_eq_Suc)
  have "idle (ex_link\<lparr>current_chain := 0\<rparr>)" using ex_link_idle by (simp add: idle_def)
  from dbg_wb_read_block32_transfers [OF this, of 8 ex_tasks "0x100" "[0x100, 0x100]" "[15, 0x100]"] show ?thesis
    by (simp add: block_ok_def ex_tasks_def split_beta two) (simp add: ex_link_def)
qed

text \<open>
  A write of the CPU control register never asserts reset: \<open>dbg_cpu0_write_ctrl\<close> passes the reset bit in
  place, \<open>dbg_ctrl\<close> tests bit 0 of it, and only the stall bit reaches the hardware.
\<close>

lemma dbg_cpu0_write_ctrl_drops_reset:
  assumes "idle r" "chains_agree r" "current_chain r = DC_CPU0"
  shows "case dbg_cpu0_write_ctrl H adr data r of (e, r') \<Rightarrow>
     e = 0 \<and> idle r' \<and> hw (sim r') = hw_cpu_wr_ctrl H (ucast data AND 1) (hw (sim r))"
  using dbg_cpu0_write_ctrl_idle [OF assms(1,2), of H adr data] assms
  by (simp add: Let_def selected_def)

lemma dbg_cpu0_write_ctrl_drops_reset_witness:
  "hw (sim (snd (dbg_cpu0_write_ctrl ex_tasks 0 2 (ex_link\<lparr>current_chain := 1, dbg_chain := 1\<rparr>)))) = [5, 0]"
proof -
  have "idle (ex_link\<lparr>current_chain := 1, dbg_chain := 1\<rparr>)" "chains_agree (ex_link\<lparr>current_chain := 1, dbg_chain := 1\<rparr>)"
    using ex_link_idle by (simp_all add: idle_def chains_agree_def)
  from dbg_cpu0_write_ctrl_drops_reset [OF this, where H = ex_tasks and adr = 0 and data = 2] show ?thesis
    by (simp add: split_beta) (simp add: ex_tasks_def ex_link_def)
qed

text \<open>
  The reset sequence on an idle link resets the TAP, reads the identification code and loads the
  \<open>DEBUG\<close> instruction, in this order; it reports success, leaves the link idle and forgets the selected
  chain, so that the next access selects its own.
\<close>

lemma dbg_reset_sequence:
  assumes "idle r"
  shows "case dbg_reset H r of (e, r') \<Rightarrow>
     e = 0 \<and> idle r' \<and> current_chain r' = - 1 \<and> retry_no r' = retry_no r
     \<and> hw (sim r') = hw_set_instruction H JI_DEBUG (snd (hw_read_id_code H
         (hw_set_instruction H JI_IDCODE (hw_reset_tap H (hw (sim r))))))"
  using assms by (simp add: dbg_reset_idle Let_def idle_def with_hw_def)

lemma dbg_reset_sequence_witness: "hw (sim (snd (dbg_reset ex_tasks ex_link))) = [1, 2, 2, 3, 2, 8]"
  using dbg_reset_sequence [OF ex_link_idle, of ex_tasks]
  by (simp add: split_beta) (simp add: ex_tasks_def ex_link_def)

text \<open>
  The retry counter bounds the retries: from zero, six consecutive calls ask for another try, the first
  three without and the others with a reset of the link, and the seventh gives up and starts the count again.
\<close>

lemma retry_do_gives_up:
  assumes "retry_no r = 0" "n \<le> 6" "tries = (\<lambda>k. ((\<lambda>q. snd (retry_do H q)) ^^ k) r)"
  shows "fst (retry_do H (tries n)) = (if n < 6 then 1 else 0) \<and> retry_no (tries (Suc n)) = (if n < 6 then Suc n else 0)
     \<and> current_chain (tries (Suc n)) = (if n < 3 then current_chain r else - 1)"
proof -
  have reset: "fst (dbg_reset H q) = 0 \<and> retry_no (snd (dbg_reset H q)) = retry_no q \<and> current_chain (snd (dbg_reset H q)) = - 1" for q
    by (simp add: dbg_reset_def Let_def split_beta jp2_reset_JTAG_def transfer_retry)
  have step: "retry_do H q = (if retry_no q < 3 then (1, q\<lparr>retry_no := Suc (retry_no q)\<rparr>)
      else if retry_no q < 6 then (1, (snd (dbg_reset H q))\<lparr>retry_no := Suc (retry_no q)\<rparr>)
      else (0, (snd (dbg_reset H q))\<lparr>retry_no := 0\<rparr>))" for q
    using reset [of q] by (cases "dbg_reset H q") (auto simp: retry_do_def Let_def)
  have tries: "tries 0 = r" "tries (Suc k) = snd (retry_do H (tries k))" for k
    by (simp_all add: assms(3))
  have count: "k \<le> 6 \<Longrightarrow> retry_no (tries k) = k \<and> (k \<le> 3 \<longrightarrow> current_chain (tries k) = current_chain r)" for k
    by (induction k) (simp_all add: tries step assms(1))
  have "fst (retry_do H q) = (if n < 6 then 1 else 0) \<and> retry_no (snd (retry_do H q)) = (if n < 6 then Suc n else 0)
     \<and> current_chain (snd (retry_do H q)) = (if n < 3 then c else - 1)"
    if "retry_no q = n \<and> (n \<le> 3 \<longrightarrow> current_chain q = c)" for q c
    using that assms(2) reset [of q] by (auto simp: step)
  from this [OF count [OF assms(2)]] show ?thesis by (simp only: tries(2))
qed

lemma retry_do_gives_up_witness: "fst (retry_do ex_tasks (((\<lambda>q. snd (retry_do ex_tasks q)) ^^ 6) ex_link)) = 0"
proof -
  have "retry_no ex_link = 0" by (simp add: ex_link_def)
  from retry_do_gives_up [OF this order.refl refl, of ex_tasks] show ?thesis
    by (simp del: funpow.simps)
qed

text \<open>
  \<open>crc_calc\<close> is one step of the bit-serial CRC-32 of the debug interface: the register shifts left and the
  polynomial 0x04c11db7 is added when the bit shifted out differs from the input bit.
\<close>

lemma crc_calc_step:
  "crc_calc crc input_bit = push_bit 1 crc XOR (if bit crc 31 \<noteq> bit input_bit 0 then 0x04c11db7 else 0)"
proof -
  have i: "(input_bit AND 1 \<noteq> 0) = bit input_bit 0"
    by (simp add: bit_0 and_one_eq odd_iff_mod_2_eq_one)
  have c: "(drop_bit 31 crc AND 1 \<noteq> 0) = bit crc 31"
    by (simp add: bit_iff_odd_drop_bit and_one_eq odd_iff_mod_2_eq_one)
  show ?thesis
    unfolding crc_calc_def Let_def i c by simp
qed

end
