(* ===== verification/RspSock.thy ===== *)
theory RspSock
  imports RspCodec
begin

text \<open>
  The packet layer of \<open>gdb.c\<close>: \<open>send_rsp_str\<close>, \<open>get_rsp_char\<close>, \<open>rsp_peek\<close>, \<open>rsp_client_close\<close>,
  \<open>put_packet\<close>, \<open>put_str_packet\<close> and \<open>get_packet\<close>.  The socket is the sequence of results its system
  calls give: each \<open>read\<close> takes the next read event (none left is end of file), each \<open>write\<close> takes
  the next write event (none left writes everything).  \<open>sent\<close> collects the bytes that went out.
  The loops retry on \<open>EAGAIN\<close>/\<open>EINTR\<close> events and so terminate because every event is used once.
\<close>

abbreviation (input) GDB_BUF_MAX :: nat where "GDB_BUF_MAX \<equiv> 281"

section \<open>The client socket\<close>

datatype rd_ev = RdByte byte | RdAgain | RdFail

text \<open>\<open>WrSome n\<close> is a \<open>write\<close> that takes at most \<open>n + 1\<close> bytes.\<close>

datatype wr_ev = WrSome nat | WrZero | WrAgain | WrFail

record sock =
  client_fd :: int
  rd_evs :: "rd_ev list"
  wr_evs :: "wr_ev list"
  sent :: "byte list"
  sock_ub :: bool

definition rsp_client_close :: "sock \<Rightarrow> sock" where
  "rsp_client_close s = (if client_fd s \<noteq> - 1 then s\<lparr>client_fd := - 1\<rparr> else s)"

text \<open>The retry loop around \<open>write\<close>: what is written, whether the client is closed, what is left.\<close>

fun write_loop :: "wr_ev list \<Rightarrow> byte list \<Rightarrow> byte list \<times> bool \<times> wr_ev list" where
  "write_loop [] data = (data, False, [])"
| "write_loop (WrAgain # es) data = write_loop es data"
| "write_loop (WrZero # es) data = write_loop es data"
| "write_loop (WrFail # es) data = ([], True, es)"
| "write_loop (WrSome n # es) data = (take (Suc n) data, False, es)"

definition send_rsp_str :: "byte list \<Rightarrow> sock \<Rightarrow> sock" where
  "send_rsp_str data s =
     (if client_fd s = - 1 then s
      else (let (out, close, es) = write_loop (wr_evs s) data;
                s1 = s\<lparr>wr_evs := es, sent := sent s @ out\<rparr>
            in if close then rsp_client_close s1 else s1))"

fun read_loop :: "rd_ev list \<Rightarrow> int \<times> bool \<times> rd_ev list" where
  "read_loop [] = (- 1, True, [])"
| "read_loop (RdAgain # es) = read_loop es"
| "read_loop (RdFail # es) = (- 1, True, es)"
| "read_loop (RdByte c # es) = (uint c, False, es)"

definition get_rsp_char :: "sock \<Rightarrow> int \<times> sock" where
  "get_rsp_char s =
     (if client_fd s = - 1 then (- 1, s)
      else (let (c, close, es) = read_loop (rd_evs s);
                s1 = s\<lparr>rd_evs := es\<rparr>
            in (c, if close then rsp_client_close s1 else s1)))"

text \<open>\<open>recv\<close> with \<open>MSG_PEEK\<close> leaves the byte; a call that finds nothing used its event.\<close>

definition rsp_peek :: "sock \<Rightarrow> byte \<times> sock" where
  "rsp_peek s =
     (if client_fd s = - 1 then (0, s)
      else (case rd_evs s of
              RdByte c # es \<Rightarrow> (c, s)
            | RdAgain # es \<Rightarrow> (0, s\<lparr>rd_evs := es\<rparr>)
            | RdFail # es \<Rightarrow> (0, s\<lparr>rd_evs := es\<rparr>)
            | [] \<Rightarrow> (0, s)))"

lemma length_read_loop: "read_loop es = (c, close, es') \<Longrightarrow> length es' \<le> length es \<and> (0 \<le> c \<longrightarrow> length es' < length es)"
  by (induction es rule: read_loop.induct) auto

lemma read_loop_negative: "read_loop es = (c, close, es') \<Longrightarrow> (c < 0 \<longleftrightarrow> c = - 1) \<and> (close \<longleftrightarrow> c = - 1) \<and> c < 256"
proof (induction es rule: read_loop.induct)
  case (4 c es)
  have "uint (c :: byte) < 2 ^ LENGTH(8)" by (rule uint_lt2p)
  with 4 show ?case by (auto simp: not_less) (metis uint_ge_0 not_less neg_less_0_iff_less zero_less_one)
qed auto

lemma rd_evs_rsp_client_close [simp]: "rd_evs (rsp_client_close s) = rd_evs s"
  and sent_rsp_client_close [simp]: "sent (rsp_client_close s) = sent s"
  and sock_ub_rsp_client_close [simp]: "sock_ub (rsp_client_close s) = sock_ub s"
  and client_fd_rsp_client_close [simp]: "client_fd (rsp_client_close s) = - 1"
  by (simp_all add: rsp_client_close_def)

lemma rd_evs_send_rsp_str [simp]: "rd_evs (send_rsp_str data s) = rd_evs s"
  by (simp add: send_rsp_str_def Let_def split_beta)

lemma sock_ub_send_rsp_str [simp]: "sock_ub (send_rsp_str data s) = sock_ub s"
  by (simp add: send_rsp_str_def Let_def split_beta)

lemma get_rsp_char_shrinks:
  "get_rsp_char s = (c, s') \<Longrightarrow>
     length (rd_evs s') \<le> length (rd_evs s) \<and> (0 \<le> c \<longrightarrow> length (rd_evs s') < length (rd_evs s))"
  using length_read_loop [of "rd_evs s"]
  by (auto simp: get_rsp_char_def Let_def split: if_splits prod.splits)

lemma get_rsp_char_negative: "get_rsp_char s = (c, s') \<Longrightarrow> c < 0 \<longleftrightarrow> c = - 1"
  using read_loop_negative [of "rd_evs s"]
  by (auto simp: get_rsp_char_def Let_def split: if_splits prod.splits)

lemma get_rsp_char_less:
  "(c, s') = get_rsp_char s \<Longrightarrow> c \<noteq> - 1 \<Longrightarrow> length (rd_evs s') < length (rd_evs s)"
  using get_rsp_char_shrinks [of s c s'] get_rsp_char_negative [of s c s'] by (cases "c < 0") auto

lemma get_rsp_char_nonneg_less:
  "(c, s') = get_rsp_char s \<Longrightarrow> \<not> c < 0 \<Longrightarrow> length (rd_evs s') < length (rd_evs s)"
  using get_rsp_char_less [of c s' s] by auto

lemma sock_ub_get_rsp_char [simp]: "sock_ub (snd (get_rsp_char s)) = sock_ub s"
  by (simp add: get_rsp_char_def Let_def split_beta)

lemma sent_get_rsp_char [simp]: "sent (snd (get_rsp_char s)) = sent s"
  by (simp add: get_rsp_char_def Let_def split_beta)

section \<open>Sending packets\<close>

text \<open>Body and checksum as the loop of \<open>put_packet\<close> accumulates them.\<close>

fun packet_body :: "byte list \<Rightarrow> byte \<Rightarrow> byte list \<times> byte" where
  "packet_body [] checksum = ([], checksum)"
| "packet_body (ch # rest) checksum =
     (if ch = 0x24 \<or> ch = 0x23 \<or> ch = 0x2a \<or> ch = 0x7d
      then (let ch' = ch XOR 0x20;
                (data, cs) = packet_body rest (checksum + 0x7d + ch')
            in (0x7d # ch' # data, cs))
      else (let (data, cs) = packet_body rest (checksum + ch) in (ch # data, cs)))"

definition packet_frame :: "byte list \<Rightarrow> byte list" where
  "packet_frame d =
     (let (data, checksum) = packet_body d 0
      in [0x24] @ data @ [0x23, hexchars ! unat (drop_bit 4 checksum), hexchars ! unat (checksum mod 16)])"

text \<open>The local array holds \<open>GDB_BUF_MAX * 2\<close> bytes; a longer frame is written past its end.\<close>

function put_packet :: "byte list \<Rightarrow> sock \<Rightarrow> sock" where
  "put_packet d s =
     (let s0 = (if length (packet_frame d) > GDB_BUF_MAX * 2 then s\<lparr>sock_ub := True\<rparr> else s);
          s1 = send_rsp_str (packet_frame d) s0;
          (ch, s2) = get_rsp_char s1
      in if 0 > ch then s2
         else if ch = 0x2b then s2
         else put_packet d s2)"
  by pat_completeness auto
termination
  by (relation "measure (\<lambda>(d, s). length (rd_evs s))")
    (auto dest!: get_rsp_char_nonneg_less split: if_splits)

declare put_packet.simps [simp del]

definition put_str_packet :: "byte list \<Rightarrow> sock \<Rightarrow> sock" where
  "put_str_packet str s =
     (let len = (if length str \<ge> GDB_BUF_MAX then GDB_BUF_MAX - 1 else length str)
      in put_packet (take len str) s)"

lemma packet_body_eq: "packet_body d cs = (escape d, cs + sum_list (escape d))"
  by (induction d arbitrary: cs) (auto simp: escape_char_def add.assoc)

lemma packet_frame_eq:
  "packet_frame d =
     (let cs = sum_list (escape d)
      in [0x24] @ escape d @ [0x23, hexchars ! unat (drop_bit 4 cs), hexchars ! unat (cs mod 16)])"
  by (simp add: packet_frame_def packet_body_eq Let_def)

lemma length_packet_frame: "length (packet_frame d) = length (escape d) + 4"
  by (simp add: packet_frame_eq Let_def)

section \<open>Receiving packets\<close>

record rsp_buf =
  buf_data :: "byte list"
  buf_len :: nat

text \<open>The arrays of the source: \<open>GDB_BUF_MAX\<close> characters, with a NUL after the packet.\<close>

definition wf_buf :: "rsp_buf \<Rightarrow> bool" where
  "wf_buf b \<longleftrightarrow> length (buf_data b) = GDB_BUF_MAX \<and> buf_len b < GDB_BUF_MAX \<and> buf_data b ! buf_len b = 0"

function skip_to_start :: "sock \<Rightarrow> int \<times> sock" where
  "skip_to_start s =
     (let (ch, s1) = get_rsp_char s
      in if ch = 0x24 then (ch, s1) else if ch = - 1 then (ch, s1) else skip_to_start s1)"
  by pat_completeness auto
termination
  by (relation "measure (\<lambda>s. length (rd_evs s))")
    (auto dest: get_rsp_char_less)

declare skip_to_start.simps [simp del]

text \<open>A store to an array: outside of it \<open>sock_ub\<close> records what C leaves undefined.\<close>

definition store_ub :: "nat \<Rightarrow> byte list \<Rightarrow> sock \<Rightarrow> sock" where
  "store_ub i buf s = (if i < length buf then s else s\<lparr>sock_ub := True\<rparr>)"

lemma rd_evs_store_ub [simp]: "rd_evs (store_ub i buf s) = rd_evs s"
  and store_ub_inside [simp]: "i < length buf \<Longrightarrow> store_ub i buf s = s"
  by (simp_all add: store_ub_def)

text \<open>
  The inner loop: characters up to \<open>#\<close> or a full buffer.  The result is \<open>None\<close> when the connection
  failed, else the last character and the checksum; count and buffer are returned either way.
\<close>

function get_body :: "int \<Rightarrow> byte \<Rightarrow> nat \<Rightarrow> byte list \<Rightarrow> sock \<Rightarrow> (int \<times> byte) option \<times> nat \<times> byte list \<times> sock" where
  "get_body ch checksum count buf s =
     (if count < GDB_BUF_MAX - 1
      then (let (c, s1) = get_rsp_char s
            in if 0 > c then (None, count, buf, s1)
               else if c = 0x24 then get_body c 0 0 buf s1
               else if c = 0x23 then (Some (c, checksum), count, buf, s1)
               else get_body c (checksum + word_of_int c) (count + 1) (buf[count := word_of_int c]) (store_ub count buf s1))
      else (Some (ch, checksum), count, buf, s))"
  by pat_completeness auto
termination
  by (relation "measure (\<lambda>(ch, checksum, count, buf, s). length (rd_evs s))")
    (auto dest: get_rsp_char_nonneg_less)

declare get_body.simps [simp del]

lemma skip_to_start_shrinks:
  "skip_to_start s = (c, s') \<Longrightarrow> length (rd_evs s') \<le> length (rd_evs s) \<and>
     (c = 0x24 \<longrightarrow> length (rd_evs s') < length (rd_evs s))"
proof (induction s rule: skip_to_start.induct)
  case (1 s)
  obtain ch s1 where g: "get_rsp_char s = (ch, s1)" by (cases "get_rsp_char s")
  from get_rsp_char_shrinks [OF g] 1 g show ?case
    by (fastforce simp: skip_to_start.simps [of s] split: if_splits)
qed

lemma get_body_shrinks:
  "get_body ch cs n buf s = (r, n', buf', s') \<Longrightarrow> length (rd_evs s') \<le> length (rd_evs s)"
proof (induction ch cs n buf s rule: get_body.induct)
  case (1 ch cs n buf s)
  obtain c s1 where g: "get_rsp_char s = (c, s1)" by (cases "get_rsp_char s")
  from get_rsp_char_shrinks [OF g] 1 g show ?case
    by (fastforce simp: get_body.simps [of ch] split: if_splits)
qed

text \<open>The whole function; \<open>True\<close> when it returns its buffer, \<open>False\<close> for \<open>NULL\<close>.\<close>

function get_packet :: "rsp_buf \<Rightarrow> sock \<Rightarrow> bool \<times> rsp_buf \<times> sock" where
  "get_packet buf s =
     (let (ch, s1) = skip_to_start s
      in if ch \<noteq> 0x24 then (False, buf, s1)
         else (case get_body ch 0 0 (buf_data buf) s1 of
           (None, count, d, s2) \<Rightarrow> (False, buf\<lparr>buf_data := d\<rparr>, s2)
         | (Some (c, checksum), count, d, s2) \<Rightarrow>
             (let buf2 = buf\<lparr>buf_data := d[count := 0], buf_len := count\<rparr>; s2n = store_ub count d s2
              in if c = 0x23
                 then (let (c1, s3) = get_rsp_char s2n
                       in if 0 > c1 then (False, buf2, s3)
                          else (let (c2, s4) = get_rsp_char s3
                                in if 0 > c2 then (False, buf2, s4)
                                   else if checksum \<noteq> push_bit 4 (word_of_int (hex c1)) + word_of_int (hex c2)
                                        then get_packet buf2 (send_rsp_str [0x2d] s4)
                                        else (True, buf2, send_rsp_str [0x2b] s4)))
                 else get_packet buf2 s2n)))"
  by pat_completeness auto
termination
proof (relation "measure (\<lambda>(buf, s). length (rd_evs s))", goal_cases)
  case 1
  show ?case by simp
next
  case (2 buf s x ch s1 y z c checksum count w d s2 buf2 s2n xa c1 s3 xb c2 s4)
  then show ?case
    by (auto dest!: skip_to_start_shrinks [OF sym] get_body_shrinks [OF sym] get_rsp_char_nonneg_less)
next
  case (3 buf s x ch s1 y z c checksum count w d s2 buf2 s2n)
  then show ?case
    by (auto dest!: skip_to_start_shrinks [OF sym] get_body_shrinks [OF sym])
qed

declare get_packet.simps [simp del]


section \<open>What the packet functions do on an open connection\<close>

lemma get_rsp_char_byte:
  "client_fd s \<noteq> - 1 \<Longrightarrow> rd_evs s = RdByte c # es \<Longrightarrow> get_rsp_char s = (uint c, s\<lparr>rd_evs := es\<rparr>)"
  by (simp add: get_rsp_char_def)

lemma uint_byte_nonneg [simp]: "\<not> uint (c :: byte) < 0"
  by (simp add: not_less)

lemma uint_byte_eq_special [simp]:
  fixes c :: byte
  shows "uint c = 36 \<longleftrightarrow> c = 36" "uint c = 35 \<longleftrightarrow> c = 35" "uint c = 43 \<longleftrightarrow> c = 43"
  using word_uint_eq_iff [of c 36] word_uint_eq_iff [of c 35] word_uint_eq_iff [of c 43] by simp_all

lemma overwrite_step: "count < length buf \<Longrightarrow> overwrite (Suc count) d (buf[count := c]) = overwrite count (c # d) buf"
  by (simp add: overwrite_def take_Suc_update)

lemma overwrite_Nil [simp]: "overwrite n [] buf = buf"
  by (simp add: overwrite_def)

lemma get_body_plain:
  assumes "client_fd s \<noteq> - 1" "rd_evs s = map RdByte (d @ [0x23]) @ es"
    and "0x24 \<notin> set d" "0x23 \<notin> set d" "count + length d < GDB_BUF_MAX - 1" "length buf = GDB_BUF_MAX"
  shows "get_body ch cs count buf s =
     (Some (0x23, cs + sum_list d), count + length d, overwrite count d buf, s\<lparr>rd_evs := es\<rparr>)"
  using assms
proof (induction d arbitrary: ch cs count buf s)
  case Nil
  then have "get_rsp_char s = (uint (0x23 :: byte), s\<lparr>rd_evs := es\<rparr>)"
    using get_rsp_char_byte [of s "0x23" es] by simp
  with Nil.prems show ?case by (simp add: get_body.simps [of ch])
next
  case (Cons c d)
  then have g: "get_rsp_char s = (uint c, s\<lparr>rd_evs := map RdByte (d @ [0x23]) @ es\<rparr>)"
    using get_rsp_char_byte [of s c "map RdByte (d @ [0x23]) @ es"] by simp
  show ?case
    using Cons.prems Cons.IH [of "s\<lparr>rd_evs := map RdByte (d @ [0x23]) @ es\<rparr>" "count + 1" "buf[count := c]"
        "uint c" "cs + c"]
    by (simp add: get_body.simps [of ch] g overwrite_step add.assoc)
qed

text \<open>A buffer that fills up before \<open>#\<close>: 280 characters are stored and nothing else is read.\<close>

lemma get_body_overrun:
  assumes "client_fd s \<noteq> - 1" "rd_evs s = map RdByte d @ es" "0x24 \<notin> set d" "0x23 \<notin> set d"
    and "count + length d = GDB_BUF_MAX - 1" "length buf = GDB_BUF_MAX" "ch \<noteq> 0x23"
  shows "\<exists>c cs' buf'. get_body ch cs count buf s = (Some (c, cs'), GDB_BUF_MAX - 1, buf', s\<lparr>rd_evs := es\<rparr>)
     \<and> c \<noteq> 0x23 \<and> length buf' = GDB_BUF_MAX"
  using assms
proof (induction d arbitrary: ch cs count buf s)
  case Nil
  then show ?case by (simp add: get_body.simps [of ch])
next
  case (Cons c d)
  then have g: "get_rsp_char s = (uint c, s\<lparr>rd_evs := map RdByte d @ es\<rparr>)"
    using get_rsp_char_byte [of s c "map RdByte d @ es"] by simp
  show ?case
    using Cons.prems Cons.IH [of "s\<lparr>rd_evs := map RdByte d @ es\<rparr>" "count + 1" "buf[count := c]"
        "uint c" "cs + c"]
    by (simp add: get_body.simps [of ch] g)
qed

lemma skip_to_start_dollar:
  "client_fd s \<noteq> - 1 \<Longrightarrow> rd_evs s = RdByte 0x24 # es \<Longrightarrow> skip_to_start s = (0x24, s\<lparr>rd_evs := es\<rparr>)"
  by (simp add: skip_to_start.simps [of s] get_rsp_char_byte)

lemma skip_to_start_none:
  assumes "client_fd s \<noteq> - 1" "rd_evs s = map RdByte d" "0x24 \<notin> set d"
  shows "skip_to_start s = (- 1, s\<lparr>rd_evs := [], client_fd := - 1\<rparr>)"
  using assms
proof (induction d arbitrary: s)
  case Nil
  then show ?case
    by (simp add: skip_to_start.simps [of s] get_rsp_char_def rsp_client_close_def)
next
  case (Cons c d)
  have ne: "uint c \<noteq> - 1" by (metis uint_byte_nonneg neg_less_0_iff_less zero_less_one)
  from Cons show ?case
    by (simp add: skip_to_start.simps [of s] get_rsp_char_byte ne)
qed

lemma checksum_digits:
  fixes cs :: byte
  shows "push_bit 4 (word_of_int (hex (uint (hexchars ! unat (drop_bit 4 cs)))))
     + word_of_int (hex (uint (hexchars ! unat (cs mod 16)))) = cs"
proof -
  have hi: "unat (drop_bit 4 cs) < 16"
    using less_mult_imp_div_less [of "unat cs" 16 16] by (simp add: drop_bit_eq_div unat_div)
  have lo: "unat (cs mod 16) < 16"
    by (simp add: unat_mod)
  have "push_bit 4 (drop_bit 4 cs) + cs mod 16 = push_bit 4 (drop_bit 4 cs) + take_bit 4 cs"
    by (simp add: take_bit_eq_mod)
  also have "\<dots> = cs" by (rule bits_ident)
  finally show ?thesis using hi lo by (simp add: codec_simps)
qed

lemma get_packet_frame:
  assumes "client_fd s \<noteq> - 1" "rd_evs s = map RdByte (packet_frame d) @ es"
    and "length (escape d) < GDB_BUF_MAX - 1" "length (buf_data buf) = GDB_BUF_MAX"
  shows "get_packet buf s =
     (True, buf\<lparr>buf_data := (overwrite 0 (escape d) (buf_data buf))[length (escape d) := 0], buf_len := length (escape d)\<rparr>,
      send_rsp_str [0x2b] (s\<lparr>rd_evs := es\<rparr>))"
proof -
  define cs where "cs = sum_list (escape d)"
  let ?h1 = "hexchars ! unat (drop_bit 4 cs)" and ?h2 = "hexchars ! unat (cs mod 16)"
  have evs: "rd_evs s = RdByte 0x24 # map RdByte (escape d @ [0x23]) @ RdByte ?h1 # RdByte ?h2 # es"
    using assms(2) by (simp add: packet_frame_eq cs_def Let_def)
  let ?s1 = "s\<lparr>rd_evs := map RdByte (escape d @ [0x23]) @ RdByte ?h1 # RdByte ?h2 # es\<rparr>"
  have start: "skip_to_start s = (0x24, ?s1)"
    using skip_to_start_dollar [OF assms(1) evs] by simp
  have "0x24 \<notin> set (escape d)" "0x23 \<notin> set (escape d)"
    using escape_no_special by blast+
  then have body: "get_body 0x24 0 0 (buf_data buf) ?s1 =
      (Some (0x23, cs), length (escape d), overwrite 0 (escape d) (buf_data buf),
       s\<lparr>rd_evs := RdByte ?h1 # RdByte ?h2 # es\<rparr>)"
    using get_body_plain [of ?s1 "escape d" "RdByte ?h1 # RdByte ?h2 # es" 0 "buf_data buf" "0x24" 0] assms
    by (simp add: cs_def)
  have c1: "get_rsp_char (s\<lparr>rd_evs := RdByte ?h1 # RdByte ?h2 # es\<rparr>) = (uint ?h1, s\<lparr>rd_evs := RdByte ?h2 # es\<rparr>)"
    and c2: "get_rsp_char (s\<lparr>rd_evs := RdByte ?h2 # es\<rparr>) = (uint ?h2, s\<lparr>rd_evs := es\<rparr>)"
    using assms(1) by (simp_all add: get_rsp_char_def)
  have "length (overwrite 0 (escape d) (buf_data buf)) = GDB_BUF_MAX"
    using assms by (simp add: overwrite_def)
  then show ?thesis
    using assms(3) by (simp add: get_packet.simps [of buf] start [simplified] body [simplified] c1 c2 checksum_digits)
qed

text \<open>A frame that fills the buffer: the search for the next packet goes on behind 281 of its characters.\<close>

lemma get_packet_overrun:
  assumes "client_fd s \<noteq> - 1" "rd_evs s = map RdByte (0x24 # d) @ es" "length d = GDB_BUF_MAX - 1"
    and "0x24 \<notin> set d" "0x23 \<notin> set d" "length (buf_data buf) = GDB_BUF_MAX"
  shows "\<exists>buf'. length (buf_data buf') = GDB_BUF_MAX \<and> get_packet buf s = get_packet buf' (s\<lparr>rd_evs := es\<rparr>)"
proof -
  let ?s1 = "s\<lparr>rd_evs := map RdByte d @ es\<rparr>" and ?s2 = "s\<lparr>rd_evs := es\<rparr>"
  have start: "skip_to_start s = (0x24, ?s1)"
    using skip_to_start_dollar [OF assms(1), of "map RdByte d @ es"] assms(2) by simp
  obtain c cs b where body: "get_body 0x24 0 0 (buf_data buf) ?s1 = (Some (c, cs), GDB_BUF_MAX - 1, b, ?s2)" "c \<noteq> 0x23"
    "length b = GDB_BUF_MAX"
    using get_body_overrun [of ?s1 d es 0 "buf_data buf" "0x24" 0] assms by auto
  have "get_packet buf s = get_packet (buf\<lparr>buf_data := b[280 := 0], buf_len := 280\<rparr>) ?s2"
    using body(3) by (simp add: get_packet.simps [of buf] start [simplified] body(1,2) [simplified])
  moreover have "length (buf_data (buf\<lparr>buf_data := b[280 := 0], buf_len := 280\<rparr>)) = GDB_BUF_MAX" using body(3) by simp
  ultimately show ?thesis by blast
qed


text \<open>Well-formed buffers survive every call, whatever arrives.\<close>

lemma get_body_wf:
  "get_body ch cs count buf s = (r, n, buf', s') \<Longrightarrow> length buf = GDB_BUF_MAX \<Longrightarrow> count < GDB_BUF_MAX \<Longrightarrow>
   length buf' = GDB_BUF_MAX \<and> n < GDB_BUF_MAX \<and> sock_ub s' = sock_ub s"
proof (induction ch cs count buf s rule: get_body.induct)
  case (1 ch cs count buf s)
  obtain c s1 where g: "get_rsp_char s = (c, s1)" by (cases "get_rsp_char s")
  have "sock_ub s1 = sock_ub s" using sock_ub_get_rsp_char [of s] g by simp
  then show ?case
    using "1.prems" "1.IH" [OF _ g [symmetric]]
    by (auto simp: get_body.simps [of ch] g split: if_splits)
qed

lemma skip_to_start_ub: "skip_to_start s = (c, s') \<Longrightarrow> sock_ub s' = sock_ub s"
proof (induction s rule: skip_to_start.induct)
  case (1 s)
  obtain ch s1 where g: "get_rsp_char s = (ch, s1)" by (cases "get_rsp_char s")
  have "sock_ub s1 = sock_ub s" using sock_ub_get_rsp_char [of s] g by simp
  with 1 g show ?case by (fastforce simp: skip_to_start.simps [of s] split: if_splits)
qed

lemma get_packet_wf:
  "get_packet buf s = (r, buf', s') \<Longrightarrow> length (buf_data buf) = GDB_BUF_MAX \<Longrightarrow>
   length (buf_data buf') = GDB_BUF_MAX \<and> sock_ub s' = sock_ub s \<and> (r \<longrightarrow> wf_buf buf')"
proof (induction "length (rd_evs s)" arbitrary: buf s rule: less_induct)
  case less
  obtain ch s1 where a: "skip_to_start s = (ch, s1)" by (cases "skip_to_start s")
  obtain o1 n d s2 where b: "get_body ch 0 0 (buf_data buf) s1 = (o1, n, d, s2)"
    by (cases "get_body ch 0 0 (buf_data buf) s1")
  have d: "length d = GDB_BUF_MAX" "n < GDB_BUF_MAX" "sock_ub s2 = sock_ub s" "sock_ub s1 = sock_ub s"
    using get_body_wf [OF b] less.prems(2) skip_to_start_ub [OF a] by auto
  obtain c1 s3 where c: "get_rsp_char s2 = (c1, s3)" by (cases "get_rsp_char s2")
  obtain c2 s4 where e: "get_rsp_char s3 = (c2, s4)" by (cases "get_rsp_char s3")
  have ub: "sock_ub s3 = sock_ub s" "sock_ub s4 = sock_ub s"
    using sock_ub_get_rsp_char [of s2] sock_ub_get_rsp_char [of s3] c e d by simp_all
  show ?case
  proof (cases "ch = 0x24")
    case False
    with less.prems a d show ?thesis by (simp add: get_packet.simps [of buf])
  next
    case True
    with skip_to_start_shrinks [OF a] get_body_shrinks [OF b] get_rsp_char_shrinks [OF c]
      get_rsp_char_shrinks [OF e]
    have l: "length (rd_evs s2) < length (rd_evs s)" "length (rd_evs s4) < length (rd_evs s)"
      by auto
    show ?thesis
      using less.prems d ub True a b c e
        less.hyps [of "send_rsp_str [0x2d] s4" "buf\<lparr>buf_data := d[n := 0], buf_len := n\<rparr>"]
        less.hyps [of s2 "buf\<lparr>buf_data := d[n := 0], buf_len := n\<rparr>"] l
      by (auto simp: get_packet.simps [of buf] Let_def wf_buf_def split: if_splits option.splits)
  qed
qed

section \<open>Acknowledged transmission\<close>

lemma write_loop_Nil: "wr_evs s = [] \<Longrightarrow> client_fd s \<noteq> - 1 \<Longrightarrow> send_rsp_str d s = s\<lparr>sent := sent s @ d\<rparr>"
  by (simp add: send_rsp_str_def)

lemma put_packet_retransmits:
  assumes "client_fd s \<noteq> - 1" "wr_evs s = []" "length (escape d) + 4 \<le> GDB_BUF_MAX * 2"
    and "rd_evs s = map RdByte (naks @ [0x2b]) @ es" "0x2b \<notin> set naks"
  shows "put_packet d s =
     s\<lparr>rd_evs := es, sent := sent s @ concat (replicate (length naks + 1) (packet_frame d))\<rparr>"
  using assms
proof (induction naks arbitrary: s)
  case Nil
  then show ?case
    by (simp add: put_packet.simps [of d] write_loop_Nil get_rsp_char_byte length_packet_frame)
next
  case (Cons c naks)
  let ?s2 = "s\<lparr>sent := sent s @ packet_frame d, rd_evs := map RdByte (naks @ [0x2b]) @ es\<rparr>"
  have "put_packet d s = put_packet d ?s2"
    using Cons.prems
    by (simp add: put_packet.simps [of d s] write_loop_Nil get_rsp_char_byte length_packet_frame)
  also have "\<dots> = s\<lparr>rd_evs := es, sent := (sent s @ packet_frame d)
      @ concat (replicate (length naks + 1) (packet_frame d))\<rparr>"
    using Cons.IH [of ?s2] Cons.prems by simp
  finally show ?case by simp
qed

text \<open>On a connection that writes everything, what is sent is a number of copies of the frame.\<close>

lemma put_packet_sent:
  assumes "wr_evs s = []" "put_packet d s = s'"
  shows "\<exists>k. sent s' = sent s @ concat (replicate k (packet_frame d)) \<and> wr_evs s' = []
     \<and> (client_fd s \<noteq> - 1 \<longrightarrow> k \<noteq> 0)"
  using assms
proof (induction d s arbitrary: s' rule: put_packet.induct)
  case (1 d s)
  let ?s0 = "if length (packet_frame d) > GDB_BUF_MAX * 2 then s\<lparr>sock_ub := True\<rparr> else s"
  let ?s1 = "send_rsp_str (packet_frame d) ?s0"
  have s1: "wr_evs ?s1 = []" "sent ?s1 = sent s @ (if client_fd s = - 1 then [] else packet_frame d)"
    using "1.prems"(1) by (auto simp: send_rsp_str_def)
  obtain ch s2 where g: "get_rsp_char ?s1 = (ch, s2)" by (cases "get_rsp_char ?s1")
  have s2: "sent s2 = sent ?s1" "wr_evs s2 = wr_evs ?s1"
    using g by (auto simp: get_rsp_char_def rsp_client_close_def Let_def split: if_splits prod.splits)
  have closed: "ch < 0" if "client_fd s = - 1"
    using that g by (auto simp: get_rsp_char_def send_rsp_str_def split: if_splits)
  show ?case
  proof (cases "ch < 0 \<or> ch = 0x2b")
    case True
    then have "s' = s2"
      using "1.prems"(2) g by (auto simp: put_packet.simps [of d s] Let_def split: if_splits)
    then show ?thesis
      using s1 s2 by (intro exI [of _ "if client_fd s = - 1 then 0 else 1"]) auto
  next
    case False
    then have "put_packet d s2 = s'"
      using "1.prems"(2) g by (auto simp: put_packet.simps [of d s] Let_def split: if_splits)
    moreover have "wr_evs s2 = []" using s1 s2 by simp
    ultimately obtain k where "sent s' = sent s2 @ concat (replicate k (packet_frame d))" "wr_evs s' = []"
      using "1.IH" [OF refl refl g [symmetric]] False by fastforce
    then show ?thesis
      using s1 s2 closed False by (intro exI [of _ "Suc k"]) auto
  qed
qed

section \<open>Properties\<close>

text \<open>
  C22. \<open>get_packet\<close> accepts a frame \<open>put_packet\<close> builds when its data has less than 280 characters after
  escaping: the (still escaped) data is in the buffer with a NUL behind it, \<open>+\<close> is sent and nothing
  beyond the frame is consumed.  A longer frame is given up after 281 characters, without an answer: the
  function goes on as if called again for what is left of it.
\<close>

theorem get_packet_accepts_frame:
  assumes "client_fd s \<noteq> - 1" "rd_evs s = map RdByte (packet_frame d) @ es" "length (buf_data buf) = GDB_BUF_MAX"
  shows "if length (escape d) < GDB_BUF_MAX - 1
     then (case get_packet buf s of (ok, buf', s') \<Rightarrow>
       ok \<and> wf_buf buf' \<and> buf_len buf' = length (escape d) \<and> unescape (take (buf_len buf') (buf_data buf')) = d
       \<and> s' = send_rsp_str [0x2b] (s\<lparr>rd_evs := es\<rparr>))
     else (\<exists>buf'. length (buf_data buf') = GDB_BUF_MAX \<and>
       get_packet buf s = get_packet buf' (s\<lparr>rd_evs := map RdByte (drop GDB_BUF_MAX (packet_frame d)) @ es\<rparr>))"
proof (cases "length (escape d) < GDB_BUF_MAX - 1")
  case True
  then have "in_bounds 0 (escape d) (buf_data buf)" using assms by (simp add: in_bounds_def)
  then show ?thesis
    using True assms(3) unescape_escape [of d] get_packet_frame [OF assms(1,2) True assms(3)] by (simp add: wf_buf_def)
next
  case False
  define e where "e = take 280 (escape d)"
  have len: "length e = GDB_BUF_MAX - 1" using False by (simp add: e_def)
  have p: "packet_frame d = (0x24 # e) @ drop GDB_BUF_MAX (packet_frame d)"
  proof -
    have "take GDB_BUF_MAX (packet_frame d) = 0x24 # e" using False by (simp add: packet_frame_eq Let_def e_def)
    then show ?thesis using append_take_drop_id [of GDB_BUF_MAX "packet_frame d"] by metis
  qed
  have "rd_evs s = map RdByte (0x24 # e) @ map RdByte (drop GDB_BUF_MAX (packet_frame d)) @ es"
    unfolding assms(2) by (subst p) simp
  moreover have "0x24 \<notin> set e" "0x23 \<notin> set e" using escape_no_special set_take_subset [of 280 "escape d"] unfolding e_def by blast+
  ultimately show ?thesis using get_packet_overrun [OF assms(1) _ len _ _ assms(3)] False by simp
qed

definition ex_sock :: "byte list \<Rightarrow> sock" where
  "ex_sock bs = \<lparr>client_fd = 3, rd_evs = map RdByte bs, wr_evs = [], sent = [], sock_ub = False\<rparr>"

theorem get_packet_accepts_frame_witness:
  "fst (get_packet \<lparr>buf_data = replicate GDB_BUF_MAX 0, buf_len = 0\<rparr> (ex_sock (packet_frame (bytes ''m100,4'') @ [3])))"
  using get_packet_accepts_frame [of "ex_sock (packet_frame (bytes ''m100,4'') @ [3])" "bytes ''m100,4''"
      "[RdByte 3]" "\<lparr>buf_data = replicate GDB_BUF_MAX 0, buf_len = 0\<rparr>"]
  by (simp add: ex_sock_def escape_char_def split: prod.splits)

text \<open>
  C27. Whatever bytes, retries and failures the socket delivers, \<open>get_packet\<close> returns and stores no
  character and no NUL outside its array (\<open>sock_ub\<close>, which a store outside would set, is as before),
  and a packet it accepts is NUL-terminated inside the array.
\<close>

theorem get_packet_buffer_safe:
  assumes "length (buf_data buf) = GDB_BUF_MAX"
  shows "case get_packet buf s of (ok, buf', s') \<Rightarrow>
     sock_ub s' = sock_ub s \<and> length (buf_data buf') = GDB_BUF_MAX \<and> (if ok then wf_buf buf' else True)"
  using get_packet_wf [OF _ assms] by (auto split: prod.split)

theorem get_packet_buffer_safe_witness:
  "\<not> sock_ub (snd (snd (get_packet \<lparr>buf_data = replicate GDB_BUF_MAX 0, buf_len = 0\<rparr> (ex_sock (0x24 # replicate 300 0x30)))))"
  using get_packet_buffer_safe [of "\<lparr>buf_data = replicate GDB_BUF_MAX 0, buf_len = 0\<rparr>" "ex_sock (0x24 # replicate 300 0x30)"]
  by (simp add: ex_sock_def split: prod.splits)

text \<open>
  \<open>put_packet\<close> repeats the same frame until the client answers \<open>+\<close>: with n other answers first it
  sends the frame n + 1 times and consumes exactly the answers.
\<close>

lemma put_packet_until_acknowledged:
  assumes "client_fd s \<noteq> - 1" "wr_evs s = []" "length (escape d) + 4 \<le> GDB_BUF_MAX * 2"
    and "rd_evs s = map RdByte (naks @ [0x2b]) @ es" "0x2b \<notin> set naks"
  shows "put_packet d s =
     s\<lparr>rd_evs := es, sent := sent s @ concat (replicate (length naks + 1) (packet_frame d))\<rparr>"
  using assms by (rule put_packet_retransmits)

lemma put_packet_until_acknowledged_witness:
  "sent (put_packet (bytes ''OK'') (ex_sock [0x2d, 0x2d, 0x2b])) =
     concat (replicate 3 (packet_frame (bytes ''OK'')))"
  using put_packet_until_acknowledged [of "ex_sock [0x2d, 0x2d, 0x2b]" "bytes ''OK''" "[0x2d, 0x2d]" "[]"]
  by (simp add: ex_sock_def escape_char_def numeral_eq_Suc)

text \<open>
  A packet of 280 or more characters is never accepted: neither \<open>+\<close> nor \<open>-\<close> is sent for it, and its
  rest is skipped in search of the next \<open>$\<close>.  The full \<open>G\<close> packet has 281 characters, and 281 is the
  \<open>PacketSize\<close> the server reports.
\<close>

lemma get_packet_drops_full_packet:
  assumes "client_fd s \<noteq> - 1" "rd_evs s = map RdByte (0x24 # d @ rest)" "length d = GDB_BUF_MAX - 1"
    and "0x24 \<notin> set d" "0x23 \<notin> set d" "0x24 \<notin> set rest" "length (buf_data buf) = GDB_BUF_MAX"
  shows "case get_packet buf s of (ok, buf', s') \<Rightarrow> \<not> ok \<and> s' = s\<lparr>rd_evs := [], client_fd := - 1\<rparr>"
proof -
  let ?s2 = "s\<lparr>rd_evs := map RdByte rest\<rparr>"
  obtain b where b: "get_packet buf s = get_packet b ?s2"
    using get_packet_overrun [of s d "map RdByte rest" buf] assms by auto
  have "skip_to_start ?s2 = (- 1, s\<lparr>rd_evs := [], client_fd := - 1\<rparr>)"
    using skip_to_start_none [of ?s2 rest] assms by simp
  then show ?thesis by (simp add: b get_packet.simps [of _ ?s2])
qed

lemma get_packet_drops_full_packet_witness:
  "\<not> fst (get_packet \<lparr>buf_data = replicate GDB_BUF_MAX 0, buf_len = 0\<rparr>
      (ex_sock (0x24 # (0x47 # replicate 279 0x30) @ [0x30, 0x23, 0x30, 0x30])))"
  using get_packet_drops_full_packet [of "ex_sock (0x24 # (0x47 # replicate 279 0x30) @ [0x30, 0x23, 0x30, 0x30])"
      "0x47 # replicate 279 0x30" "[0x30, 0x23, 0x30, 0x30]" "\<lparr>buf_data = replicate GDB_BUF_MAX 0, buf_len = 0\<rparr>"]
  by (simp add: ex_sock_def split: prod.splits)

end
