(* ===== verification/CLib.thy ===== *)
theory CLib
  imports RspCodec
begin

text \<open>
  The C library functions the server calls on packet text, on byte lists that hold the array
  behind the pointer: NUL-terminated strings, \<open>strcmp\<close>/\<open>strncmp\<close> against literals, \<open>sscanf\<close>
  with the directives the source uses (\<open>%x\<close>, \<open>%d\<close>, \<open>%s\<close> with optional widths), and the
  \<open>sprintf\<close> conversions \<open>%x\<close> and \<open>%8x\<close>.  The numeric conversions follow an LP64 host: \<open>%x\<close> and
  \<open>%d\<close> go through a 64-bit \<open>long\<close> that saturates and are then stored to 32 bits.
\<close>

section \<open>Strings\<close>

text \<open>The string at the start of an array: the bytes before the first NUL.\<close>

definition cstr :: "byte list \<Rightarrow> byte list" where
  "cstr data = takeWhile (\<lambda>c. c \<noteq> 0) data"

text \<open>\<open>0 == strcmp (lit, data)\<close> and \<open>0 == strncmp (lit, data, strlen (lit))\<close> for a literal.\<close>

definition strcmp_eq :: "string \<Rightarrow> byte list \<Rightarrow> bool" where
  "strcmp_eq lit data \<longleftrightarrow> cstr data = bytes lit"

definition strncmp_eq :: "string \<Rightarrow> byte list \<Rightarrow> bool" where
  "strncmp_eq lit data \<longleftrightarrow> take (length lit) (cstr data) = bytes lit"

definition strlen_buf :: "byte list \<Rightarrow> nat" where
  "strlen_buf data = length (cstr data)"

lemma cstr_append0 [simp]: "0 \<notin> set s \<Longrightarrow> cstr (s @ 0 # r) = s"
  by (induction s) (auto simp: cstr_def)

lemma cstr_no_nul: "0 \<notin> set (cstr data)"
  by (auto simp: cstr_def dest: set_takeWhileD)

lemma length_cstr_le: "length (cstr data) \<le> length data"
  by (simp add: cstr_def length_takeWhile_le)

section \<open>Scanning\<close>

definition is_space :: "byte \<Rightarrow> bool" where
  "is_space c \<longleftrightarrow> c = 0x20 \<or> (9 \<le> c \<and> c \<le> 13)"

definition is_digit :: "byte \<Rightarrow> bool" where
  "is_digit c \<longleftrightarrow> 0x30 \<le> c \<and> c \<le> 0x39"

definition is_xdigit :: "byte \<Rightarrow> bool" where
  "is_xdigit c \<longleftrightarrow> 0 \<le> hex (uint c)"

text \<open>The directives of a format string; a width of \<open>None\<close> is no maximum.\<close>

datatype directive = Lit byte | Space | ScanX "nat option" | ScanD "nat option" | ScanS nat

datatype scanned = Num u32 | Text "byte list"

definition width_take :: "nat option \<Rightarrow> byte list \<Rightarrow> byte list" where
  "width_take w s = (case w of None \<Rightarrow> s | Some n \<Rightarrow> take n s)"

text \<open>An optional sign: whether it is a minus, and how many characters it takes.\<close>

fun scan_sign :: "byte list \<Rightarrow> bool \<times> nat" where
  "scan_sign (c # cs) = (if c = 0x2d then (True, 1) else if c = 0x2b then (False, 1) else (False, 0))"
| "scan_sign [] = (False, 0)"

fun scan_prefix :: "byte list \<Rightarrow> nat" where
  "scan_prefix (c # d # cs) = (if c = 0x30 \<and> (d = 0x78 \<or> d = 0x58) then 2 else 0)"
| "scan_prefix cs = 0"

definition digits_value :: "int \<Rightarrow> byte list \<Rightarrow> int" where
  "digits_value base ds = foldl (\<lambda>v c. v * base + hex (uint c)) 0 ds"

text \<open>\<open>strtoul\<close> and \<open>strtol\<close> on 64 bits, then the store through an \<open>unsigned *\<close> or \<open>int *\<close>.\<close>

definition store_ulong :: "bool \<Rightarrow> int \<Rightarrow> u32" where
  "store_ulong neg v =
     (let m = (if v > 2 ^ 64 - 1 then 2 ^ 64 - 1 else v)
      in word_of_int (if neg \<and> v \<le> 2 ^ 64 - 1 then - m else m))"

definition store_long :: "bool \<Rightarrow> int \<Rightarrow> u32" where
  "store_long neg v =
     word_of_int (if neg then max (- (2 ^ 63)) (- v) else min (2 ^ 63 - 1) v)"

text \<open>A number: value and characters left, or \<open>None\<close> for a matching failure.\<close>

definition scan_num :: "bool \<Rightarrow> nat option \<Rightarrow> byte list \<Rightarrow> (u32 \<times> byte list) option" where
  "scan_num hexadecimal w s =
     (let s1 = dropWhile is_space s;
          t = width_take w s1;
          (neg, k) = scan_sign t;
          p = (if hexadecimal then scan_prefix (drop k t) else 0);
          ds = takeWhile (if hexadecimal then is_xdigit else is_digit) (drop (k + p) t)
      in if ds = [] then None
         else Some (if hexadecimal then store_ulong neg (digits_value 16 ds)
                    else store_long neg (digits_value 10 ds),
                    drop (k + p + length ds) s1))"

definition scan_text :: "nat \<Rightarrow> byte list \<Rightarrow> (byte list \<times> byte list) option" where
  "scan_text w s =
     (let s1 = dropWhile is_space s;
          t = takeWhile (\<lambda>c. \<not> is_space c) (take w s1)
      in if t = [] then None else Some (t, drop (length t) s1))"

text \<open>The conversions \<open>sscanf\<close> assigns; their number is its return value when it is not EOF.\<close>

fun scan :: "directive list \<Rightarrow> byte list \<Rightarrow> scanned list" where
  "scan [] s = []"
| "scan (Lit c # ds) s = (case s of [] \<Rightarrow> [] | d # s' \<Rightarrow> if c = d then scan ds s' else [])"
| "scan (Space # ds) s = scan ds (dropWhile is_space s)"
| "scan (ScanX w # ds) s =
     (case scan_num True w s of None \<Rightarrow> [] | Some (v, s') \<Rightarrow> Num v # scan ds s')"
| "scan (ScanD w # ds) s =
     (case scan_num False w s of None \<Rightarrow> [] | Some (v, s') \<Rightarrow> Num v # scan ds s')"
| "scan (ScanS w # ds) s =
     (case scan_text w s of None \<Rightarrow> [] | Some (t, s') \<Rightarrow> Text t # scan ds s')"

definition sscanf :: "byte list \<Rightarrow> directive list \<Rightarrow> scanned list" where
  "sscanf data fmt = scan fmt (cstr data)"

text \<open>A literal stretch of a format.\<close>

definition lits :: "string \<Rightarrow> directive list" where
  "lits s = map Lit (bytes s)"

lemma lits_simps [simp]: "lits [] = []" "lits (c # cs) = Lit (of_char c) # lits cs"
  by (simp_all add: lits_def)

section \<open>Printing\<close>

text \<open>The hexadecimal digits of a number, most significant first, without leading zeros.\<close>

fun xdigits :: "nat \<Rightarrow> byte list" where
  "xdigits n = (if n < 16 then [hexchars ! n] else xdigits (n div 16) @ [hexchars ! (n mod 16)])"

declare xdigits.simps [simp del]

definition sprintf_x :: "u32 \<Rightarrow> byte list" where
  "sprintf_x v = xdigits (unat v)"

definition sprintf_8x :: "u32 \<Rightarrow> byte list" where
  "sprintf_8x v = (let ds = xdigits (unat v) in replicate (8 - length ds) 0x20 @ ds)"

lemma digits_value_snoc: "digits_value b (ds @ [c]) = digits_value b ds * b + hex (uint c)"
  by (simp add: digits_value_def)

lemma digits_value_xdigits: "digits_value 16 (xdigits n) = int n"
proof (induction n rule: xdigits.induct)
  case (1 n)
  show ?case
  proof (cases "n < 16")
    case True
    then show ?thesis by (simp add: xdigits.simps [of n] digits_value_def codec_simps)
  next
    case False
    have "int (n div 16) * 16 + int (n mod 16) = int n"
      by (metis div_mult_mod_eq of_nat_add of_nat_mult of_nat_numeral)
    with 1 False show ?thesis by (simp add: xdigits.simps [of n] digits_value_snoc codec_simps)
  qed
qed

lemma is_xdigit_hexchars: "n < 16 \<Longrightarrow> is_xdigit (hexchars ! n)"
  by (simp add: is_xdigit_def codec_simps)

lemma xdigits_all: "c \<in> set (xdigits n) \<Longrightarrow> is_xdigit c"
proof (induction n rule: xdigits.induct)
  case (1 n)
  then show ?case
    by (cases "n < 16") (auto simp: xdigits.simps [of n] is_xdigit_hexchars)
qed

lemma xdigits_nonempty [simp]: "xdigits n \<noteq> []"
  by (simp add: xdigits.simps [of n])

section \<open>Scanning what was printed\<close>

text \<open>Text behind a hexadecimal number that does not continue it.\<close>

definition ends_hex :: "byte list \<Rightarrow> bool" where
  "ends_hex rest \<longleftrightarrow> (case rest of [] \<Rightarrow> True | c # cs \<Rightarrow> \<not> is_xdigit c \<and> c \<noteq> 0x78 \<and> c \<noteq> 0x58)"

lemma xdigit_chars:
  "is_xdigit c \<Longrightarrow> \<not> is_space c \<and> c \<noteq> 0x2d \<and> c \<noteq> 0x2b \<and> c \<noteq> 0x78 \<and> c \<noteq> 0x58"
  by (cases "c = 0x2d"; cases "c = 0x2b"; cases "c = 0x78"; cases "c = 0x58"; cases "c = 0x20")
    (auto simp: is_xdigit_def is_space_def hex_def word_le_def split: if_splits)

lemma dropWhile_xdigits: "xdigits n @ rest = c # cs \<Longrightarrow> is_xdigit c"
  using xdigits_all [of c n] by (cases "xdigits n") auto

lemma scan_sign_xdigit: "is_xdigit c \<Longrightarrow> scan_sign (c # cs) = (False, 0)"
  using xdigit_chars [of c] by simp

lemma scan_prefix_xdigits:
  assumes "ends_hex rest"
  shows "scan_prefix (xdigits n @ rest) = 0"
proof (cases "xdigits n @ rest" rule: scan_prefix.cases)
  case (1 c d cs)
  have "d \<noteq> 0x78 \<and> d \<noteq> 0x58"
  proof (cases "xdigits n")
    case Nil
    then show ?thesis by simp
  next
    case (Cons x xs)
    show ?thesis
    proof (cases xs)
      case Nil
      with 1 Cons assms show ?thesis by (auto simp: ends_hex_def split: list.splits)
    next
      case (Cons y ys)
      with 1 \<open>xdigits n = x # xs\<close> xdigits_all [of d n] xdigit_chars [of d] show ?thesis by auto
    qed
  qed
  with 1 show ?thesis by simp
qed auto

lemma takeWhile_xdigits: "ends_hex rest \<Longrightarrow> takeWhile is_xdigit (xdigits n @ rest) = xdigits n"
  using xdigits_all [of _ n]
  by (subst takeWhile_append2) (auto simp: ends_hex_def split: list.splits)

lemma scan_hex:
  assumes "ends_hex rest" "n < 2 ^ 64"
  shows "scan_num True None (xdigits n @ rest) = Some (of_nat n, rest)"
proof -
  obtain c cs where s: "xdigits n @ rest = c # cs"
    by (cases "xdigits n @ rest") auto
  have c: "is_xdigit c" by (rule dropWhile_xdigits [OF s])
  then have ws: "dropWhile is_space (xdigits n @ rest) = xdigits n @ rest" and sg: "scan_sign (xdigits n @ rest) = (False, 0)"
    using xdigit_chars [OF c] scan_sign_xdigit [OF c] by (simp_all add: s)
  have "int n \<le> 2 ^ 64 - 1" using assms(2) by (simp flip: of_nat_less_iff)
  then have "store_ulong False (digits_value 16 (xdigits n)) = of_nat n"
    by (simp add: store_ulong_def digits_value_xdigits)
  then show ?thesis
    using assms(1)
    by (simp add: scan_num_def width_take_def ws sg scan_prefix_xdigits takeWhile_xdigits Let_def)
qed

lemma scan_lits: "scan (lits l @ ds) (bytes l @ s) = scan ds s"
  by (induction l) simp_all

lemma cstr_unique: "cstr data = s \<Longrightarrow> 0 \<notin> set s"
  using cstr_no_nul by auto

lemma scan_digit:
  assumes "is_digit d"
  shows "scan_num False (Some 1) (d # rest) = Some (word_of_int (hex (uint d)), rest)"
proof -
  have "0x30 \<le> uint d" "uint d \<le> 0x39"
    using assms by (simp_all add: is_digit_def word_le_def)
  then have h: "0 \<le> hex (uint d)" "hex (uint d) \<le> 9" and x: "is_xdigit d"
    by (simp_all add: hex_def is_xdigit_def)
  have "min (2 ^ 63 - 1) (hex (uint d)) = hex (uint d)"
    using h by simp
  then show ?thesis
    using assms xdigit_chars [OF x]
    by (simp add: scan_num_def width_take_def digits_value_def store_long_def Let_def)
qed


lemma length_xdigits: "n < 16 ^ k \<Longrightarrow> 0 < k \<Longrightarrow> length (xdigits n) \<le> k"
proof (induction n arbitrary: k rule: xdigits.induct)
  case (1 n)
  show ?case
  proof (cases "n < 16")
    case False
    with 1(2,3) obtain j where k: "k = Suc j" "0 < j"
      by (cases k; cases "k - 1") auto
    then have "n div 16 < 16 ^ j" using 1(2) by (simp add: less_mult_imp_div_less)
    from 1(1) [OF False this k(2)] k False show ?thesis by (simp add: xdigits.simps [of n])
  qed (use 1(3) in \<open>simp add: xdigits.simps [of n]\<close>)
qed

lemma length_xdigits_u32: "length (xdigits (unat (w :: u32))) \<le> 8"
  using unsigned_less [of w] by (intro length_xdigits) simp_all

lemma xdigits_no_nul: "0 \<notin> set (xdigits n)"
  using xdigits_all [of 0 n] by (auto simp: is_xdigit_def hex_def)

end
