(* ===== verification/MpHash.thy ===== *)
theory MpHash
  imports Prelude
begin

text \<open>
  The matchpoint hash table of \<open>gdb.c\<close>: \<open>mp_hash_init\<close>, \<open>mp_hash_add\<close>, \<open>mp_hash_lookup\<close> and
  \<open>mp_hash_delete\<close>.  A chain of \<open>struct mp_entry\<close> is the list of its entries from the head; no entry
  is shared between chains and \<open>mp_hash_delete\<close> hands the unlinked entry to its caller.  The table is
  shown to implement the map from (type, address) to the replaced instruction that the server
  relies on; the interface is the locale \<open>mp_table\<close>.
\<close>

datatype mp_type = BP_MEMORY | BP_HARDWARE | WP_WRITE | WP_READ | WP_ACCESS

record mp_entry =
  me_type :: mp_type
  me_addr :: u32
  me_instr :: u32

type_synonym mp_hash = "nat \<Rightarrow> mp_entry list"

abbreviation (input) MP_HASH_SIZE :: nat where "MP_HASH_SIZE \<equiv> 1021"

definition mp_hash_value :: "u32 \<Rightarrow> nat" where
  "mp_hash_value addr = unat addr mod MP_HASH_SIZE"

definition mp_hash_init :: mp_hash where
  "mp_hash_init = (\<lambda>i. [])"

text \<open>The search loop shared by the three operations.\<close>

fun chain_find :: "mp_type \<Rightarrow> u32 \<Rightarrow> mp_entry list \<Rightarrow> mp_entry option" where
  "chain_find ty addr [] = None"
| "chain_find ty addr (cur # rest) =
     (if ty = me_type cur \<and> addr = me_addr cur then Some cur else chain_find ty addr rest)"

definition mp_hash_lookup :: "mp_type \<Rightarrow> u32 \<Rightarrow> mp_hash \<Rightarrow> mp_entry option" where
  "mp_hash_lookup ty addr h = chain_find ty addr (h (mp_hash_value addr))"

definition mp_hash_add :: "mp_type \<Rightarrow> u32 \<Rightarrow> u32 \<Rightarrow> mp_hash \<Rightarrow> mp_hash" where
  "mp_hash_add ty addr instr h =
     (let hv = mp_hash_value addr
      in case chain_find ty addr (h hv) of
           Some cur \<Rightarrow> h
         | None \<Rightarrow> h(hv := \<lparr>me_type = ty, me_addr = addr, me_instr = instr\<rparr> # h hv))"

text \<open>The deletion loop: the entry found, and the chain with it unlinked from its predecessor.\<close>

fun chain_unlink :: "mp_type \<Rightarrow> u32 \<Rightarrow> mp_entry list \<Rightarrow> mp_entry option \<times> mp_entry list" where
  "chain_unlink ty addr [] = (None, [])"
| "chain_unlink ty addr (cur # rest) =
     (if ty = me_type cur \<and> addr = me_addr cur then (Some cur, rest)
      else (let (r, rest') = chain_unlink ty addr rest in (r, cur # rest')))"

definition mp_hash_delete :: "mp_type \<Rightarrow> u32 \<Rightarrow> mp_hash \<Rightarrow> mp_entry option \<times> mp_hash" where
  "mp_hash_delete ty addr h =
     (let hv = mp_hash_value addr;
          (r, chain) = chain_unlink ty addr (h hv)
      in (r, h(hv := chain)))"

section \<open>Well-formed tables and the map they stand for\<close>

definition entry_key :: "mp_entry \<Rightarrow> mp_type \<times> u32" where
  "entry_key e = (me_type e, me_addr e)"

definition mp_wf :: "mp_hash \<Rightarrow> bool" where
  "mp_wf h \<longleftrightarrow> (\<forall>i. distinct (map entry_key (h i)) \<and> (\<forall>e \<in> set (h i). mp_hash_value (me_addr e) = i))"

definition mp_map :: "mp_hash \<Rightarrow> mp_type \<times> u32 \<rightharpoonup> u32" where
  "mp_map h = (\<lambda>(ty, addr). map_option me_instr (mp_hash_lookup ty addr h))"

lemma chain_find_None: "chain_find ty addr c = None \<longleftrightarrow> (ty, addr) \<notin> entry_key ` set c"
  by (induction c) (auto simp: entry_key_def)

lemma chain_find_Some:
  "chain_find ty addr c = Some e \<Longrightarrow> e \<in> set c \<and> me_type e = ty \<and> me_addr e = addr"
  by (induction c) (auto split: if_splits)

lemma fst_chain_unlink: "fst (chain_unlink ty addr c) = chain_find ty addr c"
  by (induction c) (auto split: prod.splits)

lemma set_chain_unlink: "set (snd (chain_unlink ty addr c)) \<subseteq> set c"
  by (induction c) (auto split: prod.splits)

lemma distinct_chain_unlink:
  "distinct (map entry_key c) \<Longrightarrow> distinct (map entry_key (snd (chain_unlink ty addr c)))"
proof (induction c)
  case (Cons e c)
  have "entry_key ` set (snd (chain_unlink ty addr c)) \<subseteq> entry_key ` set c"
    using set_chain_unlink by (rule image_mono)
  then have "entry_key e \<notin> entry_key ` set c \<Longrightarrow> entry_key e \<notin> entry_key ` set (snd (chain_unlink ty addr c))"
    by blast
  with Cons show ?case by (simp add: split_beta)
qed simp

lemma chain_find_unlink_same:
  "distinct (map entry_key c) \<Longrightarrow> chain_find ty addr (snd (chain_unlink ty addr c)) = None"
proof (induction c)
  case (Cons e c)
  then show ?case
    by (auto simp: chain_find_None entry_key_def split: prod.splits)
qed simp

lemma chain_find_unlink_other:
  "(ty', addr') \<noteq> (ty, addr) \<Longrightarrow>
   chain_find ty' addr' (snd (chain_unlink ty addr c)) = chain_find ty' addr' c"
  by (induction c) (auto split: prod.splits)

lemma mp_wf_init: "mp_wf mp_hash_init"
  by (simp add: mp_wf_def mp_hash_init_def)

lemma mp_wf_add: "mp_wf h \<Longrightarrow> mp_wf (mp_hash_add ty addr instr h)"
  by (auto simp: mp_wf_def mp_hash_add_def Let_def chain_find_None entry_key_def split: option.splits)

lemma mp_wf_delete: "mp_wf h \<Longrightarrow> mp_wf (snd (mp_hash_delete ty addr h))"
  using set_chain_unlink [of ty addr "h (mp_hash_value addr)"]
  by (auto simp: mp_wf_def mp_hash_delete_def Let_def distinct_chain_unlink split_beta)

lemma mp_map_init: "mp_map mp_hash_init = Map.empty"
  by (auto simp: mp_map_def mp_hash_lookup_def mp_hash_init_def)

lemma mp_map_add:
  "mp_map (mp_hash_add ty addr instr h) =
     (case mp_map h (ty, addr) of None \<Rightarrow> (mp_map h)((ty, addr) \<mapsto> instr) | Some i \<Rightarrow> mp_map h)"
  by (auto simp: mp_map_def mp_hash_add_def mp_hash_lookup_def Let_def fun_eq_iff split: option.splits)

lemma fst_mp_hash_delete: "fst (mp_hash_delete ty addr h) = mp_hash_lookup ty addr h"
  by (simp add: mp_hash_delete_def mp_hash_lookup_def Let_def fst_chain_unlink split_beta)

lemma mp_map_delete:
  assumes "mp_wf h"
  shows "mp_map (snd (mp_hash_delete ty addr h)) = (mp_map h)((ty, addr) := None)"
proof
  fix k :: "mp_type \<times> u32"
  obtain ty' addr' where k: "k = (ty', addr')" by (cases k)
  have "distinct (map entry_key (h (mp_hash_value addr)))"
    using assms by (simp add: mp_wf_def)
  then show "mp_map (snd (mp_hash_delete ty addr h)) k = ((mp_map h)((ty, addr) := None)) k"
    unfolding k
    by (auto simp: mp_map_def mp_hash_delete_def mp_hash_lookup_def Let_def split_beta
        chain_find_unlink_same chain_find_unlink_other)
qed

section \<open>The interface the server relies on\<close>

text \<open>
  A table of matchpoints: an insertion of a key that is already there changes nothing (the packet
  may have been repeated), a deletion hands out what the first insertion stored.
\<close>

locale mp_table =
  fixes init :: 'h
    and add :: "'k \<Rightarrow> 'v \<Rightarrow> 'h \<Rightarrow> 'h"
    and delete :: "'k \<Rightarrow> 'h \<Rightarrow> 'v option \<times> 'h"
    and lookup :: "'h \<Rightarrow> 'k \<rightharpoonup> 'v"
    and invar :: "'h \<Rightarrow> bool"
  assumes lookup_init: "lookup init = Map.empty"
    and invar_init: "invar init"
    and lookup_add: "invar h \<Longrightarrow>
      lookup (add k v h) = (case lookup h k of None \<Rightarrow> (lookup h)(k \<mapsto> v) | Some w \<Rightarrow> lookup h)"
    and invar_add: "invar h \<Longrightarrow> invar (add k v h)"
    and deleted: "invar h \<Longrightarrow> fst (delete k h) = lookup h k"
    and lookup_delete: "invar h \<Longrightarrow> lookup (snd (delete k h)) = (lookup h)(k := None)"
    and invar_delete: "invar h \<Longrightarrow> invar (snd (delete k h))"
begin

fun add_all :: "'k \<Rightarrow> 'v list \<Rightarrow> 'h \<Rightarrow> 'h" where
  "add_all k [] h = h"
| "add_all k (v # vs) h = add_all k vs (add k v h)"

lemma invar_add_all: "invar h \<Longrightarrow> invar (add_all k vs h)"
  by (induction vs arbitrary: h) (auto intro: invar_add)

lemma lookup_add_all_present: "invar h \<Longrightarrow> lookup h k = Some w \<Longrightarrow> lookup (add_all k vs h) = lookup h"
  by (induction vs arbitrary: h) (auto simp: lookup_add invar_add)

lemma lookup_add_all_absent:
  "invar h \<Longrightarrow> lookup h k = None \<Longrightarrow> lookup (add_all k (v # vs) h) = (lookup h)(k \<mapsto> v)"
  using lookup_add_all_present [of "add k v h" k v vs] by (simp add: lookup_add invar_add)

lemma repeated_add_delete:
  assumes "invar h" "lookup h k = None"
  shows "fst (delete k (add_all k (v # vs) h)) = Some v"
    and "lookup (snd (delete k (add_all k (v # vs) h))) = lookup h"
  using assms invar_add_all [OF assms(1), of k "v # vs"] lookup_add_all_absent [OF assms, of v vs]
  by (auto simp: deleted lookup_delete fun_upd_idem)

lemma delete_delete: "invar h \<Longrightarrow> fst (delete k (snd (delete k h))) = None"
  by (simp add: deleted invar_delete lookup_delete)

end

text \<open>The operations of \<open>gdb.c\<close> with the key paired and the stored instruction as the value.\<close>

definition mp_insert :: "mp_type \<times> u32 \<Rightarrow> u32 \<Rightarrow> mp_hash \<Rightarrow> mp_hash" where
  "mp_insert k instr h = mp_hash_add (fst k) (snd k) instr h"

definition mp_remove :: "mp_type \<times> u32 \<Rightarrow> mp_hash \<Rightarrow> u32 option \<times> mp_hash" where
  "mp_remove k h = map_prod (map_option me_instr) id (mp_hash_delete (fst k) (snd k) h)"

interpretation mph: mp_table mp_hash_init mp_insert mp_remove mp_map mp_wf
proof unfold_locales
  show "mp_map mp_hash_init = Map.empty" by (rule mp_map_init)
  show "mp_wf mp_hash_init" by (rule mp_wf_init)
next
  fix h :: mp_hash and k :: "mp_type \<times> u32" and v :: u32
  assume wf: "mp_wf h"
  show "mp_map (mp_insert k v h) =
      (case mp_map h k of None \<Rightarrow> (mp_map h)(k \<mapsto> v) | Some w \<Rightarrow> mp_map h)"
    by (cases k) (simp add: mp_insert_def mp_map_add split: option.split)
  show "mp_wf (mp_insert k v h)"
    using wf by (simp add: mp_insert_def mp_wf_add)
  show "fst (mp_remove k h) = mp_map h k"
    by (simp add: mp_remove_def fst_mp_hash_delete mp_map_def split_beta)
  show "mp_map (snd (mp_remove k h)) = (mp_map h)(k := None)"
    using wf by (simp add: mp_remove_def mp_map_delete)
  show "mp_wf (snd (mp_remove k h))"
    using wf by (simp add: mp_remove_def mp_wf_delete)
qed

section \<open>Properties\<close>

text \<open>
  C26. On every well-formed table the three hash operations implement the map from (type, address) to
  the stored instruction: an insertion of a present key changes nothing, a deletion returns the
  entry of the key and removes exactly it, and both keep the table well-formed.
\<close>

theorem mp_hash_refines_map:
  assumes "mp_wf h"
  shows "mp_wf (mp_hash_add ty addr instr h) \<and> mp_wf (snd (mp_hash_delete ty addr h))
     \<and> mp_map (mp_hash_add ty addr instr h) =
         (mp_map h)((ty, addr) \<mapsto> (case mp_map h (ty, addr) of None \<Rightarrow> instr | Some i \<Rightarrow> i))
     \<and> map_option me_instr (fst (mp_hash_delete ty addr h)) = mp_map h (ty, addr)
     \<and> mp_map (snd (mp_hash_delete ty addr h)) = (mp_map h)((ty, addr) := None)"
  using mph.invar_add [OF assms, of "(ty, addr)" instr] mph.lookup_add [OF assms, of "(ty, addr)" instr]
    mph.invar_delete [OF assms, of "(ty, addr)"] mph.deleted [OF assms, of "(ty, addr)"]
    mph.lookup_delete [OF assms, of "(ty, addr)"]
  by (auto simp: mp_insert_def mp_remove_def split: option.splits)

theorem mp_hash_refines_map_witness:
  "mp_map (snd (mp_hash_delete BP_MEMORY 0x100 mp_hash_init)) = (mp_map mp_hash_init)((BP_MEMORY, 0x100) := None)"
  using mp_hash_refines_map [OF mp_wf_init, of BP_MEMORY "0x100" 0] by blast

text \<open>
  A memory breakpoint that GDB sets several times, with whatever instruction is read back each
  time, is deleted with the instruction of the first insertion, and the table is then as before.
\<close>

lemma mp_hash_repeated_insertion:
  assumes "mp_wf h" "mp_map h (ty, addr) = None"
  shows "map_option me_instr (fst (mp_hash_delete ty addr (foldl (\<lambda>t i. mp_hash_add ty addr i t) h (v # vs)))) = Some v
     \<and> mp_map (snd (mp_hash_delete ty addr (foldl (\<lambda>t i. mp_hash_add ty addr i t) h (v # vs)))) = mp_map h"
proof -
  have "mph.add_all (ty, addr) vs t = foldl (\<lambda>t i. mp_hash_add ty addr i t) t vs" for vs t
    by (induction vs arbitrary: t) (simp_all add: mp_insert_def)
  with mph.repeated_add_delete [OF assms, of v vs] show ?thesis
    by (simp add: mp_remove_def mp_insert_def)
qed

lemma mp_hash_repeated_insertion_witness:
  "map_option me_instr (fst (mp_hash_delete BP_MEMORY 0x100
     (foldl (\<lambda>t i. mp_hash_add BP_MEMORY 0x100 i t) mp_hash_init [0x15000000, 0x21000001]))) = Some 0x15000000"
  using mp_hash_repeated_insertion [OF mp_wf_init, of BP_MEMORY "0x100" "0x15000000" "[0x21000001]"]
  by (simp add: mp_map_init)

end
