(* ===== verification/GdbState.thy ===== *)
theory GdbState
  imports RspSock CLib MpHash DebugIf
begin

text \<open>
  The state of the GDB server of \<open>gdb.c\<close> and the operations every handler uses: access to the selected
  chain (\<open>gdb_read_reg\<close> to \<open>gdb_set_chain\<close>), the cache of the NPC (\<open>get_npc\<close>, \<open>set_npc\<close>), the cache of the
  debug registers (\<open>get_debug_registers\<close>, \<open>put_debug_registers\<close>), stalling, and the signals
  (\<open>rsp_exception\<close>, \<open>rsp_check_for_exception\<close>).  Every operation takes the record \<open>D\<close> of debug-unit
  functions as its first argument.  \<open>gdb_ensure_or1k_stalled\<close> is empty in the source, because
  \<open>ENABLE_OR1K_STALL_CHECK\<close> is not defined, and the calls of it are left out; likewise the \<open>printf\<close>s,
  which the \<open>DEBUG\<close> macros switch off or which go to the terminal only.
\<close>

section \<open>Types and constants\<close>

datatype target_signal =
    TARGET_SIGNAL_NONE | TARGET_SIGNAL_INT | TARGET_SIGNAL_ILL | TARGET_SIGNAL_TRAP | TARGET_SIGNAL_FPE
  | TARGET_SIGNAL_BUS | TARGET_SIGNAL_SEGV | TARGET_SIGNAL_ALRM | TARGET_SIGNAL_USR2 | TARGET_SIGNAL_PWR

fun sig_num :: "target_signal \<Rightarrow> nat" where
  "sig_num TARGET_SIGNAL_NONE = 0"
| "sig_num TARGET_SIGNAL_INT = 2"
| "sig_num TARGET_SIGNAL_ILL = 4"
| "sig_num TARGET_SIGNAL_TRAP = 5"
| "sig_num TARGET_SIGNAL_FPE = 8"
| "sig_num TARGET_SIGNAL_BUS = 10"
| "sig_num TARGET_SIGNAL_SEGV = 11"
| "sig_num TARGET_SIGNAL_ALRM = 14"
| "sig_num TARGET_SIGNAL_USR2 = 31"
| "sig_num TARGET_SIGNAL_PWR = 32"

datatype stallStates = STALLED | UNSTALLED | UNKNOWN

datatype jtag_chains = SC_GLOBAL | SC_RISC_DEBUG | SC_RISC_TEST | SC_TRACE | SC_REGISTER | SC_WISHBONE | SC_BLOCK

abbreviation (input) MAX_GPRS :: nat where "MAX_GPRS \<equiv> 32"
abbreviation (input) PPC_REGNUM :: nat where "PPC_REGNUM \<equiv> 32"
abbreviation (input) NPC_REGNUM :: nat where "NPC_REGNUM \<equiv> 33"
abbreviation (input) SR_REGNUM :: nat where "SR_REGNUM \<equiv> 34"
abbreviation (input) NUM_REGS :: nat where "NUM_REGS \<equiv> 35"
abbreviation (input) OR1K_MAX_MATCHPOINTS :: nat where "OR1K_MAX_MATCHPOINTS \<equiv> 8"

abbreviation (input) ERR_NONE :: int where "ERR_NONE \<equiv> 0"
abbreviation (input) ERR_CRC :: int where "ERR_CRC \<equiv> - 1"
abbreviation (input) JTAG_PROXY_INVALID_CHAIN :: int where "JTAG_PROXY_INVALID_CHAIN \<equiv> - 8"

text \<open>The first register of the debug group, \<open>OR1K_SPG_DEBUG << OR1K_SPG_SIZE_BITS\<close>, and the trap.\<close>

abbreviation (input) DEBUG_GROUP :: u32 where "DEBUG_GROUP \<equiv> 0x3000"
abbreviation (input) OR1K_TRAP_INSTR :: u32 where "OR1K_TRAP_INSTR \<equiv> 0x21000001"

section \<open>The cache of the debug registers\<close>

text \<open>
  A \<open>dcr\<close> word packs the bit-fields \<open>dp\<close> (bit 0), \<open>cc\<close> (bits 1 to 3), \<open>sc\<close> (bit 4), \<open>ct\<close> (bits 5 to 7) from
  the least significant bit, as the compilers of little-endian hosts do.
\<close>

record dbg_cache =
  dvr :: "u32 list"
  dcr :: "u32 list"
  dmr1 :: u32
  dmr2 :: u32
  dcrw0 :: u32
  dcrw1 :: u32
  dsr :: u32
  drr :: u32

definition dcr_dp :: "u32 \<Rightarrow> u32" where
  "dcr_dp w = w AND 1"

definition dcr_cc :: "u32 \<Rightarrow> u32" where
  "dcr_cc w = drop_bit 1 w AND 7"

definition set_cc :: "u32 \<Rightarrow> u32 \<Rightarrow> u32" where
  "set_cc cc w = (w AND NOT (push_bit 1 7)) OR push_bit 1 (cc AND 7)"

definition set_sc :: "u32 \<Rightarrow> u32 \<Rightarrow> u32" where
  "set_sc sc w = (w AND NOT (push_bit 4 1)) OR push_bit 4 (sc AND 1)"

definition set_ct :: "u32 \<Rightarrow> u32 \<Rightarrow> u32" where
  "set_ct ct w = (w AND NOT (push_bit 5 7)) OR push_bit 5 (ct AND 7)"

abbreviation (input) OR1K_CC_MASKED :: u32 where "OR1K_CC_MASKED \<equiv> 0"
abbreviation (input) OR1K_CC_EQ :: u32 where "OR1K_CC_EQ \<equiv> 1"
abbreviation (input) OR1K_CT_FETCH :: u32 where "OR1K_CT_FETCH \<equiv> 1"

text \<open>The structure as the array of 22 words that the block transfers and \<open>rsp_command\<close> use.\<close>

definition cache_words :: "dbg_cache \<Rightarrow> u32 list" where
  "cache_words c = dvr c @ dcr c @ [dmr1 c, dmr2 c, dcrw0 c, dcrw1 c, dsr c, drr c]"

definition cache_of_words :: "u32 list \<Rightarrow> dbg_cache" where
  "cache_of_words ws =
     \<lparr>dvr = take 8 ws, dcr = take 8 (drop 8 ws), dmr1 = ws ! 16, dmr2 = ws ! 17, dcrw0 = ws ! 18,
      dcrw1 = ws ! 19, dsr = ws ! 20, drr = ws ! 21\<rparr>"

definition wf_cache :: "dbg_cache \<Rightarrow> bool" where
  "wf_cache c \<longleftrightarrow> length (dvr c) = OR1K_MAX_MATCHPOINTS \<and> length (dcr c) = OR1K_MAX_MATCHPOINTS"

definition zero_cache :: dbg_cache where
  "zero_cache = cache_of_words (replicate 22 0)"

lemma length_cache_words: "wf_cache c \<Longrightarrow> length (cache_words c) = 22"
  by (simp add: wf_cache_def cache_words_def)

lemma wf_cache_of_words: "length ws = 22 \<Longrightarrow> wf_cache (cache_of_words ws)"
  by (simp add: wf_cache_def cache_of_words_def)

lemma cache_of_cache_words [simp]: "wf_cache c \<Longrightarrow> cache_of_words (cache_words c) = c"
  by (cases c) (simp add: wf_cache_def cache_of_words_def cache_words_def nth_append)

lemma cache_words_of_words:
  assumes "length ws = 22"
  shows "cache_words (cache_of_words ws) = ws"
proof -
  have "drop 16 ws = [ws ! 16, ws ! 17, ws ! 18, ws ! 19, ws ! 20, ws ! 21]"
    using assms by (simp add: list_eq_iff_nth_eq nth_Cons' less_Suc_eq numeral_eq_Suc)
  moreover have "take 8 (drop 8 ws) @ drop 16 ws = drop 8 ws"
    by (metis append_take_drop_id drop_drop numeral_Bit0)
  ultimately show ?thesis
    by (simp add: cache_words_def cache_of_words_def)
qed

section \<open>The server\<close>

text \<open>
  \<open>garbage\<close> stands for the contents of uninitialised locals, \<open>fault\<close> records undefined behaviour
  (an access outside an array); \<open>tgt\<close> is the target behind the debug unit.
\<close>

record 't gdb =
  client_waiting :: bool
  sigval :: target_signal
  start_addr :: u32
  mp_table_of :: mp_hash
  stallState :: stallStates
  npcIsCached :: bool
  npcCachedValue :: u32
  dbg_regs_cache :: dbg_cache
  dbg_regs_cache_dirty :: int
  gpr_regs :: "u32 list"
  err_of :: int
  gdb_chain :: "jtag_chains option"
  client :: sock
  p_buf :: rsp_buf
  garbage :: u32
  fault :: bool
  exited :: bool
  tgt :: 't

definition put_str :: "string \<Rightarrow> 't gdb \<Rightarrow> 't gdb" where
  "put_str str s = s\<lparr>client := put_str_packet (bytes str) (client s)\<rparr>"

definition put_pkt :: "byte list \<Rightarrow> 't gdb \<Rightarrow> 't gdb" where
  "put_pkt d s = s\<lparr>client := put_packet d (client s)\<rparr>"

definition close_client :: "'t gdb \<Rightarrow> 't gdb" where
  "close_client s = s\<lparr>client := rsp_client_close (client s)\<rparr>"

section \<open>Access to the selected chain\<close>

definition gdb_set_chain :: "jtag_chains \<Rightarrow> 't gdb \<Rightarrow> int \<times> 't gdb" where
  "gdb_set_chain ch s =
     (case ch of
        SC_RISC_DEBUG \<Rightarrow> (ERR_NONE, s\<lparr>gdb_chain := Some ch\<rparr>)
      | SC_REGISTER \<Rightarrow> (ERR_NONE, s\<lparr>gdb_chain := Some ch\<rparr>)
      | SC_TRACE \<Rightarrow> (ERR_NONE, s\<lparr>gdb_chain := Some ch\<rparr>)
      | SC_WISHBONE \<Rightarrow> (ERR_NONE, s\<lparr>gdb_chain := Some ch\<rparr>)
      | _ \<Rightarrow> (JTAG_PROXY_INVALID_CHAIN, s))"

definition crc_err :: "int \<Rightarrow> int" where
  "crc_err rv = (if rv \<noteq> 0 then ERR_CRC else ERR_NONE)"

text \<open>The reads take what their pointer held before and return what it holds after the call.\<close>

definition gdb_read_byte :: "'t dbg_ops \<Rightarrow> u32 \<Rightarrow> byte \<Rightarrow> 't gdb \<Rightarrow> int \<times> byte \<times> 't gdb" where
  "gdb_read_byte D adr data s =
     (case gdb_chain s of
        Some SC_RISC_DEBUG \<Rightarrow> (0, 0, s)
      | Some SC_REGISTER \<Rightarrow> (0, 0, s)
      | Some SC_WISHBONE \<Rightarrow>
          (let (rv, b, t) = op_wb_read8 D adr (tgt s) in (crc_err rv, b, s\<lparr>tgt := t\<rparr>))
      | Some SC_TRACE \<Rightarrow> (0, 0, s)
      | _ \<Rightarrow> (JTAG_PROXY_INVALID_CHAIN, data, s))"

definition gdb_read_reg :: "'t dbg_ops \<Rightarrow> u32 \<Rightarrow> u32 \<Rightarrow> 't gdb \<Rightarrow> int \<times> u32 \<times> 't gdb" where
  "gdb_read_reg D adr data s =
     (case gdb_chain s of
        Some SC_RISC_DEBUG \<Rightarrow>
          (let (rv, bs, t) = op_cpu0_read D adr 4 (tgt s) in (crc_err rv, le_word bs, s\<lparr>tgt := t\<rparr>))
      | Some SC_REGISTER \<Rightarrow>
          (let (rv, b, t) = op_cpu0_read_ctrl D adr (tgt s)
           in (crc_err rv, (data AND NOT 0xff) OR ucast b, s\<lparr>tgt := t\<rparr>))
      | Some SC_WISHBONE \<Rightarrow>
          (let (rv, w, t) = op_wb_read32 D adr (tgt s) in (crc_err rv, w, s\<lparr>tgt := t\<rparr>))
      | Some SC_TRACE \<Rightarrow> (0, 0, s)
      | _ \<Rightarrow> (JTAG_PROXY_INVALID_CHAIN, data, s))"

definition gdb_write_byte :: "'t dbg_ops \<Rightarrow> u32 \<Rightarrow> byte \<Rightarrow> 't gdb \<Rightarrow> int \<times> 't gdb" where
  "gdb_write_byte D adr data s =
     (case gdb_chain s of
        Some SC_WISHBONE \<Rightarrow> (let (rv, t) = op_wb_write8 D adr data (tgt s) in (crc_err rv, s\<lparr>tgt := t\<rparr>))
      | _ \<Rightarrow> (JTAG_PROXY_INVALID_CHAIN, s))"

definition gdb_write_short :: "'t dbg_ops \<Rightarrow> u32 \<Rightarrow> u16 \<Rightarrow> 't gdb \<Rightarrow> int \<times> 't gdb" where
  "gdb_write_short D adr data s =
     (case gdb_chain s of
        Some SC_WISHBONE \<Rightarrow> (let (rv, t) = op_wb_write16 D adr data (tgt s) in (crc_err rv, s\<lparr>tgt := t\<rparr>))
      | _ \<Rightarrow> (JTAG_PROXY_INVALID_CHAIN, s))"

text \<open>\<open>JTAG_RISCOP\<close>, register 4 of the RISC chain, is remapped to register 0.\<close>

definition gdb_write_reg :: "'t dbg_ops \<Rightarrow> u32 \<Rightarrow> u32 \<Rightarrow> 't gdb \<Rightarrow> int \<times> 't gdb" where
  "gdb_write_reg D adr data s =
     (case gdb_chain s of
        Some SC_RISC_DEBUG \<Rightarrow>
          (let (rv, t) = op_cpu0_write D (if adr = 4 then 0 else adr) (le_bytes data) (tgt s)
           in (crc_err rv, s\<lparr>tgt := t\<rparr>))
      | Some SC_REGISTER \<Rightarrow>
          (let (rv, t) = op_cpu0_write_ctrl D adr (ucast data) (tgt s) in (crc_err rv, s\<lparr>tgt := t\<rparr>))
      | Some SC_WISHBONE \<Rightarrow>
          (let (rv, t) = op_wb_write32 D adr data (tgt s) in (crc_err rv, s\<lparr>tgt := t\<rparr>))
      | Some SC_TRACE \<Rightarrow> (0, s)
      | _ \<Rightarrow> (JTAG_PROXY_INVALID_CHAIN, s))"

definition gdb_read_block :: "'t dbg_ops \<Rightarrow> u32 \<Rightarrow> nat \<Rightarrow> byte list \<Rightarrow> 't gdb \<Rightarrow> int \<times> byte list \<times> 't gdb" where
  "gdb_read_block D adr len data s =
     (case gdb_chain s of
        Some SC_RISC_DEBUG \<Rightarrow>
          (let (rv, bs, t) = op_cpu0_read D adr len (tgt s) in (crc_err rv, bs, s\<lparr>tgt := t\<rparr>))
      | Some SC_WISHBONE \<Rightarrow>
          (let (rv, bs, t) = op_wb_read_block32 D adr len (tgt s) in (crc_err rv, bs, s\<lparr>tgt := t\<rparr>))
      | _ \<Rightarrow> (JTAG_PROXY_INVALID_CHAIN, data, s))"

definition gdb_write_block :: "'t dbg_ops \<Rightarrow> u32 \<Rightarrow> byte list \<Rightarrow> 't gdb \<Rightarrow> int \<times> 't gdb" where
  "gdb_write_block D adr data s =
     (case gdb_chain s of
        Some SC_RISC_DEBUG \<Rightarrow> (let (rv, t) = op_cpu0_write D adr data (tgt s) in (crc_err rv, s\<lparr>tgt := t\<rparr>))
      | Some SC_WISHBONE \<Rightarrow> (let (rv, t) = op_wb_write_block32 D adr data (tgt s) in (crc_err rv, s\<lparr>tgt := t\<rparr>))
      | _ \<Rightarrow> (JTAG_PROXY_INVALID_CHAIN, s))"

section \<open>The next program counter\<close>

text \<open>The tests \<open>err > 0\<close> of the source are kept as they are.\<close>

definition get_npc :: "'t dbg_ops \<Rightarrow> 't gdb \<Rightarrow> u32 \<times> 't gdb" where
  "get_npc D s =
     (if stallState s = STALLED
      then (if \<not> npcIsCached s
            then (let (e, s1) = gdb_set_chain SC_RISC_DEBUG s;
                      (e2, v, s2) = gdb_read_reg D NPC_CPU_REG_ADD (npcCachedValue s1) s1;
                      s3 = s2\<lparr>err_of := e2, npcCachedValue := v\<rparr>
                  in if e2 > 0 then (0, close_client s3)
                     else (v, s3\<lparr>npcIsCached := True\<rparr>))
            else (npcCachedValue s, s))
      else (let (e, v, s1) = gdb_read_reg D NPC_CPU_REG_ADD (garbage s) s;
                s2 = s1\<lparr>err_of := e\<rparr>
            in if e > 0 then (0, close_client s2) else (v, s2)))"

definition set_npc :: "'t dbg_ops \<Rightarrow> u32 \<Rightarrow> 't gdb \<Rightarrow> 't gdb" where
  "set_npc D addr s =
     (let (_, s1) = gdb_set_chain SC_RISC_DEBUG s;
          (npc, s2) = get_npc D s1
      in if addr \<noteq> npc
         then (let (_, s3) = gdb_write_reg D NPC_CPU_REG_ADD addr s2
               in if STALLED = stallState s3 then s3\<lparr>npcCachedValue := addr, npcIsCached := True\<rparr>
                  else s3\<lparr>npcIsCached := False\<rparr>)
         else s2)"

section \<open>The debug registers\<close>

definition get_debug_registers :: "'t dbg_ops \<Rightarrow> 't gdb \<Rightarrow> 't gdb" where
  "get_debug_registers D s =
     (if dbg_regs_cache_dirty s \<noteq> - 1 then s
      else (let (e, s1) = gdb_set_chain SC_RISC_DEBUG s;
                (_, bs, s2) = gdb_read_block D DEBUG_GROUP 88 (le_of_words (cache_words (dbg_regs_cache s1)))
                                (s1\<lparr>err_of := e\<rparr>)
            in s2\<lparr>dbg_regs_cache := cache_of_words (words_of_le bs), dbg_regs_cache_dirty := 0\<rparr>))"

definition put_debug_registers :: "'t dbg_ops \<Rightarrow> 't gdb \<Rightarrow> 't gdb" where
  "put_debug_registers D s =
     (let (e, s1) = gdb_set_chain SC_RISC_DEBUG s;
          (_, s2) = gdb_write_block D DEBUG_GROUP (le_of_words (cache_words (dbg_regs_cache s1))) (s1\<lparr>err_of := e\<rparr>)
      in s2)"

section \<open>Stalling and signals\<close>

definition set_stall_state :: "'t dbg_ops \<Rightarrow> bool \<Rightarrow> 't gdb \<Rightarrow> 't gdb" where
  "set_stall_state D state s =
     (if \<not> state
      then (let (e, t) = op_cpu0_write_ctrl D 0 0 (tgt s)
            in s\<lparr>tgt := t, err_of := e, stallState := UNSTALLED, npcIsCached := False, sigval := TARGET_SIGNAL_NONE\<rparr>)
      else (let (e, t) = op_cpu0_write_ctrl D 0 1 (tgt s)
            in s\<lparr>tgt := t, err_of := e, stallState := STALLED\<rparr>))"

definition reset_or1k :: "'t dbg_ops \<Rightarrow> 't gdb \<Rightarrow> 't gdb" where
  "reset_or1k D s = (let (e, t) = op_cpu0_write_ctrl D 0 2 (tgt s) in s\<lparr>tgt := t, err_of := e\<rparr>)"

definition setup_or32 :: "'t dbg_ops \<Rightarrow> 't gdb \<Rightarrow> 't gdb" where
  "setup_or32 D s =
     (let (e, s1) = gdb_set_chain SC_REGISTER s;
          (_, _, s2) = gdb_read_reg D 4 (garbage s1) (s1\<lparr>err_of := e\<rparr>);
          (_, s3) = gdb_write_reg D 4 1 s2;
          (_, s4) = gdb_write_reg D 0 0x01000001 s3
      in s4)"

text \<open>The switch of \<open>rsp_exception\<close>; \<open>None\<close> is the unknown exception that is ignored.\<close>

definition exception_signal :: "u32 \<Rightarrow> target_signal option" where
  "exception_signal except =
     (if except = 0x0100 then Some TARGET_SIGNAL_PWR
      else if except = 0x0200 then Some TARGET_SIGNAL_BUS
      else if except = 0x0300 then Some TARGET_SIGNAL_SEGV
      else if except = 0x0400 then Some TARGET_SIGNAL_SEGV
      else if except = 0x0500 then Some TARGET_SIGNAL_ALRM
      else if except = 0x0600 then Some TARGET_SIGNAL_BUS
      else if except = 0x0700 then Some TARGET_SIGNAL_ILL
      else if except = 0x0800 then Some TARGET_SIGNAL_INT
      else if except = 0x0900 then Some TARGET_SIGNAL_SEGV
      else if except = 0x0a00 then Some TARGET_SIGNAL_SEGV
      else if except = 0x0b00 then Some TARGET_SIGNAL_FPE
      else if except = 0x0c00 then Some TARGET_SIGNAL_USR2
      else if except = 0x0d00 then Some TARGET_SIGNAL_FPE
      else if except = 0x0e00 then Some TARGET_SIGNAL_TRAP
      else None)"

definition rsp_exception :: "u32 \<Rightarrow> 't gdb \<Rightarrow> 't gdb" where
  "rsp_exception except s =
     (case exception_signal except of None \<Rightarrow> s | Some sg \<Rightarrow> s\<lparr>sigval := sg\<rparr>)"

definition check_for_exception_vector :: "u32 \<Rightarrow> 't gdb \<Rightarrow> int \<times> 't gdb" where
  "check_for_exception_vector ppc s =
     (if ppc = 0x0200 \<or> ppc = 0x0600 \<or> ppc = 0x0700 \<or> ppc = 0x0e00 then (1, rsp_exception ppc s) else (0, s))"

text \<open>The switch on the debug reason register.\<close>

definition drr_signal :: "u32 \<Rightarrow> target_signal" where
  "drr_signal r =
     (if r = 0x0001 then TARGET_SIGNAL_PWR
      else if r = 0x0002 then TARGET_SIGNAL_BUS
      else if r = 0x0004 then TARGET_SIGNAL_SEGV
      else if r = 0x0008 then TARGET_SIGNAL_SEGV
      else if r = 0x0010 then TARGET_SIGNAL_ALRM
      else if r = 0x0020 then TARGET_SIGNAL_BUS
      else if r = 0x0040 then TARGET_SIGNAL_ILL
      else if r = 0x0080 then TARGET_SIGNAL_INT
      else if r = 0x0100 then TARGET_SIGNAL_SEGV
      else if r = 0x0200 then TARGET_SIGNAL_SEGV
      else if r = 0x0400 then TARGET_SIGNAL_FPE
      else if r = 0x0800 then TARGET_SIGNAL_USR2
      else if r = 0x1000 then TARGET_SIGNAL_FPE
      else TARGET_SIGNAL_TRAP)"

definition rsp_check_for_exception :: "'t dbg_ops \<Rightarrow> 't gdb \<Rightarrow> 't gdb" where
  "rsp_check_for_exception D s =
     (let (e, stalled, t) = op_cpu0_read_ctrl D 0 (tgt s);
          s1 = s\<lparr>err_of := e, tgt := t\<rparr>
      in if stalled AND 1 = 0 then s1
         else (let s2 = s1\<lparr>stallState := STALLED, npcIsCached := False\<rparr>;
                   (_, s3) = gdb_set_chain SC_RISC_DEBUG s2;
                   s4 = get_debug_registers D s3
               in s4\<lparr>sigval := drr_signal (drr (dbg_regs_cache s4))\<rparr>))"

section \<open>Start of the server\<close>

text \<open>\<open>rsp_init\<close> on the state the program starts in; the globals it does not set are arguments.\<close>

definition rsp_init :: "'t dbg_ops \<Rightarrow> 't gdb \<Rightarrow> 't gdb" where
  "rsp_init D s =
     (let s1 = s\<lparr>client_waiting := False, client := (client s)\<lparr>client_fd := - 1\<rparr>, sigval := TARGET_SIGNAL_NONE,
                 start_addr := 0x100, dbg_regs_cache := zero_cache, mp_table_of := mp_hash_init\<rparr>;
          s2 = rsp_exception 0x0e00 s1;
          s3 = s2\<lparr>stallState := STALLED, npcIsCached := False\<rparr>
      in snd (get_npc D s3))"

section \<open>The operations on a target that keeps its contract\<close>

text \<open>
  The server is in control: the processor is stalled and the server knows it.  The cache of the NPC is
  coherent when it holds the address at which execution resumes, or is empty while a read would give it.
\<close>

definition npc_coherent :: "('t \<Rightarrow> tview) \<Rightarrow> 't gdb \<Rightarrow> bool" where
  "npc_coherent view s \<longleftrightarrow>
     (if npcIsCached s then npcCachedValue s = tv_npc (view (tgt s)) else \<not> tv_flushed (view (tgt s)))"

definition in_control :: "('t \<Rightarrow> tview) \<Rightarrow> ('t \<Rightarrow> bool) \<Rightarrow> 't gdb \<Rightarrow> bool" where
  "in_control view ok s \<longleftrightarrow> ok (tgt s) \<and> tv_stalled (view (tgt s)) \<and> stallState s = STALLED"

lemma gdb_set_chain_simps [simp]:
  "gdb_set_chain SC_RISC_DEBUG s = (0, s\<lparr>gdb_chain := Some SC_RISC_DEBUG\<rparr>)"
  "gdb_set_chain SC_WISHBONE s = (0, s\<lparr>gdb_chain := Some SC_WISHBONE\<rparr>)"
  "gdb_set_chain SC_REGISTER s = (0, s\<lparr>gdb_chain := Some SC_REGISTER\<rparr>)"
  by (simp_all add: gdb_set_chain_def)

lemma crc_err_0 [simp]: "crc_err 0 = 0"
  by (simp add: crc_err_def)

lemma crc_err_not_positive: "\<not> 0 < crc_err rv"
  by (simp add: crc_err_def)

text \<open>What the operations on the target leave alone.\<close>

definition moved :: "'t gdb \<Rightarrow> 't gdb \<Rightarrow> bool" where
  "moved s s' \<longleftrightarrow>
     client_waiting s' = client_waiting s \<and> sigval s' = sigval s \<and> start_addr s' = start_addr s
     \<and> mp_table_of s' = mp_table_of s \<and> stallState s' = stallState s \<and> dbg_regs_cache s' = dbg_regs_cache s
     \<and> dbg_regs_cache_dirty s' = dbg_regs_cache_dirty s \<and> gpr_regs s' = gpr_regs s \<and> client s' = client s
     \<and> p_buf s' = p_buf s \<and> garbage s' = garbage s \<and> fault s' = fault s \<and> exited s' = exited s"

lemma moved_refl [simp]: "moved s s"
  by (simp add: moved_def)

lemma moved_trans: "moved s s1 \<Longrightarrow> moved s1 s2 \<Longrightarrow> moved s s2"
  by (simp add: moved_def)

context dbg_target
begin

lemma read_reg:
  assumes "ok (tgt s)" "tv_stalled (view (tgt s))" "gdb_chain s = Some SC_RISC_DEBUG"
  obtains t' where "gdb_read_reg D r old s = (0, reg_read (view (tgt s)) r, s\<lparr>tgt := t'\<rparr>)" "view t' = view (tgt s)" "ok t'"
proof -
  obtain t' where t: "op_cpu0_read D r 4 (tgt s) = (0, le_bytes (reg_read (view (tgt s)) r), t')" "view t' = view (tgt s)" "ok t'"
    using assms(1,2) by (rule cpu0_read_word)
  with assms(3) have "gdb_read_reg D r old s = (0, reg_read (view (tgt s)) r, s\<lparr>tgt := t'\<rparr>)"
    by (simp add: gdb_read_reg_def del: le_word.simps)
  from that [OF this] t show ?thesis by simp
qed

lemma write_reg:
  assumes "ok (tgt s)" "tv_stalled (view (tgt s))" "gdb_chain s = Some SC_RISC_DEBUG" "r \<noteq> 4"
  obtains t' where "gdb_write_reg D r w s = (0, s\<lparr>tgt := t'\<rparr>)" "view t' = reg_write r w (view (tgt s))" "ok t'"
proof -
  obtain t' where t: "op_cpu0_write D r (le_bytes w) (tgt s) = (0, t')" "view t' = reg_write r w (view (tgt s))" "ok t'"
    using assms(1,2) by (rule cpu0_write_word)
  with assms(3,4) have "gdb_write_reg D r w s = (0, s\<lparr>tgt := t'\<rparr>)"
    by (simp add: gdb_write_reg_def)
  from that [OF this] t show ?thesis by simp
qed

lemma write_regs:
  assumes "ok (tgt s)" "tv_stalled (view (tgt s))" "gdb_chain s = Some SC_RISC_DEBUG" "block_ok (4 * length ws)"
  obtains t' where "gdb_write_block D r (le_of_words ws) s = (0, s\<lparr>tgt := t'\<rparr>)"
    "view t' = regs_write r (shifted_words ws) (view (tgt s))" "ok t'"
  using cpu0_write [OF assms(1,2), of "le_of_words ws" r] assms(3,4)
  by (auto simp: gdb_write_block_def)

lemma read_regs:
  assumes "ok (tgt s)" "tv_stalled (view (tgt s))" "gdb_chain s = Some SC_RISC_DEBUG" "block_ok n"
  obtains t' where "gdb_read_block D r n old s = (0, le_of_words (regs_read (view (tgt s)) r (n div 4)), s\<lparr>tgt := t'\<rparr>)"
    "view t' = view (tgt s)" "ok t'"
  using cpu0_read [OF assms(1,2,4), of r] assms(3)
  by (auto simp: gdb_read_block_def)

lemma read_mem_block:
  assumes "ok (tgt s)" "tv_stalled (view (tgt s))" "gdb_chain s = Some SC_WISHBONE" "a AND 3 = 0" "block_ok n"
  obtains t' where "gdb_read_block D a n old s = (0, swap4 (mem_range (tv_mem (view (tgt s))) a n), s\<lparr>tgt := t'\<rparr>)"
    "view t' = view (tgt s)" "ok t'"
  using wb_read_block32 [OF assms(1,2,4,5)] assms(3)
  by (auto simp: gdb_read_block_def)

lemma write_mem_block:
  assumes "ok (tgt s)" "tv_stalled (view (tgt s))" "gdb_chain s = Some SC_WISHBONE" "a AND 3 = 0" "block_ok (length bs)"
  obtains t' where "gdb_write_block D a bs s = (0, s\<lparr>tgt := t'\<rparr>)"
    "view t' = (view (tgt s))\<lparr>tv_mem := mem_store a (swap4 bs) (tv_mem (view (tgt s)))\<rparr>" "ok t'"
  using wb_write_block32 [OF assms(1,2,4,5)] assms(3)
  by (auto simp: gdb_write_block_def)

text \<open>Reading the NPC gives the resume address and leaves it cached; the target is as before.\<close>

lemma get_npc_effect:
  assumes "in_control view ok s" "npc_coherent view s"
  obtains s' where "get_npc D s = (tv_npc (view (tgt s)), s')" "moved s s'" "view (tgt s') = view (tgt s)" "ok (tgt s')"
    "npcIsCached s'" "npcCachedValue s' = tv_npc (view (tgt s))"
    "gdb_chain s = Some SC_RISC_DEBUG \<Longrightarrow> gdb_chain s' = Some SC_RISC_DEBUG"
proof (cases "npcIsCached s")
  case True
  then have "get_npc D s = (tv_npc (view (tgt s)), s)"
    using assms by (simp add: get_npc_def in_control_def npc_coherent_def)
  with True assms that show ?thesis by (simp add: in_control_def npc_coherent_def)
next
  case False
  let ?s = "s\<lparr>gdb_chain := Some SC_RISC_DEBUG\<rparr>"
  from assms(1) obtain t' where r: "gdb_read_reg D NPC_CPU_REG_ADD (npcCachedValue s) ?s = (0, reg_read (view (tgt s)) NPC_CPU_REG_ADD, ?s\<lparr>tgt := t'\<rparr>)"
    and t': "view t' = view (tgt s)" "ok t'"
    using read_reg [of ?s NPC_CPU_REG_ADD "npcCachedValue s"] by (auto simp: in_control_def)
  have "get_npc D s = (tv_npc (view (tgt s)), s\<lparr>gdb_chain := Some SC_RISC_DEBUG, tgt := t', err_of := 0,
      npcCachedValue := tv_npc (view (tgt s)), npcIsCached := True\<rparr>)"
    using assms False r by (simp add: get_npc_def in_control_def npc_coherent_def reg_read_def)
  from that [OF this] t' show ?thesis by (simp add: moved_def)
qed

text \<open>After \<open>set_npc\<close> the target resumes at the new address and the cache agrees with it.\<close>

lemma set_npc_effect:
  assumes "in_control view ok s" "npc_coherent view s"
  obtains s' where "set_npc D addr s = s'" "moved s s'" "ok (tgt s')" "npcIsCached s'" "npcCachedValue s' = addr"
    "view (tgt s') = (view (tgt s))\<lparr>tv_npc := addr, tv_flushed := (tv_flushed (view (tgt s)) \<or> addr \<noteq> tv_npc (view (tgt s)))\<rparr>"
proof -
  let ?s = "s\<lparr>gdb_chain := Some SC_RISC_DEBUG\<rparr>"
  have "in_control view ok ?s" "npc_coherent view ?s"
    using assms by (simp_all add: in_control_def npc_coherent_def)
  then obtain s1 where g: "get_npc D ?s = (tv_npc (view (tgt s)), s1)" and m: "moved ?s s1"
    and s1: "view (tgt s1) = view (tgt s)" "ok (tgt s1)" "npcIsCached s1" "npcCachedValue s1 = tv_npc (view (tgt s))"
      "gdb_chain s1 = Some SC_RISC_DEBUG"
    by (rule get_npc_effect) simp
  show ?thesis
  proof (cases "addr = tv_npc (view (tgt s))")
    case True
    with g have "set_npc D addr s = s1" by (simp add: set_npc_def)
    from that [OF this] True m s1 show ?thesis by (simp add: moved_def)
  next
    case False
    from s1 assms(1) m obtain t2 where "gdb_write_reg D NPC_CPU_REG_ADD addr s1 = (0, s1\<lparr>tgt := t2\<rparr>)"
      and t2: "view t2 = reg_write NPC_CPU_REG_ADD addr (view (tgt s))" "ok t2"
      using write_reg [of s1 NPC_CPU_REG_ADD addr] by (auto simp: in_control_def)
    with False g m assms(1) have "set_npc D addr s = s1\<lparr>tgt := t2, npcCachedValue := addr, npcIsCached := True\<rparr>"
      by (simp add: set_npc_def in_control_def moved_def)
    from that [OF this] False t2 m show ?thesis by (simp add: moved_def reg_write_def)
  qed
qed

end

section \<open>Requests in the buffer\<close>

text \<open>The server with a request in \<open>p_buf\<close>, as \<open>get_packet\<close> leaves it.\<close>

definition with_packet :: "byte list \<Rightarrow> 't gdb \<Rightarrow> 't gdb" where
  "with_packet msg s = s\<lparr>p_buf := \<lparr>buf_data = msg @ replicate (GDB_BUF_MAX - length msg) 0, buf_len = length msg\<rparr>\<rparr>"

lemma with_packet_sels [simp]:
  "tgt (with_packet msg s) = tgt s" "client (with_packet msg s) = client s" "mp_table_of (with_packet msg s) = mp_table_of s"
  "stallState (with_packet msg s) = stallState s" "npcIsCached (with_packet msg s) = npcIsCached s"
  "npcCachedValue (with_packet msg s) = npcCachedValue s" "dbg_regs_cache (with_packet msg s) = dbg_regs_cache s"
  "dbg_regs_cache_dirty (with_packet msg s) = dbg_regs_cache_dirty s" "fault (with_packet msg s) = fault s"
  "garbage (with_packet msg s) = garbage s" "buf_len (p_buf (with_packet msg s)) = length msg"
  by (simp_all add: with_packet_def)

lemma with_packet_control [simp]:
  "in_control view ok (with_packet msg s) = in_control view ok s"
  "npc_coherent view (with_packet msg s) = npc_coherent view s"
  by (simp_all add: in_control_def npc_coherent_def)

lemma cstr_with_packet:
  "0 \<notin> set msg \<Longrightarrow> length msg < GDB_BUF_MAX \<Longrightarrow> cstr (buf_data (p_buf (with_packet msg s))) = msg"
  using cstr_append0 [of msg "replicate (280 - length msg) 0"] Suc_diff_le [of "length msg" 280]
  by (simp add: with_packet_def)

lemma length_with_packet [simp]:
  "length msg \<le> GDB_BUF_MAX \<Longrightarrow> length (buf_data (p_buf (with_packet msg s))) = GDB_BUF_MAX"
  by (simp add: with_packet_def)

text \<open>Replies change the client connection only.\<close>

lemma put_str_sels [simp]:
  "tgt (put_str m s) = tgt s" "mp_table_of (put_str m s) = mp_table_of s" "stallState (put_str m s) = stallState s"
  "npcIsCached (put_str m s) = npcIsCached s" "npcCachedValue (put_str m s) = npcCachedValue s"
  "dbg_regs_cache (put_str m s) = dbg_regs_cache s" "dbg_regs_cache_dirty (put_str m s) = dbg_regs_cache_dirty s"
  "fault (put_str m s) = fault s" "p_buf (put_str m s) = p_buf s" "garbage (put_str m s) = garbage s"
  "client (put_str m s) = put_str_packet (bytes m) (client s)" "gdb_chain (put_str m s) = gdb_chain s"
  "err_of (put_str m s) = err_of s" "client_waiting (put_str m s) = client_waiting s" "sigval (put_str m s) = sigval s"
  "start_addr (put_str m s) = start_addr s" "gpr_regs (put_str m s) = gpr_regs s" "exited (put_str m s) = exited s"
  by (simp_all add: put_str_def)

lemma put_pkt_sels [simp]:
  "tgt (put_pkt d s) = tgt s" "mp_table_of (put_pkt d s) = mp_table_of s" "stallState (put_pkt d s) = stallState s"
  "npcIsCached (put_pkt d s) = npcIsCached s" "npcCachedValue (put_pkt d s) = npcCachedValue s"
  "dbg_regs_cache (put_pkt d s) = dbg_regs_cache s" "dbg_regs_cache_dirty (put_pkt d s) = dbg_regs_cache_dirty s"
  "fault (put_pkt d s) = fault s" "p_buf (put_pkt d s) = p_buf s" "garbage (put_pkt d s) = garbage s"
  "client (put_pkt d s) = put_packet d (client s)" "client_waiting (put_pkt d s) = client_waiting s"
  "sigval (put_pkt d s) = sigval s" "start_addr (put_pkt d s) = start_addr s" "gpr_regs (put_pkt d s) = gpr_regs s"
  "exited (put_pkt d s) = exited s"
  by (simp_all add: put_pkt_def)

end
