(* ===== verification/GdbRun.thy ===== *)
theory GdbRun
  imports GdbState
begin

text \<open>
  Execution control of \<open>gdb.c\<close>: \<open>rsp_report_exception\<close>, the continue, step and restart requests and
  \<open>rsp_interrupt\<close>.  The handlers read the packet in \<open>p_buf\<close>, as the source passes a pointer to it.
\<close>

definition rsp_report_exception :: "'t gdb \<Rightarrow> 't gdb" where
  "rsp_report_exception s =
     put_pkt [0x53, hexchars ! (sig_num (sigval s) div 16), hexchars ! (sig_num (sigval s) mod 16)] s"

definition rsp_continue_generic :: "'t dbg_ops \<Rightarrow> u32 \<Rightarrow> 't gdb \<Rightarrow> 't gdb" where
  "rsp_continue_generic D addr s =
     (let s1 = set_npc D addr s;
          c = dbg_regs_cache s1;
          s2 = s1\<lparr>dbg_regs_cache := c\<lparr>drr := 0, dmr1 := dmr1 c AND NOT 0x00400000, dsr := dsr c OR 0x00002000\<rparr>,
                  dbg_regs_cache_dirty := 1\<rparr>;
          s3 = put_debug_registers D s2;
          s4 = set_stall_state D False s3
      in s4\<lparr>dbg_regs_cache_dirty := - 1, client_waiting := True\<rparr>)"

definition rsp_step_generic :: "'t dbg_ops \<Rightarrow> u32 \<Rightarrow> 't gdb \<Rightarrow> 't gdb" where
  "rsp_step_generic D addr s =
     (let s1 = set_npc D addr s;
          c = dbg_regs_cache s1;
          s2 = s1\<lparr>dbg_regs_cache := c\<lparr>drr := 0, dmr1 := dmr1 c OR 0x00400000, dsr := dsr c OR 0x00002000,
                                      dmr2 := dmr2 c AND NOT 0x003ff000\<rparr>,
                  dbg_regs_cache_dirty := 1\<rparr>;
          s3 = put_debug_registers D s2;
          s4 = set_stall_state D False s3
      in s4\<lparr>dbg_regs_cache_dirty := - 1, client_waiting := True\<rparr>)"

text \<open>Where to resume: a bare command letter or an address that cannot be read means the current NPC.\<close>

definition resume_address :: "'t dbg_ops \<Rightarrow> string \<Rightarrow> 't gdb \<Rightarrow> u32 \<times> 't gdb" where
  "resume_address D letter s =
     (if strcmp_eq letter (buf_data (p_buf s)) then get_npc D s
      else (case sscanf (buf_data (p_buf s)) (lits letter @ [ScanX None]) of
              [Num addr] \<Rightarrow> (addr, s)
            | _ \<Rightarrow> get_npc D s))"

definition rsp_continue :: "'t dbg_ops \<Rightarrow> 't gdb \<Rightarrow> 't gdb" where
  "rsp_continue D s =
     (let (e, s1) = gdb_set_chain SC_RISC_DEBUG s;
          s2 = s1\<lparr>err_of := e\<rparr>
      in if e > 0 then close_client s2
         else (let (addr, s3) = resume_address D ''c'' s2 in rsp_continue_generic D addr s3))"

definition rsp_continue_with_signal :: "'t gdb \<Rightarrow> 't gdb" where
  "rsp_continue_with_signal s = s"

definition rsp_step :: "'t dbg_ops \<Rightarrow> 't gdb \<Rightarrow> 't gdb" where
  "rsp_step D s =
     (let (e, s1) = gdb_set_chain SC_RISC_DEBUG s;
          s2 = s1\<lparr>err_of := e\<rparr>
      in if e > 0 then close_client s2
         else (let (addr, s3) = resume_address D ''s'' s2 in rsp_step_generic D addr s3))"

definition rsp_step_with_signal :: "'t gdb \<Rightarrow> 't gdb" where
  "rsp_step_with_signal s = s"

definition rsp_restart :: "'t dbg_ops \<Rightarrow> 't gdb \<Rightarrow> 't gdb" where
  "rsp_restart D s =
     (let (e, s1) = gdb_set_chain SC_RISC_DEBUG s;
          s2 = s1\<lparr>err_of := e\<rparr>
      in if e > 0 then put_str ''E01'' s2 else set_npc D (start_addr s2) s2)"

text \<open>\<open>rsp_interrupt\<close> reads one byte without a retry; anything but a byte is a result that is not positive.\<close>

definition rsp_interrupt :: "'t dbg_ops \<Rightarrow> 't gdb \<Rightarrow> 't gdb" where
  "rsp_interrupt D s =
     (if client_fd (client s) = - 1 then s
      else (case rd_evs (client s) of
              [] \<Rightarrow> s
            | RdByte c # es \<Rightarrow>
                (let s1 = s\<lparr>client := (client s)\<lparr>rd_evs := es\<rparr>\<rparr>
                 in if c \<noteq> 3 then s1
                    else (let s2 = set_stall_state D True s1;
                              s3 = rsp_report_exception (s2\<lparr>sigval := TARGET_SIGNAL_NONE\<rparr>)
                          in s3\<lparr>client_waiting := False\<rparr>))
            | _ # es \<Rightarrow> s\<lparr>client := (client s)\<lparr>rd_evs := es\<rparr>\<rparr>))"

section \<open>What the target does next\<close>

text \<open>
  The cached registers \<open>c\<close> were written: each debug register holds what the hardware keeps of the word that
  arrives, which has the top bit of the word before it, and all other registers are as they were.
\<close>

definition debug_written :: "dbg_cache \<Rightarrow> tview \<Rightarrow> tview \<Rightarrow> bool" where
  "debug_written c v0 v \<longleftrightarrow>
     (\<forall>i < 22. tv_spr v (DEBUG_GROUP + of_nat i) = tv_keeps v0 (DEBUG_GROUP + of_nat i) (shifted_words (cache_words c) ! i))
     \<and> (\<forall>q. (\<forall>i < 22. q \<noteq> DEBUG_GROUP + of_nat i) \<longrightarrow> tv_spr v q = tv_spr v0 q)"

context dbg_target
begin

text \<open>Committing the cached registers and releasing the processor.\<close>

lemma commit_and_release:
  assumes "ok (tgt s)" "tv_stalled (view (tgt s))" "wf_cache (dbg_regs_cache s)"
  obtains t' where
    "set_stall_state D False (put_debug_registers D s) = s\<lparr>gdb_chain := Some SC_RISC_DEBUG, err_of := 0, tgt := t',
       stallState := UNSTALLED, npcIsCached := False, sigval := TARGET_SIGNAL_NONE\<rparr>"
    "view t' = (regs_write DEBUG_GROUP (shifted_words (cache_words (dbg_regs_cache s))) (view (tgt s)))
       \<lparr>tv_stalled := False, tv_flushed := False\<rparr>" "ok t'"
proof -
  let ?s = "s\<lparr>gdb_chain := Some SC_RISC_DEBUG, err_of := 0\<rparr>" and ?ws = "cache_words (dbg_regs_cache s)"
  have "block_ok (4 * length ?ws)"
    using length_cache_words [OF assms(3)] by (simp add: block_ok_def)
  then obtain t1 where w: "gdb_write_block D DEBUG_GROUP (le_of_words ?ws) ?s = (0, ?s\<lparr>tgt := t1\<rparr>)"
    and t1: "view t1 = regs_write DEBUG_GROUP (shifted_words ?ws) (view (tgt s))" "ok t1"
    using write_regs [of ?s ?ws DEBUG_GROUP] assms(1,2) by auto
  from cpu0_unstall [OF t1(2)] obtain t2 where r: "op_cpu0_write_ctrl D 0 0 t1 = (0, t2)"
    and t2: "view t2 = (view t1)\<lparr>tv_stalled := False, tv_flushed := False\<rparr>" "ok t2"
    by blast
  have "set_stall_state D False (put_debug_registers D s) = s\<lparr>gdb_chain := Some SC_RISC_DEBUG, err_of := 0, tgt := t2,
       stallState := UNSTALLED, npcIsCached := False, sigval := TARGET_SIGNAL_NONE\<rparr>"
    using w r by (simp add: put_debug_registers_def set_stall_state_def)
  from that [OF this] t1 t2 show ?thesis by simp
qed

text \<open>Common to continue and step: the processor runs from \<open>addr\<close> with the registers of \<open>c\<close>.\<close>

lemma resume_at:
  assumes "in_control view ok s" "npc_coherent view s" "set_npc D addr s = s1" "wf_cache c"
  obtains s' where
    "set_stall_state D False (put_debug_registers D (s1\<lparr>dbg_regs_cache := c, dbg_regs_cache_dirty := 1\<rparr>)) = s'"
    "ok (tgt s')" "stallState s' = UNSTALLED" "\<not> npcIsCached s'" "sigval s' = TARGET_SIGNAL_NONE"
    "tv_npc (view (tgt s')) = addr" "\<not> tv_stalled (view (tgt s'))" "\<not> tv_flushed (view (tgt s'))"
    "tv_mem (view (tgt s')) = tv_mem (view (tgt s))"
    "debug_written c (view (tgt s)) (view (tgt s'))"
    "client s' = client s" "mp_table_of s' = mp_table_of s" "fault s' = fault s"
proof -
  from set_npc_effect [OF assms(1,2), of addr] assms(3)
  have s1: "moved s s1" "ok (tgt s1)" and v1: "view (tgt s1) =
      (view (tgt s))\<lparr>tv_npc := addr, tv_flushed := (tv_flushed (view (tgt s)) \<or> addr \<noteq> tv_npc (view (tgt s)))\<rparr>"
    by auto
  let ?s1 = "s1\<lparr>dbg_regs_cache := c, dbg_regs_cache_dirty := 1\<rparr>" and ?ws = "shifted_words (cache_words c)"
  have st: "tv_stalled (view (tgt s1))" using v1 assms(1) by (simp add: in_control_def)
  obtain t' where r: "set_stall_state D False (put_debug_registers D ?s1) = ?s1\<lparr>gdb_chain := Some SC_RISC_DEBUG, err_of := 0,
       tgt := t', stallState := UNSTALLED, npcIsCached := False, sigval := TARGET_SIGNAL_NONE\<rparr>" (is "_ = ?s'")
    and t': "view t' = (regs_write DEBUG_GROUP ?ws (view (tgt s1)))\<lparr>tv_stalled := False, tv_flushed := False\<rparr>" "ok t'"
    using commit_and_release [of ?s1] s1(2) st assms(4) by auto
  have n: "length ?ws = 22" using length_cache_words [OF assms(4)] by simp
  have av: "avoids_npc DEBUG_GROUP 22" by (rule avoids_npc_above) simp_all
  have i: "tv_spr (view t') (DEBUG_GROUP + of_nat i) = tv_keeps (view (tgt s)) (DEBUG_GROUP + of_nat i) (?ws ! i)" if "i < 22" for i
    using regs_write_nth [of DEBUG_GROUP ?ws i "view (tgt s1)"] that av n t'(1) v1 by simp
  have o: "tv_spr (view t') q = tv_spr (view (tgt s)) q" if "\<forall>i < 22. q \<noteq> DEBUG_GROUP + of_nat i" for q
    using regs_write_other [of ?ws q DEBUG_GROUP "view (tgt s1)"] that n t'(1) v1 by simp
  have "debug_written c (view (tgt s)) (view t')" using i o by (simp add: debug_written_def)
  from that [OF r] this regs_write_npc [of DEBUG_GROUP ?ws "view (tgt s1)"] av n t' v1 s1 show ?thesis
    by (simp add: moved_def)
qed

end

section \<open>Continue and step requests\<close>

text \<open>The two forms of the requests: the bare letter, and the letter with an address.\<close>

definition resume_request :: "string \<Rightarrow> byte list \<Rightarrow> u32 \<Rightarrow> u32 \<Rightarrow> bool" where
  "resume_request letter data npc addr \<longleftrightarrow>
     (if cstr data = bytes letter then addr = npc else cstr data = bytes letter @ xdigits (unat addr))"

lemma scan_resume: "cstr data = bytes letter @ xdigits n \<Longrightarrow> n < 2 ^ 64 \<Longrightarrow> sscanf data (lits letter @ [ScanX None]) = [Num (of_nat n)]"
  using scan_hex [of "[]" n] by (simp add: sscanf_def scan_lits ends_hex_def)

text \<open>
  The cached debug registers as the requests change them: single-step trace (DMR1) on or off, the trap
  exception diverted to the debug unit (DSR), DRR cleared, and for a step no breakpoints from watchpoints (DMR2).
\<close>

definition step_cache :: "dbg_cache \<Rightarrow> dbg_cache" where
  "step_cache c = c\<lparr>drr := 0, dmr1 := dmr1 c OR 0x00400000, dsr := dsr c OR 0x00002000, dmr2 := dmr2 c AND NOT 0x003ff000\<rparr>"

definition continue_cache :: "dbg_cache \<Rightarrow> dbg_cache" where
  "continue_cache c = c\<lparr>drr := 0, dmr1 := dmr1 c AND NOT 0x00400000, dsr := dsr c OR 0x00002000\<rparr>"

context dbg_target
begin

lemma resume_address_effect:
  assumes "in_control view ok s" "npc_coherent view s" "resume_request letter (buf_data (p_buf s)) (tv_npc (view (tgt s))) addr"
  obtains s1 where "resume_address D letter s = (addr, s1)" "moved s s1" "in_control view ok s1" "npc_coherent view s1"
    "view (tgt s1) = view (tgt s)"
proof (cases "cstr (buf_data (p_buf s)) = bytes letter")
  case True
  obtain s' where g: "get_npc D s = (tv_npc (view (tgt s)), s')" "moved s s'" "view (tgt s') = view (tgt s)" "ok (tgt s')"
    "npcIsCached s'" "npcCachedValue s' = tv_npc (view (tgt s))"
    by (rule get_npc_effect [OF assms(1,2)])
  from True g(1) assms(3) have "resume_address D letter s = (addr, s')"
    by (simp add: resume_address_def strcmp_eq_def resume_request_def)
  from that [OF this] g assms(1) show ?thesis
    by (simp add: in_control_def npc_coherent_def moved_def)
next
  case False
  with assms(3) have d: "cstr (buf_data (p_buf s)) = bytes letter @ xdigits (unat addr)"
    by (simp add: resume_request_def)
  have "unat addr < 2 ^ 64"
    using unsigned_less [of addr] by (rule less_trans) simp
  from scan_resume [OF d this] False have "resume_address D letter s = (addr, s)"
    by (simp add: resume_address_def strcmp_eq_def)
  from that [OF this] assms(1,2) show ?thesis by simp
qed

text \<open>The common course of both requests: \<open>c'\<close> is what the handler makes of the cached registers.\<close>

lemma resume_effect:
  assumes "in_control view ok s" "npc_coherent view s" "wf_cache c'"
    and "resume_request letter (buf_data (p_buf s)) (tv_npc (view (tgt s))) addr"
  obtains s1 s2 s3 where
    "resume_address D letter (s\<lparr>gdb_chain := Some SC_RISC_DEBUG, err_of := 0\<rparr>) = (addr, s1)"
    "set_npc D addr s1 = s2" "dbg_regs_cache s2 = dbg_regs_cache s"
    "set_stall_state D False (put_debug_registers D (s2\<lparr>dbg_regs_cache := c', dbg_regs_cache_dirty := 1\<rparr>)) = s3"
    "ok (tgt s3) \<and> stallState s3 = UNSTALLED \<and> \<not> npcIsCached s3 \<and> client s3 = client s \<and> mp_table_of s3 = mp_table_of s
     \<and> sigval s3 = TARGET_SIGNAL_NONE \<and> tv_npc (view (tgt s3)) = addr \<and> \<not> tv_stalled (view (tgt s3))
     \<and> tv_mem (view (tgt s3)) = tv_mem (view (tgt s))"
    "debug_written c' (view (tgt s)) (view (tgt s3))"
proof -
  let ?s = "s\<lparr>gdb_chain := Some SC_RISC_DEBUG, err_of := 0\<rparr>"
  have "in_control view ok ?s" "npc_coherent view ?s"
    using assms(1,2) by (simp_all add: in_control_def npc_coherent_def)
  then obtain s1 where r: "resume_address D letter ?s = (addr, s1)" and m1: "moved ?s s1" and c1: "in_control view ok s1" "npc_coherent view s1"
    and v1: "view (tgt s1) = view (tgt s)"
    by (rule resume_address_effect [where letter = letter]) (use assms(4) in simp_all)
  obtain s2 where n: "set_npc D addr s1 = s2" "moved s1 s2"
    by (rule set_npc_effect [OF c1])
  have c: "dbg_regs_cache s2 = dbg_regs_cache s" using m1 n(2) by (simp add: moved_def)
  obtain s3 where r3: "set_stall_state D False (put_debug_registers D (s2\<lparr>dbg_regs_cache := c', dbg_regs_cache_dirty := 1\<rparr>)) = s3"
    and s3: "ok (tgt s3)" "stallState s3 = UNSTALLED" "\<not> npcIsCached s3" "sigval s3 = TARGET_SIGNAL_NONE"
      "tv_npc (view (tgt s3)) = addr" "\<not> tv_stalled (view (tgt s3))" "tv_mem (view (tgt s3)) = tv_mem (view (tgt s1))"
      "client s3 = client s1" "mp_table_of s3 = mp_table_of s1"
    and regs: "debug_written c' (view (tgt s1)) (view (tgt s3))"
    by (rule resume_at [OF c1 n(1) assms(3)]) blast
  show ?thesis
    by (rule that [OF r n(1) c r3 _ regs [unfolded v1]]) (use s3 m1 v1 in \<open>simp_all add: moved_def\<close>)
qed

lemma cache_words_tail:
  "wf_cache c \<Longrightarrow> cache_words c ! 16 = dmr1 c \<and> cache_words c ! 17 = dmr2 c \<and> cache_words c ! 20 = dsr c \<and> cache_words c ! 21 = drr c"
  by (simp add: cache_words_def nth_append wf_cache_def)

lemma step_effect:
  assumes "in_control view ok s" "npc_coherent view s" "wf_cache (dbg_regs_cache s)"
    and "resume_request ''s'' (buf_data (p_buf s)) (tv_npc (view (tgt s))) addr" "rsp_step D s = s'"
  shows "(ok (tgt s') \<and> stallState s' = UNSTALLED \<and> \<not> npcIsCached s' \<and> client s' = client s \<and> mp_table_of s' = mp_table_of s
     \<and> sigval s' = TARGET_SIGNAL_NONE \<and> tv_npc (view (tgt s')) = addr \<and> \<not> tv_stalled (view (tgt s'))
     \<and> tv_mem (view (tgt s')) = tv_mem (view (tgt s)))
     \<and> client_waiting s' \<and> dbg_regs_cache_dirty s' = - 1
     \<and> debug_written (step_cache (dbg_regs_cache s)) (view (tgt s)) (view (tgt s'))"
proof -
  define c where "c = dbg_regs_cache s"
  let ?c = "c\<lparr>drr := 0, dmr1 := dmr1 c OR 0x00400000, dsr := dsr c OR 0x00002000, dmr2 := dmr2 c AND NOT 0x003ff000\<rparr>"
  have wf: "wf_cache ?c" using assms(3) by (simp add: wf_cache_def c_def)
  obtain s1 s2 s3 where r: "resume_address D ''s'' (s\<lparr>gdb_chain := Some SC_RISC_DEBUG, err_of := 0\<rparr>) = (addr, s1)"
      "set_npc D addr s1 = s2" "dbg_regs_cache s2 = c"
      "set_stall_state D False (put_debug_registers D (s2\<lparr>dbg_regs_cache := ?c, dbg_regs_cache_dirty := 1\<rparr>)) = s3"
    and s3: "ok (tgt s3) \<and> stallState s3 = UNSTALLED \<and> \<not> npcIsCached s3 \<and> client s3 = client s \<and> mp_table_of s3 = mp_table_of s
     \<and> sigval s3 = TARGET_SIGNAL_NONE \<and> tv_npc (view (tgt s3)) = addr \<and> \<not> tv_stalled (view (tgt s3))
     \<and> tv_mem (view (tgt s3)) = tv_mem (view (tgt s))"
    and regs: "debug_written ?c (view (tgt s)) (view (tgt s3))"
    by (rule resume_effect [OF assms(1,2) wf assms(4)]) (unfold c_def, blast)
  have s': "s' = s3\<lparr>dbg_regs_cache_dirty := - 1, client_waiting := True\<rparr>"
    using assms(5) r by (simp add: rsp_step_def rsp_step_generic_def Let_def)
  show ?thesis using s3 s' regs by (simp add: step_cache_def c_def)
qed

lemma continue_effect:
  assumes "in_control view ok s" "npc_coherent view s" "wf_cache (dbg_regs_cache s)"
    and "resume_request ''c'' (buf_data (p_buf s)) (tv_npc (view (tgt s))) addr" "rsp_continue D s = s'"
  shows "(ok (tgt s') \<and> stallState s' = UNSTALLED \<and> \<not> npcIsCached s' \<and> client s' = client s \<and> mp_table_of s' = mp_table_of s
     \<and> sigval s' = TARGET_SIGNAL_NONE \<and> tv_npc (view (tgt s')) = addr \<and> \<not> tv_stalled (view (tgt s'))
     \<and> tv_mem (view (tgt s')) = tv_mem (view (tgt s)))
     \<and> client_waiting s' \<and> dbg_regs_cache_dirty s' = - 1
     \<and> debug_written (continue_cache (dbg_regs_cache s)) (view (tgt s)) (view (tgt s'))"
proof -
  define c where "c = dbg_regs_cache s"
  let ?c = "c\<lparr>drr := 0, dmr1 := dmr1 c AND NOT 0x00400000, dsr := dsr c OR 0x00002000\<rparr>"
  have wf: "wf_cache ?c" using assms(3) by (simp add: wf_cache_def c_def)
  obtain s1 s2 s3 where r: "resume_address D ''c'' (s\<lparr>gdb_chain := Some SC_RISC_DEBUG, err_of := 0\<rparr>) = (addr, s1)"
      "set_npc D addr s1 = s2" "dbg_regs_cache s2 = c"
      "set_stall_state D False (put_debug_registers D (s2\<lparr>dbg_regs_cache := ?c, dbg_regs_cache_dirty := 1\<rparr>)) = s3"
    and s3: "ok (tgt s3) \<and> stallState s3 = UNSTALLED \<and> \<not> npcIsCached s3 \<and> client s3 = client s \<and> mp_table_of s3 = mp_table_of s
     \<and> sigval s3 = TARGET_SIGNAL_NONE \<and> tv_npc (view (tgt s3)) = addr \<and> \<not> tv_stalled (view (tgt s3))
     \<and> tv_mem (view (tgt s3)) = tv_mem (view (tgt s))"
    and regs: "debug_written ?c (view (tgt s)) (view (tgt s3))"
    by (rule resume_effect [OF assms(1,2) wf assms(4)]) (unfold c_def, blast)
  have s': "s' = s3\<lparr>dbg_regs_cache_dirty := - 1, client_waiting := True\<rparr>"
    using assms(5) r by (simp add: rsp_continue_def rsp_continue_generic_def Let_def)
  show ?thesis using s3 s' regs by (simp add: continue_cache_def c_def)
qed

end

end
