(* ===== verification/GdbRegs.thy ===== *)
theory GdbRegs
  imports GdbState
begin

text \<open>
  The register requests of \<open>gdb.c\<close>: \<open>g\<close> and \<open>G\<close> for all registers (\<open>rsp_read_all_regs\<close>,
  \<open>rsp_write_all_regs\<close>), \<open>p\<close> and \<open>P\<close> for one (\<open>rsp_read_reg\<close>, \<open>rsp_write_reg\<close>).
\<close>

text \<open>The store \<open>reg2hex (val, &data[r * 8])\<close>: eight digits and a NUL behind them.\<close>

definition store_reg :: "nat \<Rightarrow> u32 \<Rightarrow> byte list \<Rightarrow> byte list" where
  "store_reg r val data = overwrite (r * 8) (reg2hex val) data"

fun store_gprs :: "nat \<Rightarrow> u32 list \<Rightarrow> byte list \<Rightarrow> byte list" where
  "store_gprs r [] data = data"
| "store_gprs r (v # vs) data = store_gprs (Suc r) vs (store_reg r v data)"

definition rsp_read_all_regs :: "'t dbg_ops \<Rightarrow> 't gdb \<Rightarrow> 't gdb" where
  "rsp_read_all_regs D s =
     (let (_, s1) = gdb_set_chain SC_RISC_DEBUG s;
          (_, bs, s2) = gdb_read_block D 0x400 (MAX_GPRS * 4) (le_of_words (gpr_regs s1)) s1;
          s3 = s2\<lparr>gpr_regs := words_of_le bs\<rparr>;
          data1 = store_gprs 0 (gpr_regs s3) (replicate GDB_BUF_MAX (ucast (garbage s3)));
          (_, pcs, s4) = gdb_read_block D NPC_CPU_REG_ADD 12 (le_of_words (replicate 3 (garbage s3))) s3;
          pcs_and_sr = words_of_le pcs;
          data2 = store_reg NPC_REGNUM (pcs_and_sr ! 0) data1;
          data3 = store_reg SR_REGNUM (pcs_and_sr ! 1) data2;
          data4 = store_reg PPC_REGNUM (pcs_and_sr ! 2) data3;
          data5 = data4[NUM_REGS * 8 := 0]
      in put_pkt (take (NUM_REGS * 8) data5) s4)"

text \<open>
  \<open>gpr_regs\<close> has \<open>MAX_GPRS\<close> words, 128 bytes; the block write of \<open>MAX_GPRS * 32\<close> bytes reads past it.
  That is undefined behaviour: \<open>fault\<close> is set, and the bytes behind the array are taken from \<open>garbage\<close>.
\<close>

definition rsp_write_all_regs :: "'t dbg_ops \<Rightarrow> 't gdb \<Rightarrow> 't gdb" where
  "rsp_write_all_regs D s =
     (let (e, s1) = gdb_set_chain SC_RISC_DEBUG s;
          s2 = s1\<lparr>err_of := e\<rparr>;
          data = buf_data (p_buf s2)
      in if e > 0 then put_str ''E01'' s2
         else (let s3 = s2\<lparr>gpr_regs := map (\<lambda>r. hex2reg (drop (r * 8 + 1) data)) [0..<MAX_GPRS]\<rparr>;
                   beyond = replicate (MAX_GPRS * 28) (ucast (garbage s3));
                   (_, s4) = gdb_write_block D 0x400 (le_of_words (gpr_regs s3) @ beyond) (s3\<lparr>fault := True\<rparr>);
                   pcs_and_sr = [hex2reg (drop (SR_REGNUM * 8 + 1) data), hex2reg (drop (PPC_REGNUM * 8 + 1) data)];
                   (_, s5) = gdb_write_block D SR_CPU_REG_ADD (le_of_words pcs_and_sr) s4;
                   s6 = set_npc D (hex2reg (drop (NPC_REGNUM * 8 + 1) data)) s5
               in put_str ''OK'' s6))"

text \<open>The reply of \<open>rsp_read_reg\<close>: digits at the start of \<open>p_buf\<close>, then \<open>put_packet\<close>.\<close>

definition reply_text :: "byte list \<Rightarrow> 't gdb \<Rightarrow> 't gdb" where
  "reply_text text s =
     (let data = overwrite 0 text (buf_data (p_buf s));
          n = strlen_buf data
      in put_pkt (take n data) (s\<lparr>p_buf := \<lparr>buf_data = data, buf_len = n\<rparr>\<rparr>))"

definition reply_reg :: "int \<times> u32 \<times> 't gdb \<Rightarrow> 't gdb" where
  "reply_reg r =
     (let (e, v, s) = r;
          s1 = s\<lparr>err_of := e\<rparr>
      in if e > 0 then put_str ''E01'' s1 else reply_text (reg2hex v) s1)"

definition rsp_read_reg :: "'t dbg_ops \<Rightarrow> 't gdb \<Rightarrow> 't gdb" where
  "rsp_read_reg D s =
     (case sscanf (buf_data (p_buf s)) (lits ''p'' @ [ScanX None]) of
        [Num regnum] \<Rightarrow>
          (let (e, s1) = gdb_set_chain SC_RISC_DEBUG s;
               s2 = s1\<lparr>err_of := e\<rparr>;
               r = unat regnum
           in if e > 0 then put_str ''E01'' s2
              else if r < MAX_GPRS then reply_reg (gdb_read_reg D (0x400 + regnum) (garbage s2) s2)
              else if r = PPC_REGNUM then reply_reg (gdb_read_reg D PPC_CPU_REG_ADD (garbage s2) s2)
              else if r = NPC_REGNUM then (let (v, s3) = get_npc D s2 in reply_text (reg2hex v) s3)
              else if r = SR_REGNUM then reply_reg (gdb_read_reg D SR_CPU_REG_ADD (garbage s2) s2)
              else put_str ''E01'' s2)
      | _ \<Rightarrow> put_str ''E01'' s)"

definition ack_write :: "int \<times> 't gdb \<Rightarrow> 't gdb" where
  "ack_write r = (let (e, s) = r; s1 = s\<lparr>err_of := e\<rparr> in if e > 0 then put_str ''E01'' s1 else put_str ''OK'' s1)"

text \<open>
  \<open>valstr\<close> is a local of nine characters: \<open>%8s\<close> stores at most eight and a NUL, and what follows a shorter
  text was never initialised.
\<close>

definition valstr_of :: "byte list \<Rightarrow> 't gdb \<Rightarrow> byte list" where
  "valstr_of text s = overwrite 0 (text @ [0]) (replicate 9 (ucast (garbage s)))"

definition rsp_write_reg :: "'t dbg_ops \<Rightarrow> 't gdb \<Rightarrow> 't gdb" where
  "rsp_write_reg D s =
     (case sscanf (buf_data (p_buf s)) (lits ''P'' @ [ScanX None] @ lits ''='' @ [ScanS 8]) of
        [Num regnum, Text text] \<Rightarrow>
          (let (e, s1) = gdb_set_chain SC_RISC_DEBUG s;
               s2 = s1\<lparr>err_of := e\<rparr>;
               r = unat regnum;
               valstr = valstr_of text s2
           in if e > 0 then put_str ''E01'' s2
              else if r < MAX_GPRS then ack_write (gdb_write_reg D (0x400 + regnum) (hex2reg valstr) s2)
              else if r = PPC_REGNUM then ack_write (gdb_write_reg D PPC_CPU_REG_ADD (hex2reg valstr) s2)
              else if r = NPC_REGNUM then put_str ''OK'' (set_npc D (hex2reg valstr) s2)
              else if r = SR_REGNUM then ack_write (gdb_write_reg D SR_CPU_REG_ADD (hex2reg valstr) s2)
              else put_str ''E01'' s2)
      | _ \<Rightarrow> put_str ''E01'' s)"

section \<open>The reply to a read of all registers\<close>

definition reg_digits :: "u32 \<Rightarrow> byte list" where
  "reg_digits v = map (\<lambda>n. hexdigit (drop_bit (28 - n * 4) v)) [0..<8]"

lemma reg2hex_split: "reg2hex v = reg_digits v @ [0]"
  by (simp add: reg2hex_def reg_digits_def)

lemma length_reg_digits [simp]: "length (reg_digits v) = 8"
  by (simp add: reg_digits_def)

lemma store_reg_split:
  "length pre = r * 8 \<Longrightarrow> store_reg r v (pre @ post) = pre @ reg_digits v @ 0 # drop 9 post"
  by (simp add: store_reg_def overwrite_def reg2hex_split)

lemma store_gprs_split:
  assumes "length pre = r * 8" "vs \<noteq> []"
  shows "store_gprs r vs (pre @ post) = pre @ concat (map reg_digits vs) @ 0 # drop (length vs * 8 + 1) post"
  using assms
proof (induction vs arbitrary: r pre post)
  case (Cons v vs)
  show ?case
  proof (cases "vs = []")
    case True
    with Cons.prems show ?thesis by (simp add: store_reg_split)
  next
    case False
    with Cons.IH [of "pre @ reg_digits v" "Suc r" "0 # drop 9 post"] Cons.prems False show ?thesis
      by (simp add: store_reg_split add.commute)
  qed
qed simp

lemma store_all:
  assumes "length gprs = 32"
  shows "take (NUM_REGS * 8) (store_reg PPC_REGNUM ppc (store_reg SR_REGNUM sr (store_reg NPC_REGNUM npc
      (store_gprs 0 gprs (replicate GDB_BUF_MAX g))))) =
    concat (map reg_digits gprs) @ reg_digits ppc @ 0 # tl (reg_digits npc) @ reg_digits sr"
proof -
  let ?gs = "concat (map reg_digits gprs)"
  have l: "length ?gs = 256"
    using assms by (simp add: length_concat comp_def sum_list_triv)
  have "gprs \<noteq> []" using assms by auto
  then have s0: "store_gprs 0 gprs (replicate GDB_BUF_MAX g) = ?gs @ 0 # replicate 24 g"
    using store_gprs_split [of "[]" 0 gprs "replicate GDB_BUF_MAX g"] assms by simp
  have s1: "store_reg NPC_REGNUM npc (?gs @ 0 # replicate 24 g) = (?gs @ 0 # replicate 7 g) @ reg_digits npc @ 0 # replicate 8 g"
    using store_reg_split [of "?gs @ 0 # replicate 7 g" NPC_REGNUM npc "replicate 17 g"] l
    by (simp flip: replicate_add)
  have s2: "store_reg SR_REGNUM sr ((?gs @ 0 # replicate 7 g) @ reg_digits npc @ 0 # replicate 8 g) =
      (?gs @ 0 # replicate 7 g @ reg_digits npc) @ reg_digits sr @ [0]"
    using store_reg_split [of "?gs @ 0 # replicate 7 g @ reg_digits npc" SR_REGNUM sr "0 # replicate 8 g"] l by simp
  have s3: "store_reg PPC_REGNUM ppc ((?gs @ 0 # replicate 7 g @ reg_digits npc) @ reg_digits sr @ [0]) =
      ?gs @ reg_digits ppc @ 0 # tl (reg_digits npc) @ reg_digits sr @ [0]"
    using store_reg_split [of ?gs PPC_REGNUM ppc "(0 # replicate 7 g @ reg_digits npc) @ reg_digits sr @ [0]"] l
    by (cases "reg_digits npc") (use length_reg_digits [of npc] in simp_all)
  show ?thesis
    unfolding s0 s1 s2 s3 using l by simp
qed

context dbg_target
begin

lemma read_all_regs_effect:
  assumes "in_control view ok s"
  shows "\<exists>t'. rsp_read_all_regs D s =
       put_pkt (concat (map reg_digits (regs_read (view (tgt s)) 0x400 32)) @ reg_digits (reg_read (view (tgt s)) PPC_CPU_REG_ADD)
                @ 0 # tl (reg_digits (reg_read (view (tgt s)) NPC_CPU_REG_ADD)) @ reg_digits (reg_read (view (tgt s)) SR_CPU_REG_ADD))
         (s\<lparr>gdb_chain := Some SC_RISC_DEBUG, gpr_regs := regs_read (view (tgt s)) 0x400 32, tgt := t'\<rparr>)
     \<and> view t' = view (tgt s) \<and> ok t'"
proof -
  let ?v = "view (tgt s)" and ?s = "s\<lparr>gdb_chain := Some SC_RISC_DEBUG\<rparr>"
  obtain t1 where r1: "gdb_read_block D 0x400 128 (le_of_words (gpr_regs s)) ?s = (0, le_of_words (regs_read ?v 0x400 32), ?s\<lparr>tgt := t1\<rparr>)"
    and t1: "view t1 = ?v" "ok t1"
    using read_regs [of ?s 128 "0x400" "le_of_words (gpr_regs s)"] assms by (auto simp: in_control_def block_ok_def)
  let ?s3 = "?s\<lparr>tgt := t1, gpr_regs := regs_read ?v 0x400 32\<rparr>"
  obtain t2 where r2: "gdb_read_block D NPC_CPU_REG_ADD 12 (le_of_words (replicate 3 (garbage s))) ?s3
      = (0, le_of_words (regs_read ?v NPC_CPU_REG_ADD 3), ?s3\<lparr>tgt := t2\<rparr>)" and t2: "view t2 = ?v" "ok t2"
    using read_regs [of ?s3 12 NPC_CPU_REG_ADD "le_of_words (replicate 3 (garbage s))"] assms t1
    by (auto simp: in_control_def block_ok_def)
  have three: "regs_read ?v NPC_CPU_REG_ADD 3 ! 0 = reg_read ?v NPC_CPU_REG_ADD"
    "regs_read ?v NPC_CPU_REG_ADD 3 ! 1 = reg_read ?v SR_CPU_REG_ADD"
    "regs_read ?v NPC_CPU_REG_ADD 3 ! 2 = reg_read ?v PPC_CPU_REG_ADD"
    by (simp_all add: regs_read_def)
  have l: "length (concat (map reg_digits (regs_read ?v 0x400 32))) = 256"
    by (simp add: length_concat comp_def sum_list_triv)
  show ?thesis
    using r1 r2 t2 store_all [of "regs_read ?v 0x400 32"] l
    by (intro exI [of _ t2]) (simp add: rsp_read_all_regs_def Let_def three [simplified])
qed

end

section \<open>Reading and writing one register\<close>

definition reg_request :: "string \<Rightarrow> nat \<Rightarrow> byte list" where
  "reg_request letter n = bytes letter @ xdigits n"

lemma reg_digits_xdigit: "c \<in> set (reg_digits v) \<Longrightarrow> is_xdigit c"
  using is_xdigit_hexchars [OF nibble_less] by (auto simp: reg_digits_def)

lemma reg_digits_no_nul: "0 \<notin> set (reg_digits v)"
  using reg_digits_xdigit [of 0 v] by (auto simp: is_xdigit_def hex_def)

lemma scan_text_digits: "scan_text 8 (reg_digits v) = Some (reg_digits v, [])"
proof -
  have sp: "c \<in> set (reg_digits v) \<Longrightarrow> \<not> is_space c" for c
    using reg_digits_xdigit [of c v] xdigit_chars [of c] by blast
  obtain d ds where d: "reg_digits v = d # ds" using length_reg_digits [of v] by (cases "reg_digits v") simp_all
  have "dropWhile is_space (reg_digits v) = reg_digits v" using sp [of d] by (simp add: d)
  moreover have "takeWhile (\<lambda>c. \<not> is_space c) (reg_digits v) = reg_digits v" using sp by (simp add: takeWhile_eq_all_conv)
  moreover have "take 8 (reg_digits v) = reg_digits v" "drop (length (reg_digits v)) (reg_digits v) = []" "reg_digits v \<noteq> []"
    by (simp_all add: d) (use length_reg_digits [of v] in \<open>simp add: d\<close>)
  ultimately show ?thesis by (simp only: scan_text_def Let_def if_False)
qed

lemma scan_reg_request:
  assumes "n < 2 ^ 31"
  shows "cstr data = reg_request ''p'' n \<Longrightarrow> sscanf data (lits ''p'' @ [ScanX None]) = [Num (of_nat n)]"
    and "cstr data = reg_request ''P'' n @ 0x3d # reg_digits v \<Longrightarrow>
      sscanf data (lits ''P'' @ [ScanX None] @ lits ''='' @ [ScanS 8]) = [Num (of_nat n), Text (reg_digits v)]"
proof -
  have n: "n < 2 ^ 64" using assms by simp
  show "cstr data = reg_request ''p'' n \<Longrightarrow> sscanf data (lits ''p'' @ [ScanX None]) = [Num (of_nat n)]"
    using scan_hex [of "[]", OF _ n] by (simp add: sscanf_def reg_request_def scan_lits ends_hex_def)
  have "ends_hex (0x3d # reg_digits v)" by (simp add: ends_hex_def is_xdigit_def hex_def)
  from scan_hex [OF this n] show "cstr data = reg_request ''P'' n @ 0x3d # reg_digits v \<Longrightarrow>
      sscanf data (lits ''P'' @ [ScanX None] @ lits ''='' @ [ScanS 8]) = [Num (of_nat n), Text (reg_digits v)]"
    by (simp add: sscanf_def reg_request_def scan_lits scan_text_digits)
qed

lemma valstr_of_digits: "valstr_of (reg_digits v) s = reg2hex v"
  by (simp add: valstr_of_def overwrite_def reg2hex_split)

lemma hex2reg_reg2hex_word: "hex2reg (reg2hex v) = v"
  using hex2reg_reg2hex_append [of v "[]"] by simp

lemma reply_text_reg:
  "\<exists>b. reply_text (reg2hex v) s = put_pkt (reg_digits v) (s\<lparr>p_buf := b\<rparr>)"
proof -
  have d: "overwrite 0 (reg2hex v) (buf_data (p_buf s)) = reg_digits v @ 0 # drop 9 (buf_data (p_buf s))"
    by (simp add: overwrite_def reg2hex_split)
  have "strlen_buf (overwrite 0 (reg2hex v) (buf_data (p_buf s))) = 8"
    using reg_digits_no_nul [of v] by (simp add: d strlen_buf_def)
  then have "reply_text (reg2hex v) s =
      put_pkt (reg_digits v) (s\<lparr>p_buf := \<lparr>buf_data = overwrite 0 (reg2hex v) (buf_data (p_buf s)), buf_len = 8\<rparr>\<rparr>)"
    by (simp add: reply_text_def d)
  then show ?thesis by blast
qed

text \<open>The register of the processor behind a register number of the protocol, the NPC apart.\<close>

definition spr_of :: "nat \<Rightarrow> u32" where
  "spr_of n = (if n < MAX_GPRS then 0x400 + of_nat n else if n = PPC_REGNUM then PPC_CPU_REG_ADD else SR_CPU_REG_ADD)"

definition reg_value :: "tview \<Rightarrow> nat \<Rightarrow> u32" where
  "reg_value v n = (if n = NPC_REGNUM then tv_npc v else tv_spr v (spr_of n))"

text \<open>The registers after a write of \<open>v\<close> to register \<open>n\<close>.\<close>

definition written_value :: "tview \<Rightarrow> nat \<Rightarrow> u32 \<Rightarrow> nat \<Rightarrow> u32" where
  "written_value v0 n v m =
     (if m = NPC_REGNUM \<and> (n = NPC_REGNUM \<or> n = PPC_REGNUM) then v
      else if m = n \<and> n \<noteq> PPC_REGNUM then tv_keeps v0 (spr_of n) v else reg_value v0 m)"

lemma spr_of_other: "n < NUM_REGS \<Longrightarrow> n \<noteq> NPC_REGNUM \<Longrightarrow> spr_of n \<noteq> NPC_CPU_REG_ADD \<and> spr_of n \<noteq> 4
    \<and> (spr_of n = PPC_CPU_REG_ADD \<longleftrightarrow> n = PPC_REGNUM)"
proof -
  have "0x400 + (of_nat n :: u32) \<noteq> 0x10 \<and> 0x400 + (of_nat n :: u32) \<noteq> 4 \<and> 0x400 + (of_nat n :: u32) \<noteq> 0x12" if "n < 32"
  proof -
    define x :: u32 where "x = 0x400 + of_nat n"
    have "unat x = 0x400 + n"
      using that by (simp add: x_def unat_word_ariths(1) unsigned_of_nat take_bit_nat_eq_self)
    then have "x \<noteq> 0x10 \<and> x \<noteq> 4 \<and> x \<noteq> 0x12" by auto
    then show ?thesis unfolding x_def .
  qed
  then show ?thesis by (auto simp: spr_of_def)
qed

lemma spr_of_inj: "m < NUM_REGS \<Longrightarrow> n < NUM_REGS \<Longrightarrow> m \<noteq> NPC_REGNUM \<Longrightarrow> n \<noteq> NPC_REGNUM \<Longrightarrow> spr_of m = spr_of n \<longleftrightarrow> m = n"
proof -
  have u: "unat (spr_of k) = (if k < 32 then 0x400 + k else if k = 32 then 0x12 else 0x11)" if "k < 35" for k
    using that by (simp add: spr_of_def unat_word_ariths(1) unsigned_of_nat take_bit_nat_eq_self)
  assume "m < NUM_REGS" "n < NUM_REGS" "m \<noteq> NPC_REGNUM" "n \<noteq> NPC_REGNUM"
  with u [of m] u [of n] show "spr_of m = spr_of n \<longleftrightarrow> m = n"
    by (auto simp: word_unat_eq_iff split: if_splits)
qed

context dbg_target
begin

text \<open>
  Acknowledged, the server in control, and only the register changed, which holds what the hardware keeps of
  the value.  A write of the PPC changes the NPC instead, and the server does not take note of it.
\<close>

lemma write_one_reg:
  assumes "in_control view ok s" "npc_coherent view s" "n < NUM_REGS"
    and "cstr (buf_data (p_buf s)) = reg_request ''P'' n @ 0x3d # reg_digits v" "rsp_write_reg D s = s'"
  shows "in_control view ok s' \<and> (n \<noteq> PPC_REGNUM \<longrightarrow> npc_coherent view s') \<and> client s' = put_str_packet (bytes ''OK'') (client s)
     \<and> fault s' = fault s \<and> tv_mem (view (tgt s')) = tv_mem (view (tgt s))
     \<and> (\<forall>m < NUM_REGS. reg_value (view (tgt s')) m = written_value (view (tgt s)) n v m)"
proof -
  let ?s = "s\<lparr>gdb_chain := Some SC_RISC_DEBUG, err_of := 0\<rparr>"
  have args: "sscanf (buf_data (p_buf s)) (lits ''P'' @ [ScanX None] @ lits ''='' @ [ScanS 8]) = [Num (of_nat n), Text (reg_digits v)]"
    using scan_reg_request(2) [OF _ assms(4)] assms(3) by simp
  have n: "unat (of_nat n :: u32) = n" using assms(3) by (simp add: unsigned_of_nat take_bit_nat_eq_self)
  have c: "in_control view ok ?s" "npc_coherent view ?s"
    using assms(1,2) by (simp_all add: in_control_def npc_coherent_def)
  show ?thesis
  proof (cases "n = NPC_REGNUM")
    case True
    obtain s1 where s1: "set_npc D v ?s = s1" "moved ?s s1" "ok (tgt s1)" "npcIsCached s1" "npcCachedValue s1 = v"
      "view (tgt s1) = (view (tgt ?s))\<lparr>tv_npc := v, tv_flushed := (tv_flushed (view (tgt ?s)) \<or> v \<noteq> tv_npc (view (tgt ?s)))\<rparr>"
      by (rule set_npc_effect [OF c])
    have "s' = put_str ''OK'' s1"
      using args assms(5) s1(1) True by (simp add: rsp_write_reg_def n valstr_of_digits hex2reg_reg2hex_word)
    with s1 assms(1) True show ?thesis
      by (auto simp: in_control_def npc_coherent_def moved_def reg_value_def written_value_def)
  next
    case False
    note o = spr_of_other [OF assms(3) False]
    obtain t' where w: "gdb_write_reg D (spr_of n) v ?s = (0, ?s\<lparr>tgt := t'\<rparr>)"
      and t': "view t' = reg_write (spr_of n) v (view (tgt s))" "ok t'"
      using write_reg [of ?s "spr_of n" v] assms(1) o by (auto simp: in_control_def)
    have "n < 32 \<or> n = 32 \<or> n = 34" using assms(3) False by auto
    then have "s' = put_str ''OK'' (?s\<lparr>tgt := t', err_of := 0\<rparr>)"
      using args assms(5) w
      by (auto simp: rsp_write_reg_def n valstr_of_digits hex2reg_reg2hex_word spr_of_def ack_write_def Let_def)
    moreover have "spr_of m = spr_of n \<longleftrightarrow> m = n" if "m < NUM_REGS" "m \<noteq> NPC_REGNUM" for m
      using spr_of_inj that assms(3) False by blast
    ultimately show ?thesis
      using t' assms(1,2) o False by (auto simp: in_control_def npc_coherent_def reg_write_def reg_value_def written_value_def)
  qed
qed

lemma read_one_reg:
  assumes "in_control view ok s" "n = NPC_REGNUM \<longrightarrow> npc_coherent view s" "n < NUM_REGS"
    and "cstr (buf_data (p_buf s)) = reg_request ''p'' n" "rsp_read_reg D s = s'"
  shows "in_control view ok s' \<and> fault s' = fault s \<and> view (tgt s') = view (tgt s)
     \<and> client s' = put_packet (reg_digits (reg_value (view (tgt s)) n)) (client s)"
proof -
  let ?s = "s\<lparr>gdb_chain := Some SC_RISC_DEBUG, err_of := 0\<rparr>"
  have args: "sscanf (buf_data (p_buf s)) (lits ''p'' @ [ScanX None]) = [Num (of_nat n)]"
    using scan_reg_request(1) [OF _ assms(4)] assms(3) by simp
  have n: "unat (of_nat n :: u32) = n" using assms(3) by (simp add: unsigned_of_nat take_bit_nat_eq_self)
  show ?thesis
  proof (cases "n = NPC_REGNUM")
    case True
    have c: "in_control view ok ?s" "npc_coherent view ?s"
      using assms(1,2) True by (simp_all add: in_control_def npc_coherent_def)
    obtain s1 where s1: "get_npc D ?s = (tv_npc (view (tgt ?s)), s1)" "moved ?s s1" "view (tgt s1) = view (tgt ?s)" "ok (tgt s1)"
      "npcIsCached s1" "npcCachedValue s1 = tv_npc (view (tgt ?s))"
      by (rule get_npc_effect [OF c])
    obtain b where b: "reply_text (reg2hex (tv_npc (view (tgt s)))) s1 = put_pkt (reg_digits (tv_npc (view (tgt s)))) (s1\<lparr>p_buf := b\<rparr>)"
      using reply_text_reg by blast
    have "s' = put_pkt (reg_digits (tv_npc (view (tgt s)))) (s1\<lparr>p_buf := b\<rparr>)"
      using args assms(5) s1(1) True b by (simp add: rsp_read_reg_def n)
    with s1 assms(1) True show ?thesis
      by (simp add: in_control_def moved_def reg_value_def)
  next
    case False
    note o = spr_of_other [OF assms(3) False]
    obtain t' where w: "gdb_read_reg D (spr_of n) (garbage s) ?s = (0, tv_spr (view (tgt s)) (spr_of n), ?s\<lparr>tgt := t'\<rparr>)"
      and t': "view t' = view (tgt s)" "ok t'"
      using read_reg [of ?s "spr_of n" "garbage s"] assms(1) o by (auto simp: in_control_def reg_read_def)
    obtain b where b: "reply_text (reg2hex (tv_spr (view (tgt s)) (spr_of n))) (?s\<lparr>tgt := t', err_of := 0\<rparr>) =
        put_pkt (reg_digits (tv_spr (view (tgt s)) (spr_of n))) (?s\<lparr>tgt := t', err_of := 0, p_buf := b\<rparr>)"
      using reply_text_reg by blast
    have "n < 32 \<or> n = 32 \<or> n = 34" using assms(3) False by auto
    then have "s' = put_pkt (reg_digits (tv_spr (view (tgt s)) (spr_of n))) (?s\<lparr>tgt := t', err_of := 0, p_buf := b\<rparr>)"
      using args assms(5) w b
      by (auto simp: rsp_read_reg_def n spr_of_def reply_reg_def Let_def)
    then show ?thesis
      using t' assms(1) False by (simp add: in_control_def reg_value_def)
  qed
qed

end

text \<open>The general registers and the PPC of a block read, by register number.\<close>

lemma block_digits:
  "concat (map reg_digits (regs_read v 0x400 32)) @ reg_digits (reg_read v PPC_CPU_REG_ADD) =
     concat (map (\<lambda>n. reg_digits (reg_value v n)) [0..<33])"
proof -
  have "regs_read v 0x400 32 = map (reg_value v) [0..<32]"
  proof (rule nth_equalityI)
    fix i assume "i < length (regs_read v 0x400 32)"
    then have i: "i < 32" by (simp add: regs_read_def)
    then have "spr_of i \<noteq> NPC_CPU_REG_ADD" using spr_of_other [of i] by simp
    moreover have "spr_of i = 0x400 + of_nat i" using i by (simp add: spr_of_def)
    ultimately have "reg_read v (0x400 + of_nat i) = tv_spr v (0x400 + of_nat i)" by (simp add: reg_read_def)
    with i show "regs_read v 0x400 32 ! i = map (reg_value v) [0..<32] ! i"
      by (simp add: regs_read_def reg_value_def spr_of_def)
  qed (simp add: regs_read_def)
  moreover have "reg_read v PPC_CPU_REG_ADD = reg_value v 32"
    by (simp add: reg_read_def reg_value_def spr_of_def)
  moreover have "[0..<33] = [0..<32] @ [32]" using upt_Suc_append [of 0 32] by simp
  ultimately show ?thesis by (simp only: map_append map_map comp_def concat_append list.map concat.simps append_Nil2)
qed

end
