(* ===== verification/GdbMem.thy ===== *)
theory GdbMem
  imports GdbState
begin

text \<open>
  The memory requests of \<open>gdb.c\<close>: \<open>m\<close> (\<open>rsp_read_mem\<close>), \<open>M\<close> (\<open>rsp_write_mem\<close>) and \<open>X\<close>
  (\<open>rsp_write_mem_bin\<close>).  Lengths are 32-bit signed integers; where the source would overflow one or
  write outside an array the model sets \<open>fault\<close> and stops the handler.
\<close>

definition int_overflow :: "int \<Rightarrow> bool" where
  "int_overflow i \<longleftrightarrow> i < - (2 ^ 31) \<or> 2 ^ 31 \<le> i"

definition ub :: "'t gdb \<Rightarrow> 't gdb" where
  "ub s = s\<lparr>fault := True\<rparr>"

section \<open>Reading\<close>

text \<open>The byte loops of \<open>rsp_read_mem\<close>: \<open>None\<close> when a read failed.\<close>

fun read_bytes :: "'t dbg_ops \<Rightarrow> u32 \<Rightarrow> nat \<Rightarrow> 't gdb \<Rightarrow> byte list option \<times> 't gdb" where
  "read_bytes D addr 0 s = (Some [], s)"
| "read_bytes D addr (Suc n) s =
     (let (e, b, s1) = gdb_read_byte D addr (ucast (garbage s)) s;
          s2 = s1\<lparr>err_of := e\<rparr>
      in if e \<noteq> 0 then (None, s2)
         else (let (r, s3) = read_bytes D (addr + 1) n s2 in (map_option (Cons b) r, s3)))"

text \<open>Bytes up to a word boundary, then whole words in one block, then what is left.\<close>

definition read_span :: "'t dbg_ops \<Rightarrow> u32 \<Rightarrow> nat \<Rightarrow> 't gdb \<Rightarrow> byte list option \<times> 't gdb" where
  "read_span D addr len s =
     (let head = (if addr AND 3 \<noteq> 0 then min (4 - unat (addr AND 3)) len else 0)
      in case read_bytes D addr head s of
           (None, s1) \<Rightarrow> (None, s1)
         | (Some bs1, s1) \<Rightarrow>
             (let addr1 = addr + of_nat head;
                  len1 = len - head;
                  words = len1 div 4 * 4;
                  (e, bs2, s2) =
                    (if words \<noteq> 0
                     then (let (e, bs, s') = gdb_read_block D addr1 words (replicate words (ucast (garbage s1))) s1
                           in (e, bs, s'\<lparr>err_of := e\<rparr>))
                     else (0, [], s1))
              in if e \<noteq> 0 then (None, s2)
                 else (case read_bytes D (addr1 + of_nat words) (len1 - words) s2 of
                         (None, s3) \<Rightarrow> (None, s3)
                       | (Some bs3, s3) \<Rightarrow> (Some (bs1 @ bs2 @ bs3), s3))))"

definition hex_pairs :: "byte list \<Rightarrow> byte list" where
  "hex_pairs bs = concat (map (\<lambda>b. [hexdigit (drop_bit 4 b), hexdigit b]) bs)"

text \<open>The reply is written over the request in \<open>p_buf\<close>; it needs two characters per byte and the NUL.\<close>

definition reply_bytes :: "byte list \<Rightarrow> 't gdb \<Rightarrow> 't gdb" where
  "reply_bytes bs s =
     (if in_bounds 0 (hex_pairs bs @ [0]) (buf_data (p_buf s))
      then (let data = overwrite 0 (hex_pairs bs @ [0]) (buf_data (p_buf s));
                n = strlen_buf data
            in put_pkt (take n data) (s\<lparr>p_buf := \<lparr>buf_data = data, buf_len = n\<rparr>\<rparr>))
      else ub s)"

text \<open>\<open>malloc\<close> fails for a negative length, which converts to a huge \<open>size_t\<close>, and not for the others.\<close>

definition rsp_read_mem :: "'t dbg_ops \<Rightarrow> 't gdb \<Rightarrow> 't gdb" where
  "rsp_read_mem D s =
     (case sscanf (buf_data (p_buf s)) (lits ''m'' @ [ScanX None] @ lits '','' @ [ScanX None] @ lits '':'') of
        [Num addr, Num l] \<Rightarrow>
          (if int_overflow (sint l * 2) then ub s
           else (let len = (if sint l * 2 \<ge> int (GDB_BUF_MAX * 2) then int ((GDB_BUF_MAX - 1) div 2) else sint l)
                 in if len < 0 then put_str ''E01'' s
                    else (let (e, s1) = gdb_set_chain SC_WISHBONE s;
                              s2 = s1\<lparr>err_of := e\<rparr>
                          in if e \<noteq> 0 then put_str ''E01'' s2
                             else (case read_span D addr (nat len) s2 of
                                     (None, s3) \<Rightarrow> put_str ''E01'' s3
                                   | (Some bs, s3) \<Rightarrow> reply_bytes bs s3))))
      | _ \<Rightarrow> put_str ''E01'' s)"

section \<open>Symbolic writes\<close>

text \<open>\<open>memchr (data, ':', GDB_BUF_MAX)\<close>: the first colon of the whole array.\<close>

definition colon_at :: "byte list \<Rightarrow> nat option" where
  "colon_at data = (let k = length (takeWhile (\<lambda>c. c \<noteq> 0x3a) data) in if k < length data then Some k else None)"

fun write_nibbles :: "'t dbg_ops \<Rightarrow> u32 \<Rightarrow> u32 \<Rightarrow> nat \<Rightarrow> u32 \<Rightarrow> byte list \<Rightarrow> 't gdb \<Rightarrow> bool \<times> 't gdb" where
  "write_nibbles D addr off nibc val [] s = (True, s)"
| "write_nibbles D addr off nibc val (c # cs) s =
     (let val1 = val OR (0x0000000f AND word_of_int (hex (sint c)))
      in if nibc mod 8 = 7
         then (let (e, s1) = gdb_write_block D (addr + off) (le_bytes val1) s;
                   s2 = s1\<lparr>err_of := e\<rparr>
               in if e \<noteq> 0 then (False, s2) else write_nibbles D addr (off + 4) (nibc + 1) 0 cs s2)
         else write_nibbles D addr off (nibc + 1) (push_bit 4 val1) cs s)"

definition rsp_write_mem :: "'t dbg_ops \<Rightarrow> 't gdb \<Rightarrow> 't gdb" where
  "rsp_write_mem D s =
     (case sscanf (buf_data (p_buf s)) (lits ''M'' @ [ScanX None] @ lits '','' @ [ScanX None] @ lits '':'') of
        [Num addr, Num l] \<Rightarrow>
          (case colon_at (buf_data (p_buf s)) of
             None \<Rightarrow> ub s
           | Some k \<Rightarrow>
               (let datlen = int (buf_len (p_buf s)) - int (k + 1)
                in if int_overflow (sint l * 2) then ub s
                   else if sint l * 2 \<noteq> datlen then put_str ''E01'' s
                   else (let (e, s1) = gdb_set_chain SC_WISHBONE s;
                             s2 = s1\<lparr>err_of := e\<rparr>
                         in if e \<noteq> 0 then put_str ''E01'' s2
                            else (case write_nibbles D addr 0 0 0
                                    (take (nat datlen) (drop (k + 1) (buf_data (p_buf s2)))) s2 of
                                    (False, s3) \<Rightarrow> put_str ''E01'' s3
                                  | (True, s3) \<Rightarrow> put_str ''OK'' s3))))
      | _ \<Rightarrow> put_str ''E01'' s)"

section \<open>Binary writes\<close>

text \<open>The byte loops of \<open>rsp_write_mem_bin\<close> do not stop at an error; \<open>err\<close> keeps the last result.\<close>

fun write_bytes :: "'t dbg_ops \<Rightarrow> u32 \<Rightarrow> byte list \<Rightarrow> 't gdb \<Rightarrow> 't gdb" where
  "write_bytes D addr [] s = s"
| "write_bytes D addr (b # bs) s =
     (let (e, s1) = gdb_write_byte D addr b s in write_bytes D (addr + 1) bs (s1\<lparr>err_of := e\<rparr>))"

definition write_span :: "'t dbg_ops \<Rightarrow> u32 \<Rightarrow> byte list \<Rightarrow> 't gdb \<Rightarrow> 't gdb" where
  "write_span D addr bs s =
     (let len = length bs;
          head = (if addr AND 3 \<noteq> 0 then min (4 - unat (addr AND 3)) len else 0);
          s1 = write_bytes D addr (take head bs) s;
          addr1 = addr + of_nat head;
          bs1 = drop head bs;
          words = length bs1 div 4 * 4;
          (bs2, addr2, s2) =
            (if length bs1 > 3 \<and> err_of s1 = 0
             then (let (e, s') = gdb_write_block D addr1 (take words bs1) s1
                   in (drop words bs1, addr1 + of_nat words, s'\<lparr>err_of := e\<rparr>))
             else (bs1, addr1, s1))
      in if bs2 \<noteq> [] \<and> err_of s2 = 0 then write_bytes D addr2 bs2 s2 else s2)"

text \<open>
  A negative length writes nothing and is acknowledged, as every loop over it is empty; the number of
  bytes is therefore \<open>nat\<close> of the length.
\<close>

definition rsp_write_mem_bin :: "'t dbg_ops \<Rightarrow> 't gdb \<Rightarrow> 't gdb" where
  "rsp_write_mem_bin D s =
     (case sscanf (buf_data (p_buf s)) (lits ''X'' @ [ScanX None] @ lits '','' @ [ScanX None] @ lits '':'') of
        [Num addr, Num l] \<Rightarrow>
          (case colon_at (take GDB_BUF_MAX (buf_data (p_buf s))) of
             None \<Rightarrow> put_str ''E01'' s
           | Some k \<Rightarrow>
               (if k + 1 \<ge> GDB_BUF_MAX then put_str ''E01'' s
                else (let data = buf_data (p_buf s);
                          (bindat, newlen) = rsp_unescape (drop (k + 1) data) (buf_len (p_buf s) - (k + 1));
                          s1 = s\<lparr>p_buf := (p_buf s)\<lparr>buf_data := take (k + 1) data @ bindat\<rparr>\<rparr>;
                          len = nat (min (sint l) (int newlen));
                          (e, s2) = gdb_set_chain SC_WISHBONE s1;
                          s3 = s2\<lparr>err_of := e\<rparr>
                      in if e \<noteq> 0 then put_str ''E01'' s3
                         else if len = 0 then put_str ''OK'' s3
                         else if swap_extent len > length bindat then ub s3
                         else (let bindat1 = swap_buf bindat len;
                                   s4 = s3\<lparr>p_buf := (p_buf s3)\<lparr>buf_data := take (k + 1) data @ bindat1\<rparr>\<rparr>;
                                   s5 = write_span D addr (take len bindat1) s4
                               in if err_of s5 \<noteq> 0 then put_str ''E01'' s5 else put_str ''OK'' s5))))
      | _ \<Rightarrow> put_str ''E01'' s)"

section \<open>The text of the requests\<close>

definition mem_request :: "string \<Rightarrow> u32 \<Rightarrow> nat \<Rightarrow> byte list" where
  "mem_request letter addr len = bytes letter @ xdigits (unat addr) @ bytes '','' @ xdigits len"

lemma scan_mem_request:
  assumes "cstr data = mem_request letter addr len @ rest" "ends_hex rest" "len < 2 ^ 31"
  shows "sscanf data (lits letter @ [ScanX None] @ lits '','' @ [ScanX None] @ lits '':'') = [Num addr, Num (of_nat len)]"
proof -
  have e: "ends_hex (0x2c # t)" for t
    by (simp add: ends_hex_def is_xdigit_def hex_def)
  have a: "unat addr < 2 ^ 64" using unsigned_less [of addr] by (rule less_trans) simp
  have l: "len < 2 ^ 64" using assms(3) by simp
  have "scan [Lit 0x3a] rest = []" by (cases rest) auto
  then show ?thesis
    using scan_hex [OF e a] scan_hex [OF assms(2) l]
    by (simp add: sscanf_def assms(1) mem_request_def scan_lits)
qed

lemma mem_request_no_nul: "0 \<notin> set (bytes letter) \<Longrightarrow> 0 \<notin> set (mem_request letter addr len)"
  using xdigits_no_nul by (simp add: mem_request_def)

lemma mem_request_no_colon: "0x3a \<notin> set (bytes letter) \<Longrightarrow> 0x3a \<notin> set (mem_request letter addr len)"
  using xdigits_all [of "0x3a"] by (auto simp: mem_request_def is_xdigit_def hex_def)

lemma sint_of_nat: "len < 2 ^ 31 \<Longrightarrow> sint (of_nat len :: u32) = int len"
  by (simp add: signed_of_nat signed_take_bit_int_eq_self)

lemma hex_pairs_Nil [simp]: "hex_pairs [] = []"
  and hex_pairs_Cons [simp]: "hex_pairs (b # bs) = hexdigit (drop_bit 4 b) # hexdigit b # hex_pairs bs"
  by (simp_all add: hex_pairs_def)

lemma hex_pairs_append: "hex_pairs (xs @ ys) = hex_pairs xs @ hex_pairs ys"
  by (simp add: hex_pairs_def)

lemma length_hex_pairs [simp]: "length (hex_pairs bs) = 2 * length bs"
  by (induction bs) simp_all

lemma hex_pairs_no_nul: "0 \<notin> set (hex_pairs bs)"
proof (induction bs)
  case (Cons b bs)
  have "0 \<noteq> hexchars ! n" if "n < 16" for n
    using is_xdigit_hexchars [OF that] by (auto simp: is_xdigit_def hex_def)
  from this [OF nibble_less [of "drop_bit 4 b"]] this [OF nibble_less [of b]] Cons show ?case
    by (simp only: hex_pairs_Cons list.set insert_iff) blast
qed simp

lemma reply_bytes_sent:
  assumes "length (buf_data (p_buf s)) = GDB_BUF_MAX" "length bs \<le> 140"
  shows "client (reply_bytes bs s) = put_packet (hex_pairs bs) (client s) \<and> tgt (reply_bytes bs s) = tgt s
     \<and> fault (reply_bytes bs s) = fault s \<and> mp_table_of (reply_bytes bs s) = mp_table_of s"
proof -
  have b: "in_bounds 0 (hex_pairs bs @ [0]) (buf_data (p_buf s))"
    using assms by (simp add: in_bounds_def)
  have d: "overwrite 0 (hex_pairs bs @ [0]) (buf_data (p_buf s)) = hex_pairs bs @ 0 # drop (2 * length bs + 1) (buf_data (p_buf s))"
    by (simp add: overwrite_def)
  have "strlen_buf (overwrite 0 (hex_pairs bs @ [0]) (buf_data (p_buf s))) = 2 * length bs"
    using hex_pairs_no_nul [of bs] by (simp add: d strlen_buf_def)
  with b show ?thesis by (simp add: reply_bytes_def d Let_def)
qed

lemma reply_bytes_fault:
  assumes "length (buf_data (p_buf s)) = GDB_BUF_MAX" "140 < length bs"
  shows "fault (reply_bytes bs s)"
  using assms by (simp add: reply_bytes_def in_bounds_def ub_def)

section \<open>Alignment\<close>

lemma aligned_iff: "(x :: u32) AND 3 = 0 \<longleftrightarrow> unat x mod 4 = 0"
  unfolding unat_and_3 [symmetric] by (rule unsigned_eq_0_iff [symmetric])

lemma unat_add_mod4: "unat ((a :: u32) + of_nat n) mod 4 = (unat a + n) mod 4"
proof -
  have "unat (a + of_nat n) = (unat a + n) mod 2 ^ 32"
    by (simp add: unat_word_ariths(1) unsigned_of_nat take_bit_eq_mod mod_simps)
  then have "unat (a + of_nat n) mod 4 = (unat a + n) mod 2 ^ 32 mod 4" by simp
  also have "\<dots> = (unat a + n) mod 4" by (rule mod_mod_cancel) simp
  finally show ?thesis .
qed

lemma aligned_add: "a AND 3 = 0 \<Longrightarrow> n mod 4 = 0 \<Longrightarrow> ((a :: u32) + of_nat n) AND 3 = 0"
  unfolding aligned_iff unat_add_mod4 by (simp add: mod_add_eq [symmetric])

lemma aligned_head: "((a :: u32) + of_nat (4 - unat (a AND 3))) AND 3 = 0"
proof -
  have "(m + (4 - m mod 4)) mod 4 = 0" for m :: nat by presburger
  then show ?thesis unfolding aligned_iff unat_add_mod4 unat_and_3 .
qed

section \<open>Reading on a target that keeps its contract\<close>

text \<open>The parts of a span: bytes to the word boundary, whole words, bytes after them.\<close>

definition span_head :: "u32 \<Rightarrow> nat \<Rightarrow> nat" where
  "span_head addr len = (if addr AND 3 \<noteq> 0 then min (4 - unat (addr AND 3)) len else 0)"

definition span_words :: "u32 \<Rightarrow> nat \<Rightarrow> nat" where
  "span_words addr len = (len - span_head addr len) div 4 * 4"

definition span_bytes :: "(u32 \<Rightarrow> byte) \<Rightarrow> u32 \<Rightarrow> nat \<Rightarrow> byte list" where
  "span_bytes m addr len =
     (let h = span_head addr len; w = span_words addr len
      in mem_range m addr h @ swap4 (mem_range m (addr + of_nat h) w)
         @ mem_range m (addr + of_nat h + of_nat w) (len - h - w))"

lemma span_head_le: "span_head addr len \<le> len"
  by (simp add: span_head_def)

lemma span_head_eq: "span_head addr len = min ((4 - unat (addr AND 3)) mod 4) len"
proof (cases "addr AND 3 = 0")
  case False
  then have "0 < unat (addr AND 3)" by (simp add: unat_gt_0)
  with False show ?thesis by (simp add: span_head_def)
qed (simp add: span_head_def)

lemma span_words_le: "span_head addr len + span_words addr len \<le> len" "span_words addr len mod 4 = 0"
  "len - span_head addr len - span_words addr len < 4"
  using span_head_le [of addr len] by (simp_all add: span_words_def)

lemma span_aligned: "span_words addr len \<noteq> 0 \<Longrightarrow> (addr + of_nat (span_head addr len)) AND 3 = 0"
  using aligned_head [of addr] by (auto simp: span_words_def span_head_def min_def split: if_splits)

lemma length_span_bytes [simp]: "length (span_bytes m addr len) = len"
  using span_words_le(1) [where addr = addr and len = len] by (simp add: span_bytes_def Let_def)

text \<open>The block in the middle comes with every word reversed.\<close>

lemma span_bytes_split:
  obtains xs ys zs where "xs @ ys @ zs = mem_range m addr len" "span_bytes m addr len = xs @ swap4 ys @ zs"
    "length xs = span_head addr len" "length ys mod 4 = 0" "length zs < 4"
proof -
  let ?h = "span_head addr len" and ?w = "span_words addr len"
  let ?l = "len - ?h - ?w"
  have n: "len = ?h + (?w + ?l)" using span_words_le(1) [where addr = addr and len = len] by simp
  have "mem_range m addr (?h + (?w + ?l)) = mem_range m addr ?h @ mem_range m (addr + of_nat ?h) ?w
      @ mem_range m (addr + of_nat ?h + of_nat ?w) ?l"
    by (simp only: mem_range_add)
  then have m: "mem_range m addr ?h @ mem_range m (addr + of_nat ?h) ?w
      @ mem_range m (addr + of_nat ?h + of_nat ?w) ?l = mem_range m addr len"
    using n by simp
  show ?thesis
    by (rule that [OF m]) (use span_words_le(2,3) in \<open>simp_all add: span_bytes_def Let_def\<close>)
qed

context dbg_target
begin

lemma read_bytes_effect:
  assumes "ok (tgt s)" "tv_stalled (view (tgt s))" "gdb_chain s = Some SC_WISHBONE" "err_of s = 0"
  shows "\<exists>t'. read_bytes D addr n s = (Some (mem_range (tv_mem (view (tgt s))) addr n), s\<lparr>tgt := t'\<rparr>)
     \<and> view t' = view (tgt s) \<and> ok t'"
  using assms
proof (induction n arbitrary: addr s)
  case 0
  then show ?case by (intro exI [of _ "tgt s"]) simp
next
  case (Suc n)
  obtain t1 where t1: "op_wb_read8 D addr (tgt s) = (0, tv_mem (view (tgt s)) addr, t1)" "view t1 = view (tgt s)" "ok t1"
    using wb_read8 [OF Suc.prems(1,2)] by blast
  have s1: "s\<lparr>tgt := t1, err_of := 0\<rparr> = s\<lparr>tgt := t1\<rparr>" using Suc.prems(4) by (cases s) simp
  obtain t2 where t2: "read_bytes D (addr + 1) n (s\<lparr>tgt := t1\<rparr>) =
      (Some (mem_range (tv_mem (view (tgt s))) (addr + 1) n), s\<lparr>tgt := t2\<rparr>)" "view t2 = view (tgt s)" "ok t2"
    using Suc.IH [of "s\<lparr>tgt := t1\<rparr>" "addr + 1"] Suc.prems t1 by auto
  have "read_bytes D addr (Suc n) s = (Some (mem_range (tv_mem (view (tgt s))) addr (Suc n)), s\<lparr>tgt := t2\<rparr>)"
    using Suc.prems t1(1) t2(1) by (simp add: gdb_read_byte_def mem_range_Suc s1)
  with t2 show ?case by blast
qed

lemma read_span_effect:
  assumes "ok (tgt s)" "tv_stalled (view (tgt s))" "gdb_chain s = Some SC_WISHBONE" "err_of s = 0" "len \<le> 16384"
  shows "\<exists>t'. read_span D addr len s = (Some (span_bytes (tv_mem (view (tgt s))) addr len), s\<lparr>tgt := t'\<rparr>)
     \<and> view t' = view (tgt s) \<and> ok t'"
proof -
  let ?m = "tv_mem (view (tgt s))"
  define h where "h = span_head addr len"
  define w where "w = span_words addr len"
  note wle = span_words_le [where addr = addr and len = len, folded h_def w_def]
  obtain t1 where t1: "read_bytes D addr h s = (Some (mem_range ?m addr h), s\<lparr>tgt := t1\<rparr>)" "view t1 = view (tgt s)" "ok t1"
    using read_bytes_effect [OF assms(1-4)] by blast
  obtain t2 where t2: "(if w \<noteq> 0 then (let (e, bs, s') = gdb_read_block D (addr + of_nat h) w (replicate w (ucast (garbage s))) (s\<lparr>tgt := t1\<rparr>)
             in (e, bs, s'\<lparr>err_of := e\<rparr>)) else (0, [], s\<lparr>tgt := t1\<rparr>))
      = (0, swap4 (mem_range ?m (addr + of_nat h) w), s\<lparr>tgt := t2\<rparr>)" "view t2 = view (tgt s)" "ok t2"
  proof (cases "w = 0")
    case True
    then show ?thesis using that [of t1] t1 by simp
  next
    case False
    then have a: "(addr + of_nat h) AND 3 = 0" "block_ok w"
      using span_aligned [of addr len] wle(1,2) assms(5) by (simp_all add: h_def w_def block_ok_def)
    obtain t' where "gdb_read_block D (addr + of_nat h) w (replicate w (ucast (garbage s))) (s\<lparr>tgt := t1\<rparr>) =
        (0, swap4 (mem_range ?m (addr + of_nat h) w), s\<lparr>tgt := t'\<rparr>)" "view t' = view (tgt s)" "ok t'"
      using read_mem_block [of "s\<lparr>tgt := t1\<rparr>" "addr + of_nat h" w] t1 a assms(2,3) by auto
    moreover have "s\<lparr>tgt := t', err_of := 0\<rparr> = s\<lparr>tgt := t'\<rparr>" using assms(4) by (cases s) simp
    ultimately show ?thesis using that [of t'] False by simp
  qed
  obtain t3 where t3: "read_bytes D (addr + of_nat h + of_nat w) (len - h - w) (s\<lparr>tgt := t2\<rparr>) =
      (Some (mem_range ?m (addr + of_nat h + of_nat w) (len - h - w)), s\<lparr>tgt := t3\<rparr>)" "view t3 = view (tgt s)" "ok t3"
    using read_bytes_effect [of "s\<lparr>tgt := t2\<rparr>" "addr + of_nat h + of_nat w" "len - h - w"] t2 assms by auto
  have hw: "h = (if addr AND 3 \<noteq> 0 then min (4 - unat (addr AND 3)) len else 0)" "w = (len - h) div 4 * 4"
    by (simp_all add: h_def w_def span_head_def span_words_def)
  have sb: "span_bytes ?m addr len = mem_range ?m addr h @ swap4 (mem_range ?m (addr + of_nat h) w)
      @ mem_range ?m (addr + of_nat h + of_nat w) (len - h - w)"
    by (simp add: span_bytes_def h_def w_def Let_def)
  have g: "garbage (s\<lparr>tgt := t1\<rparr>) = garbage s" by simp
  have "read_span D addr len s = (Some (span_bytes ?m addr len), s\<lparr>tgt := t3\<rparr>)"
    by (simp only: read_span_def hw(1) [symmetric] Let_def t1(1) prod.case option.case hw(2) [symmetric] g
        t2(1) [unfolded Let_def] t3(1) sb simp_thms if_False)
  with t3 show ?thesis by blast
qed

end

context dbg_target
begin

lemma read_mem_effect:
  assumes "in_control view ok s" "cstr (buf_data (p_buf s)) = mem_request ''m'' addr len" "len \<le> 280"
  shows "\<exists>t'. rsp_read_mem D s =
       reply_bytes (span_bytes (tv_mem (view (tgt s))) addr len) (s\<lparr>gdb_chain := Some SC_WISHBONE, err_of := 0, tgt := t'\<rparr>)
     \<and> view t' = view (tgt s) \<and> ok t'"
proof -
  have args: "sscanf (buf_data (p_buf s)) (lits ''m'' @ [ScanX None] @ lits '','' @ [ScanX None] @ lits '':'') =
      [Num addr, Num (of_nat len)]"
    using scan_mem_request [of "buf_data (p_buf s)" "''m''" addr len "[]"] assms(2,3) by (simp add: ends_hex_def)
  have l: "sint (of_nat len :: u32) = int len" using assms(3) by (simp add: sint_of_nat)
  obtain t' where t': "read_span D addr len (s\<lparr>gdb_chain := Some SC_WISHBONE, err_of := 0\<rparr>) =
      (Some (span_bytes (tv_mem (view (tgt s))) addr len), s\<lparr>gdb_chain := Some SC_WISHBONE, err_of := 0, tgt := t'\<rparr>)"
      "view t' = view (tgt s)" "ok t'"
    using read_span_effect [of "s\<lparr>gdb_chain := Some SC_WISHBONE, err_of := 0\<rparr>" len addr] assms(1,3)
    by (auto simp: in_control_def)
  have "rsp_read_mem D s =
       reply_bytes (span_bytes (tv_mem (view (tgt s))) addr len) (s\<lparr>gdb_chain := Some SC_WISHBONE, err_of := 0, tgt := t'\<rparr>)"
    using args t'(1) assms(3) by (simp add: rsp_read_mem_def l int_overflow_def)
  with t' show ?thesis by blast
qed

end

section \<open>Writing on a target that keeps its contract\<close>

lemma mem_store_upd:
  "\<forall>i < length bs. x \<noteq> a + of_nat i \<Longrightarrow> mem_store a bs (m(x := b)) = (mem_store a bs m)(x := b)"
proof (induction bs arbitrary: a)
  case (Cons c bs)
  have "\<forall>i < length bs. x \<noteq> a + 1 + of_nat i"
    using Cons.prems by (auto simp: ac_simps dest: spec [of _ "Suc _"])
  moreover have "x \<noteq> a" using Cons.prems by (auto dest: spec [of _ 0])
  ultimately show ?case using Cons.IH [of "a + 1"] by (simp add: fun_upd_twist del: fun_upd_apply)
qed simp

lemma no_wrap: "0 < k \<Longrightarrow> k < 2 ^ 32 \<Longrightarrow> (a :: u32) \<noteq> a + of_nat k"
proof
  assume k: "0 < k" "k < 2 ^ 32" and "a = a + of_nat k"
  then have "of_nat k = (0 :: u32)" by simp
  moreover have "unat (of_nat k :: u32) = k" using k by (simp add: unsigned_of_nat take_bit_nat_eq_self)
  ultimately show False using k by simp
qed

text \<open>Two adjacent stores are one.\<close>

lemma mem_store_then:
  "length xs + length ys \<le> 2 ^ 32 \<Longrightarrow>
   mem_store (a + of_nat (length xs)) ys (mem_store a xs m) = mem_store a (xs @ ys) m"
proof (induction xs arbitrary: a)
  case (Cons x xs)
  have "a \<noteq> a + (of_nat (Suc (length xs + i)))" if "i < length ys" for i
    by (rule no_wrap) (use that Cons.prems in simp_all)
  then have "\<forall>i < length ys. a \<noteq> (a + 1 + of_nat (length xs)) + of_nat i"
    by (simp add: ac_simps)
  from mem_store_upd [OF this, of "mem_store (a + 1) xs m" x] Cons.IH [of "a + 1"] Cons.prems show ?case
    by (simp add: ac_simps del: fun_upd_apply)
qed simp

text \<open>The digits of the \<open>M\<close> request, two for a byte, most significant first.\<close>

lemma and_15: "(w :: 'a :: len word) AND 15 = take_bit 4 w"
  by (simp add: take_bit_eq_mask mask_eq_exp_minus_1)

lemma digit_value: "0x0000000f AND word_of_int (hex (sint (hexdigit (b :: byte)))) = take_bit 4 (ucast b :: u32)"
proof -
  define n where "n = unat (b AND 15)"
  have n: "n < 16" unfolding n_def by (rule nibble_less)
  have "0x0000000f AND word_of_int (hex (sint (hexchars ! n))) = (of_nat n :: u32)"
    unfolding hex_hexchars [OF n] using n by (cases rule: less_16_cases) simp_all
  moreover have "(of_nat n :: u32) = take_bit 4 (ucast b)"
    unfolding n_def and_15 by (rule bit_word_eqI) (auto simp: bit_ucast_iff bit_take_bit_iff)
  ultimately show ?thesis unfolding n_def by (simp only:)
qed

lemma byte_nibbles:
  "push_bit 4 (push_bit 4 x OR take_bit 4 (ucast (drop_bit 4 (b :: byte)))) OR take_bit 4 (ucast b) = push_bit 8 x OR (ucast b :: u32)"
proof (rule bit_word_eqI)
  fix n assume n: "n < LENGTH(32)"
  consider "n < 4" | "4 \<le> n" "n < 8" | "8 \<le> n" by linarith
  then show "bit (push_bit 4 (push_bit 4 x OR take_bit 4 (ucast (drop_bit 4 b))) OR take_bit 4 (ucast b)) n =
      bit (push_bit 8 x OR (ucast b :: u32)) n"
    using n by cases
      (auto simp: bit_or_iff bit_push_bit_iff bit_ucast_iff bit_take_bit_iff bit_drop_bit_eq byte_bit_beyond)
qed

lemma write_nibbles_byte:
  assumes "nibc mod 8 \<in> {0, 2, 4}"
  shows "write_nibbles D addr off nibc (push_bit 4 x) (hexdigit (drop_bit 4 b) # hexdigit b # cs) s =
     write_nibbles D addr off (nibc + 1 + 1) (push_bit 4 (push_bit 8 x OR ucast (b :: byte))) cs s"
proof -
  have "(nibc mod 8 = 7) = False" "((nibc + 1) mod 8 = 7) = False"
    using assms by (auto simp: mod_Suc)
  then show ?thesis
    by (simp only: write_nibbles.simps Let_def if_False digit_value byte_nibbles)
qed

lemma write_nibbles_last:
  assumes "nibc mod 8 = 6"
  shows "write_nibbles D addr off nibc (push_bit 4 x) (hexdigit (drop_bit 4 b) # hexdigit b # cs) s =
     (let (e, s1) = gdb_write_block D (addr + off) (le_bytes (push_bit 8 x OR ucast (b :: byte))) s;
          s2 = s1\<lparr>err_of := e\<rparr>
      in if e \<noteq> 0 then (False, s2) else write_nibbles D addr (off + 4) (nibc + 1 + 1) 0 cs s2)"
proof -
  have "(nibc mod 8 = 7) = False" "((nibc + 1) mod 8 = 7) = True"
    using assms by (auto simp: mod_Suc)
  then show ?thesis
    by (simp only: write_nibbles.simps Let_def if_False if_True digit_value byte_nibbles)
qed

lemma write_nibbles_word:
  assumes "nibc mod 8 = 0"
  shows "write_nibbles D addr off nibc 0 (hex_pairs (a # b # c # d # bs)) s =
     (let (e, s1) = gdb_write_block D (addr + off) [d, c, b, a] s; s2 = s1\<lparr>err_of := e\<rparr>
      in if e \<noteq> 0 then (False, s2) else write_nibbles D addr (off + 4) (nibc + 8) 0 (hex_pairs bs) s2)"
proof -
  have m: "nibc mod 8 \<in> {0, 2, 4}" "(nibc + 1 + 1) mod 8 \<in> {0, 2, 4}" "(nibc + 1 + 1 + 1 + 1) mod 8 \<in> {0, 2, 4}"
    "(nibc + 1 + 1 + 1 + 1 + 1 + 1) mod 8 = 6"
    using assms by (auto simp: mod_Suc)
  let ?w = "push_bit 8 (push_bit 8 (push_bit 8 (push_bit 8 0 OR ucast a) OR ucast b) OR ucast c) OR ucast d :: u32"
  have "?w = le_word [d, c, b, a]"
    by (simp add: or.commute push_bit_or)
  then have w: "le_bytes ?w = [d, c, b, a]"
    by (simp only: le_bytes_le_word)
  have n: "nibc + 1 + 1 + 1 + 1 + 1 + 1 + 1 + 1 = nibc + 8" by simp
  have "write_nibbles D addr off nibc 0 (hex_pairs (a # b # c # d # bs)) s =
      write_nibbles D addr off nibc (push_bit 4 0) (hex_pairs (a # b # c # d # bs)) s" by simp
  also have "\<dots> = (let (e, s1) = gdb_write_block D (addr + off) (le_bytes ?w) s; s2 = s1\<lparr>err_of := e\<rparr>
      in if e \<noteq> 0 then (False, s2) else write_nibbles D addr (off + 4) (nibc + 8) 0 (hex_pairs bs) s2)"
    by (simp only: hex_pairs_Cons write_nibbles_byte [OF m(1)] write_nibbles_byte [OF m(2)] write_nibbles_byte [OF m(3)]
        write_nibbles_last [OF m(4)] n)
  finally show ?thesis unfolding w .
qed

lemma write_nibbles_rest:
  "nibc mod 8 + length cs < 8 \<Longrightarrow> write_nibbles D addr off nibc val cs s = (True, s)"
proof (induction cs arbitrary: nibc val)
  case (Cons c cs)
  then have "nibc mod 8 \<noteq> 7" "(nibc + 1) mod 8 + length cs < 8"
    by (auto simp: mod_Suc)
  with Cons.IH show ?case by simp
qed simp

lemma buffer_of_cstr: "cstr data = msg \<Longrightarrow> \<exists>rest. data = msg @ rest"
  unfolding cstr_def using takeWhile_dropWhile_id by metis

text \<open>The header of a write request and the data behind its colon.\<close>

lemma colon_at_request:
  assumes "0x3a \<notin> set hdr"
  shows "colon_at (hdr @ 0x3a # rest) = Some (length hdr)"
  using assms by (auto simp: colon_at_def Let_def takeWhile_append)

context dbg_target
begin

lemma write_nibbles_short:
  assumes "ok (tgt s)" "nibc mod 8 = 0" "length bs < 4"
  shows "\<exists>t'. write_nibbles D addr off nibc 0 (hex_pairs bs) s = (True, s\<lparr>tgt := t'\<rparr>)
     \<and> view t' = (view (tgt s))\<lparr>tv_mem := mem_store (addr + off) (take (length bs div 4 * 4) bs) (tv_mem (view (tgt s)))\<rparr> \<and> ok t'"
  using assms by (intro exI [of _ "tgt s"]) (simp add: write_nibbles_rest)

lemma write_nibbles_effect:
  assumes "ok (tgt s)" "tv_stalled (view (tgt s))" "gdb_chain s = Some SC_WISHBONE" "err_of s = 0"
    and "(addr + off) AND 3 = 0" "nibc mod 8 = 0" "length bs \<le> 16384"
  shows "\<exists>t'. write_nibbles D addr off nibc 0 (hex_pairs bs) s = (True, s\<lparr>tgt := t'\<rparr>)
     \<and> view t' = (view (tgt s))\<lparr>tv_mem := mem_store (addr + off) (take (length bs div 4 * 4) bs) (tv_mem (view (tgt s)))\<rparr> \<and> ok t'"
  using assms
proof (induction bs arbitrary: off nibc s rule: swap4.induct)
  case (1 a b c d bs)
  let ?m = "tv_mem (view (tgt s))"
  define m1 where "m1 = mem_store (addr + off) [a, b, c, d] ?m"
  obtain t1 where t1: "gdb_write_block D (addr + off) [d, c, b, a] s = (0, s\<lparr>tgt := t1\<rparr>)"
    "view t1 = (view (tgt s))\<lparr>tv_mem := m1\<rparr>" "ok t1"
    using write_mem_block [OF "1.prems"(1-3,5), of "[d, c, b, a]"] unfolding m1_def by (auto simp: block_ok_def)
  have e: "s\<lparr>tgt := t1, err_of := 0\<rparr> = s\<lparr>tgt := t1\<rparr>" using "1.prems"(4) by (cases s) simp
  have a: "addr + (off + 4) = (addr + off) + of_nat 4" by simp
  have "(addr + (off + 4)) AND 3 = 0"
    unfolding a by (rule aligned_add [OF "1.prems"(5)]) simp
  moreover have "(nibc + 8) mod 8 = 0" using "1.prems"(6) by simp
  ultimately have "\<exists>t'. write_nibbles D addr (off + 4) (nibc + 8) 0 (hex_pairs bs) (s\<lparr>tgt := t1\<rparr>) = (True, s\<lparr>tgt := t1, tgt := t'\<rparr>)
      \<and> view t' = (view (tgt (s\<lparr>tgt := t1\<rparr>)))\<lparr>tv_mem := mem_store (addr + (off + 4)) (take (length bs div 4 * 4) bs)
            (tv_mem (view (tgt (s\<lparr>tgt := t1\<rparr>))))\<rparr> \<and> ok t'"
    by (intro "1.IH") (use "1.prems" t1 in simp_all)
  then obtain t2 where t2: "write_nibbles D addr (off + 4) (nibc + 8) 0 (hex_pairs bs) (s\<lparr>tgt := t1\<rparr>) = (True, s\<lparr>tgt := t2\<rparr>)"
    "view t2 = (view (tgt s))\<lparr>tv_mem := mem_store (addr + (off + 4)) (take (length bs div 4 * 4) bs) m1\<rparr>" "ok t2"
    using t1(2) by auto
  have "mem_store (addr + (off + 4)) (take (length bs div 4 * 4) bs) m1
      = mem_store (addr + off) (take (length (a # b # c # d # bs) div 4 * 4) (a # b # c # d # bs)) ?m"
  proof -
    let ?ws = "take (length bs div 4 * 4) bs"
    have "length ?ws \<le> 16384" using "1.prems"(7) by (simp add: min_def)
    then have "mem_store ((addr + off) + of_nat (length [a, b, c, d])) ?ws m1 = mem_store (addr + off) ([a, b, c, d] @ ?ws) ?m"
      unfolding m1_def by (intro mem_store_then) simp
    moreover have "take (length (a # b # c # d # bs) div 4 * 4) (a # b # c # d # bs) = [a, b, c, d] @ ?ws"
    proof -
      have "(4 + n) div 4 * 4 = 4 + n div 4 * 4" for n :: nat by presburger
      then have "length (a # b # c # d # bs) div 4 * 4 = 4 + length bs div 4 * 4" by simp
      moreover have "take (4 + n) (a # b # c # d # bs) = [a, b, c, d] @ take n bs" for n
        using take_append [of "4 + n" "[a, b, c, d]" bs] by simp
      ultimately show ?thesis by (simp only:)
    qed
    ultimately show ?thesis by (simp add: a del: mem_store.simps)
  qed
  moreover have "write_nibbles D addr off nibc 0 (hex_pairs (a # b # c # d # bs)) s = (True, s\<lparr>tgt := t2\<rparr>)"
    unfolding write_nibbles_word [OF "1.prems"(6)] using t1(1) t2(1) by (simp add: e)
  ultimately show ?case using t2(2,3) by auto
qed (rule write_nibbles_short; simp)+

end


context dbg_target
begin

lemma write_mem_effect:
  assumes "in_control view ok s" "addr AND 3 = 0" "length bs < 140"
    and "cstr (buf_data (p_buf s)) = mem_request ''M'' addr (length bs) @ 0x3a # hex_pairs bs"
    and "buf_len (p_buf s) = length (mem_request ''M'' addr (length bs) @ 0x3a # hex_pairs bs)"
  shows "\<exists>t'. rsp_write_mem D s = put_str ''OK'' (s\<lparr>gdb_chain := Some SC_WISHBONE, err_of := 0, tgt := t'\<rparr>)
     \<and> view t' = (view (tgt s))\<lparr>tv_mem := mem_store addr (take (length bs div 4 * 4) bs) (tv_mem (view (tgt s)))\<rparr> \<and> ok t'"
proof -
  let ?hdr = "mem_request ''M'' addr (length bs)" and ?s = "s\<lparr>gdb_chain := Some SC_WISHBONE, err_of := 0\<rparr>"
  have "ends_hex (0x3a # hex_pairs bs)" by (simp add: ends_hex_def is_xdigit_def hex_def)
  then have args: "sscanf (buf_data (p_buf s)) (lits ''M'' @ [ScanX None] @ lits '','' @ [ScanX None] @ lits '':'') =
      [Num addr, Num (of_nat (length bs))]"
    using scan_mem_request [OF assms(4)] assms(3) by simp
  have l: "sint (of_nat (length bs) :: u32) = int (length bs)" using assms(3) by (simp add: sint_of_nat)
  obtain rest where d: "buf_data (p_buf s) = ?hdr @ 0x3a # hex_pairs bs @ rest"
    using buffer_of_cstr [OF assms(4)] by auto
  have k: "colon_at (buf_data (p_buf s)) = Some (length ?hdr)"
    unfolding d by (rule colon_at_request) (rule mem_request_no_colon, simp)
  have dat: "take (2 * length bs) (drop (Suc (length ?hdr)) (buf_data (p_buf s))) = hex_pairs bs"
    unfolding d by simp
  have len: "buf_len (p_buf s) = length ?hdr + 1 + 2 * length bs"
    using assms(5) by simp
  obtain t' where t': "write_nibbles D addr 0 0 0 (hex_pairs bs) ?s = (True, ?s\<lparr>tgt := t'\<rparr>)"
    "view t' = (view (tgt s))\<lparr>tv_mem := mem_store addr (take (length bs div 4 * 4) bs) (tv_mem (view (tgt s)))\<rparr>" "ok t'"
    using write_nibbles_effect [of ?s addr 0 0 bs] assms(1,2,3) by (auto simp: in_control_def)
  have "rsp_write_mem D s = put_str ''OK'' (?s\<lparr>tgt := t'\<rparr>)"
    using args k t'(1) dat assms(3) by (simp add: rsp_write_mem_def l len int_overflow_def nat_mult_distrib)
  with t' show ?thesis by auto
qed

end

section \<open>Binary writes of whole words\<close>

lemma cstr_append: "0 \<notin> set xs \<Longrightarrow> cstr (xs @ ys) = xs @ cstr ys"
  by (induction xs) (simp_all add: cstr_def)

lemma whole_words: "n mod 4 = 0 \<Longrightarrow> 0 < n \<Longrightarrow> 3 < (n :: nat)"
  by presburger

lemma swap_extent_words: "n mod 4 = 0 \<Longrightarrow> 0 < n \<Longrightarrow> swap_extent n = n"
  by (auto simp: swap_extent_def elim!: dvdE simp flip: dvd_eq_mod_eq_0)

lemma swap_buf_words:
  assumes "length bs mod 4 = 0" "bs \<noteq> []"
  shows "take (length bs) (swap_buf (bs @ rest) (length bs)) = swap4 bs"
proof -
  have "2 < length bs" using assms whole_words [of "length bs"] by simp
  with assms show ?thesis
    using swap_buf_groups [of "length bs" "bs @ rest"] by (simp add: swap_extent_words)
qed

context dbg_target
begin

lemma write_span_words:
  assumes "ok (tgt s)" "tv_stalled (view (tgt s))" "gdb_chain s = Some SC_WISHBONE" "err_of s = 0"
    and "addr AND 3 = 0" "block_ok (length bs)"
  shows "\<exists>t'. write_span D addr bs s = s\<lparr>tgt := t'\<rparr>
     \<and> view t' = (view (tgt s))\<lparr>tv_mem := mem_store addr (swap4 bs) (tv_mem (view (tgt s)))\<rparr> \<and> ok t'"
proof -
  obtain t' where t': "gdb_write_block D addr bs s = (0, s\<lparr>tgt := t'\<rparr>)"
    "view t' = (view (tgt s))\<lparr>tv_mem := mem_store addr (swap4 bs) (tv_mem (view (tgt s)))\<rparr>" "ok t'"
    using write_mem_block [OF assms(1-3,5,6)] by blast
  have n: "length bs div 4 * 4 = length bs" "3 < length bs"
    using assms(6) whole_words [of "length bs"] by (auto simp: block_ok_def)
  have e: "s\<lparr>tgt := t', err_of := 0\<rparr> = s\<lparr>tgt := t'\<rparr>" using assms(4) by (cases s) simp
  have "write_span D addr bs s = s\<lparr>tgt := t'\<rparr>"
    using assms(4,5) t'(1) n by (simp add: write_span_def Let_def e)
  with t' show ?thesis by blast
qed

lemma write_mem_bin_effect:
  assumes "in_control view ok s" "addr AND 3 = 0" "block_ok (length bs)" "length bs < GDB_BUF_MAX"
    and "buf_data (p_buf s) = mem_request ''X'' addr (length bs) @ 0x3a # escape bs @ rest"
    and "length (buf_data (p_buf s)) = GDB_BUF_MAX" "rest \<noteq> []"
    and "buf_len (p_buf s) = length (mem_request ''X'' addr (length bs)) + 1 + length (escape bs)"
    and "rsp_write_mem_bin D s = s'"
  shows "in_control view ok s' \<and> client s' = put_str_packet (bytes ''OK'') (client s) \<and> fault s' = fault s
     \<and> view (tgt s') = (view (tgt s))\<lparr>tv_mem := mem_store addr bs (tv_mem (view (tgt s)))\<rparr>"
proof -
  let ?hdr = "mem_request ''X'' addr (length bs)" and ?d = "buf_data (p_buf s)"
  let ?k = "length ?hdr"
  have n4: "length bs mod 4 = 0" "0 < length bs" using assms(3) by (simp_all add: block_ok_def)
  have "cstr ?d = ?hdr @ 0x3a # cstr (escape bs @ rest)"
    using cstr_append [of "?hdr @ [0x3a]" "escape bs @ rest"] mem_request_no_nul [of "''X''"] by (simp add: assms(5))
  moreover have "ends_hex (0x3a # cstr (escape bs @ rest))" by (simp add: ends_hex_def is_xdigit_def hex_def)
  ultimately have args: "sscanf ?d (lits ''X'' @ [ScanX None] @ lits '','' @ [ScanX None] @ lits '':'') =
      [Num addr, Num (of_nat (length bs))]"
    using scan_mem_request [of ?d "''X''" addr "length bs"] assms(4) by simp
  have l: "sint (of_nat (length bs) :: u32) = int (length bs)" using assms(4) by (simp add: sint_of_nat)
  have k: "colon_at (take GDB_BUF_MAX ?d) = Some ?k"
    using colon_at_request [of ?hdr "escape bs @ rest"] mem_request_no_colon [of "''X''"] assms(6) by (simp add: assms(5))
  have k2: "Suc ?k < GDB_BUF_MAX" using assms(6,7) by (cases rest) (simp_all add: assms(5))
  obtain data' n where u: "rsp_unescape (escape bs @ rest) (length (escape bs)) = (data', n)"
    by (cases "rsp_unescape (escape bs @ rest) (length (escape bs))")
  have "complete_escape (take (length (escape bs)) (escape bs @ rest))" by (simp add: complete_escape_escape)
  from rsp_unescape_correct [OF _ this u] have un: "n = length bs" "take n data' = bs" "length data' = length (escape bs @ rest)"
    by (simp_all add: unescape_escape)
  obtain rest' where data': "data' = bs @ rest'" using un(1,2) by (metis append_take_drop_id)
  let ?sw = "swap_buf data' (length bs)"
  let ?s4 = "s\<lparr>gdb_chain := Some SC_WISHBONE, err_of := 0, p_buf := (p_buf s)\<lparr>buf_data := take (Suc ?k) ?d @ ?sw\<rparr>\<rparr>"
  have dat: "drop (Suc ?k) ?d = escape bs @ rest" by (simp add: assms(5))
  have tk: "take (length bs) ?sw = swap4 bs" using swap_buf_words [of bs rest'] n4 by (simp add: data')
  obtain t' where t': "write_span D addr (swap4 bs) ?s4 = ?s4\<lparr>tgt := t'\<rparr>"
    "view t' = (view (tgt s))\<lparr>tv_mem := mem_store addr (swap4 (swap4 bs)) (tv_mem (view (tgt s)))\<rparr>" "ok t'"
    using write_span_words [of ?s4 addr "swap4 bs"] assms(1,2,3) by (auto simp: in_control_def)
  have "s' = put_str ''OK'' (?s4\<lparr>tgt := t'\<rparr>)"
    using args k k2 u un(1) dat tk t'(1) assms(8,9) n4
    by (simp add: rsp_write_mem_bin_def l Let_def swap_extent_words data')
  with t' assms(1) show ?thesis by (simp add: in_control_def)
qed

end

end
