(* ===== verification/GdbBreak.thy ===== *)
theory GdbBreak
  imports GdbState "HOL-Library.Multiset"
begin

text \<open>
  Matchpoints of \<open>gdb.c\<close>: the DVR/DCR pairs of the debug-register cache, and the handlers of the \<open>z\<close> and
  \<open>Z\<close> packets, \<open>rsp_remove_matchpoint\<close> and \<open>rsp_insert_matchpoint\<close> (the variant without \<open>HWBP_BTWN\<close>,
  which the source does not define).
\<close>

section \<open>DVR/DCR pairs\<close>

text \<open>The search loops: the first index from \<open>i\<close> below \<open>n\<close> with the property, or -1.\<close>

function first_from :: "(nat \<Rightarrow> bool) \<Rightarrow> nat \<Rightarrow> nat \<Rightarrow> int" where
  "first_from P i n = (if i < n then if P i then int i else first_from P (Suc i) n else - 1)"
  by pat_completeness auto
termination
  by (relation "measure (\<lambda>(P, i, n). n - i)") auto

declare first_from.simps [simp del]

definition find_matching_dcrdvr_pair :: "u32 \<Rightarrow> u32 \<Rightarrow> dbg_cache \<Rightarrow> int" where
  "find_matching_dcrdvr_pair addr cc c =
     first_from (\<lambda>i. dvr c ! i = addr \<and> dcr_cc (dcr c ! i) = cc) 0 OR1K_MAX_MATCHPOINTS"

definition pair_free :: "dbg_cache \<Rightarrow> nat \<Rightarrow> bool" where
  "pair_free c i \<longleftrightarrow> dcr_cc (dcr c ! i) = OR1K_CC_MASKED \<and> dcr_dp (dcr c ! i) \<noteq> 0"

definition count_free_dcrdvr_pairs :: "dbg_cache \<Rightarrow> nat" where
  "count_free_dcrdvr_pairs c = length (filter (pair_free c) [0..<OR1K_MAX_MATCHPOINTS])"

definition find_free_dcrdvr_pair :: "dbg_cache \<Rightarrow> int" where
  "find_free_dcrdvr_pair c = first_from (pair_free c) 0 OR1K_MAX_MATCHPOINTS"

text \<open>The updates take the pair as a C \<open>int\<close>; an index outside the arrays is undefined behaviour.\<close>

definition valid_pair :: "int \<Rightarrow> bool" where
  "valid_pair wp_num \<longleftrightarrow> 0 \<le> wp_num \<and> wp_num < int OR1K_MAX_MATCHPOINTS"

definition enable_hw_breakpoint :: "int \<Rightarrow> 't gdb \<Rightarrow> 't gdb" where
  "enable_hw_breakpoint wp_num s =
     s\<lparr>dbg_regs_cache := (dbg_regs_cache s)\<lparr>dmr2 := dmr2 (dbg_regs_cache s) OR push_bit (nat (12 + wp_num)) 1\<rparr>,
       dbg_regs_cache_dirty := 1\<rparr>"

definition disable_hw_breakpoint :: "int \<Rightarrow> 't gdb \<Rightarrow> 't gdb" where
  "disable_hw_breakpoint wp_num s =
     s\<lparr>dbg_regs_cache := (dbg_regs_cache s)\<lparr>dmr2 := dmr2 (dbg_regs_cache s) AND NOT (push_bit (nat (12 + wp_num)) 1)\<rparr>,
       dbg_regs_cache_dirty := 1\<rparr>"

definition insert_hw_watchpoint :: "int \<Rightarrow> u32 \<Rightarrow> u32 \<Rightarrow> 't gdb \<Rightarrow> 't gdb" where
  "insert_hw_watchpoint wp_num address cc s =
     (if valid_pair wp_num
      then (let c = dbg_regs_cache s; i = nat wp_num
            in s\<lparr>dbg_regs_cache := c\<lparr>dvr := (dvr c)[i := address],
                                   dcr := (dcr c)[i := set_ct OR1K_CT_FETCH (set_sc 0 (set_cc cc (dcr c ! i)))]\<rparr>,
                 dbg_regs_cache_dirty := 1\<rparr>)
      else s\<lparr>fault := True, dbg_regs_cache_dirty := 1\<rparr>)"

definition remove_hw_watchpoint :: "int \<Rightarrow> 't gdb \<Rightarrow> 't gdb" where
  "remove_hw_watchpoint wp_num s =
     (let s1 = (if valid_pair wp_num
                then (let c = dbg_regs_cache s; i = nat wp_num
                      in s\<lparr>dbg_regs_cache := c\<lparr>dvr := (dvr c)[i := 0],
                                             dcr := (dcr c)[i := set_sc 0 (set_cc OR1K_CC_MASKED (dcr c ! i))]\<rparr>\<rparr>)
                else s\<lparr>fault := True\<rparr>)
      in (disable_hw_breakpoint wp_num s1)\<lparr>dbg_regs_cache_dirty := 1\<rparr>)"

section \<open>The packets\<close>

definition matchpoint_args :: "string \<Rightarrow> byte list \<Rightarrow> scanned list" where
  "matchpoint_args letter data =
     sscanf data (lits letter @ [ScanD (Some 1)] @ lits '','' @ [ScanX None] @ lits '','' @ [ScanD (Some 1)])"

definition rsp_remove_matchpoint :: "'t dbg_ops \<Rightarrow> 't gdb \<Rightarrow> 't gdb" where
  "rsp_remove_matchpoint D s =
     (case matchpoint_args ''z'' (buf_data (p_buf s)) of
        [Num ty, Num addr, Num len] \<Rightarrow>
          (if ty = 0
           then (case mp_hash_delete BP_MEMORY addr (mp_table_of s) of
                   (None, h) \<Rightarrow> put_str ''OK'' (s\<lparr>mp_table_of := h\<rparr>)
                 | (Some mpe, h) \<Rightarrow>
                     (let (e, s1) = gdb_set_chain SC_WISHBONE (s\<lparr>mp_table_of := h\<rparr>);
                          s2 = s1\<lparr>err_of := e\<rparr>
                      in if e \<noteq> 0 then put_str ''E01'' s2
                         else (let (e2, s3) = gdb_write_block D addr (le_bytes (me_instr mpe)) s2;
                                   s4 = s3\<lparr>err_of := e2\<rparr>
                               in if e2 \<noteq> 0 then put_str ''E01'' s4 else put_str ''OK'' s4)))
           else if ty = 1
           then (let s1 = (if dbg_regs_cache_dirty s = - 1 then get_debug_registers D s else s);
                     wp_num = find_matching_dcrdvr_pair addr OR1K_CC_EQ (dbg_regs_cache s1);
                     s2 = remove_hw_watchpoint wp_num s1
                 in if wp_num < 0 then put_str ''E01'' s2
                    else put_str ''OK'' (disable_hw_breakpoint wp_num (remove_hw_watchpoint wp_num s2)))
           else if ty = 2 \<or> ty = 3 \<or> ty = 4 then put_str '''' s
           else put_str ''E01'' s)
      | _ \<Rightarrow> put_str ''E01'' s)"

text \<open>A missing free pair is answered, but the handler then goes on with pair -1.\<close>

definition rsp_insert_matchpoint :: "'t dbg_ops \<Rightarrow> 't gdb \<Rightarrow> 't gdb" where
  "rsp_insert_matchpoint D s =
     (case matchpoint_args ''Z'' (buf_data (p_buf s)) of
        [Num ty, Num addr, Num len] \<Rightarrow>
          (if ty = 0
           then (let (_, s1) = gdb_set_chain SC_WISHBONE s;
                     (_, bs, s2) = gdb_read_block D addr 4 (le_bytes (garbage s1)) s1;
                     s3 = s2\<lparr>mp_table_of := mp_hash_add BP_MEMORY addr (le_word bs) (mp_table_of s2)\<rparr>;
                     (e, s4) = gdb_write_block D addr (le_bytes OR1K_TRAP_INSTR) s3;
                     s5 = s4\<lparr>err_of := e\<rparr>
                 in if e \<noteq> 0 then put_str ''E01'' s5 else put_str ''OK'' s5)
           else if ty = 1
           then (let s1 = get_debug_registers D s;
                     wp_num = find_free_dcrdvr_pair (dbg_regs_cache s1);
                     s2 = (if wp_num = - 1 then put_str '''' s1 else s1);
                     s3 = insert_hw_watchpoint wp_num addr OR1K_CC_EQ s2
                 in put_str ''OK'' (enable_hw_breakpoint wp_num s3))
           else if ty = 2 \<or> ty = 3 \<or> ty = 4 then put_str '''' s
           else put_str ''E01'' s)
      | _ \<Rightarrow> put_str ''E01'' s)"

section \<open>Memory breakpoints on a target that keeps its contract\<close>

text \<open>The text of a matchpoint packet: type digit, address, length digit.\<close>

definition matchpoint_text :: "string \<Rightarrow> byte \<Rightarrow> u32 \<Rightarrow> byte list" where
  "matchpoint_text letter ty addr = bytes letter @ [ty] @ bytes '','' @ xdigits (unat addr) @ bytes '',4''"

lemma unat_less_64: "unat (a :: u32) < 2 ^ 64"
  using unsigned_less [of a] by (rule less_trans) simp

lemma matchpoint_args_text:
  assumes "cstr data = matchpoint_text letter ty addr" "is_digit ty"
  shows "matchpoint_args letter data = [Num (word_of_int (hex (uint ty))), Num addr, Num 4]"
proof -
  have e: "ends_hex (0x2c # rest)" for rest
    by (simp add: ends_hex_def is_xdigit_def hex_def)
  have d: "is_digit 0x34" by (simp add: is_digit_def)
  show ?thesis
    using assms scan_hex [OF e [of "[0x34]"] unat_less_64 [of addr]] scan_digit [OF assms(2)] scan_digit [OF d, of "[]"]
    by (simp add: matchpoint_args_def sscanf_def matchpoint_text_def scan_lits hex_def)
qed

text \<open>A server that has received the packet, in the form the root theory uses.\<close>

lemma cstr_matchpoint:
  assumes "length letter = 1" "0 \<notin> set (bytes letter)" "ty \<noteq> 0"
  shows "cstr (buf_data (p_buf (with_packet (matchpoint_text letter ty addr) s))) = matchpoint_text letter ty addr"
proof (rule cstr_with_packet)
  show "length (matchpoint_text letter ty addr) < 281"
    using length_xdigits_u32 [of addr] assms(1) by (simp add: matchpoint_text_def)
  show "0 \<notin> set (matchpoint_text letter ty addr)"
    using assms(2,3) xdigits_no_nul [of "unat addr"] by (auto simp: matchpoint_text_def)
qed

lemma swap4_le_bytes: "swap4 (le_bytes w) = rev (le_bytes w)"
  by (simp add: le_bytes_def)

lemma le_bytes_le_word4:
  assumes "length bs = 4"
  shows "le_bytes (le_word bs) = bs"
proof -
  obtain a b c d where "bs = [a, b, c, d]"
    using assms by (auto simp: numeral_eq_Suc length_Suc_conv)
  then show ?thesis by (simp only: le_bytes_le_word)
qed

text \<open>The trap instruction as it lies in memory.\<close>

definition trap_bytes :: "byte list" where
  "trap_bytes = swap4 (le_bytes OR1K_TRAP_INSTR)"

lemma trap_bytes_value: "trap_bytes = [0x21, 0, 0, 1]"
  by (simp add: trap_bytes_def le_bytes_def)

lemma trap_bytes_length: "length trap_bytes = 4"
  by (simp add: trap_bytes_value)

text \<open>The table after a memory breakpoint is deleted hands out what it replaced.\<close>

lemma memory_entry_deleted:
  assumes "mp_map t = m((BP_MEMORY, addr) \<mapsto> v)" "mp_wf t" "m (BP_MEMORY, addr) = None"
  obtains mpe h where "mp_hash_delete BP_MEMORY addr t = (Some mpe, h)" "me_instr mpe = v" "mp_map h = m"
proof -
  obtain r h where d: "mp_hash_delete BP_MEMORY addr t = (r, h)" by (cases "mp_hash_delete BP_MEMORY addr t")
  have "map_option me_instr r = Some v"
    using mph.deleted [OF assms(2), of "(BP_MEMORY, addr)"] assms(1) d by (simp add: mp_remove_def)
  moreover have "mp_map h = m"
    using mp_map_delete [OF assms(2), of BP_MEMORY addr] assms(1,3) d by (simp add: fun_upd_idem)
  ultimately show ?thesis using that d by auto
qed

context dbg_target
begin

lemma insert_memory_breakpoint:
  assumes "in_control view ok s" "addr AND 3 = 0" "cstr (buf_data (p_buf s)) = matchpoint_text ''Z'' 0x30 addr"
    and "rsp_insert_matchpoint D s = s'"
  shows "in_control view ok s' \<and> view (tgt s') = (view (tgt s))\<lparr>tv_mem := mem_store addr trap_bytes (tv_mem (view (tgt s)))\<rparr>
     \<and> mp_table_of s' = mp_hash_add BP_MEMORY addr (le_word (swap4 (mem_range (tv_mem (view (tgt s))) addr 4))) (mp_table_of s)
     \<and> client s' = put_str_packet (bytes ''OK'') (client s)"
proof -
  have args: "matchpoint_args ''Z'' (buf_data (p_buf s)) = [Num 0, Num addr, Num 4]"
    using matchpoint_args_text [OF assms(3)] by (simp add: is_digit_def hex_def)
  let ?s1 = "s\<lparr>gdb_chain := Some SC_WISHBONE\<rparr>" and ?m = "tv_mem (view (tgt s))"
  have b4: "block_ok 4" by (simp add: block_ok_def)
  obtain t1 where r: "gdb_read_block D addr 4 (le_bytes (garbage s)) ?s1 = (0, swap4 (mem_range ?m addr 4), ?s1\<lparr>tgt := t1\<rparr>)"
    and t1: "view t1 = view (tgt s)" "ok t1"
    using read_mem_block [of ?s1 addr 4 "le_bytes (garbage s)"] assms(1,2) b4 by (auto simp: in_control_def)
  let ?s3 = "?s1\<lparr>tgt := t1, mp_table_of := mp_hash_add BP_MEMORY addr (le_word (swap4 (mem_range ?m addr 4))) (mp_table_of s)\<rparr>"
  obtain t2 where w: "gdb_write_block D addr (le_bytes OR1K_TRAP_INSTR) ?s3 = (0, ?s3\<lparr>tgt := t2\<rparr>)"
    and t2: "view t2 = (view t1)\<lparr>tv_mem := mem_store addr trap_bytes (tv_mem (view t1))\<rparr>" "ok t2"
    using write_mem_block [of ?s3 addr "le_bytes OR1K_TRAP_INSTR"] assms(1,2) b4 t1
    by (auto simp: in_control_def trap_bytes_def)
  have "s' = put_str ''OK'' (?s3\<lparr>tgt := t2, err_of := 0\<rparr>)"
    using assms(4) r w args by (simp add: rsp_insert_matchpoint_def Let_def)
  with t1 t2 assms(1) show ?thesis by (simp add: in_control_def)
qed

lemma remove_memory_breakpoint:
  assumes "in_control view ok s" "addr AND 3 = 0" "cstr (buf_data (p_buf s)) = matchpoint_text ''z'' 0x30 addr"
    and "mp_hash_delete BP_MEMORY addr (mp_table_of s) = (Some mpe, h)" "rsp_remove_matchpoint D s = s'"
  shows "in_control view ok s' \<and> mp_table_of s' = h
     \<and> view (tgt s') = (view (tgt s))\<lparr>tv_mem := mem_store addr (swap4 (le_bytes (me_instr mpe))) (tv_mem (view (tgt s)))\<rparr>
     \<and> client s' = put_str_packet (bytes ''OK'') (client s)"
proof -
  have args: "matchpoint_args ''z'' (buf_data (p_buf s)) = [Num 0, Num addr, Num 4]"
    using matchpoint_args_text [OF assms(3)] by (simp add: is_digit_def hex_def)
  let ?s2 = "s\<lparr>mp_table_of := h, gdb_chain := Some SC_WISHBONE, err_of := 0\<rparr>"
  have b4: "block_ok 4" by (simp add: block_ok_def)
  obtain t2 where w: "gdb_write_block D addr (le_bytes (me_instr mpe)) ?s2 = (0, ?s2\<lparr>tgt := t2\<rparr>)"
    and t2: "view t2 = (view (tgt s))\<lparr>tv_mem := mem_store addr (swap4 (le_bytes (me_instr mpe))) (tv_mem (view (tgt s)))\<rparr>" "ok t2"
    using write_mem_block [of ?s2 addr "le_bytes (me_instr mpe)"] assms(1,2) b4
    by (auto simp: in_control_def)
  have "s' = put_str ''OK'' (?s2\<lparr>tgt := t2, err_of := 0\<rparr>)"
    using assms(4,5) w args by (simp add: rsp_remove_matchpoint_def Let_def)
  with t2 assms(1) show ?thesis by (simp add: in_control_def)
qed

end

section \<open>Hardware breakpoints\<close>

lemma first_from_Some:
  "first_from P i n = int k \<Longrightarrow> i \<le> k \<and> k < n \<and> P k \<and> (\<forall>j. i \<le> j \<and> j < k \<longrightarrow> \<not> P j)"
proof (induction P i n rule: first_from.induct)
  case (1 P i n)
  show ?case
  proof (cases "i < n \<and> \<not> P i")
    case True
    then have "first_from P (Suc i) n = int k" using "1.prems" by (simp add: first_from.simps [of P i])
    from "1.IH" [OF _ _ this] True show ?thesis by (auto simp: Suc_le_eq nat_less_le)
  next
    case False
    then show ?thesis using "1.prems" by (auto simp: first_from.simps [of P i] split: if_splits)
  qed
qed

lemma first_from_None: "first_from P i n = - 1 \<longleftrightarrow> (\<forall>j. i \<le> j \<and> j < n \<longrightarrow> \<not> P j)"
proof (induction P i n rule: first_from.induct)
  case (1 P i n)
  show ?case
  proof (cases "i < n \<and> \<not> P i")
    case True
    then have "first_from P i n = first_from P (Suc i) n" by (simp add: first_from.simps [of P i])
    with "1.IH" True show ?thesis by (auto simp: Suc_le_eq nat_less_le)
  next
    case False
    then show ?thesis by (auto simp: first_from.simps [of P i])
  qed
qed

lemma first_from_cases:
  obtains (none) "first_from P 0 n = - 1" "\<forall>j < n. \<not> P j"
    | (some) k where "first_from P 0 n = int k" "k < n" "P k" "\<forall>j < k. \<not> P j"
proof (cases "first_from P 0 n = - 1")
  case True
  then show ?thesis using none first_from_None [of P 0 n] by simp
next
  case False
  have "first_from P i n = - 1 \<or> (\<exists>k. first_from P i n = int k)" for i
    by (induction P i n rule: first_from.induct) (subst (1 2) first_from.simps, auto)
  with False obtain k where "first_from P 0 n = int k" by blast
  with first_from_Some [OF this] show ?thesis using some by blast
qed

text \<open>The bit-fields of a control register.\<close>

lemma bit_7: "bit (7 :: u32) n \<longleftrightarrow> n < 3"
  using bit_mask_iff [of 3 n, where ?'a = u32] by (auto simp: mask_eq_exp_minus_1 dest: bit_imp_le_length)

text \<open>A field of width \<open>m\<close> at bit \<open>k\<close>: what an update of it, or of a field beside it, does to a field read.\<close>

lemma field_same:
  fixes w v m :: u32
  assumes "\<And>n. bit m n \<longleftrightarrow> n < l" "k + l \<le> 32"
  shows "drop_bit k ((w AND NOT (push_bit k m)) OR push_bit k (v AND m)) AND m = v AND m"
  using assms(2) by (intro bit_word_eqI) (auto simp: bit_simps assms(1))

lemma field_other:
  fixes w v m m' :: u32
  assumes "\<And>n. bit m n \<longleftrightarrow> n < l" "\<And>n. bit m' n \<longleftrightarrow> n < l'" "j + l' \<le> k"
  shows "drop_bit j ((w AND NOT (push_bit k m)) OR push_bit k (v AND m)) AND m' = drop_bit j w AND m'"
  using assms(3) by (intro bit_word_eqI) (auto simp: bit_simps assms(1,2) dest: bit_imp_le_length)

lemma bit_1': "bit (1 :: u32) n \<longleftrightarrow> n < 1"
  by (simp add: bit_1_iff)

lemma dcr_cc_set [simp]: "dcr_cc (set_cc cc w) = cc AND 7" "dcr_cc (set_sc sc w) = dcr_cc w" "dcr_cc (set_ct ct w) = dcr_cc w"
  unfolding dcr_cc_def set_cc_def set_sc_def set_ct_def
  by (rule field_same [OF bit_7] field_other [OF bit_1' bit_7] field_other [OF bit_7 bit_7]; simp)+

lemma dcr_dp_set [simp]: "dcr_dp (set_cc cc w) = dcr_dp w" "dcr_dp (set_sc sc w) = dcr_dp w" "dcr_dp (set_ct ct w) = dcr_dp w"
  using field_other [OF bit_7 bit_1', of 0 1 w cc] field_other [OF bit_1' bit_1', of 0 4 w sc] field_other [OF bit_7 bit_1', of 0 5 w ct]
  unfolding dcr_dp_def set_cc_def set_sc_def set_ct_def drop_bit_0 by simp_all

text \<open>
  The breakpoint registers as a specification sees them: the addresses with a matching pair set to stop on
  equality, each as often as a pair holds it, and the number of pairs still to be given out.
\<close>

definition hw_breaks :: "dbg_cache \<Rightarrow> u32 multiset" where
  "hw_breaks c = mset (map ((!) (dvr c)) (filter (\<lambda>i. dcr_cc (dcr c ! i) = OR1K_CC_EQ) [0..<OR1K_MAX_MATCHPOINTS]))"

definition pair_breaks :: "dbg_cache \<Rightarrow> nat \<Rightarrow> u32 multiset" where
  "pair_breaks c i = (if dcr_cc (dcr c ! i) = OR1K_CC_EQ then {#dvr c ! i#} else {#})"

text \<open>An update of one pair changes the contribution of that pair.\<close>

lemma pair_update:
  assumes "i < OR1K_MAX_MATCHPOINTS" "\<forall>j < OR1K_MAX_MATCHPOINTS. j \<noteq> i \<longrightarrow> dvr c' ! j = dvr c ! j \<and> dcr c' ! j = dcr c ! j"
  obtains M k where "hw_breaks c = M + pair_breaks c i" "hw_breaks c' = M + pair_breaks c' i"
    "count_free_dcrdvr_pairs c = k + of_bool (pair_free c i)" "count_free_dcrdvr_pairs c' = k + of_bool (pair_free c' i)"
proof -
  let ?other = "[0..<i] @ [Suc i..<8]"
  have split: "[0..<8] = [0..<i] @ i # [Suc i..<8]"
    using assms(1) upt_add_eq_append [of 0 i "8 - i"] upt_conv_Cons [of i 8] by simp
  have same: "dvr c' ! j = dvr c ! j" "dcr c' ! j = dcr c ! j" if "j \<in> set ?other" for j
    using assms that by auto
  let ?bk = "\<lambda>c. mset (map ((!) (dvr c)) (filter (\<lambda>i. dcr_cc (dcr c ! i) = 1) ?other))"
  let ?fr = "\<lambda>c. length (filter (pair_free c) ?other)"
  have f: "filter (\<lambda>i. dcr_cc (dcr c' ! i) = 1) ?other = filter (\<lambda>i. dcr_cc (dcr c ! i) = 1) ?other"
    by (rule filter_cong [OF refl]) (simp only: same)
  have "map ((!) (dvr c')) (filter (\<lambda>i. dcr_cc (dcr c ! i) = 1) ?other) = map ((!) (dvr c)) (filter (\<lambda>i. dcr_cc (dcr c ! i) = 1) ?other)"
    by (rule map_cong [OF refl]) (simp only: same set_filter mem_Collect_eq)
  with f have "?bk c' = ?bk c" by (simp only:)
  moreover have "filter (pair_free c') ?other = filter (pair_free c) ?other"
    by (rule filter_cong [OF refl]) (simp only: same pair_free_def)
  then have "?fr c' = ?fr c" by (simp only:)
  moreover have "hw_breaks b = ?bk b + pair_breaks b i" "count_free_dcrdvr_pairs b = ?fr b + of_bool (pair_free b i)" for b
    by (simp_all add: hw_breaks_def count_free_dcrdvr_pairs_def pair_breaks_def split)
  ultimately show ?thesis using that [of "?bk c" "?fr c"] by metis
qed

section \<open>The hardware breakpoint packets\<close>

lemma hw_args:
  "cstr data = matchpoint_text letter 0x31 addr \<Longrightarrow> matchpoint_args letter data = [Num 1, Num addr, Num 4]"
  using matchpoint_args_text [of data letter "0x31" addr] by (simp add: is_digit_def hex_def)

lemma get_cached: "dbg_regs_cache_dirty s \<noteq> - 1 \<Longrightarrow> get_debug_registers D s = s"
  by (simp add: get_debug_registers_def)

lemma valid_pair_int [simp]: "valid_pair (int i) \<longleftrightarrow> i < 8"
  by (simp add: valid_pair_def)

lemma nat_12_int [simp]: "nat (12 + int i) = 12 + i"
  by simp

definition pair_taken :: "dbg_cache \<Rightarrow> nat \<Rightarrow> u32 \<Rightarrow> dbg_cache" where
  "pair_taken c i addr =
     c\<lparr>dvr := (dvr c)[i := addr], dcr := (dcr c)[i := set_ct OR1K_CT_FETCH (set_sc 0 (set_cc OR1K_CC_EQ (dcr c ! i)))],
       dmr2 := dmr2 c OR push_bit (12 + i) 1\<rparr>"

definition pair_given_back :: "dbg_cache \<Rightarrow> nat \<Rightarrow> dbg_cache" where
  "pair_given_back c i =
     c\<lparr>dvr := (dvr c)[i := 0], dcr := (dcr c)[i := set_sc 0 (set_cc OR1K_CC_MASKED (dcr c ! i))],
       dmr2 := dmr2 c AND NOT (push_bit (12 + i) 1)\<rparr>"

lemma hw_inserted:
  assumes "cstr (buf_data (p_buf s)) = matchpoint_text ''Z'' 0x31 addr" "dbg_regs_cache_dirty s \<noteq> - 1"
    and "count_free_dcrdvr_pairs (dbg_regs_cache s) \<noteq> 0"
  obtains i where "i < OR1K_MAX_MATCHPOINTS" "pair_free (dbg_regs_cache s) i"
    "rsp_insert_matchpoint D s = put_str ''OK''
       (s\<lparr>dbg_regs_cache := pair_taken (dbg_regs_cache s) i addr, dbg_regs_cache_dirty := 1\<rparr>)"
proof (rule first_from_cases [of "pair_free (dbg_regs_cache s)" OR1K_MAX_MATCHPOINTS])
  assume "\<forall>j < OR1K_MAX_MATCHPOINTS. \<not> pair_free (dbg_regs_cache s) j"
  then show ?thesis using assms(3) by (simp add: count_free_dcrdvr_pairs_def filter_empty_conv)
next
  fix k assume k: "first_from (pair_free (dbg_regs_cache s)) 0 OR1K_MAX_MATCHPOINTS = int k" "k < OR1K_MAX_MATCHPOINTS"
    "pair_free (dbg_regs_cache s) k"
  have "rsp_insert_matchpoint D s = put_str ''OK''
       (s\<lparr>dbg_regs_cache := pair_taken (dbg_regs_cache s) k addr, dbg_regs_cache_dirty := 1\<rparr>)"
    using k(1,2) by (simp add: rsp_insert_matchpoint_def hw_args [OF assms(1)] get_cached [OF assms(2)] Let_def
        find_free_dcrdvr_pair_def insert_hw_watchpoint_def enable_hw_breakpoint_def pair_taken_def)
  with k(2,3) show ?thesis by (rule that)
qed

lemma hw_removed:
  assumes "cstr (buf_data (p_buf s)) = matchpoint_text ''z'' 0x31 addr" "dbg_regs_cache_dirty s \<noteq> - 1"
    and "addr \<in># hw_breaks (dbg_regs_cache s)" "wf_cache (dbg_regs_cache s)"
  obtains i where "i < OR1K_MAX_MATCHPOINTS" "pair_breaks (dbg_regs_cache s) i = {#addr#}"
    "rsp_remove_matchpoint D s = put_str ''OK''
       (s\<lparr>dbg_regs_cache := pair_given_back (dbg_regs_cache s) i, dbg_regs_cache_dirty := 1\<rparr>)"
proof -
  let ?c = "dbg_regs_cache s"
  let ?P = "\<lambda>i. dvr ?c ! i = addr \<and> dcr_cc (dcr ?c ! i) = OR1K_CC_EQ"
  show ?thesis
  proof (rule first_from_cases [of ?P OR1K_MAX_MATCHPOINTS])
    assume "\<forall>j < OR1K_MAX_MATCHPOINTS. \<not> ?P j"
    then show ?thesis using assms(3) by (auto simp: hw_breaks_def)
  next
    fix k assume k: "first_from ?P 0 OR1K_MAX_MATCHPOINTS = int k" "k < OR1K_MAX_MATCHPOINTS" "?P k"
    have twice: "set_sc 0 (set_cc 0 (set_sc 0 (set_cc 0 w))) = set_sc 0 (set_cc 0 w)" for w
      unfolding set_sc_def set_cc_def by (rule bit_word_eqI) (auto simp: bit_simps)
    have "rsp_remove_matchpoint D s = put_str ''OK''
        (s\<lparr>dbg_regs_cache := pair_given_back ?c k, dbg_regs_cache_dirty := 1\<rparr>)"
      using k(1,2) assms(4) by (simp add: rsp_remove_matchpoint_def hw_args [OF assms(1)] assms(2) Let_def
          find_matching_dcrdvr_pair_def remove_hw_watchpoint_def disable_hw_breakpoint_def pair_given_back_def
          twice wf_cache_def word_bw_assocs)
    with k(2,3) show ?thesis by (intro that [of k]) (simp_all add: pair_breaks_def)
  qed
qed

text \<open>What the two updates of a pair mean for the breakpoints.\<close>

lemma pair_taken_breaks:
  assumes "i < OR1K_MAX_MATCHPOINTS" "pair_free c i" "wf_cache c"
  shows "hw_breaks (pair_taken c i addr) = add_mset addr (hw_breaks c)"
    and "Suc (count_free_dcrdvr_pairs (pair_taken c i addr)) = count_free_dcrdvr_pairs c"
    and "bit (dmr2 (pair_taken c i addr)) (12 + i)" "wf_cache (pair_taken c i addr)"
proof -
  obtain M k where "hw_breaks c = M + pair_breaks c i" "hw_breaks (pair_taken c i addr) = M + pair_breaks (pair_taken c i addr) i"
    "count_free_dcrdvr_pairs c = k + of_bool (pair_free c i)"
    "count_free_dcrdvr_pairs (pair_taken c i addr) = k + of_bool (pair_free (pair_taken c i addr) i)"
    by (rule pair_update [OF assms(1), of "pair_taken c i addr" c]) (simp_all add: pair_taken_def)
  with assms show "hw_breaks (pair_taken c i addr) = add_mset addr (hw_breaks c)"
    "Suc (count_free_dcrdvr_pairs (pair_taken c i addr)) = count_free_dcrdvr_pairs c"
    by (simp_all add: pair_breaks_def pair_free_def pair_taken_def wf_cache_def)
qed (use assms in \<open>simp_all add: pair_taken_def wf_cache_def bit_or_iff bit_push_bit_iff bit_exp_iff\<close>)

lemma pair_given_back_breaks:
  assumes "i < OR1K_MAX_MATCHPOINTS" "pair_breaks c i = {#addr#}" "wf_cache c"
  shows "hw_breaks c = add_mset addr (hw_breaks (pair_given_back c i))"
    and "count_free_dcrdvr_pairs (pair_given_back c i) = count_free_dcrdvr_pairs c + of_bool (dcr_dp (dcr c ! i) \<noteq> 0)"
    and "\<not> bit (dmr2 (pair_given_back c i)) (12 + i)" "wf_cache (pair_given_back c i)"
proof -
  obtain M k where "hw_breaks c = M + pair_breaks c i" "hw_breaks (pair_given_back c i) = M + pair_breaks (pair_given_back c i) i"
    "count_free_dcrdvr_pairs c = k + of_bool (pair_free c i)"
    "count_free_dcrdvr_pairs (pair_given_back c i) = k + of_bool (pair_free (pair_given_back c i) i)"
    by (rule pair_update [OF assms(1), of "pair_given_back c i" c]) (simp_all add: pair_given_back_def)
  with assms show "hw_breaks c = add_mset addr (hw_breaks (pair_given_back c i))"
    "count_free_dcrdvr_pairs (pair_given_back c i) = count_free_dcrdvr_pairs c + of_bool (dcr_dp (dcr c ! i) \<noteq> 0)"
    by (simp_all add: pair_breaks_def pair_free_def pair_given_back_def wf_cache_def split: if_splits)
qed (use assms in \<open>simp_all add: pair_given_back_def wf_cache_def bit_and_iff bit_not_iff bit_push_bit_iff bit_exp_iff\<close>)

end
