(* ===== verification/GdbServer.thy ===== *)
theory GdbServer
  imports GdbRun GdbRegs GdbMem GdbBreak
begin

text \<open>
  The dispatcher of \<open>gdb.c\<close>: the query, set and \<open>v\<close> packets (\<open>rsp_query\<close>, \<open>rsp_command\<close>, \<open>rsp_set\<close>,
  \<open>rsp_vpkt\<close>), \<open>rsp_client_request\<close>, the connection (\<open>rsp_get_client\<close>) and the main loop \<open>handle_rsp\<close>.
\<close>

section \<open>Queries\<close>

text \<open>Registers of group 6, the debug group.\<close>

definition debug_group_reg :: "u32 \<Rightarrow> bool" where
  "debug_group_reg regno \<longleftrightarrow> drop_bit 11 regno AND 0xff = 6"

text \<open>The structure of the cache indexed as an array; 22 words are inside it.\<close>

definition cache_get :: "u32 \<Rightarrow> 't gdb \<Rightarrow> u32 \<times> 't gdb" where
  "cache_get regno s =
     (let i = unat (regno AND 0xff); ws = cache_words (dbg_regs_cache s)
      in if i < length ws then (ws ! i, s) else (garbage s, s\<lparr>fault := True\<rparr>))"

definition cache_put :: "u32 \<Rightarrow> u32 \<Rightarrow> 't gdb \<Rightarrow> 't gdb" where
  "cache_put regno val s =
     (let i = unat (regno AND 0xff); ws = cache_words (dbg_regs_cache s)
      in if i < length ws then s\<lparr>dbg_regs_cache := cache_of_words (ws[i := val])\<rparr> else s\<lparr>fault := True\<rparr>)"

definition send_text :: "byte list \<Rightarrow> 't gdb \<Rightarrow> 't gdb" where
  "send_text text s =
     (let data = overwrite 0 text (buf_data (p_buf s));
          n = strlen_buf data
      in put_pkt (take n data) (s\<lparr>p_buf := \<lparr>buf_data = data, buf_len = n\<rparr>\<rparr>))"

definition readspr :: "'t dbg_ops \<Rightarrow> u32 \<Rightarrow> 't gdb \<Rightarrow> u32 \<times> 't gdb" where
  "readspr D regno s =
     (if regno = NPC_CPU_REG_ADD then get_npc D s
      else if debug_group_reg regno
      then (let s1 = (if dbg_regs_cache_dirty s = - 1 then get_debug_registers D s else s);
                (v, s2) = cache_get regno s1
            in (v, s2\<lparr>dbg_regs_cache_dirty := 0\<rparr>))
      else (let (e, v, s1) = gdb_read_reg D regno (garbage s) s in (v, s1\<lparr>err_of := e\<rparr>)))"

text \<open>The result is false when the reply is \<open>E01\<close>.\<close>

definition writespr :: "'t dbg_ops \<Rightarrow> u32 \<Rightarrow> u32 \<Rightarrow> 't gdb \<Rightarrow> bool \<times> 't gdb" where
  "writespr D regno val s =
     (if regno = NPC_CPU_REG_ADD then (True, set_npc D val s)
      else if debug_group_reg regno
      then (let s1 = (if dbg_regs_cache_dirty s = - 1 then get_debug_registers D s else s)
            in (True, (cache_put regno val s1)\<lparr>dbg_regs_cache_dirty := 1\<rparr>))
      else (let (e, s1) = gdb_write_reg D regno val s; s2 = s1\<lparr>err_of := e\<rparr> in (\<not> e > 0, s2)))"

abbreviation (input) MAX_SPRS :: u32 where "MAX_SPRS \<equiv> 0x10000"

definition rsp_command :: "'t dbg_ops \<Rightarrow> 't gdb \<Rightarrow> 't gdb" where
  "rsp_command D s =
     (let cmd = hex2ascii (drop 6 (buf_data (p_buf s)))
      in if strncmp_eq ''readspr'' cmd
         then (case sscanf cmd (lits ''readspr'' @ [Space, ScanX (Some 4)]) of
                 [Num regno] \<Rightarrow>
                   (if regno > MAX_SPRS then put_str ''E01'' s
                    else (let (_, s1) = gdb_set_chain SC_RISC_DEBUG s;
                              (v, s2) = readspr D regno s1
                          in send_text (ascii2hex (sprintf_8x v @ [0])) s2))
               | _ \<Rightarrow> put_str ''E01'' s)
         else if strncmp_eq ''writespr'' cmd
         then (case sscanf cmd (lits ''writespr'' @ [Space, ScanX (Some 4), Space, ScanX (Some 8)]) of
                 [Num regno, Num val] \<Rightarrow>
                   (if regno > MAX_SPRS then put_str ''E01'' s
                    else (let (_, s1) = gdb_set_chain SC_RISC_DEBUG s;
                              (fine, s2) = writespr D regno val s1
                          in if fine then put_str ''OK'' s2 else put_str ''E01'' s2))
               | _ \<Rightarrow> put_str ''E01'' s)
         else s)"

definition rsp_query :: "'t dbg_ops \<Rightarrow> 't gdb \<Rightarrow> 't gdb" where
  "rsp_query D s =
     (let d = buf_data (p_buf s)
      in if strcmp_eq ''qAttached'' d then put_str ''1'' s
         else if strcmp_eq ''qC'' d then put_str '''' s
         else if strncmp_eq ''qCRC'' d then put_str ''E01'' s
         else if strcmp_eq ''qfThreadInfo'' d then put_str ''m-1'' s
         else if strcmp_eq ''qsThreadInfo'' d then put_str ''l'' s
         else if strncmp_eq ''qGetTLSAddr:'' d then put_str '''' s
         else if strncmp_eq ''qL'' d then put_str ''qM001'' s
         else if strcmp_eq ''qOffsets'' d then put_str ''Text=0;Data=0;Bss=0'' s
         else if strncmp_eq ''qP'' d then put_str '''' s
         else if strncmp_eq ''qRcmd,'' d then rsp_command D s
         else if strncmp_eq ''qSupported'' d
         then (let s1 = setup_or32 D s
               in s1\<lparr>client := put_str_packet (bytes ''PacketSize='' @ xdigits GDB_BUF_MAX) (client s1)\<rparr>)
         else if strncmp_eq ''qSymbol:'' d then put_str ''OK'' s
         else if strncmp_eq ''qThreadExtraInfo,'' d then send_text (bytes ''52756e6e61626c6500'' @ [0]) s
         else if strncmp_eq ''qTStatus'' d then put_str '''' s
         else if strncmp_eq ''qXfer:'' d then put_str '''' s
         else s)"

definition rsp_set :: "'t gdb \<Rightarrow> 't gdb" where
  "rsp_set s =
     (let d = buf_data (p_buf s)
      in if strncmp_eq ''QPassSignals:'' d then put_str '''' s
         else if strncmp_eq ''QTDP'' d \<or> strncmp_eq ''QFrame'' d \<or> strcmp_eq ''QTStart'' d \<or> strcmp_eq ''QTStop'' d
                 \<or> strcmp_eq ''QTinit'' d \<or> strncmp_eq ''QTro'' d
         then put_str '''' s
         else s)"

definition rsp_vpkt :: "'t dbg_ops \<Rightarrow> 't gdb \<Rightarrow> 't gdb" where
  "rsp_vpkt D s =
     (let d = buf_data (p_buf s)
      in if strncmp_eq ''vAttach;'' d then put_str ''S05'' s
         else if strcmp_eq ''vCont?'' d then put_str '''' s
         else if strncmp_eq ''vCont'' d then s
         else if strncmp_eq ''vFile:'' d then put_str '''' s
         else if strncmp_eq ''vFlashErase:'' d then put_str ''E01'' s
         else if strncmp_eq ''vFlashWrite:'' d then put_str ''E01'' s
         else if strcmp_eq ''vFlashDone'' d then put_str ''E01'' s
         else if strncmp_eq ''vRun;'' d then put_str ''S05'' (rsp_restart D s)
         else put_str ''E01'' s)"

section \<open>Requests\<close>

text \<open>The switch on the first character; \<open>D\<close> leaves the process.\<close>

definition dispatch :: "'t dbg_ops \<Rightarrow> byte \<Rightarrow> 't gdb \<Rightarrow> 't gdb" where
  "dispatch D ch s =
     (if ch = of_char CHR ''!'' then put_str ''OK'' s
      else if ch = of_char CHR ''?'' then rsp_report_exception s
      else if ch = of_char CHR ''A'' then put_str ''E01'' s
      else if ch = of_char CHR ''b'' then s
      else if ch = of_char CHR ''B'' then s
      else if ch = of_char CHR ''c'' then rsp_continue D s
      else if ch = of_char CHR ''C'' then rsp_continue_with_signal s
      else if ch = of_char CHR ''d'' then s
      else if ch = of_char CHR ''D''
      then (let s1 = close_client (put_str ''OK'' s)
            in s1\<lparr>tgt := op_client_detached D (tgt s1), exited := True\<rparr>)
      else if ch = of_char CHR ''F'' then s
      else if ch = of_char CHR ''g'' then rsp_read_all_regs D s
      else if ch = of_char CHR ''G'' then rsp_write_all_regs D s
      else if ch = of_char CHR ''H'' then put_str ''OK'' s
      else if ch = of_char CHR ''i'' then s\<lparr>client_waiting := True\<rparr>
      else if ch = of_char CHR ''I'' then s\<lparr>client_waiting := True\<rparr>
      else if ch = of_char CHR ''k'' then s
      else if ch = of_char CHR ''m'' then rsp_read_mem D s
      else if ch = of_char CHR ''M'' then rsp_write_mem D s
      else if ch = of_char CHR ''p'' then rsp_read_reg D s
      else if ch = of_char CHR ''P'' then rsp_write_reg D s
      else if ch = of_char CHR ''q'' then rsp_query D s
      else if ch = of_char CHR ''Q'' then rsp_set s
      else if ch = of_char CHR ''r'' then s
      else if ch = of_char CHR ''R'' then rsp_restart D s
      else if ch = of_char CHR ''s'' then rsp_step D s
      else if ch = of_char CHR ''S'' then rsp_step_with_signal s
      else if ch = of_char CHR ''t'' then s
      else if ch = of_char CHR ''T'' then put_str ''OK'' s
      else if ch = of_char CHR ''v'' then rsp_vpkt D s
      else if ch = of_char CHR ''X'' then rsp_write_mem_bin D s
      else if ch = of_char CHR ''z'' then rsp_remove_matchpoint D s
      else if ch = of_char CHR ''Z'' then rsp_insert_matchpoint D s
      else s)"

definition rsp_client_request :: "'t dbg_ops \<Rightarrow> 't gdb \<Rightarrow> 't gdb" where
  "rsp_client_request D s =
     (let (ok, buf, sk) = get_packet (p_buf s) (client s);
          s1 = s\<lparr>p_buf := buf, client := sk\<rparr>
      in if ok then dispatch D (buf_data buf ! 0) s1 else close_client s1)"

section \<open>The connection\<close>

text \<open>What the system calls of one \<open>rsp_get_client\<close> give: the call that fails, or a connection.\<close>

datatype accept_ev =
    NoService | SocketFails | BindFails | ListenFails | AcceptFails | IoctlFails int
  | Accepted int "rd_ev list" "wr_ev list"

definition rsp_get_client :: "accept_ev \<Rightarrow> 't gdb \<Rightarrow> 't gdb" where
  "rsp_get_client ev s =
     (case ev of
        NoService \<Rightarrow> s
      | SocketFails \<Rightarrow> s\<lparr>exited := True\<rparr>
      | BindFails \<Rightarrow> s\<lparr>exited := True\<rparr>
      | ListenFails \<Rightarrow> s\<lparr>exited := True\<rparr>
      | AcceptFails \<Rightarrow> s\<lparr>client := (client s)\<lparr>client_fd := - 1\<rparr>\<rparr>
      | IoctlFails fd \<Rightarrow> s\<lparr>client := (client s)\<lparr>client_fd := fd\<rparr>, exited := True\<rparr>
      | Accepted fd rd wr \<Rightarrow> s\<lparr>client := (client s)\<lparr>client_fd := fd, rd_evs := rd, wr_evs := wr\<rparr>\<rparr>)"

text \<open>The loop that waits for a client; without events left the server stays blocked in \<open>accept\<close>.\<close>

fun wait_client :: "accept_ev list \<Rightarrow> 't gdb \<Rightarrow> (accept_ev list \<times> 't gdb) option" where
  "wait_client evs s =
     (if exited s \<or> client_fd (client s) \<noteq> - 1 then Some (evs, s)
      else (case evs of [] \<Rightarrow> None
            | ev # evs' \<Rightarrow> wait_client evs' ((rsp_get_client ev s)\<lparr>client_waiting := False\<rparr>)))"

declare wait_client.simps [simp del]

section \<open>The main loop\<close>

text \<open>
  The state of the loop of \<open>handle_rsp\<close>: the connections still to come, the local \<open>temp_uint32\<close>, which
  is uninitialised until \<open>temp_set\<close>, and the server.
\<close>

record 't loop_state =
  accepts :: "accept_ev list"
  temp_uint32 :: u32
  temp_set :: bool
  server :: "'t gdb"

text \<open>Reporting a stop while the client waits.\<close>

definition notify_client :: "'t dbg_ops \<Rightarrow> 't loop_state \<Rightarrow> 't loop_state" where
  "notify_client D l =
     (let s1 = rsp_check_for_exception D (server l);
          l2 = (if stallState s1 = STALLED
                then (let (_, v, s2) = gdb_read_reg D PPC_CPU_REG_ADD (temp_uint32 l) s1
                      in l\<lparr>server := s2, temp_uint32 := v, temp_set := True\<rparr>)
                else l\<lparr>server := s1\<rparr>);
          s3 = server l2;
          s4 = (if sigval s3 = TARGET_SIGNAL_TRAP \<and> \<not> temp_set l2 then s3\<lparr>fault := True\<rparr> else s3)
      in if sigval s4 = TARGET_SIGNAL_TRAP \<and> mp_hash_lookup BP_MEMORY (temp_uint32 l2) (mp_table_of s4) \<noteq> None
         then (let s5 = (if stallState s4 \<noteq> STALLED then rsp_check_for_exception D s4 else s4);
                   s6 = rsp_report_exception (set_npc D (temp_uint32 l2) s5)
               in l2\<lparr>server := s6\<lparr>client_waiting := False\<rparr>\<rparr>)
         else if stallState s4 = STALLED
         then l2\<lparr>server := (rsp_report_exception s4)\<lparr>client_waiting := False\<rparr>\<rparr>
         else l2\<lparr>server := s4\<rparr>)"

text \<open>\<open>rsp_peek\<close> gives a signed \<open>char\<close>.\<close>

definition poll_client :: "'t dbg_ops \<Rightarrow> 't gdb \<Rightarrow> 't gdb" where
  "poll_client D s =
     (let (c1, sk1) = rsp_peek (client s);
          s1 = s\<lparr>client := sk1\<rparr>
      in if sint c1 > 0
         then (let (c2, sk2) = rsp_peek (client s1);
                   s2 = s1\<lparr>client := sk2\<rparr>
               in if c2 = 3 \<and> stallState s2 \<noteq> STALLED
                  then (rsp_interrupt D s2)\<lparr>client_waiting := False\<rparr>
                  else if \<not> client_waiting s2 then rsp_client_request D s2 else s2)
         else s1)"

text \<open>One iteration; \<open>None\<close> when the server waits for a connection that never comes.\<close>

definition handle_rsp_iter :: "'t dbg_ops \<Rightarrow> 't loop_state \<Rightarrow> 't loop_state option" where
  "handle_rsp_iter D l =
     (case wait_client (accepts l) (server l) of
        None \<Rightarrow> None
      | Some (evs, s) \<Rightarrow>
          (let l1 = l\<lparr>accepts := evs, server := s\<rparr>
           in if exited s then Some l1
              else (let l2 = (if client_waiting s then notify_client D l1 else l1)
                    in Some (l2\<lparr>server := poll_client D (server l2)\<rparr>))))"

text \<open>\<open>n\<close> iterations after \<open>rsp_init\<close>, fewer when the process exits or blocks.\<close>

fun handle_rsp_loop :: "'t dbg_ops \<Rightarrow> nat \<Rightarrow> 't loop_state \<Rightarrow> 't loop_state" where
  "handle_rsp_loop D 0 l = l"
| "handle_rsp_loop D (Suc n) l =
     (if exited (server l) then l
      else (case handle_rsp_iter D l of None \<Rightarrow> l | Some l' \<Rightarrow> handle_rsp_loop D n l'))"

definition handle_rsp :: "'t dbg_ops \<Rightarrow> accept_ev list \<Rightarrow> nat \<Rightarrow> 't gdb \<Rightarrow> 't loop_state" where
  "handle_rsp D evs n s =
     handle_rsp_loop D n
       \<lparr>accepts = evs, temp_uint32 = garbage s, temp_set = False, server = rsp_init D s\<rparr>"

end
