(* ===== verification/Soc.thy ===== *)
theory Soc
  imports RtlSim GdbServer
begin

text \<open>
  The simulated system behind the JTAG tasks of \<open>vpi_debug_module.v\<close>: instruction register, selected debug
  module, and the memory and registers the programmer sees.  A task for the wrong module or without the
  \<open>DEBUG\<close> instruction has no effect.  What a special register keeps of a value written to it is
  given by \<open>tv_keeps\<close> of the view, and a write of the PPC goes to the NPC, as in \<open>or1200_sprs.v\<close>.  The theory shows that the accesses of \<open>rsp-rtl_sim.c\<close>, through the
  pipes and the VPI tasks, keep the contract \<open>dbg_target\<close> of the server.
\<close>

record soc =
  soc_ir :: u32
  soc_sel :: u32
  soc_reset :: bool
  soc_view :: tview

definition soc_tap_reset :: "soc \<Rightarrow> soc" where
  "soc_tap_reset h = h\<lparr>soc_ir := JI_IDCODE, soc_sel := 15\<rparr>"

definition soc_set_instruction :: "u32 \<Rightarrow> soc \<Rightarrow> soc" where
  "soc_set_instruction ir h = h\<lparr>soc_ir := ir\<rparr>"

definition soc_id_code :: "soc \<Rightarrow> u32 \<times> soc" where
  "soc_id_code h = (if soc_ir h = JI_IDCODE then 0x14951185 else 0, h)"

definition soc_module_select :: "u32 \<Rightarrow> soc \<Rightarrow> soc" where
  "soc_module_select ch h = (if soc_ir h = JI_DEBUG then h\<lparr>soc_sel := ch\<rparr> else h)"

text \<open>Is the given module (0 for the bus, 1 for the CPU) reachable?\<close>

definition at_module :: "u32 \<Rightarrow> soc \<Rightarrow> bool" where
  "at_module m h \<longleftrightarrow> soc_ir h = JI_DEBUG \<and> soc_sel h = m"

definition soc_wr_ctrl :: "u32 \<Rightarrow> soc \<Rightarrow> soc" where
  "soc_wr_ctrl c h =
     (if at_module 1 h
      then h\<lparr>soc_reset := bit c 1,
             soc_view := (soc_view h)\<lparr>tv_stalled := bit c 0, tv_flushed := (tv_flushed (soc_view h) \<and> bit c 0)\<rparr>\<rparr>
      else h)"

definition soc_rd_ctrl :: "soc \<Rightarrow> u32 \<times> soc" where
  "soc_rd_ctrl h =
     ((if at_module 1 h then (if soc_reset h then 1 else 0) OR (if tv_stalled (soc_view h) then 2 else 0) else 0), h)"

definition soc_cpu_write :: "u32 \<Rightarrow> u32 list \<Rightarrow> soc \<Rightarrow> soc" where
  "soc_cpu_write adr ws h =
     (if at_module 1 h then h\<lparr>soc_view := regs_write adr (shifted_words ws) (soc_view h)\<rparr> else h)"

definition soc_cpu_read :: "u32 \<Rightarrow> nat \<Rightarrow> soc \<Rightarrow> u32 list \<times> soc" where
  "soc_cpu_read adr n h = (if at_module 1 h then regs_read (soc_view h) adr n else replicate n 0, h)"

definition soc_store :: "u32 \<Rightarrow> byte list \<Rightarrow> soc \<Rightarrow> soc" where
  "soc_store adr bs h =
     (if at_module 0 h then h\<lparr>soc_view := (soc_view h)\<lparr>tv_mem := mem_store adr bs (tv_mem (soc_view h))\<rparr>\<rparr> else h)"

definition soc_fetch :: "u32 \<Rightarrow> nat \<Rightarrow> soc \<Rightarrow> byte list \<times> soc" where
  "soc_fetch adr n h = (if at_module 0 h then mem_range (tv_mem (soc_view h)) adr n else replicate n 0, h)"

text \<open>A word on the bus has its most significant byte at the lowest address.\<close>

definition soc_tasks :: "soc hw_tasks" where
  "soc_tasks =
     \<lparr>hw_reset_tap = soc_tap_reset, hw_set_instruction = soc_set_instruction, hw_read_id_code = soc_id_code,
      hw_module_select = soc_module_select, hw_cpu_wr_ctrl = soc_wr_ctrl, hw_cpu_rd_ctrl = soc_rd_ctrl,
      hw_cpu_write = soc_cpu_write, hw_cpu_read = soc_cpu_read,
      hw_wb_write_32 = (\<lambda>w adr. soc_store adr (swap4 (le_bytes w))),
      hw_wb_write_16 = (\<lambda>w adr. soc_store adr [ucast (drop_bit 8 w), ucast w]),
      hw_wb_write_8 = (\<lambda>b adr. soc_store adr [b]),
      hw_wb_read_32 = (\<lambda>adr h. let (bs, h') = soc_fetch adr 4 h in (le_word (swap4 bs), h')),
      hw_wb_read_8 = (\<lambda>adr h. let (bs, h') = soc_fetch adr 1 h in (ucast (bs ! 0), h')),
      hw_wb_block_write = (\<lambda>adr ws. soc_store adr (swap4 (le_of_words ws))),
      hw_wb_block_read = (\<lambda>adr n h. let (bs, h') = soc_fetch adr (4 * n) h in (words_of_le (swap4 bs), h'))\<rparr>"

section \<open>The contract\<close>

definition rtl_view :: "soc rtl \<Rightarrow> tview" where
  "rtl_view r = soc_view (hw (sim r))"

text \<open>Idle link, the debug instruction loaded, and the cached chain is the module that is selected.\<close>

definition rtl_ok :: "soc rtl \<Rightarrow> bool" where
  "rtl_ok r \<longleftrightarrow> idle r \<and> chains_agree r \<and> soc_ir (hw (sim r)) = JI_DEBUG
     \<and> (current_chain r = - 1 \<or> soc_sel (hw (sim r)) = word_of_int (current_chain r))"

lemma rtl_ok_selected:
  assumes "rtl_ok r" "chain \<noteq> - 1"
  shows "rtl_ok (selected soc_tasks chain r)" "rtl_view (selected soc_tasks chain r) = rtl_view r"
    "at_module (word_of_int chain) (hw (sim (selected soc_tasks chain r)))"
  using assms
  by (auto simp: rtl_ok_def rtl_view_def selected_def soc_tasks_def soc_module_select_def at_module_def
      chains_agree_def idle_def with_hw_def)

lemma rtl_ok_with_hw:
  "rtl_ok r \<Longrightarrow> soc_ir h = soc_ir (hw (sim r)) \<Longrightarrow> soc_sel h = soc_sel (hw (sim r)) \<Longrightarrow> rtl_ok (with_hw r h)"
  "rtl_ok r \<Longrightarrow> length ds = 4096 \<Longrightarrow> soc_ir h = soc_ir (hw (sim r)) \<Longrightarrow> soc_sel h = soc_sel (hw (sim r)) \<Longrightarrow>
   rtl_ok (with_sim r ds h)"
  by (auto simp: rtl_ok_def)

lemma rtl_view_with [simp]: "rtl_view (with_hw r h) = soc_view h" "rtl_view (with_sim r ds h) = soc_view h"
  by (simp_all add: rtl_view_def)

lemma rtl_ok_idle: "rtl_ok r \<Longrightarrow> idle r" "rtl_ok r \<Longrightarrow> chains_agree r"
  by (simp_all add: rtl_ok_def)

lemma soc_frames [simp]:
  "soc_ir (soc_store a bs h) = soc_ir h" "soc_sel (soc_store a bs h) = soc_sel h"
  "soc_ir (soc_cpu_write a ws h) = soc_ir h" "soc_sel (soc_cpu_write a ws h) = soc_sel h"
  "soc_ir (soc_wr_ctrl c h) = soc_ir h" "soc_sel (soc_wr_ctrl c h) = soc_sel h"
  by (simp_all add: soc_store_def soc_cpu_write_def soc_wr_ctrl_def)

lemmas soc_task_simps = rtl_ops_def soc_tasks_def soc_fetch_def soc_store_def soc_cpu_write_def soc_cpu_read_def

lemma hw_view: "soc_view (hw (sim r)) = rtl_view r"
  by (simp add: rtl_view_def)

lemma rtl_read8:
  assumes "rtl_ok t"
  shows "\<exists>t'. op_wb_read8 (rtl_ops soc_tasks) a t = (0, tv_mem (rtl_view t) a, t') \<and> rtl_view t' = rtl_view t \<and> rtl_ok t'"
  using rtl_ok_selected [OF assms, of DC_WISHBONE] dbg_wb_read8_idle [OF rtl_ok_idle(1) [OF assms], of soc_tasks a]
  by (auto simp: soc_task_simps mem_range_def hw_view Let_def intro!: rtl_ok_with_hw)

lemma rtl_write8:
  assumes "rtl_ok t"
  shows "\<exists>t'. op_wb_write8 (rtl_ops soc_tasks) a b t = (0, t')
     \<and> rtl_view t' = (rtl_view t)\<lparr>tv_mem := (tv_mem (rtl_view t))(a := b)\<rparr> \<and> rtl_ok t'"
  using rtl_ok_selected [OF assms, of DC_WISHBONE] dbg_wb_write_idle(3) [OF rtl_ok_idle(1) [OF assms], of soc_tasks a b]
  by (auto simp: soc_task_simps hw_view Let_def intro!: rtl_ok_with_hw)

lemma rtl_read_block:
  assumes "rtl_ok t" "block_ok n"
  shows "\<exists>t'. op_wb_read_block32 (rtl_ops soc_tasks) a n t = (0, swap4 (mem_range (tv_mem (rtl_view t)) a n), t')
     \<and> rtl_view t' = rtl_view t \<and> rtl_ok t'"
proof -
  let ?r = "selected soc_tasks DC_WISHBONE t"
  let ?ws = "words_of_le (swap4 (mem_range (tv_mem (rtl_view t)) a n))"
  have n: "n mod 4 = 0" "4 * (n div 4) = n" using assms(2) by (auto simp: block_ok_def)
  note sel = rtl_ok_selected [OF assms(1), of DC_WISHBONE]
  have "hw_wb_block_read soc_tasks a (n div 4) (hw (sim ?r)) = (?ws, hw (sim ?r))"
    using sel n by (simp add: soc_task_simps hw_view)
  from dbg_wb_read_block32_idle [OF rtl_ok_idle(1) [OF assms(1)] assms(2) this] n sel show ?thesis
    by (auto simp: length_words_of_le le_of_words_of_le rtl_ops_def hw_view intro!: rtl_ok_with_hw)
qed

lemma rtl_write_block:
  assumes "rtl_ok t" "block_ok (length bs)"
  shows "\<exists>t'. op_wb_write_block32 (rtl_ops soc_tasks) a bs t = (0, t')
     \<and> rtl_view t' = (rtl_view t)\<lparr>tv_mem := mem_store a (swap4 bs) (tv_mem (rtl_view t))\<rparr> \<and> rtl_ok t'"
proof -
  have n: "length bs mod 4 = 0" using assms(2) by (simp add: block_ok_def)
  note sel = rtl_ok_selected [OF assms(1), of DC_WISHBONE]
  from dbg_wb_write_block32_idle [OF rtl_ok_idle(1) [OF assms(1)] assms(2), of soc_tasks a] n sel show ?thesis
    by (auto simp: le_of_words_of_le soc_task_simps hw_view Let_def intro!: rtl_ok_with_hw)
qed

lemma rtl_cpu_read:
  assumes "rtl_ok t" "block_ok n"
  shows "\<exists>t'. op_cpu0_read (rtl_ops soc_tasks) a n t = (0, le_of_words (regs_read (rtl_view t) a (n div 4)), t')
     \<and> rtl_view t' = rtl_view t \<and> rtl_ok t'"
proof -
  let ?r = "selected soc_tasks DC_CPU0 t"
  note sel = rtl_ok_selected [OF assms(1), of DC_CPU0]
  have "hw_cpu_read soc_tasks a (n div 4) (hw (sim ?r)) = (regs_read (rtl_view t) a (n div 4), hw (sim ?r))"
    using sel by (simp add: soc_task_simps hw_view)
  from dbg_cpu0_read_idle [OF rtl_ok_idle(1) [OF assms(1)] assms(2) this] sel show ?thesis
    by (auto simp: rtl_ops_def hw_view intro!: rtl_ok_with_hw)
qed

lemma rtl_cpu_write:
  assumes "rtl_ok t" "block_ok (length bs)"
  shows "\<exists>t'. op_cpu0_write (rtl_ops soc_tasks) a bs t = (0, t')
     \<and> rtl_view t' = regs_write a (shifted_words (words_of_le bs)) (rtl_view t) \<and> rtl_ok t'"
  using rtl_ok_selected [OF assms(1), of DC_CPU0] dbg_cpu0_write_idle [OF rtl_ok_idle(1) [OF assms(1)] assms(2), of soc_tasks a]
  by (auto simp: soc_task_simps hw_view Let_def intro!: rtl_ok_with_hw)

lemma rtl_read_ctrl:
  assumes "rtl_ok t" "tv_stalled (rtl_view t)"
  shows "\<exists>t' b. op_cpu0_read_ctrl (rtl_ops soc_tasks) 0 t = (0, b, t') \<and> b AND 1 = 1 \<and> rtl_view t' = rtl_view t \<and> rtl_ok t'"
  using rtl_ok_selected [OF assms(1), of DC_CPU0] assms(2)
    dbg_cpu0_read_ctrl_idle [OF rtl_ok_idle [OF assms(1)], of soc_tasks 0]
  by (auto simp: rtl_ops_def soc_tasks_def soc_rd_ctrl_def ctrl_byte_def hw_view Let_def intro!: rtl_ok_with_hw)

lemma rtl_write_ctrl:
  assumes "rtl_ok t"
  shows "\<exists>t'. op_cpu0_write_ctrl (rtl_ops soc_tasks) 0 0 t = (0, t')
       \<and> rtl_view t' = (rtl_view t)\<lparr>tv_stalled := False, tv_flushed := False\<rparr> \<and> rtl_ok t'"
    and "\<exists>t'. op_cpu0_write_ctrl (rtl_ops soc_tasks) 0 1 t = (0, t')
       \<and> rtl_view t' = (rtl_view t)\<lparr>tv_stalled := True\<rparr> \<and> rtl_ok t'"
  using rtl_ok_selected [OF assms, of DC_CPU0] dbg_cpu0_write_ctrl_idle [OF rtl_ok_idle [OF assms], of soc_tasks 0]
  by (auto simp: rtl_ops_def soc_tasks_def soc_wr_ctrl_def hw_view Let_def intro!: rtl_ok_with_hw)

interpretation rtl: dbg_target "rtl_ops soc_tasks" rtl_view rtl_ok
  by unfold_locales (intro rtl_read8 rtl_write8 rtl_read_block rtl_write_block rtl_cpu_read rtl_cpu_write rtl_read_ctrl
      rtl_write_ctrl; assumption)+

end
