(* ===== verification/PnBase.thy ===== *)
theory PnBase
  imports Prelude
begin

text \<open>
  What the modules of the ParaNut share: the configuration of \<open>src/sysc/config.h\<close> and the byte lanes of a word,
  which is big-endian (\<open>PN_BIG_ENDIAN\<close>): lane 0 of a byte-select vector is the most significant byte.
\<close>

section \<open>Configuration\<close>

abbreviation (input) CPU_CORES :: nat where "CPU_CORES \<equiv> 2"
abbreviation (input) CPU_CORES_CAP :: u32 where "CPU_CORES_CAP \<equiv> 3"
abbreviation (input) MEM_SIZE :: u32 where "MEM_SIZE \<equiv> 0x2000000"

definition AdrIsCached :: "u32 \<Rightarrow> bool" where
  "AdrIsCached adr \<longleftrightarrow> adr < MEM_SIZE"

definition AdrIsSpecial :: "u32 \<Rightarrow> bool" where
  "AdrIsSpecial adr \<longleftrightarrow> adr AND 0xf0000000 = 0x90000000"

section \<open>Byte lanes\<close>

definition lane_mask :: "nat \<Rightarrow> u32" where
  "lane_mask n = drop_bit (8 * n) 0xff000000"

definition merge_lane :: "4 word \<Rightarrow> nat \<Rightarrow> u32 \<Rightarrow> u32 \<Rightarrow> u32" where
  "merge_lane sel n new old = (if bit sel n then (old AND NOT (lane_mask n)) OR (new AND lane_mask n) else old)"

text \<open>The loops over the four lanes of \<open>lsu.cpp\<close>.\<close>

definition merge_lanes :: "4 word \<Rightarrow> u32 \<Rightarrow> u32 \<Rightarrow> u32" where
  "merge_lanes sel new old =
     merge_lane sel 3 new (merge_lane sel 2 new (merge_lane sel 1 new (merge_lane sel 0 new old)))"

lemma bit_lane_mask: "n < 4 \<Longrightarrow> bit (lane_mask n) k \<longleftrightarrow> k < 32 \<and> 3 - k div 8 = n"
proof -
  have m: "(0xff000000 :: u32) = push_bit 24 (mask 8)" by (simp add: mask_eq_exp_minus_1)
  assume n: "n < 4"
  have "bit (lane_mask n) k \<longleftrightarrow> k + 8 * n < 32 \<and> 24 \<le> k + 8 * n"
    unfolding lane_mask_def m bit_drop_bit_eq comp_def bit_push_bit_iff bit_mask_iff by auto
  with n show ?thesis by auto
qed

lemma bit_merge_lanes:
  "k < 32 \<Longrightarrow> bit (merge_lanes sel new old) k = (if bit sel (3 - k div 8) then bit new k else bit old k)"
proof -
  assume k: "k < 32"
  have "\<exists>!n. n < 4 \<and> 3 - k div 8 = n" by auto
  then consider "3 - k div 8 = 0" | "3 - k div 8 = 1" | "3 - k div 8 = 2" | "3 - k div 8 = 3" by linarith
  then show ?thesis
    by cases (simp_all add: merge_lanes_def merge_lane_def bit_and_iff bit_or_iff bit_not_iff bit_lane_mask k)
qed

lemma merge_none [simp]: "merge_lanes 0 new old = old"
  by (simp add: merge_lanes_def merge_lane_def)

lemma merge_same [simp]: "merge_lanes sel new (merge_lanes sel new old) = merge_lanes sel new old"
  by (rule bit_word_eqI) (simp add: bit_merge_lanes)

lemma merge_onto: "merge_lanes (v OR sel) (merge_lanes sel new d) old = merge_lanes sel new (merge_lanes v d old)"
  by (rule bit_word_eqI) (simp add: bit_merge_lanes bit_or_iff)

lemma merge_covered: "(sel :: 4 word) AND NOT v = 0 \<Longrightarrow> bit sel n \<Longrightarrow> bit v n"
  using bit_and_iff [of sel "NOT v" n] bit_imp_le_length [of sel n] by (auto simp: bit_not_iff)

lemma merge_full: "merge_lanes (- 1) new old = new"
proof (rule bit_word_eqI)
  fix n assume "n < LENGTH(32)"
  moreover have "3 - n div 8 < 4" by simp
  ultimately show "bit (merge_lanes (- 1) new old) n = bit new n" by (simp add: bit_merge_lanes del: bit_minus_1_iff) (simp add: bit_minus_1_iff)
qed

lemma width_cases:
  obtains "(w :: 2 word) = 0" | "w = 1" | "w = 2" | "w = 3"
proof -
  have "unat w < 4" using unsigned_less [of w] by simp
  then have "unat w = 0 \<or> unat w = 1 \<or> unat w = 2 \<or> unat w = 3" by linarith
  then show ?thesis using that by (auto simp: word_unat_eq_iff)
qed

section \<open>Units that keep a memory\<close>

text \<open>
  The contract of a unit in front of a memory, towards what uses it: the memory it shows (\<open>view\<close>) changes only by the
  requests it accepts, one at a time.  What a run does follows once for all such units.
\<close>

fun accepted :: "('i \<Rightarrow> 's \<Rightarrow> bool) \<Rightarrow> ('i \<Rightarrow> 's \<Rightarrow> 's) \<Rightarrow> 'i list \<Rightarrow> 's \<Rightarrow> 'i list" where
  "accepted acc clock (i # is) s = (if acc i s then [i] else []) @ accepted acc clock is (clock i s)"
| "accepted acc clock [] s = []"

locale buffered_memory =
  fixes inv :: "'s \<Rightarrow> bool" and view :: "'s \<Rightarrow> u32 \<Rightarrow> u32" and clock :: "'i \<Rightarrow> 's \<Rightarrow> 's"
    and ok :: "'i \<Rightarrow> bool" and acc :: "'i \<Rightarrow> 's \<Rightarrow> bool" and store :: "'i \<Rightarrow> (u32 \<Rightarrow> u32) \<Rightarrow> u32 \<Rightarrow> u32"
  assumes clock_inv: "inv s \<Longrightarrow> ok i \<Longrightarrow> inv (clock i s)"
    and clock_view: "inv s \<Longrightarrow> ok i \<Longrightarrow> view (clock i s) = (if acc i s then store i (view s) else view s)"
begin

lemma run_view:
  "inv s \<Longrightarrow> list_all ok is \<Longrightarrow>
     inv (fold clock is s) \<and> view (fold clock is s) = fold store (accepted acc clock is s) (view s)"
  by (induction "is" arbitrary: s) (simp_all add: clock_inv clock_view)

lemma run_unchanged:
  "inv s \<Longrightarrow> list_all ok is \<Longrightarrow> accepted acc clock is s = [] \<Longrightarrow> view (fold clock is s) = view s"
  by (simp add: run_view)

end

end
