(* ===== verification/PnExu.thy ===== *)
theory PnExu
  imports PnBase
begin

text \<open>
  The execution unit of the ParaNut, module \<open>MExu\<close> of \<open>src/sysc/exu.cpp\<close>.  The record \<open>exu\<close> holds the registers and
  output signals of the module, the locals of \<open>MainThread\<close> that live across a \<open>wait\<close>, and where the thread
  waits (\<open>exu_loc\<close>); \<open>exu_step\<close> runs the thread from one clock edge to its next \<open>wait\<close>.  Within such an activation a
  signal that is read has its value of before the edge: the definitions read the state \<open>s\<close> before the edge and
  collect the writes in \<open>t\<close>.  \<open>L_abort\<close> stands for a failed \<open>assert\<close>, \<open>ASSERTM\<close> or \<open>ERROR\<close>, which end the simulation.
\<close>

section \<open>Signals\<close>

text \<open>
  \<open>x_undef\<close> is the value \<open>GetSpr\<close> delivers where it ends without a \<open>return\<close>.
\<close>

record exu_in =
  x_ir_valid :: bool
  x_npc_valid :: bool
  x_ir :: u32
  x_ppc :: u32
  x_pc :: u32
  x_npc :: u32
  x_lsu_ack :: bool
  x_lsu_rdata :: u32
  x_lsu_wcond_ok :: bool
  x_undef :: u32

datatype exu_loc = L_exec | L_delay nat | L_top | L_load_ack | L_load_data | L_store_ack | L_sc_ack
  | L_flush_ack | L_flush_down | L_cache_ack | L_jal_next | L_jal_npc | L_rfe_next | L_rfe_skip
  | L_except_next | L_except_skip | L_halt | L_abort

record exu =
  inCePU :: bool
  localID :: nat
  regFile :: "nat \<Rightarrow> u32"
  regEPCR :: u32
  regEEAR :: u32
  regESR :: u32
  regCPUEN :: "nat \<Rightarrow> u32"
  regLM :: "nat \<Rightarrow> u32"
  regXT :: "nat \<Rightarrow> u32"
  regXID :: "nat \<Rightarrow> u32"
  regIFUADR :: u32
  regCY :: bool
  regOV :: bool
  regF :: bool
  regSUMRA :: bool
  regDSX :: bool
  regICE :: bool
  regDCE :: bool
  regIEE :: bool
  x_mode :: int
  x_next :: bool
  x_jump :: bool
  x_jump_adr :: u32
  x_rd :: bool
  x_wr :: bool
  x_flush :: bool
  x_invalidate :: bool
  x_writeback :: bool
  x_width :: "2 word"
  x_exts :: bool
  x_adr :: u32
  x_wdata :: u32
  x_rlink_wcond :: bool
  x_insn :: u32
  inDelaySlot :: bool
  nextInDelaySlot :: bool
  exceptId :: u32
  exceptRestart :: bool
  x_console :: "u32 list"
  x_loc :: exu_loc

section \<open>The arithmetic unit\<close>

datatype EAluFunc = afAdd | afAdc | afSub | afAnd | afOr | afXor | afMul | afSxx | afDiv | afDivu | afMulu
  | afExt | afCmov | afFx1 | afMovhi | afUnnamed

datatype EAluASrc = aaReg | aaPc

datatype EAluBSrc = abReg | abImm16s | abImm16z | abImm16hi | abImm162s | abImm26s

text \<open>The range selection of \<open>sc_uint\<close>, and the concatenation with a right part of width \<open>w\<close>.\<close>

definition sc_range :: "nat \<Rightarrow> nat \<Rightarrow> u32 \<Rightarrow> u32" where
  "sc_range hi lo x = take_bit (hi + 1 - lo) (drop_bit lo x)"

definition sc_concat :: "u32 \<Rightarrow> nat \<Rightarrow> u32 \<Rightarrow> u32" where
  "sc_concat x w y = push_bit w x OR y"

abbreviation insn_d :: "u32 \<Rightarrow> nat" where "insn_d insn \<equiv> unat (sc_range 25 21 insn)"
abbreviation insn_a :: "u32 \<Rightarrow> nat" where "insn_a insn \<equiv> unat (sc_range 20 16 insn)"
abbreviation insn_b :: "u32 \<Rightarrow> nat" where "insn_b insn \<equiv> unat (sc_range 15 11 insn)"

definition alu_inA :: "exu_in \<Rightarrow> exu \<Rightarrow> u32 \<Rightarrow> EAluASrc \<Rightarrow> u32" where
  "alu_inA i s insn aSrc = (case aSrc of aaPc \<Rightarrow> x_pc i | aaReg \<Rightarrow> regFile s (insn_a insn))"

definition alu_inB :: "exu \<Rightarrow> u32 \<Rightarrow> EAluBSrc \<Rightarrow> u32" where
  "alu_inB s insn bSrc =
     (case bSrc of
        abImm16z \<Rightarrow> insn AND 0xffff
      | abImm16s \<Rightarrow> ((insn AND 0xffff) XOR 0x8000) - 0x8000
      | abImm16hi \<Rightarrow> push_bit 16 (insn AND 0xffff)
      | abImm162s \<Rightarrow> (((insn AND 0x7ff) + drop_bit 10 (insn AND 0x03e00000)) XOR 0x8000) - 0x8000
      | abImm26s \<Rightarrow> push_bit 2 (((insn AND 0x03ffffff) XOR 0x02000000) - 0x02000000)
      | abReg \<Rightarrow> regFile s (insn_b insn))"

record alu_out =
  outRegD :: u32
  outCY :: bool
  outOV :: bool
  outF :: bool
  haveCyOv :: bool
  retDelay :: nat

definition alu_plain :: "u32 \<Rightarrow> alu_out" where
  "alu_plain r = \<lparr>outRegD = r, outCY = False, outOV = False, outF = False, haveCyOv = False, retDelay = 1\<rparr>"

text \<open>
  Addition, subtraction and the comparisons, on 33 bits.  The literal \<open>'0'\<close> put before a 32-bit operand is the
  character; as it is put before both operands, bit 32 of the result does not depend on how it is read.
\<close>

definition alu_addsub :: "EAluFunc \<Rightarrow> bool \<Rightarrow> u32 \<Rightarrow> u32 \<Rightarrow> u32 \<Rightarrow> alu_out" where
  "alu_addsub f cy d inA inB =
     (let signedB = (if f \<noteq> afSub then ucast inB else - ucast inB :: 33 word);
          result = ucast inA + signedB + (if f = afAdc \<and> cy then 1 else 0);
          out = ucast result;
          c = bit result 32;
          ov = (bit inA 31 \<and> bit signedB 31 \<and> \<not> bit out 31 \<or> \<not> bit inA 31 \<and> \<not> bit signedB 31 \<and> bit out 31);
          zero = (out = 0);
          lt = (if bit d 3 then c \<and> (bit inA 31 \<longleftrightarrow> bit inB 31) \<or> bit inA 31 \<and> \<not> bit inB 31 else c);
          fl = (if d \<le> 1 then bit d 0 \<noteq> zero
                else (let x = (if \<not> bit d 1 then lt else \<not> lt) in if bit d 1 \<noteq> bit d 0 then x \<noteq> zero else x))
      in \<lparr>outRegD = out, outCY = c, outOV = ov, outF = fl, haveCyOv = True, retDelay = 1\<rparr>)"

definition alu_shift :: "u32 \<Rightarrow> u32 \<Rightarrow> nat \<Rightarrow> u32" where
  "alu_shift op inA n =
     (if n > 0
      then (if op = 0 then sc_concat (sc_range (31 - n) 0 inA) n (sc_range (n - 1) 0 0)
            else if op = 1 then sc_concat (sc_range (n - 1) 0 0) (32 - n) (sc_range 31 n inA)
            else if op = 2 then sc_concat (sc_range (n - 1) 0 (if bit inA 31 then - 1 else 0)) (32 - n) (sc_range 31 n inA)
            else sc_concat (sc_range (31 - n) 0 inA) (32 - n) (sc_range 31 n inA))
      else inA)"

definition alu_ext :: "u32 \<Rightarrow> u32 \<Rightarrow> u32" where
  "alu_ext op inA =
     (if op = 0 then ((inA AND 0xffff) XOR 0x8000) - 0x8000
      else if op = 1 then ((inA AND 0xff) XOR 0x80) - 0x80
      else if op = 2 then inA AND 0xffff
      else inA AND 0xff)"

text \<open>The operation proper; \<open>None\<close> for the functions that \<open>assert (false)\<close>.\<close>

definition alu_run :: "bool \<Rightarrow> bool \<Rightarrow> u32 \<Rightarrow> EAluFunc \<Rightarrow> u32 \<Rightarrow> u32 \<Rightarrow> alu_out option" where
  "alu_run cy fl insn f inA inB =
     (case f of
        afAdd \<Rightarrow> Some (alu_addsub f cy (sc_range 25 21 insn) inA inB)
      | afAdc \<Rightarrow> Some (alu_addsub f cy (sc_range 25 21 insn) inA inB)
      | afSub \<Rightarrow> Some (alu_addsub f cy (sc_range 25 21 insn) inA inB)
      | afAnd \<Rightarrow> Some (alu_plain (inA AND inB))
      | afOr \<Rightarrow> Some (alu_plain (inA OR inB))
      | afXor \<Rightarrow> Some (alu_plain (inA XOR inB))
      | afMulu \<Rightarrow> Some ((alu_plain (inA * inB))\<lparr>haveCyOv := True, retDelay := 3\<rparr>)
      | afMul \<Rightarrow> Some ((alu_plain (inA * inB))\<lparr>haveCyOv := True, retDelay := 3\<rparr>)
      | afSxx \<Rightarrow> (let n = unat (sc_range 4 0 inB)
                 in Some ((alu_plain (alu_shift (sc_range 7 6 insn) inA n))\<lparr>retDelay := max n 1\<rparr>))
      | afExt \<Rightarrow> Some (alu_plain (alu_ext (sc_range 7 6 insn) inA))
      | afMovhi \<Rightarrow> Some (alu_plain inB)
      | afCmov \<Rightarrow> Some (alu_plain (if fl then inA else inB))
      | _ \<Rightarrow> None)"

definition RunAlu :: "exu_in \<Rightarrow> exu \<Rightarrow> u32 \<Rightarrow> EAluFunc \<Rightarrow> EAluASrc \<Rightarrow> EAluBSrc \<Rightarrow> bool \<Rightarrow> bool \<Rightarrow> bool \<Rightarrow> exu
    \<Rightarrow> (nat \<times> u32 \<times> exu) option" where
  "RunAlu i s insn f aSrc bSrc setRegD setCyOv setF t =
     (case alu_run (regCY s) (regF s) insn f (alu_inA i s insn aSrc) (alu_inB s insn bSrc) of
        None \<Rightarrow> None
      | Some r \<Rightarrow>
          (let t1 = (if setRegD then t\<lparr>regFile := (regFile t)(insn_d insn := outRegD r)\<rparr> else t);
               t2 = (if setCyOv \<and> haveCyOv r then t1\<lparr>regCY := outCY r, regOV := outOV r\<rparr> else t1);
               t3 = (if setF then t2\<lparr>regF := outF r\<rparr> else t2)
           in Some (retDelay r, outRegD r, t3)))"

section \<open>Special registers\<close>

text \<open>The values of \<open>ESpr\<close> the code names; \<open>None\<close> is the \<open>ERROR\<close> for the general purpose registers.\<close>

definition spr_in :: "u32 \<Rightarrow> u32 \<Rightarrow> u32 \<Rightarrow> bool" where
  "spr_in r base n \<longleftrightarrow> base \<le> r \<and> r \<le> base + n"

definition spr_ofs :: "u32 \<Rightarrow> u32 \<Rightarrow> nat" where
  "spr_ofs r base = unat (r - base)"

abbreviation (input) sprSR :: u32 where "sprSR \<equiv> 17"

definition sr_bit :: "nat \<Rightarrow> bool \<Rightarrow> u32" where
  "sr_bit n b = (if b then push_bit n 1 else 0)"

definition sr_flags :: "exu \<Rightarrow> u32" where
  "sr_flags s =
     sr_bit 16 (regSUMRA s) OR sr_bit 15 True OR sr_bit 13 (regDSX s) OR sr_bit 11 (regOV s) OR sr_bit 10 (regCY s)
     OR sr_bit 9 (regF s) OR sr_bit 4 (regICE s) OR sr_bit 3 (regDCE s) OR sr_bit 2 (regIEE s) OR sr_bit 0 True"

definition GetSpr :: "exu_in \<Rightarrow> exu \<Rightarrow> u32 \<Rightarrow> u32 option" where
  "GetSpr i s r =
     (if spr_in r 32 15 then Some (regEPCR s)
      else if spr_in r 48 15 then Some (regEEAR s)
      else if spr_in r 64 15 then Some (regESR s)
      else if spr_in r 1024 511 then None
      else if spr_in r 0xc020 31 \<and> localID s = 0 then Some CPU_CORES_CAP
      else if spr_in r 0xc040 31 \<and> localID s = 0 then Some (regCPUEN s (spr_ofs r 0xc040))
      else if spr_in r 0xc060 31 \<and> localID s = 0 then Some (regLM s (spr_ofs r 0xc060))
      else if spr_in r 0xc080 31 \<and> localID s = 0 then Some (regXT s (spr_ofs r 0xc080))
      else if spr_in r 0xc400 1023 \<and> localID s = 0 then Some (regXID s (spr_ofs r 0xc400))
      else if r = 0xc000 \<and> localID s = 0 then Some (of_nat CPU_CORES)
      else if r = 0 then Some 0x01000000
      else if r = 1 then Some 0x00000007
      else if r = 2 then Some (0x00000020 + 0x10)
      else if r = 3 \<or> r = 4 then Some 0
      else if r = 5 \<or> r = 6 then Some 0
      else if r = 7 then Some 0
      else if r = 8 then Some 0
      else if r = 16 then Some (x_pc i)
      else if r = 18 then Some (x_ppc i)
      else if r = 20 then Some 0
      else if r = sprSR then Some (sr_flags s)
      else if r = 0xc010 then Some (of_nat (localID s))
      else Some (x_undef i))"

definition SetSpr :: "exu_in \<Rightarrow> exu \<Rightarrow> u32 \<Rightarrow> u32 \<Rightarrow> exu \<Rightarrow> exu option" where
  "SetSpr i s r val t =
     (if spr_in r 32 15 then Some (t\<lparr>regEPCR := val\<rparr>)
      else if spr_in r 48 15 then Some t
      else if spr_in r 64 15 then Some t
      else if spr_in r 1024 511 then None
      else if spr_in r 0xc040 31 \<and> localID s = 0
      then Some (t\<lparr>regIFUADR := x_npc i, regCPUEN := (regCPUEN t)(spr_ofs r 0xc040 := val)\<rparr>)
      else if spr_in r 0xc060 31 \<and> localID s = 0 then Some (t\<lparr>regLM := (regLM t)(spr_ofs r 0xc060 := val)\<rparr>)
      else if r = sprSR
      then Some (t\<lparr>regSUMRA := bit val 16, regOV := bit val 11, regCY := bit val 10, regF := bit val 9,
                  regICE := bit val 4, regDCE := bit val 3, regIEE := bit val 2\<rparr>)
      else Some t)"

section \<open>The main thread\<close>

text \<open>The top of the loop, up to its \<open>wait\<close>.\<close>

definition exu_top :: "exu \<Rightarrow> exu" where
  "exu_top t = t\<lparr>regFile := (regFile t)(0 := 0), x_next := False, x_jump := False, x_rd := False, x_wr := False,
                 x_invalidate := False, x_writeback := False, x_loc := L_exec\<rparr>"

definition exu_reset :: "exu \<Rightarrow> exu" where
  "exu_reset s = exu_top (s\<lparr>x_mode := (if inCePU s then 3 else 0), inDelaySlot := False, nextInDelaySlot := False,
                            x_next := False, exceptId := 0, regICE := False, regDCE := False, regIEE := False\<rparr>)"

definition exu_abort :: "exu \<Rightarrow> exu" where
  "exu_abort t = t\<lparr>x_loc := L_abort\<rparr>"

text \<open>The exception handling at the end of the loop body, which otherwise goes round.\<close>

definition exu_end :: "exu_in \<Rightarrow> exu \<Rightarrow> exu \<Rightarrow> exu" where
  "exu_end i s t =
     (if exceptId t > 0
      then (if inCePU t
            then (case GetSpr i s sprSR of
                    None \<Rightarrow> exu_abort t
                  | Some sr \<Rightarrow>
                      t\<lparr>regESR := sr,
                        regEPCR := (if exceptRestart t then (if inDelaySlot t then x_ppc i else x_pc i) else x_npc i),
                        regIEE := False, x_jump_adr := exceptId t * 0x100, x_jump := True, x_next := True,
                        x_loc := L_except_next\<rparr>)
            else exu_abort t)
      else exu_top t)"

text \<open>\<open>ifu_next = 1; wait (1)\<close> and on to the end of the body, after \<open>wait (delay - 1)\<close>.\<close>

definition exu_next :: "exu \<Rightarrow> exu" where
  "exu_next t = t\<lparr>x_next := True, x_loc := L_top\<rparr>"

definition exu_delay :: "nat \<Rightarrow> exu \<Rightarrow> exu" where
  "exu_delay delay t = (if delay > 1 then t\<lparr>x_loc := L_delay (delay - 1)\<rparr> else exu_next t)"

definition exu_alu :: "exu_in \<Rightarrow> exu \<Rightarrow> EAluFunc \<Rightarrow> EAluBSrc \<Rightarrow> bool \<Rightarrow> bool \<Rightarrow> bool \<Rightarrow> exu \<Rightarrow> exu" where
  "exu_alu i s f bSrc setRegD setCyOv setF t =
     (case RunAlu i s (x_insn t) f aaReg bSrc setRegD setCyOv setF t of
        None \<Rightarrow> exu_abort t
      | Some (delay, r, t') \<Rightarrow> exu_delay delay t')"

text \<open>Address calculations; additions and \<open>afOr\<close> take one clock, so there is no \<open>wait\<close> here.\<close>

definition exu_addr :: "exu_in \<Rightarrow> exu \<Rightarrow> EAluFunc \<Rightarrow> EAluASrc \<Rightarrow> EAluBSrc \<Rightarrow> exu \<Rightarrow> (u32 \<Rightarrow> exu) \<Rightarrow> exu" where
  "exu_addr i s f aSrc bSrc t k =
     (case RunAlu i s (x_insn t) f aSrc bSrc False False False t of
        None \<Rightarrow> exu_abort t
      | Some (delay, adr, t') \<Rightarrow> k adr)"

text \<open>The loops \<open>while (lsu_ack == 0) wait (1)\<close>, each with what follows it up to the next \<open>wait\<close>.\<close>

definition exu_load_wait :: "exu_in \<Rightarrow> exu \<Rightarrow> exu" where
  "exu_load_wait i t =
     (if x_lsu_ack i then t\<lparr>x_rd := False, x_next := True, x_loc := L_load_data\<rparr> else t\<lparr>x_loc := L_load_ack\<rparr>)"

definition exu_store_wait :: "exu_in \<Rightarrow> exu \<Rightarrow> exu" where
  "exu_store_wait i t =
     (if x_lsu_ack i then exu_next (t\<lparr>x_wr := False\<rparr>) else t\<lparr>x_loc := L_store_ack\<rparr>)"

definition exu_sc_wait :: "exu_in \<Rightarrow> exu \<Rightarrow> exu" where
  "exu_sc_wait i t =
     (if x_lsu_ack i then exu_next (t\<lparr>x_wr := False, regF := True\<rparr>) else t\<lparr>x_loc := L_sc_ack\<rparr>)"

definition exu_flush_wait :: "exu_in \<Rightarrow> exu \<Rightarrow> exu" where
  "exu_flush_wait i t =
     (if x_lsu_ack i then t\<lparr>x_flush := False, x_loc := L_flush_down\<rparr> else t\<lparr>x_loc := L_flush_ack\<rparr>)"

definition exu_cache_wait :: "exu_in \<Rightarrow> exu \<Rightarrow> exu" where
  "exu_cache_wait i t =
     (if x_lsu_ack i then exu_next (t\<lparr>x_invalidate := False, x_writeback := False\<rparr>) else t\<lparr>x_loc := L_cache_ack\<rparr>)"

text \<open>The waits for the instruction fetch unit.\<close>

definition exu_link_wait :: "exu_in \<Rightarrow> exu \<Rightarrow> exu" where
  "exu_link_wait i t =
     (if x_npc_valid i
      then t\<lparr>regFile := (regFile t)(9 := x_npc i), x_jump := True, x_loc := L_top\<rparr>
      else t\<lparr>x_loc := L_jal_npc\<rparr>)"

definition exu_rfe_wait :: "exu_in \<Rightarrow> exu \<Rightarrow> exu \<Rightarrow> exu" where
  "exu_rfe_wait i s t = (if x_ir_valid i then exu_end i s t else t\<lparr>x_loc := L_rfe_skip\<rparr>)"

definition exu_except_wait :: "exu_in \<Rightarrow> exu \<Rightarrow> exu" where
  "exu_except_wait i t = (if x_ir_valid i then exu_top (t\<lparr>exceptId := 0\<rparr>) else t\<lparr>x_loc := L_except_skip\<rparr>)"

text \<open>The cast of a function code to the enumeration.\<close>

definition alu_func :: "u32 \<Rightarrow> EAluFunc" where
  "alu_func n =
     (if n = 0x0 then afAdd else if n = 0x1 then afAdc else if n = 0x2 then afSub else if n = 0x3 then afAnd
      else if n = 0x4 then afOr else if n = 0x5 then afXor else if n = 0x6 then afMul else if n = 0x8 then afSxx
      else if n = 0x9 then afDiv else if n = 0xa then afDivu else if n = 0xb then afMulu else if n = 0xc then afExt
      else if n = 0xe then afCmov else if n = 0xf then afFx1 else if n = 0x10 then afMovhi else afUnnamed)"

definition aluFuncTable :: "EAluFunc list" where
  "aluFuncTable = [afAdd, afAdc, afAnd, afOr, afXor, afMul]"

definition signExtTable :: "bool list" where
  "signExtTable = [True, True, False, False, True, True]"

text \<open>Jumps and branches.\<close>

definition exu_jump :: "exu_in \<Rightarrow> exu \<Rightarrow> u32 \<Rightarrow> exu \<Rightarrow> exu" where
  "exu_jump i s opcode t =
     (if opcode \<le> 0x01 \<or> opcode \<ge> 0x11 \<or> regF s = bit (x_insn t) 28
      then (let go = (\<lambda>adr.
                 let t1 = t\<lparr>x_jump_adr := adr, nextInDelaySlot := True\<rparr>
                 in if opcode = 0x01 \<or> opcode = 0x12 then t1\<lparr>x_next := True, x_loc := L_jal_next\<rparr>
                    else t1\<lparr>x_jump := True, x_next := True, x_loc := L_top\<rparr>)
            in if opcode \<ge> 0x11 then go (regFile s (insn_b (x_insn t)))
               else exu_addr i s afAdd aaPc abImm26s t go)
      else exu_next t)"

definition exu_nop :: "exu \<Rightarrow> exu \<Rightarrow> exu" where
  "exu_nop s t =
     (let code = sc_range 15 0 (x_insn t)
      in if code = 0x0001 then t\<lparr>x_mode := 0, x_loc := L_halt\<rparr>
         else if code = 0x0004 then exu_next (t\<lparr>x_console := x_console t @ [regFile s 3 AND 0xff]\<rparr>)
         else exu_next t)"

definition exu_rfe :: "exu_in \<Rightarrow> exu \<Rightarrow> exu \<Rightarrow> exu" where
  "exu_rfe i s t =
     (case SetSpr i s sprSR (regESR s) t of
        None \<Rightarrow> exu_abort t
      | Some t1 \<Rightarrow> t1\<lparr>x_jump_adr := regEPCR s, x_jump := True, x_next := True, x_loc := L_rfe_next\<rparr>)"

definition exu_mfspr :: "exu_in \<Rightarrow> exu \<Rightarrow> exu \<Rightarrow> exu" where
  "exu_mfspr i s t =
     exu_addr i s afOr aaReg abImm16z t (\<lambda>regNo.
       case GetSpr i s (regNo AND 0xffff) of
         None \<Rightarrow> exu_abort t
       | Some v \<Rightarrow> exu_next (t\<lparr>regFile := (regFile t)(insn_d (x_insn t) := v)\<rparr>))"

definition exu_mtspr :: "exu_in \<Rightarrow> exu \<Rightarrow> exu \<Rightarrow> exu" where
  "exu_mtspr i s t =
     exu_addr i s afOr aaReg abImm162s t (\<lambda>regNo.
       case SetSpr i s (regNo AND 0xffff) (regFile s (insn_b (x_insn t))) t of
         None \<Rightarrow> exu_abort t
       | Some t1 \<Rightarrow> exu_next t1)"

definition exu_load :: "exu_in \<Rightarrow> exu \<Rightarrow> 2 word \<Rightarrow> bool \<Rightarrow> exu \<Rightarrow> exu" where
  "exu_load i s width signExt t =
     exu_addr i s afAdd aaReg abImm16s t (\<lambda>adr.
       exu_load_wait i (t\<lparr>x_adr := adr, x_width := width, x_exts := signExt, x_rd := True\<rparr>))"

definition exu_store :: "exu_in \<Rightarrow> exu \<Rightarrow> 2 word \<Rightarrow> exu \<Rightarrow> exu" where
  "exu_store i s width t =
     exu_addr i s afAdd aaReg abImm162s t (\<lambda>adr.
       exu_store_wait i (t\<lparr>x_adr := adr, x_wdata := regFile s (insn_b (x_insn t)), x_width := width, x_wr := True\<rparr>))"

definition exu_sc :: "exu_in \<Rightarrow> exu \<Rightarrow> exu \<Rightarrow> exu" where
  "exu_sc i s t =
     exu_addr i s afAdd aaReg abImm162s t (\<lambda>adr.
       if x_lsu_wcond_ok i
       then exu_sc_wait i (t\<lparr>x_adr := adr, x_wdata := regFile s (insn_b (x_insn t)), x_width := 0, x_wr := True\<rparr>)
       else exu_next (t\<lparr>x_adr := adr, regF := False\<rparr>))"

definition exu_cache :: "exu_in \<Rightarrow> exu \<Rightarrow> exu \<Rightarrow> exu" where
  "exu_cache i s t =
     exu_addr i s afAdd aaReg abImm162s t (\<lambda>adr. exu_flush_wait i (t\<lparr>x_adr := adr, x_flush := True\<rparr>))"

text \<open>The decoder, in the order of its tests.\<close>

definition exu_decode :: "exu_in \<Rightarrow> exu \<Rightarrow> exu \<Rightarrow> exu" where
  "exu_decode i s t =
     (let insn = x_insn t; opcode = sc_range 31 26 insn
      in if opcode = 0x38 then exu_alu i s (alu_func (sc_range 3 0 insn)) abReg True True False t
         else if opcode = 0x39 then exu_alu i s afSub abReg False False True t
         else if opcode \<ge> 0x27 \<and> opcode \<le> 0x2c
         then exu_alu i s (aluFuncTable ! unat (opcode - 0x27))
                (if signExtTable ! unat (opcode - 0x27) then abImm16s else abImm16z) True True False t
         else if opcode = 0x2e then exu_alu i s afSxx abImm16s True True False t
         else if opcode = 0x2f then exu_alu i s afSub abImm16s False False True t
         else if opcode = 0x06 then exu_alu i s afMovhi abImm16hi True False False t
         else if opcode \<ge> 0x21 \<and> opcode \<le> 0x26
         then exu_load i s (ucast (drop_bit 1 ((opcode - 1) AND 6))) (opcode AND 1 = 0) t
         else if opcode \<ge> 0x35 \<and> opcode \<le> 0x37 then exu_store i s (ucast ((opcode - 1) AND 3)) t
         else if opcode = 0x1b then exu_load i s 0 (opcode AND 1 = 0) (t\<lparr>x_rlink_wcond := True\<rparr>)
         else if opcode = 0x33 then exu_sc i s t
         else if opcode = 0x3e then exu_cache i s t
         else if opcode \<le> 0x04 \<or> opcode = 0x11 \<or> opcode = 0x12 then exu_jump i s opcode t
         else if opcode = 0x05 then exu_nop s t
         else if opcode = 0x08 \<and> sc_range 25 21 insn = 0
         then exu_end i s (t\<lparr>exceptId := 0xc, exceptRestart := False\<rparr>)
         else if opcode = 0x09 then exu_rfe i s t
         else if opcode = 0x2d then exu_mfspr i s t
         else if opcode = 0x30 then exu_mtspr i s t
         else exu_abort t)"

definition exu_exec :: "exu_in \<Rightarrow> exu \<Rightarrow> exu" where
  "exu_exec i s =
     (let mode = (if regCPUEN s (localID s div 32) AND push_bit (localID s mod 32) 1 \<noteq> 0 \<or> inCePU s then 1 else 0);
          t = s\<lparr>x_mode := mode\<rparr>
      in if mode = 0 then exu_top t
         else if x_ir_valid i
         then exu_decode i s (t\<lparr>x_insn := x_ir i, inDelaySlot := nextInDelaySlot s, nextInDelaySlot := False\<rparr>)
         else exu_end i s t)"

definition exu_step :: "exu_in \<Rightarrow> exu \<Rightarrow> exu" where
  "exu_step i s =
     (case x_loc s of
        L_exec \<Rightarrow> exu_exec i s
      | L_delay n \<Rightarrow> (if n > 1 then s\<lparr>x_loc := L_delay (n - 1)\<rparr> else exu_next s)
      | L_top \<Rightarrow> exu_end i s s
      | L_load_ack \<Rightarrow> exu_load_wait i s
      | L_load_data \<Rightarrow> exu_end i s (s\<lparr>regFile := (regFile s)(insn_d (x_insn s) := x_lsu_rdata i)\<rparr>)
      | L_store_ack \<Rightarrow> exu_store_wait i s
      | L_sc_ack \<Rightarrow> exu_sc_wait i s
      | L_flush_ack \<Rightarrow> exu_flush_wait i s
      | L_flush_down \<Rightarrow> exu_cache_wait i (s\<lparr>x_invalidate := bit (x_insn s) 11, x_writeback := bit (x_insn s) 12\<rparr>)
      | L_cache_ack \<Rightarrow> exu_cache_wait i s
      | L_jal_next \<Rightarrow> s\<lparr>x_next := False, x_loc := L_jal_npc\<rparr>
      | L_jal_npc \<Rightarrow> exu_link_wait i s
      | L_rfe_next \<Rightarrow> s\<lparr>x_next := False, x_jump := False, x_loc := L_rfe_skip\<rparr>
      | L_rfe_skip \<Rightarrow> exu_rfe_wait i s s
      | L_except_next \<Rightarrow> exu_except_wait i (s\<lparr>x_next := False, x_jump := False\<rparr>)
      | L_except_skip \<Rightarrow> exu_except_wait i s
      | L_halt \<Rightarrow> s
      | L_abort \<Rightarrow> s)"

definition exu_run :: "exu_in list \<Rightarrow> exu \<Rightarrow> exu" where
  "exu_run is s = fold exu_step is s"

section \<open>The arithmetic\<close>

lemma odd_div_top:
  fixes x m :: int
  assumes "0 \<le> x" "x < 2 * m"
  shows "odd (x div m) \<longleftrightarrow> m \<le> x"
proof (cases "m \<le> x")
  case True
  then have "x div m = 1" using assms by (intro int_div_pos_eq [where r = "x - m"]) simp_all
  with True show ?thesis by simp
next
  case False
  with assms show ?thesis by (simp add: div_pos_pos_trivial)
qed

lemma bit_31_iff: "bit (a :: u32) 31 \<longleftrightarrow> 2 ^ 31 \<le> uint a"
proof -
  have "bit a 31 \<longleftrightarrow> odd (uint a div 2 ^ 31)" using bit_uint_iff [of a 31] by (simp add: bit_iff_odd [of "uint a"])
  moreover have "odd (uint a div 2 ^ 31) \<longleftrightarrow> 2 ^ 31 \<le> uint a"
    by (rule odd_div_top) (use uint_bounded [of a] in simp_all)
  ultimately show ?thesis by simp
qed

lemma bit_32_iff: "bit (w :: 33 word) 32 \<longleftrightarrow> 2 ^ 32 \<le> uint w"
proof -
  have "bit w 32 \<longleftrightarrow> odd (uint w div 2 ^ 32)" using bit_uint_iff [of w 32] by (simp add: bit_iff_odd [of "uint w"])
  moreover have "odd (uint w div 2 ^ 32) \<longleftrightarrow> 2 ^ 32 \<le> uint w"
    by (rule odd_div_top) (use uint_bounded [of w] in simp_all)
  ultimately show ?thesis by simp
qed

lemma sint_u32: "sint (a :: u32) = uint a - (if bit a 31 then 2 ^ 32 else 0)"
  using bit_uint_iff [of a 31] uint_bounded [of a]
  by (simp add: sint_uint signed_take_bit_eq_take_bit_minus take_bit_int_eq_self)

definition signed_fits :: "int \<Rightarrow> bool" where
  "signed_fits x \<longleftrightarrow> - (2 ^ 31) \<le> x \<and> x < 2 ^ 31"

lemma uint_add33: "uint (ucast (a :: u32) + ucast (b :: u32) + (if c then 1 else 0) :: 33 word)
    = uint a + uint b + (if c then 1 else 0)"
proof -
  have "uint a < 2 ^ 32" "uint b < 2 ^ 32" using uint_bounded [of a] uint_bounded [of b] by simp_all
  then show ?thesis by (simp add: uint_word_ariths uint_up_ucast is_up)
qed

lemma uint_sub33: "uint (ucast (a :: u32) + - ucast (b :: u32) :: 33 word) = (uint a - uint b) mod 2 ^ 33"
  by (simp add: uint_word_ariths uint_up_ucast is_up mod_simps)

lemma ucast_32_of_33: "ucast (w :: 33 word) = (word_of_int (uint w) :: u32)"
  by simp

lemma ucast_add33: "ucast (ucast (a :: u32) + ucast (b :: u32) + (if c then 1 else 0) :: 33 word) = a + b + (if c then 1 else 0)"
  unfolding ucast_32_of_33 uint_add33 by simp

lemma ucast_sub33: "ucast (ucast (a :: u32) + - ucast (b :: u32) :: 33 word) = a - b"
proof -
  have z: "(8589934592 :: u32) = 0" by (rule word_uint_eqI) simp
  have "(uint a - uint b) mod 2 ^ 33 = uint a - uint b - 2 ^ 33 * ((uint a - uint b) div 2 ^ 33)"
    by (simp only: minus_mult_div_eq_mod)
  then have "(word_of_int ((uint a - uint b) mod 2 ^ 33) :: u32) = a - b"
    by (simp del: minus_mod_eq_mult_div) (simp only: z mult_zero_left)
  then show ?thesis unfolding ucast_32_of_33 uint_sub33 .
qed

text \<open>The conditions of the set-flag instructions of the architecture, by their code.\<close>

definition or1k_cond :: "u32 \<Rightarrow> u32 \<Rightarrow> u32 \<Rightarrow> bool" where
  "or1k_cond d a b =
     (if d = 0x0 then a = b else if d = 0x1 then a \<noteq> b
      else if d = 0x2 then uint a > uint b else if d = 0x3 then uint a \<ge> uint b
      else if d = 0x4 then uint a < uint b else if d = 0x5 then uint a \<le> uint b
      else if d = 0xa then sint a > sint b else if d = 0xb then sint a \<ge> sint b
      else if d = 0xc then sint a < sint b else sint a \<le> sint b)"

abbreviation or1k_conds :: "u32 set" where
  "or1k_conds \<equiv> {0x0, 0x1, 0x2, 0x3, 0x4, 0x5, 0xa, 0xb, 0xc, 0xd}"

lemma alu_borrow: "bit (ucast (a :: u32) + - ucast (b :: u32) :: 33 word) 32 \<longleftrightarrow> uint a < uint b"
proof -
  have r: "0 \<le> uint a" "uint a < 2 ^ 32" "0 \<le> uint b" "uint b < 2 ^ 32"
    using uint_bounded [of a] uint_bounded [of b] by simp_all
  have p: "(2 :: int) ^ 33 = 2 * 2 ^ 32" by simp
  have "2 ^ 32 \<le> (uint a - uint b) mod 2 ^ 33 \<longleftrightarrow> uint a < uint b"
  proof (cases "uint a < uint b")
    case True
    have "(uint a - uint b) mod 2 ^ 33 = (uint a - uint b + 2 ^ 33) mod 2 ^ 33" by (simp only: mod_add_self2)
    also have "\<dots> = uint a - uint b + 2 ^ 33" by (rule mod_pos_pos_trivial) (use r True p in linarith)+
    finally have "(uint a - uint b) mod 2 ^ 33 = uint a - uint b + 2 ^ 33" .
    then show ?thesis using r True p by linarith
  next
    case False
    then have "(uint a - uint b) mod 2 ^ 33 = uint a - uint b" using r p by (intro mod_pos_pos_trivial) linarith+
    with False r show ?thesis by linarith
  qed
  then show ?thesis by (simp only: bit_32_iff uint_sub33)
qed

lemma alu_signed_less:
  "(uint (a :: u32) < uint (b :: u32) \<and> (bit a 31 \<longleftrightarrow> bit b 31) \<or> bit a 31 \<and> \<not> bit b 31) \<longleftrightarrow> sint a < sint b"
proof -
  have r: "0 \<le> uint a" "uint a < 2 ^ 32" "0 \<le> uint b" "uint b < 2 ^ 32"
    using uint_bounded [of a] uint_bounded [of b] by simp_all
  show ?thesis
    using r bit_31_iff [of a] bit_31_iff [of b]
    by (cases "bit a 31"; cases "bit b 31"; simp only: sint_u32 if_True if_False simp_thms; linarith)
qed

lemma alu_sub:
  "alu_addsub afSub cy d a b =
     \<lparr>outRegD = a - b, outCY = uint a < uint b,
      outOV = (bit a 31 \<and> bit (- b) 31 \<and> \<not> bit (a - b) 31 \<or> \<not> bit a 31 \<and> \<not> bit (- b) 31 \<and> bit (a - b) 31),
      outF = (if d \<le> 1 then bit d 0 \<noteq> (a = b)
       else (let lt = (if bit d 3 then sint a < sint b else uint a < uint b);
                 x = (if \<not> bit d 1 then lt else \<not> lt) in if bit d 1 \<noteq> bit d 0 then x \<noteq> (a = b) else x)),
      haveCyOv = True, retDelay = 1\<rparr>"
proof -
  have b: "bit (- ucast b :: 33 word) 31 = bit (- b) 31"
  proof -
    have "bit (ucast (ucast (0 :: u32) + - ucast b :: 33 word) :: u32) 31 = bit (- b) 31" unfolding ucast_sub33 by simp
    then show ?thesis by (simp add: bit_unsigned_iff)
  qed
  show ?thesis
    using alu_signed_less [of a b]
    unfolding alu_addsub_def Let_def by (simp only: ucast_sub33 alu_borrow b simp_thms if_False if_True EAluFunc.distinct add_0_right) simp
qed

lemma or1k_conds_cases:
  assumes "d \<in> or1k_conds"
  obtains "d = 0x0" | "d = 0x1" | "d = 0x2" | "d = 0x3" | "d = 0x4" | "d = 0x5" | "d = 0xa" | "d = 0xb" | "d = 0xc" | "d = 0xd"
  using assms by blast

lemma alu_flag:
  assumes "d \<in> or1k_conds"
  shows "outF (alu_addsub afSub cy d a b) = or1k_cond d a b"
proof -
  have eq: "a = b \<longleftrightarrow> uint a = uint b" "uint a = uint b \<longleftrightarrow> sint a = sint b"
    by (simp_all add: word_uint_eq_iff [symmetric] word_eq_iff_signed [symmetric])
  show ?thesis
    using assms
    by (cases rule: or1k_conds_cases) (use eq in \<open>auto simp: alu_sub or1k_cond_def Let_def word_le_nat_alt\<close>)
qed

definition cy_in :: "EAluFunc \<Rightarrow> bool \<Rightarrow> int" where
  "cy_in f cy = (if f = afAdc \<and> cy then 1 else 0)"

lemma uint_range32: "0 \<le> uint (a :: u32)" "uint (a :: u32) < 4294967296"
  using uint_bounded [of a] by simp_all

lemma mod_once:
  fixes x m :: int
  assumes "0 \<le> x" "x < 2 * m"
  shows "x mod m = (if x < m then x else x - m)"
proof (cases "x < m")
  case False
  have "x mod m = (x - m) mod m" by simp
  also have "\<dots> = x - m" by (rule mod_pos_pos_trivial) (use False assms in simp_all)
  finally show ?thesis using False by simp
qed (use assms in simp)

lemma add_overflow:
  fixes x y k :: int
  assumes "0 \<le> x" "x < 4294967296" "0 \<le> y" "y < 4294967296" "0 \<le> k" "k \<le> 1"
    and "z = (if x + y + k < 4294967296 then x + y + k else x + y + k - 4294967296)"
  shows "(2147483648 \<le> x \<and> 2147483648 \<le> y \<and> \<not> 2147483648 \<le> z \<or> \<not> 2147483648 \<le> x \<and> \<not> 2147483648 \<le> y \<and> 2147483648 \<le> z)
    \<longleftrightarrow> \<not> signed_fits (x - (if 2147483648 \<le> x then 4294967296 else 0) + (y - (if 2147483648 \<le> y then 4294967296 else 0)) + k)"
  using assms
  by (cases "x + y + k < 4294967296"; cases "2147483648 \<le> x"; cases "2147483648 \<le> y")
    (simp_all add: signed_fits_def, linarith+)

lemma alu_add:
  assumes "f = afAdd \<or> f = afAdc"
  shows "outRegD (alu_addsub f cy d a b) = a + b + of_int (cy_in f cy)"
    and "outCY (alu_addsub f cy d a b) \<longleftrightarrow> uint a + uint b + cy_in f cy \<ge> 2 ^ 32"
    and "outOV (alu_addsub f cy d a b) \<longleftrightarrow> \<not> signed_fits (sint a + sint b + cy_in f cy)"
proof -
  define c where "c = (f = afAdc \<and> cy)"
  have f: "f \<noteq> afSub" using assms by auto
  have r: "alu_addsub f cy d a b = alu_addsub f cy d a b" ..
  define w where "w = a + b + (if c then 1 else 0)"
  have w: "ucast (ucast a + ucast b + (if c then 1 else 0) :: 33 word) = w" unfolding w_def by (rule ucast_add33)
  show "outRegD (alu_addsub f cy d a b) = a + b + of_int (cy_in f cy)"
    using w f by (simp add: alu_addsub_def Let_def cy_in_def w_def c_def)
  have cy: "outCY (alu_addsub f cy d a b) \<longleftrightarrow> bit (ucast a + ucast b + (if c then 1 else 0) :: 33 word) 32"
    and ov: "outOV (alu_addsub f cy d a b) \<longleftrightarrow>
       bit a 31 \<and> bit (ucast b :: 33 word) 31 \<and> \<not> bit (ucast (ucast a + ucast b + (if c then 1 else 0) :: 33 word) :: u32) 31
       \<or> \<not> bit a 31 \<and> \<not> bit (ucast b :: 33 word) 31 \<and> bit (ucast (ucast a + ucast b + (if c then 1 else 0) :: 33 word) :: u32) 31"
    using f by (simp_all add: alu_addsub_def Let_def c_def split del: if_split)
  show "outCY (alu_addsub f cy d a b) \<longleftrightarrow> uint a + uint b + cy_in f cy \<ge> 2 ^ 32"
    unfolding cy bit_32_iff uint_add33 by (simp add: c_def cy_in_def)
  have b31: "bit (ucast b :: 33 word) 31 = bit b 31" by (simp add: bit_unsigned_iff)
  define k :: int where "k = (if c then 1 else 0)"
  have k: "0 \<le> k" "k \<le> 1" "cy_in f cy = k" by (simp_all add: k_def c_def cy_in_def)
  have "uint w = (uint a + uint b + k) mod 4294967296"
    by (simp add: w_def k_def uint_word_ariths mod_simps)
  then have uw: "uint w = (if uint a + uint b + k < 4294967296 then uint a + uint b + k else uint a + uint b + k - 4294967296)"
    using uint_range32 [of a] uint_range32 [of b] k(1,2) mod_once [of "uint a + uint b + k" 4294967296] by linarith
  show "outOV (alu_addsub f cy d a b) \<longleftrightarrow> \<not> signed_fits (sint a + sint b + cy_in f cy)"
    using add_overflow [OF uint_range32 [of a] uint_range32 [of b] k(1,2) uw] unfolding ov b31 w k(3) sint_u32 bit_31_iff by simp
qed

lemma sub_overflow:
  fixes x y :: int
  assumes "0 \<le> x" "x < 4294967296" "0 \<le> y" "y < 4294967296"
    and "n = (if y = 0 then 0 else 4294967296 - y)" "z = (if y \<le> x then x - y else x - y + 4294967296)"
  shows "(2147483648 \<le> x \<and> 2147483648 \<le> n \<and> \<not> 2147483648 \<le> z \<or> \<not> 2147483648 \<le> x \<and> \<not> 2147483648 \<le> n \<and> 2147483648 \<le> z)
    \<longleftrightarrow> (signed_fits (x - (if 2147483648 \<le> x then 4294967296 else 0) - (y - (if 2147483648 \<le> y then 4294967296 else 0)))
         \<longleftrightarrow> y = 2147483648)"
proof (cases "y = 0")
  case True
  with assms show ?thesis by (cases "2147483648 \<le> x") (simp_all add: signed_fits_def)
next
  case False
  with assms show ?thesis
    by (cases "y \<le> x"; cases "2147483648 \<le> x"; cases "2147483648 \<le> y")
      (simp_all add: signed_fits_def, linarith+)
qed

lemma alu_sub_overflow:
  "outOV (alu_addsub afSub cy d a b) \<longleftrightarrow> (signed_fits (sint a - sint b) \<longleftrightarrow> b = 0x80000000)"
proof -
  have z: "uint (a - b) = (if uint b \<le> uint a then uint a - uint b else uint a - uint b + 4294967296)"
  proof -
    have "uint (a - b) = (uint a - uint b + 4294967296) mod 4294967296"
      by (simp add: uint_word_ariths mod_simps)
    then show ?thesis
      using mod_once [of "uint a - uint b + 4294967296" 4294967296] uint_range32 [of a] uint_range32 [of b]
      by (cases "uint b \<le> uint a") simp_all
  qed
  have n: "uint (- b) = (if uint b = 0 then 0 else 4294967296 - uint b)"
  proof -
    have "uint (- b) = (- uint b + 4294967296) mod 4294967296"
      by (simp add: uint_word_ariths mod_simps)
    then show ?thesis
      using mod_once [of "- uint b + 4294967296" 4294967296] uint_range32 [of b]
      by (cases "uint b = 0") simp_all
  qed
  have "b = 0x80000000 \<longleftrightarrow> uint b = 2147483648" by (simp add: word_uint_eq_iff)
  then show ?thesis
    using sub_overflow [OF uint_range32 [of a] uint_range32 [of b] n z]
    by (simp add: alu_sub sint_u32 bit_31_iff)
qed

text \<open>The shifts are those of the architecture; the rotation loses bits when it rotates by more than half the word.\<close>

lemma bit_sc_concat: "k < 32 \<Longrightarrow> bit (sc_concat x w y) k \<longleftrightarrow> w \<le> k \<and> bit x (k - w) \<or> bit y k"
  by (simp add: sc_concat_def bit_or_iff bit_push_bit_iff)

lemma bit_sc_range: "bit (sc_range hi lo x) k \<longleftrightarrow> k < hi + 1 - lo \<and> bit x (lo + k)"
  by (simp add: sc_range_def bit_take_bit_iff bit_drop_bit_eq)

lemma bit_alu_shift:
  assumes "n < 32" "k < 32"
  shows "bit (alu_shift op a n) k \<longleftrightarrow>
    (if op = 0 then n \<le> k \<and> bit a (k - n)
     else if op = 1 then k + n < 32 \<and> bit a (k + n)
     else if op = 2 then bit a (min 31 (k + n))
     else (k < 64 - 2 * n \<or> n = 0) \<and> bit a ((k + n) mod 32))"
proof (cases "n = 0")
  case True
  with assms(2) show ?thesis by (simp add: alu_shift_def)
next
  case False
  have mod: "(k + n) mod 32 = (if k + n < 32 then k + n else k + n - 32)"
    using assms by (simp add: mod_if)
  have big: "\<not> bit a m" if "32 \<le> m" for m using bit_imp_le_length [of a m] that by auto
  consider "op = 0" | "op = 1" | "op = 2" | "op \<noteq> 0" "op \<noteq> 1" "op \<noteq> 2" by blast
  then show ?thesis
  proof cases
    case 1
    with assms False show ?thesis by (auto simp: alu_shift_def bit_sc_concat bit_sc_range)
  next
    case 2
    with assms False show ?thesis
      by (cases "k + n < 32") (auto simp: alu_shift_def bit_sc_concat bit_sc_range add.commute big)
  next
    case 3
    define f where "f = (if bit a 31 then - 1 else 0 :: u32)"
    have f: "bit f m \<longleftrightarrow> m < 32 \<and> bit a 31" for m by (simp add: f_def)
    have s: "alu_shift op a n = sc_concat (sc_range (n - 1) 0 f) (32 - n) (sc_range 31 n a)"
      using 3 False by (simp add: alu_shift_def f_def)
    show ?thesis
    proof (cases "k + n < 32")
      case True
      then have "\<not> 32 - n \<le> k" "min 31 (k + n) = n + k" by simp_all
      then show ?thesis unfolding s using 3 True assms by (simp add: bit_sc_concat bit_sc_range add.commute)
    next
      case k: False
      then have "32 - n \<le> k" "min 31 (k + n) = 31" "k - (32 - n) < n" "k - (32 - n) < 32" "\<not> bit a (n + k)"
        using assms False big [of "n + k"] by simp_all
      then show ?thesis unfolding s using 3 assms False by (simp add: bit_sc_concat bit_sc_range f)
    qed
  next
    case 4
    have s: "alu_shift op a n = sc_concat (sc_range (31 - n) 0 a) (32 - n) (sc_range 31 n a)"
      using 4 False by (simp add: alu_shift_def)
    show ?thesis
    proof (cases "k + n < 32")
      case True
      then show ?thesis unfolding s using 4 assms False by (auto simp: bit_sc_concat bit_sc_range mod add.commute)
    next
      case k: False
      then have "k - (32 - n) = k + n - 32" using assms by simp
      with k show ?thesis unfolding s using 4 assms False by (auto simp: bit_sc_concat bit_sc_range mod add.commute big)
    qed
  qed
qed

end
