(* ===== verification/PnOr1k.thy ===== *)
theory PnOr1k
  imports PnExu
begin

text \<open>
  The integer instructions of the OpenRISC architecture that the execution unit has, as the reference the unit is
  compared with (\<open>or1k_insn or1k_arith\<close>), and the operations as the unit does them (\<open>or1k_insn exu_arith\<close>).  They give for
  an instruction the state after it and the clocks the unit takes; \<open>None\<close> stands for an instruction of another group.
  The divisions and \<open>l.ff1\<close>, \<open>l.fl1\<close>, for which the unit stops with an assertion, are not in the group.  The flags of the
  multiplications are those that \<open>or1200-ov.S\<close> tests and \<open>or1200_mult_mac.v\<close> computes.
\<close>

section \<open>The reference\<close>

record or1k =
  or_gpr :: "nat \<Rightarrow> u32"
  or_f :: bool
  or_cy :: bool
  or_ov :: bool

definition or1k_shift :: "u32 \<Rightarrow> u32 \<Rightarrow> nat \<Rightarrow> u32" where
  "or1k_shift op a n =
     (if op = 0 then push_bit n a else if op = 1 then drop_bit n a
      else if op = 2 then signed_drop_bit n a else word_rotr n a)"

definition or1k_extend :: "u32 \<Rightarrow> u32 \<Rightarrow> u32" where
  "or1k_extend op a =
     (if op = 0 then scast (ucast a :: u16) else if op = 1 then scast (ucast a :: byte)
      else if op = 2 then ucast (ucast a :: u16) else ucast (ucast a :: byte))"

text \<open>The result, carry, overflow and clocks of an operation.\<close>

definition or1k_arith :: "u32 \<Rightarrow> u32 \<Rightarrow> u32 \<Rightarrow> u32 \<Rightarrow> or1k \<Rightarrow> (u32 \<times> bool \<times> bool \<times> nat) option" where
  "or1k_arith op sub a b st =
     (let c = (if or_cy st then 1 else 0); plain = (\<lambda>r n. Some (r, or_cy st, or_ov st, n))
      in if op = 0x0 then Some (a + b, uint a + uint b \<ge> 2 ^ 32, \<not> signed_fits (sint a + sint b), 1)
         else if op = 0x1
         then Some (a + b + of_int c, uint a + uint b + c \<ge> 2 ^ 32, \<not> signed_fits (sint a + sint b + c), 1)
         else if op = 0x2 then Some (a - b, uint a < uint b, \<not> signed_fits (sint a - sint b), 1)
         else if op = 0x3 then plain (a AND b) 1
         else if op = 0x4 then plain (a OR b) 1
         else if op = 0x5 then plain (a XOR b) 1
         else if op = 0x6 then Some (a * b, or_cy st, \<not> signed_fits (sint a * sint b), 3)
         else if op = 0xb then Some (a * b, or_cy st, uint a * uint b \<ge> 2 ^ 32, 3)
         else if op = 0x8 then (let n = unat (b AND 31) in plain (or1k_shift sub a n) (max n 1))
         else if op = 0xc then plain (or1k_extend sub a) 1
         else if op = 0xe then plain (if or_f st then a else b) 1
         else None)"

text \<open>
  The operations of the unit: multiplications clear both flags, the overflow flag of a subtraction is inverted for
  the least number, and a rotation by more than 16 loses the bits from place \<open>64 - 2 * n\<close> on.
\<close>

definition exu_arith :: "u32 \<Rightarrow> u32 \<Rightarrow> u32 \<Rightarrow> u32 \<Rightarrow> or1k \<Rightarrow> (u32 \<times> bool \<times> bool \<times> nat) option" where
  "exu_arith op sub a b st =
     (if op = 0x2
      then Some (a - b, uint a < uint b, (b \<noteq> 0x80000000) \<noteq> signed_fits (sint a - sint b), 1)
      else if op = 0x6 \<or> op = 0xb then Some (a * b, False, False, 3)
      else if op = 0x8 \<and> sub = 3 \<and> 16 < unat (b AND 31)
      then Some (word_rotr (unat (b AND 31)) a AND mask (64 - 2 * unat (b AND 31)), or_cy st, or_ov st, unat (b AND 31))
      else or1k_arith op sub a b st)"

text \<open>Where the two differ; \<open>d\<close> is the number of the destination register.\<close>

definition arith_deviates :: "u32 \<Rightarrow> u32 \<Rightarrow> u32 \<Rightarrow> u32 \<Rightarrow> nat \<Rightarrow> or1k \<Rightarrow> bool" where
  "arith_deviates op sub a b d st \<longleftrightarrow>
     op = 0x2 \<and> b = 0x80000000
     \<or> op = 0x6 \<and> (or_cy st \<or> \<not> signed_fits (sint a * sint b))
     \<or> op = 0xb \<and> (or_cy st \<or> uint a * uint b \<ge> 2 ^ 32)
     \<or> op = 0x8 \<and> sub = 3 \<and> 16 < unat (b AND 31) \<and> d \<noteq> 0
         \<and> word_rotr (unat (b AND 31)) a AND mask (64 - 2 * unat (b AND 31)) \<noteq> word_rotr (unat (b AND 31)) a"

definition or1k_imm :: "u32 \<Rightarrow> u32" where
  "or1k_imm insn = scast (ucast insn :: u16)"

definition or1k_set :: "u32 \<Rightarrow> (u32 \<times> bool \<times> bool \<times> nat) option \<Rightarrow> or1k \<Rightarrow> (or1k \<times> nat) option" where
  "or1k_set insn r st =
     map_option (\<lambda>(v, cy, ov, n).
       (st\<lparr>or_gpr := (or_gpr st)(insn_d insn := v, 0 := 0), or_cy := cy, or_ov := ov\<rparr>, n)) r"

definition or1k_insn :: "(u32 \<Rightarrow> u32 \<Rightarrow> u32 \<Rightarrow> u32 \<Rightarrow> or1k \<Rightarrow> (u32 \<times> bool \<times> bool \<times> nat) option) \<Rightarrow> u32 \<Rightarrow> or1k \<Rightarrow> (or1k \<times> nat) option" where
  "or1k_insn arith insn st =
     (let opcode = sc_range 31 26 insn; sub = sc_range 7 6 insn; d = sc_range 25 21 insn;
          a = or_gpr st (insn_a insn); b = or_gpr st (insn_b insn)
      in if opcode = 0x38 then or1k_set insn (arith (sc_range 3 0 insn) sub a b st) st
         else if opcode = 0x39 then (if d \<in> or1k_conds then Some (st\<lparr>or_f := or1k_cond d a b\<rparr>, 1) else None)
         else if opcode = 0x27 then or1k_set insn (arith 0x0 sub a (or1k_imm insn) st) st
         else if opcode = 0x28 then or1k_set insn (arith 0x1 sub a (or1k_imm insn) st) st
         else if opcode = 0x29 then or1k_set insn (arith 0x3 sub a (ucast (ucast insn :: u16)) st) st
         else if opcode = 0x2a then or1k_set insn (arith 0x4 sub a (ucast (ucast insn :: u16)) st) st
         else if opcode = 0x2b then or1k_set insn (arith 0x5 sub a (or1k_imm insn) st) st
         else if opcode = 0x2c then or1k_set insn (arith 0x6 sub a (or1k_imm insn) st) st
         else if opcode = 0x2e then or1k_set insn (arith 0x8 sub a (or1k_imm insn) st) st
         else if opcode = 0x2f
         then (if d \<in> or1k_conds then Some (st\<lparr>or_f := or1k_cond d a (or1k_imm insn)\<rparr>, 1) else None)
         else if opcode = 0x06
         then or1k_set insn (Some (push_bit 16 (ucast (ucast insn :: u16)), or_cy st, or_ov st, 1)) st
         else None)"

definition insn_deviates :: "u32 \<Rightarrow> or1k \<Rightarrow> bool" where
  "insn_deviates insn st \<longleftrightarrow>
     (let opcode = sc_range 31 26 insn; sub = sc_range 7 6 insn; d = insn_d insn;
          a = or_gpr st (insn_a insn); b = or_gpr st (insn_b insn)
      in opcode = 0x38 \<and> arith_deviates (sc_range 3 0 insn) sub a b d st
         \<or> opcode = 0x2c \<and> arith_deviates 0x6 sub a (or1k_imm insn) d st
         \<or> opcode = 0x2e \<and> arith_deviates 0x8 sub a (or1k_imm insn) d st)"

section \<open>The operations agree\<close>

lemma xor_ext:
  fixes y m :: u32
  assumes "\<And>k. bit m k \<longleftrightarrow> k = j"
  shows "(y XOR m) - m = (if bit y j then y - m - m else y)"
proof (cases "bit y j")
  case False
  have "y XOR m = y OR m" by (rule bit_word_eqI) (use False assms in \<open>auto simp: bit_xor_iff bit_or_iff\<close>)
  also have "\<dots> = y + m" by (rule disjunctive_add [symmetric]) (use False assms in auto)
  finally show ?thesis using False by simp
next
  case True
  have "y = (y XOR m) OR m" by (rule bit_word_eqI) (use True assms in \<open>auto simp: bit_xor_iff bit_or_iff\<close>)
  also have "\<dots> = (y XOR m) + m" by (rule disjunctive_add [symmetric]) (use True assms in \<open>auto simp: bit_xor_iff\<close>)
  finally have "y XOR m = y - m" by (metis add_diff_cancel)
  with True show ?thesis by simp
qed

lemma ext_half: "((a AND 0xffff) XOR 0x8000) - 0x8000 = (scast (ucast a :: u16) :: u32)"
  and ext_byte: "((a AND 0xff) XOR 0x80) - 0x80 = (scast (ucast a :: byte) :: u32)"
proof -
  have m: "(0xffff :: u32) = mask 16" "(0xff :: u32) = mask 8" "(0x8000 :: u32) = push_bit 15 1" "(0x80 :: u32) = push_bit 7 1"
    by (simp_all add: mask_eq_exp_minus_1)
  have h: "bit (0x8000 :: u32) k \<longleftrightarrow> k = 15" and b: "bit (0x80 :: u32) k \<longleftrightarrow> k = 7" for k
    unfolding m(3,4) bit_push_bit_iff by (auto simp: bit_1_iff)
  have h': "(ucast (ucast a :: u16) :: u32) = a AND 0xffff" and b': "(ucast (ucast a :: byte) :: u32) = a AND 0xff"
    by (rule bit_word_eqI; simp only: m bit_and_iff bit_mask_iff bit_unsigned_iff; auto)+
  have s: "(scast w :: u32) = ucast w - (if bit w 15 then 0x10000 else 0)" for w :: u16
  proof -
    have "sint w = uint w - (if bit w 15 then 0x10000 else 0)"
      using bit_uint_iff [of w 15] uint_bounded [of w]
      by (simp add: sint_uint signed_take_bit_eq_take_bit_minus take_bit_int_eq_self)
    then have "(of_int (sint w) :: u32) = of_int (uint w - (if bit w 15 then 0x10000 else 0))" by (simp only:)
    then show ?thesis by (cases "bit w 15") simp_all
  qed
  have t: "(scast w :: u32) = ucast w - (if bit w 7 then 0x100 else 0)" for w :: byte
  proof -
    have "sint w = uint w - (if bit w 7 then 0x100 else 0)"
      using bit_uint_iff [of w 7] uint_bounded [of w]
      by (simp add: sint_uint signed_take_bit_eq_take_bit_minus take_bit_int_eq_self)
    then have "(of_int (sint w) :: u32) = of_int (uint w - (if bit w 7 then 0x100 else 0))" by (simp only:)
    then show ?thesis by (cases "bit w 7") simp_all
  qed
  have "bit (a AND 0xffff) 15 = bit (ucast a :: u16) 15" "bit (a AND 0xff) 7 = bit (ucast a :: byte) 7"
    by (simp_all only: m bit_and_iff bit_mask_iff bit_unsigned_iff) auto
  then show "((a AND 0xffff) XOR 0x8000) - 0x8000 = (scast (ucast a :: u16) :: u32)"
    and "((a AND 0xff) XOR 0x80) - 0x80 = (scast (ucast a :: byte) :: u32)"
    unfolding xor_ext [OF h] xor_ext [OF b] s t h' b' by simp_all
qed

lemma shift_agrees:
  assumes "n < 32" "op = 0 \<or> op = 1 \<or> op = 2 \<or> op = 3" "\<not> (op = 3 \<and> n > 16)"
  shows "alu_shift op a n = or1k_shift op a n"
proof (rule bit_word_eqI)
  fix k assume "k < LENGTH(32)"
  then have k: "k < 32" by simp
  have big: "\<not> bit a m" if "32 \<le> m" for m using bit_imp_le_length [of a m] that by auto
  have sgn: "bit (signed_drop_bit n a) k \<longleftrightarrow> bit a (min 31 (k + n))"
  proof (cases "k + n < 32")
    case True
    then have "\<not> LENGTH(32) - n \<le> k" "min 31 (k + n) = n + k" by simp_all
    then show ?thesis by (simp only: bit_signed_drop_bit_iff simp_thms if_False)
  next
    case False
    have L: "LENGTH(32) - 1 = 31" by simp
    have "LENGTH(32) - n \<le> k \<and> k < LENGTH(32)" "min 31 (k + n) = 31" using False k by simp_all
    then show ?thesis by (simp only: bit_signed_drop_bit_iff simp_thms if_True L)
  qed
  from assms(2) consider "op = 0" | "op = 1" | "op = 2" | "op = 3" by blast
  then show "bit (alu_shift op a n) k = bit (or1k_shift op a n) k"
  proof cases
    case 1
    then show ?thesis using bit_alu_shift [OF assms(1) k] k by (simp add: or1k_shift_def bit_push_bit_iff)
  next
    case 2
    then show ?thesis using bit_alu_shift [OF assms(1) k] big [of "n + k"]
      by (cases "k + n < 32") (auto simp: or1k_shift_def bit_drop_bit_eq add.commute)
  next
    case 3
    then show ?thesis using bit_alu_shift [OF assms(1) k] sgn by (simp add: or1k_shift_def)
  next
    case 4
    then show ?thesis using bit_alu_shift [OF assms(1) k] k assms(3)
      by (auto simp: or1k_shift_def bit_word_rotr_iff)
  qed
qed

lemma ext_agrees: "op = 0 \<or> op = 1 \<or> op = 2 \<or> op = 3 \<Longrightarrow> alu_ext op a = or1k_extend op a"
proof -
  have m: "(0xffff :: u32) = mask 16" "(0xff :: u32) = mask 8" by (simp_all add: mask_eq_exp_minus_1)
  have "(ucast (ucast a :: u16) :: u32) = a AND 0xffff" and "(ucast (ucast a :: byte) :: u32) = a AND 0xff"
    by (rule bit_word_eqI; simp only: m bit_and_iff bit_mask_iff bit_unsigned_iff; auto)+
  then show "op = 0 \<or> op = 1 \<or> op = 2 \<or> op = 3 \<Longrightarrow> alu_ext op a = or1k_extend op a"
    by (auto simp: alu_ext_def or1k_extend_def ext_half ext_byte)
qed

lemma sc_range_less: "hi + 1 - lo < 32 \<Longrightarrow> unat (sc_range hi lo x) < 2 ^ (hi + 1 - lo)"
  unfolding sc_range_def by (simp add: unsigned_take_bit_eq)

lemma sub_cases: "sc_range 7 6 x = 0 \<or> sc_range 7 6 x = 1 \<or> sc_range 7 6 x = 2 \<or> sc_range 7 6 x = 3"
proof -
  have "unat (sc_range 7 6 x) < 4" using sc_range_less [of 7 6 x] by simp
  then have "unat (sc_range 7 6 x) = 0 \<or> unat (sc_range 7 6 x) = 1 \<or> unat (sc_range 7 6 x) = 2 \<or> unat (sc_range 7 6 x) = 3"
    by linarith
  then show ?thesis by (simp add: word_unat_eq_iff)
qed

lemma sc_range_4_0: "sc_range 4 0 b = b AND 31"
proof -
  have "(31 :: u32) = mask 5" by (simp add: mask_eq_exp_minus_1)
  then show ?thesis unfolding sc_range_def by (simp add: take_bit_eq_mask)
qed

lemma alu_func_simps:
  "alu_func 0x0 = afAdd" "alu_func 0x1 = afAdc" "alu_func 0x2 = afSub" "alu_func 0x3 = afAnd" "alu_func 0x4 = afOr" "alu_func 0x5 = afXor"
  "alu_func 0x6 = afMul" "alu_func 0xb = afMulu" "alu_func 0x8 = afSxx" "alu_func 0xc = afExt" "alu_func 0xe = afCmov"
  by (simp_all add: alu_func_def)

lemma alu_rotate:
  assumes "n < 32"
  shows "alu_shift 3 a n = (if n \<le> 16 then word_rotr n a else word_rotr n a AND mask (64 - 2 * n))"
proof -
  have "bit (alu_shift 3 a n) k = bit (if n \<le> 16 then word_rotr n a else word_rotr n a AND mask (64 - 2 * n)) k" if "k < 32" for k
    using bit_alu_shift [OF assms that, of 3 a] that
    by (auto simp: bit_word_rotr_iff bit_and_iff bit_mask_iff)
  then show ?thesis by (intro bit_word_eqI) simp
qed

lemma arith_agrees:
  assumes "exu_arith op (sc_range 7 6 insn) a b st = Some (r, cy, ov, n)"
  shows "\<exists>out. alu_run (or_cy st) (or_f st) insn (alu_func op) a b = Some out \<and> outRegD out = r \<and> retDelay out = n
    \<and> (if haveCyOv out then outCY out = cy \<and> outOV out = ov else cy = or_cy st \<and> ov = or_ov st)"
proof -
  have hv: "haveCyOv (alu_addsub f c d x y)" "retDelay (alu_addsub f c d x y) = 1" for f c d x y
    by (simp_all add: alu_addsub_def Let_def)
  have "op \<in> {0x0, 0x1, 0x2, 0x3, 0x4, 0x5, 0x6, 0xb, 0x8, 0xc, 0xe}"
    by (rule ccontr) (use assms in \<open>simp add: exu_arith_def or1k_arith_def Let_def\<close>)
  then consider "op = 0x0" | "op = 0x1" | "op = 0x2" | "op = 0x3" | "op = 0x4" | "op = 0x5" | "op = 0x6" | "op = 0xb"
    | "op = 0x8" | "op = 0xc" | "op = 0xe"
    by blast
  then show ?thesis
  proof cases
    case 1
    then show ?thesis using assms hv alu_add [of afAdd "or_cy st" "sc_range 25 21 insn" a b]
      by (auto simp: exu_arith_def or1k_arith_def alu_func_simps alu_run_def cy_in_def)
  next
    case 2
    then show ?thesis using assms hv alu_add [of afAdc "or_cy st" "sc_range 25 21 insn" a b]
      by (cases "or_cy st") (auto simp: exu_arith_def or1k_arith_def alu_func_simps alu_run_def cy_in_def)
  next
    case 3
    then show ?thesis using assms hv alu_sub_overflow [of "or_cy st" "sc_range 25 21 insn" a b]
      by (auto simp: exu_arith_def or1k_arith_def alu_func_simps alu_run_def alu_sub)
  next
    case 9
    define k where "k = unat (b AND 31)"
    have k: "k < 32" using sc_range_less [of 4 0 b] by (simp add: k_def sc_range_4_0)
    have "alu_shift (sc_range 7 6 insn) a k = r \<and> cy = or_cy st \<and> ov = or_ov st \<and> n = max k 1"
    proof (cases "sc_range 7 6 insn = 3 \<and> 16 < k")
      case True
      then show ?thesis using assms 9 alu_rotate [OF k, of a] by (auto simp: exu_arith_def max_def simp flip: k_def)
    next
      case False
      then show ?thesis using assms 9 shift_agrees [OF k sub_cases False, of a]
        by (auto simp: exu_arith_def or1k_arith_def Let_def simp flip: k_def)
    qed
    with 9 show ?thesis by (simp add: alu_func_simps alu_run_def alu_plain_def Let_def sc_range_4_0 flip: k_def)
  next
    case 10
    have "alu_ext (sc_range 7 6 insn) a = or1k_extend (sc_range 7 6 insn) a" by (rule ext_agrees [OF sub_cases])
    moreover have "r = or1k_extend (sc_range 7 6 insn) a" "cy = or_cy st" "ov = or_ov st" "n = 1"
      using assms unfolding 10 by (simp_all add: exu_arith_def or1k_arith_def Let_def)
    ultimately show ?thesis unfolding 10 by (simp add: alu_func_simps alu_run_def alu_plain_def)
  next
    case 4
    show ?thesis using assms unfolding 4 by (simp add: exu_arith_def or1k_arith_def alu_func_simps alu_run_def alu_plain_def Let_def)
  next
    case 5
    show ?thesis using assms unfolding 5 by (simp add: exu_arith_def or1k_arith_def alu_func_simps alu_run_def alu_plain_def Let_def)
  next
    case 6
    show ?thesis using assms unfolding 6 by (simp add: exu_arith_def or1k_arith_def alu_func_simps alu_run_def alu_plain_def Let_def)
  next
    case 7
    show ?thesis using assms unfolding 7 by (simp add: exu_arith_def or1k_arith_def alu_func_simps alu_run_def alu_plain_def Let_def)
  next
    case 8
    show ?thesis using assms unfolding 8 by (simp add: exu_arith_def or1k_arith_def alu_func_simps alu_run_def alu_plain_def Let_def)
  next
    case 11
    show ?thesis using assms unfolding 11 by (simp add: exu_arith_def or1k_arith_def alu_func_simps alu_run_def alu_plain_def Let_def)
  qed
qed

section \<open>The unit implements the reference\<close>

definition exu_arch :: "exu \<Rightarrow> or1k" where
  "exu_arch s = \<lparr>or_gpr = regFile s, or_f = regF s, or_cy = regCY s, or_ov = regOV s\<rparr>"

lemma exu_arch_sels [simp]:
  "or_gpr (exu_arch s) = regFile s" "or_f (exu_arch s) = regF s" "or_cy (exu_arch s) = regCY s" "or_ov (exu_arch s) = regOV s"
  by (simp_all add: exu_arch_def)

text \<open>The state in which the thread waits for the instruction after one that was done.\<close>

definition exu_done :: "exu_in \<Rightarrow> or1k \<Rightarrow> exu \<Rightarrow> exu" where
  "exu_done i st s = s\<lparr>regFile := or_gpr st, regF := or_f st, regCY := or_cy st, regOV := or_ov st, x_mode := 1, x_insn := x_ir i,
     inDelaySlot := nextInDelaySlot s, nextInDelaySlot := False, x_next := False, x_jump := False, x_rd := False, x_wr := False,
     x_invalidate := False, x_writeback := False, x_loc := L_exec\<rparr>"

lemma exu_run_simps [simp]:
  "exu_run [] s = s" "exu_run (i # is) s = exu_run is (exu_step i s)" "exu_run (is @ js) s = exu_run js (exu_run is s)"
  by (simp_all add: exu_run_def)

lemma exu_delay_steps:
  "x_loc s = L_delay k \<Longrightarrow> 0 < k \<Longrightarrow> length is = k \<Longrightarrow> exu_run is s = exu_next s"
proof (induction "is" arbitrary: s k)
  case (Cons i "is")
  show ?case
  proof (cases "k = 1")
    case True
    with Cons.prems show ?thesis by (simp add: exu_step_def)
  next
    case False
    with Cons.prems have s: "exu_step i s = s\<lparr>x_loc := L_delay (k - 1)\<rparr>" by (simp add: exu_step_def)
    have "exu_run is (s\<lparr>x_loc := L_delay (k - 1)\<rparr>) = exu_next (s\<lparr>x_loc := L_delay (k - 1)\<rparr>)"
      by (rule Cons.IH [where k = "k - 1"]) (use Cons.prems False in simp_all)
    then show ?thesis by (simp add: s exu_next_def)
  qed
qed simp

lemma exu_delay_run:
  assumes "0 < n" "length is = n" "exceptId t = 0"
  shows "exu_run is (exu_delay n t) = exu_top (exu_next t)"
proof -
  obtain js j where sp: "is = js @ [j]" using assms(1,2) by (cases "is" rule: rev_cases) auto
  have "exu_run js (exu_delay n t) = exu_next t"
  proof (cases "n = 1")
    case True
    then show ?thesis using assms(2) sp by (simp add: exu_delay_def)
  next
    case False
    then have "exu_run js (exu_delay n t) = exu_next (exu_delay n t)"
      using assms(1,2) sp by (intro exu_delay_steps [where k = "n - 1"]) (auto simp: exu_delay_def)
    with False assms(1) show ?thesis by (simp add: exu_delay_def exu_next_def)
  qed
  moreover have "exu_step j (exu_next t) = exu_top (exu_next t)"
    using assms(3) by (simp add: exu_step_def exu_next_def exu_end_def)
  ultimately show ?thesis by (simp add: sp)
qed

lemma exu_alu_agrees:
  assumes "exu_arith op (sc_range 7 6 insn) (regFile s (insn_a insn)) b (exu_arch s) = Some (r, cy, ov, n)"
    and "alu_inB s insn bSrc = b" "x_insn t = insn" "f = alu_func op" "regCY t = regCY s" "regOV t = regOV s"
  shows "exu_alu i s f bSrc True True False t
    = exu_delay n (t\<lparr>regFile := (regFile t)(insn_d insn := r), regCY := cy, regOV := ov\<rparr>)"
proof -
  obtain out where out: "alu_run (regCY s) (regF s) insn f (regFile s (insn_a insn)) b = Some out" "outRegD out = r" "retDelay out = n"
    "if haveCyOv out then outCY out = cy \<and> outOV out = ov else cy = regCY s \<and> ov = regOV s"
    using arith_agrees [OF assms(1)] assms(4) by auto
  have "(if haveCyOv out then t\<lparr>regFile := (regFile t)(insn_d insn := r), regCY := outCY out, regOV := outOV out\<rparr>
       else t\<lparr>regFile := (regFile t)(insn_d insn := r)\<rparr>) = t\<lparr>regFile := (regFile t)(insn_d insn := r), regCY := cy, regOV := ov\<rparr>"
    using out(4) assms(5,6) by (cases "haveCyOv out") simp_all
  then show ?thesis
    using out(1-3) assms(2,3) by (simp add: exu_alu_def RunAlu_def alu_inA_def Let_def)
qed

lemma exu_flag_agrees:
  assumes "sc_range 25 21 insn \<in> or1k_conds" "alu_inB s insn bSrc = b" "x_insn t = insn"
  shows "exu_alu i s afSub bSrc False False True t
    = exu_delay 1 (t\<lparr>regF := or1k_cond (sc_range 25 21 insn) (regFile s (insn_a insn)) b\<rparr>)"
proof -
  have "retDelay (alu_addsub afSub c d x y) = 1" for c d x y by (simp add: alu_addsub_def Let_def)
  with alu_flag [OF assms(1)] assms(2,3) show ?thesis
    by (simp add: exu_alu_def RunAlu_def alu_inA_def alu_run_def Let_def)
qed

lemma imm_agrees:
  "alu_inB s insn abImm16s = or1k_imm insn" "alu_inB s insn abImm16z = ucast (ucast insn :: u16)"
  "alu_inB s insn abImm16hi = push_bit 16 (ucast (ucast insn :: u16))" "alu_inB s insn abReg = regFile s (insn_b insn)"
proof -
  have m: "(0xffff :: u32) = mask 16" by (simp add: mask_eq_exp_minus_1)
  have z: "(ucast (ucast insn :: u16) :: u32) = insn AND 0xffff"
    by (rule bit_word_eqI; simp only: m bit_and_iff bit_mask_iff bit_unsigned_iff; auto)
  show "alu_inB s insn abImm16s = or1k_imm insn" by (simp add: alu_inB_def or1k_imm_def ext_half)
  show "alu_inB s insn abImm16z = ucast (ucast insn :: u16)"
    and "alu_inB s insn abImm16hi = push_bit 16 (ucast (ucast insn :: u16))" "alu_inB s insn abReg = regFile s (insn_b insn)"
    by (simp_all only: alu_inB_def z EAluBSrc.case)
qed

lemma exu_arith_clocks: "exu_arith op sub a b st = Some (r, cy, ov, n) \<Longrightarrow> 0 < n"
  by (auto simp: exu_arith_def or1k_arith_def Let_def split: if_splits)

text \<open>Decoding an instruction of this group ends in its operation.\<close>

lemma exu_decode_agrees:
  assumes "or1k_insn exu_arith insn (exu_arch s) = Some (st', n)" "x_insn t = insn" "regFile t = regFile s" "regF t = regF s" "regCY t = regCY s" "regOV t = regOV s"
    and "regFile s 0 = 0"
  shows "\<exists>rf. exu_decode i s t = exu_delay n (t\<lparr>regFile := rf, regF := or_f st', regCY := or_cy st', regOV := or_ov st'\<rparr>)
    \<and> rf(0 := 0) = or_gpr st' \<and> 0 < n"
proof -
  let ?op = "sc_range 31 26 insn"
  let ?good = "\<lambda>u. \<exists>rf. u = exu_delay n (t\<lparr>regFile := rf, regF := or_f st', regCY := or_cy st', regOV := or_ov st'\<rparr>) \<and> rf(0 := 0) = or_gpr st' \<and> 0 < n"
  have alu: "?good (exu_alu i s (alu_func op) bSrc True True False t)"
    if "or1k_set insn (exu_arith op (sc_range 7 6 insn) (regFile s (insn_a insn)) b (exu_arch s)) (exu_arch s) = Some (st', n)"
      "alu_inB s insn bSrc = b" for op bSrc b
  proof -
    from that(1) obtain r cy ov where a: "exu_arith op (sc_range 7 6 insn) (regFile s (insn_a insn)) b (exu_arch s) = Some (r, cy, ov, n)"
      "st' = (exu_arch s)\<lparr>or_gpr := (regFile s)(insn_d insn := r, 0 := 0), or_cy := cy, or_ov := ov\<rparr>"
      by (auto simp: or1k_set_def)
    have "exu_alu i s (alu_func op) bSrc True True False t = exu_delay n (t\<lparr>regFile := (regFile t)(insn_d insn := r), regCY := cy, regOV := ov\<rparr>)"
      by (rule exu_alu_agrees [OF a(1) that(2) assms(2) refl assms(5,6)])
    moreover have "t\<lparr>regFile := (regFile t)(insn_d insn := r), regCY := cy, regOV := ov\<rparr>
        = t\<lparr>regFile := (regFile t)(insn_d insn := r), regF := or_f st', regCY := or_cy st', regOV := or_ov st'\<rparr>"
      using a(2) assms(4) by simp
    ultimately show ?thesis using a(2) assms(3) exu_arith_clocks [OF a(1)]
      by (intro exI [of _ "(regFile t)(insn_d insn := r)"]) simp
  qed
  have flag: "?good (exu_alu i s afSub bSrc False False True t)"
    if "sc_range 25 21 insn \<in> or1k_conds" "st' = (exu_arch s)\<lparr>or_f := or1k_cond (sc_range 25 21 insn) (regFile s (insn_a insn)) b\<rparr>" "n = 1"
      "alu_inB s insn bSrc = b" for bSrc b
  proof -
    let ?v = "or1k_cond (sc_range 25 21 insn) (regFile s (insn_a insn)) b"
    have "t\<lparr>regF := ?v\<rparr> = t\<lparr>regFile := regFile t, regF := ?v, regCY := regCY t, regOV := regOV t\<rparr>" by simp
    then have "t\<lparr>regF := ?v\<rparr> = t\<lparr>regFile := regFile s, regF := or_f st', regCY := or_cy st', regOV := or_ov st'\<rparr>"
      unfolding that(2) assms(3,5,6) by simp
    moreover have "(regFile s)(0 := 0) = or_gpr st'" using assms(7) that(2) by (simp add: fun_upd_idem_iff)
    ultimately show ?thesis using exu_flag_agrees [OF that(1,4) assms(2), of i] that(3)
      by (intro exI [of _ "regFile s"]) (simp only: zero_less_one simp_thms)
  qed
  have "?op \<in> {0x38, 0x39, 0x27, 0x28, 0x29, 0x2a, 0x2b, 0x2c, 0x2e, 0x2f, 0x06}"
    by (rule ccontr) (use assms(1) in \<open>simp add: or1k_insn_def Let_def\<close>)
  then consider "?op = 0x38" | "?op = 0x39" | "?op = 0x27" | "?op = 0x28" | "?op = 0x29" | "?op = 0x2a" | "?op = 0x2b" | "?op = 0x2c" | "?op = 0x2e"
    | "?op = 0x2f" | "?op = 0x06"
    by blast
  then show ?thesis
  proof cases
    case 1
    have d: "exu_decode i s t = exu_alu i s (alu_func (sc_range 3 0 insn)) abReg True True False t"
      using 1 assms(2) by (simp add: exu_decode_def Let_def aluFuncTable_def signExtTable_def alu_func_simps)
    have "or1k_set insn (exu_arith (sc_range 3 0 insn) (sc_range 7 6 insn) (regFile s (insn_a insn)) (regFile s (insn_b insn)) (exu_arch s)) (exu_arch s) = Some (st', n)"
      using assms(1) 1 by (simp add: or1k_insn_def Let_def)
    then show ?thesis unfolding d by (rule alu) (rule imm_agrees)
  next
    case 2
    have d: "exu_decode i s t = exu_alu i s afSub abReg False False True t" using 2 assms(2) by (simp add: exu_decode_def Let_def)
    have "(if sc_range 25 21 insn \<in> or1k_conds
       then Some ((exu_arch s)\<lparr>or_f := or1k_cond (sc_range 25 21 insn) (regFile s (insn_a insn)) (regFile s (insn_b insn))\<rparr>, 1) else None) = Some (st', n)"
      using assms(1) 2 by (simp add: or1k_insn_def Let_def del: insert_iff split del: if_split)
    then have "sc_range 25 21 insn \<in> or1k_conds"
      "st' = (exu_arch s)\<lparr>or_f := or1k_cond (sc_range 25 21 insn) (regFile s (insn_a insn)) (regFile s (insn_b insn))\<rparr>" "n = 1"
      by (simp_all split: if_split_asm)
    then show ?thesis unfolding d by (rule flag) (rule imm_agrees)
  next
    case 3
    have d: "exu_decode i s t = exu_alu i s (alu_func 0x0) abImm16s True True False t"
      using 3 assms(2) by (simp add: exu_decode_def Let_def aluFuncTable_def signExtTable_def alu_func_simps)
    have "or1k_set insn (exu_arith 0x0 (sc_range 7 6 insn) (regFile s (insn_a insn)) (or1k_imm insn) (exu_arch s)) (exu_arch s) = Some (st', n)"
      using assms(1) 3 by (simp add: or1k_insn_def Let_def)
    then show ?thesis unfolding d by (rule alu) (rule imm_agrees)
  next
    case 4
    have d: "exu_decode i s t = exu_alu i s (alu_func 0x1) abImm16s True True False t"
      using 4 assms(2) by (simp add: exu_decode_def Let_def aluFuncTable_def signExtTable_def alu_func_simps)
    have "or1k_set insn (exu_arith 0x1 (sc_range 7 6 insn) (regFile s (insn_a insn)) (or1k_imm insn) (exu_arch s)) (exu_arch s) = Some (st', n)"
      using assms(1) 4 by (simp add: or1k_insn_def Let_def)
    then show ?thesis unfolding d by (rule alu) (rule imm_agrees)
  next
    case 5
    have d: "exu_decode i s t = exu_alu i s (alu_func 0x3) abImm16z True True False t"
      using 5 assms(2) by (simp add: exu_decode_def Let_def aluFuncTable_def signExtTable_def alu_func_simps)
    have "or1k_set insn (exu_arith 0x3 (sc_range 7 6 insn) (regFile s (insn_a insn)) (ucast (ucast insn :: u16)) (exu_arch s)) (exu_arch s) = Some (st', n)"
      using assms(1) 5 by (simp add: or1k_insn_def Let_def)
    then show ?thesis unfolding d by (rule alu) (rule imm_agrees)
  next
    case 6
    have d: "exu_decode i s t = exu_alu i s (alu_func 0x4) abImm16z True True False t"
      using 6 assms(2) by (simp add: exu_decode_def Let_def aluFuncTable_def signExtTable_def alu_func_simps)
    have "or1k_set insn (exu_arith 0x4 (sc_range 7 6 insn) (regFile s (insn_a insn)) (ucast (ucast insn :: u16)) (exu_arch s)) (exu_arch s) = Some (st', n)"
      using assms(1) 6 by (simp add: or1k_insn_def Let_def)
    then show ?thesis unfolding d by (rule alu) (rule imm_agrees)
  next
    case 7
    have d: "exu_decode i s t = exu_alu i s (alu_func 0x5) abImm16s True True False t"
      using 7 assms(2) by (simp add: exu_decode_def Let_def aluFuncTable_def signExtTable_def alu_func_simps)
    have "or1k_set insn (exu_arith 0x5 (sc_range 7 6 insn) (regFile s (insn_a insn)) (or1k_imm insn) (exu_arch s)) (exu_arch s) = Some (st', n)"
      using assms(1) 7 by (simp add: or1k_insn_def Let_def)
    then show ?thesis unfolding d by (rule alu) (rule imm_agrees)
  next
    case 8
    have d: "exu_decode i s t = exu_alu i s (alu_func 0x6) abImm16s True True False t"
      using 8 assms(2) by (simp add: exu_decode_def Let_def aluFuncTable_def signExtTable_def alu_func_simps)
    have "or1k_set insn (exu_arith 0x6 (sc_range 7 6 insn) (regFile s (insn_a insn)) (or1k_imm insn) (exu_arch s)) (exu_arch s) = Some (st', n)"
      using assms(1) 8 by (simp add: or1k_insn_def Let_def)
    then show ?thesis unfolding d by (rule alu) (rule imm_agrees)
  next
    case 9
    have d: "exu_decode i s t = exu_alu i s (alu_func 0x8) abImm16s True True False t"
      using 9 assms(2) by (simp add: exu_decode_def Let_def aluFuncTable_def signExtTable_def alu_func_simps)
    have "or1k_set insn (exu_arith 0x8 (sc_range 7 6 insn) (regFile s (insn_a insn)) (or1k_imm insn) (exu_arch s)) (exu_arch s) = Some (st', n)"
      using assms(1) 9 by (simp add: or1k_insn_def Let_def)
    then show ?thesis unfolding d by (rule alu) (rule imm_agrees)
  next
    case 10
    have d: "exu_decode i s t = exu_alu i s afSub abImm16s False False True t" using 10 assms(2) by (simp add: exu_decode_def Let_def)
    have "(if sc_range 25 21 insn \<in> or1k_conds
       then Some ((exu_arch s)\<lparr>or_f := or1k_cond (sc_range 25 21 insn) (regFile s (insn_a insn)) (or1k_imm insn)\<rparr>, 1) else None) = Some (st', n)"
      using assms(1) 10 by (simp add: or1k_insn_def Let_def del: insert_iff split del: if_split)
    then have "sc_range 25 21 insn \<in> or1k_conds"
      "st' = (exu_arch s)\<lparr>or_f := or1k_cond (sc_range 25 21 insn) (regFile s (insn_a insn)) (or1k_imm insn)\<rparr>" "n = 1"
      by (simp_all split: if_split_asm)
    then show ?thesis unfolding d by (rule flag) (rule imm_agrees)
  next
    case 11
    let ?v = "push_bit 16 (ucast (ucast insn :: u16)) :: u32"
    have "exu_decode i s t = exu_alu i s afMovhi abImm16hi True False False t" using 11 assms(2) by (simp add: exu_decode_def Let_def)
    also have "\<dots> = exu_delay 1 (t\<lparr>regFile := (regFile t)(insn_d insn := ?v)\<rparr>)"
      by (simp add: exu_alu_def RunAlu_def alu_run_def alu_plain_def Let_def assms(2) imm_agrees)
    finally have d: "exu_decode i s t = exu_delay 1 (t\<lparr>regFile := (regFile t)(insn_d insn := ?v)\<rparr>)" .
    have "or1k_set insn (Some (?v, regCY s, regOV s, 1)) (exu_arch s) = Some (st', n)"
      using assms(1) 11 by (simp add: or1k_insn_def Let_def)
    then have st: "st' = (exu_arch s)\<lparr>or_gpr := (regFile s)(insn_d insn := ?v, 0 := 0)\<rparr>" "n = 1"
      by (simp_all add: or1k_set_def exu_arch_def)
    have "t\<lparr>regFile := (regFile t)(insn_d insn := ?v)\<rparr>
        = t\<lparr>regFile := (regFile t)(insn_d insn := ?v), regF := regF t, regCY := regCY t, regOV := regOV t\<rparr>" by simp
    then have "t\<lparr>regFile := (regFile t)(insn_d insn := ?v)\<rparr>
        = t\<lparr>regFile := (regFile t)(insn_d insn := ?v), regF := or_f st', regCY := or_cy st', regOV := or_ov st'\<rparr>"
      unfolding st(1) assms(4,5,6) by simp
    moreover have "((regFile t)(insn_d insn := ?v))(0 := 0) = or_gpr st'" using st(1) assms(3) by simp
    ultimately show ?thesis unfolding d st(2)
      by (intro exI [of _ "(regFile t)(insn_d insn := ?v)"]) (simp only: zero_less_one simp_thms)
  qed
qed

lemma exu_delay_next:
  assumes "0 < n" "length js < n" "x_next t = False" "exceptId t = 0"
  shows "x_next (exu_run js (exu_delay n t)) \<longleftrightarrow> Suc (length js) = n"
proof (cases "n = 1")
  case True
  then show ?thesis using assms(2) by (simp add: exu_delay_def exu_next_def)
next
  case False
  have "x_loc u = L_delay k \<Longrightarrow> length js < k + 1 \<Longrightarrow> \<not> x_next u \<Longrightarrow> 0 < k \<Longrightarrow> x_next (exu_run js u) \<longleftrightarrow> length js = k" for u k
  proof (induction js arbitrary: u k)
    case (Cons j js)
    show ?case
    proof (cases "k = 1")
      case True
      then show ?thesis using Cons.prems by (simp add: exu_step_def exu_next_def)
    next
      case False
      then have s: "exu_step j u = u\<lparr>x_loc := L_delay (k - 1)\<rparr>" using Cons.prems by (simp add: exu_step_def)
      have "x_next (exu_run js (u\<lparr>x_loc := L_delay (k - 1)\<rparr>)) \<longleftrightarrow> length js = k - 1"
        by (rule Cons.IH) (use Cons.prems False in simp_all)
      then show ?thesis using Cons.prems(4) False by (simp add: s) arith
    qed
  qed simp
  from this [of "exu_delay n t" "n - 1"] show ?thesis
    using False assms by (simp add: exu_delay_def) arith
qed

text \<open>The thread waits for an instruction; \<open>exu_invariant\<close> shows that it is in this state whenever it is at \<open>L_exec\<close>.\<close>

definition exu_ready :: "exu \<Rightarrow> bool" where
  "exu_ready s \<longleftrightarrow> x_loc s = L_exec \<and> inCePU s \<and> exceptId s = 0 \<and> regFile s 0 = 0 \<and> \<not> x_next s"

lemma exu_exec_agrees:
  assumes "or1k_insn exu_arith (x_ir i) (exu_arch s) = Some (st', n)" "exu_ready s" "x_ir_valid i"
  shows "\<exists>rf. exu_step i s = exu_delay n (s\<lparr>x_mode := 1, x_insn := x_ir i, inDelaySlot := nextInDelaySlot s, nextInDelaySlot := False,
       regFile := rf, regF := or_f st', regCY := or_cy st', regOV := or_ov st'\<rparr>) \<and> rf(0 := 0) = or_gpr st' \<and> 0 < n"
proof -
  define t where "t = s\<lparr>x_mode := 1, x_insn := x_ir i, inDelaySlot := nextInDelaySlot s, nextInDelaySlot := False\<rparr>"
  have "exu_step i s = exu_decode i s t"
    using assms(2,3) by (simp add: exu_step_def exu_exec_def exu_ready_def Let_def t_def)
  moreover obtain rf where "exu_decode i s t = exu_delay n (t\<lparr>regFile := rf, regF := or_f st', regCY := or_cy st', regOV := or_ov st'\<rparr>)"
    "rf(0 := 0) = or_gpr st'" "0 < n"
    using exu_decode_agrees [OF assms(1), of t i] assms(2) by (auto simp: t_def exu_ready_def)
  ultimately show ?thesis by (intro exI [of _ rf]) (simp add: t_def)
qed

text \<open>The unit and the reference have the same instructions and clocks, and the same results but for the deviations.\<close>

lemma arith_deviation:
  assumes "or1k_arith op sub a b st = Some (r, cy, ov, n)"
  shows "\<exists>r' cy' ov'. exu_arith op sub a b st = Some (r', cy', ov', n)
    \<and> ((d = 0 \<or> r' = r) \<and> cy' = cy \<and> ov' = ov \<longleftrightarrow> \<not> arith_deviates op sub a b d st)"
proof -
  have "op \<in> {0x0, 0x1, 0x2, 0x3, 0x4, 0x5, 0x6, 0xb, 0x8, 0xc, 0xe}"
    by (rule ccontr) (use assms in \<open>simp add: or1k_arith_def Let_def\<close>)
  then consider "op = 0x2" | "op = 0x6" | "op = 0xb" | "op = 0x8" | "op \<in> {0x0, 0x1, 0x3, 0x4, 0x5, 0xc, 0xe}" by blast
  then show ?thesis
  proof cases
    case 4
    then show ?thesis using assms
      by (cases "sub = 3 \<and> 16 < unat (b AND 31)")
        (auto simp: exu_arith_def or1k_arith_def arith_deviates_def or1k_shift_def Let_def)
  next
    case 5
    then have "op \<noteq> 0x2 \<and> op \<noteq> 0x6 \<and> op \<noteq> 0xb \<and> op \<noteq> 0x8" by auto
    then show ?thesis using assms by (simp add: exu_arith_def arith_deviates_def)
  qed (use assms in \<open>auto simp: exu_arith_def or1k_arith_def arith_deviates_def\<close>)
qed

lemma set_deviation:
  assumes "or1k_set insn (or1k_arith op sub a b st) st = Some (st', n)"
  shows "\<exists>st2. or1k_set insn (exu_arith op sub a b st) st = Some (st2, n) \<and> (st2 = st' \<longleftrightarrow> \<not> arith_deviates op sub a b (insn_d insn) st)"
proof -
  obtain r cy ov where r: "or1k_arith op sub a b st = Some (r, cy, ov, n)"
    "st' = st\<lparr>or_gpr := (or_gpr st)(insn_d insn := r, 0 := 0), or_cy := cy, or_ov := ov\<rparr>"
    using assms by (auto simp: or1k_set_def)
  obtain r' cy' ov' where r': "exu_arith op sub a b st = Some (r', cy', ov', n)"
    "(insn_d insn = 0 \<or> r' = r) \<and> cy' = cy \<and> ov' = ov \<longleftrightarrow> \<not> arith_deviates op sub a b (insn_d insn) st"
    using arith_deviation [OF r(1)] by blast
  let ?st2 = "st\<lparr>or_gpr := (or_gpr st)(insn_d insn := r', 0 := 0), or_cy := cy', or_ov := ov'\<rparr>"
  have g: "(or_gpr st)(insn_d insn := r', 0 := 0) = (or_gpr st)(insn_d insn := r, 0 := 0) \<longleftrightarrow> insn_d insn = 0 \<or> r' = r"
    by (auto simp: fun_eq_iff split: if_splits)
  have "?st2 = st' \<longleftrightarrow> (insn_d insn = 0 \<or> r' = r) \<and> cy' = cy \<and> ov' = ov"
    unfolding r(2) g [symmetric] by (cases st) auto
  then show ?thesis using r'(1) unfolding r'(2) by (simp add: or1k_set_def)
qed

lemma insn_deviation:
  assumes "or1k_insn or1k_arith insn st = Some (st', n)"
  shows "\<exists>st2. or1k_insn exu_arith insn st = Some (st2, n) \<and> (st2 = st' \<longleftrightarrow> \<not> insn_deviates insn st)"
proof -
  let ?op = "sc_range 31 26 insn" and ?sub = "sc_range 7 6 insn" and ?a = "or_gpr st (insn_a insn)"
  have plain: "exu_arith op ?sub ?a b st = or1k_arith op ?sub ?a b st" if "op \<in> {0x0, 0x1, 0x3, 0x4, 0x5}" for op b
    using that by (auto simp: exu_arith_def)
  consider "?op = 0x38" | "?op = 0x2c" | "?op = 0x2e" | "?op \<noteq> 0x38" "?op \<noteq> 0x2c" "?op \<noteq> 0x2e" by blast
  then show ?thesis
  proof cases
    case 4
    have "\<not> insn_deviates insn st" using 4 by (simp add: insn_deviates_def Let_def)
    moreover have "or1k_insn exu_arith insn st = or1k_insn or1k_arith insn st"
      using 4 by (simp add: or1k_insn_def plain Let_def cong: if_cong)
    ultimately show ?thesis using assms by simp
  qed (use assms set_deviation in \<open>simp_all add: or1k_insn_def insn_deviates_def Let_def\<close>)
qed

text \<open>
  C16.  When the execution unit waits for an instruction and gets one of the group (additions, subtractions, logic,
  multiplications, shifts and rotations, extensions, conditional moves, comparisons, \<open>l.movhi\<close>), then, whatever its
  inputs are meanwhile, after the clocks of the operation and one more it waits for the next instruction, with R0 zero
  and everything but the destination register and the flags as it was, and it has asked the fetch unit for the next
  instruction in exactly one clock, the last of the operation.  Register and flags are those of the architecture except
  exactly for these cases (\<open>insn_deviates\<close>): a subtraction of the least number, a multiplication that overflows or finds
  the carry set, and a rotation by more than 16 that loses bits.
\<close>

theorem exu_implements_or1k:
  assumes "or1k_insn or1k_arith (x_ir i) (exu_arch s) = Some (st', n)" "exu_ready s" "x_ir_valid i" "length is = n"
  shows "(\<exists>st2. or1k_insn exu_arith (x_ir i) (exu_arch s) = Some (st2, n) \<and> exu_run (i # is) s = exu_done i st2 s
       \<and> (st2 = st' \<longleftrightarrow> \<not> insn_deviates (x_ir i) (exu_arch s)))
    \<and> (\<forall>k < n. x_next (exu_run (i # take k is) s) \<longleftrightarrow> Suc k = n)"
proof -
  obtain st2 where st2: "or1k_insn exu_arith (x_ir i) (exu_arch s) = Some (st2, n)" "st2 = st' \<longleftrightarrow> \<not> insn_deviates (x_ir i) (exu_arch s)"
    using insn_deviation [OF assms(1)] by blast
  obtain rf where rf: "exu_step i s = exu_delay n (s\<lparr>x_mode := 1, x_insn := x_ir i, inDelaySlot := nextInDelaySlot s,
       nextInDelaySlot := False, regFile := rf, regF := or_f st2, regCY := or_cy st2, regOV := or_ov st2\<rparr>)" (is "_ = exu_delay n ?t") "rf(0 := 0) = or_gpr st2" "0 < n"
    using exu_exec_agrees [OF st2(1) assms(2,3)] by blast
  have e: "exceptId ?t = 0" "x_next ?t = False" using assms(2) by (simp_all add: exu_ready_def)
  have "exu_run is (exu_delay n ?t) = exu_top (exu_next ?t)" by (rule exu_delay_run [OF rf(3) assms(4) e(1)])
  also have "\<dots> = exu_done i st2 s"
    by (rule exu.equality) (use rf(2) in \<open>simp_all add: exu_top_def exu_next_def exu_done_def\<close>)
  finally have "exu_run (i # is) s = exu_done i st2 s" using rf(1) by simp
  moreover have "x_next (exu_run (i # take k is) s) \<longleftrightarrow> Suc k = n" if "k < n" for k
    using exu_delay_next [OF rf(3) _ e(2,1), of "take k is"] that assms(4) rf(1) by simp
  ultimately show ?thesis using st2 by blast
qed

definition exu_in0 :: exu_in where
  "exu_in0 = \<lparr>x_ir_valid = False, x_npc_valid = False, x_ir = 0, x_ppc = 0, x_pc = 0, x_npc = 0, x_lsu_ack = False, x_lsu_rdata = 0,
     x_lsu_wcond_ok = False, x_undef = 0\<rparr>"

definition exu_power_up :: exu where
  "exu_power_up = \<lparr>inCePU = True, localID = 0, regFile = (\<lambda>n. 0), regEPCR = 0, regEEAR = 0, regESR = 0, regCPUEN = (\<lambda>n. 0),
     regLM = (\<lambda>n. 0), regXT = (\<lambda>n. 0), regXID = (\<lambda>n. 0), regIFUADR = 0, regCY = False, regOV = False, regF = False,
     regSUMRA = False, regDSX = False, regICE = False, regDCE = False, regIEE = False, x_mode = 0, x_next = False, x_jump = False,
     x_jump_adr = 0, x_rd = False, x_wr = False, x_flush = False, x_invalidate = False, x_writeback = False, x_width = 0, x_exts = False,
     x_adr = 0, x_wdata = 0, x_rlink_wcond = False, x_insn = 0, inDelaySlot = False, nextInDelaySlot = False, exceptId = 0,
     exceptRestart = False, x_console = [], x_loc = L_exec\<rparr>"

definition ex_exu :: exu where
  "ex_exu = exu_power_up\<lparr>regFile := (\<lambda>n. 0)(3 := 0xfffffffe, 4 := 3)\<rparr>"

text \<open>\<open>l.mul r5,r3,r4\<close>: three clocks and one.\<close>

theorem exu_implements_or1k_witness:
  "regFile (exu_run (exu_in0\<lparr>x_ir_valid := True, x_ir := 0xe0a32306\<rparr> # replicate 3 exu_in0) ex_exu) 5 = 0xfffffffa
   \<and> \<not> insn_deviates 0xe0a32306 (exu_arch ex_exu)
   \<and> x_next (exu_run (exu_in0\<lparr>x_ir_valid := True, x_ir := 0xe0a32306\<rparr> # take 2 (replicate 3 exu_in0)) ex_exu)"
proof -
  let ?i = "exu_in0\<lparr>x_ir_valid := True, x_ir := 0xe0a32306\<rparr>"
  obtain st' n where st: "or1k_insn or1k_arith (x_ir ?i) (exu_arch ex_exu) = Some (st', n)" "n = 3" "or_gpr st' 5 = 0xfffffffa"
  proof -
    have "map_option (\<lambda>(st', n). (or_gpr st' 5, n)) (or1k_insn or1k_arith (x_ir ?i) (exu_arch ex_exu)) = Some (0xfffffffa, 3)" by code_simp
    then show ?thesis using that by auto
  qed
  have d: "\<not> insn_deviates (x_ir ?i) (exu_arch ex_exu)" by code_simp
  have "exu_ready ex_exu" by code_simp
  then have "exu_run (?i # replicate 3 exu_in0) ex_exu = exu_done ?i st' ex_exu
      \<and> (\<forall>k < 3. x_next (exu_run (?i # take k (replicate 3 exu_in0)) ex_exu) \<longleftrightarrow> Suc k = 3)"
    using exu_implements_or1k [OF st(1), of "replicate 3 exu_in0"] st(2) d by auto
  then show ?thesis using st(3) d by (simp add: exu_done_def)
qed

text \<open>
  Where the arithmetic deviates from the architecture: the overflow flag of a subtraction is wrong exactly when the
  least number is subtracted, and a rotation by more than 16 loses the bits from place \<open>64 - 2 * n\<close> on.
\<close>

lemma exu_arith_deviations:
  "(outOV (alu_addsub afSub cy d a b) \<longleftrightarrow> \<not> signed_fits (sint a - sint b)) = (b \<noteq> 0x80000000)
   \<and> alu_shift 3 a (unat (c AND 31 :: u32)) = (if unat (c AND 31) \<le> 16 then word_rotr (unat (c AND 31)) a
        else word_rotr (unat (c AND 31)) a AND mask (64 - 2 * unat (c AND 31)))"
proof
  show "(outOV (alu_addsub afSub cy d a b) \<longleftrightarrow> \<not> signed_fits (sint a - sint b)) = (b \<noteq> 0x80000000)"
    using alu_sub_overflow by auto
  define n where "n = unat (c AND 31)"
  have n: "n < 32" using sc_range_less [of 4 0 c] by (simp add: n_def sc_range_4_0)
  show "alu_shift 3 a (unat (c AND 31 :: u32)) = (if unat (c AND 31) \<le> 16 then word_rotr (unat (c AND 31)) a
        else word_rotr (unat (c AND 31)) a AND mask (64 - 2 * unat (c AND 31)))"
    using alu_rotate [OF n, of a] unfolding n_def .
qed

end
