(* ===== verification/PnIfu.thy ===== *)
theory PnIfu
  imports Prelude
begin

text \<open>
  The instruction fetch unit of the ParaNut, module \<open>MIfu\<close> of \<open>src/sysc/ifu.cpp\<close>.  A SystemC signal is a
  field of the record \<open>ifu\<close>; \<open>ifu_transition\<close> is one activation of \<open>TransitionMethod\<close> at a clock edge: every
  read of a signal gives the value before the edge, a later write of a signal overrides an earlier one, and
  the local variables are the bound names.  \<open>OutputMethod\<close> only copies buffer places to the output signals,
  which are the definitions \<open>ifu_ir\<close> to \<open>ifu_npc_valid\<close>.

  \<open>ifu_fail\<close> is set when an \<open>ASSERT\<close> fails, which ends the simulation, or an array is accessed outside its
  bounds.  The memory the unit fetches from and the execution unit are its environment: \<open>ifu_obeys\<close> is the
  protocol of \<open>memu.h\<close> (data one clock after the acknowledge, no two acknowledges in a row) and of \<open>ifu.h\<close>.
\<close>

section \<open>Signals\<close>

abbreviation (input) IFU_BUF_SIZE :: nat where "IFU_BUF_SIZE \<equiv> 4"

record ifu_in =
  in_reset :: bool
  in_next :: bool
  in_jump :: bool
  in_jump_adr :: u32
  in_rp_ack :: bool
  in_rp_data :: u32

record ifu =
  insn_buf :: "nat \<Rightarrow> u32"
  adr_buf :: "nat \<Rightarrow> u32"
  insn_top :: nat
  adr_top :: nat
  last_rp_ack :: bool
  rp_rd :: bool
  rp_adr :: u32
  ifu_fail :: bool

definition ifu_ir :: "ifu \<Rightarrow> u32" where "ifu_ir s = insn_buf s 1"
definition ifu_ir_valid :: "ifu \<Rightarrow> bool" where "ifu_ir_valid s \<longleftrightarrow> insn_top s > 1"
definition ifu_ppc :: "ifu \<Rightarrow> u32" where "ifu_ppc s = adr_buf s 0"
definition ifu_pc :: "ifu \<Rightarrow> u32" where "ifu_pc s = adr_buf s 1"
definition ifu_npc :: "ifu \<Rightarrow> u32" where "ifu_npc s = adr_buf s 2"
definition ifu_npc_valid :: "ifu \<Rightarrow> bool" where "ifu_npc_valid s \<longleftrightarrow> adr_top s > 2"

lemmas ifu_outputs = ifu_ir_def ifu_ir_valid_def ifu_ppc_def ifu_pc_def ifu_npc_def ifu_npc_valid_def

section \<open>The transition\<close>

definition IsJump :: "u32 \<Rightarrow> bool" where
  "IsJump insn \<longleftrightarrow>
     (let op6 = drop_bit 26 insn
      in op6 \<le> 0x04 \<or> op6 = 0x11 \<or> op6 = 0x12 \<or> op6 = 0x08 \<or> op6 = 0x09)"

text \<open>The shift of a buffer, \<open>IFU_BUF_SIZE - 1\<close> places.\<close>

definition shift_buf :: "bool \<Rightarrow> (nat \<Rightarrow> u32) \<Rightarrow> nat \<Rightarrow> u32" where
  "shift_buf nxt b = (\<lambda>n. if nxt \<and> n < IFU_BUF_SIZE - 1 then b (n + 1) else b n)"

definition ifu_transition :: "ifu_in \<Rightarrow> ifu \<Rightarrow> ifu" where
  "ifu_transition i s =
     (let ofs = (if in_next i then 1 else 0);
          ib1 = shift_buf (in_next i) (insn_buf s);
          ab1 = shift_buf (in_next i) (adr_buf s);
          it1 = insn_top s - ofs;
          at1 = adr_top s - ofs;
          (ab2, at2) = (if at1 < IFU_BUF_SIZE then (ab1(at1 := adr_buf s (at1 - (1 - ofs)) + 4), at1 + 1) else (ab1, at1));
          bad_index = (at1 < IFU_BUF_SIZE \<and> at1 = 0 \<and> \<not> in_next i);
          (it3, ab3, at3) = (if in_jump i then (min it1 2, ab2(2 := in_jump_adr i), 3) else (it1, ab2, at2));
          bad_jump = (in_jump i \<and> in_jump_adr i AND 3 \<noteq> 0);
          (ib4, it4) = (if last_rp_ack s then (ib1(it3 := in_rp_data i), it3 + 1) else (ib1, it3));
          bad_data = (last_rp_ack s \<and> it3 \<ge> IFU_BUF_SIZE);
          next_top = (if in_rp_ack i then it4 + 1 else it4);
          issue = (at3 > next_top \<and> next_top + ofs < IFU_BUF_SIZE
                   \<and> \<not> (next_top \<ge> 2 \<and> IsJump (insn_buf s (next_top + ofs - 2))));
          s' = s\<lparr>insn_buf := ib4, adr_buf := ab3, insn_top := it4, adr_top := at3, last_rp_ack := in_rp_ack i,
                 rp_rd := issue, rp_adr := (if issue then adr_buf s (next_top + ofs) else rp_adr s),
                 ifu_fail := (ifu_fail s \<or> bad_index \<or> bad_jump \<or> bad_data)\<rparr>
      in if in_reset i
         then s'\<lparr>insn_top := 1, adr_buf := ab3(0 := 0x100 - 4), adr_top := 1, rp_rd := False\<rparr>
         else s')"

definition ifu_run :: "ifu_in list \<Rightarrow> ifu \<Rightarrow> ifu" where
  "ifu_run is s = fold ifu_transition is s"

section \<open>The protocol of the environment\<close>

text \<open>
  \<open>mem\<close> is the program, \<open>a\<close> the address on the read port in the clock before, which is the address of the
  data when \<open>last_rp_ack\<close> holds.  The execution unit asserts \<open>jump\<close> when the instruction that is the previous
  one after the edge is a jump, and \<open>next\<close> when the current one is valid.
\<close>

definition ifu_obeys :: "(u32 \<Rightarrow> u32) \<Rightarrow> u32 \<Rightarrow> ifu_in \<Rightarrow> ifu \<Rightarrow> bool" where
  "ifu_obeys mem a i s \<longleftrightarrow>
     \<not> in_reset i
     \<and> (in_rp_ack i \<longrightarrow> rp_rd s \<and> \<not> last_rp_ack s)
     \<and> (last_rp_ack s \<longrightarrow> in_rp_data i = mem a)
     \<and> (in_next i \<longrightarrow> ifu_ir_valid s)
     \<and> (in_jump i \<longrightarrow> in_jump_adr i AND 3 = 0 \<and> IsJump (insn_buf s (if in_next i then 1 else 0)))"

fun ifu_env :: "(u32 \<Rightarrow> u32) \<Rightarrow> u32 \<Rightarrow> ifu_in list \<Rightarrow> ifu \<Rightarrow> bool" where
  "ifu_env mem a [] s \<longleftrightarrow> True"
| "ifu_env mem a (i # is) s \<longleftrightarrow> ifu_obeys mem a i s \<and> ifu_env mem (rp_adr s) is (ifu_transition i s)"

section \<open>The invariant\<close>

text \<open>The first place for which no data is on its way.\<close>

definition ifu_due :: "ifu \<Rightarrow> nat" where
  "ifu_due s = insn_top s + (if last_rp_ack s then 1 else 0)"

text \<open>
  Every known instruction after the one at place 0 on reset is the word of its address; data on its way and
  the request that is held belong to the next places; behind a jump only the delay slot is fetched; addresses
  from place 2 on are consecutive, and the current and the next one are unless a jump was taken.
\<close>

definition ifu_inv :: "(u32 \<Rightarrow> u32) \<Rightarrow> u32 \<Rightarrow> ifu \<Rightarrow> bool" where
  "ifu_inv mem a s \<longleftrightarrow>
     1 \<le> insn_top s \<and> insn_top s \<le> ifu_due s \<and> ifu_due s \<le> adr_top s \<and> adr_top s \<le> IFU_BUF_SIZE
     \<and> (ifu_due s < adr_top s \<or> adr_top s = IFU_BUF_SIZE \<or> adr_top s = 1 \<and> adr_buf s 1 = adr_buf s 0 + 4)
     \<and> (\<forall>n. 1 \<le> n \<and> n < insn_top s \<longrightarrow> insn_buf s n = mem (adr_buf s n))
     \<and> (last_rp_ack s \<longrightarrow> a = adr_buf s (insn_top s))
     \<and> (rp_rd s \<longrightarrow> ifu_due s < IFU_BUF_SIZE \<and> (\<not> last_rp_ack s \<longrightarrow> ifu_due s < adr_top s \<and> rp_adr s = adr_buf s (ifu_due s)))
     \<and> (\<forall>n < insn_top s. IsJump (insn_buf s n) \<longrightarrow> ifu_due s + (if rp_rd s then 1 else 0) \<le> n + 2)
     \<and> (\<forall>n. 1 \<le> n \<and> n + 1 < adr_top s \<longrightarrow>
          adr_buf s (n + 1) = adr_buf s n + 4 \<or> n = 1 \<and> 0 < insn_top s \<and> IsJump (insn_buf s 0))"

definition ifu_ofs :: "ifu_in \<Rightarrow> nat" where
  "ifu_ofs i = (if in_next i then 1 else 0)"

text \<open>Under the invariant and the protocol a jump never cuts a fetched instruction off.\<close>

lemma ifu_jump_room:
  assumes "ifu_inv mem a s" "ifu_obeys mem a i s"
  shows "ifu_ofs i < insn_top s"
    and "in_jump i \<Longrightarrow> ifu_due s + (if rp_rd s then 1 else 0) \<le> ifu_ofs i + 2 \<and> IsJump (insn_buf s (ifu_ofs i))"
proof -
  show o: "ifu_ofs i < insn_top s"
    using assms by (auto simp: ifu_inv_def ifu_obeys_def ifu_ofs_def ifu_ir_valid_def)
  assume "in_jump i"
  then have "IsJump (insn_buf s (ifu_ofs i))"
    using assms(2) by (simp add: ifu_obeys_def ifu_ofs_def split: if_splits)
  with o assms(1) show "ifu_due s + (if rp_rd s then 1 else 0) \<le> ifu_ofs i + 2 \<and> IsJump (insn_buf s (ifu_ofs i))"
    by (simp add: ifu_inv_def)
qed

lemma ifu_transition_fields:
  assumes "ifu_inv mem a s" "ifu_obeys mem a i s"
  defines "o' \<equiv> ifu_ofs i" and "t \<equiv> ifu_due s - ifu_ofs i" and "s' \<equiv> ifu_transition i s"
  shows "insn_top s' = t"
    and "insn_buf s' = (if last_rp_ack s then (shift_buf (in_next i) (insn_buf s))(insn_top s - o' := in_rp_data i)
                        else shift_buf (in_next i) (insn_buf s))"
    and "last_rp_ack s' = in_rp_ack i"
    and "adr_top s' = (if in_jump i then 3 else min 4 (adr_top s - o' + 1))"
    and "\<And>n. n < adr_top s - o' \<Longrightarrow> adr_buf s' n = (if in_jump i \<and> n = 2 then in_jump_adr i else adr_buf s (n + o'))"
    and "adr_top s - o' < 4 \<Longrightarrow> adr_buf s' (adr_top s - o') =
           (if in_jump i \<and> adr_top s - o' = 2 then in_jump_adr i else adr_buf s (adr_top s - 1) + 4)"
    and "in_jump i \<Longrightarrow> adr_buf s' 2 = in_jump_adr i"
    and "rp_rd s' \<longleftrightarrow> adr_top s' > ifu_due s' \<and> ifu_due s' + o' < 4 \<and> \<not> (ifu_due s' \<ge> 2 \<and> IsJump (insn_buf s (ifu_due s' + o' - 2)))"
    and "rp_rd s' \<Longrightarrow> rp_adr s' = adr_buf s (ifu_due s' + o')"
    and "ifu_due s' = t + (if in_rp_ack i then 1 else 0)"
    and "ifu_fail s' = ifu_fail s"
proof -
  have b: "1 \<le> insn_top s" "insn_top s \<le> ifu_due s" "ifu_due s \<le> adr_top s" "adr_top s \<le> 4"
    using assms(1) by (simp_all add: ifu_inv_def)
  have p: "ifu_due s = insn_top s + (if last_rp_ack s then 1 else 0)" by (simp add: ifu_due_def)
  have o: "o' < insn_top s" "o' = (if in_next i then 1 else 0)" "o' \<le> 1"
    using ifu_jump_room(1) [OF assms(1,2)] by (simp_all add: o'_def ifu_ofs_def)
  have cut: "(if in_jump i then min (insn_top s - o') 2 else insn_top s - o') = insn_top s - o'"
    using ifu_jump_room(2) [OF assms(1,2)] p by (auto simp: o'_def split: if_splits)
  have r: "\<not> in_reset i" "in_jump i \<Longrightarrow> in_jump_adr i AND 3 = 0" using assms(2) by (simp_all add: ifu_obeys_def)
  have data: "last_rp_ack s \<Longrightarrow> insn_top s - o' < 4" using b p by (simp split: if_splits)
  have t: "t = (if last_rp_ack s then insn_top s - o' + 1 else insn_top s - o')"
    using o(1) p by (auto simp: t_def simp flip: o'_def)
  define ab where "ab = (if adr_top s - o' < 4
      then (shift_buf (in_next i) (adr_buf s))(adr_top s - o' := adr_buf s (adr_top s - o' - (1 - o')) + 4)
      else shift_buf (in_next i) (adr_buf s))"
  have s': "s' = (let due = (if in_rp_ack i then t + 1 else t); at = (if in_jump i then 3 else if adr_top s - o' < 4 then adr_top s - o' + 1 else adr_top s - o');
        issue = (at > due \<and> due + o' < 4 \<and> \<not> (due \<ge> 2 \<and> IsJump (insn_buf s (due + o' - 2))))
     in s\<lparr>insn_buf := (if last_rp_ack s then (shift_buf (in_next i) (insn_buf s))(insn_top s - o' := in_rp_data i)
                        else shift_buf (in_next i) (insn_buf s)),
          adr_buf := (if in_jump i then ab(2 := in_jump_adr i) else ab), insn_top := t, adr_top := at, last_rp_ack := in_rp_ack i,
          rp_rd := issue, rp_adr := (if issue then adr_buf s (due + o') else rp_adr s),
          ifu_fail := ifu_fail s\<rparr>)"
  proof -
    have o2: "(if in_next i then 1 else 0) = o'" using o(2) by simp
    have cut': "in_jump i \<Longrightarrow> min (insn_top s - o') 2 = insn_top s - o'" using cut by simp
    have data': "last_rp_ack s \<Longrightarrow> \<not> 4 \<le> insn_top s - o'" using data by simp
    have nz': "\<not> adr_top s \<le> o'" using o b by simp
    have def1: "s' = ifu_transition i s" by (simp only: s'_def)
    show ?thesis
      unfolding def1 ifu_transition_def Let_def o2
      by (cases "in_jump i"; cases "last_rp_ack s"; cases "adr_top s - o' < 4"; insert r nz';
          simp add: cut' data' t ab_def split del: if_split cong del: if_weak_cong)
  qed
  show "insn_top s' = t" "last_rp_ack s' = in_rp_ack i" "ifu_fail s' = ifu_fail s"
    "insn_buf s' = (if last_rp_ack s then (shift_buf (in_next i) (insn_buf s))(insn_top s - o' := in_rp_data i)
                        else shift_buf (in_next i) (insn_buf s))"
    by (simp_all add: s' Let_def split del: if_split)
  show at: "adr_top s' = (if in_jump i then 3 else min 4 (adr_top s - o' + 1))"
    using b(4) by (auto simp: s' Let_def)
  show due: "ifu_due s' = t + (if in_rp_ack i then 1 else 0)"
    by (simp add: s' Let_def ifu_due_def)
  show "rp_rd s' \<longleftrightarrow> adr_top s' > ifu_due s' \<and> ifu_due s' + o' < 4 \<and> \<not> (ifu_due s' \<ge> 2 \<and> IsJump (insn_buf s (ifu_due s' + o' - 2)))"
    unfolding due by (simp add: s' Let_def)
  show "rp_rd s' \<Longrightarrow> rp_adr s' = adr_buf s (ifu_due s' + o')"
    unfolding due by (simp add: s' Let_def split: if_splits)
  have "adr_buf s' = (if in_jump i then ab(2 := in_jump_adr i) else ab)"
    by (simp add: s' Let_def)
  then show "\<And>n. n < adr_top s - o' \<Longrightarrow> adr_buf s' n = (if in_jump i \<and> n = 2 then in_jump_adr i else adr_buf s (n + o'))"
    "adr_top s - o' < 4 \<Longrightarrow> adr_buf s' (adr_top s - o') = (if in_jump i \<and> adr_top s - o' = 2 then in_jump_adr i else adr_buf s (adr_top s - 1) + 4)"
    "in_jump i \<Longrightarrow> adr_buf s' 2 = in_jump_adr i"
    using o b by (auto simp: ab_def shift_buf_def)
qed

lemma ifu_inv_step:
  assumes inv: "ifu_inv mem a s" and env: "ifu_obeys mem a i s"
  shows "ifu_inv mem (rp_adr s) (ifu_transition i s)"
proof -
  define s' where "s' = ifu_transition i s"
  define o' where "o' = ifu_ofs i"
  note F = ifu_transition_fields [OF inv env, folded s'_def o'_def]
  have b: "1 \<le> insn_top s" "insn_top s \<le> ifu_due s" "ifu_due s \<le> adr_top s" "adr_top s \<le> 4"
    "ifu_due s < adr_top s \<or> adr_top s = 4 \<or> adr_top s = 1 \<and> adr_buf s 1 = adr_buf s 0 + 4"
    using inv by (simp_all add: ifu_inv_def)
  have p: "ifu_due s = insn_top s + (if last_rp_ack s then 1 else 0)" by (simp add: ifu_due_def)
  have o: "o' < insn_top s" "o' = (if in_next i then 1 else 0)" "o' \<le> 1"
    using ifu_jump_room(1) [OF inv env] by (simp_all add: o'_def ifu_ofs_def)
  have j: "ifu_due s + (if rp_rd s then 1 else 0) \<le> o' + 2" "IsJump (insn_buf s o')" if "in_jump i"
    using ifu_jump_room(2) [OF inv env that] by (simp_all add: o'_def)
  have ack: "rp_rd s" "\<not> last_rp_ack s" "ifu_due s < adr_top s" "ifu_due s = insn_top s" "rp_adr s = adr_buf s (ifu_due s)" if "in_rp_ack i"
    using inv env that by (auto simp: ifu_inv_def ifu_obeys_def ifu_due_def)
  have at: "adr_top s - o' \<ge> 1" using o b by simp
  have top: "ifu_due s' \<le> adr_top s'"
    using j ack b o unfolding F(10) F(4) by (auto split: if_splits)
  have known: "insn_buf s' n = insn_buf s (n + o')" if "n + o' < insn_top s" for n
    using that o b unfolding F(2) shift_buf_def by (auto simp: p)
  have adr: "adr_buf s' n = (if in_jump i \<and> n = 2 then in_jump_adr i else adr_buf s (n + o'))" if "n < adr_top s - o'" for n
    by (rule F(5) [OF that])
  have words: "insn_buf s' n = mem (adr_buf s' n)" if "1 \<le> n" "n < insn_top s'" for n
  proof -
    have n: "n < ifu_due s - o'" using that(2) F(1) by simp
    then have adr': "adr_buf s' n = adr_buf s (n + o')"
      using adr [of n] b j by (auto split: if_splits)
    show ?thesis
    proof (cases "n + o' < insn_top s")
      case True
      with inv that(1) show ?thesis by (simp add: known adr' ifu_inv_def)
    next
      case False
      with n p have l: "last_rp_ack s" "n = insn_top s - o'" "n + o' = insn_top s" using o(1) by (auto split: if_splits)
      then have "insn_buf s' n = in_rp_data i" by (simp add: F(2))
      moreover have "in_rp_data i = mem a" using env l(1) by (simp add: ifu_obeys_def)
      moreover have "adr_buf s' n = a" using inv l(1,3) adr' by (simp add: ifu_inv_def)
      ultimately show ?thesis by simp
    qed
  qed
  have held: "ifu_due s' < 4 \<and> (\<not> last_rp_ack s' \<longrightarrow> ifu_due s' < adr_top s' \<and> rp_adr s' = adr_buf s' (ifu_due s'))" if rd: "rp_rd s'"
  proof -
    have r: "adr_top s' > ifu_due s'" "ifu_due s' + o' < 4" "2 \<le> ifu_due s' \<Longrightarrow> \<not> IsJump (insn_buf s (ifu_due s' + o' - 2))"
      "rp_adr s' = adr_buf s (ifu_due s' + o')"
      using rd F(8,9) by simp_all
    have "rp_adr s' = adr_buf s' (ifu_due s')" if "\<not> last_rp_ack s'"
    proof -
      have d: "ifu_due s' = ifu_due s - o'" "ifu_due s' + o' = ifu_due s" using that o b by (simp_all add: F(3,10))
      show ?thesis
      proof (cases "ifu_due s < adr_top s")
        case True
        have "\<not> (in_jump i \<and> ifu_due s' = 2)" using r(3) j(2) by auto
        with adr [of "ifu_due s'"] True d r(4) o b show ?thesis by (auto split: if_splits)
      next
        case False
        with b(3,5) r(2) d(2) have "adr_top s = 1" "adr_buf s 1 = adr_buf s 0 + 4" "ifu_due s = 1" by auto
        moreover from this have "o' = 0" using o b by simp
        ultimately show ?thesis using F(6) r(4) d by simp
      qed
    qed
    with r show ?thesis by simp
  qed
  have room: "ifu_due s' + (if rp_rd s' then 1 else 0) \<le> n + 2" if n: "n < insn_top s'" "IsJump (insn_buf s' n)" for n
  proof (cases "n + o' < insn_top s")
    case True
    then have k: "IsJump (insn_buf s (n + o'))" using n known by simp
    with True inv have "ifu_due s + (if rp_rd s then 1 else 0) \<le> n + o' + 2" by (simp add: ifu_inv_def)
    then have "ifu_due s' \<le> n + 2" using ack(1) o by (auto simp: F(10) split: if_splits)
    moreover have "ifu_due s' \<noteq> n + 2" if "rp_rd s'" using that k F(8) by auto
    ultimately show ?thesis by auto
  next
    case False
    then have "last_rp_ack s" "n = insn_top s - o'" using n(1) o p F(1) by (auto split: if_splits)
    then show ?thesis using ack o p by (auto simp: F(10))
  qed
  have steps: "adr_buf s' (n + 1) = adr_buf s' n + 4 \<or> n = 1 \<and> 0 < insn_top s' \<and> IsJump (insn_buf s' 0)"
    if n: "1 \<le> n" "n + 1 < adr_top s'" for n
  proof (cases "in_jump i")
    case True
    with n F(4) have "n = 1" by simp
    with True j(2) known [of 0] o F(1) b show ?thesis by simp
  next
    case False
    show ?thesis
    proof (cases "n + 1 < adr_top s - o'")
      case True
      have e: "adr_buf s' n = adr_buf s (n + o')" "adr_buf s' (n + 1) = adr_buf s (n + o' + 1)"
        using adr [of n] adr [of "n + 1"] True False by (simp_all add: ac_simps)
      have "n + o' + 1 < adr_top s" "1 \<le> n + o'" using True n(1) by simp_all
      then consider "adr_buf s (n + o' + 1) = adr_buf s (n + o') + 4" | "n + o' = 1" "IsJump (insn_buf s 0)"
        using inv unfolding ifu_inv_def by blast
      then show ?thesis
      proof cases
        case 1
        with e show ?thesis by simp
      next
        case 2
        then have "n = 1" "o' = 0" using n(1) by simp_all
        with 2 known [of 0] o(1) F(1) b show ?thesis by simp
      qed
    next
      case x: False
      then have "n + 1 = adr_top s - o' \<and> adr_top s - o' < 4" using n F(4) False by (auto split: if_splits)
      moreover from this o(1) b have "n + o' = adr_top s - 1" by linarith
      ultimately show ?thesis using F(6) adr [of n] False by simp
    qed
  qed
  have "1 \<le> insn_top s'" "insn_top s' \<le> ifu_due s'" "adr_top s' \<le> 4"
    "ifu_due s' < adr_top s' \<or> adr_top s' = 4"
    using o b j ack unfolding F(1) F(10) F(4) by (auto split: if_splits)
  moreover have "rp_adr s = adr_buf s' (insn_top s')" if "last_rp_ack s'"
  proof -
    have k: "rp_rd s" "ifu_due s < adr_top s" "rp_adr s = adr_buf s (ifu_due s)" using that ack by (simp_all add: F(3))
    have "\<not> (in_jump i \<and> ifu_due s - o' = 2)" using j(1) k(1) o by auto
    with adr [of "ifu_due s - o'"] k o b show ?thesis by (auto simp: F(1) split: if_splits)
  qed
  ultimately show ?thesis
    unfolding s'_def [symmetric] ifu_inv_def
    using top words held room steps by (intro conjI allI impI) blast+
qed

lemma ifu_inv_run: "ifu_inv mem a s \<Longrightarrow> ifu_env mem a is s \<Longrightarrow> \<exists>a'. ifu_inv mem a' (ifu_run is s) \<and> ifu_fail (ifu_run is s) = ifu_fail s"
proof (induction "is" arbitrary: a s)
  case (Cons i "is")
  then have "ifu_inv mem (rp_adr s) (ifu_transition i s)" "ifu_fail (ifu_transition i s) = ifu_fail s"
    using ifu_inv_step ifu_transition_fields(11) by auto
  with Cons.IH [of "rp_adr s" "ifu_transition i s"] Cons.prems(2) show ?case by (simp add: ifu_run_def)
qed (auto simp: ifu_run_def)

text \<open>Two clocks of reset establish the invariant for every program.\<close>

definition ifu_reset_clock :: "ifu_in \<Rightarrow> bool" where
  "ifu_reset_clock r \<longleftrightarrow> in_reset r \<and> \<not> in_next r \<and> \<not> in_jump r \<and> \<not> in_rp_ack r"

lemma ifu_reset_once:
  assumes "ifu_reset_clock r"
  shows "insn_top (ifu_transition r s) = 1" "adr_top (ifu_transition r s) = 1" "adr_buf (ifu_transition r s) 0 = 0xfc"
    "\<not> last_rp_ack (ifu_transition r s)" "\<not> rp_rd (ifu_transition r s)"
    "adr_top s = 1 \<Longrightarrow> adr_buf (ifu_transition r s) 1 = adr_buf s 0 + 4"
  using assms by (simp_all add: ifu_reset_clock_def ifu_transition_def Let_def shift_buf_def)

lemma ifu_inv_reset:
  assumes "ifu_reset_clock r1" "ifu_reset_clock r2"
  shows "ifu_inv mem a (ifu_run [r1, r2] s)"
proof -
  define s1 where "s1 = ifu_transition r1 s"
  note 1 = ifu_reset_once [OF assms(1), of s, folded s1_def]
  note 2 = ifu_reset_once [OF assms(2), of s1]
  have "ifu_run [r1, r2] s = ifu_transition r2 s1" by (simp add: ifu_run_def s1_def)
  with 1 2 show ?thesis by (simp add: ifu_inv_def ifu_due_def)
qed

section \<open>Properties\<close>

lemma ifu_invD:
  assumes "ifu_inv mem a s" "1 \<le> n"
  shows "n < insn_top s \<Longrightarrow> insn_buf s n = mem (adr_buf s n)"
    and "n + 1 < adr_top s \<Longrightarrow> adr_buf s (n + 1) = adr_buf s n + 4 \<or> n = 1 \<and> IsJump (insn_buf s 0)"
proof -
  have w: "\<forall>n. 1 \<le> n \<and> n < insn_top s \<longrightarrow> insn_buf s n = mem (adr_buf s n)"
    using assms(1) unfolding ifu_inv_def by (elim conjE)
  have c: "\<forall>n. 1 \<le> n \<and> n + 1 < adr_top s \<longrightarrow> adr_buf s (n + 1) = adr_buf s n + 4 \<or> n = 1 \<and> 0 < insn_top s \<and> IsJump (insn_buf s 0)"
    using assms(1) unfolding ifu_inv_def by (elim conjE)
  show "n < insn_top s \<Longrightarrow> insn_buf s n = mem (adr_buf s n)" using w assms(2) by blast
  show "n + 1 < adr_top s \<Longrightarrow> adr_buf s (n + 1) = adr_buf s n + 4 \<or> n = 1 \<and> IsJump (insn_buf s 0)"
    using c [rule_format, of n] assms(2) by blast
qed

text \<open>A reset state, a run under the protocol.\<close>

definition ifu_runs :: "(u32 \<Rightarrow> u32) \<Rightarrow> ifu_in list \<Rightarrow> ifu \<Rightarrow> ifu \<Rightarrow> bool" where
  "ifu_runs mem is s0 s \<longleftrightarrow>
     (\<exists>r1 r2 p a. ifu_reset_clock r1 \<and> ifu_reset_clock r2 \<and> s0 = ifu_run [r1, r2] p \<and> ifu_env mem a is s0 \<and> s = ifu_run is s0)"

lemma ifu_runs_inv:
  assumes "ifu_runs mem is s0 s"
  obtains a where "ifu_inv mem a s" "ifu_fail s = ifu_fail s0"
proof -
  obtain r1 r2 p a where r: "ifu_reset_clock r1" "ifu_reset_clock r2" "s0 = ifu_run [r1, r2] p" "ifu_env mem a is s0" "s = ifu_run is s0"
    using assms by (auto simp: ifu_runs_def)
  from ifu_inv_run [OF ifu_inv_reset [OF r(1,2)] r(4) [unfolded r(3)]] that show ?thesis unfolding r(5,3) by blast
qed

lemma ifu_env_split:
  "ifu_env mem a (xs @ ys) s \<Longrightarrow> ifu_inv mem a s \<Longrightarrow> \<exists>b. ifu_inv mem b (ifu_run xs s) \<and> ifu_env mem b ys (ifu_run xs s)"
proof (induction xs arbitrary: a s)
  case (Cons x xs)
  then have "ifu_inv mem (rp_adr s) (ifu_transition x s)" using ifu_inv_step by simp
  with Cons.IH [of "rp_adr s" "ifu_transition x s"] Cons.prems(1) show ?case by (simp add: ifu_run_def)
qed (auto simp: ifu_run_def)

lemma ifu_env_prefix: "ifu_env mem a (xs @ ys) s \<Longrightarrow> ifu_env mem a xs s"
  by (induction xs arbitrary: a s) auto

lemma ifu_runs_split:
  assumes "ifu_runs mem (xs @ ys) s0 s'"
  obtains b where "ifu_inv mem b (ifu_run xs s0)" "ifu_env mem b ys (ifu_run xs s0)" "s' = ifu_run ys (ifu_run xs s0)"
proof -
  obtain r1 r2 p a where r: "ifu_reset_clock r1" "ifu_reset_clock r2" "s0 = ifu_run [r1, r2] p" "ifu_env mem a (xs @ ys) s0"
    "s' = ifu_run (xs @ ys) s0"
    using assms by (auto simp: ifu_runs_def)
  have "ifu_inv mem a s0" unfolding r(3) by (rule ifu_inv_reset [OF r(1,2)])
  from ifu_env_split [OF r(4) this] r(5) that show ?thesis by (auto simp: ifu_run_def)
qed

text \<open>The inputs of the examples: a request, its acknowledge, its data, then a step of the execution unit.\<close>

definition in_idle :: ifu_in where
  "in_idle = \<lparr>in_reset = False, in_next = False, in_jump = False, in_jump_adr = 0, in_rp_ack = False, in_rp_data = 0\<rparr>"

definition ex_ifu :: ifu where
  "ex_ifu = \<lparr>insn_buf = (\<lambda>_. 0), adr_buf = (\<lambda>_. 0), insn_top = 0, adr_top = 0, last_rp_ack = False, rp_rd = False,
     rp_adr = 0, ifu_fail = False\<rparr>"

definition ex_ifu_start :: ifu where
  "ex_ifu_start = ifu_run [in_idle\<lparr>in_reset := True\<rparr>, in_idle\<lparr>in_reset := True\<rparr>] ex_ifu"

definition ex_ifu_ins :: "ifu_in list" where
  "ex_ifu_ins = [in_idle, in_idle\<lparr>in_rp_ack := True\<rparr>, in_idle\<lparr>in_rp_data := 0x15000000\<rparr>]"

text \<open>A program of \<open>l.nop\<close> instructions.\<close>

lemma ex_ifu_runs: "ifu_runs (\<lambda>_. 0x15000000) ex_ifu_ins ex_ifu_start (ifu_run ex_ifu_ins ex_ifu_start)"
proof -
  have "ifu_reset_clock (in_idle\<lparr>in_reset := True\<rparr>)" by (simp add: ifu_reset_clock_def in_idle_def)
  moreover have "ifu_env (\<lambda>_. 0x15000000) 0 ex_ifu_ins ex_ifu_start"
    by (simp add: ex_ifu_ins_def ex_ifu_start_def ifu_run_def ifu_transition_def Let_def in_idle_def ex_ifu_def ifu_obeys_def
        shift_buf_def IsJump_def split_beta)
  ultimately show ?thesis unfolding ifu_runs_def ex_ifu_start_def by blast
qed

text \<open>
  C18. From reset on, whatever program and whatever the latency of the memory, a valid instruction register holds
  the program's word at the current PC, the next PC is the one behind the current unless the instruction
  before it is a jump, and no assertion of the unit fails.
\<close>

theorem ifu_fetches_program:
  assumes "ifu_runs mem is s0 s"
  shows "(ifu_ir_valid s \<longrightarrow> ifu_ir s = mem (ifu_pc s))
     \<and> (ifu_npc_valid s \<longrightarrow> ifu_npc s = ifu_pc s + 4 \<or> IsJump (insn_buf s 0)) \<and> (ifu_fail s \<longrightarrow> ifu_fail s0)"
proof -
  obtain a where "ifu_inv mem a s" "ifu_fail s = ifu_fail s0" by (rule ifu_runs_inv [OF assms])
  with ifu_invD [of mem a s 1] show ?thesis
    by (auto simp: ifu_outputs numeral_2_eq_2)
qed

theorem ifu_fetches_program_witness:
  "ifu_ir_valid (ifu_run ex_ifu_ins ex_ifu_start) \<and> ifu_ir (ifu_run ex_ifu_ins ex_ifu_start) = 0x15000000"
proof -
  have "ifu_ir_valid (ifu_run ex_ifu_ins ex_ifu_start)"
    by (simp add: ex_ifu_ins_def ex_ifu_start_def ifu_run_def ifu_transition_def Let_def in_idle_def ex_ifu_def
        shift_buf_def IsJump_def split_beta ifu_ir_valid_def)
  with ifu_fetches_program [OF ex_ifu_runs] show ?thesis by simp
qed

lemma ifu_order:
  assumes inv: "ifu_inv mem b s" and ob: "ifu_obeys mem b i s" and s': "s' = ifu_transition i s"
  shows "(in_next i \<longrightarrow> ifu_ppc s' = ifu_pc s \<and> (ifu_npc_valid s \<longrightarrow> ifu_pc s' = ifu_npc s))
     \<and> (in_jump i \<longrightarrow> ifu_npc_valid s' \<and> ifu_npc s' = in_jump_adr i)
     \<and> (\<not> in_next i \<longrightarrow> ifu_ppc s' = ifu_ppc s \<and>
          (ifu_ir_valid s \<longrightarrow> ifu_pc s' = ifu_pc s \<and> ifu_ir_valid s' \<and> ifu_ir s' = ifu_ir s))
     \<and> (\<not> in_next i \<and> \<not> in_jump i \<and> ifu_npc_valid s \<longrightarrow> ifu_npc_valid s' \<and> ifu_npc s' = ifu_npc s)"
proof -
  note F = ifu_transition_fields [OF inv ob, folded s']
  have o: "ifu_ofs i < insn_top s" "ifu_ofs i = (if in_next i then 1 else 0)"
    using ifu_jump_room(1) [OF inv ob] by (simp_all add: ifu_ofs_def)
  have t: "insn_top s \<le> ifu_due s" "ifu_due s \<le> adr_top s" "adr_top s \<le> 4" "1 \<le> insn_top s" using inv by (simp_all add: ifu_inv_def)
  have a: "adr_buf s' 0 = adr_buf s (ifu_ofs i)" using F(5) [of 0] o t by simp
  have b: "adr_buf s' 1 = adr_buf s (1 + ifu_ofs i)" if "ifu_ofs i + 1 < adr_top s" using F(5) [of 1] that by simp
  have c: "adr_buf s' 2 = adr_buf s 2" if "\<not> in_next i" "\<not> in_jump i" "2 < adr_top s" using F(5) [of 2] that o(2) by simp
  have d: "insn_buf s' 1 = insn_buf s 1" "insn_top s' \<ge> insn_top s" if "\<not> in_next i" "1 < insn_top s"
    using that t o(2) by (auto simp: F(1,2) shift_buf_def)
  show ?thesis
    using a b c d F(4,7) o t unfolding ifu_outputs by (auto simp: numeral_2_eq_2)
qed

text \<open>
  The execution unit sees the program counters move as the interface says: \<open>next\<close> makes the current PC the
  previous and the next one the current, \<open>jump\<close> makes its target the next one, the delay slot between them
  kept, together or one after the other; without either the instruction and the PCs stay.
\<close>

lemma ifu_program_order:
  assumes "ifu_runs mem (is @ [i]) s0 s'" "s = ifu_run is s0"
  shows "(in_next i \<longrightarrow> ifu_ppc s' = ifu_pc s \<and> (ifu_npc_valid s \<longrightarrow> ifu_pc s' = ifu_npc s))
     \<and> (in_jump i \<longrightarrow> ifu_npc_valid s' \<and> ifu_npc s' = in_jump_adr i)
     \<and> (\<not> in_next i \<longrightarrow> ifu_ppc s' = ifu_ppc s \<and>
          (ifu_ir_valid s \<longrightarrow> ifu_pc s' = ifu_pc s \<and> ifu_ir_valid s' \<and> ifu_ir s' = ifu_ir s))
     \<and> (\<not> in_next i \<and> \<not> in_jump i \<and> ifu_npc_valid s \<longrightarrow> ifu_npc_valid s' \<and> ifu_npc s' = ifu_npc s)"
proof -
  obtain b where "ifu_inv mem b s" "ifu_obeys mem b i s" "s' = ifu_transition i s"
    by (rule ifu_runs_split [OF assms(1)]) (simp add: assms(2) ifu_run_def)
  then show ?thesis by (rule ifu_order)
qed

lemma ifu_program_order_witness:
  "ifu_ppc (ifu_run ex_ifu_ins ex_ifu_start) = 0xfc"
proof -
  have "ifu_runs (\<lambda>_. 0x15000000) ([in_idle, in_idle\<lparr>in_rp_ack := True\<rparr>] @ [in_idle\<lparr>in_rp_data := 0x15000000\<rparr>]) ex_ifu_start
      (ifu_run ex_ifu_ins ex_ifu_start)"
    using ex_ifu_runs by (simp add: ex_ifu_ins_def)
  from ifu_program_order [OF this refl] show ?thesis
    by (simp add: ex_ifu_start_def ifu_run_def ifu_transition_def Let_def in_idle_def ex_ifu_def
        shift_buf_def IsJump_def split_beta ifu_outputs)
qed

text \<open>While nothing is asked of the unit and its instruction is missing, the request for it is made and held.\<close>

definition ifu_quiet :: "ifu_in \<Rightarrow> bool" where
  "ifu_quiet i \<longleftrightarrow> \<not> in_next i \<and> \<not> in_jump i"

lemma ifu_requests:
  assumes "ifu_inv mem a s" "ifu_obeys mem a i s" "ifu_quiet i" "\<not> in_rp_ack i" "insn_top s = 1" "\<not> last_rp_ack s"
  defines "s' \<equiv> ifu_transition i s"
  shows "insn_top s' = 1 \<and> \<not> last_rp_ack s' \<and> rp_rd s' \<and> rp_adr s' = ifu_pc s'"
proof -
  note F = ifu_transition_fields [OF assms(1,2), folded s'_def]
  have inv: "ifu_inv mem (rp_adr s) s'" unfolding s'_def by (rule ifu_inv_step [OF assms(1,2)])
  have o: "ifu_ofs i = 0" using assms(3) by (simp add: ifu_quiet_def ifu_ofs_def)
  have d: "ifu_due s = 1" "1 \<le> adr_top s" using assms(1,5,6) by (simp_all add: ifu_due_def ifu_inv_def)
  have "ifu_due s' = 1" "insn_top s' = 1" "\<not> last_rp_ack s'" "adr_top s' \<ge> 2"
    using d o assms(3,4) by (simp_all add: F(10,1,3,4) ifu_quiet_def)
  with F(8) o inv show ?thesis by (simp add: ifu_inv_def ifu_pc_def)
qed

lemma ifu_waits:
  assumes "ifu_inv mem a s" "ifu_env mem a is s" "\<forall>i \<in> set is. ifu_quiet i \<and> \<not> in_rp_ack i" "insn_top s = 1" "\<not> last_rp_ack s"
    and "is \<noteq> []"
  shows "let s' = ifu_run is s in (\<exists>b. ifu_inv mem b s') \<and> insn_top s' = 1 \<and> \<not> last_rp_ack s' \<and> rp_rd s' \<and> rp_adr s' = ifu_pc s'"
  using assms
proof (induction "is" arbitrary: a s)
  case (Cons i "is")
  define s1 where "s1 = ifu_transition i s"
  have ob: "ifu_obeys mem a i s" using Cons.prems by simp
  have r: "insn_top s1 = 1 \<and> \<not> last_rp_ack s1 \<and> rp_rd s1 \<and> rp_adr s1 = ifu_pc s1"
    unfolding s1_def by (rule ifu_requests [OF Cons.prems(1) ob]) (use Cons.prems in simp_all)
  have inv: "ifu_inv mem (rp_adr s) s1" unfolding s1_def by (rule ifu_inv_step [OF Cons.prems(1) ob])
  show ?case
  proof (cases "is = []")
    case True
    then have "ifu_run (i # is) s = s1" by (simp add: ifu_run_def s1_def)
    with r inv show ?thesis by (auto simp: Let_def)
  next
    case False
    have "ifu_run (i # is) s = ifu_run is s1" by (simp add: ifu_run_def s1_def)
    with Cons.IH [OF inv] r Cons.prems(2,3) False show ?thesis by (simp add: s1_def)
  qed
qed simp

text \<open>
  The unit makes progress: when an instruction is missing and the execution unit waits, the request for the
  current PC is on the port from the next clock on, as long as the memory takes; one clock after the
  acknowledge, with the data, the instruction is valid and is the program's word there.
\<close>

lemma ifu_progress:
  assumes "ifu_runs mem (is @ ws @ [i, j]) s0 s2" "s = ifu_run is s0" "s1 = ifu_run ws s"
    and "\<not> ifu_ir_valid s" "\<not> last_rp_ack s" "ws \<noteq> []" "\<forall>w \<in> set ws. ifu_quiet w \<and> \<not> in_rp_ack w"
    and "ifu_quiet i" "in_rp_ack i" "ifu_quiet j"
  shows "rp_rd s1 \<and> rp_adr s1 = ifu_pc s1 \<and> ifu_ir_valid s2 \<and> ifu_pc s2 = ifu_pc s1 \<and> ifu_ir s2 = mem (ifu_pc s1)"
proof -
  obtain b where inv: "ifu_inv mem b s" and env: "ifu_env mem b (ws @ [i, j]) s" and s2: "s2 = ifu_run [i, j] s1"
    by (rule ifu_runs_split [OF assms(1)]) (simp add: assms(2,3) ifu_run_def)
  have top: "insn_top s = 1" using inv assms(4) by (simp add: ifu_inv_def ifu_ir_valid_def)
  obtain c where inv1: "ifu_inv mem c s1" and env1: "ifu_env mem c [i, j] s1"
    using ifu_env_split [OF env inv] assms(3) by blast
  have "ifu_env mem b ws s" using env by (rule ifu_env_prefix)
  with ifu_waits [OF inv _ assms(7) top assms(5,6)]
  have w: "insn_top s1 = 1" "\<not> last_rp_ack s1" "rp_rd s1" "rp_adr s1 = ifu_pc s1" by (simp_all add: Let_def assms(3))
  define t where "t = ifu_transition i s1"
  have s2': "s2 = ifu_transition j t" by (simp add: s2 t_def ifu_run_def)
  have ob: "ifu_obeys mem c i s1" "ifu_obeys mem (rp_adr s1) j t" using env1 by (simp_all add: t_def)
  note F = ifu_transition_fields [OF inv1 ob(1), folded t_def]
  have invt: "ifu_inv mem (rp_adr s1) t" unfolding t_def by (rule ifu_inv_step [OF inv1 ob(1)])
  have o: "ifu_ofs i = 0" "ifu_ofs j = 0" using assms(8,10) by (simp_all add: ifu_quiet_def ifu_ofs_def)
  have t: "insn_top t = 1" "last_rp_ack t" "ifu_pc t = ifu_pc s1" "1 < adr_top t"
    using w o assms(8,9) F(1,3,4) F(5) [of 1] inv1 ob(1) by (auto simp: ifu_due_def ifu_pc_def ifu_quiet_def ifu_inv_def ifu_obeys_def)
  note G = ifu_transition_fields [OF invt ob(2), folded s2']
  have "ifu_inv mem (rp_adr t) s2" unfolding s2' by (rule ifu_inv_step [OF invt ob(2)])
  then have "insn_buf s2 1 = mem (adr_buf s2 1)" if "1 < insn_top s2" using that by (simp add: ifu_inv_def)
  moreover have "insn_top s2 = 2" "adr_buf s2 1 = adr_buf t 1"
    using t o assms(10) G(1) G(5) [of 1] by (simp_all add: ifu_due_def ifu_quiet_def)
  ultimately show ?thesis using w t by (simp add: ifu_outputs)
qed

lemma ifu_progress_witness:
  "ifu_ir_valid (ifu_run ex_ifu_ins ex_ifu_start) \<and> ifu_ir (ifu_run ex_ifu_ins ex_ifu_start) = 0x15000000"
proof -
  let ?i = "in_idle\<lparr>in_rp_ack := True\<rparr>" and ?j = "in_idle\<lparr>in_rp_data := 0x15000000\<rparr>"
  have "ifu_runs (\<lambda>_. 0x15000000) ([] @ [in_idle] @ [?i, ?j]) ex_ifu_start (ifu_run ex_ifu_ins ex_ifu_start)"
    using ex_ifu_runs by (simp add: ex_ifu_ins_def)
  moreover have "\<not> ifu_ir_valid (ifu_run [] ex_ifu_start)" "\<not> last_rp_ack (ifu_run [] ex_ifu_start)"
    by (simp_all add: ex_ifu_start_def ifu_run_def ifu_transition_def Let_def in_idle_def ex_ifu_def split_beta ifu_ir_valid_def)
  ultimately show ?thesis
    using ifu_progress [OF _ refl refl, of "\<lambda>_. 0x15000000" "[]" "[in_idle]" ?i ?j]
    by (simp add: ifu_quiet_def in_idle_def)
qed

text \<open>
  At power-up, with all signals zero, the first clock of reset reads the address buffer at index -1.
\<close>

lemma ifu_power_up_out_of_bounds:
  assumes "ifu_reset_clock r" "adr_top s = 0"
  shows "ifu_fail (ifu_transition r s)"
  using assms by (simp add: ifu_reset_clock_def ifu_transition_def Let_def split_beta)

lemma ifu_power_up_out_of_bounds_witness: "ifu_fail (ifu_transition (in_idle\<lparr>in_reset := True\<rparr>) ex_ifu)"
  using ifu_power_up_out_of_bounds [of "in_idle\<lparr>in_reset := True\<rparr>" ex_ifu]
  by (simp add: ifu_reset_clock_def in_idle_def ex_ifu_def)

end
