(* ===== verification/PnLsu.thy ===== *)
theory PnLsu
  imports PnBase
begin

text \<open>
  The load/store unit of the ParaNut, module \<open>MLsu\<close> of \<open>src/sysc/lsu.cpp\<close>: a write buffer of four words between
  the execution unit and the memory unit, from which reads are served.  \<open>lsu\<close> are the registers,
  \<open>lsu_output\<close> is \<open>OutputMethod\<close>, which computes the outputs and internal signals from the inputs and
  registers (signals it does not assign keep their value, so the signals before are an argument;
  \<open>o_abort\<close> records a failed \<open>ASSERT\<close>), and
  \<open>lsu_transition\<close> is one turn of the loop of \<open>TransitionThread\<close> at a clock edge.
\<close>

section \<open>Signals\<close>

abbreviation (input) MAX_WBUF_SIZE :: nat where "MAX_WBUF_SIZE \<equiv> 4"

text \<open>\<open>l_undef\<close> stands for the local \<open>wbdata\<close>, which \<open>OutputMethod\<close> does not initialise when \<open>width\<close> is 3.\<close>

record lsu_in =
  l_rd :: bool
  l_wr :: bool
  l_flush :: bool
  l_writeback :: bool
  l_invalidate :: bool
  l_rlink_wcond :: bool
  l_width :: "2 word"
  l_exts :: bool
  l_adr :: u32
  l_wdata :: u32
  l_rp_ack :: bool
  l_rp_data :: u32
  l_wp_ack :: bool
  l_wp_wcond_ok :: bool
  l_undef :: u32

record lsu =
  wbuf_adr :: "nat \<Rightarrow> u32"
  wbuf_data :: "nat \<Rightarrow> u32"
  wbuf_valid :: "nat \<Rightarrow> 4 word"
  wbuf_dirty0 :: bool
  data_var :: u32

record lsu_sigs =
  o_ack :: bool
  o_align_err :: bool
  o_wcond_ok :: bool
  o_rdata :: u32
  o_rp_rd :: bool
  o_rp_bsel :: "4 word"
  o_rp_adr :: u32
  o_wp_wr :: bool
  o_wp_bsel :: "4 word"
  o_wp_rlink_wcond :: bool
  o_wp_writeback :: bool
  o_wp_invalidate :: bool
  o_wp_adr :: u32
  o_wp_data :: u32
  sig_wbdata :: u32
  sig_wbbsel :: "4 word"
  sig_wbuf_entry :: int
  sig_wbuf_entry_new :: int
  sig_wbuf_remove :: bool
  sig_wbuf_write :: bool
  o_abort :: bool

section \<open>The write buffer\<close>

text \<open>The search loops over the four entries.\<close>

definition wbuf_search :: "(nat \<Rightarrow> bool) \<Rightarrow> int" where
  "wbuf_search P = (if P 0 then 0 else if P 1 then 1 else if P 2 then 2 else if P 3 then 3 else - 1)"

definition FindWbufHit :: "u32 \<Rightarrow> lsu \<Rightarrow> int" where
  "FindWbufHit adr s = wbuf_search (\<lambda>n. wbuf_adr s n = adr AND NOT 3 \<and> wbuf_valid s n \<noteq> 0)"

definition FindEmptyWbufEntry :: "lsu \<Rightarrow> int" where
  "FindEmptyWbufEntry s = wbuf_search (\<lambda>n. wbuf_valid s n = 0)"

definition IsFlushed :: "lsu \<Rightarrow> bool" where
  "IsFlushed s \<longleftrightarrow> wbuf_search (\<lambda>n. wbuf_valid s n \<noteq> 0) = - 1"

section \<open>The outputs\<close>

text \<open>The test for a word is \<open>adr & 3 != 0\<close>, which C reads as \<open>adr & (3 != 0)\<close>.\<close>

definition lsu_misaligned :: "lsu_in \<Rightarrow> bool" where
  "lsu_misaligned i \<longleftrightarrow> (l_width i = 0 \<or> l_width i = 2) \<and> l_adr i AND 1 \<noteq> 0"

definition lsu_bsel :: "lsu_in \<Rightarrow> 4 word" where
  "lsu_bsel i =
     (if l_writeback i \<or> l_invalidate i then 0
      else if l_width i = 0 then 0xf
      else if l_width i = 1 then push_bit (unat (l_adr i AND 3)) 1
      else if l_width i = 2 then push_bit (unat (l_adr i AND 3)) 3
      else 0)"

definition lsu_wbdata :: "lsu_in \<Rightarrow> u32" where
  "lsu_wbdata i =
     (if l_width i = 0 then l_wdata i
      else if l_width i = 1
      then (let b = l_wdata i AND 0xff in b OR push_bit 8 b OR push_bit 16 b OR push_bit 24 b)
      else if l_width i = 2 then (let h = l_wdata i AND 0xffff in h OR push_bit 16 h)
      else l_undef i)"

text \<open>The word of the memory overlaid with the bytes of the entry that was hit, then the requested part of it.\<close>

definition lsu_word :: "u32 \<Rightarrow> u32 \<Rightarrow> lsu \<Rightarrow> u32" where
  "lsu_word adr rp_data s =
     (let hit = FindWbufHit adr s
      in if hit \<ge> 0 then merge_lanes (wbuf_valid s (nat hit)) (wbuf_data s (nat hit)) rp_data else rp_data)"

definition lsu_format :: "2 word \<Rightarrow> bool \<Rightarrow> u32 \<Rightarrow> u32 \<Rightarrow> u32" where
  "lsu_format width exts adr w =
     (if width = 1
      then (let b = drop_bit (8 * unat (NOT adr AND 3)) w AND 0xff in if exts then (b XOR 0x80) - 0x80 else b)
      else if width = 2
      then (let h = drop_bit (8 * unat (NOT adr AND 2)) w AND 0xffff in if exts then (h XOR 0x8000) - 0x8000 else h)
      else w)"

definition lsu_served :: "lsu_in \<Rightarrow> lsu \<Rightarrow> bool" where
  "lsu_served i s \<longleftrightarrow>
     (let hit = FindWbufHit (l_adr i) s in hit \<ge> 0 \<and> lsu_bsel i AND NOT (wbuf_valid s (nat hit)) = 0)"

text \<open>Where a write or cache operation would store its word: -1 nowhere, \<open>MAX_WBUF_SIZE\<close> no place.\<close>

definition lsu_entry :: "lsu_in \<Rightarrow> lsu \<Rightarrow> int" where
  "lsu_entry i s =
     (if l_writeback i \<or> l_invalidate i then (if IsFlushed s then 0 else - 1)
      else if l_wr i
      then (let hit = FindWbufHit (l_adr i) s;
                e = (if hit < 0 \<or> AdrIsSpecial (l_adr i) then FindEmptyWbufEntry s else hit)
            in if e < 0 then int MAX_WBUF_SIZE else e)
      else - 1)"

definition lsu_output :: "lsu_in \<Rightarrow> lsu \<Rightarrow> lsu_sigs \<Rightarrow> lsu_sigs" where
  "lsu_output i s g =
     (let g1 = g\<lparr>o_ack := False, o_align_err := False, o_rp_rd := False, o_rp_adr := l_adr i AND NOT 3,
                 o_wp_rlink_wcond := l_rlink_wcond i, o_wp_writeback := False, o_wp_invalidate := False\<rparr>
      in if lsu_misaligned i then g1\<lparr>o_align_err := True\<rparr>
         else (let cache_op = (l_writeback i \<or> l_invalidate i);
                   hit = FindWbufHit (l_adr i) s;
                   ack_rd = (if l_rd i then (if lsu_served i s then True else l_rp_ack i) else False);
                   ack_flush = (ack_rd \<or> l_flush i \<and> IsFlushed s);
                   ack_cache = (if IsFlushed s \<and> cache_op then l_wp_ack i else ack_flush);
                   entry = lsu_entry i s;
                   dont_change0 = (wbuf_dirty0 s \<and> (l_rd i \<and> hit = 0 \<or> l_wr i \<and> entry = 0));
                   remove = (\<not> dont_change0 \<and> (\<not> wbuf_dirty0 s \<or> l_wp_ack i) \<and> entry \<noteq> 0);
                   entry_new = (if remove then entry - 1 else entry);
                   write = (entry_new \<ge> 0 \<and> entry_new < int MAX_WBUF_SIZE
                            \<and> \<not> (AdrIsSpecial (l_adr i) \<and> entry_new \<noteq> 0) \<and> \<not> dont_change0)
               in g1\<lparr>sig_wbdata := lsu_wbdata i, sig_wbbsel := lsu_bsel i, o_rp_bsel := lsu_bsel i,
                     o_rdata := lsu_format (l_width i) (l_exts i) (l_adr i) (lsu_word (l_adr i) (l_rp_data i) s),
                     o_rp_rd := (l_rd i \<and> \<not> lsu_served i s), o_ack := (ack_cache \<or> write),
                     o_wcond_ok := l_wp_wcond_ok i, o_wp_adr := wbuf_adr s 0, o_wp_data := wbuf_data s 0,
                     o_wp_bsel := wbuf_valid s 0, o_wp_wr := (if IsFlushed s \<and> cache_op then False else wbuf_dirty0 s),
                     o_wp_writeback := (if IsFlushed s \<and> cache_op then l_writeback i else False),
                     o_wp_invalidate := (if IsFlushed s \<and> cache_op then l_invalidate i else False),
                     sig_wbuf_entry := entry, sig_wbuf_entry_new := entry_new, sig_wbuf_remove := remove,
                     sig_wbuf_write := write, o_abort := (o_abort g \<or> cache_op \<and> (l_wr i \<or> l_rd i))\<rparr>))"

section \<open>The registers\<close>

definition lsu_reset :: "lsu \<Rightarrow> lsu" where
  "lsu_reset s = s\<lparr>wbuf_valid := (\<lambda>n. if n < MAX_WBUF_SIZE then 0 else wbuf_valid s n), wbuf_dirty0 := False\<rparr>"

definition wbuf_shift :: "(nat \<Rightarrow> 'a) \<Rightarrow> nat \<Rightarrow> 'a" where
  "wbuf_shift b = (\<lambda>n. if n < MAX_WBUF_SIZE - 1 then b (n + 1) else b n)"

definition lsu_transition :: "lsu_in \<Rightarrow> lsu_sigs \<Rightarrow> lsu \<Rightarrow> lsu" where
  "lsu_transition i g s =
     (let old = (sig_wbuf_entry g \<ge> 0 \<and> sig_wbuf_entry g < int MAX_WBUF_SIZE);
          data = (if old then wbuf_data s (nat (sig_wbuf_entry g)) else data_var s);
          valid = (if old then wbuf_valid s (nat (sig_wbuf_entry g)) else 0);
          s1 = (if l_wp_ack i then s\<lparr>wbuf_dirty0 := False\<rparr> else s);
          s2 = (if sig_wbuf_remove g
                then s1\<lparr>wbuf_dirty0 := (wbuf_valid s 1 \<noteq> 0), wbuf_adr := wbuf_shift (wbuf_adr s),
                        wbuf_data := wbuf_shift (wbuf_data s),
                        wbuf_valid := (wbuf_shift (wbuf_valid s))(MAX_WBUF_SIZE - 1 := 0)\<rparr>
                else s1);
          e = nat (sig_wbuf_entry_new g);
          data' = merge_lanes (sig_wbbsel g) (sig_wbdata g) data
      in if sig_wbuf_write g
         then s2\<lparr>wbuf_adr := (wbuf_adr s2)(e := l_adr i AND NOT 3), wbuf_data := (wbuf_data s2)(e := data'),
                 wbuf_valid := (wbuf_valid s2)(e := valid OR sig_wbbsel g),
                 wbuf_dirty0 := (if e = 0 then True else wbuf_dirty0 s2), data_var := data'\<rparr>
         else s2\<lparr>data_var := data\<rparr>)"

section \<open>What the buffer means\<close>

text \<open>
  The memory as the execution unit sees it, by word address: the memory overlaid with the entries, the newest
  last.  \<open>lsu_commit\<close> is what a cycle does to the memory, when the write port acknowledges entry 0.
\<close>

definition wb_apply :: "lsu \<Rightarrow> u32 \<Rightarrow> nat \<Rightarrow> u32 \<Rightarrow> u32" where
  "wb_apply s a n w = (if wbuf_adr s n = a then merge_lanes (wbuf_valid s n) (wbuf_data s n) w else w)"

definition wb_over :: "lsu \<Rightarrow> u32 \<Rightarrow> u32 \<Rightarrow> u32" where
  "wb_over s a w = wb_apply s a 3 (wb_apply s a 2 (wb_apply s a 1 (wb_apply s a 0 w)))"

definition lsu_view :: "lsu \<Rightarrow> (u32 \<Rightarrow> u32) \<Rightarrow> u32 \<Rightarrow> u32" where
  "lsu_view s M a = wb_over s a (M a)"

definition lsu_commit :: "lsu_in \<Rightarrow> lsu_sigs \<Rightarrow> (u32 \<Rightarrow> u32) \<Rightarrow> u32 \<Rightarrow> u32" where
  "lsu_commit i g M =
     (if o_wp_wr g \<and> l_wp_ack i
      then M(o_wp_adr g := merge_lanes (o_wp_bsel g) (o_wp_data g) (M (o_wp_adr g))) else M)"

text \<open>Entries fill the buffer from place 0, no two for one address, and a clean entry 0 is in memory.\<close>

definition wb_inv :: "lsu \<Rightarrow> (u32 \<Rightarrow> u32) \<Rightarrow> bool" where
  "wb_inv s M \<longleftrightarrow>
     (\<forall>n < 3. wbuf_valid s n = 0 \<longrightarrow> wbuf_valid s (n + 1) = 0)
     \<and> (\<forall>m < 4. \<forall>n < 4. m < n \<and> wbuf_valid s n \<noteq> 0 \<longrightarrow> wbuf_adr s m \<noteq> wbuf_adr s n)
     \<and> (\<not> wbuf_dirty0 s \<longrightarrow> wb_apply s (wbuf_adr s 0) 0 (M (wbuf_adr s 0)) = M (wbuf_adr s 0))"

lemma all_less_3: "(\<forall>n < (3 :: nat). P n) \<longleftrightarrow> P 0 \<and> P 1 \<and> P 2"
  by (auto simp: numeral_eq_Suc less_Suc_eq)

lemma all_less_4: "(\<forall>n < (4 :: nat). P n) \<longleftrightarrow> P 0 \<and> P 1 \<and> P 2 \<and> P 3"
  by (auto simp: numeral_eq_Suc less_Suc_eq)

lemmas wb_inv_iff = wb_inv_def [unfolded all_less_3 all_less_4, simplified]

lemma wb_apply_idem: "wb_apply s a n (wb_apply s a n w) = wb_apply s a n w"
  by (simp add: wb_apply_def)

lemma wb_apply_empty: "wbuf_valid s n = 0 \<Longrightarrow> wb_apply s a n w = w"
  by (simp add: wb_apply_def)

text \<open>The search finds the one entry of the address.\<close>

lemma wb_apply_hit: "wb_apply s a n w =
    (if wbuf_adr s n = a \<and> wbuf_valid s n \<noteq> 0 then merge_lanes (wbuf_valid s n) (wbuf_data s n) w else w)"
  by (simp add: wb_apply_def)

lemma wb_unique:
  assumes "wb_inv s M" "m < 4" "n < 4" "m \<noteq> n" "wbuf_adr s m = a" "wbuf_valid s m \<noteq> 0" "wbuf_adr s n = a"
  shows "wbuf_valid s n = 0"
  using assms unfolding wb_inv_def by (metis linorder_neqE_nat)

lemma wbuf_search_cases:
  obtains (none) "wbuf_search P = - 1" "\<not> P 0" "\<not> P 1" "\<not> P 2" "\<not> P 3"
    | (found) n where "wbuf_search P = int n" "n < 4" "P n" "\<forall>m < n. \<not> P m"
proof -
  consider "P 0" | "\<not> P 0" "P 1" | "\<not> P 0" "\<not> P 1" "P 2" | "\<not> P 0" "\<not> P 1" "\<not> P 2" "P 3" | "\<not> P 0" "\<not> P 1" "\<not> P 2" "\<not> P 3"
    by blast
  then show ?thesis
  proof cases
    case 1 show ?thesis by (rule found [of 0]) (use 1 in \<open>simp_all add: wbuf_search_def\<close>)
  next
    case 2 show ?thesis by (rule found [of 1]) (use 2 in \<open>simp_all add: wbuf_search_def\<close>)
  next
    case 3 show ?thesis by (rule found [of 2]) (use 3 in \<open>auto simp: wbuf_search_def less_Suc_eq numeral_2_eq_2\<close>)
  next
    case 4 show ?thesis by (rule found [of 3]) (use 4 in \<open>auto simp: wbuf_search_def less_Suc_eq numeral_2_eq_2 numeral_3_eq_3\<close>)
  next
    case 5 show ?thesis by (rule none) (use 5 in \<open>simp_all add: wbuf_search_def\<close>)
  qed
qed

text \<open>With one entry for the address the overlay is this entry, and with none the memory.\<close>

lemma wb_over_hit:
  assumes "wb_inv s M" "n < 4" "wbuf_adr s n = a" "wbuf_valid s n \<noteq> 0"
  shows "wb_over s a w = merge_lanes (wbuf_valid s n) (wbuf_data s n) w"
proof -
  have other: "wb_apply s a m x = x" if "m < 4" "m \<noteq> n" for m x
    using wb_unique [OF assms(1,2) that(1) _ assms(3,4)] that by (auto simp: wb_apply_hit)
  have self: "wb_apply s a n x = merge_lanes (wbuf_valid s n) (wbuf_data s n) x" for x
    using assms by (simp add: wb_apply_hit)
  from assms(2) consider "n = 0" | "n = 1" | "n = 2" | "n = 3" by linarith
  then show ?thesis by cases (use self in \<open>simp_all add: wb_over_def other\<close>)
qed

lemma wb_over_miss:
  assumes "\<And>n. n < 4 \<Longrightarrow> \<not> (wbuf_adr s n = a \<and> wbuf_valid s n \<noteq> 0)"
  shows "wb_over s a w = w"
  using assms by (simp add: wb_over_def wb_apply_hit)

lemma lsu_word_over:
  assumes "wb_inv s M"
  shows "lsu_word adr w s = wb_over s (adr AND NOT 3) w"
proof (rule wbuf_search_cases [of "\<lambda>n. wbuf_adr s n = adr AND NOT 3 \<and> wbuf_valid s n \<noteq> 0"])
  assume n: "wbuf_search (\<lambda>n. wbuf_adr s n = adr AND NOT 3 \<and> wbuf_valid s n \<noteq> 0) = - 1"
    "\<not> (wbuf_adr s 0 = adr AND NOT 3 \<and> wbuf_valid s 0 \<noteq> 0)" "\<not> (wbuf_adr s 1 = adr AND NOT 3 \<and> wbuf_valid s 1 \<noteq> 0)"
    "\<not> (wbuf_adr s 2 = adr AND NOT 3 \<and> wbuf_valid s 2 \<noteq> 0)" "\<not> (wbuf_adr s 3 = adr AND NOT 3 \<and> wbuf_valid s 3 \<noteq> 0)"
  then have "wb_over s (adr AND NOT 3) w = w" by (simp add: wb_over_def wb_apply_hit)
  with n(1) show ?thesis by (simp add: lsu_word_def FindWbufHit_def)
next
  fix n
  assume n: "wbuf_search (\<lambda>n. wbuf_adr s n = adr AND NOT 3 \<and> wbuf_valid s n \<noteq> 0) = int n" "n < 4"
    "wbuf_adr s n = adr AND NOT 3 \<and> wbuf_valid s n \<noteq> 0"
  then show ?thesis using wb_over_hit [OF assms n(2)] by (simp add: lsu_word_def FindWbufHit_def)
qed

section \<open>One cycle\<close>

lemma wbuf_shift_nth: "wbuf_shift b 0 = b 1" "wbuf_shift b (Suc 0) = b 2" "wbuf_shift b 2 = b 3" "wbuf_shift b 3 = b 3"
  by (simp_all add: wbuf_shift_def eval_nat_numeral)

text \<open>Dropping the oldest entry, when memory has it.\<close>

definition wb_shifted :: "lsu \<Rightarrow> lsu" where
  "wb_shifted s = s\<lparr>wbuf_dirty0 := (wbuf_valid s 1 \<noteq> 0), wbuf_adr := wbuf_shift (wbuf_adr s),
     wbuf_data := wbuf_shift (wbuf_data s), wbuf_valid := (wbuf_shift (wbuf_valid s))(3 := 0)\<rparr>"

lemma wb_shifted_over:
  assumes "wb_apply s a 0 w = w"
  shows "wb_over (wb_shifted s) a w = wb_over s a w"
  using assms by (simp add: wb_over_def wb_apply_def wb_shifted_def wbuf_shift_nth)

lemma wb_shifted_inv:
  assumes "wb_inv s M"
  shows "wb_inv (wb_shifted s) M'"
proof -
  let ?t = "wb_shifted s"
  have v: "wbuf_valid ?t n = (if n < 3 then wbuf_valid s (n + 1) else if n = 3 then 0 else wbuf_valid s n)"
    and a: "n < 3 \<Longrightarrow> wbuf_adr ?t n = wbuf_adr s (n + 1)" for n
    by (simp_all add: wb_shifted_def wbuf_shift_def)
  have c: "\<forall>n < 3. wbuf_valid s n = 0 \<longrightarrow> wbuf_valid s (n + 1) = 0"
    and d: "\<forall>m < 4. \<forall>n < 4. m < n \<and> wbuf_valid s n \<noteq> 0 \<longrightarrow> wbuf_adr s m \<noteq> wbuf_adr s n"
    using assms by (simp_all add: wb_inv_def)
  have "wbuf_valid ?t (n + 1) = 0" if "n < 3" "wbuf_valid ?t n = 0" for n
    using that c [rule_format, of "n + 1"] by (simp add: v)
  moreover have "wbuf_adr ?t m \<noteq> wbuf_adr ?t n" if "m < 4" "n < 4" "m < n" "wbuf_valid ?t n \<noteq> 0" for m n
  proof -
    have "n < 3" using that(2,4) by (simp add: v split: if_splits)
    then show ?thesis using that d [rule_format, of "m + 1" "n + 1"] by (simp add: v a)
  qed
  moreover have "wb_apply ?t x 0 w = w" if "\<not> wbuf_dirty0 ?t" for x w
  proof -
    have "wbuf_valid s 1 = 0" using that by (simp add: wb_shifted_def)
    then show ?thesis by (intro wb_apply_empty) (simp add: v)
  qed
  ultimately show ?thesis unfolding wb_inv_def by blast
qed

text \<open>Storing at the place of the address or at the first empty one.\<close>

definition wb_store :: "nat \<Rightarrow> u32 \<Rightarrow> 4 word \<Rightarrow> u32 \<Rightarrow> 4 word \<Rightarrow> u32 \<Rightarrow> lsu \<Rightarrow> lsu" where
  "wb_store e a v d sel w s = s\<lparr>wbuf_adr := (wbuf_adr s)(e := a), wbuf_data := (wbuf_data s)(e := merge_lanes sel w d),
     wbuf_valid := (wbuf_valid s)(e := v OR sel)\<rparr>"

text \<open>\<open>wb_place s e a v d\<close>: place \<open>e\<close> holds the address with valid lanes \<open>v\<close> and data \<open>d\<close>, or is the first empty one.\<close>

definition wb_place :: "lsu \<Rightarrow> nat \<Rightarrow> u32 \<Rightarrow> 4 word \<Rightarrow> u32 \<Rightarrow> bool" where
  "wb_place s e a v d \<longleftrightarrow>
     e < 4 \<and> wbuf_valid s e = v \<and> (v \<noteq> 0 \<longrightarrow> wbuf_adr s e = a \<and> wbuf_data s e = d)
     \<and> (\<forall>n < 4. n \<noteq> e \<and> wbuf_adr s n = a \<longrightarrow> wbuf_valid s n = 0) \<and> (\<forall>n < e. wbuf_valid s n \<noteq> 0)"

lemma wb_store_over:
  assumes "wb_place s e a v d"
  shows "wb_over (wb_store e a v d sel w s) b x = (if b = a then merge_lanes sel w (wb_over s b x) else wb_over s b x)"
proof -
  have e: "e < 4" "wbuf_valid s e = v" "v \<noteq> 0 \<longrightarrow> wbuf_adr s e = a \<and> wbuf_data s e = d"
    and o: "\<And>n. n < 4 \<Longrightarrow> n \<noteq> e \<Longrightarrow> wbuf_adr s n = a \<Longrightarrow> wbuf_valid s n = 0"
    using assms by (auto simp: wb_place_def)
  let ?s = "wb_store e a v d sel w s"
  have other: "wb_apply ?s b n y = wb_apply s b n y" if "n \<noteq> e" for n y
    using that by (simp add: wb_apply_def wb_store_def)
  have gone: "wb_apply s a n y = y" if "n < 4" "n \<noteq> e" for n y
    using o [OF that] by (simp add: wb_apply_hit)
  have self: "wb_apply ?s b e y = (if b = a then merge_lanes sel w (wb_apply s b e y) else wb_apply s b e y)" for y
  proof (cases "b = a")
    case True
    have "wb_apply s a e y = merge_lanes v d y" using e(2,3) by (cases "v = 0") (simp_all add: wb_apply_def)
    moreover have "wb_apply ?s a e y = merge_lanes (v OR sel) (merge_lanes sel w d) y"
      by (simp add: wb_apply_def wb_store_def)
    ultimately show ?thesis using True by (simp only: merge_onto if_True simp_thms)
  next
    case False
    have "v = 0 \<or> wbuf_adr s e = a" using e(3) by blast
    with False e(2) show ?thesis by (auto simp: wb_apply_def wb_store_def)
  qed
  have step: "wb_apply ?s b k y = (if k = e \<and> b = a then merge_lanes sel w (wb_apply s b k y) else wb_apply s b k y)" for k y
    using self other by (cases "k = e") simp_all
  show ?thesis
  proof (cases "b = a")
    case False
    then show ?thesis by (simp add: wb_over_def step)
  next
    case True
    have st: "wb_apply ?s a k y = (if k = e then merge_lanes sel w (wb_apply s a k y) else wb_apply s a k y)" for k y
      using step [of k y] True by simp
    have g: "wb_apply s a k y = (if k = e then wb_apply s a e y else y)" if "k < 4" for k y
      using gone [OF that] by simp
    from e(1) consider "e = 0" | "e = 1" | "e = 2" | "e = 3" by linarith
    then have "wb_over ?s a x = merge_lanes sel w (wb_over s a x)"
    proof cases
      case 1
      have o: "wb_apply ?s a 1 y = y" "wb_apply s a 1 y = y" "wb_apply ?s a 2 y = y" "wb_apply s a 2 y = y" "wb_apply ?s a 3 y = y" "wb_apply s a 3 y = y" for y
        using st [of 1 y] gone [of 1 y] st [of 2 y] gone [of 2 y] st [of 3 y] gone [of 3 y] 1 by simp_all
      have m: "wb_apply ?s a 0 y = merge_lanes sel w (wb_apply s a 0 y)" for y using st [of 0 y] 1 by simp
      show ?thesis unfolding wb_over_def by (simp only: o m)
    next
      case 2
      have o: "wb_apply ?s a 0 y = y" "wb_apply s a 0 y = y" "wb_apply ?s a 2 y = y" "wb_apply s a 2 y = y" "wb_apply ?s a 3 y = y" "wb_apply s a 3 y = y" for y
        using st [of 0 y] gone [of 0 y] st [of 2 y] gone [of 2 y] st [of 3 y] gone [of 3 y] 2 by simp_all
      have m: "wb_apply ?s a 1 y = merge_lanes sel w (wb_apply s a 1 y)" for y using st [of 1 y] 2 by simp
      show ?thesis unfolding wb_over_def by (simp only: o m)
    next
      case 3
      have o: "wb_apply ?s a 0 y = y" "wb_apply s a 0 y = y" "wb_apply ?s a 1 y = y" "wb_apply s a 1 y = y" "wb_apply ?s a 3 y = y" "wb_apply s a 3 y = y" for y
        using st [of 0 y] gone [of 0 y] st [of 1 y] gone [of 1 y] st [of 3 y] gone [of 3 y] 3 by simp_all
      have m: "wb_apply ?s a 2 y = merge_lanes sel w (wb_apply s a 2 y)" for y using st [of 2 y] 3 by simp
      show ?thesis unfolding wb_over_def by (simp only: o m)
    next
      case 4
      have o: "wb_apply ?s a 0 y = y" "wb_apply s a 0 y = y" "wb_apply ?s a 1 y = y" "wb_apply s a 1 y = y" "wb_apply ?s a 2 y = y" "wb_apply s a 2 y = y" for y
        using st [of 0 y] gone [of 0 y] st [of 1 y] gone [of 1 y] st [of 2 y] gone [of 2 y] 4 by simp_all
      have m: "wb_apply ?s a 3 y = merge_lanes sel w (wb_apply s a 3 y)" for y using st [of 3 y] 4 by simp
      show ?thesis unfolding wb_over_def by (simp only: o m)
    qed
    then show ?thesis using True by simp
  qed
qed

text \<open>The two parts of the invariant: the shape of the buffer, and that a clean entry 0 is in memory.\<close>

definition wb_shape :: "lsu \<Rightarrow> bool" where
  "wb_shape s \<longleftrightarrow>
     (\<forall>n < 3. wbuf_valid s n = 0 \<longrightarrow> wbuf_valid s (n + 1) = 0)
     \<and> (\<forall>m < 4. \<forall>n < 4. m < n \<and> wbuf_valid s n \<noteq> 0 \<longrightarrow> wbuf_adr s m \<noteq> wbuf_adr s n)"

definition wb_clean :: "lsu \<Rightarrow> (u32 \<Rightarrow> u32) \<Rightarrow> bool" where
  "wb_clean s M \<longleftrightarrow> (\<not> wbuf_dirty0 s \<longrightarrow> (\<forall>a. wb_apply s a 0 (M a) = M a))"

lemma wb_inv_parts: "wb_inv s M \<longleftrightarrow> wb_shape s \<and> wb_clean s M"
proof -
  have "(\<forall>a. wb_apply s a 0 (M a) = M a) \<longleftrightarrow> wb_apply s (wbuf_adr s 0) 0 (M (wbuf_adr s 0)) = M (wbuf_adr s 0)"
    by (auto simp: wb_apply_def)
  then show ?thesis unfolding wb_inv_def wb_shape_def wb_clean_def by blast
qed

lemma wb_shape_cong:
  "wbuf_adr t = wbuf_adr s \<Longrightarrow> wbuf_valid t = wbuf_valid s \<Longrightarrow> wb_shape t = wb_shape s"
  by (simp add: wb_shape_def)

lemma wb_over_cong:
  "wbuf_adr t = wbuf_adr s \<Longrightarrow> wbuf_valid t = wbuf_valid s \<Longrightarrow> wbuf_data t = wbuf_data s \<Longrightarrow> wb_over t a w = wb_over s a w"
  by (simp add: wb_over_def wb_apply_def)

lemma wb_shape_empty: "wb_shape s \<Longrightarrow> wbuf_valid s m = 0 \<Longrightarrow> m \<le> n \<Longrightarrow> n < 4 \<Longrightarrow> wbuf_valid s n = 0"
proof (induction n)
  case (Suc n)
  show ?case
  proof (cases "m = Suc n")
    case False
    with Suc have "wbuf_valid s n = 0" by simp
    with Suc.prems(1,4) show ?thesis by (simp add: wb_shape_def)
  qed (use Suc in simp)
qed simp

lemma wb_store_shape:
  assumes "wb_shape s" "wb_place s e a v d" "sel \<noteq> 0 \<or> (\<forall>n < 4. wbuf_valid s n = 0)"
  shows "wb_shape (wb_store e a v d sel w s)"
proof -
  let ?t = "wb_store e a v d sel w s"
  have p: "e < 4" "wbuf_valid s e = v" "v \<noteq> 0 \<longrightarrow> wbuf_adr s e = a" "\<And>n. n < 4 \<Longrightarrow> n \<noteq> e \<Longrightarrow> wbuf_adr s n = a \<Longrightarrow> wbuf_valid s n = 0"
    "\<And>n. n < e \<Longrightarrow> wbuf_valid s n \<noteq> 0"
    using assms(2) by (auto simp: wb_place_def)
  have v: "wbuf_valid ?t n = (if n = e then v OR sel else wbuf_valid s n)" and ad: "wbuf_adr ?t n = (if n = e then a else wbuf_adr s n)" for n
    by (simp_all add: wb_store_def)
  show ?thesis
  proof (cases "sel = 0")
    case True
    with assms(3) have z':  "\<forall>n < 4. wbuf_valid s n = 0" by simp
    have v0: "v = 0" using z' p(1,2) by auto
    have z: "wbuf_valid ?t n = 0" if "n < 4" for n unfolding v using that True v0 z' by simp
    then show ?thesis by (simp add: wb_shape_def)
  next
    case False
    have nz: "v OR sel \<noteq> 0" using False by (metis or_eq_0_iff)
    have "wbuf_valid ?t (n + 1) = 0" if "n < 3" "wbuf_valid ?t n = 0" for n
    proof -
      have n: "n \<noteq> e" "wbuf_valid s n = 0" using that(2) nz by (auto simp: v split: if_splits)
      with p(5) have "e < n" by (metis linorder_neqE_nat)
      then have "n + 1 \<noteq> e" by simp
      with n that(1) assms(1) show ?thesis by (simp add: v wb_shape_def)
    qed
    moreover have "wbuf_adr ?t m \<noteq> wbuf_adr ?t n" if "m < 4" "n < 4" "m < n" "wbuf_valid ?t n \<noteq> 0" for m n
    proof -
      have other: "wbuf_adr s m \<noteq> wbuf_adr s n" if "wbuf_valid s n \<noteq> 0"
        using assms(1) that \<open>m < 4\<close> \<open>n < 4\<close> \<open>m < n\<close> by (simp add: wb_shape_def)
      consider "m = e" "n \<noteq> e" | "n = e" "m \<noteq> e" | "m \<noteq> e" "n \<noteq> e" using \<open>m < n\<close> by blast
      then show ?thesis
      proof cases
        case 1 with that(2,4) p(4) show ?thesis by (auto simp: v ad)
      next
        case 2
        with p(5) [of m] that(3) have "wbuf_valid s m \<noteq> 0" by simp
        with 2 that(1) p(4) show ?thesis by (auto simp: ad)
      next
        case 3 with other that(4) show ?thesis by (simp add: v ad)
      qed
    qed
    ultimately show ?thesis unfolding wb_shape_def by blast
  qed
qed

text \<open>The requests the execution unit makes: one at a time, aligned as far as the unit tests it.\<close>

definition lsu_proto :: "lsu_in \<Rightarrow> bool" where
  "lsu_proto i \<longleftrightarrow>
     \<not> lsu_misaligned i \<and> l_width i \<noteq> 3 \<and> \<not> (l_rd i \<and> l_wr i) \<and> \<not> (l_flush i \<and> (l_rd i \<or> l_wr i))
     \<and> \<not> ((l_writeback i \<or> l_invalidate i) \<and> (l_rd i \<or> l_wr i \<or> l_flush i))"

abbreviation lsu_word_adr :: "lsu_in \<Rightarrow> u32" where "lsu_word_adr i \<equiv> l_adr i AND NOT 3"

definition lsu_cache_op :: "lsu_in \<Rightarrow> bool" where
  "lsu_cache_op i \<longleftrightarrow> l_writeback i \<or> l_invalidate i"

text \<open>What a write keeps of the entry it goes to.\<close>

definition old_valid :: "int \<Rightarrow> lsu \<Rightarrow> 4 word" where
  "old_valid e s = (if 0 \<le> e \<and> e < 4 then wbuf_valid s (nat e) else 0)"

definition old_data :: "int \<Rightarrow> lsu \<Rightarrow> u32" where
  "old_data e s = (if 0 \<le> e \<and> e < 4 then wbuf_data s (nat e) else data_var s)"

definition lsu_base :: "lsu_in \<Rightarrow> lsu_sigs \<Rightarrow> lsu \<Rightarrow> lsu" where
  "lsu_base i g s = (if sig_wbuf_remove g then wb_shifted s else s\<lparr>wbuf_dirty0 := (wbuf_dirty0 s \<and> \<not> l_wp_ack i)\<rparr>)"

lemma lsu_transition_base:
  "lsu_transition i g s =
     (if sig_wbuf_write g
      then (wb_store (nat (sig_wbuf_entry_new g)) (lsu_word_adr i) (old_valid (sig_wbuf_entry g) s) (old_data (sig_wbuf_entry g) s)
              (sig_wbbsel g) (sig_wbdata g) (lsu_base i g s))
           \<lparr>wbuf_dirty0 := (nat (sig_wbuf_entry_new g) = 0 \<or> wbuf_dirty0 (lsu_base i g s)),
            data_var := merge_lanes (sig_wbbsel g) (sig_wbdata g) (old_data (sig_wbuf_entry g) s)\<rparr>
      else (lsu_base i g s)\<lparr>data_var := old_data (sig_wbuf_entry g) s\<rparr>)"
  by (simp add: lsu_transition_def lsu_base_def wb_shifted_def wb_store_def old_valid_def old_data_def Let_def)

lemma lsu_output_fields:
  assumes "\<not> lsu_misaligned i" "g = lsu_output i s g0" "e = lsu_entry i s"
  shows "sig_wbuf_entry g = e" "sig_wbbsel g = lsu_bsel i" "sig_wbdata g = lsu_wbdata i"
    "sig_wbuf_remove g \<longleftrightarrow> \<not> (wbuf_dirty0 s \<and> (l_rd i \<and> FindWbufHit (l_adr i) s = 0 \<or> l_wr i \<and> e = 0))
       \<and> (\<not> wbuf_dirty0 s \<or> l_wp_ack i) \<and> e \<noteq> 0"
    "sig_wbuf_entry_new g = (if sig_wbuf_remove g then e - 1 else e)"
    "sig_wbuf_write g \<longleftrightarrow> sig_wbuf_entry_new g \<ge> 0 \<and> sig_wbuf_entry_new g < 4
       \<and> \<not> (AdrIsSpecial (l_adr i) \<and> sig_wbuf_entry_new g \<noteq> 0)
       \<and> \<not> (wbuf_dirty0 s \<and> (l_rd i \<and> FindWbufHit (l_adr i) s = 0 \<or> l_wr i \<and> e = 0))"
    "o_rdata g = lsu_format (l_width i) (l_exts i) (l_adr i) (lsu_word (l_adr i) (l_rp_data i) s)"
    "o_rp_rd g \<longleftrightarrow> l_rd i \<and> \<not> lsu_served i s" "o_rp_adr g = lsu_word_adr i"
    "o_wp_adr g = wbuf_adr s 0" "o_wp_data g = wbuf_data s 0" "o_wp_bsel g = wbuf_valid s 0"
    "o_wp_wr g \<longleftrightarrow> wbuf_dirty0 s \<and> \<not> (IsFlushed s \<and> lsu_cache_op i)"
    "o_ack g \<longleftrightarrow> (if IsFlushed s \<and> lsu_cache_op i then l_wp_ack i
       else l_rd i \<and> (lsu_served i s \<or> l_rp_ack i) \<or> l_flush i \<and> IsFlushed s) \<or> sig_wbuf_write g"
    "\<not> o_align_err g"
proof -
  have "o_ack g = ((if IsFlushed s \<and> lsu_cache_op i then l_wp_ack i
       else (if l_rd i then (if lsu_served i s then True else l_rp_ack i) else False) \<or> l_flush i \<and> IsFlushed s) \<or> sig_wbuf_write g)"
    using assms(1) by (simp add: assms(2) lsu_output_def Let_def lsu_cache_op_def split del: if_split)
  then show "o_ack g \<longleftrightarrow> (if IsFlushed s \<and> lsu_cache_op i then l_wp_ack i
       else l_rd i \<and> (lsu_served i s \<or> l_rp_ack i) \<or> l_flush i \<and> IsFlushed s) \<or> sig_wbuf_write g"
    by (simp split: if_splits)
qed (use assms(1) in \<open>simp_all add: assms(2,3) lsu_output_def Let_def lsu_cache_op_def\<close>)

lemma lsu_bsel_nonzero:
  assumes "lsu_proto i" "\<not> lsu_cache_op i"
  shows "lsu_bsel i \<noteq> 0"
proof -
  have w: "l_width i = 0 \<or> l_width i = 1 \<or> l_width i = 2"
    using assms(1) by (cases "l_width i" rule: width_cases) (simp_all add: lsu_proto_def)
  have n: "unat (l_adr i AND 3) < 4" by (simp add: unat_and_3)
  then have "unat (l_adr i AND 3) = 0 \<or> unat (l_adr i AND 3) = 1 \<or> unat (l_adr i AND 3) = 2 \<or> unat (l_adr i AND 3) = 3" by linarith
  with w assms(2) show ?thesis
    by (auto simp: lsu_bsel_def lsu_cache_op_def)
qed

lemma wb_shape_unique:
  assumes "wb_shape s" "m < 4" "n < 4" "m \<noteq> n" "wbuf_adr s m = a" "wbuf_valid s m \<noteq> 0" "wbuf_adr s n = a"
  shows "wbuf_valid s n = 0"
  using assms unfolding wb_shape_def by (metis linorder_neqE_nat)

lemma wb_shape_filled: "wb_shape s \<Longrightarrow> wbuf_valid s n \<noteq> 0 \<Longrightarrow> m \<le> n \<Longrightarrow> n < 4 \<Longrightarrow> wbuf_valid s m \<noteq> 0"
  using wb_shape_empty by blast

lemma IsFlushed_iff: "IsFlushed s \<longleftrightarrow> (\<forall>n < 4. wbuf_valid s n = 0)"
  by (auto simp: IsFlushed_def wbuf_search_def all_less_4)

lemma wb_shifted_sels:
  "n < 3 \<Longrightarrow> wbuf_valid (wb_shifted s) n = wbuf_valid s (n + 1)" "wbuf_valid (wb_shifted s) 3 = 0"
  "n < 3 \<Longrightarrow> wbuf_adr (wb_shifted s) n = wbuf_adr s (n + 1)" "n < 3 \<Longrightarrow> wbuf_data (wb_shifted s) n = wbuf_data s (n + 1)"
  by (simp_all add: wb_shifted_def wbuf_shift_def)

text \<open>A place of the buffer and the same place after the oldest entry is dropped.\<close>

lemma wb_place_shifted:
  assumes "n < 4" "\<And>m. m < 4 \<Longrightarrow> m \<noteq> 0 \<Longrightarrow> m \<noteq> Suc n \<Longrightarrow> wbuf_adr s m = a \<Longrightarrow> wbuf_valid s m = 0"
    and "\<And>m. m \<noteq> 0 \<Longrightarrow> m < Suc n \<Longrightarrow> wbuf_valid s m \<noteq> 0"
    and "if n < 3 then wbuf_valid s (Suc n) = v \<and> (v \<noteq> 0 \<longrightarrow> wbuf_adr s (Suc n) = a \<and> wbuf_data s (Suc n) = d) else v = 0"
  shows "wb_place (wb_shifted s) n a v d"
proof -
  have "wbuf_valid (wb_shifted s) m = 0" if "m < 4" "m \<noteq> n" "wbuf_adr (wb_shifted s) m = a" for m
  proof (cases "m < 3")
    case True
    with that assms(2) [of "Suc m"] show ?thesis by (simp add: wb_shifted_sels)
  next
    case False
    then have "m = 3" using that(1) by simp
    then show ?thesis by (simp add: wb_shifted_sels)
  qed
  moreover have "wbuf_valid (wb_shifted s) m \<noteq> 0" if "m < n" for m
    using that assms(1) assms(3) [of "Suc m"] by (simp add: wb_shifted_sels)
  moreover have "wbuf_valid (wb_shifted s) n = v \<and> (v \<noteq> 0 \<longrightarrow> wbuf_adr (wb_shifted s) n = a \<and> wbuf_data (wb_shifted s) n = d)"
  proof (cases "n < 3")
    case True
    with assms(4) show ?thesis by (simp add: wb_shifted_sels)
  next
    case False
    then have "n = 3" using assms(1) by simp
    with assms(4) show ?thesis by (simp add: wb_shifted_sels)
  qed
  ultimately show ?thesis using assms(1) unfolding wb_place_def by blast
qed

lemma place_hit:
  assumes "wb_shape s" "n < 4" "wbuf_adr s n = a" "wbuf_valid s n \<noteq> 0"
  shows "wb_place s n a (wbuf_valid s n) (wbuf_data s n)"
    and "n \<noteq> 0 \<Longrightarrow> wb_place (wb_shifted s) (n - 1) a (wbuf_valid s n) (wbuf_data s n)"
proof -
  have u: "wbuf_valid s m = 0" if "m < 4" "m \<noteq> n" "wbuf_adr s m = a" for m
    using wb_shape_unique [OF assms(1,2) that(1) _ assms(3,4) that(3)] that(2) by simp
  have f: "wbuf_valid s m \<noteq> 0" if "m < n" for m
    using wb_shape_filled [OF assms(1,4), of m] that assms(2) by simp
  show "wb_place s n a (wbuf_valid s n) (wbuf_data s n)" using u f assms by (simp add: wb_place_def)
  assume "n \<noteq> 0"
  then obtain k where k: "n = Suc k" by (cases n) simp_all
  have "wb_place (wb_shifted s) k a (wbuf_valid s n) (wbuf_data s n)"
    by (rule wb_place_shifted) (use u f assms k in simp_all)
  then show "wb_place (wb_shifted s) (n - 1) a (wbuf_valid s n) (wbuf_data s n)" by (simp add: k)
qed

lemma place_new:
  assumes "\<And>m. m < 4 \<Longrightarrow> wbuf_adr s m = a \<Longrightarrow> wbuf_valid s m = 0" "\<And>m. m < k \<Longrightarrow> wbuf_valid s m \<noteq> 0" "k < 4 \<Longrightarrow> wbuf_valid s k = 0"
  shows "k < 4 \<Longrightarrow> wb_place s k a 0 d" and "k \<noteq> 0 \<Longrightarrow> k \<le> 4 \<Longrightarrow> wb_place (wb_shifted s) (k - 1) a 0 d"
proof -
  show "k < 4 \<Longrightarrow> wb_place s k a 0 d" using assms by (simp add: wb_place_def)
  assume k: "k \<noteq> 0" "k \<le> 4"
  then obtain n where n: "k = Suc n" by (cases k) simp_all
  have "wb_place (wb_shifted s) n a 0 d"
    by (rule wb_place_shifted) (use assms k n in simp_all)
  then show "wb_place (wb_shifted s) (k - 1) a 0 d" by (simp add: n)
qed

text \<open>In an empty buffer, or one that empties, the address does not matter.\<close>

lemma place_first:
  assumes "wb_shape s"
  shows "wbuf_valid s 0 = 0 \<Longrightarrow> wb_place s 0 a 0 d" and "wbuf_valid s 1 = 0 \<Longrightarrow> wb_place (wb_shifted s) 0 a 0 d"
proof -
  show "wbuf_valid s 0 = 0 \<Longrightarrow> wb_place s 0 a 0 d" using wb_shape_empty [OF assms, of 0] by (simp add: wb_place_def)
  assume z: "wbuf_valid s 1 = 0"
  show "wb_place (wb_shifted s) 0 a 0 d"
    by (rule wb_place_shifted) (use wb_shape_empty [OF assms z] z in simp_all)
qed

lemma lsu_place:
  assumes "wb_shape s" "lsu_proto i" "g = lsu_output i s g0" "sig_wbuf_write g" "e = lsu_entry i s"
  shows "wb_place (lsu_base i g s) (nat (sig_wbuf_entry_new g)) (lsu_word_adr i) (old_valid e s) (old_data e s)"
    and "lsu_bsel i \<noteq> 0 \<or> (\<forall>n < 4. wbuf_valid (lsu_base i g s) n = 0)"
    and "l_wr i \<or> lsu_cache_op i \<and> IsFlushed s"
proof -
  have mis: "\<not> lsu_misaligned i" using assms(2) by (simp add: lsu_proto_def)
  note F = lsu_output_fields [OF mis assms(3,5)]
  let ?a = "lsu_word_adr i"
  have w: "0 \<le> sig_wbuf_entry_new g" "sig_wbuf_entry_new g < 4" "AdrIsSpecial (l_adr i) \<Longrightarrow> sig_wbuf_entry_new g = 0"
    using assms(4) F(6) by auto
  have e0: "0 \<le> e" using w(1) F(4,5) by (auto split: if_splits)
  have kind: "lsu_cache_op i \<and> IsFlushed s \<and> e = 0 \<and> \<not> l_wr i \<or> l_wr i \<and> \<not> lsu_cache_op i"
    using e0 assms(2,5) by (auto simp: lsu_entry_def lsu_cache_op_def lsu_proto_def split: if_splits)
  then show "l_wr i \<or> lsu_cache_op i \<and> IsFlushed s" by blast
  show "lsu_bsel i \<noteq> 0 \<or> (\<forall>n < 4. wbuf_valid (lsu_base i g s) n = 0)"
    using kind lsu_bsel_nonzero [OF assms(2)] F(4) by (auto simp: lsu_base_def IsFlushed_iff)
  show "wb_place (lsu_base i g s) (nat (sig_wbuf_entry_new g)) ?a (old_valid e s) (old_data e s)"
  proof (cases "lsu_cache_op i")
    case True
    with kind have k: "IsFlushed s" "e = 0" by auto
    then have "\<not> sig_wbuf_remove g" using F(4) by simp
    with k F(5) show ?thesis by (simp add: wb_place_def lsu_base_def old_valid_def IsFlushed_iff)
  next
    case False
    with kind have wr: "l_wr i" "\<not> l_writeback i" "\<not> l_invalidate i" by (auto simp: lsu_cache_op_def)
    let ?t = "lsu_base i g s" and ?e' = "nat (sig_wbuf_entry_new g)"
    have base: "wb_place ?t n a v d = wb_place (if sig_wbuf_remove g then wb_shifted s else s) n a v d" for n a v d
      by (cases "sig_wbuf_remove g") (simp_all add: lsu_base_def wb_place_def)
    have e': "?e' = (if sig_wbuf_remove g then nat e - 1 else nat e)" "sig_wbuf_remove g \<Longrightarrow> nat e \<noteq> 0" "nat e \<le> 4" "\<not> sig_wbuf_remove g \<Longrightarrow> nat e < 4"
      using w F(4,5) e0 by (auto split: if_splits)
    let ?P = "\<lambda>n. wbuf_adr s n = ?a \<and> wbuf_valid s n \<noteq> 0"
    show ?thesis
    proof (cases "FindWbufHit (l_adr i) s < 0 \<or> AdrIsSpecial (l_adr i)")
      case False
      have "\<exists>n. FindWbufHit (l_adr i) s = int n \<and> n < 4 \<and> ?P n"
      proof (rule wbuf_search_cases [of ?P])
        assume "wbuf_search ?P = - 1"
        with False show ?thesis by (simp add: FindWbufHit_def)
      next
        fix n
        assume "wbuf_search ?P = int n" "n < 4" "?P n"
        then show ?thesis by (intro exI [of _ n]) (simp add: FindWbufHit_def)
      qed
      then obtain n where n: "FindWbufHit (l_adr i) s = int n" "n < 4" "?P n" by blast
      with wr False assms(5) have "e = int n" by (simp add: lsu_entry_def Let_def)
      then show ?thesis unfolding base using place_hit [OF assms(1) n(2)] n e' by (auto simp: old_valid_def old_data_def)
    next
      case True
      then have e: "e = (if FindEmptyWbufEntry s < 0 then 4 else FindEmptyWbufEntry s)"
        using wr assms(5) by (simp add: lsu_entry_def Let_def)
      have "(\<forall>m < nat e. wbuf_valid s m \<noteq> 0) \<and> (nat e < 4 \<longrightarrow> wbuf_valid s (nat e) = 0)"
      proof (rule wbuf_search_cases [of "\<lambda>n. wbuf_valid s n = 0"])
        assume n: "wbuf_search (\<lambda>n. wbuf_valid s n = 0) = - 1" "wbuf_valid s 0 \<noteq> 0" "wbuf_valid s 1 \<noteq> 0" "wbuf_valid s 2 \<noteq> 0" "wbuf_valid s 3 \<noteq> 0"
        have "e = 4" using n(1) e by (simp add: FindEmptyWbufEntry_def)
        then show ?thesis using all_less_4 [of "\<lambda>n. wbuf_valid s n \<noteq> 0"] n by simp
      next
        fix n
        assume n: "wbuf_search (\<lambda>n. wbuf_valid s n = 0) = int n" "n < 4" "wbuf_valid s n = 0" "\<forall>m < n. wbuf_valid s m \<noteq> 0"
        have "nat e = n" using n(1) e by (simp add: FindEmptyWbufEntry_def)
        then show ?thesis using n by simp
      qed
      then have empty: "\<And>m. m < nat e \<Longrightarrow> wbuf_valid s m \<noteq> 0" "nat e < 4 \<Longrightarrow> wbuf_valid s (nat e) = 0" by blast+
      have old: "old_valid e s = 0" using empty(2) e0 by (simp add: old_valid_def)
      show ?thesis
      proof (cases "AdrIsSpecial (l_adr i)")
        case True
        with w(3) e' have "nat e = 0 \<and> \<not> sig_wbuf_remove g \<or> nat e = 1 \<and> sig_wbuf_remove g" by (auto split: if_splits)
        then show ?thesis unfolding base old using place_first [OF assms(1)] empty(2) e' by auto
      next
        case False
        with True have "FindWbufHit (l_adr i) s < 0" by blast
        note this_miss = this
        have none: "wbuf_valid s m = 0" if "m < 4" "wbuf_adr s m = ?a" for m
        proof (rule wbuf_search_cases [of ?P])
          assume "\<not> ?P 0" "\<not> ?P 1" "\<not> ?P 2" "\<not> ?P 3"
          then have "\<not> ?P m" using that(1) all_less_4 [of "\<lambda>n. \<not> ?P n"] by blast
          with that(2) show ?thesis by simp
        next
          fix n
          assume "wbuf_search ?P = int n"
          with this_miss show ?thesis by (simp add: FindWbufHit_def)
        qed
        show ?thesis unfolding base old using place_new [of s ?a "nat e", OF none empty] e' by auto
      qed
    qed
  qed
qed

text \<open>What a cycle does to the memory is what entry 0 says.\<close>

lemma lsu_commit_apply:
  assumes "wb_inv s M" "lsu_proto i" "g = lsu_output i s g0"
  shows "lsu_commit i g M a = (if wbuf_dirty0 s \<and> l_wp_ack i then wb_apply s a 0 (M a) else M a)"
proof -
  have "\<not> lsu_misaligned i" using assms(2) by (simp add: lsu_proto_def)
  note F = lsu_output_fields [OF this assms(3) refl]
  have "wb_apply s a 0 (M a) = M a" if "IsFlushed s"
    using that by (simp add: IsFlushed_iff wb_apply_empty)
  then show ?thesis
    by (auto simp: lsu_commit_def F(10-13) wb_apply_def)
qed

lemma lsu_base_cycle:
  assumes "wb_inv s M" "lsu_proto i" "g = lsu_output i s g0" "t = lsu_base i g s" "M' = lsu_commit i g M"
  shows "wb_shape t" and "wb_clean t M'" and "lsu_view t M' = lsu_view s M"
proof -
  have "\<not> lsu_misaligned i" using assms(2) by (simp add: lsu_proto_def)
  note F = lsu_output_fields [OF this assms(3) refl]
  note C = lsu_commit_apply [OF assms(1-3), folded assms(5)]
  have clean: "wb_apply s a 0 (M' a) = M' a" if "\<not> wbuf_dirty0 s \<or> l_wp_ack i" for a
  proof (cases "wbuf_dirty0 s")
    case True
    with that show ?thesis by (simp add: C wb_apply_idem)
  next
    case False
    with assms(1) show ?thesis by (simp add: C wb_inv_parts wb_clean_def)
  qed
  have same: "wb_over s a (M' a) = wb_over s a (M a)" for a
    by (simp add: C wb_over_def wb_apply_idem)
  show "wb_shape t"
  proof (cases "sig_wbuf_remove g")
    case True
    then show ?thesis using wb_shifted_inv [OF assms(1)] by (simp add: assms(4) lsu_base_def wb_inv_parts)
  next
    case False
    then have "wb_shape t = wb_shape s" by (intro wb_shape_cong) (simp_all add: assms(4) lsu_base_def)
    then show ?thesis using assms(1) by (simp add: wb_inv_parts)
  qed
  show "wb_clean t M'"
  proof (cases "sig_wbuf_remove g")
    case True
    then show ?thesis using wb_shifted_inv [OF assms(1)] by (simp add: assms(4) lsu_base_def wb_inv_parts)
  next
    case False
    then show ?thesis using clean [of "wbuf_adr s 0"] by (auto simp: wb_clean_def assms(4) lsu_base_def wb_apply_def)
  qed
  show "lsu_view t M' = lsu_view s M"
  proof (cases "sig_wbuf_remove g")
    case True
    then have "\<not> wbuf_dirty0 s \<or> l_wp_ack i" using F(4) by blast
    with True show ?thesis by (simp add: lsu_view_def fun_eq_iff assms(4) lsu_base_def wb_shifted_over clean same)
  next
    case False
    then have "wb_over t a w = wb_over s a w" for a w by (intro wb_over_cong) (simp_all add: assms(4) lsu_base_def)
    then show ?thesis by (simp add: lsu_view_def fun_eq_iff same)
  qed
qed

lemma lsu_cycle:
  assumes "wb_inv s M" "lsu_proto i" "g = lsu_output i s g0" "s' = lsu_transition i g s" "M' = lsu_commit i g M"
  shows "wb_inv s' M'"
    and "lsu_view s' M' = (if l_wr i \<and> o_ack g
      then (lsu_view s M)(lsu_word_adr i := merge_lanes (lsu_bsel i) (lsu_wbdata i) (lsu_view s M (lsu_word_adr i)))
      else lsu_view s M)"
proof -
  have mis: "\<not> lsu_misaligned i" using assms(2) by (simp add: lsu_proto_def)
  note F = lsu_output_fields [OF mis assms(3) refl]
  define t where "t = lsu_base i g s"
  note B = lsu_base_cycle [OF assms(1-3) t_def assms(5)]
  have ack: "o_ack g = sig_wbuf_write g" if "l_wr i"
    using that assms(2) F(14) by (simp add: lsu_proto_def lsu_cache_op_def)
  have "wb_inv s' M' \<and> lsu_view s' M' = (if l_wr i \<and> o_ack g
      then (lsu_view s M)(lsu_word_adr i := merge_lanes (lsu_bsel i) (lsu_wbdata i) (lsu_view s M (lsu_word_adr i)))
      else lsu_view s M)"
  proof (cases "sig_wbuf_write g")
    case False
    then have s': "s' = t\<lparr>data_var := old_data (sig_wbuf_entry g) s\<rparr>" by (simp add: assms(4) lsu_transition_base t_def)
    have "wb_shape s' = wb_shape t" by (rule wb_shape_cong) (simp_all add: s')
    moreover have "wb_clean s' M' = wb_clean t M'" by (simp add: wb_clean_def wb_apply_def s')
    moreover have "lsu_view s' M' = lsu_view t M'" by (simp add: lsu_view_def fun_eq_iff wb_over_def wb_apply_def s')
    ultimately show ?thesis using B False ack by (auto simp: wb_inv_parts)
  next
    case True
    let ?a = "lsu_word_adr i" and ?e = "nat (sig_wbuf_entry_new g)"
    define v where "v = old_valid (sig_wbuf_entry g) s"
    define d where "d = old_data (sig_wbuf_entry g) s"
    have P: "wb_place t ?e ?a v d" "lsu_bsel i \<noteq> 0 \<or> (\<forall>n < 4. wbuf_valid t n = 0)" "l_wr i \<or> lsu_cache_op i \<and> IsFlushed s"
      using lsu_place [OF _ assms(2,3) True refl] assms(1) by (simp_all add: wb_inv_parts t_def v_def d_def F(1))
    define u where "u = wb_store ?e ?a v d (lsu_bsel i) (lsu_wbdata i) t"
    have s': "s' = u\<lparr>wbuf_dirty0 := (?e = 0 \<or> wbuf_dirty0 t), data_var := merge_lanes (lsu_bsel i) (lsu_wbdata i) d\<rparr>"
      using True by (simp add: assms(4) lsu_transition_base t_def u_def v_def d_def F(2,3))
    have "wb_shape s' = wb_shape u" by (rule wb_shape_cong) (simp_all add: s')
    then have shape: "wb_shape s'" using wb_store_shape [OF B(1) P(1,2)] by (simp add: u_def)
    have "wb_apply s' a 0 (M' a) = M' a" if "\<not> wbuf_dirty0 s'" for a
    proof -
      have "?e \<noteq> 0" "\<not> wbuf_dirty0 t" using that by (simp_all add: s')
      with B(2) have "wb_apply t a 0 (M' a) = M' a" by (simp add: wb_clean_def)
      with \<open>?e \<noteq> 0\<close> show ?thesis by (auto simp: wb_apply_def s' u_def wb_store_def)
    qed
    then have "wb_inv s' M'" using shape by (simp add: wb_inv_parts wb_clean_def)
    moreover have "wb_over s' a w = wb_over u a w" for a w by (intro wb_over_cong) (simp_all add: s')
    then have "lsu_view s' M' = (\<lambda>a. if a = ?a then merge_lanes (lsu_bsel i) (lsu_wbdata i) (wb_over t a (M' a)) else wb_over t a (M' a))"
      unfolding u_def by (simp only: lsu_view_def fun_eq_iff wb_store_over [OF P(1)] simp_thms)
    then have "lsu_view s' M' = (lsu_view s M)(?a := merge_lanes (lsu_bsel i) (lsu_wbdata i) (lsu_view s M ?a))"
      unfolding B(3) [symmetric] by (simp add: lsu_view_def fun_eq_iff)
    moreover have "lsu_bsel i = 0" if "\<not> l_wr i" using that P(3) by (simp add: lsu_bsel_def lsu_cache_op_def)
    ultimately show ?thesis using True ack by (cases "l_wr i") simp_all
  qed
  then show "wb_inv s' M'" and "lsu_view s' M' = (if l_wr i \<and> o_ack g
      then (lsu_view s M)(lsu_word_adr i := merge_lanes (lsu_bsel i) (lsu_wbdata i) (lsu_view s M (lsu_word_adr i)))
      else lsu_view s M)"
    by blast+
qed

end
