(* ===== verification/PnLsuSeq.thy ===== *)
theory PnLsuSeq
  imports PnLsu
begin

text \<open>
  Runs of the load/store unit: against a memory with one port in each direction, loads and stores that the unit
  acknowledges are those of a plain memory that does one access at a time.
\<close>

section \<open>Runs\<close>

text \<open>The unit with its signals and the memory behind it; the outputs settle before the clock edge.\<close>

type_synonym lsu_sys = "lsu \<times> lsu_sigs \<times> (u32 \<Rightarrow> u32)"

definition lsu_clock :: "lsu_in \<Rightarrow> lsu_sys \<Rightarrow> lsu_sys" where
  "lsu_clock i st = (case st of (s, g, M) \<Rightarrow>
     (let g' = lsu_output i s g in (lsu_transition i g' s, g', lsu_commit i g' M)))"

definition lsu_ack :: "lsu_in \<Rightarrow> lsu_sys \<Rightarrow> bool" where
  "lsu_ack i st = o_ack (lsu_output i (fst st) (fst (snd st)))"

definition lsu_rdata :: "lsu_in \<Rightarrow> lsu_sys \<Rightarrow> u32" where
  "lsu_rdata i st = o_rdata (lsu_output i (fst st) (fst (snd st)))"

text \<open>
  The execution unit holds a request until it is acknowledged, and after a load it makes no other for one cycle,
  with the address and format unchanged, while it takes \<open>rdata\<close>.
\<close>

definition lsu_same :: "lsu_in \<Rightarrow> lsu_in \<Rightarrow> bool" where
  "lsu_same i i' \<longleftrightarrow> l_adr i' = l_adr i \<and> l_width i' = l_width i \<and> l_exts i' = l_exts i"

definition lsu_held :: "lsu_in \<Rightarrow> bool \<Rightarrow> lsu_in \<Rightarrow> bool" where
  "lsu_held i ack i' \<longleftrightarrow>
     (if l_rd i then lsu_same i i' \<and> \<not> l_wr i' \<and> (l_rd i' \<longleftrightarrow> \<not> ack)
      else if l_wr i \<and> \<not> ack then lsu_same i i' \<and> l_wr i' \<and> l_wdata i' = l_wdata i else True)"

text \<open>A read the memory acknowledges delivers one cycle later the selected bytes of before or after a write of that cycle.\<close>

definition lanes_agree :: "4 word \<Rightarrow> u32 \<Rightarrow> u32 \<Rightarrow> bool" where
  "lanes_agree sel x y \<longleftrightarrow> merge_lanes sel x 0 = merge_lanes sel y 0"

definition lsu_reads :: "lsu_in \<Rightarrow> lsu_sys \<Rightarrow> lsu_in \<Rightarrow> bool" where
  "lsu_reads i st i' \<longleftrightarrow>
     (case (st, lsu_clock i st) of ((s, g, M), (s', g', M')) \<Rightarrow>
        o_rp_rd g' \<and> l_rp_ack i \<longrightarrow>
        lanes_agree (o_rp_bsel g') (l_rp_data i') (M (o_rp_adr g')) \<or> lanes_agree (o_rp_bsel g') (l_rp_data i') (M' (o_rp_adr g')))"

fun lsu_obeys :: "lsu_in list \<Rightarrow> lsu_sys \<Rightarrow> bool" where
  "lsu_obeys (i # i' # is) st \<longleftrightarrow>
     lsu_proto i \<and> lsu_held i (lsu_ack i st) i' \<and> lsu_reads i st i' \<and> lsu_obeys (i' # is) (lsu_clock i st)"
| "lsu_obeys [i] st \<longleftrightarrow> lsu_proto i"
| "lsu_obeys [] st \<longleftrightarrow> True"

text \<open>The values the execution unit takes, one cycle after each acknowledged load.\<close>

fun lsu_loads :: "lsu_in list \<Rightarrow> lsu_sys \<Rightarrow> u32 list" where
  "lsu_loads (i # i' # is) st =
     (if l_rd i \<and> lsu_ack i st then [lsu_rdata i' (lsu_clock i st)] else []) @ lsu_loads (i' # is) (lsu_clock i st)"
| "lsu_loads is st = []"

text \<open>The plain memory: \<open>lsu_accesses\<close> are the acknowledged requests in order, \<open>mem_loads\<close> what they load.\<close>

fun lsu_accesses :: "lsu_in list \<Rightarrow> lsu_sys \<Rightarrow> lsu_in list" where
  "lsu_accesses (i # is) st =
     (if (l_rd i \<or> l_wr i) \<and> lsu_ack i st then [i] else []) @ lsu_accesses is (lsu_clock i st)"
| "lsu_accesses [] st = []"

definition word_store :: "lsu_in \<Rightarrow> (u32 \<Rightarrow> u32) \<Rightarrow> u32 \<Rightarrow> u32" where
  "word_store i V = (if l_wr i then V(lsu_word_adr i := merge_lanes (lsu_bsel i) (lsu_wbdata i) (V (lsu_word_adr i))) else V)"

fun mem_loads :: "lsu_in list \<Rightarrow> (u32 \<Rightarrow> u32) \<Rightarrow> u32 list" where
  "mem_loads (i # is) V =
     (if l_rd i then [lsu_format (l_width i) (l_exts i) (l_adr i) (V (lsu_word_adr i))] else []) @ mem_loads is (word_store i V)"
| "mem_loads [] V = []"

section \<open>What a load depends on\<close>

lemma lanes_agree_iff: "lanes_agree sel x y \<longleftrightarrow> (\<forall>k < 32. bit sel (3 - k div 8) \<longrightarrow> bit x k = bit y k)"
proof -
  have "bit (merge_lanes sel z 0) k \<longleftrightarrow> bit sel (3 - k div 8) \<and> bit z k" if "k < 32" for z k
    using that by (simp add: bit_merge_lanes)
  then show ?thesis unfolding lanes_agree_def by (auto simp: bit_eq_iff dest: bit_imp_le_length)
qed

lemma lanes_agree_refl [simp]: "lanes_agree sel x x"
  by (simp add: lanes_agree_def)

lemma lanes_agree_merge: "lanes_agree sel x y \<Longrightarrow> lanes_agree sel (merge_lanes v d x) (merge_lanes v d y)"
  by (simp add: lanes_agree_iff bit_merge_lanes)

lemma lanes_agree_covered: "sel AND NOT v = 0 \<Longrightarrow> lanes_agree sel (merge_lanes v d x) (merge_lanes v d y)"
  by (simp add: lanes_agree_iff bit_merge_lanes merge_covered)

lemma wb_apply_agree: "lanes_agree sel x y \<Longrightarrow> lanes_agree sel (wb_apply s a n x) (wb_apply s a n y)"
  by (simp add: wb_apply_def lanes_agree_merge)

lemma wb_over_agree: "lanes_agree sel x y \<Longrightarrow> lanes_agree sel (wb_over s a x) (wb_over s a y)"
  by (simp add: wb_over_def wb_apply_agree)

lemma drop_mask_eq:
  fixes x y :: u32
  assumes "\<And>k. k < m \<Longrightarrow> bit x (n + k) = bit y (n + k)"
  shows "drop_bit n x AND mask m = drop_bit n y AND mask m"
  by (rule bit_word_eqI) (use assms in \<open>auto simp: bit_and_iff bit_mask_iff bit_drop_bit_eq\<close>)

lemma not_and_3: "unat (NOT a AND (3 :: u32)) = 3 - unat (a AND 3)"
proof -
  have "NOT a AND (3 :: u32) = 3 - (a AND 3)"
  proof -
    have "(NOT a AND 3) + (a AND 3) = (NOT a AND 3) OR (a AND (3 :: u32))"
      by (rule disjunctive_add) (auto simp: bit_and_iff bit_not_iff)
    also have "\<dots> = 3" by (rule bit_word_eqI) (auto simp: bit_and_iff bit_or_iff bit_not_iff)
    finally show ?thesis by (simp add: algebra_simps)
  qed
  moreover have "a AND 3 \<le> (3 :: u32)" by (rule word_and_le1)
  ultimately show ?thesis by (simp add: unat_sub)
qed

lemma lsu_format_agree:
  assumes "lsu_proto i" "\<not> lsu_cache_op i" "lanes_agree (lsu_bsel i) x y"
  shows "lsu_format (l_width i) (l_exts i) (l_adr i) x = lsu_format (l_width i) (l_exts i) (l_adr i) y"
proof -
  define a where "a = unat (l_adr i AND 3)"
  have a: "a < 4" by (simp add: a_def unat_and_3)
  have bit: "bit x k = bit y k" if "k < 32" "bit (lsu_bsel i) (3 - k div 8)" for k
    using assms(3) that by (simp add: lanes_agree_iff)
  show ?thesis
  proof (cases "l_width i" rule: width_cases)
    case 1
    then have "lsu_bsel i = mask 4" using assms(2) by (simp add: lsu_bsel_def lsu_cache_op_def mask_eq_exp_minus_1)
    then have "x = y" using bit by (intro bit_word_eqI) (simp add: bit_mask_iff)
    then show ?thesis by simp
  next
    case 2
    then have sel: "lsu_bsel i = push_bit a 1" using assms(2) by (simp add: lsu_bsel_def lsu_cache_op_def a_def)
    have "bit x (8 * (3 - a) + k) = bit y (8 * (3 - a) + k)" if "k < 8" for k
    proof -
      have "3 - (8 * (3 - a) + k) div 8 = a" using a that by simp
      moreover have "bit (push_bit a 1 :: 4 word) a" using a unfolding bit_push_bit_iff by simp
      ultimately have "bit (lsu_bsel i) (3 - (8 * (3 - a) + k) div 8)" unfolding sel by (simp only:)
      moreover have "8 * (3 - a) + k < 32" using a that by linarith
      ultimately show ?thesis by (intro bit)
    qed
    then have "drop_bit (8 * (3 - a)) x AND mask 8 = drop_bit (8 * (3 - a)) y AND mask 8" by (rule drop_mask_eq)
    then show ?thesis using 2 by (simp add: lsu_format_def not_and_3 mask_eq_exp_minus_1 flip: a_def)
  next
    case 3
    then have sel: "lsu_bsel i = push_bit a (mask 2)" using assms(2) by (simp add: lsu_bsel_def lsu_cache_op_def a_def mask_eq_exp_minus_1)
    have "l_adr i AND 1 = 0" using assms(1) 3 by (simp add: lsu_proto_def lsu_misaligned_def)
    then have even: "\<not> bit (l_adr i) 0" by (simp add: and_one_eq even_iff_mod_2_eq_zero [symmetric] bit_0)
    define n where "n = unat (NOT (l_adr i) AND (2 :: u32))"
    have b3: "bit (3 :: int) k \<longleftrightarrow> k = 0 \<or> k = 1" and b2: "bit (2 :: int) k \<longleftrightarrow> k = 1" for k
    proof -
      have "(3 :: int) = mask 2" "(2 :: int) = push_bit 1 (mask 1)" by (simp_all add: mask_eq_exp_minus_1)
      then show "bit (3 :: int) k \<longleftrightarrow> k = 0 \<or> k = 1" and "bit (2 :: int) k \<longleftrightarrow> k = 1"
        by (auto simp only: bit_mask_iff bit_push_bit_iff) auto
    qed
    have a2: "a = 0 \<and> n = 2 \<or> a = 2 \<and> n = 0"
    proof (cases "bit (l_adr i) 1")
      case True
      have "l_adr i AND 3 = 2" "NOT (l_adr i) AND 2 = 0"
        by (rule bit_word_eqI; use True even in \<open>auto simp: bit_and_iff bit_not_iff b2 b3 intro!: gr0I\<close>)+
      then show ?thesis by (simp add: a_def n_def)
    next
      case False
      have "l_adr i AND 3 = 0" "NOT (l_adr i) AND 2 = 2"
        by (rule bit_word_eqI; use False even in \<open>auto simp: bit_and_iff bit_not_iff b2 b3 intro!: gr0I\<close>)+
      then show ?thesis by (simp add: a_def n_def)
    qed
    have "bit x (8 * n + k) = bit y (8 * n + k)" if "k < 16" for k
    proof -
      have "a \<le> 3 - (8 * n + k) div 8 \<and> 3 - (8 * n + k) div 8 < a + 2 \<and> 3 - (8 * n + k) div 8 < 4" using a2 that by auto
      then show ?thesis using a2 that by (intro bit) (auto simp: sel bit_push_bit_iff bit_mask_iff)
    qed
    then have "drop_bit (8 * n) x AND mask 16 = drop_bit (8 * n) y AND mask 16" by (rule drop_mask_eq)
    then show ?thesis using 3 by (simp add: lsu_format_def mask_eq_exp_minus_1 flip: n_def)
  next
    case 4
    then show ?thesis using assms(1) by (simp add: lsu_proto_def)
  qed
qed

section \<open>Loads\<close>

text \<open>
  An entry 0 that is clean and still there was kept for the request of the cycle before: a load that was
  acknowledged, one whose bytes it has only in part, or a store that has to wait.
\<close>

definition slot0_kept :: "lsu_in \<Rightarrow> lsu_sys \<Rightarrow> lsu \<Rightarrow> bool" where
  "slot0_kept i st s' \<longleftrightarrow>
     (\<not> wbuf_dirty0 s' \<and> wbuf_valid s' 0 \<noteq> 0 \<longrightarrow>
        l_rd i \<and> (lsu_ack i st \<or> wbuf_adr s' 0 = lsu_word_adr i \<and> lsu_bsel i AND NOT (wbuf_valid s' 0) \<noteq> 0)
        \<or> l_wr i \<and> \<not> lsu_ack i st)"

lemma FindWbufHit_0: "FindWbufHit a s = 0 \<longleftrightarrow> wbuf_adr s 0 = a AND NOT 3 \<and> wbuf_valid s 0 \<noteq> 0"
  by (auto simp: FindWbufHit_def wbuf_search_def)

lemma slot0_kept_step:
  assumes "lsu_proto i" "st = (s, g, M)"
  shows "slot0_kept i st (fst (lsu_clock i st))"
proof -
  have mis: "\<not> lsu_misaligned i" using assms(1) by (simp add: lsu_proto_def)
  define g' where "g' = lsu_output i s g"
  define s' where "s' = lsu_transition i g' s"
  define t where "t = lsu_base i g' s"
  note F = lsu_output_fields [OF mis g'_def refl]
  have st: "fst (lsu_clock i st) = s'" "lsu_ack i st = o_ack g'"
    by (simp_all add: assms(2) lsu_clock_def s'_def g'_def lsu_ack_def Let_def)
  have tr: "s' = (if sig_wbuf_write g' then (wb_store (nat (sig_wbuf_entry_new g')) (lsu_word_adr i) (old_valid (sig_wbuf_entry g') s)
         (old_data (sig_wbuf_entry g') s) (sig_wbbsel g') (sig_wbdata g') t)
           \<lparr>wbuf_dirty0 := (nat (sig_wbuf_entry_new g') = 0 \<or> wbuf_dirty0 t),
            data_var := merge_lanes (sig_wbbsel g') (sig_wbdata g') (old_data (sig_wbuf_entry g') s)\<rparr>
      else t\<lparr>data_var := old_data (sig_wbuf_entry g') s\<rparr>)"
    unfolding s'_def t_def by (rule lsu_transition_base)
  show ?thesis unfolding slot0_kept_def st
  proof (intro impI)
    assume c: "\<not> wbuf_dirty0 s' \<and> wbuf_valid s' 0 \<noteq> 0"
    have t: "\<not> wbuf_dirty0 t" "wbuf_valid s' 0 = wbuf_valid t 0" "wbuf_adr s' 0 = wbuf_adr t 0"
      using c by (cases "sig_wbuf_write g'"; simp add: tr wb_store_def)+
    have keep: "\<not> sig_wbuf_remove g'"
      using t(1,2) c by (auto simp: t_def lsu_base_def wb_shifted_def wbuf_shift_nth)
    then have ts: "wbuf_valid t 0 = wbuf_valid s 0" "wbuf_adr t 0 = wbuf_adr s 0" "\<not> wbuf_dirty0 s \<or> l_wp_ack i"
      using t(1) by (simp_all add: t_def lsu_base_def)
    have new: "sig_wbuf_entry_new g' = lsu_entry i s" using F(5) keep by simp
    show "l_rd i \<and> (o_ack g' \<or> wbuf_adr s' 0 = lsu_word_adr i \<and> lsu_bsel i AND NOT (wbuf_valid s' 0) \<noteq> 0) \<or> l_wr i \<and> \<not> o_ack g'"
    proof (cases "wbuf_dirty0 s \<and> (l_rd i \<and> FindWbufHit (l_adr i) s = 0 \<or> l_wr i \<and> lsu_entry i s = 0)")
      case False
      with keep F(4) ts(3) have e: "lsu_entry i s = 0" by blast
      with F(6) new False have "sig_wbuf_write g'" by simp
      with e new have "wbuf_dirty0 s'" by (simp add: tr)
      with c show ?thesis by simp
    next
      case True
      then have nw: "\<not> sig_wbuf_write g'" using F(6) by blast
      show ?thesis
      proof (cases "l_wr i")
        case True
        then have "o_ack g' = sig_wbuf_write g'" using assms(1) F(14) by (simp add: lsu_proto_def lsu_cache_op_def)
        with True nw show ?thesis by simp
      next
        case False
        with True have rd: "l_rd i" "FindWbufHit (l_adr i) s = 0" by simp_all
        have "o_ack g'" if "lsu_bsel i AND NOT (wbuf_valid s 0) = 0"
          using that rd F(14) assms(1) by (simp add: lsu_served_def lsu_proto_def lsu_cache_op_def)
        with rd show ?thesis using t ts FindWbufHit_0 [of "l_adr i" s] by auto
      qed
    qed
  qed
qed

definition slot0_ok :: "lsu_in \<Rightarrow> lsu \<Rightarrow> bool" where
  "slot0_ok i s \<longleftrightarrow> \<not> (\<not> wbuf_dirty0 s \<and> l_rd i \<and> FindWbufHit (l_adr i) s = 0 \<and> lsu_served i s)"

lemma slot0_kept_ok:
  assumes "lsu_proto i0" "lsu_proto i" "slot0_kept i0 st s" "lsu_held i0 (lsu_ack i0 st) i"
  shows "slot0_ok i s"
proof (unfold slot0_ok_def, intro notI)
  assume h: "\<not> wbuf_dirty0 s \<and> l_rd i \<and> FindWbufHit (l_adr i) s = 0 \<and> lsu_served i s"
  then have s0: "wbuf_valid s 0 \<noteq> 0" "lsu_bsel i AND NOT (wbuf_valid s 0) = 0"
    using FindWbufHit_0 [of "l_adr i" s] by (auto simp: lsu_served_def)
  from assms(3) h s0(1) consider "l_rd i0" "lsu_ack i0 st"
    | "l_rd i0" "\<not> lsu_ack i0 st" "lsu_bsel i0 AND NOT (wbuf_valid s 0) \<noteq> 0" | "l_wr i0" "\<not> lsu_ack i0 st"
    unfolding slot0_kept_def by blast
  then show False
  proof cases
    case 1 with assms(4) h show ?thesis by (simp add: lsu_held_def)
  next
    case 2
    with assms(4) have "lsu_same i0 i" by (simp add: lsu_held_def)
    then have "lsu_bsel i = lsu_bsel i0"
      using assms(1,2) h 2(1) by (simp add: lsu_bsel_def lsu_same_def lsu_proto_def)
    with 2(3) s0(2) show ?thesis by simp
  next
    case 3
    with assms(1) have "\<not> l_rd i0" by (simp add: lsu_proto_def)
    with 3 assms(2,4) h show ?thesis by (simp add: lsu_held_def lsu_proto_def)
  qed
qed

lemma lsu_load:
  assumes "wb_inv s M" "lsu_proto i" "slot0_ok i s" "lsu_reads i (s, g, M) i'" "lsu_same i i'"
    and "l_rd i" "lsu_ack i (s, g, M)"
  shows "lsu_rdata i' (lsu_clock i (s, g, M)) = lsu_format (l_width i) (l_exts i) (l_adr i) (lsu_view s M (lsu_word_adr i))"
proof -
  have mis: "\<not> lsu_misaligned i" using assms(2) by (simp add: lsu_proto_def)
  then have mis': "\<not> lsu_misaligned i'" using assms(5) by (simp add: lsu_misaligned_def lsu_same_def)
  define g' where "g' = lsu_output i s g"
  define s' where "s' = lsu_transition i g' s"
  define M' where "M' = lsu_commit i g' M"
  define a where "a = lsu_word_adr i"
  note F = lsu_output_fields [OF mis g'_def refl]
  note C = lsu_cycle [OF assms(1,2) g'_def s'_def M'_def]
  have nowr: "\<not> l_wr i" "\<not> lsu_cache_op i" using assms(2,6) by (simp_all add: lsu_proto_def lsu_cache_op_def)
  then have e: "lsu_entry i s = - 1" by (simp add: lsu_entry_def lsu_cache_op_def)
  then have "\<not> sig_wbuf_write g'" using F(5,6) by simp
  then have s': "wbuf_valid s' = wbuf_valid (lsu_base i g' s)" "wbuf_adr s' = wbuf_adr (lsu_base i g' s)" "wbuf_data s' = wbuf_data (lsu_base i g' s)"
    by (simp_all add: s'_def lsu_transition_base)
  have view: "lsu_view s M a = wb_over s' a (M' a)" using C(2) nowr(1) by (simp add: lsu_view_def fun_eq_iff)
  have clk: "lsu_clock i (s, g, M) = (s', g', M')" by (simp add: lsu_clock_def g'_def s'_def M'_def Let_def)
  have rdata: "lsu_rdata i' (lsu_clock i (s, g, M)) = lsu_format (l_width i) (l_exts i) (l_adr i) (wb_over s' a (l_rp_data i'))"
    using lsu_output_fields(7) [OF mis' refl refl, of s' g'] lsu_word_over [OF C(1)] assms(5)
    by (simp add: lsu_rdata_def clk lsu_same_def a_def)
  have ack: "lsu_served i s \<or> l_rp_ack i" using assms(6,7) nowr F(14) e
    by (simp add: lsu_ack_def flip: g'_def) (use \<open>\<not> sig_wbuf_write g'\<close> assms(2) in \<open>simp add: lsu_proto_def\<close>)
  have agree: "lanes_agree (lsu_bsel i) (wb_over s' a (l_rp_data i')) (wb_over s' a (M' a))"
  proof (cases "lsu_served i s")
    case True
    obtain n where n: "FindWbufHit (l_adr i) s = int n" "n < 4" "wbuf_adr s n = a" "wbuf_valid s n \<noteq> 0" "lsu_bsel i AND NOT (wbuf_valid s n) = 0"
    proof (rule wbuf_search_cases [of "\<lambda>n. wbuf_adr s n = a \<and> wbuf_valid s n \<noteq> 0"])
      assume "wbuf_search (\<lambda>n. wbuf_adr s n = a \<and> wbuf_valid s n \<noteq> 0) = - 1"
      with True show ?thesis by (simp add: lsu_served_def FindWbufHit_def a_def)
    next
      fix n
      assume "wbuf_search (\<lambda>n. wbuf_adr s n = a \<and> wbuf_valid s n \<noteq> 0) = int n" "n < 4" "wbuf_adr s n = a \<and> wbuf_valid s n \<noteq> 0"
      with True that show ?thesis by (simp add: lsu_served_def FindWbufHit_def a_def)
    qed
    have "\<exists>m < 4. wbuf_adr s' m = a \<and> wbuf_valid s' m = wbuf_valid s n \<and> wbuf_data s' m = wbuf_data s n"
    proof (cases "sig_wbuf_remove g'")
      case False
      with n show ?thesis by (intro exI [of _ n]) (simp add: s' lsu_base_def)
    next
      case rm: True
      have "n \<noteq> 0"
      proof
        assume "n = 0"
        with n(1) have h: "FindWbufHit (l_adr i) s = 0" by simp
        with rm F(4) assms(6) have "\<not> wbuf_dirty0 s" by blast
        with assms(3,6) h True show False by (simp add: slot0_ok_def)
      qed
      then obtain k where "n = Suc k" by (cases n) simp_all
      with n rm show ?thesis by (intro exI [of _ k]) (simp add: s' lsu_base_def wb_shifted_sels)
    qed
    then obtain m where "m < 4" "wbuf_adr s' m = a" "wbuf_valid s' m = wbuf_valid s n" by blast
    then show ?thesis using wb_over_hit [OF C(1)] n(4,5) by (simp add: lanes_agree_covered)
  next
    case False
    then have "o_rp_rd g' \<and> l_rp_ack i" using F(8) ack assms(6) by simp
    moreover have "o_rp_bsel g' = lsu_bsel i" using mis by (simp add: g'_def lsu_output_def Let_def)
    ultimately have "lanes_agree (lsu_bsel i) (l_rp_data i') (M a) \<or> lanes_agree (lsu_bsel i) (l_rp_data i') (M' a)"
      using assms(4) F(9) by (simp add: lsu_reads_def clk a_def)
    moreover have "wb_over s' a (M a) = wb_over s' a (M' a)"
    proof (cases "M' a = M a")
      case ne: False
      have M': "M' a = (if wbuf_dirty0 s \<and> l_wp_ack i then wb_apply s a 0 (M a) else M a)"
        unfolding M'_def by (rule lsu_commit_apply [OF assms(1,2) g'_def])
      with ne have d: "wbuf_dirty0 s" "wbuf_adr s 0 = a" "wbuf_valid s 0 \<noteq> 0" "M' a = wb_apply s a 0 (M a)"
        by (auto simp: wb_apply_hit split: if_splits)
      then have "FindWbufHit (l_adr i) s = 0" by (simp add: FindWbufHit_0 a_def)
      then have "\<not> sig_wbuf_remove g'" using F(4) d(1) assms(6) by blast
      then have "wb_over s' b x = wb_over s b x" for b x by (intro wb_over_cong) (simp_all add: s' lsu_base_def)
      then show ?thesis by (simp add: wb_over_def d(4) wb_apply_idem)
    qed simp
    ultimately show ?thesis using wb_over_agree by metis
  qed
  show ?thesis unfolding rdata using lsu_format_agree [OF assms(2) nowr(2) agree] view by (simp add: a_def)
qed

section \<open>Whole runs\<close>

lemma lsu_cycle_view:
  assumes "wb_inv s M" "lsu_proto i" "lsu_clock i (s, g, M) = (s', g', M')"
  shows "wb_inv s' M'"
    and "lsu_view s' M' = (if l_wr i \<and> lsu_ack i (s, g, M) then word_store i (lsu_view s M) else lsu_view s M)"
proof -
  have eq: "g' = lsu_output i s g" "s' = lsu_transition i g' s" "M' = lsu_commit i g' M"
    using assms(3) by (simp_all add: lsu_clock_def Let_def) blast+
  have "lsu_ack i (s, g, M) = o_ack g'" by (simp add: lsu_ack_def eq(1))
  then show "wb_inv s' M'"
    and "lsu_view s' M' = (if l_wr i \<and> lsu_ack i (s, g, M) then word_store i (lsu_view s M) else lsu_view s M)"
    using lsu_cycle [OF assms(1,2) eq] by (simp_all add: word_store_def)
qed

lemma word_store_idle: "\<not> l_wr i \<Longrightarrow> word_store i V = V"
  by (simp add: word_store_def)

text \<open>The unit is a buffered memory, so the overlaid memory after a run is the plain memory after the acknowledged stores.\<close>

definition lsu_sys_inv :: "lsu_sys \<Rightarrow> bool" where
  "lsu_sys_inv st \<longleftrightarrow> wb_inv (fst st) (snd (snd st))"

definition lsu_sys_view :: "lsu_sys \<Rightarrow> u32 \<Rightarrow> u32" where
  "lsu_sys_view st = lsu_view (fst st) (snd (snd st))"

definition lsu_accepts :: "lsu_in \<Rightarrow> lsu_sys \<Rightarrow> bool" where
  "lsu_accepts i st \<longleftrightarrow> (l_rd i \<or> l_wr i) \<and> lsu_ack i st"

interpretation wbuf: buffered_memory lsu_sys_inv lsu_sys_view lsu_clock lsu_proto lsu_accepts word_store
proof
  fix st i
  assume inv: "lsu_sys_inv st" "lsu_proto i"
  obtain s g M where st: "st = (s, g, M)" by (cases st) auto
  obtain s' g' M' where c: "lsu_clock i (s, g, M) = (s', g', M')" by (cases "lsu_clock i (s, g, M)") simp
  have "wb_inv s M" using inv(1) by (simp add: lsu_sys_inv_def st)
  note V = lsu_cycle_view [OF this inv(2) c]
  show "lsu_sys_inv (lsu_clock i st)" using V(1) by (simp add: lsu_sys_inv_def st c)
  show "lsu_sys_view (lsu_clock i st) = (if lsu_accepts i st then word_store i (lsu_sys_view st) else lsu_sys_view st)"
    using V(2) by (auto simp: lsu_sys_view_def lsu_accepts_def st c word_store_idle)
qed

lemma lsu_accesses_accepted: "lsu_accesses is st = accepted lsu_accepts lsu_clock is st"
  by (induction "is" arbitrary: st) (simp_all add: lsu_accepts_def)

lemma lsu_run_view:
  assumes "wb_inv s M" "list_all lsu_proto is" "fold lsu_clock is (s, g, M) = (s', g', M')"
  shows "wb_inv s' M' \<and> lsu_view s' M' = fold word_store (lsu_accesses is (s, g, M)) (lsu_view s M)"
  using wbuf.run_view [of "(s, g, M)" "is"] assms
  by (simp add: lsu_sys_inv_def lsu_sys_view_def lsu_accesses_accepted)

lemma lsu_obeys_proto: "lsu_obeys is st \<Longrightarrow> list_all lsu_proto is"
  by (induction "is" st rule: lsu_obeys.induct) simp_all

lemma lsu_run_loads:
  assumes "wb_inv s M" "lsu_obeys is (s, g, M)" "is = [] \<or> \<not> l_rd (last is) \<and> slot0_ok (hd is) s"
  shows "lsu_loads is (s, g, M) = mem_loads (lsu_accesses is (s, g, M)) (lsu_view s M)"
  using assms
proof (induction "is" arbitrary: s g M rule: induct_list012)
  case (2 i)
  then show ?case by simp
next
  case (3 i i' "is")
  let ?st = "(s, g, M)"
  obtain s1 g1 M1 where st1: "lsu_clock i ?st = (s1, g1, M1)" by (cases "lsu_clock i ?st") simp
  have p: "lsu_proto i" "lsu_held i (lsu_ack i ?st) i'" "lsu_reads i ?st i'" "lsu_obeys (i' # is) (s1, g1, M1)"
    using 3(4) st1 by simp_all
  have p': "lsu_proto i'" using lsu_obeys_proto [OF p(4)] by simp
  note V = lsu_cycle_view [OF 3(3) p(1) st1]
  have "slot0_kept i ?st s1" using slot0_kept_step [OF p(1) refl, of s g M] st1 by simp
  then have ok: "slot0_ok i' s1" using slot0_kept_ok [OF p(1) p'] p(2) by blast
  have IH: "lsu_loads (i' # is) (s1, g1, M1) = mem_loads (lsu_accesses (i' # is) (s1, g1, M1)) (lsu_view s1 M1)"
    by (rule 3(2)) (use V(1) p(4) ok 3(5) in simp_all)
  show ?case
  proof (cases "l_rd i \<and> lsu_ack i ?st")
    case True
    then have "lsu_same i i'" "\<not> l_wr i" using p(1,2) by (simp_all add: lsu_held_def lsu_proto_def)
    moreover have "slot0_ok i s" using 3(5) by simp
    ultimately have "lsu_rdata i' (s1, g1, M1) = lsu_format (l_width i) (l_exts i) (l_adr i) (lsu_view s M (lsu_word_adr i))"
      using lsu_load [OF 3(3) p(1) _ p(3)] True st1 by metis
    with True \<open>\<not> l_wr i\<close> V(2) show ?thesis
      by (simp add: st1 IH word_store_idle del: lsu_loads.simps(2) lsu_accesses.simps) (simp add: st1 IH word_store_idle)
  next
    case False
    then show ?thesis using V(2) IH by (auto simp: st1)
  qed
qed simp

lemma wb_inv_reset: "wb_inv (lsu_reset s) M"
  by (simp add: wb_inv_def lsu_reset_def wb_apply_def)

lemma lsu_view_reset: "lsu_view (lsu_reset s) M = M"
  by (simp add: lsu_view_def fun_eq_iff wb_over_def wb_apply_def lsu_reset_def)

lemma slot0_ok_reset: "slot0_ok i (lsu_reset s)"
  by (simp add: slot0_ok_def FindWbufHit_0 lsu_reset_def)

text \<open>Flushing: every acknowledged write takes an entry out of the buffer.\<close>

definition wb_count :: "lsu \<Rightarrow> nat" where
  "wb_count s = length (filter (\<lambda>n. wbuf_valid s n \<noteq> 0) [0, 1, 2, 3])"

lemma wb_count_0: "wb_count s = 0 \<longleftrightarrow> IsFlushed s"
  by (simp add: wb_count_def IsFlushed_iff all_less_4)

lemma wb_count_shifted: "wb_shape s \<Longrightarrow> wb_count (wb_shifted s) = wb_count s - 1"
  using wb_shape_empty [of s 0] by (simp add: wb_count_def wb_shifted_def wbuf_shift_nth)

lemma lsu_flush_step:
  assumes "wb_inv s M" "lsu_proto i" "l_flush i" "lsu_clock i (s, g, M) = (s', g', M')"
  shows "wb_count s' \<le> wb_count s - (if l_wp_ack i then 1 else 0)"
proof -
  have mis: "\<not> lsu_misaligned i" using assms(2) by (simp add: lsu_proto_def)
  have g': "g' = lsu_output i s g" and s': "s' = lsu_transition i g' s"
    using assms(4) by (simp_all add: lsu_clock_def Let_def) blast
  note F = lsu_output_fields [OF mis g' refl]
  have off: "\<not> l_rd i" "\<not> l_wr i" "\<not> lsu_cache_op i" using assms(2,3) by (simp_all add: lsu_proto_def lsu_cache_op_def)
  then have e: "lsu_entry i s = - 1" by (simp add: lsu_entry_def lsu_cache_op_def)
  then have "\<not> sig_wbuf_write g'" using F(5,6) by simp
  then have c: "wb_count s' = wb_count (lsu_base i g' s)" by (simp add: s' lsu_transition_base wb_count_def)
  show ?thesis
  proof (cases "sig_wbuf_remove g'")
    case True
    then show ?thesis using wb_count_shifted [of s] assms(1) by (simp add: c lsu_base_def wb_inv_parts)
  next
    case False
    with F(4) off e have "\<not> l_wp_ack i" by simp
    have "wb_count (lsu_base i g' s) = wb_count s" using False by (simp add: lsu_base_def wb_count_def)
    with \<open>\<not> l_wp_ack i\<close> show ?thesis by (simp add: c)
  qed
qed

lemma lsu_flush_run:
  assumes "wb_inv s M" "list_all lsu_proto is" "list_all l_flush is" "fold lsu_clock is (s, g, M) = (s', g', M')"
  shows "wb_count s' \<le> wb_count s - length (filter l_wp_ack is)"
  using assms
proof (induction "is" arbitrary: s g M)
  case (Cons i "is")
  obtain s1 g1 M1 where st1: "lsu_clock i (s, g, M) = (s1, g1, M1)" by (cases "lsu_clock i (s, g, M)") simp
  have p: "lsu_proto i" "list_all lsu_proto is" "l_flush i" "list_all l_flush is" using Cons.prems(2,3) by simp_all
  have "wb_count s' \<le> wb_count s1 - length (filter l_wp_ack is)"
    using Cons.IH [OF lsu_cycle_view(1) [OF Cons.prems(1) p(1) st1] p(2,4)] Cons.prems(4) st1 by simp
  with lsu_flush_step [OF Cons.prems(1) p(1,3) st1] show ?case by (cases "l_wp_ack i") simp_all
qed simp

lemma wb_count_le: "wb_count s \<le> 4"
  using length_filter_le [of "\<lambda>n. wbuf_valid s n \<noteq> 0" "[0, 1, 2, 3 :: nat]"] unfolding wb_count_def by simp

lemma lsu_accesses_append: "lsu_accesses (xs @ ys) st = lsu_accesses xs st @ lsu_accesses ys (fold lsu_clock xs st)"
  by (induction xs arbitrary: st) simp_all

lemma lsu_accesses_flush: "list_all lsu_proto is \<Longrightarrow> list_all l_flush is \<Longrightarrow> lsu_accesses is st = []"
  by (induction "is" arbitrary: st) (auto simp: lsu_proto_def)

lemma flushed_view: "IsFlushed s \<Longrightarrow> lsu_view s M = M"
  by (simp add: lsu_view_def fun_eq_iff wb_over_def wb_apply_empty IsFlushed_iff)

section \<open>Properties\<close>

definition lsu_idle :: lsu_in where
  "lsu_idle = \<lparr>l_rd = False, l_wr = False, l_flush = False, l_writeback = False, l_invalidate = False, l_rlink_wcond = False,
     l_width = 0, l_exts = False, l_adr = 0, l_wdata = 0, l_rp_ack = False, l_rp_data = 0, l_wp_ack = False, l_wp_wcond_ok = False, l_undef = 0\<rparr>"

definition lsu_sigs0 :: lsu_sigs where
  "lsu_sigs0 = \<lparr>o_ack = False, o_align_err = False, o_wcond_ok = False, o_rdata = 0, o_rp_rd = False, o_rp_bsel = 0, o_rp_adr = 0,
     o_wp_wr = False, o_wp_bsel = 0, o_wp_rlink_wcond = False, o_wp_writeback = False, o_wp_invalidate = False, o_wp_adr = 0, o_wp_data = 0,
     sig_wbdata = 0, sig_wbbsel = 0, sig_wbuf_entry = - 1, sig_wbuf_entry_new = - 1, sig_wbuf_remove = False, sig_wbuf_write = False, o_abort = False\<rparr>"

definition lsu_power_up :: lsu where
  "lsu_power_up = \<lparr>wbuf_adr = (\<lambda>n. 0), wbuf_data = (\<lambda>n. 0), wbuf_valid = (\<lambda>n. 0), wbuf_dirty0 = False, data_var = 0\<rparr>"

text \<open>A byte store, a load of the word around it, which the buffer has only in part, and of the byte itself.\<close>

definition ex_lsu_run :: "lsu_in list" where
  "ex_lsu_run =
     [lsu_idle\<lparr>l_wr := True, l_width := 1, l_adr := 0x1001, l_wdata := 0xab\<rparr>,
      lsu_idle\<lparr>l_rd := True, l_adr := 0x1000\<rparr>,
      lsu_idle\<lparr>l_rd := True, l_adr := 0x1000, l_rp_ack := True, l_wp_ack := True\<rparr>,
      lsu_idle\<lparr>l_adr := 0x1000, l_rp_data := 0x11223344\<rparr>,
      lsu_idle\<lparr>l_wr := True, l_width := 1, l_adr := 0x1002, l_wdata := 0x80\<rparr>,
      lsu_idle\<lparr>l_rd := True, l_width := 1, l_exts := True, l_adr := 0x1002\<rparr>,
      lsu_idle\<lparr>l_width := 1, l_exts := True, l_adr := 0x1002\<rparr>]"

definition ex_lsu_mem :: "u32 \<Rightarrow> u32" where
  "ex_lsu_mem a = (if a = 0x1000 then 0x11223344 else 0)"

lemma ex_lsu_obeys: "lsu_obeys ex_lsu_run (lsu_reset lsu_power_up, lsu_sigs0, ex_lsu_mem)"
  by code_simp

text \<open>
  C17.  Loads see the stores before them: however the memory paces its acknowledgements, and whether a load is served by the
  write buffer, by the memory or by both, the values the execution unit gets in a run are those of a plain memory
  on which the acknowledged requests are done one after the other.
\<close>

theorem lsu_loads_sequential:
  assumes "lsu_obeys is (lsu_reset s, g, M)" "is = [] \<or> \<not> l_rd (last is)"
  shows "lsu_loads is (lsu_reset s, g, M) = mem_loads (lsu_accesses is (lsu_reset s, g, M)) M"
  using lsu_run_loads [OF wb_inv_reset assms(1)] assms(2) slot0_ok_reset by (simp add: lsu_view_reset)

theorem lsu_loads_sequential_witness:
  "lsu_loads ex_lsu_run (lsu_reset lsu_power_up, lsu_sigs0, ex_lsu_mem)
     = mem_loads (lsu_accesses ex_lsu_run (lsu_reset lsu_power_up, lsu_sigs0, ex_lsu_mem)) ex_lsu_mem
   \<and> lsu_loads ex_lsu_run (lsu_reset lsu_power_up, lsu_sigs0, ex_lsu_mem) = [0x11ab3344, 0xffffff80]"
proof
  show "lsu_loads ex_lsu_run (lsu_reset lsu_power_up, lsu_sigs0, ex_lsu_mem)
     = mem_loads (lsu_accesses ex_lsu_run (lsu_reset lsu_power_up, lsu_sigs0, ex_lsu_mem)) ex_lsu_mem"
    by (rule lsu_loads_sequential [OF ex_lsu_obeys]) (simp add: ex_lsu_run_def lsu_idle_def)
  show "lsu_loads ex_lsu_run (lsu_reset lsu_power_up, lsu_sigs0, ex_lsu_mem) = [0x11ab3344, 0xffffff80]" by code_simp
qed

text \<open>
  C28.  A flush ends and leaves nothing behind: after any requests from reset, when \<open>flush\<close> is held and the memory has
  acknowledged four writes, the unit acknowledges the flush, and the memory is what the acknowledged stores, each in its
  bytes and in their order, make of the memory at reset.
\<close>

theorem lsu_flush_drains:
  assumes "list_all lsu_proto (rs @ fs)" "list_all l_flush fs" "4 \<le> length (filter l_wp_ack fs)"
    and "fold lsu_clock (rs @ fs) (lsu_reset s, g, M) = (s', g', M')" "l_flush i" "lsu_proto i"
  shows "lsu_ack i (s', g', M') \<and> M' = fold word_store (lsu_accesses rs (lsu_reset s, g, M)) M"
proof -
  obtain s1 g1 M1 where st1: "fold lsu_clock rs (lsu_reset s, g, M) = (s1, g1, M1)"
    by (cases "fold lsu_clock rs (lsu_reset s, g, M)") simp
  have p: "list_all lsu_proto rs" "list_all lsu_proto fs" using assms(1) by simp_all
  have end_fs: "fold lsu_clock fs (s1, g1, M1) = (s', g', M')" using assms(4) st1 by simp
  have "wb_inv s1 M1" using lsu_run_view [OF wb_inv_reset p(1) st1] by simp
  from lsu_flush_run [OF this p(2) assms(2) end_fs] have "wb_count s' = 0"
    using assms(3) wb_count_le [of s1] by linarith
  then have fl: "IsFlushed s'" by (simp add: wb_count_0)
  have "lsu_view s' M' = fold word_store (lsu_accesses (rs @ fs) (lsu_reset s, g, M)) M"
    using lsu_run_view [OF wb_inv_reset assms(1,4)] by (simp add: lsu_view_reset)
  then have "M' = fold word_store (lsu_accesses rs (lsu_reset s, g, M)) M"
    using fl p(2) assms(2) by (simp add: flushed_view lsu_accesses_append lsu_accesses_flush)
  moreover have "lsu_ack i (s', g', M')"
    using lsu_output_fields(14) [OF _ refl refl, of i s' g'] assms(5,6) fl
    by (simp add: lsu_ack_def lsu_proto_def lsu_cache_op_def)
  ultimately show ?thesis by simp
qed

theorem lsu_flush_drains_witness:
  "lsu_ack (lsu_idle\<lparr>l_flush := True\<rparr>) (fold lsu_clock (ex_lsu_run @ replicate 4 (lsu_idle\<lparr>l_flush := True, l_wp_ack := True\<rparr>))
       (lsu_reset lsu_power_up, lsu_sigs0, ex_lsu_mem))
   \<and> snd (snd (fold lsu_clock (ex_lsu_run @ replicate 4 (lsu_idle\<lparr>l_flush := True, l_wp_ack := True\<rparr>))
       (lsu_reset lsu_power_up, lsu_sigs0, ex_lsu_mem))) 0x1000 = 0x11ab8044"
proof -
  let ?st = "(lsu_reset lsu_power_up, lsu_sigs0, ex_lsu_mem)" and ?fs = "replicate 4 (lsu_idle\<lparr>l_flush := True, l_wp_ack := True\<rparr>)"
  obtain s' g' M' where run: "fold lsu_clock (ex_lsu_run @ ?fs) ?st = (s', g', M')" by (metis prod_cases3)
  have "lsu_ack (lsu_idle\<lparr>l_flush := True\<rparr>) (s', g', M') \<and> M' = fold word_store (lsu_accesses ex_lsu_run ?st) ex_lsu_mem"
    by (rule lsu_flush_drains [OF _ _ _ run])
      (code_simp, simp_all add: lsu_idle_def list_all_iff lsu_proto_def lsu_misaligned_def)
  moreover have "fold word_store (lsu_accesses ex_lsu_run ?st) ex_lsu_mem 0x1000 = 0x11ab8044" by code_simp
  ultimately show ?thesis unfolding run snd_conv by metis
qed

text \<open>
  What the unit does not do.  A cache write-back or invalidation is acknowledged in its first cycle, once the buffer is
  empty, although the memory has not done it; a half word at an odd address, or a word at one, is never acknowledged; a word at
  address 2 modulo 4 is not recognised as misaligned, and is taken at the word address below.
\<close>

lemma lsu_unchecked_requests:
  "(lsu_proto i \<and> lsu_cache_op i \<and> IsFlushed s \<and> \<not> l_wp_ack i \<longrightarrow> o_ack (lsu_output i s g))
   \<and> ((l_width i = 0 \<or> l_width i = 2) \<and> l_adr i AND 1 \<noteq> 0 \<longrightarrow>
        \<not> o_ack (lsu_output i s g) \<and> o_align_err (lsu_output i s g) \<and> \<not> o_rp_rd (lsu_output i s g))
   \<and> (l_width i = 0 \<and> l_adr i AND 3 = 2 \<longrightarrow>
        \<not> o_align_err (lsu_output i s g) \<and> lsu_output i s g = lsu_output (i\<lparr>l_adr := l_adr i AND NOT 3\<rparr>) s g)"
proof (intro conjI impI)
  assume h: "lsu_proto i \<and> lsu_cache_op i \<and> IsFlushed s \<and> \<not> l_wp_ack i"
  then have mis: "\<not> lsu_misaligned i" by (simp add: lsu_proto_def)
  have e: "lsu_entry i s = 0" using h by (simp add: lsu_entry_def lsu_cache_op_def)
  have off: "\<not> l_rd i" "\<not> l_wr i" using h by (auto simp: lsu_proto_def lsu_cache_op_def)
  note F = lsu_output_fields [OF mis refl refl, of s g]
  have "\<not> sig_wbuf_remove (lsu_output i s g)" using F(4) e by simp
  then have "sig_wbuf_write (lsu_output i s g)" using F(5,6) e off by simp
  then show "o_ack (lsu_output i s g)" using F(14) by simp
next
  assume h: "(l_width i = 0 \<or> l_width i = 2) \<and> l_adr i AND 1 \<noteq> 0"
  then have "lsu_misaligned i" by (simp add: lsu_misaligned_def)
  then show "\<not> o_ack (lsu_output i s g)" and "o_align_err (lsu_output i s g)" and "\<not> o_rp_rd (lsu_output i s g)"
    by (simp_all add: lsu_output_def Let_def)
next
  assume h: "l_width i = 0 \<and> l_adr i AND 3 = 2"
  define b where "b = l_adr i AND NOT 3"
  let ?j = "i\<lparr>l_adr := b\<rparr>"
  have "l_adr i AND 1 = (l_adr i AND 3) AND 1" by (simp add: and.assoc)
  then have mis: "\<not> lsu_misaligned i" using h by (simp add: lsu_misaligned_def)
  then show "\<not> o_align_err (lsu_output i s g)" by (simp add: lsu_output_def Let_def)
  have "b AND 1 = 0" by (simp add: b_def and.assoc)
  then have mis': "\<not> lsu_misaligned ?j" by (simp add: lsu_misaligned_def)
  have word: "b AND NOT 3 = l_adr i AND NOT 3" by (simp add: b_def and.assoc)
  then have hit: "FindWbufHit b s = FindWbufHit (l_adr i) s" by (simp only: FindWbufHit_def)
  have special: "AdrIsSpecial b = AdrIsSpecial (l_adr i)" by (simp add: AdrIsSpecial_def b_def and.assoc)
  have sel: "lsu_bsel ?j = lsu_bsel i" "lsu_wbdata ?j = lsu_wbdata i" "lsu_word b w s = lsu_word (l_adr i) w s"
    "lsu_format 0 x b w = lsu_format 0 x (l_adr i) w" for w x
    using h by (simp_all add: lsu_bsel_def lsu_wbdata_def lsu_word_def lsu_format_def hit)
  have "lsu_served ?j s = lsu_served i s" "lsu_entry ?j s = lsu_entry i s"
    by (simp_all add: lsu_served_def lsu_entry_def sel hit special)
  moreover have "b AND - 4 = l_adr i AND - 4" using word by simp
  ultimately show "lsu_output i s g = lsu_output (i\<lparr>l_adr := l_adr i AND NOT 3\<rparr>) s g"
    using mis mis' h unfolding b_def [symmetric] by (simp add: lsu_output_def Let_def word sel hit special split del: if_split cong del: if_weak_cong)
qed

lemma lsu_unchecked_requests_witness:
  "o_ack (lsu_output (lsu_idle\<lparr>l_invalidate := True\<rparr>) lsu_power_up lsu_sigs0)
   \<and> \<not> o_ack (lsu_output (lsu_idle\<lparr>l_rd := True, l_width := 2, l_adr := 0x1003, l_rp_ack := True\<rparr>) lsu_power_up lsu_sigs0)
   \<and> \<not> o_align_err (lsu_output (lsu_idle\<lparr>l_rd := True, l_adr := 0x1002\<rparr>) lsu_power_up lsu_sigs0)"
proof -
  have p: "lsu_proto (lsu_idle\<lparr>l_invalidate := True\<rparr>) \<and> lsu_cache_op (lsu_idle\<lparr>l_invalidate := True\<rparr>) \<and> IsFlushed lsu_power_up
      \<and> \<not> l_wp_ack (lsu_idle\<lparr>l_invalidate := True\<rparr>)" by code_simp
  have h: "(l_width (lsu_idle\<lparr>l_rd := True, l_width := 2, l_adr := 0x1003, l_rp_ack := True\<rparr>) = 0
       \<or> l_width (lsu_idle\<lparr>l_rd := True, l_width := 2, l_adr := 0x1003, l_rp_ack := True\<rparr>) = 2)
      \<and> l_adr (lsu_idle\<lparr>l_rd := True, l_width := 2, l_adr := 0x1003, l_rp_ack := True\<rparr>) AND 1 \<noteq> 0" by code_simp
  have w: "l_width (lsu_idle\<lparr>l_rd := True, l_adr := 0x1002\<rparr>) = 0 \<and> l_adr (lsu_idle\<lparr>l_rd := True, l_adr := 0x1002\<rparr>) AND 3 = 2" by code_simp
  show ?thesis using p h w lsu_unchecked_requests by blast
qed

end
