(* ===== verification/PnCore.thy ===== *)
theory PnCore
  imports PnOr1k PnIfu PnLsuSeq
begin

text \<open>
  One ParaNut core: the execution unit between the fetch unit and the load/store unit, wired as in \<open>src/sysc/paranut.cpp\<close>.
  The units trust each other: the fetch unit and the load/store unit are correct when the execution unit keeps their
  protocols, which it does in every reachable state.
\<close>

section \<open>What the execution unit keeps\<close>

text \<open>Requests to the other units are made at the places of the thread that wait for their answer, and only there.\<close>

definition exu_inv :: "exu \<Rightarrow> bool" where
  "exu_inv s \<longleftrightarrow>
     (x_rd s \<longleftrightarrow> x_loc s = L_load_ack)
     \<and> (x_wr s \<longleftrightarrow> x_loc s = L_store_ack \<or> x_loc s = L_sc_ack)
     \<and> (x_flush s \<longleftrightarrow> x_loc s = L_flush_ack)
     \<and> (x_invalidate s \<or> x_writeback s \<longrightarrow> x_loc s = L_cache_ack)
     \<and> (x_next s \<longrightarrow> x_loc s \<in> {L_top, L_load_data, L_jal_next, L_rfe_next, L_except_next})
     \<and> (x_jump s \<longrightarrow> x_loc s \<in> {L_top, L_rfe_next, L_except_next})
     \<and> (exceptId s \<noteq> 0 \<longrightarrow> x_loc s \<in> {L_except_next, L_except_skip, L_abort})
     \<and> (x_loc s = L_exec \<longrightarrow> regFile s 0 = 0)
     \<and> x_width s \<noteq> 3"

text \<open>No request is made and no exception pending.\<close>

definition exu_quiet :: "exu \<Rightarrow> bool" where
  "exu_quiet t \<longleftrightarrow> \<not> x_rd t \<and> \<not> x_wr t \<and> \<not> x_flush t \<and> \<not> x_invalidate t \<and> \<not> x_writeback t \<and> \<not> x_next t \<and> \<not> x_jump t
     \<and> exceptId t = 0 \<and> x_width t \<noteq> 3"

lemma inv_top: "\<not> x_flush t \<Longrightarrow> exceptId t = 0 \<Longrightarrow> x_width t \<noteq> 3 \<Longrightarrow> exu_inv (exu_top t)"
  by (simp add: exu_inv_def exu_top_def)

lemma inv_next: "exu_quiet t \<Longrightarrow> exu_inv (exu_next t)"
  by (simp add: exu_inv_def exu_quiet_def exu_next_def)

lemma inv_delay: "exu_quiet t \<Longrightarrow> exu_inv (exu_delay n t)"
  by (simp add: exu_inv_def exu_quiet_def exu_next_def exu_delay_def)

lemma inv_abort: "exu_quiet t \<Longrightarrow> exu_inv (exu_abort t)"
  by (simp add: exu_inv_def exu_quiet_def exu_abort_def)

text \<open>The end of the body: no exception, or one just raised.\<close>

lemma inv_end: "\<not> x_flush t \<Longrightarrow> exceptId t = 0 \<Longrightarrow> x_width t \<noteq> 3 \<Longrightarrow> exu_inv (exu_end i s t)"
  by (simp add: exu_end_def inv_top)

lemma GetSpr_SR: "GetSpr i s 17 = Some (sr_flags s)"
  by (simp add: GetSpr_def spr_in_def word_le_nat_alt)

lemma inv_except:
  assumes "exu_quiet (t\<lparr>exceptId := 0\<rparr>)" "exceptId t \<noteq> 0"
  shows "exu_inv (exu_end i s t)"
proof -
  have "0 < exceptId t" using assms(2) by (simp add: word_gt_0)
  with assms(1) show ?thesis by (simp add: exu_end_def GetSpr_SR exu_inv_def exu_quiet_def exu_abort_def)
qed

lemma quiet_regs [simp]:
  "exu_quiet (t\<lparr>regFile := a\<rparr>) = exu_quiet t" "exu_quiet (t\<lparr>regCY := b\<rparr>) = exu_quiet t" "exu_quiet (t\<lparr>regOV := b\<rparr>) = exu_quiet t"
  "exu_quiet (t\<lparr>regF := b\<rparr>) = exu_quiet t" "exu_quiet (t\<lparr>x_adr := c\<rparr>) = exu_quiet t" "exu_quiet (t\<lparr>x_rlink_wcond := b\<rparr>) = exu_quiet t"
  "exu_quiet (t\<lparr>x_console := l\<rparr>) = exu_quiet t" "exu_quiet (t\<lparr>exceptRestart := b\<rparr>) = exu_quiet t"
  by (simp_all add: exu_quiet_def)

lemma RunAlu_quiet: "RunAlu i s insn f aSrc bSrc x y z t = Some (n, r, t') \<Longrightarrow> exu_quiet t \<Longrightarrow> exu_quiet t'"
  by (auto simp: RunAlu_def Let_def split: option.splits if_splits)

lemma inv_alu: "exu_quiet t \<Longrightarrow> exu_inv (exu_alu i s f bSrc x y z t)"
  by (auto simp: exu_alu_def split: option.split intro: inv_abort inv_delay RunAlu_quiet)

lemma inv_addr: "exu_quiet t \<Longrightarrow> (\<And>adr. exu_inv (k adr)) \<Longrightarrow> exu_inv (exu_addr i s f aSrc bSrc t k)"
  by (auto simp: exu_addr_def split: option.split intro: inv_abort)

lemma inv_load_wait:
  "exu_quiet (t\<lparr>x_rd := False\<rparr>) \<Longrightarrow> x_rd t \<Longrightarrow> exu_inv (exu_load_wait i t)"
  by (simp add: exu_load_wait_def exu_inv_def exu_quiet_def)

lemma inv_store_wait: "exu_quiet (t\<lparr>x_wr := False\<rparr>) \<Longrightarrow> x_wr t \<Longrightarrow> exu_inv (exu_store_wait i t)"
  by (simp add: exu_store_wait_def exu_next_def exu_inv_def exu_quiet_def)

lemma inv_sc_wait: "exu_quiet (t\<lparr>x_wr := False\<rparr>) \<Longrightarrow> x_wr t \<Longrightarrow> exu_inv (exu_sc_wait i t)"
  by (simp add: exu_sc_wait_def exu_next_def exu_inv_def exu_quiet_def)

lemma inv_flush_wait: "exu_quiet (t\<lparr>x_flush := False\<rparr>) \<Longrightarrow> x_flush t \<Longrightarrow> exu_inv (exu_flush_wait i t)"
  by (simp add: exu_flush_wait_def exu_inv_def exu_quiet_def)

lemma inv_cache_wait: "exu_quiet (t\<lparr>x_invalidate := False, x_writeback := False\<rparr>) \<Longrightarrow> exu_inv (exu_cache_wait i t)"
  by (simp add: exu_cache_wait_def exu_next_def exu_inv_def exu_quiet_def)

lemma SetSpr_quiet: "SetSpr i s r v t = Some t' \<Longrightarrow> exu_quiet t \<Longrightarrow> exu_quiet t'"
  by (auto simp: SetSpr_def exu_quiet_def split: if_splits)

lemma load_width: "(ucast (drop_bit 1 ((opcode - 1) AND 6)) :: 2 word) \<noteq> 3" if "0x21 \<le> opcode \<and> opcode \<le> 0x26" for opcode :: u32
proof -
  have "0x21 \<le> unat opcode" "unat opcode \<le> 0x26" using that by (simp_all add: word_le_nat_alt)
  then have "unat opcode = 0x21 \<or> unat opcode = 0x22 \<or> unat opcode = 0x23 \<or> unat opcode = 0x24 \<or> unat opcode = 0x25 \<or> unat opcode = 0x26"
    by linarith
  then have "opcode = 0x21 \<or> opcode = 0x22 \<or> opcode = 0x23 \<or> opcode = 0x24 \<or> opcode = 0x25 \<or> opcode = 0x26"
    by (simp add: word_unat_eq_iff)
  then show ?thesis by (elim disjE) simp_all
qed

lemma store_width: "(ucast ((opcode - 1) AND 3) :: 2 word) \<noteq> 3" if "0x35 \<le> opcode \<and> opcode \<le> 0x37" for opcode :: u32
proof -
  have "0x35 \<le> unat opcode" "unat opcode \<le> 0x37" using that by (simp_all add: word_le_nat_alt)
  then have "unat opcode = 0x35 \<or> unat opcode = 0x36 \<or> unat opcode = 0x37" by linarith
  then have "opcode = 0x35 \<or> opcode = 0x36 \<or> opcode = 0x37" by (simp add: word_unat_eq_iff)
  then show ?thesis by (elim disjE) simp_all
qed

lemma inv_go: "exu_quiet t \<Longrightarrow> exu_inv (t\<lparr>x_jump_adr := a, nextInDelaySlot := True, x_next := True, x_loc := L_jal_next\<rparr>)"
    "exu_quiet t \<Longrightarrow> exu_inv (t\<lparr>x_jump_adr := a, nextInDelaySlot := True, x_jump := True, x_next := True, x_loc := L_top\<rparr>)"
  by (simp_all add: exu_inv_def exu_quiet_def)

lemma inv_jump: "exu_quiet t \<Longrightarrow> exu_inv (exu_jump i s opcode t)"
  by (simp add: exu_jump_def Let_def inv_addr inv_next inv_go)

lemma inv_nop: "exu_quiet t \<Longrightarrow> exu_inv (exu_nop s t)"
  unfolding exu_nop_def Let_def by (auto intro: inv_next) (simp add: exu_inv_def exu_quiet_def)

lemma SetSpr_SR: "SetSpr i s 17 v t = Some (t\<lparr>regSUMRA := bit v 16, regOV := bit v 11, regCY := bit v 10, regF := bit v 9,
     regICE := bit v 4, regDCE := bit v 3, regIEE := bit v 2\<rparr>)"
  by (simp add: SetSpr_def spr_in_def word_le_nat_alt)

lemma inv_rfe: "exu_quiet t \<Longrightarrow> exu_inv (exu_rfe i s t)"
  by (simp add: exu_rfe_def SetSpr_SR exu_inv_def exu_quiet_def)

lemma inv_mfspr: "exu_quiet t \<Longrightarrow> exu_inv (exu_mfspr i s t)"
  unfolding exu_mfspr_def by (auto intro!: inv_addr inv_abort inv_next split: option.split)

lemma inv_mtspr: "exu_quiet t \<Longrightarrow> exu_inv (exu_mtspr i s t)"
  unfolding exu_mtspr_def by (auto intro!: inv_addr inv_abort inv_next split: option.split dest: SetSpr_quiet)

lemma inv_load: "exu_quiet t \<Longrightarrow> w \<noteq> 3 \<Longrightarrow> exu_inv (exu_load i s w e t)"
  unfolding exu_load_def by (auto intro!: inv_addr inv_load_wait simp: exu_quiet_def)

lemma inv_store: "exu_quiet t \<Longrightarrow> w \<noteq> 3 \<Longrightarrow> exu_inv (exu_store i s w t)"
  unfolding exu_store_def by (auto intro!: inv_addr inv_store_wait simp: exu_quiet_def)

lemma inv_sc: "exu_quiet t \<Longrightarrow> exu_inv (exu_sc i s t)"
  unfolding exu_sc_def by (auto intro!: inv_addr inv_sc_wait inv_next simp: exu_quiet_def)

lemma inv_cache: "exu_quiet t \<Longrightarrow> exu_inv (exu_cache i s t)"
  unfolding exu_cache_def by (auto intro!: inv_addr inv_flush_wait simp: exu_quiet_def)

lemma inv_sys: "exu_quiet t \<Longrightarrow> exu_inv (exu_end i s (t\<lparr>exceptId := 0xc, exceptRestart := False\<rparr>))"
  by (rule inv_except) (simp_all add: exu_quiet_def)

lemma inv_decode: "exu_quiet t \<Longrightarrow> exu_inv (exu_decode i s t)"
  unfolding exu_decode_def Let_def
  using load_width store_width
  by (auto intro!: inv_alu inv_load inv_store inv_sc inv_cache inv_jump inv_nop inv_rfe inv_mfspr inv_mtspr inv_sys inv_abort
      split del: if_split split: if_split)

lemma exu_inv_step:
  assumes "exu_inv s"
  shows "exu_inv (exu_step i s)"
proof (cases "x_loc s")
  case L_exec
  then have q: "exu_quiet s" using assms by (auto simp: exu_inv_def exu_quiet_def)
  have "exu_inv (exu_exec i s)"
    unfolding exu_exec_def Let_def
    by (rule if_split [THEN iffD2], intro conjI impI)
      (use q in \<open>auto intro!: inv_top inv_end inv_decode simp: exu_quiet_def split: if_splits\<close>)
  with L_exec show ?thesis by (simp add: exu_step_def)
next
  case (L_delay n)
  then show ?thesis using assms by (auto simp: exu_step_def exu_inv_def exu_next_def)
next
  case L_top
  have "\<not> x_flush s" "x_width s \<noteq> 3" "exceptId s = 0" using assms L_top by (auto simp: exu_inv_def)
  then show ?thesis using L_top assms by (auto simp: exu_step_def exu_rfe_wait_def exu_except_wait_def intro!: inv_end)
next
  case L_load_data
  then show ?thesis using assms by (simp add: exu_step_def) (rule inv_end; auto simp: exu_inv_def)
next
  case L_load_ack
  then show ?thesis using assms by (simp add: exu_step_def) (rule inv_load_wait; auto simp: exu_inv_def exu_quiet_def)
next
  case L_store_ack
  then show ?thesis using assms by (simp add: exu_step_def) (rule inv_store_wait; auto simp: exu_inv_def exu_quiet_def)
next
  case L_sc_ack
  then show ?thesis using assms by (simp add: exu_step_def) (rule inv_sc_wait; auto simp: exu_inv_def exu_quiet_def)
next
  case L_flush_ack
  then show ?thesis using assms by (simp add: exu_step_def) (rule inv_flush_wait; auto simp: exu_inv_def exu_quiet_def)
next
  case L_flush_down
  then show ?thesis using assms by (simp add: exu_step_def) (rule inv_cache_wait; auto simp: exu_inv_def exu_quiet_def)
next
  case L_cache_ack
  then show ?thesis using assms by (simp add: exu_step_def) (rule inv_cache_wait; auto simp: exu_inv_def exu_quiet_def)
next
  case L_rfe_skip
  have "\<not> x_flush s" "x_width s \<noteq> 3" "exceptId s = 0" using assms L_rfe_skip by (auto simp: exu_inv_def)
  then show ?thesis using L_rfe_skip assms by (auto simp: exu_step_def exu_rfe_wait_def exu_except_wait_def intro!: inv_end) (auto simp: exu_inv_def)
next
  case L_except_next
  have "\<not> x_flush s" "x_width s \<noteq> 3"  using assms L_except_next by (auto simp: exu_inv_def)
  then show ?thesis using L_except_next assms by (auto simp: exu_step_def exu_rfe_wait_def exu_except_wait_def intro!: inv_top) (auto simp: exu_inv_def)
next
  case L_except_skip
  have "\<not> x_flush s" "x_width s \<noteq> 3"  using assms L_except_skip by (auto simp: exu_inv_def)
  then show ?thesis using L_except_skip assms by (auto simp: exu_step_def exu_rfe_wait_def exu_except_wait_def intro!: inv_top) (auto simp: exu_inv_def)
next
  case L_jal_npc
  then show ?thesis using assms by (simp add: exu_step_def exu_link_wait_def) (auto simp: exu_inv_def)
qed (use assms in \<open>auto simp: exu_step_def exu_inv_def\<close>)

section \<open>The core\<close>

definition exu_lsu_in :: "exu \<Rightarrow> lsu_in \<Rightarrow> lsu_in" where
  "exu_lsu_in e m = m\<lparr>l_rd := x_rd e, l_wr := x_wr e, l_flush := x_flush e, l_writeback := x_writeback e, l_invalidate := x_invalidate e,
     l_rlink_wcond := x_rlink_wcond e, l_width := x_width e, l_exts := x_exts e, l_adr := x_adr e, l_wdata := x_wdata e\<rparr>"

definition exu_ifu_in :: "exu \<Rightarrow> ifu_in \<Rightarrow> ifu_in" where
  "exu_ifu_in e p = p\<lparr>in_next := x_next e, in_jump := x_jump e, in_jump_adr := x_jump_adr e\<rparr>"

definition exu_inputs :: "ifu \<Rightarrow> lsu_sigs \<Rightarrow> u32 \<Rightarrow> exu_in" where
  "exu_inputs f g u = \<lparr>x_ir_valid = ifu_ir_valid f, x_npc_valid = ifu_npc_valid f, x_ir = ifu_ir f, x_ppc = ifu_ppc f, x_pc = ifu_pc f,
     x_npc = ifu_npc f, x_lsu_ack = o_ack g, x_lsu_rdata = o_rdata g, x_lsu_wcond_ok = o_wcond_ok g, x_undef = u\<rparr>"

text \<open>An input is what comes from the memory unit, for the fetch port, the data ports, and the undefined value.\<close>

type_synonym core = "exu \<times> ifu \<times> lsu_sys"
type_synonym core_in = "ifu_in \<times> lsu_in \<times> u32"

definition core_lsu_in :: "core_in \<Rightarrow> core \<Rightarrow> lsu_in" where
  "core_lsu_in x c = exu_lsu_in (fst c) (fst (snd x))"

definition core_clock :: "core_in \<Rightarrow> core \<Rightarrow> core" where
  "core_clock x c =
     (case (x, c) of ((p, m, u), (e, f, L)) \<Rightarrow>
        (let li = exu_lsu_in e m; g = lsu_output li (fst L) (fst (snd L))
         in (exu_step (exu_inputs f g u) e, ifu_transition (exu_ifu_in e p) f, lsu_clock li L)))"

definition core_run :: "core_in list \<Rightarrow> core \<Rightarrow> core" where
  "core_run xs c = fold core_clock xs c"

section \<open>The core keeps the protocol of the load/store unit\<close>

fun core_lsu_ins :: "core_in list \<Rightarrow> core \<Rightarrow> lsu_in list" where
  "core_lsu_ins (x # xs) c = core_lsu_in x c # core_lsu_ins xs (core_clock x c)"
| "core_lsu_ins [] c = []"

text \<open>What remains to be assumed: alignment, and the memory's answers to reads.\<close>

fun core_mem :: "core_in list \<Rightarrow> core \<Rightarrow> bool" where
  "core_mem (x # y # xs) c \<longleftrightarrow> \<not> lsu_misaligned (core_lsu_in x c)
     \<and> lsu_reads (core_lsu_in x c) (snd (snd c)) (core_lsu_in y (core_clock x c)) \<and> core_mem (y # xs) (core_clock x c)"
| "core_mem [x] c \<longleftrightarrow> \<not> lsu_misaligned (core_lsu_in x c)"
| "core_mem [] c \<longleftrightarrow> True"

lemma exu_invD:
  assumes "exu_inv s"
  shows "x_rd s = (x_loc s = L_load_ack)" "x_wr s = (x_loc s = L_store_ack \<or> x_loc s = L_sc_ack)" "x_flush s = (x_loc s = L_flush_ack)"
    "x_loc s \<noteq> L_cache_ack \<Longrightarrow> \<not> x_invalidate s \<and> \<not> x_writeback s" "x_width s \<noteq> 3"
    "x_next s \<Longrightarrow> x_loc s \<in> {L_top, L_load_data, L_jal_next, L_rfe_next, L_except_next}"
    "x_jump s \<Longrightarrow> x_loc s \<in> {L_top, L_rfe_next, L_except_next}"
    "exceptId s \<noteq> 0 \<Longrightarrow> x_loc s \<in> {L_except_next, L_except_skip, L_abort}" "x_loc s = L_exec \<Longrightarrow> regFile s 0 = 0"
  using assms unfolding exu_inv_def by (elim conjE, blast)+

lemma core_proto:
  assumes "exu_inv e" "\<not> lsu_misaligned (exu_lsu_in e m)"
  shows "lsu_proto (exu_lsu_in e m)"
proof -
  note D = exu_invD [OF assms(1)]
  have "\<not> (x_rd e \<and> x_wr e)" "\<not> (x_flush e \<and> (x_rd e \<or> x_wr e))" unfolding D(1-3) by auto
  moreover have "\<not> ((x_writeback e \<or> x_invalidate e) \<and> (x_rd e \<or> x_wr e \<or> x_flush e))"
  proof (cases "x_loc e = L_cache_ack")
    case True
    then show ?thesis unfolding D(1-3) by simp
  next
    case False
    with D(4) show ?thesis by blast
  qed
  ultimately show ?thesis using assms(2) D(5) by (simp add: lsu_proto_def exu_lsu_in_def)
qed

lemma core_held:
  assumes "exu_inv e"
  shows "lsu_held (exu_lsu_in e m) (x_lsu_ack i) (exu_lsu_in (exu_step i e) m')"
proof -
  note D = exu_invD [OF assms]
  consider "x_rd e" "x_loc e = L_load_ack" "\<not> x_wr e" | "\<not> x_rd e" "x_wr e" "x_loc e = L_store_ack" | "\<not> x_rd e" "x_wr e" "x_loc e = L_sc_ack"
    | "\<not> x_rd e" "\<not> x_wr e"
    unfolding D(1,2) by (cases "x_loc e") simp_all
  then show ?thesis
    by cases (simp_all add: lsu_held_def lsu_same_def exu_lsu_in_def exu_step_def exu_load_wait_def exu_store_wait_def exu_sc_wait_def)
qed

lemma core_clock_exu: "exu_inv (fst c) \<Longrightarrow> exu_inv (fst (core_clock x c))"
  by (cases x; cases c) (simp add: core_clock_def Let_def exu_inv_step)

lemma core_clock_lsu: "snd (snd (core_clock x c)) = lsu_clock (core_lsu_in x c) (snd (snd c))"
  by (cases x; cases c) (simp add: core_clock_def core_lsu_in_def Let_def)

lemma core_ack: "\<exists>i. fst (core_clock x c) = exu_step i (fst c) \<and> x_lsu_ack i = lsu_ack (core_lsu_in x c) (snd (snd c))"
proof (cases x; cases c)
  fix p m u e f L
  assume "x = (p, m, u)" "c = (e, f, L)"
  then show ?thesis
    by (intro exI [of _ "exu_inputs f (lsu_output (exu_lsu_in e m) (fst L) (fst (snd L))) u"])
      (simp add: core_clock_def core_lsu_in_def Let_def lsu_ack_def exu_inputs_def)
qed

lemma core_obeys_lsu:
  "exu_inv (fst c) \<Longrightarrow> core_mem xs c \<Longrightarrow> lsu_obeys (core_lsu_ins xs c) (snd (snd c))"
proof (induction xs arbitrary: c rule: induct_list012)
  case (2 x)
  then show ?case by (simp add: core_lsu_in_def core_proto)
next
  case (3 x y xs)
  have "lsu_proto (core_lsu_in x c)" using 3(3,4) by (simp add: core_lsu_in_def core_proto)
  moreover obtain i where i: "fst (core_clock x c) = exu_step i (fst c)" "x_lsu_ack i = lsu_ack (core_lsu_in x c) (snd (snd c))"
    using core_ack by blast
  have "lsu_held (core_lsu_in x c) (lsu_ack (core_lsu_in x c) (snd (snd c))) (core_lsu_in y (core_clock x c))"
    using core_held [OF 3(3), of "fst (snd x)" i "fst (snd y)"] by (simp add: core_lsu_in_def i)
  moreover have "lsu_obeys (core_lsu_ins (y # xs) (core_clock x c)) (snd (snd (core_clock x c)))"
    using 3(2) [OF core_clock_exu [OF 3(3)]] 3(4) by simp
  ultimately show ?case using 3(4) by (simp add: core_clock_lsu)
qed simp

section \<open>The core keeps the protocol of the fetch unit\<close>

text \<open>What a decoded instruction may ask of the fetch unit: jumps only come from jump instructions.\<close>

definition exu_fetch :: "u32 \<Rightarrow> exu \<Rightarrow> bool" where
  "exu_fetch insn t \<longleftrightarrow> (x_jump t \<longrightarrow> x_next t \<and> IsJump insn) \<and> (x_loc t = L_jal_next \<longrightarrow> x_next t \<and> IsJump insn) \<and> x_loc t \<noteq> L_jal_npc"

lemma IsJump_iff: "IsJump insn \<longleftrightarrow>
    sc_range 31 26 insn \<le> 0x04 \<or> sc_range 31 26 insn = 0x11 \<or> sc_range 31 26 insn = 0x12 \<or> sc_range 31 26 insn = 0x08 \<or> sc_range 31 26 insn = 0x09"
proof -
  have "sc_range 31 26 insn = drop_bit 26 insn"
    unfolding sc_range_def by (rule bit_word_eqI) (auto simp: bit_take_bit_iff bit_drop_bit_eq dest: bit_imp_le_length)
  then show ?thesis by (simp add: IsJump_def Let_def)
qed

lemma fetch_next: "\<not> x_jump t \<Longrightarrow> exu_fetch n (exu_next t)"
  by (simp add: exu_fetch_def exu_next_def)

lemma fetch_delay: "\<not> x_jump t \<Longrightarrow> exu_fetch n (exu_delay d t)"
  by (simp add: exu_fetch_def exu_next_def exu_delay_def)

lemma fetch_abort: "\<not> x_jump t \<Longrightarrow> exu_fetch n (exu_abort t)"
  by (simp add: exu_fetch_def exu_abort_def)

lemma fetch_top: "exu_fetch n (exu_top t)"
  by (simp add: exu_fetch_def exu_top_def)

lemma fetch_waits:
  "\<not> x_jump t \<Longrightarrow> exu_fetch n (exu_load_wait i t)" "\<not> x_jump t \<Longrightarrow> exu_fetch n (exu_store_wait i t)"
  "\<not> x_jump t \<Longrightarrow> exu_fetch n (exu_sc_wait i t)" "\<not> x_jump t \<Longrightarrow> exu_fetch n (exu_flush_wait i t)"
  by (simp_all add: exu_load_wait_def exu_store_wait_def exu_sc_wait_def exu_flush_wait_def exu_fetch_def exu_next_def)

lemma RunAlu_jump: "RunAlu i s insn f aSrc bSrc x y z t = Some (n, r, t') \<Longrightarrow> x_jump t' = x_jump t"
  by (auto simp: RunAlu_def Let_def split: option.splits if_splits)

lemma fetch_alu: "\<not> x_jump t \<Longrightarrow> exu_fetch n (exu_alu i s f bSrc x y z t)"
  by (auto simp: exu_alu_def split: option.split intro: fetch_abort intro!: fetch_delay dest: RunAlu_jump)

lemma fetch_addr: "\<not> x_jump t \<Longrightarrow> (\<And>adr. exu_fetch n (k adr)) \<Longrightarrow> exu_fetch n (exu_addr i s f aSrc bSrc t k)"
  by (auto simp: exu_addr_def split: option.split intro: fetch_abort)

lemma fetch_go:
  "\<not> x_jump t \<Longrightarrow> IsJump n \<Longrightarrow> exu_fetch n (t\<lparr>x_jump_adr := a, nextInDelaySlot := True, x_next := True, x_loc := L_jal_next\<rparr>)"
  "IsJump n \<Longrightarrow> exu_fetch n (t\<lparr>x_jump_adr := a, nextInDelaySlot := True, x_jump := True, x_next := True, x_loc := L_top\<rparr>)"
  by (simp_all add: exu_fetch_def)

lemma fetch_jump: "\<not> x_jump t \<Longrightarrow> IsJump n \<Longrightarrow> exu_fetch n (exu_jump i s opcode t)"
  by (simp add: exu_jump_def Let_def fetch_addr fetch_next fetch_go)

lemma fetch_nop: "\<not> x_jump t \<Longrightarrow> exu_fetch n (exu_nop s t)"
  by (simp add: exu_nop_def Let_def fetch_next) (simp add: exu_fetch_def)

lemma fetch_spr:
  "\<not> x_jump t \<Longrightarrow> exu_fetch n (exu_mfspr i s t)" "\<not> x_jump t \<Longrightarrow> exu_fetch n (exu_mtspr i s t)"
proof -
  have "x_jump t' = x_jump t" if "SetSpr i s r v t = Some t'" for r v t'
    using that by (auto simp: SetSpr_def split: if_splits)
  then show "\<not> x_jump t \<Longrightarrow> exu_fetch n (exu_mfspr i s t)" "\<not> x_jump t \<Longrightarrow> exu_fetch n (exu_mtspr i s t)"
    by (auto simp: exu_mfspr_def exu_mtspr_def intro!: fetch_addr fetch_abort fetch_next split: option.split)
qed

lemma fetch_memory:
  "\<not> x_jump t \<Longrightarrow> exu_fetch n (exu_load i s w b t)" "\<not> x_jump t \<Longrightarrow> exu_fetch n (exu_store i s w t)"
  "\<not> x_jump t \<Longrightarrow> exu_fetch n (exu_sc i s t)" "\<not> x_jump t \<Longrightarrow> exu_fetch n (exu_cache i s t)"
  by (auto simp: exu_load_def exu_store_def exu_sc_def exu_cache_def intro!: fetch_addr fetch_waits fetch_next)

lemma fetch_end: "\<not> x_jump t \<Longrightarrow> (exceptId t > 0 \<Longrightarrow> IsJump n) \<Longrightarrow> exu_fetch n (exu_end i s t)"
  by (simp add: exu_end_def GetSpr_SR fetch_top fetch_abort) (simp add: exu_fetch_def)

lemma fetch_rfe: "IsJump n \<Longrightarrow> exu_fetch n (exu_rfe i s t)"
  by (simp add: exu_rfe_def SetSpr_SR) (simp add: exu_fetch_def)

lemma fetch_decode: "\<not> x_jump t \<Longrightarrow> exu_fetch (x_insn t) (exu_decode i s t)"
  unfolding exu_decode_def Let_def
  by (auto intro!: fetch_alu fetch_memory fetch_jump fetch_nop fetch_rfe fetch_spr fetch_end fetch_abort simp: IsJump_iff
      split del: if_split split: if_split)

text \<open>The places at which the current instruction is still needed.\<close>

definition exu_busy :: "exu_loc \<Rightarrow> bool" where
  "exu_busy l \<longleftrightarrow> (case l of L_delay n \<Rightarrow> True | L_load_ack \<Rightarrow> True | L_store_ack \<Rightarrow> True | L_sc_ack \<Rightarrow> True | L_flush_ack \<Rightarrow> True
     | L_flush_down \<Rightarrow> True | L_cache_ack \<Rightarrow> True | _ \<Rightarrow> False)"

definition core_link :: "exu \<Rightarrow> ifu \<Rightarrow> bool" where
  "core_link e f \<longleftrightarrow>
     (exu_busy (x_loc e) \<or> x_next e \<longrightarrow> ifu_ir_valid f)
     \<and> (x_next e \<and> (x_jump e \<or> x_loc e = L_jal_next) \<longrightarrow> IsJump (ifu_ir f))
     \<and> (\<not> x_next e \<and> (x_jump e \<or> x_loc e = L_jal_npc) \<longrightarrow> IsJump (insn_buf f 0))
     \<and> (x_loc e = L_jal_next \<longrightarrow> x_next e)"

lemma ifu_keep:
  assumes "ifu_inv mem a f" "ifu_obeys mem a i f" "f' = ifu_transition i f"
  shows "\<not> in_next i \<Longrightarrow> insn_buf f' 0 = insn_buf f 0"
    and "\<not> in_next i \<Longrightarrow> ifu_ir_valid f \<Longrightarrow> ifu_ir_valid f' \<and> ifu_ir f' = ifu_ir f"
    and "in_next i \<Longrightarrow> insn_buf f' 0 = ifu_ir f"
proof -
  note F = ifu_transition_fields [OF assms(1,2), folded assms(3)]
  have o: "ifu_ofs i < insn_top f" "ifu_ofs i = (if in_next i then 1 else 0)"
    using ifu_jump_room(1) [OF assms(1,2)] by (simp_all add: ifu_ofs_def)
  have t: "insn_top f \<le> ifu_due f" using assms(1) by (simp add: ifu_inv_def)
  show "\<not> in_next i \<Longrightarrow> insn_buf f' 0 = insn_buf f 0" using o by (simp add: F(2) shift_buf_def)
  show "\<not> in_next i \<Longrightarrow> ifu_ir_valid f \<Longrightarrow> ifu_ir_valid f' \<and> ifu_ir f' = ifu_ir f"
    using o t by (simp add: F(1,2) shift_buf_def ifu_outputs)
  show "in_next i \<Longrightarrow> insn_buf f' 0 = ifu_ir f" using o by (simp add: F(2) shift_buf_def ifu_outputs)
qed

lemma link_quiet: "\<not> exu_busy (x_loc e) \<Longrightarrow> \<not> x_next e \<Longrightarrow> \<not> x_jump e \<Longrightarrow> x_loc e \<noteq> L_jal_next \<Longrightarrow> x_loc e \<noteq> L_jal_npc \<Longrightarrow> core_link e f"
  by (simp add: core_link_def)

lemma link_top: "core_link (exu_top t) f"
  by (rule link_quiet) (simp_all add: exu_top_def exu_busy_def)

lemma link_valid: "ifu_ir_valid f \<Longrightarrow> exu_fetch (ifu_ir f) e \<Longrightarrow> core_link e f"
  by (auto simp: core_link_def exu_fetch_def)

lemma core_link_step:
  assumes "exu_inv e" "core_link e f" "ifu_inv mem a f" "ifu_obeys mem a (exu_ifu_in e p) f"
    and "x_ir_valid i = ifu_ir_valid f" "x_ir i = ifu_ir f"
  shows "core_link (exu_step i e) (ifu_transition (exu_ifu_in e p) f)"
proof -
  define f' where "f' = ifu_transition (exu_ifu_in e p) f"
  note D = exu_invD [OF assms(1)]
  note K = ifu_keep [OF assms(3,4) f'_def]
  have nx: "in_next (exu_ifu_in e p) = x_next e" by (simp add: exu_ifu_in_def)
  have quiet: "\<not> x_next e" "\<not> x_jump e" if "x_loc e \<notin> {L_top, L_load_data, L_jal_next, L_rfe_next, L_except_next}"
    using that D(6,7) by auto
  have keep: "ifu_ir_valid f'" "ifu_ir f' = ifu_ir f" if "ifu_ir_valid f" "\<not> x_next e"
    using K(2) nx that by simp_all
  have busy: "ifu_ir_valid f'" "\<not> x_next e" "\<not> x_jump e" if "exu_busy (x_loc e)"
  proof -
    show q: "\<not> x_next e" "\<not> x_jump e" using that by (intro quiet; auto simp: exu_busy_def)+
    show "ifu_ir_valid f'" using keep(1) q(1) that assms(2) by (simp add: core_link_def)
  qed
  have stay: "core_link t f'" if "exu_busy (x_loc e)" "\<not> x_jump t" "x_loc t \<noteq> L_jal_next" "x_loc t \<noteq> L_jal_npc" for t
    using busy [OF that(1)] that(2-4) by (simp add: core_link_def)
  have ended: "core_link (exu_end i e t) f'" if "exceptId t = 0" for t
    using that by (simp add: exu_end_def link_top)
  have "core_link (exu_step i e) f'"
  proof (cases "x_loc e")
    case L_exec
    then have q: "\<not> x_next e" "\<not> x_jump e" "exceptId e = 0" using quiet D(8) by auto
    show ?thesis
    proof (cases "x_ir_valid i")
      case False
      then show ?thesis using L_exec q(3) by (simp add: exu_step_def exu_exec_def Let_def link_top ended)
    next
      case True
      then have v: "ifu_ir_valid f'" "ifu_ir f' = ifu_ir f" using keep q(1) assms(5) by simp_all
      show ?thesis
        using L_exec True v link_valid [OF v(1)] fetch_decode [of "e\<lparr>x_mode := m, x_insn := x_ir i, inDelaySlot := nextInDelaySlot e, nextInDelaySlot := False\<rparr>" i e for m] q(2) assms(6)
        by (simp add: exu_step_def exu_exec_def Let_def link_top)
    qed
  next
    case (L_delay n)
    then show ?thesis by (intro stay) (auto simp: exu_busy_def exu_step_def exu_next_def quiet)
  next
    case L_load_ack
    then show ?thesis by (intro stay) (auto simp: exu_busy_def exu_step_def exu_load_wait_def quiet)
  next
    case L_store_ack
    then show ?thesis by (intro stay) (auto simp: exu_busy_def exu_step_def exu_store_wait_def exu_next_def quiet)
  next
    case L_sc_ack
    then show ?thesis by (intro stay) (auto simp: exu_busy_def exu_step_def exu_sc_wait_def exu_next_def quiet)
  next
    case L_flush_ack
    then show ?thesis by (intro stay) (auto simp: exu_busy_def exu_step_def exu_flush_wait_def quiet)
  next
    case L_flush_down
    then show ?thesis by (intro stay) (auto simp: exu_busy_def exu_step_def exu_cache_wait_def exu_next_def quiet)
  next
    case L_cache_ack
    then show ?thesis by (intro stay) (auto simp: exu_busy_def exu_step_def exu_cache_wait_def exu_next_def quiet)
  next
    case L_top
    then have "exceptId e = 0" using D(8) by auto
    then show ?thesis using L_top by (simp add: exu_step_def ended)
  next
    case L_load_data
    then have "exceptId e = 0" using D(8) by auto
    then show ?thesis using L_load_data by (simp add: exu_step_def ended)
  next
    case L_jal_next
    then have "x_next e" "IsJump (ifu_ir f)" "\<not> x_jump e" using assms(2) D(7) by (auto simp: core_link_def)
    then have "IsJump (insn_buf f' 0)" using K(3) nx by simp
    then show ?thesis using L_jal_next \<open>\<not> x_jump e\<close> by (simp add: exu_step_def core_link_def exu_busy_def)
  next
    case L_jal_npc
    then have q: "\<not> x_next e" "\<not> x_jump e" using quiet by auto
    then have "IsJump (insn_buf f' 0)" using K(1) nx assms(2) L_jal_npc by (simp add: core_link_def)
    then show ?thesis using L_jal_npc q by (simp add: exu_step_def exu_link_wait_def core_link_def exu_busy_def)
  next
    case L_rfe_next
    then show ?thesis by (intro link_quiet) (simp_all add: exu_step_def exu_busy_def)
  next
    case L_rfe_skip
    then have q: "\<not> x_next e" "\<not> x_jump e" "exceptId e = 0" using quiet D(8) by auto
    show ?thesis
    proof (cases "x_ir_valid i")
      case True
      then show ?thesis using L_rfe_skip q(3) by (simp add: exu_step_def exu_rfe_wait_def ended)
    next
      case False
      then show ?thesis using L_rfe_skip q by (intro link_quiet) (simp_all add: exu_step_def exu_rfe_wait_def exu_busy_def)
    qed
  next
    case L_except_next
    then show ?thesis
      by (cases "x_ir_valid i") (simp_all add: exu_step_def exu_except_wait_def link_top link_quiet exu_busy_def)
  next
    case L_except_skip
    then have q: "\<not> x_next e" "\<not> x_jump e" using quiet by auto
    then show ?thesis using L_except_skip
      by (cases "x_ir_valid i") (simp_all add: exu_step_def exu_except_wait_def link_top link_quiet exu_busy_def)
  next
    case L_halt
    then have q: "\<not> x_next e" "\<not> x_jump e" using quiet by auto
    then show ?thesis using L_halt by (simp add: exu_step_def link_quiet exu_busy_def)
  next
    case L_abort
    then have q: "\<not> x_next e" "\<not> x_jump e" using quiet by auto
    then show ?thesis using L_abort by (simp add: exu_step_def link_quiet exu_busy_def)
  qed
  then show ?thesis by (simp add: f'_def)
qed

section \<open>Runs of the core\<close>

text \<open>
  The memory behind the fetch port, as in \<open>ifu_obeys\<close>; \<open>a\<close> is the address on the port in the clock before.  Targets of jumps
  are word addresses.
\<close>

fun core_env :: "(u32 \<Rightarrow> u32) \<Rightarrow> u32 \<Rightarrow> core_in list \<Rightarrow> core \<Rightarrow> bool" where
  "core_env mem a [] c \<longleftrightarrow> True"
| "core_env mem a (x # xs) c \<longleftrightarrow>
     (case (x, c) of ((p, m, u), (e, f, L)) \<Rightarrow>
        \<not> in_reset p \<and> (in_rp_ack p \<longrightarrow> rp_rd f \<and> \<not> last_rp_ack f) \<and> (last_rp_ack f \<longrightarrow> in_rp_data p = mem a)
        \<and> (x_jump e \<longrightarrow> x_jump_adr e AND 3 = 0) \<and> core_env mem (rp_adr f) xs (core_clock x c))"

definition core_ok :: "(u32 \<Rightarrow> u32) \<Rightarrow> u32 \<Rightarrow> core \<Rightarrow> bool" where
  "core_ok mem a c \<longleftrightarrow> exu_inv (fst c) \<and> core_link (fst c) (fst (snd c)) \<and> ifu_inv mem a (fst (snd c))"

lemma core_link_obeys:
  assumes "core_link e f" "\<not> in_reset p" "in_rp_ack p \<longrightarrow> rp_rd f \<and> \<not> last_rp_ack f" "last_rp_ack f \<longrightarrow> in_rp_data p = mem a"
    and "x_jump e \<longrightarrow> x_jump_adr e AND 3 = 0"
  shows "ifu_obeys mem a (exu_ifu_in e p) f"
  using assms by (auto simp: ifu_obeys_def exu_ifu_in_def core_link_def ifu_ir_def)

lemma core_ok_step:
  assumes "core_ok mem a (e, f, L)" "core_env mem a [(p, m, u)] (e, f, L)"
  shows "ifu_obeys mem a (exu_ifu_in e p) f" and "core_ok mem (rp_adr f) (core_clock (p, m, u) (e, f, L))"
    and "ifu_fail (fst (snd (core_clock (p, m, u) (e, f, L)))) = ifu_fail f"
proof -
  have c: "exu_inv e" "core_link e f" "ifu_inv mem a f" using assms(1) by (simp_all add: core_ok_def)
  show ob: "ifu_obeys mem a (exu_ifu_in e p) f" using assms(2) by (intro core_link_obeys [OF c(2)]) simp_all
  define g where "g = lsu_output (exu_lsu_in e m) (fst L) (fst (snd L))"
  have clk: "core_clock (p, m, u) (e, f, L)
      = (exu_step (exu_inputs f g u) e, ifu_transition (exu_ifu_in e p) f, lsu_clock (exu_lsu_in e m) L)"
    by (simp add: core_clock_def Let_def g_def)
  have "core_link (exu_step (exu_inputs f g u) e) (ifu_transition (exu_ifu_in e p) f)"
    by (rule core_link_step [OF c ob]) (simp_all add: exu_inputs_def)
  then show "core_ok mem (rp_adr f) (core_clock (p, m, u) (e, f, L))"
    using exu_inv_step [OF c(1)] ifu_inv_step [OF c(3) ob] by (simp add: core_ok_def clk)
  show "ifu_fail (fst (snd (core_clock (p, m, u) (e, f, L)))) = ifu_fail f"
    using ifu_transition_fields(11) [OF c(3) ob] by (simp add: clk)
qed

lemma core_ok_run:
  "core_ok mem a c \<Longrightarrow> core_env mem a xs c \<Longrightarrow>
     \<exists>b. core_ok mem b (core_run xs c) \<and> ifu_fail (fst (snd (core_run xs c))) = ifu_fail (fst (snd c))"
proof (induction xs arbitrary: a c)
  case (Cons x xs)
  obtain p m u e f L where xc: "x = (p, m, u)" "c = (e, f, L)" by (cases x; cases c) auto
  have "core_env mem a [x] c" "core_env mem (rp_adr f) xs (core_clock x c)" using Cons.prems(2) by (simp_all add: xc)
  then show ?case
    using core_ok_step(2,3) [of mem a e f L p m u] Cons.IH [of "rp_adr f" "core_clock x c"] Cons.prems(1)
    by (simp add: core_run_def xc)
qed (auto simp: core_run_def)

text \<open>The core after reset.\<close>

definition core_start :: "ifu_in \<Rightarrow> ifu_in \<Rightarrow> exu \<Rightarrow> ifu \<Rightarrow> lsu_sys \<Rightarrow> core" where
  "core_start r1 r2 e f L = (exu_reset e, ifu_run [r1, r2] f, (lsu_reset (fst L), snd L))"

definition exu_fresh :: "exu \<Rightarrow> bool" where
  "exu_fresh e \<longleftrightarrow> \<not> x_flush e \<and> x_width e \<noteq> 3"

lemma exu_reset_inv: "exu_fresh e \<Longrightarrow> exu_inv (exu_reset e)"
  unfolding exu_reset_def exu_fresh_def by (rule inv_top) simp_all

lemma core_start_ok:
  assumes "ifu_reset_clock r1" "ifu_reset_clock r2" "exu_fresh e"
  shows "core_ok mem a (core_start r1 r2 e f L)"
  using exu_reset_inv [OF assms(3)] ifu_inv_reset [OF assms(1,2)]
  by (simp add: core_ok_def core_start_def exu_reset_def link_top)

section \<open>Cached and direct accesses\<close>

text \<open>
  \<open>InterconnectMethod\<close>: ports \<open>0\<close> to \<open>CPU_CORES - 1\<close> are the data ports, the next \<open>CPU_CORES\<close> read ports those of the
  fetch units.
\<close>

record memu_sigs =
  m_rp_bsel :: "nat \<Rightarrow> 4 word"
  m_rp_direct :: "nat \<Rightarrow> bool"
  m_wp_direct :: "nat \<Rightarrow> bool"

definition InterconnectMethod :: "bool \<Rightarrow> bool \<Rightarrow> bool \<Rightarrow> (nat \<Rightarrow> u32) \<Rightarrow> (nat \<Rightarrow> u32) \<Rightarrow> memu_sigs \<Rightarrow> memu_sigs" where
  "InterconnectMethod cfgDisableCache icache_enable dcache_enable rpa wpa g =
     g\<lparr>m_rp_bsel := (\<lambda>n. if CPU_CORES \<le> n \<and> n < 2 * CPU_CORES then 0xf else m_rp_bsel g n),
       m_rp_direct := (\<lambda>n. if n < CPU_CORES then cfgDisableCache \<or> \<not> dcache_enable \<or> \<not> AdrIsCached (rpa n)
                         else if n < 2 * CPU_CORES then cfgDisableCache \<or> \<not> icache_enable \<or> \<not> AdrIsCached (rpa (n - CPU_CORES))
                         else m_rp_direct g n),
       m_wp_direct := (\<lambda>n. if n < CPU_CORES then cfgDisableCache \<or> \<not> dcache_enable \<or> \<not> AdrIsCached (wpa n) else m_wp_direct g n)\<rparr>"

text \<open>Whether a fetch goes past the cache depends on the address on the data port of the core, not on its own.\<close>

lemma fetch_direct_by_data_address:
  assumes "n < CPU_CORES" "AdrIsCached (rpa (CPU_CORES + n))" "\<not> AdrIsCached (rpa n)"
  shows "m_rp_direct (InterconnectMethod False True True rpa wpa g) (CPU_CORES + n)"
  using assms by (simp add: InterconnectMethod_def)

end
