(* ===== verification/PnSystem.thy ===== *)
theory PnSystem
  imports PnCore
begin

text \<open>
  The properties of the execution unit and of a whole core: what it executes, what its loads return, what a system call does,
  and that the further cores of the system stay idle.
\<close>

section \<open>Programs\<close>

text \<open>A core at the start of a program of \<open>l.addi r3,r3,1\<close>, its memory answering every request at once.\<close>

definition ex_core :: core where
  "ex_core = core_start (in_idle\<lparr>in_reset := True\<rparr>) (in_idle\<lparr>in_reset := True\<rparr>) exu_power_up ex_ifu (lsu_power_up, lsu_sigs0, ex_lsu_mem)"

fun ex_core_ins :: "u32 \<Rightarrow> nat \<Rightarrow> core \<Rightarrow> core_in list" where
  "ex_core_ins insn 0 c = []"
| "ex_core_ins insn (Suc n) c =
     (let f = fst (snd c); x = (in_idle\<lparr>in_rp_ack := rp_rd f \<and> \<not> last_rp_ack f, in_rp_data := insn\<rparr>, lsu_idle, 0)
      in x # ex_core_ins insn n (core_clock x c))"

text \<open>
  C1.  The core executes its program: from reset on, whatever the program, the latency of the memory and the
  answers of the data ports, as long as the targets of jumps are word addresses, the instruction that the execution unit
  finds valid is the program's word at the program counter, it asks for the next one only when it has a valid
  one, no assertion of the fetch unit fails, and R0 is zero whenever an instruction is decoded.
\<close>

theorem core_executes_program:
  assumes "ifu_reset_clock r1" "ifu_reset_clock r2" "exu_fresh e0" "core_env mem a xs (core_start r1 r2 e0 f0 L0)"
    and "core_run xs (core_start r1 r2 e0 f0 L0) = (e, f, L)"
  shows "(ifu_ir_valid f \<longrightarrow> ifu_ir f = mem (ifu_pc f)) \<and> (x_next e \<longrightarrow> ifu_ir_valid f)
    \<and> (ifu_fail f \<longrightarrow> ifu_fail (ifu_run [r1, r2] f0)) \<and> (x_loc e = L_exec \<longrightarrow> regFile e 0 = 0)"
proof -
  obtain b where ok: "core_ok mem b (e, f, L)" "ifu_fail f = ifu_fail (ifu_run [r1, r2] f0)"
    using core_ok_run [OF core_start_ok [OF assms(1-3)] assms(4)] assms(5) by (auto simp: core_start_def)
  have "ifu_inv mem b f" using ok(1) by (simp add: core_ok_def)
  from ifu_invD(1) [OF this, of 1] have "ifu_ir_valid f \<longrightarrow> ifu_ir f = mem (ifu_pc f)" by (simp add: ifu_outputs)
  moreover have "core_link e f" "exu_inv e" using ok(1) by (simp_all add: core_ok_def)
  ultimately show ?thesis using ok(2) exu_invD(9) [of e] by (simp add: core_link_def)
qed

theorem core_executes_program_witness:
  "ifu_ir_valid (fst (snd (core_run (ex_core_ins 0x9c630001 4 ex_core) ex_core)))
   \<and> ifu_ir (fst (snd (core_run (ex_core_ins 0x9c630001 4 ex_core) ex_core))) = 0x9c630001"
proof -
  obtain e f L where r: "core_run (ex_core_ins 0x9c630001 4 ex_core) ex_core = (e, f, L)" by (metis prod_cases3)
  have "ifu_reset_clock (in_idle\<lparr>in_reset := True\<rparr>)" "exu_fresh exu_power_up" by code_simp+
  moreover have "core_env (\<lambda>_. 0x9c630001) 0 (ex_core_ins 0x9c630001 4 ex_core) ex_core" by code_simp
  ultimately have "ifu_ir_valid f \<longrightarrow> ifu_ir f = 0x9c630001"
    using core_executes_program [OF _ _ _ _ r [unfolded ex_core_def]] unfolding ex_core_def by blast
  moreover have "ifu_ir_valid (fst (snd (core_run (ex_core_ins 0x9c630001 4 ex_core) ex_core)))" by code_simp
  ultimately show ?thesis unfolding r by simp
qed

text \<open>
  C2.  The loads of the execution unit are sequential: from any state of it and an empty write buffer, whatever program it
  runs and however the memory paces its answers, the requests it makes are those the load/store unit allows, and the values its
  loads return are those of a plain memory on which its acknowledged loads and stores are done in order.
\<close>

theorem core_loads_sequential:
  assumes "exu_inv e" "core_mem xs (e, f, (lsu_reset s, g, M))"
    and "xs = [] \<or> \<not> l_rd (last (core_lsu_ins xs (e, f, (lsu_reset s, g, M))))"
  shows "lsu_obeys (core_lsu_ins xs (e, f, (lsu_reset s, g, M))) (lsu_reset s, g, M)
    \<and> lsu_loads (core_lsu_ins xs (e, f, (lsu_reset s, g, M))) (lsu_reset s, g, M)
      = mem_loads (lsu_accesses (core_lsu_ins xs (e, f, (lsu_reset s, g, M))) (lsu_reset s, g, M)) M"
proof -
  let ?is = "core_lsu_ins xs (e, f, (lsu_reset s, g, M))"
  have ob: "lsu_obeys ?is (lsu_reset s, g, M)" using core_obeys_lsu [of "(e, f, (lsu_reset s, g, M))" xs] assms(1,2) by simp
  have ne: "?is = [] \<longleftrightarrow> xs = []" by (cases xs) simp_all
  have "lsu_loads ?is (lsu_reset s, g, M) = mem_loads (lsu_accesses ?is (lsu_reset s, g, M)) (lsu_view (lsu_reset s) M)"
    by (rule lsu_run_loads [OF wb_inv_reset ob]) (use assms(3) ne slot0_ok_reset in auto)
  with ob show ?thesis by (simp add: lsu_view_reset)
qed

text \<open>\<open>l.lwz r5,8(r3)\<close> is the current instruction.\<close>

definition ex_load_core :: core where
  "ex_load_core = (ex_exu\<lparr>regFile := (\<lambda>n. 0)(3 := 0xff8)\<rparr>, ex_ifu\<lparr>insn_buf := (\<lambda>n. 0x84a30008), insn_top := 2\<rparr>,
     (lsu_reset lsu_power_up, lsu_sigs0, ex_lsu_mem))"

definition ex_load_ins :: "core_in list" where
  "ex_load_ins = [(in_idle, lsu_idle, 0), (in_idle, lsu_idle\<lparr>l_rp_ack := True\<rparr>, 0), (in_idle, lsu_idle\<lparr>l_rp_data := 0x11223344\<rparr>, 0)]"

theorem core_loads_sequential_witness:
  "mem_loads (lsu_accesses (core_lsu_ins ex_load_ins ex_load_core) (lsu_reset lsu_power_up, lsu_sigs0, ex_lsu_mem)) ex_lsu_mem = [0x11223344]
   \<and> regFile (fst (core_run ex_load_ins ex_load_core)) 5 = 0x11223344"
proof -
  have c: "ex_load_core = (ex_exu\<lparr>regFile := (\<lambda>n. 0)(3 := 0xff8)\<rparr>, ex_ifu\<lparr>insn_buf := (\<lambda>n. 0x84a30008), insn_top := 2\<rparr>,
     (lsu_reset lsu_power_up, lsu_sigs0, ex_lsu_mem))" by (rule ex_load_core_def)
  have "exu_inv (ex_exu\<lparr>regFile := (\<lambda>n. 0)(3 := 0xff8)\<rparr>)" by (simp add: exu_inv_def ex_exu_def exu_power_up_def)
  moreover have "core_mem ex_load_ins ex_load_core" by code_simp
  moreover have "\<not> l_rd (last (core_lsu_ins ex_load_ins ex_load_core))" by code_simp
  ultimately have "lsu_loads (core_lsu_ins ex_load_ins ex_load_core) (lsu_reset lsu_power_up, lsu_sigs0, ex_lsu_mem)
      = mem_loads (lsu_accesses (core_lsu_ins ex_load_ins ex_load_core) (lsu_reset lsu_power_up, lsu_sigs0, ex_lsu_mem)) ex_lsu_mem"
    using core_loads_sequential unfolding c by blast
  moreover have "lsu_loads (core_lsu_ins ex_load_ins ex_load_core) (lsu_reset lsu_power_up, lsu_sigs0, ex_lsu_mem) = [0x11223344]" by code_simp
  moreover have "regFile (fst (core_run ex_load_ins ex_load_core)) 5 = 0x11223344" by code_simp
  ultimately show ?thesis by simp
qed

text \<open>The first clock of a system call: the execution unit takes the exception, the fetch unit waits.\<close>

lemma exu_sys:
  assumes "x_loc e = L_exec" "inCePU e" "exceptId e = 0" "x_ir_valid i" "sc_range 31 26 (x_ir i) = 8" "sc_range 25 21 (x_ir i) = 0"
    and "e1 = exu_step i e"
  shows "x_next e1" "x_jump e1" "x_jump_adr e1 = 0xc00" "x_loc e1 = L_except_next" "regEPCR e1 = x_npc i" "regESR e1 = sr_flags e" "\<not> regIEE e1"
proof -
  define t where "t = e\<lparr>x_mode := 1, x_insn := x_ir i, inDelaySlot := nextInDelaySlot e, nextInDelaySlot := False,
     exceptId := 0xc, exceptRestart := False\<rparr>"
  have "e1 = exu_end i e t"
    using assms by (simp add: exu_step_def exu_exec_def exu_decode_def Let_def t_def)
  then have "e1 = t\<lparr>regESR := sr_flags e, regEPCR := x_npc i, regIEE := False, x_jump_adr := 0xc00, x_jump := True, x_next := True,
     x_loc := L_except_next\<rparr>"
    using assms(2) by (simp add: exu_end_def t_def GetSpr_SR)
  then show "x_next e1" "x_jump e1" "x_jump_adr e1 = 0xc00" "x_loc e1 = L_except_next" "regEPCR e1 = x_npc i" "regESR e1 = sr_flags e" "\<not> regIEE e1"
    by simp_all
qed

lemma core_run_two: "core_run [x, y] c = core_clock y (core_clock x c)"
  by (simp add: core_run_def)

text \<open>
  C29.  A system call on the CePU does not skip the next instruction: two clocks after \<open>l.sys\<close> is decoded, its successor being known to the
  fetch unit, the execution unit waits for an instruction again, with the status register saved, the exceptions off and EPCR at
  the successor; and the fetch unit stands at EPCR, with the exception routine (0xc00) only as the address after it, so that an
  instruction it offers then is the one behind the \<open>l.sys\<close>.  The comment in the code says that this one is ignored.
\<close>

theorem core_sys_executes_next:
  assumes "core_ok mem a (e, f, L)" "core_env mem a [x, y] (e, f, L)" "core_run [x, y] (e, f, L) = (e2, f2, L2)"
    and "x_loc e = L_exec" "inCePU e" "ifu_ir_valid f" "ifu_npc_valid f" "sc_range 31 26 (ifu_ir f) = 8" "sc_range 25 21 (ifu_ir f) = 0"
  shows "x_loc e2 = L_exec \<and> regEPCR e2 = ifu_npc f \<and> regESR e2 = sr_flags e \<and> \<not> regIEE e2
    \<and> ifu_pc f2 = regEPCR e2 \<and> ifu_npc f2 = 0xc00 \<and> (ifu_ir_valid f2 \<longrightarrow> ifu_ir f2 = mem (regEPCR e2))"
proof -
  obtain p m u q m' u' where xy: "x = (p, m, u)" "y = (q, m', u')" by (metis prod_cases3)
  obtain e1 f1 L1 where c1: "core_clock x (e, f, L) = (e1, f1, L1)" by (metis prod_cases3)
  have c2: "core_clock y (e1, f1, L1) = (e2, f2, L2)" using assms(3) c1 by (simp add: core_run_two)
  have env: "core_env mem a [x] (e, f, L)" "core_env mem (rp_adr f) [y] (e1, f1, L1)"
    using assms(2) c1 by (simp_all add: xy)
  have inv: "exu_inv e" "ifu_inv mem a f" using assms(1) by (simp_all add: core_ok_def)
  note D = exu_invD [OF inv(1)]
  have q: "\<not> x_next e" "\<not> x_jump e" "exceptId e = 0" using D(6-8) assms(4) by auto
  have ob: "ifu_obeys mem a (exu_ifu_in e p) f" using core_ok_step(1) [OF assms(1)] env(1) by (simp only: xy)
  have f1: "f1 = ifu_transition (exu_ifu_in e p) f" and e1: "\<exists>g. e1 = exu_step (exu_inputs f g u) e"
    using c1 by (auto simp: core_clock_def xy Let_def)
  have ok1: "core_ok mem (rp_adr f) (e1, f1, L1)" using core_ok_step(2) [OF assms(1), of p m u] env(1) c1 by (simp only: xy)
  then have inv1: "ifu_inv mem (rp_adr f) f1" by (simp add: core_ok_def)
  have ob1: "ifu_obeys mem (rp_adr f) (exu_ifu_in e1 q) f1" using core_ok_step(1) [OF ok1] env(2) by (simp only: xy)
  have f2: "f2 = ifu_transition (exu_ifu_in e1 q) f1" and e2: "\<exists>g. e2 = exu_step (exu_inputs f1 g u') e1"
    using c2 by (auto simp: core_clock_def xy Let_def)
  obtain g where "e1 = exu_step (exu_inputs f g u) e" using e1 by blast
  from exu_sys [OF assms(4,5) q(3) _ _ _ this] assms(6,8,9)
  have s1: "x_next e1" "x_jump e1" "x_jump_adr e1 = 0xc00" "x_loc e1 = L_except_next" "regEPCR e1 = ifu_npc f" "regESR e1 = sr_flags e" "\<not> regIEE e1"
    by (simp_all add: exu_inputs_def)
  have in1: "\<not> in_next (exu_ifu_in e p)" "\<not> in_jump (exu_ifu_in e p)" using q by (simp_all add: exu_ifu_in_def)
  have k1: "ifu_pc f1 = ifu_pc f" "ifu_ir_valid f1" "ifu_npc_valid f1" "ifu_npc f1 = ifu_npc f"
    using ifu_order [OF inv(2) ob f1] in1 assms(6,7) by blast+
  have in2: "in_next (exu_ifu_in e1 q)" "in_jump (exu_ifu_in e1 q)" "in_jump_adr (exu_ifu_in e1 q) = 0xc00"
    using s1 by (simp_all add: exu_ifu_in_def)
  have k2: "ifu_pc f2 = ifu_npc f" "ifu_npc f2 = 0xc00"
    using ifu_order [OF inv1 ob1 f2] in2 k1 by auto
  obtain g' where "e2 = exu_step (exu_inputs f1 g' u') e1" using e2 by blast
  then have "e2 = exu_top (e1\<lparr>x_next := False, x_jump := False, exceptId := 0\<rparr>)"
    using s1(4) k1(2) by (simp add: exu_step_def exu_except_wait_def exu_inputs_def)
  then have s2: "x_loc e2 = L_exec" "regEPCR e2 = ifu_npc f" "regESR e2 = sr_flags e" "\<not> regIEE e2" using s1 by (simp_all add: exu_top_def)
  have "ifu_inv mem (rp_adr f1) f2" using ifu_inv_step [OF inv1 ob1] f2 by simp
  from ifu_invD(1) [OF this, of 1] have "ifu_ir_valid f2 \<Longrightarrow> ifu_ir f2 = mem (ifu_pc f2)" by (simp add: ifu_outputs)
  with s2 k2 show ?thesis by simp
qed

text \<open>\<open>l.sys\<close> at 0x100 and \<open>l.addi r3,r3,1\<close> behind it, both fetched.\<close>

definition ex_sys_ifu :: ifu where
  "ex_sys_ifu = ex_ifu\<lparr>insn_buf := (\<lambda>n. if n = 1 then 0x20000000 else if n = 2 then 0x9c630001 else 0x15000000),
     adr_buf := (\<lambda>n. 0xfc + 4 * of_nat n), insn_top := 3, adr_top := 4\<rparr>"

definition ex_sys_mem :: "u32 \<Rightarrow> u32" where
  "ex_sys_mem a = (if a = 0x100 then 0x20000000 else if a = 0x104 then 0x9c630001 else 0x15000000)"

theorem core_sys_executes_next_witness:
  "\<exists>e2 f2 L2. core_run [(in_idle, lsu_idle, 0), (in_idle, lsu_idle, 0)] (exu_power_up, ex_sys_ifu, (lsu_power_up, lsu_sigs0, ex_lsu_mem)) = (e2, f2, L2)
     \<and> x_loc e2 = L_exec \<and> regEPCR e2 = 0x104 \<and> ifu_pc f2 = 0x104 \<and> ifu_npc f2 = 0xc00 \<and> ifu_ir_valid f2 \<and> ifu_ir f2 = 0x9c630001"
proof -
  let ?c = "(exu_power_up, ex_sys_ifu, (lsu_power_up, lsu_sigs0, ex_lsu_mem))" and ?x = "(in_idle, lsu_idle, 0) :: core_in"
  obtain e2 f2 L2 where r: "core_run [?x, ?x] ?c = (e2, f2, L2)" by (metis prod_cases3)
  have small: "n = 1 \<or> n = 2" if "Suc 0 \<le> n" "n < 3" for n :: nat using that by linarith
  have w: "(if n = 1 then 0x20000000 else if n = 2 then 0x9c630001 else 0x15000000) = ex_sys_mem (0xfc + 4 * of_nat n)"
    if "Suc 0 \<le> n \<and> n < 3" for n
    using small [of n] that by (auto simp: ex_sys_mem_def)
  have "ifu_inv ex_sys_mem 0 ex_sys_ifu"
    using w by (simp add: ifu_inv_def ex_sys_ifu_def ex_ifu_def ifu_due_def IsJump_def all_less_3 Let_def)
  moreover have "exu_inv exu_power_up" by (simp add: exu_inv_def exu_power_up_def)
  moreover have "core_link exu_power_up ex_sys_ifu" by (rule link_quiet) (simp_all add: exu_power_up_def exu_busy_def)
  ultimately have ok: "core_ok ex_sys_mem 0 ?c" by (simp add: core_ok_def)
  have env: "core_env ex_sys_mem 0 [?x, ?x] ?c" by code_simp
  have v: "ifu_ir_valid (fst (snd (core_run [?x, ?x] ?c)))" by code_simp
  have "x_loc e2 = L_exec \<and> regEPCR e2 = ifu_npc ex_sys_ifu \<and> regESR e2 = sr_flags exu_power_up \<and> \<not> regIEE e2
    \<and> ifu_pc f2 = regEPCR e2 \<and> ifu_npc f2 = 0xc00 \<and> (ifu_ir_valid f2 \<longrightarrow> ifu_ir f2 = ex_sys_mem (regEPCR e2))"
    by (rule core_sys_executes_next [OF ok env r])
      (simp_all add: exu_power_up_def ex_sys_ifu_def ifu_outputs sc_range_def)
  moreover have "ifu_npc ex_sys_ifu = 0x104" by (simp add: ex_sys_ifu_def ifu_outputs)
  ultimately show ?thesis using v unfolding r by (intro exI [of _ e2] exI [of _ f2] exI [of _ L2]) (simp add: ex_sys_mem_def)
qed

text \<open>
  The further cores stay idle: a core that is not the first never decodes an instruction, since the register that would
  enable it is its own copy, which only the first core can write; it makes no request to the fetch or the load/store unit.
\<close>

lemma exu_copu_idle:
  assumes "\<not> inCePU s" "regCPUEN s (localID s div 32) AND push_bit (localID s mod 32) 1 = 0"
  shows "x_loc (exu_run is (exu_reset s)) = L_exec \<and> x_insn (exu_run is (exu_reset s)) = x_insn s \<and> \<not> x_next (exu_run is (exu_reset s))
    \<and> \<not> x_rd (exu_run is (exu_reset s)) \<and> \<not> x_wr (exu_run is (exu_reset s))"
proof -
  define P where "P t \<longleftrightarrow> \<not> inCePU t \<and> regCPUEN t (localID t div 32) AND push_bit (localID t mod 32) 1 = 0 \<and> x_loc t = L_exec
     \<and> x_insn t = x_insn s \<and> \<not> x_next t \<and> \<not> x_rd t \<and> \<not> x_wr t" for t :: exu
  have step: "P (exu_step i t)" if "P t" for i t
    using that by (simp add: P_def exu_step_def exu_exec_def Let_def exu_top_def)
  have "P (exu_run is t)" if "P t" for t
    using that by (induction "is" arbitrary: t) (simp_all add: step)
  moreover have "P (exu_reset s)" using assms by (simp add: P_def exu_reset_def exu_top_def)
  ultimately show ?thesis by (simp add: P_def)
qed

lemma exu_copu_idle_witness:
  "\<not> x_next (exu_run (replicate 9 (exu_in0\<lparr>x_ir_valid := True, x_ir := 0x9c630001\<rparr>)) (exu_reset (exu_power_up\<lparr>inCePU := False, localID := 1\<rparr>)))"
  using exu_copu_idle [of "exu_power_up\<lparr>inCePU := False, localID := 1\<rparr>"] by (simp add: exu_power_up_def)

lemma bit_sr_bit: "n < 32 \<Longrightarrow> bit (sr_bit n b) k \<longleftrightarrow> b \<and> k = n"
proof (cases b)
  case True
  assume "n < 32"
  then show ?thesis unfolding sr_bit_def if_P [OF True] bit_push_bit_iff using True by (auto simp: bit_1_iff)
qed (simp add: sr_bit_def)

lemma bit_sr_flags:
  "bit (sr_flags s) k \<longleftrightarrow>
     (if k = 16 then regSUMRA s else if k = 13 then regDSX s else if k = 11 then regOV s else if k = 10 then regCY s
      else if k = 9 then regF s else if k = 4 then regICE s else if k = 3 then regDCE s else if k = 2 then regIEE s
      else k = 15 \<or> k = 0)"
  unfolding sr_flags_def bit_or_iff by (simp add: bit_sr_bit)

text \<open>
  The supervision register: what is written is read back in its writable bits, the others are fixed or read-only; and
  writing back what was read, as a system call and \<open>l.rfe\<close> do through ESR, restores every flag.
\<close>

lemma exu_sr_roundtrip:
  "\<exists>s' r t. SetSpr i s 17 v s = Some s' \<and> GetSpr j s' 17 = Some r
     \<and> (\<forall>k. bit r k \<longleftrightarrow> (if k \<in> {16, 11, 10, 9, 4, 3, 2} then bit v k else if k = 13 then regDSX s else k \<in> {15, 0}))
     \<and> SetSpr i s' 17 (sr_flags s) s' = Some t \<and> sr_flags t = sr_flags s"
proof -
  let ?w = "\<lambda>v. s\<lparr>regSUMRA := bit v 16, regOV := bit v 11, regCY := bit v 10, regF := bit v 9,
     regICE := bit v 4, regDCE := bit v 3, regIEE := bit v 2\<rparr>"
  have r: "bit (sr_flags (?w v)) k \<longleftrightarrow> (if k \<in> {16, 11, 10, 9, 4, 3, 2} then bit v k else if k = 13 then regDSX s else k \<in> {15, 0})" for k :: nat and v :: u32
    by (simp add: bit_sr_flags)
  have "bit (sr_flags (?w (sr_flags s))) k = bit (sr_flags s) k" for k
    unfolding r by (simp add: bit_sr_flags)
  then have same: "sr_flags (?w (sr_flags s)) = sr_flags s" by (intro bit_word_eqI) simp
  show ?thesis
    by (rule exI [of _ "?w v"], rule exI [of _ "sr_flags (?w v)"], rule exI [of _ "?w (sr_flags s)"])
      (simp add: SetSpr_SR GetSpr_SR r same)
qed

end
