(* ===== verification/PnTag.thy ===== *)
theory PnTag
  imports PnBase
begin

text \<open>
  The memories of the cache of the memory unit, \<open>src/sysc/memu.cpp\<close>: how an address is split, the tag RAM \<open>MTagRam\<close> with
  its replacement order, and the bank RAM \<open>MBankRam\<close>.  The associativity is an argument of the tag RAM (\<open>CACHE_WAYS\<close> is 1
  in \<open>config.h\<close>; the code supports 1, 2 and 4); the replacement is LRU (\<open>CACHE_REPLACE_LRU\<close>).
\<close>

section \<open>Addresses\<close>

abbreviation (input) CACHE_BANKS :: nat where "CACHE_BANKS \<equiv> 4"
abbreviation (input) CACHE_SETS :: nat where "CACHE_SETS \<equiv> 512"
abbreviation (input) CACHE_WAYS :: nat where "CACHE_WAYS \<equiv> 1"
abbreviation (input) CACHE_BANKS_LD :: nat where "CACHE_BANKS_LD \<equiv> 2"
abbreviation (input) CACHE_SETS_LD :: nat where "CACHE_SETS_LD \<equiv> 9"

definition GetBankOfAdr :: "u32 \<Rightarrow> nat" where
  "GetBankOfAdr adr = unat (drop_bit 2 adr AND 3)"

definition GetIndexOfAdr :: "u32 \<Rightarrow> u32" where
  "GetIndexOfAdr adr = drop_bit (CACHE_BANKS_LD + 2) adr AND 511"

definition GetWayIndexOfAdr :: "u32 \<Rightarrow> u32 \<Rightarrow> u32" where
  "GetWayIndexOfAdr adr way = GetIndexOfAdr adr OR push_bit CACHE_SETS_LD way"

definition GetIndexOfWayIndex :: "u32 \<Rightarrow> u32" where
  "GetIndexOfWayIndex adr = adr AND 511"

definition GetTagOfAdr :: "u32 \<Rightarrow> u32" where
  "GetTagOfAdr adr = drop_bit (CACHE_SETS_LD + CACHE_BANKS_LD + 2) adr"

definition GetLineOfAdr :: "u32 \<Rightarrow> u32" where
  "GetLineOfAdr adr = drop_bit (CACHE_BANKS_LD + 2) adr"

definition ComposeAdress :: "u32 \<Rightarrow> u32 \<Rightarrow> nat \<Rightarrow> u32 \<Rightarrow> u32" where
  "ComposeAdress tadr iadr bank byteNo =
     push_bit (CACHE_SETS_LD + CACHE_BANKS_LD + 2) tadr OR push_bit (CACHE_BANKS_LD + 2) iadr
     OR push_bit 2 (of_nat bank) OR byteNo"

lemma mask_511: "(511 :: u32) = mask 9" and mask_3: "(3 :: u32) = mask 2"
  by (simp_all add: mask_eq_exp_minus_1)

lemma bit_GetIndexOfAdr: "bit (GetIndexOfAdr a) n \<longleftrightarrow> n < 9 \<and> bit a (n + 4)"
  unfolding GetIndexOfAdr_def mask_511 by (auto simp: bit_and_iff bit_mask_iff bit_drop_bit_eq add.commute)

lemma bit_GetTagOfAdr: "bit (GetTagOfAdr a) n \<longleftrightarrow> bit a (n + 13)"
  by (simp add: GetTagOfAdr_def bit_drop_bit_eq add.commute)

lemma GetBankOfAdr_less [simp]: "GetBankOfAdr a < 4"
proof -
  have "drop_bit 2 a AND 3 \<le> 3" by (rule word_and_le1)
  then show ?thesis by (simp add: GetBankOfAdr_def word_le_nat_alt)
qed

lemma of_nat_GetBankOfAdr: "of_nat (GetBankOfAdr a) = drop_bit 2 a AND 3"
  by (simp add: GetBankOfAdr_def)

lemma bit_bank: "bit (of_nat (GetBankOfAdr a) :: u32) n \<longleftrightarrow> n < 2 \<and> bit a (n + 2)"
  unfolding of_nat_GetBankOfAdr mask_3
  by (auto simp: bit_and_iff bit_mask_iff bit_drop_bit_eq add.commute simp del: add_2_eq_Suc add_2_eq_Suc')

lemma bit_word_small:
  assumes "unat (w :: u32) < 2 ^ k"
  shows "bit w n \<Longrightarrow> n < k"
proof -
  assume b: "bit w n"
  have "take_bit k (unat w) = unat w" by (rule take_bit_nat_eq_self) (rule assms)
  then have "w = take_bit k w" by (simp add: word_unat_eq_iff unsigned_take_bit_eq)
  with b show "n < k" by (metis bit_take_bit_iff)
qed

text \<open>The four parts of an address determine it, and are what they are composed of.\<close>

lemma bit_ComposeAdress:
  assumes "n < 32"
  shows "bit (ComposeAdress t i b y) n \<longleftrightarrow>
     13 \<le> n \<and> bit t (n - 13) \<or> 4 \<le> n \<and> bit i (n - 4) \<or> 2 \<le> n \<and> bit (of_nat b :: u32) (n - 2) \<or> bit y n"
  using assms by (auto simp: ComposeAdress_def bit_or_iff bit_push_bit_iff)

lemma compose_split: "ComposeAdress (GetTagOfAdr a) (GetIndexOfAdr a) (GetBankOfAdr a) (a AND 3) = a"
proof (rule bit_word_eqI)
  fix n assume "n < LENGTH(32)"
  then have n: "n < 32" by simp
  have "bit (ComposeAdress (GetTagOfAdr a) (GetIndexOfAdr a) (GetBankOfAdr a) (a AND 3)) n \<longleftrightarrow>
      13 \<le> n \<and> bit a (n - 13 + 13) \<or> 4 \<le> n \<and> n - 4 < 9 \<and> bit a (n - 4 + 4)
      \<or> 2 \<le> n \<and> n - 2 < 2 \<and> bit a (n - 2 + 2) \<or> n < 2 \<and> bit a n"
    unfolding mask_3 bit_ComposeAdress [OF n] bit_GetTagOfAdr bit_GetIndexOfAdr bit_bank bit_and_iff bit_mask_iff
    using n by auto
  also have "\<dots> \<longleftrightarrow> bit a n" by (cases "13 \<le> n"; cases "4 \<le> n"; cases "2 \<le> n") (auto simp del: add_2_eq_Suc add_2_eq_Suc')
  finally show "bit (ComposeAdress (GetTagOfAdr a) (GetIndexOfAdr a) (GetBankOfAdr a) (a AND 3)) n = bit a n" .
qed

lemma split_compose:
  assumes "unat t < 2 ^ 19" "unat i < 2 ^ 9" "b < 4"
  shows "GetTagOfAdr (ComposeAdress t i b 0) = t" "GetIndexOfAdr (ComposeAdress t i b 0) = i"
    "GetBankOfAdr (ComposeAdress t i b 0) = b"
proof -
  have b2: "\<And>n. bit (of_nat b :: u32) n \<Longrightarrow> n < 2"
    using assms(3) bit_word_small [of "of_nat b" 2] by (simp add: unat_of_nat)
  note small = bit_word_small [OF assms(1)] bit_word_small [OF assms(2)] b2
  show "GetTagOfAdr (ComposeAdress t i b 0) = t"
  proof (rule bit_word_eqI)
    fix n assume n: "n < LENGTH(32)"
    show "bit (GetTagOfAdr (ComposeAdress t i b 0)) n = bit t n"
    proof (cases "n + 13 < 32")
      case True
      then show ?thesis by (auto simp: bit_GetTagOfAdr bit_ComposeAdress dest: small)
    next
      case False
      then show ?thesis by (auto simp: bit_GetTagOfAdr dest: small bit_imp_le_length)
    qed
  qed
  show "GetIndexOfAdr (ComposeAdress t i b 0) = i"
  proof (rule bit_word_eqI)
    fix n assume "n < LENGTH(32)"
    show "bit (GetIndexOfAdr (ComposeAdress t i b 0)) n = bit i n"
    proof (cases "n < 9")
      case True
      then have "\<not> bit (of_nat b :: u32) (n + 4 - 2)" using b2 [of "n + 4 - 2"] by auto
      with True show ?thesis by (simp add: bit_GetIndexOfAdr bit_ComposeAdress)
    next
      case False
      then show ?thesis using small(2) by (auto simp: bit_GetIndexOfAdr)
    qed
  qed
  have "drop_bit 2 (ComposeAdress t i b 0) AND 3 = of_nat b"
  proof (rule bit_word_eqI)
    fix n assume "n < LENGTH(32)"
    show "bit (drop_bit 2 (ComposeAdress t i b 0) AND 3) n = bit (of_nat b :: u32) n"
    proof (cases "n < 2")
      case True
      then show ?thesis unfolding mask_3
        by (simp add: bit_and_iff bit_mask_iff bit_drop_bit_eq bit_ComposeAdress add.commute del: add_2_eq_Suc add_2_eq_Suc')
    next
      case False
      then show ?thesis unfolding mask_3 using b2 by (auto simp: bit_and_iff bit_mask_iff)
    qed
  qed
  then show "GetBankOfAdr (ComposeAdress t i b 0) = b"
    using assms(3) by (simp add: GetBankOfAdr_def unat_of_nat)
qed

lemma unat_GetIndexOfAdr: "unat (GetIndexOfAdr a) < 2 ^ 9"
proof -
  have "GetIndexOfAdr a \<le> 511" unfolding GetIndexOfAdr_def by (rule word_and_le1)
  then show ?thesis by (simp add: word_le_nat_alt)
qed

lemma unat_GetTagOfAdr: "unat (GetTagOfAdr a) < 2 ^ 19"
proof -
  have "unat (GetTagOfAdr a) = unat a div 2 ^ 13"
    unfolding GetTagOfAdr_def by (simp add: drop_bit_eq_div unat_div)
  then show ?thesis using unsigned_less [of a, where 'a = nat] by simp
qed

section \<open>The replacement order\<close>

text \<open>
  \<open>GetNewUse\<close> is the \<open>use\<close> word after an access to a way; \<open>None\<close> is the failed assertion for an associativity that is not supported.
  In the four-way case the word holds three ways of two bits, the least recently used one lowest; the most recently used
  way is not stored.
\<close>

definition use_string :: "u32 \<Rightarrow> u32" where
  "use_string oldUse = oldUse OR push_bit 6 ((drop_bit 4 oldUse XOR drop_bit 2 oldUse XOR oldUse) AND 3)"

definition use_remove :: "u32 \<Rightarrow> nat \<Rightarrow> u32 \<Rightarrow> u32" where
  "use_remove way n newUse =
     (if drop_bit n newUse AND 3 = way
      then (newUse AND (push_bit n 1 - 1)) OR drop_bit 2 (newUse AND NOT (push_bit n 4 - 1))
      else newUse)"

definition GetNewUse :: "nat \<Rightarrow> u32 \<Rightarrow> u32 \<Rightarrow> u32 option" where
  "GetNewUse ways oldUse way =
     (if ways = 1 then Some 0
      else if ways = 2 then Some (1 - way)
      else if ways = 4 then Some (use_remove way 4 (use_remove way 2 (use_remove way 0 (use_string oldUse))) AND 0x3f)
      else None)"

text \<open>The order the word stands for, the least recently used way first.\<close>

definition use_order :: "u32 \<Rightarrow> nat list" where
  "use_order u = (let w = (\<lambda>n. unat (drop_bit n u AND 3)) in
     [w 0, w 2, w 4] @ filter (\<lambda>k. k \<notin> {w 0, w 2, w 4}) [0..<4])"

definition touch :: "'a \<Rightarrow> 'a list \<Rightarrow> 'a list" where
  "touch x xs = remove1 x xs @ [x]"

definition use_word :: "nat \<Rightarrow> nat \<Rightarrow> nat \<Rightarrow> u32" where
  "use_word a b c = of_nat (a + 4 * b + 16 * c)"

lemma use_word_ex:
  assumes "u < 64"
  obtains a b c where "a < 4" "b < 4" "c < 4" "u = use_word a b c"
proof
  let ?n = "unat u"
  have n: "?n < 64" using assms by (simp add: word_less_nat_alt)
  show "?n mod 4 < 4" "?n div 4 mod 4 < 4" "?n div 16 < 4" using n by auto
  have "?n div 16 = ?n div 4 div 4" by (simp add: div_mult2_eq [symmetric])
  moreover have "?n mod 4 + 4 * (?n div 4) = ?n" "?n div 4 mod 4 + 4 * (?n div 4 div 4) = ?n div 4" by simp_all
  ultimately have "?n mod 4 + 4 * (?n div 4 mod 4) + 16 * (?n div 16) = ?n" by linarith
  then show "u = use_word (?n mod 4) (?n div 4 mod 4) (?n div 16)" by (simp add: use_word_def)
qed

lemma less_4_cases: "(n :: nat) < 4 \<Longrightarrow> n = 0 \<or> n = 1 \<or> n = 2 \<or> n = 3"
  by auto

lemma upt_4: "[0..<4] = [0, 1, 2, 3 :: nat]"
  by (simp add: upt_conv_Cons)

lemmas use_defs = use_order_def use_word_def touch_def GetNewUse_def use_string_def use_remove_def

lemma use_order_word:
  assumes "a < 4" "b < 4" "c < 4"
  shows "take 3 (use_order (use_word a b c)) = [a, b, c]"
  using less_4_cases [OF assms(1)] less_4_cases [OF assms(2)] less_4_cases [OF assms(3)]
  by (elim disjE; simp add: use_order_def use_word_def)

lemma GetNewUse_word:
  assumes "a < 4" "b < 4" "c < 4" "w < 4" "distinct [a, b, c]"
  shows "\<exists>v. GetNewUse 4 (use_word a b c) (of_nat w) = Some v \<and> use_order v = touch w (use_order (use_word a b c))"
  using less_4_cases [OF assms(1)] less_4_cases [OF assms(2)] less_4_cases [OF assms(3)] less_4_cases [OF assms(4)] assms(5)
  by (elim disjE; simp add: use_defs upt_4)

text \<open>
  An access makes its way the most recently used one and keeps the order of the others, as long as the word is an order of
  the four ways; the first of the order is the way a miss replaces.
\<close>

lemma GetNewUse_touch:
  assumes "u < 64" "distinct (use_order u)" "way < 4"
  shows "\<exists>v. GetNewUse 4 u way = Some v \<and> use_order v = touch (unat way) (use_order u) \<and> distinct (use_order v)"
proof -
  obtain a b c where abc: "a < 4" "b < 4" "c < 4" "u = use_word a b c" using use_word_ex [OF assms(1)] .
  have "distinct (take 3 (use_order u))" using assms(2) by (rule distinct_take)
  then have "distinct [a, b, c]" by (simp add: abc(4) use_order_word [OF abc(1-3)])
  moreover have w: "unat way < 4" "of_nat (unat way) = way" using assms(3) by (simp_all add: word_less_nat_alt)
  ultimately obtain v where "GetNewUse 4 u way = Some v" "use_order v = touch (unat way) (use_order u)"
    using GetNewUse_word [OF abc(1-3) w(1)] by (auto simp: abc(4) w(2))
  moreover have "distinct (touch (unat way) (use_order u))" using assms(2) by (simp add: touch_def distinct_remove1)
  ultimately show ?thesis by auto
qed

section \<open>The tag RAM\<close>

record SCacheTag =
  valid :: bool
  dirty :: bool
  tadr :: u32
  way :: u32

record STagEntry =
  e_valid :: "nat \<Rightarrow> bool"
  e_dirty :: "nat \<Rightarrow> bool"
  e_tadr :: "nat \<Rightarrow> u32"
  e_use :: u32

text \<open>
  The ports, one for each CPU core.  The thread stops at the end of its initialisation, at the end of the main loop and between
  the two clocks of a write.
\<close>

datatype tagram_loc = TR_init | TR_main | TR_write

record tagram_in =
  tr_rd :: "nat \<Rightarrow> bool"
  tr_wr :: "nat \<Rightarrow> bool"
  tr_adr :: "nat \<Rightarrow> u32"
  tr_tag_in :: "nat \<Rightarrow> SCacheTag"

record tagram =
  tr_loc :: tagram_loc
  tr_ready :: bool
  tr_ram :: "u32 \<Rightarrow> STagEntry"
  tr_use_reg :: "nat \<Rightarrow> u32"
  tr_use_iadr_reg :: "nat \<Rightarrow> u32"
  tr_use_wr_reg :: "nat \<Rightarrow> bool"
  tr_tag_out :: "nat \<Rightarrow> SCacheTag"
  tr_fail :: bool

abbreviation (input) TR_PORTS :: nat where "TR_PORTS \<equiv> 2"

text \<open>The part of the thread that runs before its first \<open>wait ()\<close>; the tag addresses of the entries stay as they are.\<close>

definition tagram_start :: "nat \<Rightarrow> tagram \<Rightarrow> tagram" where
  "tagram_start ways s =
     s\<lparr>tr_loc := TR_init, tr_ready := False,
       tr_use_wr_reg := (\<lambda>n. if n < TR_PORTS then False else tr_use_wr_reg s n),
       tr_ram := (\<lambda>n. if n < 512
          then (tr_ram s n)\<lparr>e_valid := (\<lambda>k. if k < ways then False else e_valid (tr_ram s n) k),
                            e_dirty := (\<lambda>k. if k < ways then False else e_dirty (tr_ram s n) k),
                            e_use := (if ways \<noteq> 4 then 0 else 0x24)\<rparr>
          else tr_ram s n)\<rparr>"

text \<open>The search of the ways: the last hit, and whether there was more than one (the failed \<open>ASSERTF\<close>).\<close>

definition entry_hit :: "STagEntry \<Rightarrow> u32 \<Rightarrow> nat \<Rightarrow> bool" where
  "entry_hit e adr n \<longleftrightarrow> e_valid e n \<and> e_tadr e n = GetTagOfAdr adr"

definition find_way :: "nat \<Rightarrow> STagEntry \<Rightarrow> u32 \<Rightarrow> nat option \<times> bool" where
  "find_way ways e adr =
     fold (\<lambda>n (w, bad). if entry_hit e adr n then (Some n, bad \<or> w \<noteq> None) else (w, bad)) [0..<ways] (None, False)"

text \<open>The access of port \<open>p\<close>, when it reads.\<close>

definition tagram_read :: "nat \<Rightarrow> tagram_in \<Rightarrow> nat \<Rightarrow> tagram \<Rightarrow> tagram" where
  "tagram_read ways i p s =
     (if \<not> tr_rd i p then s
      else let adr = tr_adr i p;
               entry = tr_ram s (GetIndexOfAdr adr);
               (hit, bad) = find_way ways entry adr;
               w = (case hit of Some n \<Rightarrow> n | None \<Rightarrow> unat (e_use entry AND (of_nat ways - 1)));
               s1 = s\<lparr>tr_tag_out := (tr_tag_out s)(p := \<lparr>valid = (hit \<noteq> None), dirty = e_dirty entry w,
                                                         tadr = e_tadr entry w, way = of_nat w\<rparr>),
                      tr_fail := (tr_fail s \<or> bad)\<rparr>
           in case hit of
                None \<Rightarrow> s1
              | Some n \<Rightarrow>
                  (case GetNewUse ways (e_use entry) (of_nat n) of
                     None \<Rightarrow> s1\<lparr>tr_fail := True\<rparr>
                   | Some new_use \<Rightarrow>
                       if new_use \<noteq> e_use entry
                       then s1\<lparr>tr_use_iadr_reg := (tr_use_iadr_reg s)(p := GetIndexOfAdr adr),
                               tr_use_reg := (tr_use_reg s)(p := new_use),
                               tr_use_wr_reg := (tr_use_wr_reg s)(p := True)\<rparr>
                       else s1\<lparr>tr_use_wr_reg := (tr_use_wr_reg s)(p := False)\<rparr>))"

definition entry_write :: "nat \<Rightarrow> SCacheTag \<Rightarrow> STagEntry \<Rightarrow> STagEntry option" where
  "entry_write ways tag e =
     (let w = unat (way tag) in
      map_option (\<lambda>u. e\<lparr>e_valid := (e_valid e)(w := valid tag), e_dirty := (e_dirty e)(w := dirty tag),
                        e_tadr := (e_tadr e)(w := tadr tag), e_use := u\<rparr>)
        (GetNewUse ways (e_use e) (way tag)))"

text \<open>
  The write: the last port that asserts \<open>wr\<close> (with more than one the assertion fails).  Without one, the pending \<open>use\<close>
  information of the lowest port, which the registers held before the clock edge, is stored.  A way out of range is an access
  outside the arrays.
\<close>

definition tagram_write :: "nat \<Rightarrow> tagram_in \<Rightarrow> tagram \<Rightarrow> tagram \<Rightarrow> tagram" where
  "tagram_write ways i s0 s =
     (case filter (tr_wr i) [0..<TR_PORTS] of
        [] \<Rightarrow>
          (case filter (tr_use_wr_reg s0) [0..<TR_PORTS] of
             [] \<Rightarrow> s
           | p # _ \<Rightarrow>
               s\<lparr>tr_ram := (tr_ram s)(tr_use_iadr_reg s0 p := (tr_ram s (tr_use_iadr_reg s0 p))\<lparr>e_use := tr_use_reg s0 p\<rparr>),
                 tr_use_wr_reg := (tr_use_wr_reg s)(p := False)\<rparr>)
      | ps \<Rightarrow>
          (let p = last ps; iadr = GetIndexOfAdr (tr_adr i p); tag = tr_tag_in i p
           in case entry_write ways tag (tr_ram s iadr) of
                None \<Rightarrow> s\<lparr>tr_fail := True\<rparr>
              | Some e \<Rightarrow> s\<lparr>tr_ram := (tr_ram s)(iadr := e), tr_loc := TR_write,
                             tr_fail := (tr_fail s \<or> 1 < length ps \<or> ways \<le> unat (way tag))\<rparr>))"

definition tagram_loop :: "nat \<Rightarrow> tagram_in \<Rightarrow> tagram \<Rightarrow> tagram" where
  "tagram_loop ways i s =
     tagram_write ways i s (fold (tagram_read ways i) [0..<TR_PORTS] (s\<lparr>tr_loc := TR_main\<rparr>))"

definition tagram_step :: "nat \<Rightarrow> tagram_in \<Rightarrow> tagram \<Rightarrow> tagram" where
  "tagram_step ways i s =
     (case tr_loc s of
        TR_init \<Rightarrow> tagram_loop ways i (s\<lparr>tr_ready := True\<rparr>)
      | TR_main \<Rightarrow> tagram_loop ways i s
      | TR_write \<Rightarrow> s\<lparr>tr_loc := TR_main\<rparr>)"

section \<open>The bank RAM\<close>

record bankram_in =
  br_rd :: "nat \<Rightarrow> bool"
  br_wr :: "nat \<Rightarrow> bool"
  br_wiadr :: "nat \<Rightarrow> u32"
  br_wdata :: "nat \<Rightarrow> u32"

record bankram =
  br_ram :: "u32 \<Rightarrow> u32"
  br_rdata :: "nat \<Rightarrow> u32"

abbreviation (input) BR_PORTS :: nat where "BR_PORTS \<equiv> 2"

definition bankram_write :: "bankram_in \<Rightarrow> nat \<Rightarrow> (u32 \<Rightarrow> u32) \<Rightarrow> u32 \<Rightarrow> u32" where
  "bankram_write i n ram = (if br_wr i n then ram(br_wiadr i n := br_wdata i n) else ram)"

definition bankram_step :: "bankram_in \<Rightarrow> bankram \<Rightarrow> bankram" where
  "bankram_step i s =
     (let ram = fold (bankram_write i) [0..<BR_PORTS] (br_ram s)
      in s\<lparr>br_ram := ram, br_rdata := (\<lambda>n. if n < BR_PORTS \<and> br_rd i n then ram (br_wiadr i n) else br_rdata s n)\<rparr>)"

section \<open>The tag RAM as a map\<close>

text \<open>What the tag RAM knows of an address: the way of its line and whether it is dirty.\<close>

definition tag_lookup :: "nat \<Rightarrow> tagram \<Rightarrow> u32 \<Rightarrow> (nat \<times> bool) option" where
  "tag_lookup ways s adr =
     (let e = tr_ram s (GetIndexOfAdr adr) in map_option (\<lambda>n. (n, e_dirty e n)) (fst (find_way ways e adr)))"

definition use_ok :: "nat \<Rightarrow> u32 \<Rightarrow> bool" where
  "use_ok ways u \<longleftrightarrow> (if ways = 4 then u < 64 \<and> distinct (use_order u) else if ways = 2 then u < 2 else u = 0)"

definition entry_ok :: "nat \<Rightarrow> STagEntry \<Rightarrow> bool" where
  "entry_ok ways e \<longleftrightarrow> use_ok ways (e_use e)
     \<and> (\<forall>m n. m < ways \<and> n < ways \<and> e_valid e m \<and> e_valid e n \<and> e_tadr e m = e_tadr e n \<longrightarrow> m = n)"

definition tag_ok :: "nat \<Rightarrow> tagram \<Rightarrow> bool" where
  "tag_ok ways s \<longleftrightarrow> (ways = 1 \<or> ways = 2 \<or> ways = 4) \<and> \<not> tr_fail s
     \<and> (\<forall>i < 512. entry_ok ways (tr_ram s i)) \<and> (\<forall>p < TR_PORTS. tr_use_wr_reg s p \<longrightarrow> use_ok ways (tr_use_reg s p) \<and> tr_use_iadr_reg s p < 512)"

text \<open>A write the ports may make: one at a time, and the tag is in no other way of its set.\<close>

definition tag_legal :: "nat \<Rightarrow> tagram_in \<Rightarrow> tagram \<Rightarrow> bool" where
  "tag_legal ways i s \<longleftrightarrow> \<not> (tr_wr i 0 \<and> tr_wr i 1)
     \<and> (\<forall>p < TR_PORTS. tr_wr i p \<longrightarrow> unat (way (tr_tag_in i p)) < ways
          \<and> (\<forall>n < ways. n \<noteq> unat (way (tr_tag_in i p)) \<and> valid (tr_tag_in i p) \<longrightarrow>
               \<not> (e_valid (tr_ram s (GetIndexOfAdr (tr_adr i p))) n
                  \<and> e_tadr (tr_ram s (GetIndexOfAdr (tr_adr i p))) n = tadr (tr_tag_in i p))))"

definition lookup_write :: "u32 \<Rightarrow> SCacheTag \<Rightarrow> (u32 \<Rightarrow> (nat \<times> bool) option) \<Rightarrow> u32 \<Rightarrow> (nat \<times> bool) option" where
  "lookup_write adr tag L b =
     (if GetIndexOfAdr b \<noteq> GetIndexOfAdr adr then L b
      else if valid tag \<and> GetTagOfAdr b = tadr tag then Some (unat (way tag), dirty tag)
      else case L b of None \<Rightarrow> None | Some (w, d) \<Rightarrow> if w = unat (way tag) then None else Some (w, d))"

lemma way_word_less: "w < ways \<Longrightarrow> ways = 1 \<or> ways = 2 \<or> ways = 4 \<Longrightarrow> (of_nat w :: u32) < of_nat ways \<and> unat (of_nat w :: u32) = w"
  by (auto simp: word_less_nat_alt unat_of_nat)

lemma find_way_upt:
  "find_way (Suc n) e adr =
     (let (w, bad) = find_way n e adr in if entry_hit e adr n then (Some n, bad \<or> w \<noteq> None) else (w, bad))"
  by (simp add: find_way_def split_beta Let_def)

lemma find_way_0 [simp]: "find_way 0 e adr = (None, False)"
  by (simp add: find_way_def)

lemma find_way_None: "fst (find_way ways e adr) = None \<longleftrightarrow> (\<forall>n < ways. \<not> entry_hit e adr n)"
  by (induction ways) (auto simp: find_way_upt split_beta Let_def less_Suc_eq)

lemma find_way_Some: "fst (find_way ways e adr) = Some n \<Longrightarrow> n < ways \<and> entry_hit e adr n"
  by (induction ways) (auto simp: find_way_upt split_beta Let_def split: if_splits)

lemma find_way_bad:
  "(\<forall>m n. m < ways \<and> n < ways \<and> entry_hit e adr m \<and> entry_hit e adr n \<longrightarrow> m = n) \<Longrightarrow> \<not> snd (find_way ways e adr)"
proof (induction ways)
  case (Suc k)
  then have "\<not> snd (find_way k e adr)" by (meson less_SucI)
  moreover have "entry_hit e adr k \<Longrightarrow> fst (find_way k e adr) = None"
    using Suc.prems by (auto simp: find_way_None) (metis less_Suc_eq nat_neq_iff)
  ultimately show ?case by (auto simp: find_way_upt split_beta Let_def)
qed simp

lemma entry_ok_hits: "entry_ok ways e \<Longrightarrow> m < ways \<Longrightarrow> n < ways \<Longrightarrow> entry_hit e adr m \<Longrightarrow> entry_hit e adr n \<Longrightarrow> m = n"
  unfolding entry_ok_def entry_hit_def by metis

lemma find_way_unique:
  assumes "entry_ok ways e" "n < ways" "entry_hit e adr n"
  shows "find_way ways e adr = (Some n, False)"
proof -
  obtain m where m: "fst (find_way ways e adr) = Some m"
    using assms(2,3) by (cases "fst (find_way ways e adr)") (auto simp: find_way_None)
  moreover have "m = n" using find_way_Some [OF m] entry_ok_hits [OF assms(1) _ assms(2) _ assms(3)] by blast
  moreover have "\<not> snd (find_way ways e adr)" by (rule find_way_bad) (use entry_ok_hits [OF assms(1)] in blast)
  ultimately show ?thesis by (metis prod.collapse)
qed

lemma find_way_miss: "(\<And>n. n < ways \<Longrightarrow> \<not> entry_hit e adr n) \<Longrightarrow> find_way ways e adr = (None, False)"
  using find_way_None [of ways e adr] find_way_bad [of ways e adr] by (metis prod.collapse)

lemma use_ok_victim:
  assumes "use_ok ways u" "ways = 1 \<or> ways = 2 \<or> ways = 4"
  shows "unat (u AND (of_nat ways - 1)) < ways"
proof -
  have "u AND (of_nat ways - 1) \<le> of_nat ways - 1" by (rule word_and_le1)
  then show ?thesis using assms(2) by (auto simp: word_le_nat_alt)
qed

lemma use_ok_touch:
  assumes "use_ok ways u" "ways = 1 \<or> ways = 2 \<or> ways = 4" "w < of_nat ways"
  shows "\<exists>v. GetNewUse ways u w = Some v \<and> use_ok ways v"
proof -
  consider "ways = 1" | "ways = 2" | "ways = 4" using assms(2) by blast
  then show ?thesis
  proof cases
    case 1 then show ?thesis by (simp add: GetNewUse_def use_ok_def)
  next
    case 2
    then have "unat w = 0 \<or> unat w = 1" using assms(3) by (auto simp: word_less_nat_alt)
    then have "w = 0 \<or> w = 1" by (auto simp: word_unat_eq_iff)
    then show ?thesis using 2 by (auto simp: GetNewUse_def use_ok_def)
  next
    case 3
    then obtain v where v: "GetNewUse 4 u w = Some v" "distinct (use_order v)"
      using GetNewUse_touch [of u w] assms(1,3) by (auto simp: use_ok_def)
    then have "v \<le> 0x3f" by (auto simp: GetNewUse_def intro: word_and_le1)
    then have "v < 64" by (simp add: word_le_nat_alt word_less_nat_alt)
    then show ?thesis using 3 v by (simp add: use_ok_def)
  qed
qed


lemma tagram_read_frame [simp]:
  "tr_ram (tagram_read ways i p s) = tr_ram s" "tr_loc (tagram_read ways i p s) = tr_loc s"
  "tr_ready (tagram_read ways i p s) = tr_ready s"
  "q \<noteq> p \<Longrightarrow> tr_tag_out (tagram_read ways i p s) q = tr_tag_out s q"
  by (simp_all add: tagram_read_def split_beta Let_def split: option.splits)

text \<open>What a reading port gets: the line of its address if there is one, else the way that is to be replaced.\<close>

definition tag_answer :: "nat \<Rightarrow> tagram \<Rightarrow> u32 \<Rightarrow> SCacheTag" where
  "tag_answer ways s adr =
     (let e = tr_ram s (GetIndexOfAdr adr);
          w = (case tag_lookup ways s adr of Some (n, _) \<Rightarrow> n | None \<Rightarrow> unat (e_use e AND (of_nat ways - 1)))
      in \<lparr>valid = (tag_lookup ways s adr \<noteq> None), dirty = e_dirty e w, tadr = e_tadr e w, way = of_nat w\<rparr>)"

lemma GetIndexOfAdr_less [simp]: "GetIndexOfAdr a < 512"
  using unat_GetIndexOfAdr [of a] by (simp add: word_less_nat_alt)

lemma tag_ok_entry: "tag_ok ways s \<Longrightarrow> entry_ok ways (tr_ram s (GetIndexOfAdr a))"
  by (simp add: tag_ok_def)

lemma entry_use_ok: "entry_ok ways e \<Longrightarrow> use_ok ways (e_use e)"
  by (simp add: entry_ok_def)

lemma tagram_read_ok:
  assumes "tag_ok ways s" "p < TR_PORTS"
  shows "tag_ok ways (tagram_read ways i p s)
     \<and> tr_tag_out (tagram_read ways i p s) p = (if tr_rd i p then tag_answer ways s (tr_adr i p) else tr_tag_out s p)"
proof (cases "tr_rd i p")
  case False
  then show ?thesis using assms(1) by (simp add: tagram_read_def)
next
  case True
  let ?e = "tr_ram s (GetIndexOfAdr (tr_adr i p))"
  have ok: "entry_ok ways ?e" and ways: "ways = 1 \<or> ways = 2 \<or> ways = 4"
    using assms(1) tag_ok_entry by (auto simp: tag_ok_def)
  show ?thesis
  proof (cases "fst (find_way ways ?e (tr_adr i p))")
    case None
    then have "find_way ways ?e (tr_adr i p) = (None, False)" using find_way_miss by (auto simp: find_way_None)
    then show ?thesis using True assms(1) by (simp add: tagram_read_def tag_answer_def tag_lookup_def tag_ok_def Let_def)
  next
    case (Some n)
    then have fw: "find_way ways ?e (tr_adr i p) = (Some n, False)" and n: "n < ways"
      using find_way_Some find_way_unique [OF ok] by blast+
    obtain v where v: "GetNewUse ways (e_use ?e) (of_nat n) = Some v" "use_ok ways v"
      using use_ok_touch [OF entry_use_ok [OF ok] ways] way_word_less [OF n ways] by blast
    then show ?thesis using True assms fw
      by (auto simp: tagram_read_def tag_answer_def tag_lookup_def tag_ok_def Let_def)
  qed
qed

lemma tagram_read_lookup [simp]: "tag_lookup ways (tagram_read ways' i p s) = tag_lookup ways s"
  by (simp add: tag_lookup_def fun_eq_iff)

lemma tag_answer_cong: "tr_ram s' = tr_ram s \<Longrightarrow> tag_answer ways s' = tag_answer ways s"
  by (simp add: tag_answer_def tag_lookup_def fun_eq_iff)

lemma find_way_cong:
  assumes "\<And>n. n < ways \<Longrightarrow> entry_hit e adr n = entry_hit e' adr n"
  shows "find_way ways e adr = find_way ways e' adr"
  using assms by (induction ways) (simp_all add: find_way_upt split_beta Let_def)

lemma entry_write_Some:
  assumes "entry_ok ways e" "ways = 1 \<or> ways = 2 \<or> ways = 4" "unat (way tag) < ways"
  obtains u where "entry_write ways tag e = Some (e\<lparr>e_valid := (e_valid e)(unat (way tag) := valid tag),
      e_dirty := (e_dirty e)(unat (way tag) := dirty tag), e_tadr := (e_tadr e)(unat (way tag) := tadr tag), e_use := u\<rparr>)"
    "use_ok ways u"
proof -
  have "way tag < of_nat ways" using assms(2,3) by (auto simp: word_less_nat_alt)
  then obtain u where "GetNewUse ways (e_use e) (way tag) = Some u" "use_ok ways u"
    using use_ok_touch [OF entry_use_ok [OF assms(1)] assms(2)] by blast
  then show ?thesis by (intro that) (auto simp: entry_write_def Let_def)
qed

text \<open>A write to the set of the address, when the tag it stores is in no other way.\<close>

lemma entry_written:
  assumes "entry_ok ways e" "ways = 1 \<or> ways = 2 \<or> ways = 4" "unat (way tag) < ways" "entry_write ways tag e = Some e'"
    and other: "\<And>n. n < ways \<Longrightarrow> n \<noteq> unat (way tag) \<Longrightarrow> valid tag \<Longrightarrow> \<not> (e_valid e n \<and> e_tadr e n = tadr tag)"
  shows "entry_ok ways e'"
    and "map_option (\<lambda>n. (n, e_dirty e' n)) (fst (find_way ways e' b)) =
       (if valid tag \<and> GetTagOfAdr b = tadr tag then Some (unat (way tag), dirty tag)
        else case fst (find_way ways e b) of None \<Rightarrow> None
             | Some w \<Rightarrow> if w = unat (way tag) then None else Some (w, e_dirty e w))"
proof -
  let ?w = "unat (way tag)"
  obtain u where e': "e' = e\<lparr>e_valid := (e_valid e)(?w := valid tag), e_dirty := (e_dirty e)(?w := dirty tag),
      e_tadr := (e_tadr e)(?w := tadr tag), e_use := u\<rparr>" and u: "use_ok ways u"
    using entry_write_Some [OF assms(1-3)] assms(4) by (metis option.inject)
  have "m = n" if "m < ways" "n < ways" "e_valid e' m" "e_valid e' n" "e_tadr e' m = e_tadr e' n" for m n
    using that assms(1) other [of m] other [of n] by (cases "m = ?w"; cases "n = ?w") (auto simp: e' entry_ok_def)
  moreover have "use_ok ways (e_use e')" using u by (simp add: e')
  ultimately show ok': "entry_ok ways e'" unfolding entry_ok_def by blast
  have hit': "entry_hit e' b n \<longleftrightarrow> (if n = ?w then valid tag \<and> GetTagOfAdr b = tadr tag else entry_hit e b n)" for n
    by (auto simp: entry_hit_def e')
  show "map_option (\<lambda>n. (n, e_dirty e' n)) (fst (find_way ways e' b)) =
       (if valid tag \<and> GetTagOfAdr b = tadr tag then Some (?w, dirty tag)
        else case fst (find_way ways e b) of None \<Rightarrow> None | Some w \<Rightarrow> if w = ?w then None else Some (w, e_dirty e w))"
  proof (cases "valid tag \<and> GetTagOfAdr b = tadr tag")
    case True
    then have "find_way ways e' b = (Some ?w, False)" using find_way_unique [OF ok' assms(3)] hit' by simp
    with True show ?thesis by (simp add: e')
  next
    case False
    show ?thesis
    proof (cases "\<exists>n < ways. n \<noteq> ?w \<and> entry_hit e b n")
      case True
      then obtain n where n: "n < ways" "n \<noteq> ?w" "entry_hit e b n" by blast
      then have "find_way ways e' b = (Some n, False)" "find_way ways e b = (Some n, False)"
        using find_way_unique [OF ok'] find_way_unique [OF assms(1)] hit' by simp_all
      with n False show ?thesis by (auto simp: e')
    next
      case miss: False
      then have "find_way ways e' b = (None, False)" using False hit' by (intro find_way_miss) auto
      moreover have "fst (find_way ways e b) = None \<or> fst (find_way ways e b) = Some ?w"
        using miss find_way_Some [of ways e b] by (cases "fst (find_way ways e b)") auto
      ultimately show ?thesis using False by auto
    qed
  qed
qed

lemma tagram_write_idle:
  assumes "tag_ok ways s0" "tag_ok ways s" "\<not> tr_wr i 0" "\<not> tr_wr i 1" "tr_ram s = tr_ram s0"
  shows "tag_ok ways (tagram_write ways i s0 s) \<and> tag_lookup ways (tagram_write ways i s0 s) = tag_lookup ways s
     \<and> tr_tag_out (tagram_write ways i s0 s) = tr_tag_out s \<and> tr_loc (tagram_write ways i s0 s) = tr_loc s"
proof -
  have f: "filter (tr_wr i) [0..<2] = []" using assms(3,4) by (auto simp: filter_empty_conv less_2_cases_iff)
  show ?thesis
  proof (cases "filter (tr_use_wr_reg s0) [0..<2]")
    case Nil
    then show ?thesis using assms f by (simp add: tagram_write_def)
  next
    case (Cons p ps)
    then have "p \<in> set (filter (tr_use_wr_reg s0) [0..<2])" by simp
    then have p: "p < 2" "tr_use_wr_reg s0 p" by auto
    then have u: "use_ok ways (tr_use_reg s0 p)" "tr_use_iadr_reg s0 p < 512" using assms(1) by (auto simp: tag_ok_def)
    let ?e = "(tr_ram s (tr_use_iadr_reg s0 p))\<lparr>e_use := tr_use_reg s0 p\<rparr>"
    have "entry_ok ways (tr_ram s (tr_use_iadr_reg s0 p))" using assms(2) u(2) by (simp add: tag_ok_def)
    then have "entry_ok ways ?e" using u(1) by (simp add: entry_ok_def)
    moreover have "find_way ways ?e b = find_way ways (tr_ram s (tr_use_iadr_reg s0 p)) b" for b
      by (rule find_way_cong) (simp add: entry_hit_def)
    ultimately show ?thesis using assms f Cons by (auto simp: tagram_write_def tag_ok_def tag_lookup_def fun_eq_iff Let_def)
  qed
qed

lemma filter_writers:
  assumes "tr_wr i p" "p < 2" "\<not> (tr_wr i 0 \<and> tr_wr i 1)"
  shows "filter (tr_wr i) [0..<2] = [p]"
  using assms by (auto simp: less_2_cases_iff upt_conv_Cons)

lemma tagram_write_port:
  assumes "tag_ok ways s" "tag_legal ways i s0" "tr_ram s = tr_ram s0" "tr_wr i p" "p < 2"
  shows "tag_ok ways (tagram_write ways i s0 s)
     \<and> tag_lookup ways (tagram_write ways i s0 s) = lookup_write (tr_adr i p) (tr_tag_in i p) (tag_lookup ways s)
     \<and> tr_tag_out (tagram_write ways i s0 s) = tr_tag_out s \<and> tr_loc (tagram_write ways i s0 s) = TR_write"
proof -
  let ?a = "GetIndexOfAdr (tr_adr i p)" and ?t = "tr_tag_in i p"
  have f: "filter (tr_wr i) [0..<2] = [p]" using assms(2,4,5) by (intro filter_writers) (auto simp: tag_legal_def)
  have e: "entry_ok ways (tr_ram s ?a)" and W: "ways = 1 \<or> ways = 2 \<or> ways = 4"
    using assms(1) tag_ok_entry by (auto simp: tag_ok_def)
  have w: "unat (way ?t) < ways" using assms(2,4,5) by (simp add: tag_legal_def)
  have other: "\<And>n. n < ways \<Longrightarrow> n \<noteq> unat (way ?t) \<Longrightarrow> valid ?t \<Longrightarrow> \<not> (e_valid (tr_ram s ?a) n \<and> e_tadr (tr_ram s ?a) n = tadr ?t)"
    using assms(2-5) by (simp add: tag_legal_def)
  obtain e' where e': "entry_write ways ?t (tr_ram s ?a) = Some e'" using entry_write_Some [OF e W w] by blast
  note written = entry_written [OF e W w e' other]
  have s': "tagram_write ways i s0 s = s\<lparr>tr_ram := (tr_ram s)(?a := e'), tr_loc := TR_write, tr_fail := tr_fail s\<rparr>"
    using f e' w by (simp add: tagram_write_def Let_def)
  have "tag_lookup ways (tagram_write ways i s0 s) b = lookup_write (tr_adr i p) ?t (tag_lookup ways s) b" for b
    unfolding s' using written(2) [of b] by (auto simp: tag_lookup_def lookup_write_def Let_def split: option.splits)
  moreover have "tag_ok ways (tagram_write ways i s0 s)"
    unfolding s' using assms(1) written(1) by (simp add: tag_ok_def)
  ultimately show ?thesis using s' by auto
qed

lemma tagram_loop_reads:
  fixes ways :: nat and i :: tagram_in and s :: tagram
  assumes "tag_ok ways s"
  defines "r \<equiv> fold (tagram_read ways i) [0..<2] (s\<lparr>tr_loc := TR_main\<rparr>)"
  shows "tag_ok ways r" "tr_ram r = tr_ram s" "tr_loc r = TR_main"
    and "\<forall>p < 2. tr_tag_out r p = (if tr_rd i p then tag_answer ways s (tr_adr i p) else tr_tag_out s p)"
proof -
  have r: "r = tagram_read ways i 1 (tagram_read ways i 0 (s\<lparr>tr_loc := TR_main\<rparr>))" by (simp add: r_def upt_conv_Cons)
  let ?s = "s\<lparr>tr_loc := TR_main\<rparr>"
  have s: "tag_ok ways ?s" using assms(1) by (simp add: tag_ok_def)
  note r0 = tagram_read_ok [OF s, of 0 i]
  note r1 = tagram_read_ok [of ways "tagram_read ways i 0 ?s" 1 i]
  show "tag_ok ways r" "tr_ram r = tr_ram s" "tr_loc r = TR_main" using r0 r1 by (simp_all add: r)
  have "tag_answer ways (tagram_read ways i 0 ?s) = tag_answer ways s" "tag_answer ways ?s = tag_answer ways s"
    by (rule tag_answer_cong; simp)+
  then show "\<forall>p < 2. tr_tag_out r p = (if tr_rd i p then tag_answer ways s (tr_adr i p) else tr_tag_out s p)"
    using r0 r1 by (auto simp: r less_2_cases_iff)
qed

lemma tag_lookup_cong: "tr_ram s' = tr_ram s \<Longrightarrow> tag_lookup ways s' = tag_lookup ways s"
  by (simp add: tag_lookup_def fun_eq_iff)

text \<open>The writer, if there is one.\<close>

definition tag_writer :: "tagram_in \<Rightarrow> nat option" where
  "tag_writer i = (if tr_wr i 0 then Some 0 else if tr_wr i 1 then Some 1 else None)"

lemma tagram_loop_ok:
  assumes "tag_ok ways s" "tag_legal ways i s"
  shows "tag_ok ways (tagram_loop ways i s)"
    and "\<forall>p < 2. tr_tag_out (tagram_loop ways i s) p = (if tr_rd i p then tag_answer ways s (tr_adr i p) else tr_tag_out s p)"
    and "tag_lookup ways (tagram_loop ways i s) =
       (case tag_writer i of None \<Rightarrow> tag_lookup ways s
        | Some p \<Rightarrow> lookup_write (tr_adr i p) (tr_tag_in i p) (tag_lookup ways s))"
    and "tr_loc (tagram_loop ways i s) = (if tag_writer i = None then TR_main else TR_write)"
proof -
  define r where "r = fold (tagram_read ways i) [0..<2] (s\<lparr>tr_loc := TR_main\<rparr>)"
  note reads = tagram_loop_reads [OF assms(1), of i, folded r_def]
  have loop: "tagram_loop ways i s = tagram_write ways i s r" by (simp add: tagram_loop_def r_def)
  consider (idle) "tag_writer i = None" "\<not> tr_wr i 0" "\<not> tr_wr i 1"
    | (writes) p where "tag_writer i = Some p" "tr_wr i p" "p < 2"
  proof (cases "tag_writer i")
    case None
    with that(1) show ?thesis by (simp add: tag_writer_def split: if_splits)
  next
    case (Some p)
    with that(2) show ?thesis by (auto simp: tag_writer_def split: if_splits)
  qed
  then have "tag_ok ways (tagram_loop ways i s) \<and> tr_tag_out (tagram_loop ways i s) = tr_tag_out r
    \<and> tag_lookup ways (tagram_loop ways i s) =
       (case tag_writer i of None \<Rightarrow> tag_lookup ways s
        | Some p \<Rightarrow> lookup_write (tr_adr i p) (tr_tag_in i p) (tag_lookup ways s))
    \<and> tr_loc (tagram_loop ways i s) = (if tag_writer i = None then TR_main else TR_write)"
  proof cases
    case idle
    then show ?thesis using tagram_write_idle [OF assms(1) reads(1) idle(2,3) reads(2)] reads(3) tag_lookup_cong [OF reads(2)]
      by (simp add: loop)
  next
    case writes
    then show ?thesis using tagram_write_port [OF reads(1) assms(2) reads(2) writes(2,3)] tag_lookup_cong [OF reads(2)]
      by (simp add: loop)
  qed
  with reads(4) show "tag_ok ways (tagram_loop ways i s)"
    "\<forall>p < 2. tr_tag_out (tagram_loop ways i s) p = (if tr_rd i p then tag_answer ways s (tr_adr i p) else tr_tag_out s p)"
    "tag_lookup ways (tagram_loop ways i s) =
       (case tag_writer i of None \<Rightarrow> tag_lookup ways s
        | Some p \<Rightarrow> lookup_write (tr_adr i p) (tr_tag_in i p) (tag_lookup ways s))"
    "tr_loc (tagram_loop ways i s) = (if tag_writer i = None then TR_main else TR_write)"
    by simp_all
qed

text \<open>Initialisation empties the cache.\<close>

lemma use_order_init: "use_order 0x24 = [0, 1, 2, 3]"
  by (simp add: use_order_def upt_conv_Cons)

lemma tagram_start_ok:
  assumes "ways = 1 \<or> ways = 2 \<or> ways = 4" "\<not> tr_fail s"
  shows "tag_ok ways (tagram_start ways s) \<and> tag_lookup ways (tagram_start ways s) adr = None"
proof -
  have "use_ok ways (if ways \<noteq> 4 then 0 else 0x24)" using assms(1) by (auto simp: use_ok_def use_order_init)
  moreover have "\<not> entry_hit (tr_ram (tagram_start ways s) (GetIndexOfAdr adr)) adr n" if "n < ways" for n
    using that by (simp add: tagram_start_def entry_hit_def)
  then have "find_way ways (tr_ram (tagram_start ways s) (GetIndexOfAdr adr)) adr = (None, False)" by (rule find_way_miss)
  ultimately show ?thesis using assms by (simp add: tag_ok_def tagram_start_def entry_ok_def tag_lookup_def)
qed

lemma tagram_start_loc: "tr_loc (tagram_start ways s) = TR_init"
  by (simp add: tagram_start_def)

section \<open>Properties\<close>

definition ex_tagram :: "nat \<Rightarrow> tagram" where
  "ex_tagram ways = tagram_start ways \<lparr>tr_loc = TR_init, tr_ready = False,
     tr_ram = (\<lambda>_. \<lparr>e_valid = (\<lambda>_. True), e_dirty = (\<lambda>_. True), e_tadr = (\<lambda>_. 7), e_use = 1\<rparr>),
     tr_use_reg = (\<lambda>_. 0), tr_use_iadr_reg = (\<lambda>_. 0), tr_use_wr_reg = (\<lambda>_. True),
     tr_tag_out = (\<lambda>_. \<lparr>valid = False, dirty = False, tadr = 0, way = 0\<rparr>), tr_fail = False\<rparr>"

definition ex_tag_write :: "tagram_in" where
  "ex_tag_write = \<lparr>tr_rd = (\<lambda>p. p = 0), tr_wr = (\<lambda>p. p = 1), tr_adr = (\<lambda>_. 0x12340),
     tr_tag_in = (\<lambda>_. \<lparr>valid = True, dirty = True, tadr = GetTagOfAdr 0x12340, way = 2\<rparr>)\<rparr>"

text \<open>
  C40.  The tag RAM is a map from addresses to the way and the state of their line, for each associativity the source supports:
  at a clock edge every reading port gets what the map knows of its address (with the way to replace for a miss), a write of
  one port, of a tag no other way of the set holds, changes the map at the addresses of that set only and is there
  for the reads after its second clock, no two ways come to hold the same line, and the assertions hold.
\<close>

theorem tag_ram_refines_map:
  assumes "tag_ok ways s" "tr_loc s = TR_main" "tag_legal ways i s"
  defines "s' \<equiv> tagram_step ways i s"
  shows "tag_ok ways s' \<and> \<not> tr_fail s'
    \<and> (\<forall>p < 2. tr_tag_out s' p = (if tr_rd i p then tag_answer ways s (tr_adr i p) else tr_tag_out s p))
    \<and> tag_lookup ways s' =
       (case tag_writer i of None \<Rightarrow> tag_lookup ways s
        | Some p \<Rightarrow> lookup_write (tr_adr i p) (tr_tag_in i p) (tag_lookup ways s))
    \<and> (tag_writer i = None \<and> tr_loc s' = TR_main
       \<or> tr_loc s' = TR_write \<and> (\<forall>j. tr_loc (tagram_step ways j s') = TR_main
           \<and> tr_ram (tagram_step ways j s') = tr_ram s' \<and> tr_tag_out (tagram_step ways j s') = tr_tag_out s'))"
  using tagram_loop_ok [OF assms(1,3)] assms(2)
  by (auto simp: s'_def tagram_step_def tag_ok_def)

lemma ex_tagram_ok:
  assumes "ways = 1 \<or> ways = 2 \<or> ways = 4"
  shows "tag_ok ways (tagram_step ways (ex_tag_write\<lparr>tr_wr := \<lambda>_. False\<rparr>) (ex_tagram ways))"
    "tr_loc (tagram_step ways (ex_tag_write\<lparr>tr_wr := \<lambda>_. False\<rparr>) (ex_tagram ways)) = TR_main"
    "tag_lookup ways (tagram_step ways (ex_tag_write\<lparr>tr_wr := \<lambda>_. False\<rparr>) (ex_tagram ways)) adr = None"
proof -
  let ?i = "ex_tag_write\<lparr>tr_wr := \<lambda>_. False\<rparr>"
  have s: "tag_ok ways (ex_tagram ways)" "tag_lookup ways (ex_tagram ways) adr = None" "tr_loc (ex_tagram ways) = TR_init"
    unfolding ex_tagram_def using tagram_start_ok [OF assms] tagram_start_loc by simp_all
  then have "tag_ok ways (ex_tagram ways\<lparr>tr_ready := True\<rparr>)" by (simp add: tag_ok_def)
  note l = tagram_loop_ok [OF this, of ?i]
  show "tag_ok ways (tagram_step ways ?i (ex_tagram ways))" "tr_loc (tagram_step ways ?i (ex_tagram ways)) = TR_main"
    "tag_lookup ways (tagram_step ways ?i (ex_tagram ways)) adr = None"
    using l s tag_lookup_cong [of "ex_tagram ways\<lparr>tr_ready := True\<rparr>" "ex_tagram ways" ways]
    by (simp_all add: tagram_step_def tag_legal_def tag_writer_def)
qed

theorem tag_ram_refines_map_witness:
  "let s = tagram_step 4 (ex_tag_write\<lparr>tr_wr := \<lambda>_. False\<rparr>) (ex_tagram 4); s' = tagram_step 4 ex_tag_write s
   in tag_lookup 4 s 0x12340 = None \<and> \<not> valid (tr_tag_out s' 0) \<and> tag_lookup 4 s' 0x12344 = Some (2, True)"
proof -
  define s where "s = tagram_step 4 (ex_tag_write\<lparr>tr_wr := \<lambda>_. False\<rparr>) (ex_tagram 4)"
  note ok = ex_tagram_ok [of 4, simplified, folded s_def]
  have "\<not> entry_hit (tr_ram s (GetIndexOfAdr a)) a n" if "n < 4" for a n
    using ok(3) [of a] that by (auto simp: tag_lookup_def find_way_None Let_def)
  then have "tag_legal 4 ex_tag_write s"
    by (auto simp: tag_legal_def ex_tag_write_def entry_hit_def)
  note step = tag_ram_refines_map [OF ok(1,2) this]
  have "tr_rd ex_tag_write 0" "tag_writer ex_tag_write = Some 1" "tr_adr ex_tag_write 1 = 0x12340"
    "tr_tag_in ex_tag_write 1 = \<lparr>valid = True, dirty = True, tadr = GetTagOfAdr 0x12340, way = 2\<rparr>"
    by (simp_all add: ex_tag_write_def tag_writer_def)
  then have "tr_tag_out (tagram_step 4 ex_tag_write s) 0 = tag_answer 4 s (tr_adr ex_tag_write 0)"
    "tag_lookup 4 (tagram_step 4 ex_tag_write s) 0x12344 = Some (2, True)"
    using step by (simp_all add: lookup_write_def GetIndexOfAdr_def GetTagOfAdr_def)
  then show ?thesis unfolding s_def [symmetric] Let_def using ok(3) by (simp add: tag_answer_def Let_def)
qed

text \<open>The word after a sequence of accesses; the way a miss replaces then.\<close>

definition use_run :: "nat \<Rightarrow> u32 list \<Rightarrow> u32 \<Rightarrow> u32 option" where
  "use_run ways ws u = fold (\<lambda>w r. case r of None \<Rightarrow> None | Some v \<Rightarrow> GetNewUse ways v w) ws (Some u)"

definition use_victim :: "nat \<Rightarrow> u32 \<Rightarrow> nat" where
  "use_victim ways u = unat (u AND (of_nat ways - 1))"

lemma use_victim_order: "use_victim 4 u = hd (use_order u)"
  by (simp add: use_victim_def use_order_def Let_def)

lemma use_run_touch:
  "\<lbrakk>use_ok 4 u; list_all (\<lambda>w. w < 4) ws\<rbrakk> \<Longrightarrow>
     \<exists>v. use_run 4 ws u = Some v \<and> use_ok 4 v \<and> use_order v = fold touch (map unat ws) (use_order u)"
proof (induction ws arbitrary: u)
  case (Cons w ws)
  obtain v where v: "GetNewUse 4 u w = Some v" "use_order v = touch (unat w) (use_order u)"
    using GetNewUse_touch [of u w] Cons.prems by (auto simp: use_ok_def)
  moreover have "use_ok 4 v" using use_ok_touch [of 4 u w] Cons.prems v(1) by simp
  ultimately show ?case using Cons.IH [of v] Cons.prems(2) by (simp add: use_run_def)
qed (simp add: use_run_def)

text \<open>
  Replacement of the four-way cache: after any sequence of accesses to a set since the initialisation, the \<open>use\<close> word
  stands for the order in which the ways were used, and the way that a miss replaces is the least recently used one.
\<close>

lemma lru_replacement:
  assumes "list_all (\<lambda>w. w < 4) ws"
  shows "\<exists>v. use_run 4 ws 0x24 = Some v
    \<and> use_order v = fold touch (map unat ws) [0, 1, 2, 3] \<and> use_victim 4 v = hd (fold touch (map unat ws) [0, 1, 2, 3])"
proof -
  have "use_ok 4 0x24" by (simp add: use_ok_def use_order_init)
  from use_run_touch [OF this assms] show ?thesis by (auto simp: use_order_init use_victim_order)
qed

lemma lru_replacement_witness:
  "\<exists>v. use_run 4 [1, 3, 1, 0] 0x24 = Some v \<and> use_order v = [2, 3, 1, 0] \<and> use_victim 4 v = 2"
  using lru_replacement [of "[1, 3, 1, 0]"] by (simp add: touch_def)

end
