(* ===== verification/PnArb.thy ===== *)
theory PnArb
  imports PnTag
begin

text \<open>
  The arbiter of the memory unit, module \<open>MArbiter\<close> of \<open>src/sysc/memu.cpp\<close>: who holds the line lock, the tag RAM, a
  port of a bank RAM and the bus interface.  Each method computes the grants of a cycle from the requests and the
  grants of the cycle before, which \<open>TransitionThread\<close> keeps in registers.  A vector of grants is a predicate on
  its bits: read ports at 0 to 3 (data ports first), write ports at 4 and 5, the bus interface at 6 (in
  vectors without read ports: write ports at 0 and 1, bus interface at 2).
\<close>

section \<open>Signals\<close>

abbreviation (input) WPORTS :: nat where "WPORTS \<equiv> 2"
abbreviation (input) RPORTS :: nat where "RPORTS \<equiv> 4"
abbreviation (input) ARBITER_METHOD :: nat where "ARBITER_METHOD \<equiv> 7"

record arb_in =
  a_wiadr_busif :: u32
  a_wiadr_rp :: "nat \<Rightarrow> u32"
  a_adr_wp :: "nat \<Rightarrow> u32"
  a_way_wp :: "nat \<Rightarrow> u32"
  a_req_busif_linelock :: bool
  a_req_wp_linelock :: "nat \<Rightarrow> bool"
  a_tagram_ready :: bool
  a_req_busif_tagw :: bool
  a_req_wp_tagw :: "nat \<Rightarrow> bool"
  a_req_busif_tagr :: bool
  a_req_wp_tagr :: "nat \<Rightarrow> bool"
  a_req_rp_tagr :: "nat \<Rightarrow> bool"
  a_req_busif_bank :: "nat \<Rightarrow> bool"
  a_req_wp_bank :: "nat \<Rightarrow> nat \<Rightarrow> bool"
  a_req_rp_bank :: "nat \<Rightarrow> nat \<Rightarrow> bool"
  a_req_rp_busif :: "nat \<Rightarrow> bool"
  a_req_wp_busif :: "nat \<Rightarrow> bool"

record arb =
  counter_reg :: u32
  linelock_reg :: "nat \<Rightarrow> bool"
  tagr_reg :: "nat \<Rightarrow> bool"
  tagw_reg :: "nat \<Rightarrow> bool"
  bank_reg :: "nat \<Rightarrow> nat \<Rightarrow> bool"
  busif_reg :: "nat \<Rightarrow> bool"

text \<open>Whether a vector of \<open>n\<close> bits is not zero.\<close>

definition any_bit :: "nat \<Rightarrow> (nat \<Rightarrow> bool) \<Rightarrow> bool" where
  "any_bit n g \<longleftrightarrow> list_ex g [0..<n]"

definition GetPrioCpu :: "arb \<Rightarrow> nat" where
  "GetPrioCpu s = unat (drop_bit ARBITER_METHOD (counter_reg s)) mod CPU_CORES"

section \<open>Line lock\<close>

definition linelock_req :: "arb_in \<Rightarrow> nat \<Rightarrow> bool" where
  "linelock_req i n = (if n < WPORTS then a_req_wp_linelock i n else n = WPORTS \<and> a_req_busif_linelock i)"

definition same_line :: "arb_in \<Rightarrow> nat \<Rightarrow> bool" where
  "same_line i n \<longleftrightarrow> GetIndexOfAdr (a_adr_wp i n) = GetIndexOfWayIndex (a_wiadr_busif i)"

definition linelock_choose :: "arb_in \<Rightarrow> nat \<Rightarrow> (nat \<Rightarrow> bool) \<Rightarrow> nat \<Rightarrow> bool" where
  "linelock_choose i k g =
     (if \<not> any_bit WPORTS g \<and> linelock_req i k \<and> (\<not> g WPORTS \<or> \<not> same_line i k) then g(k := True) else g)"

definition LineLockMethod :: "arb_in \<Rightarrow> arb \<Rightarrow> nat \<Rightarrow> bool" where
  "LineLockMethod i s =
     (let kept = (\<lambda>n. linelock_reg s n \<and> linelock_req i n);
          g = (if linelock_req i WPORTS \<and> \<not> kept WPORTS
               then kept(WPORTS := \<not> list_ex (\<lambda>n. kept n \<and> same_line i n) [0..<WPORTS]) else kept)
      in fold (\<lambda>n. linelock_choose i ((n + GetPrioCpu s) mod WPORTS)) [0..<WPORTS] g)"

section \<open>Tag RAM\<close>

definition tagr_req :: "arb_in \<Rightarrow> nat \<Rightarrow> bool" where
  "tagr_req i n = (if n < RPORTS then a_req_rp_tagr i n else if n < RPORTS + WPORTS then a_req_wp_tagr i (n - RPORTS)
                   else n = RPORTS + WPORTS \<and> a_req_busif_tagr i)"

definition tagw_req :: "arb_in \<Rightarrow> nat \<Rightarrow> bool" where
  "tagw_req i n = (if n < WPORTS then a_req_wp_tagw i n else n = WPORTS \<and> a_req_busif_tagw i)"

text \<open>One reader for each CPU: bus interface (on the port of the last CPU), data read, instruction read, write port.\<close>

definition tagr_select :: "(nat \<Rightarrow> bool) \<Rightarrow> nat \<Rightarrow> (nat \<Rightarrow> bool) \<Rightarrow> nat \<Rightarrow> bool" where
  "tagr_select req n g =
     (if \<not> g n \<and> \<not> g (WPORTS + n) \<and> \<not> g (2 * WPORTS + n) \<and> (n \<noteq> CPU_CORES - 1 \<or> \<not> g (RPORTS + WPORTS))
      then if n = CPU_CORES - 1 \<and> req (RPORTS + WPORTS) then g(RPORTS + WPORTS := True)
           else if req n then g(n := True)
           else if req (WPORTS + n) then g(WPORTS + n := True)
           else if req (RPORTS + n) then g(RPORTS + n := True)
           else g
      else g)"

definition TagMethod :: "arb_in \<Rightarrow> arb \<Rightarrow> (nat \<Rightarrow> bool) \<times> (nat \<Rightarrow> bool)" where
  "TagMethod i s =
     (if \<not> a_tagram_ready i then (\<lambda>_. False, \<lambda>_. False)
      else let req_tagr = tagr_req i; req_tagw = tagw_req i;
               keptr = (\<lambda>n. tagr_reg s n \<and> req_tagr n); keptw = (\<lambda>n. tagw_reg s n \<and> req_tagw n);
               gr = (if \<not> any_bit (WPORTS + 1) req_tagw then fold (tagr_select req_tagr) [0..<CPU_CORES] keptr else keptr);
               gw = (if \<not> any_bit (RPORTS + WPORTS + 1) gr \<and> \<not> any_bit (WPORTS + 1) keptw
                     then if req_tagw WPORTS then keptw(WPORTS := True)
                          else case filter (\<lambda>k. req_tagw k) (map (\<lambda>n. (n + GetPrioCpu s) mod WPORTS) [0..<WPORTS]) of
                                 [] \<Rightarrow> keptw | k # _ \<Rightarrow> keptw(k := True)
                     else keptw)
           in (gr, gw))"

section \<open>Bank RAMs\<close>

abbreviation (input) IDX_RP :: "nat \<Rightarrow> nat" where "IDX_RP cpu \<equiv> cpu"
abbreviation (input) IDX_WP :: "nat \<Rightarrow> nat" where "IDX_WP cpu \<equiv> 4 + cpu"
abbreviation (input) IDX_IP :: "nat \<Rightarrow> nat" where "IDX_IP cpu \<equiv> 2 + cpu"
abbreviation (input) IDX_BUSIF :: nat where "IDX_BUSIF \<equiv> 6"
abbreviation (input) RAMPORT_BUSIF :: nat where "RAMPORT_BUSIF \<equiv> 1"

definition RAMPORT :: "nat \<Rightarrow> nat" where
  "RAMPORT idx = (if idx = IDX_BUSIF then RAMPORT_BUSIF else (idx mod CPU_CORES) mod BR_PORTS)"

text \<open>The way and index address of a port.\<close>

definition bank_wiadr :: "arb_in \<Rightarrow> nat \<Rightarrow> u32" where
  "bank_wiadr i n =
     (if n < RPORTS then a_wiadr_rp i n
      else if n < RPORTS + WPORTS then GetWayIndexOfAdr (a_adr_wp i (n - RPORTS)) (a_way_wp i (n - RPORTS))
      else a_wiadr_busif i)"

definition bank_req :: "arb_in \<Rightarrow> nat \<Rightarrow> nat \<Rightarrow> bool" where
  "bank_req i b n =
     (if n < RPORTS then a_req_rp_bank i n b
      else if n < RPORTS + WPORTS then a_req_wp_bank i (n - RPORTS) b
      else n = RPORTS + WPORTS \<and> a_req_busif_bank i b)"

text \<open>The port that selects the address of each side of a bank RAM: holders first, then the bus interface, then by CPU.\<close>

definition bank_holders :: "(nat \<Rightarrow> bool) \<Rightarrow> nat \<Rightarrow> nat option" where
  "bank_holders kept = fold (\<lambda>n sel. if kept n then sel(RAMPORT n := Some n) else sel) [0..<RPORTS + WPORTS + 1] (\<lambda>_. None)"

definition bank_choose :: "(nat \<Rightarrow> bool) \<Rightarrow> nat \<Rightarrow> (nat \<Rightarrow> nat option) \<Rightarrow> nat \<Rightarrow> nat option" where
  "bank_choose req k sel =
     (let p = RAMPORT k in
      if sel p \<noteq> None then sel
      else if req (IDX_RP k) then sel(p := Some (IDX_RP k))
      else if req (IDX_IP k) then sel(p := Some (IDX_IP k))
      else if req (IDX_WP k) then sel(p := Some (IDX_WP k))
      else sel)"

definition prio_cpus :: "arb \<Rightarrow> nat list" where
  "prio_cpus s = map (\<lambda>n. (GetPrioCpu s + n) mod CPU_CORES) [0..<CPU_CORES]"

definition bank_select :: "arb \<Rightarrow> (nat \<Rightarrow> bool) \<Rightarrow> (nat \<Rightarrow> bool) \<Rightarrow> nat \<Rightarrow> nat option" where
  "bank_select s req kept =
     (let sel0 = bank_holders kept;
          sel1 = (if req IDX_BUSIF \<and> sel0 RAMPORT_BUSIF = None then sel0(RAMPORT_BUSIF := Some IDX_BUSIF) else sel0)
      in fold (bank_choose req) (prio_cpus s) sel1)"

text \<open>Among the writers, each side of a bank RAM serves one.\<close>

definition bank_writer :: "(nat \<Rightarrow> bool) \<Rightarrow> nat \<Rightarrow> (nat \<Rightarrow> nat option) \<Rightarrow> nat \<Rightarrow> nat option" where
  "bank_writer g k sel =
     (let p = RAMPORT k in if sel p \<noteq> Some IDX_BUSIF \<and> g (IDX_WP k) then sel(p := Some (IDX_WP k)) else sel)"

text \<open>The grants of bank \<open>b\<close> and the address of each side.\<close>

definition BankMethod :: "arb_in \<Rightarrow> arb \<Rightarrow> nat \<Rightarrow> (nat \<Rightarrow> bool) \<times> (nat \<Rightarrow> u32)" where
  "BankMethod i s b =
     (let req = bank_req i b;
          kept = (\<lambda>n. bank_reg s b n \<and> req n);
          sel = bank_select s req kept;
          sel_wiadr = (\<lambda>p. case sel p of None \<Rightarrow> 0xffffffff | Some n \<Rightarrow> bank_wiadr i n);
          g = (\<lambda>n. kept n \<or> n < RPORTS + WPORTS + 1 \<and> sel (RAMPORT n) \<noteq> None \<and> req n \<and> bank_wiadr i n = sel_wiadr (RAMPORT n));
          sel' = fold (bank_writer g) (prio_cpus s) sel;
          g' = fold (\<lambda>n g. if sel' (RAMPORT n) \<noteq> Some (IDX_WP n) then g(IDX_WP n := False) else g) [0..<CPU_CORES] g;
          g'' = (if sel' RAMPORT_BUSIF \<noteq> Some IDX_BUSIF then g'(IDX_BUSIF := False) else g')
      in (g'', sel_wiadr))"

section \<open>Bus interface, snooping, registers\<close>

definition busif_req :: "arb_in \<Rightarrow> nat \<Rightarrow> bool" where
  "busif_req i n = (if n < RPORTS then a_req_rp_busif i n else n < RPORTS + WPORTS \<and> a_req_wp_busif i (n - RPORTS))"

definition busif_choose :: "(nat \<Rightarrow> bool) \<Rightarrow> nat \<Rightarrow> (nat \<Rightarrow> bool) \<Rightarrow> nat \<Rightarrow> bool" where
  "busif_choose req k g =
     (if any_bit (RPORTS + WPORTS) g then g
      else if req k then g(k := True)
      else if req (CPU_CORES + k) then g(CPU_CORES + k := True)
      else if req (RPORTS + k) then g(RPORTS + k := True)
      else g)"

definition BusIfMethod :: "arb_in \<Rightarrow> arb \<Rightarrow> nat \<Rightarrow> bool" where
  "BusIfMethod i s =
     fold (\<lambda>n. busif_choose (busif_req i) ((n + GetPrioCpu s) mod CPU_CORES)) [0..<CPU_CORES]
       (\<lambda>n. busif_reg s n \<and> busif_req i n)"

text \<open>\<open>None\<close> is the failed assertion for two writers; else the address and the ports that are told of it.\<close>

definition SnoopMethod :: "arb_in \<Rightarrow> (nat \<Rightarrow> bool) \<Rightarrow> (u32 \<times> (nat \<Rightarrow> bool)) option" where
  "SnoopMethod i next_linelock =
     (case filter next_linelock [0..<WPORTS] of
        [] \<Rightarrow> Some (0xffffffff, \<lambda>_. False)
      | [w] \<Rightarrow> Some (a_adr_wp i w, \<lambda>n. n < WPORTS \<and> n \<noteq> w)
      | _ \<Rightarrow> None)"

definition arb_transition :: "bool \<Rightarrow> arb_in \<Rightarrow> arb \<Rightarrow> arb" where
  "arb_transition reset i s =
     (if reset then s\<lparr>counter_reg := 0xffff, linelock_reg := \<lambda>_. False\<rparr>
      else \<lparr>counter_reg = (counter_reg s + 1) AND (push_bit ARBITER_METHOD (of_nat CPU_CORES) - 1),
            linelock_reg = LineLockMethod i s, tagr_reg = fst (TagMethod i s), tagw_reg = snd (TagMethod i s),
            bank_reg = (\<lambda>b. if b < CACHE_BANKS then fst (BankMethod i s b) else bank_reg s b), busif_reg = BusIfMethod i s\<rparr>)"

section \<open>Exclusion\<close>

definition at_most_one :: "nat \<Rightarrow> (nat \<Rightarrow> bool) \<Rightarrow> bool" where
  "at_most_one k g \<longleftrightarrow> (\<forall>m < k. \<forall>n < k. g m \<and> g n \<longrightarrow> m = n)"

text \<open>One holder of each kind in each group that shares something; \<open>RAMPORT\<close> is the CPU also for the tag RAM.\<close>

definition one_per_side :: "nat \<Rightarrow> (nat \<Rightarrow> bool) \<Rightarrow> bool" where
  "one_per_side from g \<longleftrightarrow> (\<forall>m < 7. \<forall>n < 7. from \<le> m \<and> from \<le> n \<and> g m \<and> g n \<and> RAMPORT m = RAMPORT n \<longrightarrow> m = n)"

definition arb_ok :: "arb \<Rightarrow> bool" where
  "arb_ok s \<longleftrightarrow> at_most_one 2 (linelock_reg s) \<and> one_per_side 0 (tagr_reg s) \<and> at_most_one 3 (tagw_reg s)
     \<and> (any_bit 3 (tagw_reg s) \<longrightarrow> \<not> any_bit 7 (tagr_reg s)) \<and> (\<forall>b < 4. one_per_side 4 (bank_reg s b)) \<and> at_most_one 6 (busif_reg s)"

text \<open>
  The addresses of those who hold something and still want it are as they were: holders of one side of a bank agree, and
  the line of the bus interface is not that of the write port.
\<close>

definition arb_held :: "arb_in \<Rightarrow> arb \<Rightarrow> bool" where
  "arb_held i s \<longleftrightarrow>
     (\<forall>n < 2. linelock_reg s 2 \<and> linelock_req i 2 \<and> linelock_reg s n \<and> linelock_req i n \<longrightarrow> \<not> same_line i n)
     \<and> (\<forall>b < 4. \<forall>m < 7. \<forall>n < 7. bank_reg s b m \<and> bank_req i b m \<and> bank_reg s b n \<and> bank_req i b n \<and> RAMPORT m = RAMPORT n
          \<longrightarrow> bank_wiadr i m = bank_wiadr i n)"

lemma upt_2: "[0..<2] = [0, 1 :: nat]" and upt_3: "[0..<3] = [0, 1, 2 :: nat]"
  and upt_7: "[0..<7] = [0, 1, 2, 3, 4, 5, 6 :: nat]" and upt_6: "[0..<6] = [0, 1, 2, 3, 4, 5 :: nat]"
  by (simp_all add: upt_conv_Cons)

lemma all_less_2: "(\<forall>n < 2. P n) \<longleftrightarrow> P 0 \<and> P (1 :: nat)" and all_less_3: "(\<forall>n < 3. P n) \<longleftrightarrow> P 0 \<and> P 1 \<and> P (2 :: nat)"
  and all_less_6: "(\<forall>n < 6. P n) \<longleftrightarrow> P 0 \<and> P 1 \<and> P 2 \<and> P 3 \<and> P 4 \<and> P (5 :: nat)"
  and all_less_7: "(\<forall>n < 7. P n) \<longleftrightarrow> P 0 \<and> P 1 \<and> P 2 \<and> P 3 \<and> P 4 \<and> P 5 \<and> P (6 :: nat)"
  by (auto simp: numeral_eq_Suc All_less_Suc)

lemma RAMPORT_simps [simp]:
  "RAMPORT 0 = 0" "RAMPORT 1 = 1" "RAMPORT (Suc 0) = 1" "RAMPORT 2 = 0" "RAMPORT 3 = 1" "RAMPORT 4 = 0" "RAMPORT 5 = 1" "RAMPORT 6 = 1"
  by (simp_all add: RAMPORT_def)

lemma one_per_side_0: "one_per_side 0 g \<longleftrightarrow>
    \<not> (g 0 \<and> g 2) \<and> \<not> (g 0 \<and> g 4) \<and> \<not> (g 2 \<and> g 4)
    \<and> \<not> (g 1 \<and> g 3) \<and> \<not> (g 1 \<and> g 5) \<and> \<not> (g 1 \<and> g 6) \<and> \<not> (g 3 \<and> g 5) \<and> \<not> (g 3 \<and> g 6) \<and> \<not> (g 5 \<and> g 6)"
  unfolding one_per_side_def all_less_7 by simp blast

lemma one_per_side_4: "one_per_side 4 g \<longleftrightarrow> \<not> (g 5 \<and> g 6)"
  unfolding one_per_side_def all_less_7 by simp blast

lemma GetPrioCpu_cases: "GetPrioCpu s = 0 \<or> GetPrioCpu s = 1"
  by (auto simp: GetPrioCpu_def)

lemma any_bit_simps: "any_bit 2 g \<longleftrightarrow> g 0 \<or> g 1" "any_bit 3 g \<longleftrightarrow> g 0 \<or> g 1 \<or> g 2"
  "any_bit 6 g \<longleftrightarrow> g 0 \<or> g 1 \<or> g 2 \<or> g 3 \<or> g 4 \<or> g 5" "any_bit 7 g \<longleftrightarrow> g 0 \<or> g 1 \<or> g 2 \<or> g 3 \<or> g 4 \<or> g 5 \<or> g 6"
  by (simp_all add: any_bit_def upt_2 upt_3 upt_6 upt_7)


lemma fold_keeps: "\<lbrakk>P g; \<And>k g. k \<in> set ks \<Longrightarrow> P g \<Longrightarrow> P (f k g)\<rbrakk> \<Longrightarrow> P (fold f ks g)"
  by (induction ks arbitrary: g) simp_all

text \<open>One vector within another.\<close>

definition within :: "(nat \<Rightarrow> bool) \<Rightarrow> (nat \<Rightarrow> bool) \<Rightarrow> bool" where
  "within f g \<longleftrightarrow> (\<forall>n. f n \<longrightarrow> g n)"

lemma withinD: "within f g \<Longrightarrow> f n \<Longrightarrow> g n"
  by (simp add: within_def)

lemma within_grant: "within f r \<Longrightarrow> r k \<Longrightarrow> within (f(k := True)) r" and within_more: "within h f \<Longrightarrow> within h (f(k := True))"
  and within_same: "within f f" and within_kept: "within (\<lambda>n. f n \<and> r n) r"
  by (simp_all add: within_def)

lemma at_most_one_first: "\<not> any_bit k g \<Longrightarrow> at_most_one k (g(j := True))"
  by (auto simp: at_most_one_def any_bit_def list_ex_iff)

definition linelock_good :: "arb_in \<Rightarrow> arb \<Rightarrow> (nat \<Rightarrow> bool) \<Rightarrow> bool" where
  "linelock_good i s g \<longleftrightarrow> at_most_one 2 g \<and> (\<forall>n < 2. g 2 \<and> g n \<longrightarrow> \<not> same_line i n)
     \<and> within g (linelock_req i) \<and> within (\<lambda>n. linelock_reg s n \<and> linelock_req i n) g"

lemma linelock_choose_good:
  assumes "linelock_good i s g" "k < 2"
  shows "linelock_good i s (linelock_choose i k g)"
proof (cases "\<not> any_bit 2 g \<and> linelock_req i k \<and> (\<not> g 2 \<or> \<not> same_line i k)")
  case True
  then have "\<not> g 0" "\<not> g 1" by (simp_all add: any_bit_simps)
  then have "\<forall>n < 2. (g(k := True)) 2 \<and> (g(k := True)) n \<longrightarrow> \<not> same_line i n"
    using True assms(2) unfolding all_less_2 less_2_cases_iff by auto
  then show ?thesis using True assms
    by (simp add: linelock_good_def linelock_choose_def at_most_one_first within_grant within_more)
next
  case False
  then show ?thesis using assms(1) unfolding linelock_choose_def by (simp only: if_False)
qed

lemma LineLock_good:
  assumes "at_most_one 2 (linelock_reg s)"
    and "\<forall>n < 2. linelock_reg s 2 \<and> linelock_req i 2 \<and> linelock_reg s n \<and> linelock_req i n \<longrightarrow> \<not> same_line i n"
  shows "linelock_good i s (LineLockMethod i s)"
proof -
  define kept where "kept = (\<lambda>n. linelock_reg s n \<and> linelock_req i n)"
  define g where "g = (if linelock_req i 2 \<and> \<not> kept 2
      then kept(2 := \<not> list_ex (\<lambda>n. kept n \<and> same_line i n) [0..<2]) else kept)"
  have one: "at_most_one 2 kept" using assms(1) by (auto simp: at_most_one_def kept_def)
  have "at_most_one 2 g" using one by (auto simp: g_def at_most_one_def)
  moreover have "\<forall>n < 2. g 2 \<and> g n \<longrightarrow> \<not> same_line i n"
    using assms(2) unfolding all_less_2 g_def by (auto simp: kept_def upt_2)
  moreover have "within g (linelock_req i)" by (auto simp: g_def kept_def within_def)
  moreover have "within kept g" by (auto simp: g_def within_def)
  ultimately have "linelock_good i s g" by (simp add: linelock_good_def kept_def)
  then have "linelock_good i s (fold (\<lambda>n. linelock_choose i ((n + GetPrioCpu s) mod 2)) [0..<2] g)"
    by (rule fold_keeps [where P = "linelock_good i s"]) (auto intro: linelock_choose_good)
  then show ?thesis unfolding LineLockMethod_def Let_def g_def kept_def .
qed

definition tagr_good :: "arb_in \<Rightarrow> arb \<Rightarrow> (nat \<Rightarrow> bool) \<Rightarrow> bool" where
  "tagr_good i s g \<longleftrightarrow> one_per_side 0 g \<and> within g (tagr_req i) \<and> within (\<lambda>n. tagr_reg s n \<and> tagr_req i n) g"

lemma tagr_select_good: "tagr_good i s g \<Longrightarrow> k < 2 \<Longrightarrow> tagr_good i s (tagr_select (tagr_req i) k g)"
  unfolding tagr_good_def one_per_side_0 less_2_cases_iff
  by (elim disjE; simp add: tagr_select_def within_grant within_more)

definition tagw_good :: "arb_in \<Rightarrow> arb \<Rightarrow> (nat \<Rightarrow> bool) \<Rightarrow> bool" where
  "tagw_good i s g \<longleftrightarrow> at_most_one 3 g \<and> within g (tagw_req i) \<and> within (\<lambda>n. tagw_reg s n \<and> tagw_req i n) g"

lemma Tag_good:
  assumes "one_per_side 0 (tagr_reg s)" "at_most_one 3 (tagw_reg s)" "any_bit 3 (tagw_reg s) \<longrightarrow> \<not> any_bit 7 (tagr_reg s)"
    "a_tagram_ready i"
  shows "tagr_good i s (fst (TagMethod i s))" "tagw_good i s (snd (TagMethod i s))"
    and "any_bit 3 (snd (TagMethod i s)) \<longrightarrow> \<not> any_bit 7 (fst (TagMethod i s))"
proof -
  define keptr where "keptr = (\<lambda>n. tagr_reg s n \<and> tagr_req i n)"
  define keptw where "keptw = (\<lambda>n. tagw_reg s n \<and> tagw_req i n)"
  define gr where "gr = (if \<not> any_bit 3 (tagw_req i) then fold (tagr_select (tagr_req i)) [0..<2] keptr else keptr)"
  define gw where "gw = (if \<not> any_bit 7 gr \<and> \<not> any_bit 3 keptw
                     then if tagw_req i 2 then keptw(2 := True)
                          else case filter (\<lambda>k. tagw_req i k) (map (\<lambda>n. (n + GetPrioCpu s) mod 2) [0..<2]) of
                                 [] \<Rightarrow> keptw | k # _ \<Rightarrow> keptw(k := True)
                     else keptw)"
  have T: "TagMethod i s = (gr, gw)"
    using assms(4) by (simp only: TagMethod_def Let_def gr_def gw_def keptr_def keptw_def if_False not_True_eq_False
      numeral_plus_one semiring_norm)
  have keptr: "tagr_good i s keptr" using assms(1) by (auto simp: tagr_good_def keptr_def one_per_side_0 within_same within_kept)
  have "tagr_good i s (fold (tagr_select (tagr_req i)) [0..<2] keptr)"
    by (rule fold_keeps [where P = "tagr_good i s"]) (auto intro: keptr tagr_select_good)
  with keptr show "tagr_good i s (fst (TagMethod i s))" by (simp add: T gr_def)
  have keptw: "tagw_good i s keptw" using assms(2) by (auto simp: tagw_good_def keptw_def at_most_one_def within_same within_kept)
  show "tagw_good i s (snd (TagMethod i s))"
  proof (cases "\<not> any_bit 7 gr \<and> \<not> any_bit 3 keptw")
    case False
    with keptw show ?thesis by (auto simp: T gw_def)
  next
    case True
    then have none: "\<not> keptw 0" "\<not> keptw 1" "\<not> keptw 2" by (simp_all add: any_bit_simps)
    have one: "tagw_good i s (keptw(k := True))" if "tagw_req i k" "k < 3" for k
      using that none keptw by (auto simp: tagw_good_def at_most_one_def all_less_3 within_grant within_more)
    show ?thesis
    proof (cases "tagw_req i 2")
      case False
      show ?thesis
      proof (cases "filter (\<lambda>k. tagw_req i k) (map (\<lambda>n. (n + GetPrioCpu s) mod 2) [0..<2])")
        case Nil
        then show ?thesis using True False keptw by (simp add: T gw_def)
      next
        case (Cons k ks)
        then have "k \<in> set (filter (\<lambda>k. tagw_req i k) (map (\<lambda>n. (n + GetPrioCpu s) mod 2) [0..<2]))" by simp
        then have "tagw_req i k" "k < 3" by auto
        with one Cons show ?thesis using True False by (simp add: T gw_def)
      qed
    qed (use True one in \<open>simp add: T gw_def\<close>)
  qed
  show "any_bit 3 (snd (TagMethod i s)) \<longrightarrow> \<not> any_bit 7 (fst (TagMethod i s))"
  proof
    assume w: "any_bit 3 (snd (TagMethod i s))"
    show "\<not> any_bit 7 (fst (TagMethod i s))"
    proof (cases "any_bit 7 gr")
      case True
      then have "any_bit 3 keptw" using w by (simp add: T gw_def)
      then have "\<not> any_bit 7 (tagr_reg s)" "any_bit 3 (tagw_req i)" using assms(3) by (auto simp: any_bit_simps keptw_def)
      then have "\<not> any_bit 7 gr" by (auto simp: any_bit_simps gr_def keptr_def)
      with True show ?thesis by simp
    qed (simp add: T)
  qed
qed

definition busif_good :: "arb_in \<Rightarrow> arb \<Rightarrow> (nat \<Rightarrow> bool) \<Rightarrow> bool" where
  "busif_good i s g \<longleftrightarrow> at_most_one 6 g \<and> within g (busif_req i) \<and> within (\<lambda>n. busif_reg s n \<and> busif_req i n) g"

lemma busif_choose_good: "busif_good i s g \<Longrightarrow> busif_good i s (busif_choose (busif_req i) k g)"
  by (simp add: busif_good_def busif_choose_def at_most_one_first within_grant within_more)

lemma BusIf_good:
  assumes "at_most_one 6 (busif_reg s)"
  shows "busif_good i s (BusIfMethod i s)"
  unfolding BusIfMethod_def
proof (rule fold_keeps [where P = "busif_good i s"])
  show "busif_good i s (\<lambda>n. busif_reg s n \<and> busif_req i n)"
    using assms by (auto simp: busif_good_def at_most_one_def within_same within_kept)
qed (rule busif_choose_good)

section \<open>Exclusion at the bank RAMs\<close>

lemma bank_holders_fold:
  "fold (\<lambda>n sel. if kept n then sel(RAMPORT n := Some n) else sel) ns sel0 p =
     (case filter (\<lambda>n. kept n \<and> RAMPORT n = p) ns of [] \<Rightarrow> sel0 p | xs \<Rightarrow> Some (last xs))"
  by (induction ns rule: rev_induct) (auto split: list.splits)

lemma sorted_last: "sorted xs \<Longrightarrow> m \<in> set xs \<Longrightarrow> m \<le> last xs"
  by (induction xs) auto

lemma bank_holder_Some:
  assumes "bank_holders kept p = Some n"
  shows "kept n \<and> RAMPORT n = p \<and> n < 7 \<and> (\<forall>m < 7. kept m \<and> RAMPORT m = p \<longrightarrow> m \<le> n)"
proof -
  let ?F = "filter (\<lambda>n. kept n \<and> RAMPORT n = p) [0..<7]"
  have ne: "?F \<noteq> []" and n: "n = last ?F"
    using assms bank_holders_fold [of kept "[0..<7]" "\<lambda>_. None" p]
    by (auto simp: bank_holders_def split: list.splits)
  have "n \<in> set ?F" using ne n last_in_set by blast
  moreover have "m \<le> n" if "m \<in> set ?F" for m
    unfolding n using that by (intro sorted_last) (simp_all add: sorted_wrt_filter)
  ultimately show ?thesis by auto
qed

lemma bank_holder_None: "bank_holders kept p = None \<Longrightarrow> n < 7 \<Longrightarrow> kept n \<Longrightarrow> RAMPORT n \<noteq> p"
  using bank_holders_fold [of kept "[0..<7]" "\<lambda>_. None" p]
  by (auto simp: bank_holders_def filter_empty_conv split: list.splits)

text \<open>Who has selected the address of a side keeps it.\<close>

lemma bank_choose_keeps: "sel p = Some n \<Longrightarrow> bank_choose req k sel p = Some n"
  by (auto simp: bank_choose_def Let_def)

lemma bank_chosen_keeps: "sel p = Some n \<Longrightarrow> fold (bank_choose req) ks sel p = Some n"
  by (induction ks arbitrary: sel) (simp_all add: bank_choose_keeps)

lemma RAMPORT_cpu: "k < 2 \<Longrightarrow> RAMPORT k = k \<and> RAMPORT (2 + k) = k \<and> RAMPORT (4 + k) = k"
  by (auto simp: less_2_cases_iff RAMPORT_def)

lemma bank_choose_req:
  assumes "k < 2" "\<And>p n. sel p = Some n \<Longrightarrow> req n \<and> RAMPORT n = p \<and> n < 7"
  shows "bank_choose req k sel p = Some n \<Longrightarrow> req n \<and> RAMPORT n = p \<and> n < 7"
  using assms(2) RAMPORT_cpu [OF assms(1)] assms(1)
  unfolding bank_choose_def by (auto simp: Let_def split: if_splits)

lemma bank_chosen_req:
  assumes "list_all (\<lambda>k. k < 2) ks" "\<And>p n. sel p = Some n \<Longrightarrow> req n \<and> RAMPORT n = p \<and> n < 7"
  shows "fold (bank_choose req) ks sel p = Some n \<Longrightarrow> req n \<and> RAMPORT n = p \<and> n < 7"
  using assms
proof (induction ks arbitrary: sel)
  case (Cons k ks)
  then have "k < 2" "list_all (\<lambda>k. k < 2) ks" by simp_all
  from Cons.IH [OF _ this(2) bank_choose_req [OF this(1) Cons.prems(3)]] Cons.prems(1) show ?case by simp
qed simp

lemma prio_cpus: "prio_cpus s = [0, 1] \<or> prio_cpus s = [1, 0]"
  using GetPrioCpu_cases [of s] by (auto simp: prio_cpus_def upt_2)

lemma prio_cpus_less: "list_all (\<lambda>k. k < 2) (prio_cpus s)"
  using prio_cpus [of s] by auto

lemma bank_select_kept: "bank_holders kept p = Some n \<Longrightarrow> bank_select s req kept p = Some n"
  unfolding bank_select_def Let_def by (rule bank_chosen_keeps) auto

lemma bank_select_req:
  assumes "bank_select s req kept p = Some n" "within kept req"
  shows "req n \<and> RAMPORT n = p \<and> n < 7"
proof -
  have "(if req 6 \<and> bank_holders kept 1 = None then (bank_holders kept)(1 := Some 6) else bank_holders kept) q = Some m
      \<Longrightarrow> req m \<and> RAMPORT m = q \<and> m < 7" for q m
    using bank_holder_Some [of kept q m] withinD [OF assms(2), of m] by (auto split: if_splits)
  from bank_chosen_req [OF prio_cpus_less this] assms(1) show ?thesis unfolding bank_select_def Let_def by blast
qed

lemma bank_writers: "p < 2 \<Longrightarrow>
    fold (bank_writer g) (prio_cpus s) sel p = (if sel p \<noteq> Some 6 \<and> g (4 + p) then Some (4 + p) else sel p)"
  using prio_cpus [of s] unfolding less_2_cases_iff by (auto simp: bank_writer_def Let_def)

definition bank_pre :: "arb_in \<Rightarrow> arb \<Rightarrow> nat \<Rightarrow> nat \<Rightarrow> bool" where
  "bank_pre i s b n \<longleftrightarrow> bank_reg s b n \<and> bank_req i b n
     \<or> n < 7 \<and> bank_req i b n \<and> bank_select s (bank_req i b) (\<lambda>n. bank_reg s b n \<and> bank_req i b n) (RAMPORT n) \<noteq> None
       \<and> bank_wiadr i n = snd (BankMethod i s b) (RAMPORT n)"

definition bank_sel :: "arb_in \<Rightarrow> arb \<Rightarrow> nat \<Rightarrow> nat \<Rightarrow> nat option" where
  "bank_sel i s b = bank_select s (bank_req i b) (\<lambda>n. bank_reg s b n \<and> bank_req i b n)"

lemma BankMethod_adr:
  "snd (BankMethod i s b) p = (case bank_sel i s b p of None \<Rightarrow> 0xffffffff | Some n \<Rightarrow> bank_wiadr i n)"
  unfolding BankMethod_def Let_def bank_sel_def by simp

lemma BankMethod_grant:
  "fst (BankMethod i s b) n \<longleftrightarrow> bank_pre i s b n
     \<and> (\<forall>k < 2. n = 4 + k \<longrightarrow> bank_sel i s b k \<noteq> Some 6)
     \<and> (n = 6 \<longrightarrow> bank_sel i s b 1 = Some 6)"
proof -
  let ?sel' = "fold (bank_writer (bank_pre i s b)) (prio_cpus s) (bank_sel i s b)"
  have "fst (BankMethod i s b) n \<longleftrightarrow> bank_pre i s b n
     \<and> (\<forall>k < 2. n = 4 + k \<longrightarrow> ?sel' k = Some (4 + k)) \<and> (n = 6 \<longrightarrow> ?sel' 1 = Some 6)"
  proof -
    have pre: "(\<lambda>n. bank_reg s b n \<and> bank_req i b n \<or> n < 4 + 2 + 1 \<and> bank_sel i s b (RAMPORT n) \<noteq> None \<and> bank_req i b n
          \<and> bank_wiadr i n = (case bank_sel i s b (RAMPORT n) of None \<Rightarrow> 0xffffffff | Some n \<Rightarrow> bank_wiadr i n)) = bank_pre i s b"
      by (auto simp: bank_pre_def fun_eq_iff BankMethod_adr bank_sel_def)
    show ?thesis
      unfolding BankMethod_def Let_def bank_sel_def [symmetric] pre
      by (auto simp: upt_2 less_2_cases_iff)
  qed
  moreover have "bank_pre i s b (4 + k) \<Longrightarrow> ?sel' k = Some (4 + k) \<longleftrightarrow> bank_sel i s b k \<noteq> Some 6" if "k < 2" for k
    using that by (auto simp: bank_writers)
  moreover have "?sel' 1 = Some 6 \<longleftrightarrow> bank_sel i s b 1 = Some 6" by (simp add: bank_writers)
  ultimately show ?thesis by blast
qed

definition bank_good :: "arb_in \<Rightarrow> arb \<Rightarrow> nat \<Rightarrow> (nat \<Rightarrow> bool) \<Rightarrow> (nat \<Rightarrow> u32) \<Rightarrow> bool" where
  "bank_good i s b g adr \<longleftrightarrow> one_per_side 4 g \<and> within g (bank_req i b)
     \<and> within (\<lambda>n. bank_reg s b n \<and> bank_req i b n) g \<and> (\<forall>n. g n \<longrightarrow> bank_wiadr i n = adr (RAMPORT n))"

lemma Bank_good:
  assumes "one_per_side 4 (bank_reg s b)"
    and held: "\<forall>m < 7. \<forall>n < 7. bank_reg s b m \<and> bank_req i b m \<and> bank_reg s b n \<and> bank_req i b n \<and> RAMPORT m = RAMPORT n
          \<longrightarrow> bank_wiadr i m = bank_wiadr i n"
  shows "bank_good i s b (fst (BankMethod i s b)) (snd (BankMethod i s b))"
proof -
  let ?kept = "\<lambda>n. bank_reg s b n \<and> bank_req i b n" and ?g = "fst (BankMethod i s b)"
  have bound: "n < 7" if "bank_req i b n" for n using that by (simp add: bank_req_def split: if_splits)
  have holder: "\<exists>m. bank_sel i s b (RAMPORT n) = Some m \<and> ?kept m \<and> RAMPORT m = RAMPORT n \<and> m < 7 \<and> n \<le> m" if "?kept n" for n
  proof -
    have "bank_holders ?kept (RAMPORT n) \<noteq> None"
      using bank_holder_None [of ?kept "RAMPORT n" n] that bound [of n] by blast
    then obtain m where m: "bank_holders ?kept (RAMPORT n) = Some m" by blast
    then show ?thesis using bank_holder_Some [OF m] bank_select_kept [OF m] that bound [of n]
      unfolding bank_sel_def by blast
  qed
  have adr: "bank_pre i s b n \<Longrightarrow> bank_wiadr i n = snd (BankMethod i s b) (RAMPORT n)" for n
  proof -
    assume "bank_pre i s b n"
    then consider "?kept n" | "bank_wiadr i n = snd (BankMethod i s b) (RAMPORT n)" unfolding bank_pre_def by blast
    then show ?thesis
    proof cases
      case 1
      then obtain m where "bank_sel i s b (RAMPORT n) = Some m" "?kept m" "RAMPORT m = RAMPORT n" "m < 7"
        using holder by blast
      then show ?thesis using 1 bound held by (simp add: BankMethod_adr)
    qed
  qed
  have "\<not> (?g 5 \<and> ?g 6)" unfolding BankMethod_grant by (auto dest: spec [of _ 1])
  moreover have "within ?g (bank_req i b)" by (auto simp: within_def BankMethod_grant bank_pre_def)
  moreover have "?g n" if k: "?kept n" for n
  proof -
    obtain m where m: "bank_sel i s b (RAMPORT n) = Some m" "?kept m" "RAMPORT m = RAMPORT n" "n \<le> m" "m < 7"
      using holder [OF k] by blast
    have "m \<noteq> 6" if "n = 4 + j" "j < 2" for j
    proof
      assume "m = 6"
      then have "RAMPORT n = 1" using m(3) by simp
      then have "n = 5" using that RAMPORT_cpu [OF that(2)] by simp
      then show False using k m(2) \<open>m = 6\<close> assms(1) by (simp add: one_per_side_4)
    qed
    moreover have "RAMPORT (4 + j) = j" if "j < 2" for j using RAMPORT_cpu [OF that] by simp
    moreover have "bank_sel i s b 1 = Some 6" if "n = 6" using that m by (cases "m = 6") auto
    ultimately show ?thesis using m(1) k unfolding BankMethod_grant bank_pre_def by auto
  qed
  moreover have "\<forall>n. ?g n \<longrightarrow> bank_wiadr i n = snd (BankMethod i s b) (RAMPORT n)"
    using adr unfolding BankMethod_grant by blast
  ultimately show ?thesis unfolding bank_good_def one_per_side_4 within_def by blast
qed

section \<open>Runs of the arbiter\<close>

text \<open>
  The address rules of \<open>memu.h\<close>: who holds the line lock or a bank and still wants it has not changed its address (the bus
  interface may move within its line).  \<open>p\<close> is the input of the cycle before.
\<close>

definition addresses_kept :: "arb_in \<Rightarrow> arb_in \<Rightarrow> arb \<Rightarrow> bool" where
  "addresses_kept p i s \<longleftrightarrow>
     (\<forall>n < 2. linelock_reg s n \<and> linelock_req i n \<longrightarrow> a_adr_wp i n = a_adr_wp p n)
     \<and> (linelock_reg s 2 \<and> linelock_req i 2 \<longrightarrow> GetIndexOfWayIndex (a_wiadr_busif i) = GetIndexOfWayIndex (a_wiadr_busif p))
     \<and> (\<forall>b < 4. \<forall>n < 7. bank_reg s b n \<and> bank_req i b n \<longrightarrow> bank_wiadr i n = bank_wiadr p n)"

fun arb_obeys :: "arb_in \<Rightarrow> arb_in list \<Rightarrow> arb \<Rightarrow> bool" where
  "arb_obeys p [] s \<longleftrightarrow> True"
| "arb_obeys p (i # is) s \<longleftrightarrow> addresses_kept p i s \<and> arb_obeys i is (arb_transition False i s)"

definition arb_run :: "arb_in list \<Rightarrow> arb \<Rightarrow> arb" where
  "arb_run is s = fold (arb_transition False) is s"

text \<open>What the registers say of the cycle before.\<close>

definition arb_linked :: "arb_in \<Rightarrow> arb \<Rightarrow> bool" where
  "arb_linked p s \<longleftrightarrow> (\<forall>n < 2. linelock_reg s 2 \<and> linelock_reg s n \<longrightarrow> \<not> same_line p n)
     \<and> (\<forall>b < 4. \<forall>m < 7. \<forall>n < 7. bank_reg s b m \<and> bank_reg s b n \<and> RAMPORT m = RAMPORT n \<longrightarrow> bank_wiadr p m = bank_wiadr p n)"

lemma arb_held_kept:
  assumes "arb_linked p s" "addresses_kept p i s"
  shows "arb_held i s"
  unfolding arb_held_def
proof (intro conjI allI impI)
  fix n :: nat assume "n < 2" and h: "linelock_reg s 2 \<and> linelock_req i 2 \<and> linelock_reg s n \<and> linelock_req i n"
  then have "\<not> same_line p n" "a_adr_wp i n = a_adr_wp p n"
    "GetIndexOfWayIndex (a_wiadr_busif i) = GetIndexOfWayIndex (a_wiadr_busif p)"
    using assms unfolding arb_linked_def addresses_kept_def by blast+
  then show "\<not> same_line i n" unfolding same_line_def by metis
next
  fix b m n :: nat assume "b < 4" "m < 7" "n < 7"
    and h: "bank_reg s b m \<and> bank_req i b m \<and> bank_reg s b n \<and> bank_req i b n \<and> RAMPORT m = RAMPORT n"
  then have "bank_wiadr p m = bank_wiadr p n" "bank_wiadr i m = bank_wiadr p m" "bank_wiadr i n = bank_wiadr p n"
    using assms unfolding arb_linked_def addresses_kept_def by blast+
  then show "bank_wiadr i m = bank_wiadr i n" by metis
qed

text \<open>The grants of a cycle exclude each other where they must.\<close>

definition arb_exclusive :: "arb_in \<Rightarrow> arb \<Rightarrow> bool" where
  "arb_exclusive i s \<longleftrightarrow>
     at_most_one 2 (LineLockMethod i s) \<and> (\<forall>n < 2. LineLockMethod i s 2 \<and> LineLockMethod i s n \<longrightarrow> \<not> same_line i n)
     \<and> SnoopMethod i (LineLockMethod i s) \<noteq> None
     \<and> one_per_side 0 (fst (TagMethod i s)) \<and> at_most_one 3 (snd (TagMethod i s))
     \<and> (any_bit 3 (snd (TagMethod i s)) \<longrightarrow> \<not> any_bit 7 (fst (TagMethod i s)))
     \<and> (\<forall>b < 4. one_per_side 4 (fst (BankMethod i s b))
          \<and> (\<forall>n. fst (BankMethod i s b) n \<longrightarrow> bank_wiadr i n = snd (BankMethod i s b) (RAMPORT n)))
     \<and> at_most_one 6 (BusIfMethod i s)"

lemma snoop_defined: "at_most_one 2 g \<Longrightarrow> SnoopMethod i g \<noteq> None"
  by (auto simp: SnoopMethod_def at_most_one_def all_less_2 upt_2)

lemma Tag_ok:
  assumes "arb_ok s"
  shows "one_per_side 0 (fst (TagMethod i s))" "at_most_one 3 (snd (TagMethod i s))"
    and "any_bit 3 (snd (TagMethod i s)) \<longrightarrow> \<not> any_bit 7 (fst (TagMethod i s))"
  using Tag_good [of s i] assms
  by (cases "a_tagram_ready i"; simp add: arb_ok_def tagr_good_def tagw_good_def; simp add: TagMethod_def one_per_side_0 at_most_one_def any_bit_simps)+

lemma arb_held_exclusive:
  assumes "arb_ok s" "arb_held i s"
  shows "arb_exclusive i s"
proof -
  have L: "linelock_good i s (LineLockMethod i s)"
    using assms unfolding arb_ok_def arb_held_def by (intro LineLock_good) blast+
  moreover have "bank_good i s b (fst (BankMethod i s b)) (snd (BankMethod i s b))" if "b < 4" for b
    using assms that unfolding arb_ok_def arb_held_def by (intro Bank_good) blast+
  moreover have "busif_good i s (BusIfMethod i s)"
    using assms(1) unfolding arb_ok_def by (intro BusIf_good) blast
  moreover note Tag_ok [OF assms(1), of i] snoop_defined [of "LineLockMethod i s" i]
  ultimately show ?thesis unfolding arb_exclusive_def linelock_good_def bank_good_def busif_good_def by blast
qed

lemma arb_next:
  "linelock_reg (arb_transition False i s) = LineLockMethod i s" "tagr_reg (arb_transition False i s) = fst (TagMethod i s)"
  "tagw_reg (arb_transition False i s) = snd (TagMethod i s)" "busif_reg (arb_transition False i s) = BusIfMethod i s"
  "counter_reg (arb_transition False i s) = (counter_reg s + 1) AND 255"
  by (simp_all add: arb_transition_def)

lemma arb_next_bank: "b < 4 \<Longrightarrow> bank_reg (arb_transition False i s) b = fst (BankMethod i s b)"
  by (simp add: arb_transition_def)

lemma arb_ok_step:
  assumes "arb_ok s" "arb_held i s"
  shows "arb_ok (arb_transition False i s)" "arb_linked i (arb_transition False i s)"
proof -
  note e = arb_held_exclusive [OF assms, unfolded arb_exclusive_def]
  show "arb_ok (arb_transition False i s)" unfolding arb_ok_def arb_next using e arb_next_bank [of _ i s] by metis
  show "arb_linked i (arb_transition False i s)" unfolding arb_linked_def arb_next
  proof (intro conjI allI impI)
    fix n :: nat assume "n < 2" "LineLockMethod i s 2 \<and> LineLockMethod i s n"
    then show "\<not> same_line i n" using e by blast
  next
    fix b m n :: nat assume "b < 4" and
      h: "bank_reg (arb_transition False i s) b m \<and> bank_reg (arb_transition False i s) b n \<and> RAMPORT m = RAMPORT n"
    then show "bank_wiadr i m = bank_wiadr i n" using e by (metis arb_next_bank)
  qed
qed

lemma arb_run_ok:
  "\<lbrakk>arb_ok s; arb_linked p s; arb_obeys p (is @ [i]) s\<rbrakk> \<Longrightarrow> arb_ok (arb_run is s) \<and> arb_exclusive i (arb_run is s)"
proof (induction "is" arbitrary: p s)
  case Nil
  then show ?case using arb_held_exclusive arb_held_kept by (simp add: arb_run_def)
next
  case (Cons j js)
  then have "arb_held j s" using arb_held_kept by simp
  from arb_ok_step [OF Cons.prems(1) this] show ?case using Cons.IH [of "arb_transition False j s" j] Cons.prems(3) by (simp add: arb_run_def)
qed

text \<open>After power-up and reset nothing is held.\<close>

definition arb_power_up :: arb where
  "arb_power_up = \<lparr>counter_reg = 0, linelock_reg = (\<lambda>_. False), tagr_reg = (\<lambda>_. False), tagw_reg = (\<lambda>_. False),
     bank_reg = (\<lambda>_ _. False), busif_reg = (\<lambda>_. False)\<rparr>"

definition arb_reset :: arb where
  "arb_reset = arb_power_up\<lparr>counter_reg := 0xffff\<rparr>"

lemma arb_reset_eq: "arb_transition True i arb_power_up = arb_reset"
  by (simp add: arb_transition_def arb_reset_def arb_power_up_def)

lemma arb_reset_ok: "arb_ok arb_reset" "arb_linked p arb_reset"
  by (simp_all add: arb_ok_def arb_linked_def arb_reset_def arb_power_up_def at_most_one_def one_per_side_def any_bit_simps)

section \<open>Progress\<close>

lemma any_bitI: "g n \<Longrightarrow> n < k \<Longrightarrow> any_bit k g"
  by (auto simp: any_bit_def list_ex_iff)

lemma less_6_cases: "(n :: nat) < 6 \<Longrightarrow> n = 0 \<or> n = 1 \<or> n = 2 \<or> n = 3 \<or> n = 4 \<or> n = 5"
  and less_7_cases: "(n :: nat) < 7 \<Longrightarrow> n = 0 \<or> n = 1 \<or> n = 2 \<or> n = 3 \<or> n = 4 \<or> n = 5 \<or> n = 6"
  unfolding numeral_eq_Suc pred_numeral_simps less_Suc_eq by auto

lemma prio_pick: "k < 2 \<Longrightarrow> \<exists>n < 2. (n + GetPrioCpu s) mod 2 = k"
proof -
  assume k: "k < 2"
  show ?thesis
  proof (cases "GetPrioCpu s = k")
    case True
    then have "(0 + GetPrioCpu s) mod 2 = k" using k by simp
    then show ?thesis by (intro exI [of _ 0]) simp
  next
    case False
    then have "GetPrioCpu s = 1 - k" using k GetPrioCpu_cases [of s] by (auto simp: less_2_cases_iff)
    then have "(1 + GetPrioCpu s) mod 2 = k" using k by (auto simp: less_2_cases_iff)
    then show ?thesis by (intro exI [of _ 1]) simp
  qed
qed

lemma busif_choose_some: "any_bit 6 g \<Longrightarrow> busif_choose req k g = g"
  by (simp add: busif_choose_def)

lemma busif_chosen_some: "any_bit 6 g \<Longrightarrow> fold (\<lambda>n. busif_choose req (f n)) ns g = g"
  by (induction ns) (simp_all add: busif_choose_some)

lemma fold_upt_2: "fold f [0..<2] g = f 1 (f 0 g)"
  by (simp add: upt_2)

lemma BusIf_holder:
  assumes "busif_reg s n" "busif_req i n" "n < 6"
  shows "BusIfMethod i s = (\<lambda>n. busif_reg s n \<and> busif_req i n)"
proof -
  have "any_bit 6 (\<lambda>n. busif_reg s n \<and> busif_req i n)" using assms by (intro any_bitI [of _ n]) auto
  then show ?thesis unfolding BusIfMethod_def by (rule busif_chosen_some)
qed

text \<open>The bus interface goes to the CPU with priority: its data read port, instruction read port, write port, in this order.\<close>

lemma BusIf_prio:
  assumes "\<And>n. n < 6 \<Longrightarrow> \<not> (busif_reg s n \<and> busif_req i n)" and k: "k = GetPrioCpu s"
  shows "busif_req i k \<Longrightarrow> BusIfMethod i s k"
    and "\<not> busif_req i k \<Longrightarrow> busif_req i (2 + k) \<Longrightarrow> BusIfMethod i s (2 + k)"
    and "\<not> busif_req i k \<Longrightarrow> \<not> busif_req i (2 + k) \<Longrightarrow> busif_req i (4 + k) \<Longrightarrow> BusIfMethod i s (4 + k)"
proof -
  define g where "g = (\<lambda>n. busif_reg s n \<and> busif_req i n)"
  have none: "\<not> any_bit 6 g" using assms(1) by (auto simp: any_bit_def list_ex_iff g_def)
  have k2: "k < 2" using GetPrioCpu_cases [of s] k by auto
  have M: "BusIfMethod i s = busif_choose (busif_req i) ((1 + GetPrioCpu s) mod 2) (busif_choose (busif_req i) k g)"
    unfolding BusIfMethod_def fold_upt_2 g_def using k2 by (simp add: k)
  have first: "BusIfMethod i s n" if "busif_choose (busif_req i) k g = g(n := True)" "n < 6" for n
    using that any_bitI [of "g(n := True)" n 6] by (simp add: M busif_choose_some)
  show "busif_req i k \<Longrightarrow> BusIfMethod i s k"
    "\<not> busif_req i k \<Longrightarrow> busif_req i (2 + k) \<Longrightarrow> BusIfMethod i s (2 + k)"
    "\<not> busif_req i k \<Longrightarrow> \<not> busif_req i (2 + k) \<Longrightarrow> busif_req i (4 + k) \<Longrightarrow> BusIfMethod i s (4 + k)"
    using none k2 by (auto intro!: first simp: busif_choose_def)
qed

lemma busif_choose_any: "busif_req i k \<or> busif_req i (2 + k) \<or> busif_req i (4 + k) \<Longrightarrow> k < 2 \<Longrightarrow> any_bit 6 (busif_choose (busif_req i) k g)"
  by (auto simp: busif_choose_def intro: any_bitI [of _ k] any_bitI [of _ "2 + k"] any_bitI [of _ "4 + k"])

lemma BusIf_some:
  assumes "busif_req i n"
  shows "any_bit 6 (BusIfMethod i s)"
proof -
  have n: "n < 6" using assms by (simp add: busif_req_def split: if_splits)
  define k where "k = n mod 2"
  have k: "k < 2" "busif_req i k \<or> busif_req i (2 + k) \<or> busif_req i (4 + k)"
    using less_6_cases [OF n] assms by (elim disjE; simp add: k_def)+
  obtain m where m: "m < 2" "(m + GetPrioCpu s) mod 2 = k" using prio_pick [OF k(1)] by blast
  then show ?thesis using busif_choose_any [OF k(2,1)]
    unfolding BusIfMethod_def fold_upt_2 less_2_cases_iff
    by (elim disjE) (simp_all add: busif_choose_some)
qed

lemma tagr_select_any:
  assumes "k < 2" "g k \<or> g (2 + k) \<or> g (4 + k) \<or> k = 1 \<and> g 6 \<or> req k \<or> req (2 + k) \<or> req (4 + k) \<or> k = 1 \<and> req 6"
  shows "tagr_select req k g k \<or> tagr_select req k g (2 + k) \<or> tagr_select req k g (4 + k) \<or> k = 1 \<and> tagr_select req k g 6"
  using assms unfolding less_2_cases_iff by (elim disjE; simp add: tagr_select_def)

lemma tagr_select_more: "g n \<Longrightarrow> tagr_select req k g n"
  by (auto simp: tagr_select_def fun_upd_def)

text \<open>As long as no port wants to write, each CPU one of whose ports wants to read tags has a reader.\<close>

lemma Tag_readers:
  assumes "a_tagram_ready i" "\<not> any_bit 3 (tagw_req i)" "tagr_req i n"
  shows "\<exists>m < 7. RAMPORT m = RAMPORT n \<and> fst (TagMethod i s) m"
proof -
  have n: "n < 7" using assms(3) by (simp add: tagr_req_def split: if_splits)
  define k where "k = RAMPORT n"
  define g where "g = (\<lambda>n. tagr_reg s n \<and> tagr_req i n)"
  have k: "k < 2" by (simp add: k_def RAMPORT_def)
  have T: "fst (TagMethod i s) = tagr_select (tagr_req i) 1 (tagr_select (tagr_req i) 0 g)"
    using assms(1,2) by (simp add: TagMethod_def Let_def fold_upt_2 g_def)
  have r: "tagr_req i k \<or> tagr_req i (2 + k) \<or> tagr_req i (4 + k) \<or> k = 1 \<and> tagr_req i 6"
    using less_7_cases [OF n] assms(3) by (elim disjE; simp add: k_def)
  have any: "tagr_select (tagr_req i) k g k \<or> tagr_select (tagr_req i) k g (2 + k) \<or> tagr_select (tagr_req i) k g (4 + k)
      \<or> k = 1 \<and> tagr_select (tagr_req i) k g 6" for g
    by (rule tagr_select_any [OF k]) (use r in blast)
  have "fst (TagMethod i s) k \<or> fst (TagMethod i s) (2 + k) \<or> fst (TagMethod i s) (4 + k) \<or> k = 1 \<and> fst (TagMethod i s) 6"
  proof (cases "k = 0")
    case True
    then have "tagr_select (tagr_req i) 0 g 0 \<or> tagr_select (tagr_req i) 0 g 2 \<or> tagr_select (tagr_req i) 0 g 4"
      using any [of g] by simp
    then show ?thesis using tagr_select_more True by (auto simp: T)
  next
    case False
    then have "k = 1" using k by simp
    then show ?thesis using any [of "tagr_select (tagr_req i) 0 g"] by (simp add: T)
  qed
  moreover have "RAMPORT k = k" "RAMPORT (2 + k) = k" "RAMPORT (4 + k) = k" "k = 1 \<Longrightarrow> RAMPORT 6 = k"
    "k < 7" "2 + k < 7" "4 + k < 7" "(6 :: nat) < 7" using RAMPORT_cpu [OF k] k by simp_all
  ultimately show ?thesis unfolding k_def [symmetric] by blast
qed

text \<open>A pending write is granted as soon as the readers have finished.\<close>

lemma Tag_writer:
  assumes "a_tagram_ready i" "tagw_req i n" "\<And>n. \<not> (tagr_reg s n \<and> tagr_req i n)"
  shows "any_bit 3 (snd (TagMethod i s))"
proof -
  define kept where "kept = (\<lambda>n. tagw_reg s n \<and> tagw_req i n)"
  have n: "n < 3" using assms(2) by (simp add: tagw_req_def split: if_splits)
  have w: "any_bit 3 (tagw_req i)" using assms(2) n by (rule any_bitI)
  have r: "\<not> any_bit 7 (\<lambda>n. tagr_reg s n \<and> tagr_req i n)" using assms(3) by (simp add: any_bit_def list_ex_iff)
  define ks where "ks = filter (tagw_req i) (map (\<lambda>n. (n + GetPrioCpu s) mod 2) [0..<2])"
  have T: "snd (TagMethod i s) =
      (if \<not> any_bit 3 kept then if tagw_req i 2 then kept(2 := True) else case ks of [] \<Rightarrow> kept | k # _ \<Rightarrow> kept(k := True) else kept)"
    using assms(1) w r unfolding TagMethod_def Let_def kept_def [symmetric] ks_def [symmetric] by simp
  show ?thesis
  proof (cases "tagw_req i 2")
    case True
    then show ?thesis using any_bitI [of "kept(2 := True)" 2 3] by (simp add: T)
  next
    case False
    then have "n < 2" using assms(2) n by (cases "n = 2") auto
    then obtain m where "m < 2" "(m + GetPrioCpu s) mod 2 = n" using prio_pick by blast
    then have "n \<in> set ks" using assms(2) by (auto simp: ks_def)
    then obtain k ks' where ks: "ks = k # ks'" by (cases ks) auto
    then have "k \<in> set ks" by simp
    then have "k < 3" by (auto simp: ks_def)
    then show ?thesis using False ks any_bitI [of "kept(k := True)" k 3] by (simp add: T)
  qed
qed

text \<open>A side of a bank that anyone wants has a user.\<close>

lemma bank_chosen_some: "sel p \<noteq> None \<Longrightarrow> fold (bank_choose req) ks sel p \<noteq> None"
  using bank_chosen_keeps [of sel p] by fastforce

lemma bank_choose_some:
  assumes "k < 2" "req k \<or> req (2 + k) \<or> req (4 + k)"
  shows "bank_choose req k sel k \<noteq> None"
  using assms RAMPORT_cpu [OF assms(1)] by (auto simp: bank_choose_def Let_def)

lemma bank_sel_some:
  assumes "bank_req i b n"
  shows "bank_sel i s b (RAMPORT n) \<noteq> None"
proof -
  have n: "n < 7" using assms by (simp add: bank_req_def split: if_splits)
  define k where "k = RAMPORT n"
  define kept where "kept = (\<lambda>n. bank_reg s b n \<and> bank_req i b n)"
  define sel1 where "sel1 = (if bank_req i b 6 \<and> bank_holders kept 1 = None then (bank_holders kept)(1 := Some 6) else bank_holders kept)"
  have S: "bank_sel i s b = fold (bank_choose (bank_req i b)) (prio_cpus s) sel1"
    by (simp add: bank_sel_def bank_select_def Let_def kept_def sel1_def)
  have k: "k < 2" by (simp add: k_def RAMPORT_def)
  have "k = 1 \<and> bank_req i b 6 \<or> bank_req i b k \<or> bank_req i b (2 + k) \<or> bank_req i b (4 + k)"
    using less_7_cases [OF n] assms by (elim disjE; simp add: k_def)
  then show ?thesis
  proof
    assume "k = 1 \<and> bank_req i b 6"
    then have "sel1 k \<noteq> None" by (simp add: sel1_def)
    then show ?thesis unfolding S k_def [symmetric] by (rule bank_chosen_some)
  next
    assume r: "bank_req i b k \<or> bank_req i b (2 + k) \<or> bank_req i b (4 + k)"
    have "fold (bank_choose (bank_req i b)) (prio_cpus s) sel1 k \<noteq> None"
    proof (cases "prio_cpus s = [k, 1 - k]")
      case True
      have "bank_choose (bank_req i b) k sel1 k \<noteq> None" by (rule bank_choose_some [OF k r])
      then have "fold (bank_choose (bank_req i b)) [1 - k] (bank_choose (bank_req i b) k sel1) k \<noteq> None"
        by (rule bank_chosen_some)
      then show ?thesis using True by simp
    next
      case False
      then have "prio_cpus s = [1 - k, k]" using prio_cpus [of s] k by (auto simp: less_2_cases_iff)
      then show ?thesis using bank_choose_some [OF k r] by simp
    qed
    then show ?thesis by (simp add: S k_def)
  qed
qed

lemma Bank_some:
  assumes "bank_req i b n"
  shows "\<exists>m < 7. RAMPORT m = RAMPORT n \<and> fst (BankMethod i s b) m"
proof -
  obtain m where m: "bank_sel i s b (RAMPORT n) = Some m" using bank_sel_some [OF assms] by blast
  then have r: "bank_req i b m \<and> RAMPORT m = RAMPORT n \<and> m < 7"
    using bank_select_req within_kept unfolding bank_sel_def by blast
  then have "bank_pre i s b m" using m by (simp add: bank_pre_def BankMethod_adr bank_sel_def)
  moreover have "m = 4 + k \<Longrightarrow> k < 2 \<Longrightarrow> bank_sel i s b k \<noteq> Some 6" for k
    using m r RAMPORT_cpu [of k] by auto
  moreover have "m = 6 \<Longrightarrow> bank_sel i s b 1 = Some 6" using m r by auto
  ultimately have "fst (BankMethod i s b) m" by (simp add: BankMethod_grant)
  with r show ?thesis by blast
qed

lemma LineLock_some:
  assumes "linelock_req i n" "n < 2" "\<And>k. k < 2 \<Longrightarrow> linelock_req i k \<Longrightarrow> linelock_req i 2 \<Longrightarrow> \<not> same_line i k"
  shows "any_bit 2 (LineLockMethod i s)"
proof -
  have some: "any_bit 2 (linelock_choose i n g)" if "g 2 \<Longrightarrow> linelock_req i 2" for g
    using assms that by (auto simp: linelock_choose_def intro: any_bitI)
  have stay: "any_bit 2 g \<Longrightarrow> linelock_choose i k g = g" for k g by (simp add: linelock_choose_def)
  have same2: "linelock_choose i k g 2 = g 2" if "k < 2" for k g using that by (simp add: linelock_choose_def)
  define g where "g = (if linelock_req i 2 \<and> \<not> (linelock_reg s 2 \<and> linelock_req i 2)
      then (\<lambda>n. linelock_reg s n \<and> linelock_req i n)
             (2 := \<not> list_ex (\<lambda>n. (linelock_reg s n \<and> linelock_req i n) \<and> same_line i n) [0..<2])
      else (\<lambda>n. linelock_reg s n \<and> linelock_req i n))"
  have g2: "g 2 \<Longrightarrow> linelock_req i 2" by (auto simp: g_def split: if_splits)
  have M: "LineLockMethod i s = linelock_choose i ((1 + GetPrioCpu s) mod 2) (linelock_choose i (GetPrioCpu s mod 2) g)"
    unfolding LineLockMethod_def Let_def fold_upt_2 g_def by simp
  obtain m where "m < 2" "(m + GetPrioCpu s) mod 2 = n" using prio_pick [OF assms(2)] by blast
  then consider "GetPrioCpu s mod 2 = n" | "(1 + GetPrioCpu s) mod 2 = n" by (auto simp: less_2_cases_iff)
  then show ?thesis
  proof cases
    case 1
    then show ?thesis using some [of g] g2 stay by (simp add: M)
  next
    case 2
    then show ?thesis using some [of "linelock_choose i (GetPrioCpu s mod 2) g"] g2 same2 by (simp add: M)
  qed
qed

text \<open>The CPU with priority changes every 128 clocks.\<close>

lemma counter_run: "counter_reg s < 256 \<Longrightarrow> unat (counter_reg (arb_run is s)) = (unat (counter_reg s) + length is) mod 256 \<and> counter_reg (arb_run is s) < 256"
proof (induction "is" arbitrary: s)
  case Nil
  then show ?case by (simp add: arb_run_def word_less_nat_alt)
next
  case (Cons i js)
  have m: "(255 :: u32) = mask 8" by (simp add: mask_eq_exp_minus_1)
  have lt: "unat (counter_reg s) < 256" using Cons.prems by (simp add: word_less_nat_alt)
  have "unat (counter_reg s + 1) = unat (counter_reg s) + 1" using lt by (simp add: unat_word_ariths)
  then have next_: "unat (counter_reg (arb_transition False i s)) = (unat (counter_reg s) + 1) mod 256"
    unfolding arb_next m by (simp add: take_bit_eq_mask [symmetric] unsigned_take_bit_eq take_bit_eq_mod unat_mod)
  then have "counter_reg (arb_transition False i s) < 256" by (simp add: word_less_nat_alt)
  from Cons.IH [OF this] next_ show ?case by (simp add: arb_run_def mod_simps)
qed

lemma prio_reached:
  assumes "counter_reg s < 256" "cpu < 2"
  shows "\<exists>k < 256. \<forall>is. length is = k \<longrightarrow> GetPrioCpu (arb_run is s) = cpu"
proof (intro exI conjI allI impI)
  let ?c = "unat (counter_reg s)"
  have c: "?c < 256" using assms(1) by (simp add: word_less_nat_alt)
  show "(128 * cpu + (256 - ?c)) mod 256 < 256" by simp
  fix "is" :: "arb_in list" assume l: "length is = (128 * cpu + (256 - ?c)) mod 256"
  have "(?c + (128 * cpu + (256 - ?c)) mod 256) mod 256 = (?c + (128 * cpu + (256 - ?c))) mod 256" by (rule mod_add_right_eq)
  also have "?c + (128 * cpu + (256 - ?c)) = 128 * cpu + 256" using c by simp
  also have "(128 * cpu + 256) mod 256 = 128 * cpu" using assms(2) by (auto simp: less_2_cases_iff)
  finally have "unat (counter_reg (arb_run is s)) = 128 * cpu" using counter_run [OF assms(1), of "is"] l by simp
  then show "GetPrioCpu (arb_run is s) = cpu"
    using assms(2) by (auto simp: GetPrioCpu_def drop_bit_eq_div unat_div less_2_cases_iff)
qed

lemma arb_run_held:
  "\<lbrakk>arb_ok s; arb_linked p s; arb_obeys p (is @ [i]) s\<rbrakk> \<Longrightarrow> arb_held i (arb_run is s)"
proof (induction "is" arbitrary: p s)
  case Nil
  then show ?case using arb_held_kept by (simp add: arb_run_def)
next
  case (Cons j js)
  then have "arb_held j s" using arb_held_kept by simp
  from arb_ok_step [OF Cons.prems(1) this] show ?case using Cons.IH [of "arb_transition False j s" j] Cons.prems(3) by (simp add: arb_run_def)
qed

lemma counter_after: "is \<noteq> [] \<Longrightarrow> counter_reg (arb_run is s) < 256"
proof (induction "is" arbitrary: s)
  case (Cons i js)
  have "counter_reg (arb_transition False i s) \<le> 255" unfolding arb_next by (rule word_and_le1)
  then have "counter_reg (arb_transition False i s) < 256" by (simp add: word_le_nat_alt word_less_nat_alt)
  then show ?case using counter_run [of "arb_transition False i s" js] by (simp add: arb_run_def)
qed simp

lemma arb_keeps:
  assumes "arb_ok s" "arb_held i s"
  shows "(linelock_reg s n \<and> linelock_req i n \<longrightarrow> LineLockMethod i s n) \<and> (busif_reg s n \<and> busif_req i n \<longrightarrow> BusIfMethod i s n)
    \<and> (\<forall>b < 4. bank_reg s b n \<and> bank_req i b n \<longrightarrow> fst (BankMethod i s b) n)
    \<and> (a_tagram_ready i \<longrightarrow> (tagr_reg s n \<and> tagr_req i n \<longrightarrow> fst (TagMethod i s) n)
         \<and> (tagw_reg s n \<and> tagw_req i n \<longrightarrow> snd (TagMethod i s) n))"
proof -
  have "linelock_good i s (LineLockMethod i s)"
    using assms unfolding arb_ok_def arb_held_def by (intro LineLock_good) blast+
  moreover have "bank_good i s b (fst (BankMethod i s b)) (snd (BankMethod i s b))" if "b < 4" for b
    using assms that unfolding arb_ok_def arb_held_def by (intro Bank_good) blast+
  moreover have "busif_good i s (BusIfMethod i s)"
    using assms(1) unfolding arb_ok_def by (intro BusIf_good) blast
  moreover have "tagr_good i s (fst (TagMethod i s))" "tagw_good i s (snd (TagMethod i s))" if "a_tagram_ready i"
    using assms(1) that unfolding arb_ok_def by (intro Tag_good; blast)+
  ultimately show ?thesis
    unfolding linelock_good_def bank_good_def busif_good_def tagr_good_def tagw_good_def within_def by blast
qed

section \<open>Properties\<close>

text \<open>All ports at once: everybody wants everything, at one address.\<close>

definition ex_arb_in :: arb_in where
  "ex_arb_in = \<lparr>a_wiadr_busif = 0, a_wiadr_rp = (\<lambda>_. 0), a_adr_wp = (\<lambda>_. 0), a_way_wp = (\<lambda>_. 0),
     a_req_busif_linelock = True, a_req_wp_linelock = (\<lambda>_. True), a_tagram_ready = True,
     a_req_busif_tagw = False, a_req_wp_tagw = (\<lambda>_. False), a_req_busif_tagr = True, a_req_wp_tagr = (\<lambda>_. True),
     a_req_rp_tagr = (\<lambda>_. True), a_req_busif_bank = (\<lambda>_. True), a_req_wp_bank = (\<lambda>_ _. True),
     a_req_rp_bank = (\<lambda>_ _. True), a_req_rp_busif = (\<lambda>_. True), a_req_wp_busif = (\<lambda>_. True)\<rparr>"

text \<open>
  C38.  From reset on, whatever the ports request and in whatever order, the grants of the arbiter exclude each other where
  \<open>memu.h\<close> says so: one write port at most has the line lock, never together with the bus interface for the same line (so
  that the assertion of \<open>SnoopMethod\<close> holds); a tag writer excludes all others and each CPU has one tag reader; on each side of
  a bank the grants go with the address the RAM gets and one writer at most; one port has the bus interface.  The ports
  only have to keep their addresses while they hold something.
\<close>

theorem arbiter_exclusive:
  assumes "arb_obeys p (is @ [i]) arb_reset"
  shows "arb_exclusive i (arb_run is arb_reset)"
  using arb_run_ok [OF arb_reset_ok assms] by blast

theorem arbiter_exclusive_witness:
  "arb_exclusive ex_arb_in (arb_run [ex_arb_in, ex_arb_in] arb_reset)"
proof (rule arbiter_exclusive [of ex_arb_in])
  show "arb_obeys ex_arb_in ([ex_arb_in, ex_arb_in] @ [ex_arb_in]) arb_reset" by (simp add: addresses_kept_def)
qed

text \<open>
  C39.  The arbiter keeps the ports going: who holds something keeps it as long as it is wanted; the bus interface,
  a side of a bank and, unless someone wants to write, the tag port of a CPU are never idle while anyone wants them; a pending tag
  write is granted once the readers are done; the line lock goes to a write port unless the bus interface asks for the same line;
  a free bus interface goes to the CPU with priority; and each CPU gets priority again within 256 clocks.
\<close>

theorem arbiter_progress:
  assumes "arb_obeys p (is @ [i]) arb_reset"
  defines "s \<equiv> arb_run is arb_reset"
  shows "(\<forall>n. (linelock_reg s n \<and> linelock_req i n \<longrightarrow> LineLockMethod i s n) \<and> (busif_reg s n \<and> busif_req i n \<longrightarrow> BusIfMethod i s n)
         \<and> (\<forall>b < 4. bank_reg s b n \<and> bank_req i b n \<longrightarrow> fst (BankMethod i s b) n)
         \<and> (a_tagram_ready i \<longrightarrow> (tagr_reg s n \<and> tagr_req i n \<longrightarrow> fst (TagMethod i s) n)
              \<and> (tagw_reg s n \<and> tagw_req i n \<longrightarrow> snd (TagMethod i s) n)))
    \<and> (\<forall>n. busif_req i n \<longrightarrow> any_bit 6 (BusIfMethod i s))
    \<and> (\<forall>b n. bank_req i b n \<longrightarrow> (\<exists>m < 7. RAMPORT m = RAMPORT n \<and> fst (BankMethod i s b) m))
    \<and> (a_tagram_ready i \<and> \<not> any_bit 3 (tagw_req i) \<longrightarrow> (\<forall>n. tagr_req i n \<longrightarrow> (\<exists>m < 7. RAMPORT m = RAMPORT n \<and> fst (TagMethod i s) m)))
    \<and> (a_tagram_ready i \<and> (\<forall>n. \<not> (tagr_reg s n \<and> tagr_req i n)) \<longrightarrow> (\<forall>n. tagw_req i n \<longrightarrow> any_bit 3 (snd (TagMethod i s))))
    \<and> ((\<forall>k < 2. linelock_req i k \<and> linelock_req i 2 \<longrightarrow> \<not> same_line i k) \<longrightarrow> (\<forall>n < 2. linelock_req i n \<longrightarrow> any_bit 2 (LineLockMethod i s)))
    \<and> ((\<forall>n < 6. \<not> (busif_reg s n \<and> busif_req i n)) \<and> busif_req i (GetPrioCpu s) \<longrightarrow> BusIfMethod i s (GetPrioCpu s))
    \<and> (is \<noteq> [] \<longrightarrow> (\<forall>cpu < 2. \<exists>k < 256. \<forall>js. length js = k \<longrightarrow> GetPrioCpu (arb_run js s) = cpu))"
proof -
  have ok: "arb_ok s" "arb_held i s"
    using arb_run_ok [OF arb_reset_ok assms(1)] arb_run_held [OF arb_reset_ok assms(1)] by (simp_all add: s_def)
  have prio: "is \<noteq> [] \<longrightarrow> (\<forall>cpu < 2. \<exists>k < 256. \<forall>js. length js = k \<longrightarrow> GetPrioCpu (arb_run js s) = cpu)"
    using counter_after prio_reached by (simp add: s_def)
  have lock: "(\<forall>k < 2. linelock_req i k \<and> linelock_req i 2 \<longrightarrow> \<not> same_line i k)
      \<longrightarrow> (\<forall>n < 2. linelock_req i n \<longrightarrow> any_bit 2 (LineLockMethod i s))"
    using LineLock_some [of i _ s] by blast
  show ?thesis
    apply (intro conjI prio lock)
    subgoal using arb_keeps [OF ok] by (intro allI)
    subgoal using BusIf_some by blast
    subgoal using Bank_some by blast
    subgoal using Tag_readers by blast
    subgoal using Tag_writer by blast
    subgoal using BusIf_prio(1) by blast
    done
qed

theorem arbiter_progress_witness:
  "LineLockMethod ex_arb_in (arb_run [ex_arb_in] arb_reset) 2 \<and> any_bit 6 (BusIfMethod ex_arb_in (arb_run [ex_arb_in] arb_reset))"
proof -
  let ?s = "arb_run [ex_arb_in] arb_reset"
  have o: "arb_obeys ex_arb_in ([ex_arb_in] @ [ex_arb_in]) arb_reset" by (simp add: addresses_kept_def)
  have "linelock_reg ?s 2" "linelock_req ex_arb_in 2" "busif_req ex_arb_in 0"
    by (simp_all add: arb_run_def arb_next LineLockMethod_def linelock_req_def linelock_choose_def busif_req_def upt_2
      any_bit_simps same_line_def GetIndexOfAdr_def GetIndexOfWayIndex_def ex_arb_in_def arb_reset_def arb_power_up_def GetPrioCpu_def)
  with arbiter_progress [OF o] show ?thesis by blast
qed

end
