(* ===== verification/PnBusIf.thy ===== *)
theory PnBusIf
  imports PnTag
begin

text \<open>
  The bus interface of the memory unit, module \<open>MBusIf\<close> of \<open>src/sysc/memu.cpp\<close>: it moves cache lines between the main
  memory and the cache and does the uncached accesses.  Its thread stops at each \<open>wait ()\<close>; the places are \<open>busif_loc\<close>
  and \<open>busif_step\<close> runs from one to the next.  In the definitions \<open>s\<close> is the state before the clock edge, from which
  signals are read, and \<open>t\<close> the state as far as the activation has written it.
\<close>

section \<open>Signals\<close>

abbreviation (input) bioNothing :: "3 word" where "bioNothing \<equiv> 0"
abbreviation (input) bioWriteback :: "3 word" where "bioWriteback \<equiv> 1"
abbreviation (input) bioInvalidate :: "3 word" where "bioInvalidate \<equiv> 2"
abbreviation (input) bioFlush :: "3 word" where "bioFlush \<equiv> 3"
abbreviation (input) bioReplace :: "3 word" where "bioReplace \<equiv> 7"
abbreviation (input) bioDirectRead :: "3 word" where "bioDirectRead \<equiv> 5"
abbreviation (input) bioDirectWrite :: "3 word" where "bioDirectWrite \<equiv> 6"

record busif_in =
  b_wb_ack :: bool
  b_wb_dat :: u32
  b_op :: "3 word"
  b_nolinelock :: bool
  b_bsel :: "4 word"
  b_adr_in :: u32
  b_data_in :: "nat \<Rightarrow> u32"
  b_tag_in :: SCacheTag
  b_gnt_linelock :: bool
  b_gnt_tagw :: bool
  b_gnt_tagr :: bool
  b_gnt_bank :: "nat \<Rightarrow> bool"

datatype busif_loc =
    B_reset | B_idle | B_dread_ack | B_dread_valid | B_dread_end | B_dwrite_ack | B_dwrite_end
  | B_linelock | B_tagr | B_tag_read | B_tag_have | B_fill nat | B_victim
  | B_inv_req | B_inv_1 | B_inv_2 | B_bank_write | B_tag_req | B_tag_1 | B_tag_2 | B_wb_start | B_wb nat | B_done

text \<open>Outputs, registers, and the locals of the thread that live across a \<open>wait ()\<close>.\<close>

record busif =
  b_loc :: busif_loc
  b_wb_cyc :: bool
  b_wb_stb :: bool
  b_wb_we :: bool
  b_wb_sel :: "4 word"
  b_wb_adr :: u32
  b_wb_dat_o :: u32
  b_busy :: bool
  b_tag_rd :: bool
  b_tag_wr :: bool
  b_bank_rd :: "nat \<Rightarrow> bool"
  b_bank_wr :: "nat \<Rightarrow> bool"
  b_tag_out :: SCacheTag
  b_req_linelock :: bool
  b_req_tagw :: bool
  b_req_tagr :: bool
  b_req_bank :: "nat \<Rightarrow> bool"
  b_op_reg :: "3 word"
  b_nolinelock_reg :: bool
  b_bsel_reg :: "4 word"
  b_adr_reg :: u32
  b_idata_reg :: "nat \<Rightarrow> u32"
  b_odata_reg :: "nat \<Rightarrow> u32"
  b_idata_valid :: "nat \<Rightarrow> bool"
  b_tag_reg :: SCacheTag
  b_banksLeft :: "nat \<Rightarrow> bool"
  b_adrBase :: u32
  b_adrOfs :: u32
  b_write_victim :: bool

text \<open>An array of one element for each bank, written in a loop.\<close>

definition banks :: "(nat \<Rightarrow> 'a) \<Rightarrow> (nat \<Rightarrow> 'a) \<Rightarrow> nat \<Rightarrow> 'a" where
  "banks f old n = (if n < CACHE_BANKS then f n else old n)"

section \<open>The thread\<close>

definition AcceptNewOp :: "busif_in \<Rightarrow> busif \<Rightarrow> busif" where
  "AcceptNewOp i t =
     (if b_op i \<noteq> bioNothing
      then t\<lparr>b_busy := True, b_op_reg := b_op i, b_nolinelock_reg := b_nolinelock i, b_bsel_reg := b_bsel i,
             b_adr_reg := b_adr_in i, b_odata_reg := banks (b_data_in i) (b_odata_reg t)\<rparr>
      else t)"

text \<open>The end of an operation on the cache.\<close>

definition busif_complete :: "busif \<Rightarrow> busif" where
  "busif_complete t =
     t\<lparr>b_idata_valid := banks (\<lambda>_. False) (b_idata_valid t), b_busy := False, b_op_reg := bioNothing, b_loc := B_done\<rparr>"

text \<open>Word \<open>n\<close> of the victim is put on the bus.\<close>

definition busif_wb :: "busif \<Rightarrow> nat \<Rightarrow> busif \<Rightarrow> busif" where
  "busif_wb s n t =
     t\<lparr>b_wb_adr := ComposeAdress (tadr (b_tag_reg s)) (GetIndexOfAdr (b_adr_reg s)) n 0,
       b_wb_dat_o := b_odata_reg s n, b_wb_stb := True, b_loc := B_wb n\<rparr>"

definition busif_tag_go :: "busif \<Rightarrow> busif" where
  "busif_tag_go t = t\<lparr>b_tag_wr := True, b_loc := B_tag_1\<rparr>"

definition busif_new_tag :: "busif_in \<Rightarrow> busif \<Rightarrow> busif \<Rightarrow> busif" where
  "busif_new_tag i s t =
     (let tag = (b_tag_reg s)\<lparr>tadr := GetTagOfAdr (b_adr_reg s)\<rparr>;
          tag1 = (if b_op_reg s = bioFlush \<or> b_op_reg s = bioInvalidate then tag\<lparr>valid := False\<rparr> else tag);
          tag2 = (if b_op_reg s = bioReplace then tag1\<lparr>valid := True\<rparr> else tag1);
          t1 = t\<lparr>b_tag_out := tag2\<lparr>dirty := False\<rparr>, b_req_tagw := True\<rparr>
      in if b_gnt_tagw i then busif_tag_go t1 else t1\<lparr>b_loc := B_tag_req\<rparr>)"

text \<open>The loop that writes the new line to the banks.\<close>

definition busif_bank_iter :: "busif \<Rightarrow> busif" where
  "busif_bank_iter t =
     t\<lparr>b_req_bank := banks (b_banksLeft t) (b_req_bank t), b_bank_wr := banks (b_banksLeft t) (b_bank_wr t), b_loc := B_bank_write\<rparr>"

definition busif_banks_done :: "busif \<Rightarrow> busif" where
  "busif_banks_done t =
     t\<lparr>b_req_bank := banks (\<lambda>_. False) (b_req_bank t), b_bank_wr := banks (\<lambda>_. False) (b_bank_wr t)\<rparr>"

definition busif_inv_go :: "busif \<Rightarrow> busif \<Rightarrow> busif" where
  "busif_inv_go s t = t\<lparr>b_tag_out := (b_tag_reg s)\<lparr>valid := False\<rparr>, b_tag_wr := True, b_loc := B_inv_1\<rparr>"

text \<open>After the victim has been read: for a replacement the tag is first made invalid.\<close>

definition busif_new_line :: "busif_in \<Rightarrow> busif \<Rightarrow> busif \<Rightarrow> busif" where
  "busif_new_line i s t =
     (if b_op_reg s = bioReplace
      then if b_gnt_tagw i then busif_inv_go s (t\<lparr>b_req_tagw := True\<rparr>) else t\<lparr>b_req_tagw := True, b_loc := B_inv_req\<rparr>
      else busif_new_tag i s t)"

text \<open>The loop that reads the victim.\<close>

definition busif_victim_iter :: "busif_in \<Rightarrow> busif \<Rightarrow> busif" where
  "busif_victim_iter i t =
     t\<lparr>b_req_bank := banks (b_banksLeft t) (b_req_bank t), b_bank_rd := banks (b_banksLeft t) (b_bank_rd t),
       b_banksLeft := banks (\<lambda>n. b_banksLeft t n \<and> \<not> b_gnt_bank i n) (b_banksLeft t), b_loc := B_victim\<rparr>"

definition busif_victim :: "busif_in \<Rightarrow> busif \<Rightarrow> busif \<Rightarrow> busif" where
  "busif_victim i s t =
     (if dirty (b_tag_reg s) \<and> (b_op_reg s = bioWriteback \<or> b_op_reg s = bioFlush \<or> b_op_reg s = bioReplace)
      then busif_victim_iter i (t\<lparr>b_tag_out := b_tag_reg s, b_banksLeft := banks (\<lambda>_. True) (b_banksLeft t)\<rparr>)
      else busif_new_line i s t)"

text \<open>Read of word \<open>n\<close> of the new line, beginning with the one that was asked for.\<close>

definition busif_fill :: "nat \<Rightarrow> busif \<Rightarrow> busif" where
  "busif_fill n t = t\<lparr>b_wb_adr := b_adrBase t OR b_adrOfs t, b_wb_stb := True, b_loc := B_fill n\<rparr>"

definition busif_tag_request :: "busif_in \<Rightarrow> busif \<Rightarrow> busif" where
  "busif_tag_request i t =
     (let t1 = t\<lparr>b_tag_rd := True, b_req_tagr := True\<rparr>
      in if b_gnt_tagr i then t1\<lparr>b_loc := B_tag_read\<rparr> else t1\<lparr>b_loc := B_tagr\<rparr>)"

text \<open>The operations, once \<open>op_reg\<close> holds one.\<close>

definition busif_cache_op :: "busif_in \<Rightarrow> busif \<Rightarrow> busif \<Rightarrow> busif" where
  "busif_cache_op i s t =
     (let base = b_adr_reg s AND NOT 15;
          t1 = t\<lparr>b_adrBase := base, b_adrOfs := (b_adr_reg s AND NOT 3) - base, b_write_victim := False\<rparr>
      in if b_nolinelock_reg s then busif_tag_request i t1
         else if b_gnt_linelock i then busif_tag_request i (t1\<lparr>b_req_linelock := True\<rparr>)
         else t1\<lparr>b_req_linelock := True, b_loc := B_linelock\<rparr>)"

definition busif_dread_end :: "busif_in \<Rightarrow> busif \<Rightarrow> busif \<Rightarrow> busif" where
  "busif_dread_end i s t =
     (let n = GetBankOfAdr (b_adr_reg s)
      in t\<lparr>b_idata_reg := (b_idata_reg t)(n := b_wb_dat i), b_idata_valid := (b_idata_valid t)(n := True),
           b_wb_cyc := False, b_wb_stb := False, b_loc := B_dread_valid\<rparr>)"

definition busif_dwrite_end :: "busif \<Rightarrow> busif" where
  "busif_dwrite_end t =
     t\<lparr>b_wb_cyc := False, b_wb_stb := False, b_busy := False, b_op_reg := bioNothing, b_loc := B_dwrite_end\<rparr>"

definition busif_operate :: "busif_in \<Rightarrow> busif \<Rightarrow> busif \<Rightarrow> busif" where
  "busif_operate i s t =
     (if b_op_reg s = bioDirectRead
      then (let t1 = t\<lparr>b_wb_adr := b_adr_reg s, b_wb_sel := b_bsel_reg s, b_wb_cyc := True, b_wb_stb := True\<rparr>
            in if b_wb_ack i then busif_dread_end i s t1 else t1\<lparr>b_loc := B_dread_ack\<rparr>)
      else if b_op_reg s = bioDirectWrite
      then (let t1 = t\<lparr>b_wb_adr := b_adr_reg s, b_wb_dat_o := b_odata_reg s (GetBankOfAdr (b_adr_reg s)),
                       b_wb_sel := b_bsel_reg s, b_wb_we := True, b_wb_cyc := True, b_wb_stb := True\<rparr>
            in if b_wb_ack i then busif_dwrite_end t1 else t1\<lparr>b_loc := B_dwrite_ack\<rparr>)
      else busif_cache_op i s t)"

definition busif_idle :: "busif_in \<Rightarrow> busif \<Rightarrow> busif \<Rightarrow> busif" where
  "busif_idle i s t =
     (if b_op_reg s = bioNothing then AcceptNewOp i (t\<lparr>b_loc := B_idle\<rparr>) else busif_operate i s t)"

text \<open>The top of the main loop: the defaults of the outputs.\<close>

definition busif_top :: "busif_in \<Rightarrow> busif \<Rightarrow> busif \<Rightarrow> busif" where
  "busif_top i s t =
     busif_idle i s
       (t\<lparr>b_wb_cyc := False, b_wb_stb := False, b_wb_we := False, b_tag_rd := False, b_tag_wr := False, b_req_tagw := False,
          b_req_linelock := False, b_req_bank := banks (\<lambda>_. False) (b_req_bank t),
          b_bank_rd := banks (\<lambda>_. False) (b_bank_rd t), b_bank_wr := banks (\<lambda>_. False) (b_bank_wr t), b_wb_sel := 0xf\<rparr>)"

definition busif_wake :: "busif_in \<Rightarrow> busif \<Rightarrow> busif" where
  "busif_wake i s =
     (case b_loc s of
        B_reset \<Rightarrow> busif_top i s s
      | B_idle \<Rightarrow> busif_idle i s s
      | B_dread_ack \<Rightarrow> if b_wb_ack i then busif_dread_end i s s else s
      | B_dread_valid \<Rightarrow>
          s\<lparr>b_busy := False, b_op_reg := bioNothing, b_idata_valid := (b_idata_valid s)(GetBankOfAdr (b_adr_reg s) := False),
            b_loc := B_dread_end\<rparr>
      | B_dread_end \<Rightarrow> busif_top i s s
      | B_dwrite_ack \<Rightarrow> if b_wb_ack i then busif_dwrite_end s else s
      | B_dwrite_end \<Rightarrow> busif_top i s s
      | B_linelock \<Rightarrow> if b_gnt_linelock i then busif_tag_request i s else s
      | B_tagr \<Rightarrow> if b_gnt_tagr i then s\<lparr>b_loc := B_tag_read\<rparr> else s
      | B_tag_read \<Rightarrow> s\<lparr>b_tag_reg := b_tag_in i, b_tag_rd := False, b_req_tagr := False, b_loc := B_tag_have\<rparr>
      | B_tag_have \<Rightarrow> if b_op_reg s = bioReplace then busif_fill 0 (s\<lparr>b_wb_cyc := True\<rparr>) else busif_victim i s s
      | B_fill n \<Rightarrow>
          if \<not> b_wb_ack i then s
          else (let k = unat (drop_bit 2 (b_adrOfs s));
                    t = s\<lparr>b_idata_reg := (b_idata_reg s)(k := b_wb_dat i), b_idata_valid := (b_idata_valid s)(k := True),
                          b_adr_reg := b_adrBase s OR b_adrOfs s, b_wb_stb := False, b_adrOfs := (b_adrOfs s + 4) AND 15\<rparr>
                in if Suc n < CACHE_BANKS then busif_fill (Suc n) t else busif_victim i s (t\<lparr>b_wb_cyc := False\<rparr>))
      | B_victim \<Rightarrow>
          (let t = s\<lparr>b_odata_reg := banks (\<lambda>n. if b_gnt_bank i n then b_data_in i n else b_odata_reg s n) (b_odata_reg s)\<rparr>
           in if list_ex (b_banksLeft s) [0..<CACHE_BANKS] then busif_victim_iter i t
              else busif_new_line i s
                (t\<lparr>b_req_bank := banks (\<lambda>_. False) (b_req_bank t), b_bank_rd := banks (\<lambda>_. False) (b_bank_rd t), b_write_victim := True\<rparr>))
      | B_inv_req \<Rightarrow> if b_gnt_tagw i then busif_inv_go s s else s
      | B_inv_1 \<Rightarrow> s\<lparr>b_loc := B_inv_2\<rparr>
      | B_inv_2 \<Rightarrow> busif_bank_iter (s\<lparr>b_tag_wr := False, b_req_tagw := False, b_banksLeft := banks (\<lambda>_. True) (b_banksLeft s)\<rparr>)
      | B_bank_write \<Rightarrow>
          (let t = s\<lparr>b_banksLeft := banks (\<lambda>n. b_banksLeft s n \<and> \<not> b_gnt_bank i n) (b_banksLeft s)\<rparr>
           in if list_ex (b_banksLeft t) [0..<CACHE_BANKS] then busif_bank_iter t else busif_new_tag i s (busif_banks_done t))
      | B_tag_req \<Rightarrow> if b_gnt_tagw i then busif_tag_go s else s
      | B_tag_1 \<Rightarrow> s\<lparr>b_loc := B_tag_2\<rparr>
      | B_tag_2 \<Rightarrow>
          (let t = s\<lparr>b_tag_wr := False, b_req_tagw := False\<rparr>
           in if b_write_victim s then t\<lparr>b_loc := B_wb_start\<rparr> else busif_complete t)
      | B_wb_start \<Rightarrow> busif_wb s 0 (s\<lparr>b_wb_cyc := True, b_wb_we := True\<rparr>)
      | B_wb n \<Rightarrow>
          if \<not> b_wb_ack i then s
          else (let t = s\<lparr>b_wb_stb := False\<rparr>
                in if Suc n < CACHE_BANKS then busif_wb s (Suc n) t
                   else busif_complete (t\<lparr>b_wb_cyc := False, b_wb_we := False\<rparr>))
      | B_done \<Rightarrow> busif_top i s (if b_nolinelock_reg s then s else s\<lparr>b_req_linelock := False\<rparr>))"

definition busif_step :: "bool \<Rightarrow> busif_in \<Rightarrow> busif \<Rightarrow> busif" where
  "busif_step reset i s =
     (if reset then s\<lparr>b_idata_valid := banks (\<lambda>_. False) (b_idata_valid s), b_op_reg := bioNothing, b_busy := False, b_loc := B_reset\<rparr>
      else busif_wake i s)"

end
