(* ===== verification/PnRp.thy ===== *)
theory PnRp
  imports PnBusIf
begin

text \<open>
  A read port of the memory unit, module \<open>MReadPort\<close> of \<open>src/sysc/memu.cpp\<close>: the outputs as a function of the inputs and the
  registers, the transition, and when an acknowledge is given.  What the port delivers in the memory unit is shown in \<open>PnMemuRead\<close>.
\<close>

section \<open>Signals\<close>

datatype e_readport_state =
    s_rp_init | s_rp_direct_wait_busif | s_rp_request_tag_only | s_rp_read_tag | s_rp_read_bank
  | s_rp_miss_wait_busif | s_rp_miss_request_tag | s_rp_miss_read_tag | s_rp_miss_replace

record rp_in =
  r_reset :: bool
  r_port_rd :: bool
  r_port_direct :: bool
  r_port_adr :: u32
  r_busif_adr :: u32
  r_busif_data :: u32
  r_busif_data_valid :: "nat \<Rightarrow> bool"
  r_busif_busy :: bool
  r_bank_data_in :: u32
  r_tag_in :: SCacheTag
  r_gnt_tagr :: bool
  r_gnt_bank :: "nat \<Rightarrow> bool"
  r_gnt_busif :: bool

record rp =
  rp_state :: e_readport_state
  rp_bank_sel_reg :: nat

text \<open>The outputs, the inputs of the registers, and the two helper variables that are outputs twice.\<close>

record rp_out =
  r_port_ack :: bool
  r_port_data :: u32
  r_busif_op :: "3 word"
  r_tag_rd :: bool
  r_bank_rd :: bool
  r_bank_sel :: nat
  r_way_out :: u32
  r_req_tagr :: bool
  r_req_bank :: "nat \<Rightarrow> bool"
  r_req_busif :: bool
  r_next_state :: e_readport_state
  r_next_bank_sel :: nat
  r_tagr_req_rd :: bool
  r_bank_req_rd :: bool

section \<open>The methods\<close>

definition rp_hit :: "rp_in \<Rightarrow> bool" where
  "rp_hit i \<longleftrightarrow> r_busif_data_valid i (GetBankOfAdr (r_port_adr i)) \<and> r_port_adr i = r_busif_adr i"

definition rp_defaults :: "rp_in \<Rightarrow> rp \<Rightarrow> rp_out" where
  "rp_defaults i s =
     \<lparr>r_port_ack = False, r_port_data = r_busif_data i, r_busif_op = bioNothing, r_tag_rd = False, r_bank_rd = False,
      r_bank_sel = rp_bank_sel_reg s, r_way_out = way (r_tag_in i), r_req_tagr = False, r_req_bank = (\<lambda>_. False), r_req_busif = False,
      r_next_state = rp_state s, r_next_bank_sel = rp_bank_sel_reg s, r_tagr_req_rd = False, r_bank_req_rd = False\<rparr>"

text \<open>A new request, in \<open>s_rp_init\<close> and in \<open>s_rp_read_bank\<close>.\<close>

definition rp_request :: "rp_in \<Rightarrow> rp_out \<Rightarrow> rp_out" where
  "rp_request i o1 =
     (if \<not> r_port_rd i then o1
      else if r_port_direct i
      then (let o2 = o1\<lparr>r_busif_op := bioDirectRead, r_req_busif := True\<rparr>
            in if r_gnt_busif i then o2\<lparr>r_next_state := s_rp_direct_wait_busif\<rparr> else o2)
      else if rp_hit i then o1\<lparr>r_port_ack := True, r_next_state := s_rp_init\<rparr>
      else (let o2 = o1\<lparr>r_tagr_req_rd := True\<rparr>
            in if r_gnt_tagr i then o2\<lparr>r_next_state := s_rp_read_tag\<rparr> else o2))"

text \<open>A tag has been read: on a hit the bank is read, else the next state is \<open>miss\<close>.\<close>

definition rp_have_tag :: "rp_in \<Rightarrow> e_readport_state \<Rightarrow> rp_out \<Rightarrow> rp_out" where
  "rp_have_tag i miss o1 =
     (let bank = GetBankOfAdr (r_port_adr i)
      in if valid (r_tag_in i)
         then let o2 = o1\<lparr>r_bank_req_rd := True\<rparr>
              in if r_gnt_bank i bank then o2\<lparr>r_next_bank_sel := bank, r_port_ack := True, r_next_state := s_rp_read_bank\<rparr> else o2
         else o1\<lparr>r_next_state := miss\<rparr>)"

text \<open>\<open>s_rp_request_tag_only\<close> has no case: the port stays there.\<close>

definition rp_switch :: "rp_in \<Rightarrow> rp \<Rightarrow> rp_out \<Rightarrow> rp_out" where
  "rp_switch i s o0 =
     (case rp_state s of
        s_rp_init \<Rightarrow> rp_request i o0
      | s_rp_direct_wait_busif \<Rightarrow>
          (let o1 = o0\<lparr>r_busif_op := bioDirectRead, r_req_busif := True\<rparr>
           in if rp_hit i then o1\<lparr>r_port_ack := True, r_next_state := s_rp_init\<rparr> else o1)
      | s_rp_request_tag_only \<Rightarrow> o0
      | s_rp_read_tag \<Rightarrow> rp_have_tag i s_rp_miss_wait_busif (o0\<lparr>r_tagr_req_rd := True\<rparr>)
      | s_rp_read_bank \<Rightarrow>
          rp_request i (o0\<lparr>r_tagr_req_rd := True, r_port_data := r_bank_data_in i, r_next_state := s_rp_init\<rparr>)
      | s_rp_miss_wait_busif \<Rightarrow>
          (let o1 = o0\<lparr>r_req_busif := True\<rparr>
           in if rp_hit i then o1\<lparr>r_port_ack := True, r_next_state := s_rp_init\<rparr>
              else if r_gnt_busif i \<and> \<not> r_busif_busy i then o1\<lparr>r_next_state := s_rp_miss_request_tag\<rparr> else o1)
      | s_rp_miss_request_tag \<Rightarrow>
          (let o1 = o0\<lparr>r_req_busif := True, r_tagr_req_rd := True\<rparr>
           in if r_gnt_tagr i then o1\<lparr>r_next_state := s_rp_miss_read_tag\<rparr> else o1)
      | s_rp_miss_read_tag \<Rightarrow> rp_have_tag i s_rp_miss_replace (o0\<lparr>r_req_busif := True, r_tagr_req_rd := True\<rparr>)
      | s_rp_miss_replace \<Rightarrow>
          (let o1 = o0\<lparr>r_req_busif := True, r_busif_op := bioReplace\<rparr>
           in if rp_hit i then o1\<lparr>r_port_ack := True, r_next_state := s_rp_init\<rparr> else o1))"

definition rp_main :: "rp_in \<Rightarrow> rp \<Rightarrow> rp_out" where
  "rp_main i s =
     (let o1 = (if r_reset i then (rp_defaults i s)\<lparr>r_next_state := s_rp_init\<rparr> else rp_switch i s (rp_defaults i s))
      in o1\<lparr>r_req_tagr := r_tagr_req_rd o1, r_tag_rd := r_tagr_req_rd o1,
            r_req_bank := (r_req_bank o1)(GetBankOfAdr (r_port_adr i) := r_bank_req_rd o1), r_bank_rd := r_bank_req_rd o1\<rparr>)"

definition rp_transition :: "rp_in \<Rightarrow> rp \<Rightarrow> rp" where
  "rp_transition i s = s\<lparr>rp_state := r_next_state (rp_main i s), rp_bank_sel_reg := r_next_bank_sel (rp_main i s)\<rparr>"

section \<open>What a step does\<close>

lemmas rp_defs = rp_main_def rp_switch_def rp_defaults_def rp_request_def rp_have_tag_def Let_def

text \<open>How the port comes to look at a tag, and to wait.\<close>

lemma rp_next_tag:
  assumes "\<not> r_reset i" "r_next_state (rp_main i s) = s_rp_read_tag \<or> r_next_state (rp_main i s) = s_rp_miss_read_tag"
  shows "r_tag_rd (rp_main i s)" "\<not> r_port_ack (rp_main i s)"
    "rp_state s = s_rp_read_tag \<or> rp_state s = s_rp_miss_read_tag \<or> r_gnt_tagr i"
    "rp_state s = s_rp_init \<or> rp_state s = s_rp_read_bank \<Longrightarrow> r_port_rd i"
    "rp_state s \<in> {s_rp_read_tag, s_rp_miss_read_tag, s_rp_init, s_rp_read_bank, s_rp_miss_request_tag}"
  using assms by (cases "rp_state s"; auto simp: rp_defs split: if_splits)+

lemma rp_next_wait:
  assumes "\<not> r_reset i" "r_next_state (rp_main i s) \<in> {s_rp_direct_wait_busif, s_rp_miss_wait_busif, s_rp_miss_request_tag, s_rp_miss_replace}"
  shows "\<not> r_port_ack (rp_main i s)"
    "r_port_rd i \<or> rp_state s \<in> {s_rp_direct_wait_busif, s_rp_miss_wait_busif, s_rp_miss_request_tag, s_rp_miss_replace, s_rp_read_tag, s_rp_miss_read_tag}"
  using assms by (cases "rp_state s"; auto simp: rp_defs split: if_splits)+

text \<open>An acknowledge is given for a word of the bus interface, or for a hit whose bank is read in this clock.\<close>

lemma rp_ack_cases:
  assumes "\<not> r_reset i" "r_port_ack (rp_main i s)"
  shows "rp_hit i \<and> r_next_state (rp_main i s) = s_rp_init \<or>
    (rp_state s = s_rp_read_tag \<or> rp_state s = s_rp_miss_read_tag) \<and> valid (r_tag_in i) \<and> r_bank_rd (rp_main i s)
      \<and> r_gnt_bank i (GetBankOfAdr (r_port_adr i)) \<and> r_next_state (rp_main i s) = s_rp_read_bank
      \<and> r_next_bank_sel (rp_main i s) = GetBankOfAdr (r_port_adr i)"
  using assms by (cases "rp_state s") (auto simp: rp_defs split: if_splits)

lemma rp_data:
  "\<not> r_reset i \<Longrightarrow> r_port_data (rp_main i s) = (if rp_state s = s_rp_read_bank then r_bank_data_in i else r_busif_data i)"
  by (cases "rp_state s") (simp_all add: rp_defs)

end
