(* ===== verification/PnLine.thy ===== *)
theory PnLine
  imports PnBusIf
begin

text \<open>
  The operations of the bus interface on a cache line: while it has the line for itself, an operation, however long memory and
  arbiter take, does what \<open>line_spec\<close> says, and each word it forwards to the read ports on the way is the word of memory.
  The associativity is 1, as in \<open>config.h\<close>.
\<close>

section \<open>The line and its memory\<close>

text \<open>
  The set the operation works on, the main memory, what the tag RAM and the bank RAMs have read for the bus interface, and
  the grants of the cycle before.
\<close>

record line =
  l_tag :: SCacheTag
  l_word :: "nat \<Rightarrow> u32"
  l_mem :: "u32 \<Rightarrow> u32"
  l_tag_rd :: SCacheTag
  l_bank_rd :: "nat \<Rightarrow> u32"
  l_gnt_tagr :: bool
  l_gnt_tagw :: bool
  l_gnt_bank :: "nat \<Rightarrow> bool"

definition tag_seen :: "u32 \<Rightarrow> SCacheTag \<Rightarrow> SCacheTag" where
  "tag_seen A T = \<lparr>valid = valid T \<and> tadr T = GetTagOfAdr A, dirty = dirty T, tadr = tadr T, way = 0\<rparr>"

text \<open>What the outputs do at a clock edge.\<close>

definition line_step :: "busif_in \<Rightarrow> busif \<Rightarrow> line \<Rightarrow> line" where
  "line_step i s g =
     \<lparr>l_tag = (if b_tag_wr s \<and> b_gnt_tagw i then b_tag_out s else l_tag g),
      l_word = (\<lambda>n. if b_bank_wr s n \<and> b_gnt_bank i n then b_idata_reg s n else l_word g n),
      l_mem = (if b_wb_cyc s \<and> b_wb_stb s \<and> b_wb_we s \<and> b_wb_ack i
               then (l_mem g)(b_wb_adr s := merge_lanes (b_wb_sel s) (b_wb_dat_o s) (l_mem g (b_wb_adr s))) else l_mem g),
      l_tag_rd = (if b_tag_rd s \<and> b_gnt_tagr i then tag_seen (b_adr_reg s) (l_tag g) else l_tag_rd g),
      l_bank_rd = (\<lambda>n. if b_bank_rd s n \<and> b_gnt_bank i n then l_word g n else l_bank_rd g n),
      l_gnt_tagr = b_gnt_tagr i, l_gnt_tagw = b_gnt_tagw i, l_gnt_bank = b_gnt_bank i\<rparr>"

text \<open>
  The protocol: grants answer requests and stay as long as these are held, an acknowledge answers a bus cycle,
  read data is that of the memory.
\<close>

definition busif_obeys :: "busif_in \<Rightarrow> busif \<Rightarrow> line \<Rightarrow> bool" where
  "busif_obeys i s g \<longleftrightarrow>
     (b_gnt_tagr i \<longrightarrow> b_req_tagr s) \<and> (b_gnt_tagw i \<longrightarrow> b_req_tagw s) \<and> (\<forall>n < 4. b_gnt_bank i n \<longrightarrow> b_req_bank s n)
     \<and> (l_gnt_tagr g \<and> b_req_tagr s \<longrightarrow> b_gnt_tagr i) \<and> (l_gnt_tagw g \<and> b_req_tagw s \<longrightarrow> b_gnt_tagw i)
     \<and> (\<forall>n < 4. l_gnt_bank g n \<and> b_req_bank s n \<longrightarrow> b_gnt_bank i n)
     \<and> b_tag_in i = l_tag_rd g \<and> (\<forall>n < 4. b_bank_rd s n \<longrightarrow> b_data_in i n = l_bank_rd g n)
     \<and> (b_wb_ack i \<longrightarrow> b_wb_cyc s \<and> b_wb_stb s) \<and> (b_wb_ack i \<and> \<not> b_wb_we s \<longrightarrow> b_wb_dat i = l_mem g (b_wb_adr s))"

type_synonym busif_sys = "busif \<times> line"

definition busif_clock :: "busif_in \<Rightarrow> busif_sys \<Rightarrow> busif_sys" where
  "busif_clock i st = (busif_wake i (fst st), line_step i (fst st) (snd st))"

fun busif_env :: "busif_in list \<Rightarrow> busif_sys \<Rightarrow> bool" where
  "busif_env [] st \<longleftrightarrow> True"
| "busif_env (i # is) st \<longleftrightarrow> busif_obeys i (fst st) (snd st) \<and> busif_env is (busif_clock i st)"

definition busif_run :: "busif_in list \<Rightarrow> busif_sys \<Rightarrow> busif_sys" where
  "busif_run is st = fold busif_clock is st"

section \<open>What an operation does\<close>

definition line_adr :: "u32 \<Rightarrow> nat \<Rightarrow> u32" where
  "line_adr A n = ComposeAdress (GetTagOfAdr A) (GetIndexOfAdr A) n 0"

definition victim_adr :: "u32 \<Rightarrow> line \<Rightarrow> nat \<Rightarrow> u32" where
  "victim_adr A g n = ComposeAdress (tadr (l_tag g)) (GetIndexOfAdr A) n 0"

definition writes_victim :: "3 word \<Rightarrow> line \<Rightarrow> bool" where
  "writes_victim X g \<longleftrightarrow> dirty (l_tag g) \<and> X \<noteq> bioInvalidate"

text \<open>The memory when \<open>k\<close> words of the victim are written.\<close>

definition victim_mem :: "u32 \<Rightarrow> line \<Rightarrow> nat \<Rightarrow> u32 \<Rightarrow> u32" where
  "victim_mem A g k = fold (\<lambda>n m. m(victim_adr A g n := l_word g n)) [0..<k] (l_mem g)"

definition final_tag :: "3 word \<Rightarrow> u32 \<Rightarrow> line \<Rightarrow> SCacheTag" where
  "final_tag X A g = \<lparr>valid = (X = bioReplace \<or> X = bioWriteback \<and> valid (l_tag g) \<and> tadr (l_tag g) = GetTagOfAdr A),
     dirty = False, tadr = GetTagOfAdr A, way = 0\<rparr>"

definition final_word :: "3 word \<Rightarrow> u32 \<Rightarrow> line \<Rightarrow> nat \<Rightarrow> u32" where
  "final_word X A g n = (if X = bioReplace then l_mem g (line_adr A n) else l_word g n)"

definition line_spec :: "3 word \<Rightarrow> u32 \<Rightarrow> line \<Rightarrow> line \<Rightarrow> bool" where
  "line_spec X A g g' \<longleftrightarrow> l_tag g' = final_tag X A g \<and> (\<forall>n < 4. l_word g' n = final_word X A g n)
     \<and> l_mem g' = (if writes_victim X g then victim_mem A g 4 else l_mem g)"

section \<open>The invariant\<close>

text \<open>\<open>g0\<close> is the line when the operation begins to read it.\<close>

definition old_line :: "line \<Rightarrow> line \<Rightarrow> bool" where
  "old_line g0 g \<longleftrightarrow> l_tag g = l_tag g0 \<and> (\<forall>n < 4. l_word g n = l_word g0 n) \<and> l_mem g = l_mem g0"

text \<open>The words that are forwarded are those of the memory.\<close>

definition forwards :: "u32 \<Rightarrow> line \<Rightarrow> busif \<Rightarrow> bool" where
  "forwards A g0 s \<longleftrightarrow> (\<forall>n < 4. b_idata_valid s n \<longrightarrow> b_idata_reg s n = l_mem g0 (line_adr A n))"

definition busif_base :: "3 word \<Rightarrow> u32 \<Rightarrow> line \<Rightarrow> busif \<Rightarrow> bool" where
  "busif_base X A g0 s \<longleftrightarrow> X \<in> {1, 2, 3, 7} \<and> b_op_reg s = X \<and> b_busy s \<and> b_wb_sel s = 0xf
     \<and> GetIndexOfAdr (b_adr_reg s) = GetIndexOfAdr A \<and> GetTagOfAdr (b_adr_reg s) = GetTagOfAdr A
     \<and> b_adrBase s = A AND NOT 15 \<and> forwards A g0 s"

definition nobank :: "busif \<Rightarrow> bool" where
  "nobank s \<longleftrightarrow> (\<forall>n < 4. \<not> b_bank_rd s n \<and> \<not> b_bank_wr s n \<and> \<not> b_req_bank s n)"

definition idle_bus :: "busif \<Rightarrow> bool" where
  "idle_bus s \<longleftrightarrow> \<not> b_wb_cyc s \<and> \<not> b_wb_stb s \<and> \<not> b_wb_we s"

definition no_word :: "busif \<Rightarrow> bool" where
  "no_word s \<longleftrightarrow> (\<forall>n < 4. \<not> b_idata_valid s n)"

text \<open>All words of the new line have been read, if there is one.\<close>

definition all_read :: "3 word \<Rightarrow> busif \<Rightarrow> bool" where
  "all_read X s \<longleftrightarrow> (X = bioReplace \<longrightarrow> (\<forall>n < 4. b_idata_valid s n))"

text \<open>The victim has been read, if there is one.\<close>

definition captured :: "3 word \<Rightarrow> line \<Rightarrow> busif \<Rightarrow> bool" where
  "captured X g0 s \<longleftrightarrow> b_write_victim s = writes_victim X g0 \<and> (writes_victim X g0 \<longrightarrow> (\<forall>n < 4. b_odata_reg s n = l_word g0 n))"

definition ofs_of :: "u32 \<Rightarrow> nat \<Rightarrow> nat" where
  "ofs_of A n = (GetBankOfAdr A + n) mod 4"

definition inv_tag :: "u32 \<Rightarrow> line \<Rightarrow> SCacheTag" where
  "inv_tag A g0 = (tag_seen A (l_tag g0))\<lparr>valid := False\<rparr>"

text \<open>The line while the new tag is written.\<close>

definition new_line :: "3 word \<Rightarrow> u32 \<Rightarrow> line \<Rightarrow> line \<Rightarrow> bool" where
  "new_line X A g0 g \<longleftrightarrow> l_tag g = (if X = bioReplace then inv_tag A g0 else l_tag g0)
     \<and> (\<forall>n < 4. l_word g n = final_word X A g0 n) \<and> l_mem g = l_mem g0"

definition busif_inv :: "3 word \<Rightarrow> u32 \<Rightarrow> line \<Rightarrow> busif \<Rightarrow> line \<Rightarrow> bool" where
  "busif_inv X A g0 s g \<longleftrightarrow>
     (case b_loc s of
        B_tagr \<Rightarrow> busif_base X A g0 s \<and> old_line g0 g \<and> idle_bus s \<and> nobank s \<and> \<not> b_tag_wr s \<and> \<not> b_req_tagw s
          \<and> b_tag_rd s \<and> b_req_tagr s \<and> no_word s \<and> \<not> b_write_victim s \<and> b_adrOfs s = of_nat (4 * ofs_of A 0)
      | B_tag_read \<Rightarrow> busif_base X A g0 s \<and> old_line g0 g \<and> idle_bus s \<and> nobank s \<and> \<not> b_tag_wr s \<and> \<not> b_req_tagw s
          \<and> b_tag_rd s \<and> b_req_tagr s \<and> no_word s \<and> \<not> b_write_victim s \<and> b_adrOfs s = of_nat (4 * ofs_of A 0)
          \<and> l_tag_rd g = tag_seen A (l_tag g0)
      | B_tag_have \<Rightarrow> busif_base X A g0 s \<and> old_line g0 g \<and> idle_bus s \<and> nobank s \<and> \<not> b_tag_wr s \<and> \<not> b_req_tagw s
          \<and> \<not> b_tag_rd s \<and> no_word s \<and> \<not> b_write_victim s \<and> b_adrOfs s = of_nat (4 * ofs_of A 0)
          \<and> b_tag_reg s = tag_seen A (l_tag g0)
      | B_fill n \<Rightarrow> busif_base X A g0 s \<and> old_line g0 g \<and> nobank s \<and> \<not> b_tag_wr s \<and> \<not> b_req_tagw s \<and> \<not> b_tag_rd s
          \<and> \<not> b_write_victim s \<and> b_tag_reg s = tag_seen A (l_tag g0) \<and> X = bioReplace \<and> n < 4
          \<and> b_wb_cyc s \<and> b_wb_stb s \<and> \<not> b_wb_we s \<and> b_adrOfs s = of_nat (4 * ofs_of A n)
          \<and> b_wb_adr s = line_adr A (ofs_of A n) \<and> (\<forall>j < n. b_idata_valid s (ofs_of A j))
      | B_victim \<Rightarrow> busif_base X A g0 s \<and> old_line g0 g \<and> idle_bus s \<and> \<not> b_tag_wr s \<and> \<not> b_req_tagw s \<and> \<not> b_tag_rd s
          \<and> \<not> b_write_victim s \<and> b_tag_reg s = tag_seen A (l_tag g0) \<and> writes_victim X g0 \<and> all_read X s
          \<and> (\<forall>n < 4. \<not> b_bank_wr s n) \<and> (\<forall>n < 4. b_banksLeft s n \<longrightarrow> b_req_bank s n \<and> b_bank_rd s n)
          \<and> (\<forall>n < 4. \<not> b_banksLeft s n \<longrightarrow> b_odata_reg s n = l_word g0 n \<and> \<not> b_req_bank s n
                \<or> b_req_bank s n \<and> b_bank_rd s n \<and> l_bank_rd g n = l_word g0 n \<and> l_gnt_bank g n)
      | B_inv_req \<Rightarrow> busif_base X A g0 s \<and> old_line g0 g \<and> idle_bus s \<and> nobank s \<and> \<not> b_tag_wr s \<and> \<not> b_tag_rd s \<and> b_req_tagw s
          \<and> b_tag_reg s = tag_seen A (l_tag g0) \<and> all_read X s \<and> captured X g0 s \<and> X = bioReplace
      | B_inv_1 \<Rightarrow> busif_base X A g0 s \<and> old_line g0 g \<and> idle_bus s \<and> nobank s \<and> b_tag_wr s \<and> \<not> b_tag_rd s \<and> b_req_tagw s
          \<and> l_gnt_tagw g \<and> b_tag_out s = inv_tag A g0
          \<and> b_tag_reg s = tag_seen A (l_tag g0) \<and> all_read X s \<and> captured X g0 s \<and> X = bioReplace
      | B_inv_2 \<Rightarrow> busif_base X A g0 s \<and> l_tag g = inv_tag A g0 \<and> l_mem g = l_mem g0 \<and> idle_bus s \<and> nobank s \<and> b_tag_wr s
          \<and> \<not> b_tag_rd s \<and> b_tag_out s = inv_tag A g0
          \<and> b_tag_reg s = tag_seen A (l_tag g0) \<and> all_read X s \<and> captured X g0 s \<and> X = bioReplace
      | B_bank_write \<Rightarrow> busif_base X A g0 s \<and> l_tag g = inv_tag A g0 \<and> l_mem g = l_mem g0 \<and> idle_bus s \<and> \<not> b_tag_wr s
          \<and> \<not> b_tag_rd s \<and> \<not> b_req_tagw s \<and> (\<forall>n < 4. \<not> b_bank_rd s n)
          \<and> (\<forall>n < 4. b_banksLeft s n = b_req_bank s n \<and> b_banksLeft s n = b_bank_wr s n)
          \<and> (\<forall>n < 4. \<not> b_banksLeft s n \<longrightarrow> l_word g n = final_word X A g0 n)
          \<and> b_tag_reg s = tag_seen A (l_tag g0) \<and> all_read X s \<and> captured X g0 s \<and> X = bioReplace
      | B_tag_req \<Rightarrow> busif_base X A g0 s \<and> new_line X A g0 g \<and> idle_bus s \<and> nobank s \<and> \<not> b_tag_wr s \<and> \<not> b_tag_rd s \<and> b_req_tagw s
          \<and> b_tag_out s = final_tag X A g0 \<and> b_tag_reg s = tag_seen A (l_tag g0) \<and> captured X g0 s
      | B_tag_1 \<Rightarrow> busif_base X A g0 s \<and> new_line X A g0 g \<and> idle_bus s \<and> nobank s \<and> b_tag_wr s \<and> \<not> b_tag_rd s \<and> b_req_tagw s
          \<and> l_gnt_tagw g \<and> b_tag_out s = final_tag X A g0 \<and> b_tag_reg s = tag_seen A (l_tag g0) \<and> captured X g0 s
      | B_tag_2 \<Rightarrow> busif_base X A g0 s \<and> l_tag g = final_tag X A g0 \<and> (\<forall>n < 4. l_word g n = final_word X A g0 n)
          \<and> l_mem g = l_mem g0 \<and> idle_bus s \<and> nobank s \<and> b_tag_wr s \<and> \<not> b_tag_rd s
          \<and> b_tag_out s = final_tag X A g0 \<and> b_tag_reg s = tag_seen A (l_tag g0) \<and> captured X g0 s
      | B_wb_start \<Rightarrow> busif_base X A g0 s \<and> l_tag g = final_tag X A g0 \<and> (\<forall>n < 4. l_word g n = final_word X A g0 n)
          \<and> l_mem g = l_mem g0 \<and> idle_bus s \<and> nobank s \<and> \<not> b_tag_wr s \<and> \<not> b_tag_rd s
          \<and> b_tag_reg s = tag_seen A (l_tag g0) \<and> captured X g0 s \<and> writes_victim X g0
      | B_wb n \<Rightarrow> busif_base X A g0 s \<and> l_tag g = final_tag X A g0 \<and> (\<forall>n < 4. l_word g n = final_word X A g0 n)
          \<and> l_mem g = victim_mem A g0 n \<and> n < 4 \<and> b_wb_cyc s \<and> b_wb_stb s \<and> b_wb_we s \<and> nobank s \<and> \<not> b_tag_wr s \<and> \<not> b_tag_rd s
          \<and> b_wb_adr s = victim_adr A g0 n \<and> b_wb_dat_o s = l_word g0 n
          \<and> b_tag_reg s = tag_seen A (l_tag g0) \<and> captured X g0 s \<and> writes_victim X g0
      | B_done \<Rightarrow> line_spec X A g0 g \<and> \<not> b_busy s \<and> b_op_reg s = bioNothing \<and> no_word s
          \<and> idle_bus s \<and> nobank s \<and> \<not> b_tag_wr s \<and> \<not> b_tag_rd s
      | _ \<Rightarrow> False)"

section \<open>Addresses of a line\<close>

lemma mask_15: "(15 :: u32) = mask 4"
  by (simp add: mask_eq_exp_minus_1)

lemma ofs_of_less [simp]: "ofs_of A n < 4"
  by (simp add: ofs_of_def)

lemma bit_of_nat_4: "k < 4 \<Longrightarrow> bit (of_nat (4 * k) :: u32) n \<longleftrightarrow> 2 \<le> n \<and> bit (of_nat k :: u32) (n - 2)"
proof -
  have "(of_nat (4 * k) :: u32) = push_bit 2 (of_nat k)" by (simp add: push_bit_eq_mult)
  moreover assume "k < 4"
  then have "bit (of_nat k :: u32) (n - 2) \<Longrightarrow> n - 2 < 2" using bit_word_small [of "of_nat k" 2] by (simp add: unat_of_nat)
  ultimately show ?thesis by (auto simp: bit_push_bit_iff)
qed

lemma bit_of_nat_small: "k < 4 \<Longrightarrow> bit (of_nat k :: u32) n \<Longrightarrow> n < 2"
  using bit_word_small [of "of_nat k" 2] by (simp add: unat_of_nat)

lemma bit_line_adr:
  assumes "k < 4" "n < 32"
  shows "bit (line_adr A k) n \<longleftrightarrow> (if 4 \<le> n then bit A n else 2 \<le> n \<and> bit (of_nat k :: u32) (n - 2))"
  using bit_of_nat_small [OF assms(1), of "n - 2"] assms(2)
  by (cases "13 \<le> n") (auto simp: line_adr_def bit_ComposeAdress bit_GetTagOfAdr bit_GetIndexOfAdr)

lemma line_base_or:
  assumes "k < 4"
  shows "(A AND NOT 15) OR of_nat (4 * k) = line_adr A k"
proof (rule bit_word_eqI)
  fix n assume "n < LENGTH(32)"
  then show "bit ((A AND NOT 15) OR of_nat (4 * k)) n = bit (line_adr A k) n"
    unfolding mask_15 using bit_of_nat_small [OF assms, of "n - 2"]
    by (auto simp: bit_line_adr [OF assms] bit_or_iff bit_and_iff bit_not_iff bit_mask_iff bit_of_nat_4 [OF assms] simp del: of_nat_mult)
qed

lemma line_adr_own: "line_adr A (GetBankOfAdr A) = A AND NOT 3"
proof (rule bit_word_eqI)
  fix n assume "n < LENGTH(32)"
  then show "bit (line_adr A (GetBankOfAdr A)) n = bit (A AND NOT 3) n"
    unfolding mask_3 by (cases "2 \<le> n") (auto simp: bit_line_adr bit_bank bit_and_iff bit_not_iff bit_mask_iff simp del: add_2_eq_Suc add_2_eq_Suc')
qed

lemma line_ofs: "(A AND NOT 3) - (A AND NOT 15) = of_nat (4 * GetBankOfAdr A)"
proof -
  have "\<not> bit (A AND NOT 15) n \<or> \<not> bit (of_nat (4 * GetBankOfAdr A) :: u32) n" for n
    unfolding mask_15 using bit_of_nat_small [of "GetBankOfAdr A" "n - 2"]
    by (auto simp: bit_and_iff bit_not_iff bit_mask_iff bit_of_nat_4 simp del: of_nat_mult)
  then have "(A AND NOT 15) + of_nat (4 * GetBankOfAdr A) = (A AND NOT 15) OR of_nat (4 * GetBankOfAdr A)"
    by (rule disjunctive_add)
  also have "\<dots> = A AND NOT 3" unfolding line_base_or [OF GetBankOfAdr_less] by (rule line_adr_own)
  finally show ?thesis by (metis add_diff_cancel_left')
qed

lemma ofs_of_0: "ofs_of A 0 = GetBankOfAdr A"
  by (simp add: ofs_of_def)

lemma word_of_ofs: "k < 4 \<Longrightarrow> unat (drop_bit 2 (of_nat (4 * k) :: u32)) = k"
  by (auto dest: less_4_cases)

lemma ofs_step: "(of_nat (4 * ofs_of A n) + 4) AND 15 = (of_nat (4 * ofs_of A (Suc n)) :: u32)"
proof -
  have "ofs_of A (Suc n) = (ofs_of A n + 1) mod 4" by (simp add: ofs_of_def mod_simps)
  then show ?thesis using less_4_cases [OF ofs_of_less, of A n] by (elim disjE) simp_all
qed

lemma line_adr_same [simp]:
  assumes "k < 4"
  shows "GetIndexOfAdr (line_adr A k) = GetIndexOfAdr A" "GetTagOfAdr (line_adr A k) = GetTagOfAdr A"
    "GetBankOfAdr (line_adr A k) = k"
  using split_compose [OF unat_GetTagOfAdr unat_GetIndexOfAdr assms] by (simp_all add: line_adr_def)

text \<open>The four offsets are the four words.\<close>

lemma ofs_cover: "n < 4 \<Longrightarrow> \<exists>j < 4. ofs_of A j = n"
proof -
  assume n: "n < 4"
  have b: "GetBankOfAdr A < 4" by simp
  have "(GetBankOfAdr A + (n + 4 - GetBankOfAdr A) mod 4) mod 4 = (GetBankOfAdr A + (n + 4 - GetBankOfAdr A)) mod 4" by (rule mod_add_right_eq)
  also have "GetBankOfAdr A + (n + 4 - GetBankOfAdr A) = n + 4" using b by linarith
  also have "(n + 4) mod 4 = n" using n by simp
  finally show ?thesis by (intro exI [of _ "(n + 4 - GetBankOfAdr A) mod 4"]) (simp add: ofs_of_def)
qed

section \<open>The invariant is kept\<close>

named_theorems busif_defs \<open>the thread of the bus interface\<close>

lemmas [busif_defs] = busif_wake_def busif_tag_request_def busif_fill_def busif_victim_def busif_victim_iter_def busif_new_line_def
  busif_new_tag_def busif_tag_go_def busif_inv_go_def busif_bank_iter_def busif_banks_done_def busif_wb_def busif_complete_def banks_def

lemmas inv_defs = busif_inv_def busif_base_def old_line_def forwards_def nobank_def idle_bus_def no_word_def all_read_def captured_def
  new_line_def

lemma inv_B_tagr:
  assumes "busif_inv X A g0 s g" "busif_obeys i s g" "b_loc s = B_tagr"
  shows "busif_inv X A g0 (busif_wake i s) (line_step i s g)"
  using assms by (auto simp: inv_defs busif_defs line_step_def busif_obeys_def tag_seen_def)

lemma inv_B_tag_read:
  assumes "busif_inv X A g0 s g" "busif_obeys i s g" "b_loc s = B_tag_read"
  shows "busif_inv X A g0 (busif_wake i s) (line_step i s g)"
  using assms by (auto simp: inv_defs busif_defs line_step_def busif_obeys_def)

lemma inv_B_inv_req:
  assumes "busif_inv X A g0 s g" "busif_obeys i s g" "b_loc s = B_inv_req"
  shows "busif_inv X A g0 (busif_wake i s) (line_step i s g)"
  using assms by (auto simp: inv_defs busif_defs line_step_def busif_obeys_def inv_tag_def)

lemma inv_B_inv_1:
  assumes "busif_inv X A g0 s g" "busif_obeys i s g" "b_loc s = B_inv_1"
  shows "busif_inv X A g0 (busif_wake i s) (line_step i s g)"
  using assms by (auto simp: inv_defs busif_defs line_step_def busif_obeys_def)

lemma inv_B_inv_2:
  assumes "busif_inv X A g0 s g" "busif_obeys i s g" "b_loc s = B_inv_2"
  shows "busif_inv X A g0 (busif_wake i s) (line_step i s g)"
  using assms by (auto simp: inv_defs busif_defs line_step_def busif_obeys_def)

lemma inv_B_tag_req:
  assumes "busif_inv X A g0 s g" "busif_obeys i s g" "b_loc s = B_tag_req"
  shows "busif_inv X A g0 (busif_wake i s) (line_step i s g)"
  using assms by (auto simp: inv_defs busif_defs line_step_def busif_obeys_def)

lemma inv_B_tag_1:
  assumes "busif_inv X A g0 s g" "busif_obeys i s g" "b_loc s = B_tag_1"
  shows "busif_inv X A g0 (busif_wake i s) (line_step i s g)"
  using assms by (auto simp: inv_defs busif_defs line_step_def busif_obeys_def)

lemma inv_B_tag_2:
  assumes "busif_inv X A g0 s g" "busif_obeys i s g" "b_loc s = B_tag_2"
  shows "busif_inv X A g0 (busif_wake i s) (line_step i s g)"
  using assms by (cases "b_write_victim s") (simp_all add: inv_defs busif_defs line_step_def busif_obeys_def line_spec_def)

lemma victim_mem_0 [simp]: "victim_mem A g 0 = l_mem g"
  and victim_mem_Suc: "victim_mem A g (Suc n) = (victim_mem A g n)(victim_adr A g n := l_word g n)"
  by (simp_all add: victim_mem_def)

lemma merge_15 [simp]: "merge_lanes 15 new old = new"
proof -
  have "(15 :: 4 word) = - 1" by simp
  then show ?thesis by (simp only: merge_full)
qed

lemma inv_B_wb_start:
  assumes "busif_inv X A g0 s g" "busif_obeys i s g" "b_loc s = B_wb_start"
  shows "busif_inv X A g0 (busif_wake i s) (line_step i s g)"
  using assms by (auto simp: inv_defs busif_defs line_step_def busif_obeys_def victim_adr_def tag_seen_def)

lemma less_4_last: "n < 4 \<Longrightarrow> \<not> Suc n < 4 \<Longrightarrow> n = 3"
  by simp

lemma inv_B_wb:
  assumes "busif_inv X A g0 s g" "busif_obeys i s g" "b_loc s = B_wb n"
  shows "busif_inv X A g0 (busif_wake i s) (line_step i s g)"
proof (cases "b_wb_ack i")
  case False
  then show ?thesis using assms by (auto simp: inv_defs busif_defs line_step_def busif_obeys_def)
next
  case True
  then have mem: "l_mem (line_step i s g) = victim_mem A g0 (Suc n)"
    using assms by (simp add: inv_defs line_step_def victim_mem_Suc)
  show ?thesis
  proof (cases "Suc n < 4")
    case True
    then show ?thesis using assms \<open>b_wb_ack i\<close> mem
      by (auto simp: inv_defs busif_defs line_step_def busif_obeys_def victim_adr_def tag_seen_def)
  next
    case False
    then have "n = 3" using assms by (simp add: busif_inv_def)
    then show ?thesis using assms \<open>b_wb_ack i\<close> mem
      by (auto simp: inv_defs busif_defs line_step_def busif_obeys_def line_spec_def numeral_eq_Suc)
  qed
qed

lemma busif_new_tag_inv:
  assumes "busif_base X A g0 s" "new_line X A g0 g'" "idle_bus t" "nobank t" "\<not> b_tag_wr t" "\<not> b_tag_rd t"
    "b_tag_reg s = tag_seen A (l_tag g0)" "captured X g0 t" "\<not> b_gnt_tagw i"
    and t: "busif_base X A g0 t" "b_tag_reg t = b_tag_reg s"
  shows "busif_inv X A g0 (busif_new_tag i s t) g'"
proof -
  have "X \<in> {1, 2, 3, 7}" "b_op_reg s = X" using assms(1) by (simp_all add: busif_base_def)
  then have f: "b_tag_out (busif_new_tag i s t) = final_tag X A g0"
    using assms(1,7,9) by (auto simp: busif_new_tag_def Let_def final_tag_def tag_seen_def busif_base_def)
  then have s': "busif_new_tag i s t = t\<lparr>b_tag_out := final_tag X A g0, b_req_tagw := True, b_loc := B_tag_req\<rparr>"
    using assms(9) by (simp add: busif_new_tag_def Let_def)
  show ?thesis unfolding s' using assms by (auto simp: inv_defs)
qed

lemma inv_B_bank_write:
  assumes "busif_inv X A g0 s g" "busif_obeys i s g" "b_loc s = B_bank_write"
  shows "busif_inv X A g0 (busif_wake i s) (line_step i s g)"
proof -
  define t where "t = s\<lparr>b_banksLeft := banks (\<lambda>n. b_banksLeft s n \<and> \<not> b_gnt_bank i n) (b_banksLeft s)\<rparr>"
  note I = assms(1) [unfolded busif_inv_def assms(3) busif_loc.case]
  have base: "forwards A g0 s" "X = bioReplace" "\<forall>n < 4. b_idata_valid s n"
    and left: "\<forall>n < 4. b_banksLeft s n = b_req_bank s n \<and> b_banksLeft s n = b_bank_wr s n"
    and old: "\<forall>n < 4. \<not> b_banksLeft s n \<longrightarrow> l_word g n = final_word X A g0 n"
    using I unfolding busif_base_def all_read_def by blast+
  have words: "l_word (line_step i s g) n = final_word X A g0 n" if n: "n < 4" "\<not> b_banksLeft t n" for n
  proof (cases "b_banksLeft s n")
    case True
    then have "b_gnt_bank i n" using n by (simp add: t_def banks_def)
    moreover have "b_bank_wr s n" using left n True by blast
    moreover have "b_idata_reg s n = l_mem g0 (line_adr A n)" using base(1,3) n unfolding forwards_def by blast
    ultimately show ?thesis by (simp add: line_step_def final_word_def base(2))
  next
    case False
    moreover have "\<not> b_bank_wr s n" using left n False by blast
    ultimately show ?thesis using old n(1) by (simp add: line_step_def)
  qed
  have wake: "busif_wake i s = (if list_ex (b_banksLeft t) [0..<4] then busif_bank_iter t else busif_new_tag i s (busif_banks_done t))"
    using assms(3) by (simp add: busif_wake_def t_def Let_def)
  show ?thesis
  proof (cases "list_ex (b_banksLeft t) [0..<4]")
    case True
    have "busif_inv X A g0 (busif_bank_iter t) (line_step i s g)"
      using I words
      by (simp add: t_def inv_defs busif_bank_iter_def line_step_def banks_def)
    then show ?thesis unfolding wake using True by simp
  next
    case False
    then have none: "\<forall>n < 4. \<not> b_banksLeft t n" by (auto simp: list_ex_iff)
    have tagw: "\<not> b_gnt_tagw i" using I assms(2) unfolding busif_obeys_def by blast
    have t: "busif_banks_done t = s\<lparr>b_banksLeft := b_banksLeft t, b_req_bank := banks (\<lambda>_. False) (b_req_bank s),
        b_bank_wr := banks (\<lambda>_. False) (b_bank_wr s)\<rparr>"
      by (simp add: busif_banks_done_def t_def)
    have "busif_inv X A g0 (busif_new_tag i s (busif_banks_done t)) (line_step i s g)"
    proof (rule busif_new_tag_inv)
      show "busif_base X A g0 s" "b_tag_reg s = tag_seen A (l_tag g0)" using I by blast+
      show "new_line X A g0 (line_step i s g)"
        using I words none tagw base(2) unfolding new_line_def by (auto simp: line_step_def idle_bus_def)
      show "nobank (busif_banks_done t)" using I unfolding nobank_def t by (simp add: banks_def)
    qed (use I tagw in \<open>simp_all add: t busif_base_def idle_bus_def captured_def forwards_def\<close>)
    then show ?thesis unfolding wake using False by simp
  qed
qed

lemma busif_new_line_inv:
  assumes base: "busif_base X A g0 s" "busif_base X A g0 t" and tag: "b_tag_reg s = tag_seen A (l_tag g0)" "b_tag_reg t = b_tag_reg s"
    and old: "old_line g0 g'" and quiet: "idle_bus t" "nobank t" "\<not> b_tag_wr t" "\<not> b_tag_rd t" "\<not> b_gnt_tagw i"
    and read: "captured X g0 t" "all_read X t"
  shows "busif_inv X A g0 (busif_new_line i s t) g'"
proof (cases "X = bioReplace")
  case True
  then have n: "busif_new_line i s t = t\<lparr>b_req_tagw := True, b_loc := B_inv_req\<rparr>"
    using base(1) quiet(5) by (simp add: busif_new_line_def busif_base_def)
  show ?thesis unfolding n using assms True by (simp add: inv_defs)
next
  case False
  then have n: "busif_new_line i s t = busif_new_tag i s t" using base(1) by (simp add: busif_new_line_def busif_base_def)
  have "new_line X A g0 g'" using old False by (simp add: new_line_def old_line_def final_word_def)
  then show ?thesis unfolding n by (rule busif_new_tag_inv [OF base(1) _ quiet(1-4) tag(1) read(1) quiet(5) base(2) tag(2)])
qed

lemma busif_victim_inv:
  assumes base: "busif_base X A g0 s" "busif_base X A g0 t" and tag: "b_tag_reg s = tag_seen A (l_tag g0)" "b_tag_reg t = b_tag_reg s"
    and old: "old_line g0 g'" and quiet: "idle_bus t" "nobank t" "\<not> b_tag_wr t" "\<not> b_tag_rd t" "\<not> b_gnt_tagw i" "\<not> b_req_tagw t"
      "\<forall>n < 4. \<not> b_gnt_bank i n"
    and read: "\<not> b_write_victim t" "all_read X t"
  shows "busif_inv X A g0 (busif_victim i s t) g'"
proof -
  have X: "X = 1 \<or> X = 2 \<or> X = 3 \<or> X = 7" "b_op_reg s = X" using base(1) by (simp_all add: busif_base_def)
  have d: "dirty (b_tag_reg s) \<and> (b_op_reg s = 1 \<or> b_op_reg s = 3 \<or> b_op_reg s = 7) \<longleftrightarrow> writes_victim X g0"
    using X by (auto simp: writes_victim_def tag(1) tag_seen_def)
  show ?thesis
  proof (cases "writes_victim X g0")
    case True
    define t1 where "t1 = t\<lparr>b_tag_out := b_tag_reg s, b_banksLeft := banks (\<lambda>_. True) (b_banksLeft t)\<rparr>"
    have v: "busif_victim i s t = busif_victim_iter i t1" using True by (simp add: busif_victim_def d t1_def)
    have "\<forall>n < 4. b_banksLeft (busif_victim_iter i t1) n \<and> b_req_bank (busif_victim_iter i t1) n \<and> b_bank_rd (busif_victim_iter i t1) n"
      "\<forall>n < 4. \<not> b_bank_wr (busif_victim_iter i t1) n"
      using quiet(2,7) by (simp_all add: busif_victim_iter_def t1_def banks_def nobank_def)
    moreover have "b_loc (busif_victim_iter i t1) = B_victim" by (simp add: busif_victim_iter_def)
    moreover have "busif_base X A g0 (busif_victim_iter i t1)" "idle_bus (busif_victim_iter i t1)" "all_read X (busif_victim_iter i t1)"
      using base(2) quiet(1) read(2) by (simp_all add: busif_victim_iter_def t1_def busif_base_def idle_bus_def all_read_def forwards_def)
    moreover have "\<not> b_tag_wr (busif_victim_iter i t1)" "\<not> b_req_tagw (busif_victim_iter i t1)" "\<not> b_tag_rd (busif_victim_iter i t1)"
      "\<not> b_write_victim (busif_victim_iter i t1)" "b_tag_reg (busif_victim_iter i t1) = tag_seen A (l_tag g0)"
      using quiet read tag by (simp_all add: busif_victim_iter_def t1_def)
    ultimately show ?thesis unfolding v busif_inv_def using old True by simp
  next
    case False
    then have v: "busif_victim i s t = busif_new_line i s t" by (simp add: busif_victim_def d)
    have "captured X g0 t" using False read(1) by (simp add: captured_def)
    then show ?thesis unfolding v by (rule busif_new_line_inv [OF base tag old quiet(1-5) _ read(2)])
  qed
qed

lemma inv_B_tag_have:
  assumes "busif_inv X A g0 s g" "busif_obeys i s g" "b_loc s = B_tag_have"
  shows "busif_inv X A g0 (busif_wake i s) (line_step i s g)"
proof -
  note I = assms(1) [unfolded busif_inv_def assms(3) busif_loc.case]
  have O: "\<not> b_gnt_tagw i" "\<forall>n < 4. \<not> b_gnt_bank i n" using I assms(2) unfolding busif_obeys_def nobank_def by blast+
  have old: "old_line g0 (line_step i s g)" using I unfolding old_line_def nobank_def idle_bus_def by (simp add: line_step_def)
  have X: "b_op_reg s = X" "b_adrBase s = A AND NOT 15" "b_adrOfs s = of_nat (4 * ofs_of A 0)" using I unfolding busif_base_def by blast+
  show ?thesis
  proof (cases "X = bioReplace")
    case True
    have "b_adrBase s OR b_adrOfs s = line_adr A (ofs_of A 0)" unfolding X by (rule line_base_or) simp
    then show ?thesis using I X old True assms(3)
      by (simp add: busif_wake_def busif_fill_def busif_inv_def busif_base_def forwards_def nobank_def idle_bus_def)
  next
    case False
    have "busif_inv X A g0 (busif_victim i s s) (line_step i s g)"
      by (rule busif_victim_inv) (use I old O False in \<open>simp_all add: all_read_def\<close>)
    then show ?thesis using False X(1) assms(3) by (simp add: busif_wake_def)
  qed
qed

lemma inv_B_fill:
  assumes "busif_inv X A g0 s g" "busif_obeys i s g" "b_loc s = B_fill n"
  shows "busif_inv X A g0 (busif_wake i s) (line_step i s g)"
proof -
  note I = assms(1) [unfolded busif_inv_def assms(3) busif_loc.case]
  have O: "\<not> b_gnt_tagw i" "\<forall>n < 4. \<not> b_gnt_bank i n" using I assms(2) unfolding busif_obeys_def nobank_def by blast+
  have old: "old_line g0 (line_step i s g)" using I unfolding old_line_def nobank_def by (simp add: line_step_def)
  show ?thesis
  proof (cases "b_wb_ack i")
    case False
    then have w: "busif_wake i s = s" using assms(3) by (simp add: busif_wake_def)
    show ?thesis unfolding w busif_inv_def assms(3) busif_loc.case using I old by blast
  next
    case True
    have n: "n < 4" and X: "X = bioReplace" and base: "busif_base X A g0 s" and b: "b_adrBase s = A AND NOT 15"
      and ofs: "b_adrOfs s = of_nat (4 * ofs_of A n)" and valid: "\<forall>j < n. b_idata_valid s (ofs_of A j)"
      and fwd: "forwards A g0 s"
      using I unfolding busif_base_def by blast+
    have k: "unat (drop_bit 2 (b_adrOfs s)) = ofs_of A n" unfolding ofs by (rule word_of_ofs) simp
    have adr: "b_adrBase s OR b_adrOfs s = line_adr A (ofs_of A n)" unfolding b ofs by (rule line_base_or) simp
    have nxt: "(b_adrOfs s + 4) AND 15 = of_nat (4 * ofs_of A (Suc n))" unfolding ofs by (rule ofs_step)
    have dat: "b_wb_dat i = l_mem g0 (line_adr A (ofs_of A n))"
      using True I assms(2) unfolding busif_obeys_def old_line_def by metis
    define t where "t = s\<lparr>b_idata_reg := (b_idata_reg s)(ofs_of A n := b_wb_dat i),
        b_idata_valid := (b_idata_valid s)(ofs_of A n := True), b_adr_reg := line_adr A (ofs_of A n), b_wb_stb := False,
        b_adrOfs := of_nat (4 * ofs_of A (Suc n))\<rparr>"
    have wake: "busif_wake i s = (if Suc n < 4 then busif_fill (Suc n) t else busif_victim i s (t\<lparr>b_wb_cyc := False\<rparr>))"
      using assms(3) True by (simp add: busif_wake_def t_def k adr nxt Let_def)
    have fwd': "forwards A g0 t" using fwd dat by (simp add: forwards_def t_def)
    have base': "busif_base X A g0 t" using base fwd' by (simp add: busif_base_def t_def)
    have valid': "\<forall>j < Suc n. b_idata_valid t (ofs_of A j)" using valid by (simp add: t_def less_Suc_eq)
    show ?thesis
    proof (cases "Suc n < 4")
      case True
      have "b_adrBase t OR b_adrOfs t = line_adr A (ofs_of A (Suc n))"
        unfolding t_def by (simp add: b) (rule line_base_or [of "ofs_of A (Suc n)" A, simplified])
      then show ?thesis unfolding wake using True I base' valid' old X
        by (simp add: busif_fill_def busif_inv_def busif_base_def forwards_def nobank_def t_def)
    next
      case False
      then have n3: "n = 3" using n by simp
      have "all_read X t"
        unfolding all_read_def
      proof (intro impI allI)
        fix m :: nat assume "m < 4"
        then obtain j where "j < 4" "ofs_of A j = m" using ofs_cover by blast
        then show "b_idata_valid t m" using valid' n3 by auto
      qed
      have "busif_inv X A g0 (busif_victim i s (t\<lparr>b_wb_cyc := False\<rparr>)) (line_step i s g)"
        by (rule busif_victim_inv)
          (use I base' old O \<open>all_read X t\<close> in \<open>simp_all add: busif_base_def forwards_def nobank_def idle_bus_def all_read_def t_def\<close>)
      then show ?thesis unfolding wake using False by simp
    qed
  qed
qed

lemma inv_B_victim:
  assumes "busif_inv X A g0 s g" "busif_obeys i s g" "b_loc s = B_victim"
  shows "busif_inv X A g0 (busif_wake i s) (line_step i s g)"
proof -
  note I = assms(1) [unfolded busif_inv_def assms(3) busif_loc.case]
  have left: "\<forall>n < 4. b_banksLeft s n \<longrightarrow> b_req_bank s n \<and> b_bank_rd s n"
    and taken: "\<forall>n < 4. \<not> b_banksLeft s n \<longrightarrow> b_odata_reg s n = l_word g0 n \<and> \<not> b_req_bank s n
          \<or> b_req_bank s n \<and> b_bank_rd s n \<and> l_bank_rd g n = l_word g0 n \<and> l_gnt_bank g n"
    and old0: "old_line g0 g" using I by blast+
  have O: "\<not> b_gnt_tagw i" "\<forall>n < 4. b_gnt_bank i n \<longrightarrow> b_req_bank s n" "\<forall>n < 4. l_gnt_bank g n \<and> b_req_bank s n \<longrightarrow> b_gnt_bank i n"
    "\<forall>n < 4. b_bank_rd s n \<longrightarrow> b_data_in i n = l_bank_rd g n"
    using I assms(2) unfolding busif_obeys_def by blast+
  have old: "old_line g0 (line_step i s g)" using I unfolding old_line_def idle_bus_def by (simp add: line_step_def)
  define t where "t = s\<lparr>b_odata_reg := banks (\<lambda>n. if b_gnt_bank i n then b_data_in i n else b_odata_reg s n) (b_odata_reg s)\<rparr>"
  have got: "b_odata_reg t n = l_word g0 n" if n: "n < 4" "\<not> b_banksLeft s n" for n
  proof (cases "b_req_bank s n")
    case True
    then have r: "b_bank_rd s n" "l_bank_rd g n = l_word g0 n" "l_gnt_bank g n" using taken n by blast+
    then have "b_gnt_bank i n" using O(3) True n by blast
    then show ?thesis using O(4) r n by (simp add: t_def banks_def)
  next
    case False
    then have "b_odata_reg s n = l_word g0 n" "\<not> b_gnt_bank i n" using taken O(2) n by blast+
    then show ?thesis using n by (simp add: t_def banks_def)
  qed
  show ?thesis
  proof (cases "list_ex (b_banksLeft s) [0..<4]")
    case True
    then have wake: "busif_wake i s = busif_victim_iter i t" using assms(3) by (simp add: busif_wake_def t_def Let_def)
    have l: "b_banksLeft (busif_victim_iter i t) n = (b_banksLeft s n \<and> \<not> b_gnt_bank i n)"
      "b_req_bank (busif_victim_iter i t) n = b_banksLeft s n" "b_bank_rd (busif_victim_iter i t) n = b_banksLeft s n"
      "b_odata_reg (busif_victim_iter i t) n = b_odata_reg t n" if "n < 4" for n
      using that by (simp_all add: busif_victim_iter_def t_def banks_def)
    have a: "\<forall>n < 4. b_banksLeft (busif_victim_iter i t) n \<longrightarrow> b_req_bank (busif_victim_iter i t) n \<and> b_bank_rd (busif_victim_iter i t) n"
      using l by simp
    have b: "b_odata_reg (busif_victim_iter i t) n = l_word g0 n \<and> \<not> b_req_bank (busif_victim_iter i t) n
          \<or> b_req_bank (busif_victim_iter i t) n \<and> b_bank_rd (busif_victim_iter i t) n
            \<and> l_bank_rd (line_step i s g) n = l_word g0 n \<and> l_gnt_bank (line_step i s g) n"
      if n: "n < 4" "\<not> b_banksLeft (busif_victim_iter i t) n" for n
    proof (cases "b_banksLeft s n")
      case True
      then have "b_gnt_bank i n" "b_bank_rd s n" using n l left by auto
      then show ?thesis using True n l old0 by (simp add: line_step_def old_line_def)
    next
      case False
      then show ?thesis using got n l by simp
    qed
    have f: "b_loc (busif_victim_iter i t) = B_victim" "busif_base X A g0 (busif_victim_iter i t)"
      "idle_bus (busif_victim_iter i t)" "all_read X (busif_victim_iter i t)" "\<not> b_tag_wr (busif_victim_iter i t)"
      "\<not> b_req_tagw (busif_victim_iter i t)" "\<not> b_tag_rd (busif_victim_iter i t)" "\<not> b_write_victim (busif_victim_iter i t)"
      "b_tag_reg (busif_victim_iter i t) = tag_seen A (l_tag g0)" "\<forall>n < 4. \<not> b_bank_wr (busif_victim_iter i t) n"
      using I by (simp_all add: busif_victim_iter_def t_def busif_base_def idle_bus_def all_read_def forwards_def)
    have v: "writes_victim X g0" using I by blast
    show ?thesis unfolding wake busif_inv_def f(1) busif_loc.case using f old v a b by blast
  next
    case False
    define t' where "t' = t\<lparr>b_req_bank := banks (\<lambda>_. False) (b_req_bank t), b_bank_rd := banks (\<lambda>_. False) (b_bank_rd t), b_write_victim := True\<rparr>"
    have wake: "busif_wake i s = busif_new_line i s t'" using assms(3) False by (simp add: busif_wake_def t_def t'_def Let_def)
    have "\<forall>n < 4. \<not> b_banksLeft s n" using False by (auto simp: list_ex_iff)
    then have c: "captured X g0 t'" using got I by (simp add: captured_def t'_def)
    show ?thesis unfolding wake
      by (rule busif_new_line_inv)
        (use I old O(1) c in \<open>simp_all add: t'_def t_def busif_base_def forwards_def idle_bus_def nobank_def all_read_def banks_def\<close>)
  qed
qed

lemma busif_inv_step:
  assumes "busif_inv X A g0 s g" "busif_obeys i s g" "b_loc s \<noteq> B_done"
  shows "busif_inv X A g0 (busif_wake i s) (line_step i s g)"
proof (cases "b_loc s")
  case B_tagr with assms show ?thesis by (intro inv_B_tagr) next
  case B_tag_read with assms show ?thesis by (intro inv_B_tag_read) next
  case B_tag_have with assms show ?thesis by (intro inv_B_tag_have) next
  case (B_fill n) with assms show ?thesis by (intro inv_B_fill) next
  case B_victim with assms show ?thesis by (intro inv_B_victim) next
  case B_inv_req with assms show ?thesis by (intro inv_B_inv_req) next
  case B_inv_1 with assms show ?thesis by (intro inv_B_inv_1) next
  case B_inv_2 with assms show ?thesis by (intro inv_B_inv_2) next
  case B_bank_write with assms show ?thesis by (intro inv_B_bank_write) next
  case B_tag_req with assms show ?thesis by (intro inv_B_tag_req) next
  case B_tag_1 with assms show ?thesis by (intro inv_B_tag_1) next
  case B_tag_2 with assms show ?thesis by (intro inv_B_tag_2) next
  case B_wb_start with assms show ?thesis by (intro inv_B_wb_start) next
  case (B_wb n) with assms show ?thesis by (intro inv_B_wb)
qed (use assms in \<open>simp_all add: busif_inv_def\<close>)

section \<open>Runs\<close>

text \<open>The thread has the line (by its own lock or that of the write port) and begins to read the tag.\<close>

definition busif_locked :: "3 word \<Rightarrow> u32 \<Rightarrow> busif \<Rightarrow> bool" where
  "busif_locked X A s \<longleftrightarrow> b_loc s = B_tagr \<and> X \<in> {1, 2, 3, 7} \<and> b_op_reg s = X \<and> b_busy s \<and> b_wb_sel s = 0xf \<and> b_adr_reg s = A
     \<and> b_adrBase s = A AND NOT 15 \<and> b_adrOfs s = (A AND NOT 3) - (A AND NOT 15) \<and> idle_bus s \<and> nobank s \<and> \<not> b_tag_wr s
     \<and> \<not> b_req_tagw s \<and> b_tag_rd s \<and> b_req_tagr s \<and> no_word s \<and> \<not> b_write_victim s"

lemma busif_locked_inv: "busif_locked X A s \<Longrightarrow> busif_inv X A g s g"
  unfolding busif_locked_def line_ofs ofs_of_0 [symmetric] busif_inv_def
  by (simp add: busif_base_def forwards_def no_word_def old_line_def)

text \<open>The thread waits for an operation.\<close>

definition busif_ready :: "busif \<Rightarrow> bool" where
  "busif_ready s \<longleftrightarrow> b_loc s = B_idle \<and> b_op_reg s = bioNothing \<and> \<not> b_busy s \<and> b_wb_sel s = 0xf \<and> idle_bus s \<and> nobank s \<and> no_word s
     \<and> \<not> b_tag_wr s \<and> \<not> b_tag_rd s \<and> \<not> b_req_tagw s \<and> \<not> b_req_tagr s \<and> \<not> b_req_linelock s"

text \<open>An accepted operation takes two clocks and the wait for the line lock until the line is locked.\<close>

definition busif_lock_wait :: "3 word \<Rightarrow> u32 \<Rightarrow> busif \<Rightarrow> bool" where
  "busif_lock_wait X A s \<longleftrightarrow> b_loc s = B_linelock \<and> b_req_linelock s \<and> \<not> b_req_tagr s
     \<and> busif_locked X A (s\<lparr>b_loc := B_tagr, b_tag_rd := True, b_req_tagr := True\<rparr>)"

lemma busif_accept:
  assumes "busif_ready s" "b_op i1 \<in> {1, 2, 3, 7}" "\<not> b_gnt_tagr i2" "\<not> b_gnt_linelock i2"
  defines "s2 \<equiv> busif_wake i2 (busif_wake i1 s)"
  shows "if b_nolinelock i1 then busif_locked (b_op i1) (b_adr_in i1) s2 else busif_lock_wait (b_op i1) (b_adr_in i1) s2"
proof -
  have X: "b_op i1 \<noteq> 0" "b_op i1 \<noteq> 5" "b_op i1 \<noteq> 6" using assms(2) by auto
  show ?thesis
    using assms(1-4) X unfolding s2_def busif_ready_def busif_locked_def busif_lock_wait_def idle_bus_def nobank_def no_word_def
    by (simp add: busif_wake_def busif_idle_def AcceptNewOp_def busif_operate_def busif_cache_op_def busif_tag_request_def Let_def)
qed

lemma busif_get_lock:
  assumes "busif_lock_wait X A s" "\<not> b_gnt_tagr i"
  shows "if b_gnt_linelock i then busif_locked X A (busif_wake i s) else busif_wake i s = s"
  using assms unfolding busif_lock_wait_def busif_locked_def idle_bus_def nobank_def no_word_def
  by (simp add: busif_wake_def busif_tag_request_def Let_def)

text \<open>After the operation the thread is ready again, or has accepted the next one.\<close>

lemma busif_done_ready:
  assumes "busif_inv X A g0 s g" "b_loc s = B_done" "b_op i = bioNothing" "\<not> b_req_tagr s" "\<not> b_req_tagw s"
  shows "busif_ready (busif_wake i s)"
  using assms unfolding busif_ready_def busif_inv_def
  by (simp add: busif_wake_def busif_top_def busif_idle_def AcceptNewOp_def idle_bus_def nobank_def no_word_def banks_def)

lemma busif_run_inv:
  "\<lbrakk>busif_inv X A g0 s g; busif_env is (s, g); \<forall>k < length is. b_loc (fst (busif_run (take k is) (s, g))) \<noteq> B_done\<rbrakk>
    \<Longrightarrow> busif_inv X A g0 (fst (busif_run is (s, g))) (snd (busif_run is (s, g)))"
proof (induction "is" arbitrary: s g)
  case Nil
  then show ?case by (simp add: busif_run_def)
next
  case (Cons i js)
  have "b_loc s \<noteq> B_done" using Cons.prems(3) [rule_format, of 0] by (simp add: busif_run_def)
  then have "busif_inv X A g0 (busif_wake i s) (line_step i s g)" using busif_inv_step Cons.prems(1,2) by simp
  moreover have "busif_env js (busif_wake i s, line_step i s g)" using Cons.prems(2) by (simp add: busif_clock_def)
  moreover have "\<forall>k < length js. b_loc (fst (busif_run (take k js) (busif_wake i s, line_step i s g))) \<noteq> B_done"
    using Cons.prems(3) [rule_format, of "Suc _"] by (simp add: busif_run_def busif_clock_def)
  ultimately show ?case using Cons.IH by (simp add: busif_run_def busif_clock_def)
qed

section \<open>Progress\<close>

text \<open>A clock in which the thread waits for the arbiter or the memory.\<close>

definition busif_stalls :: "busif_in \<Rightarrow> busif \<Rightarrow> bool" where
  "busif_stalls i s \<longleftrightarrow>
     (case b_loc s of
        B_tagr \<Rightarrow> \<not> b_gnt_tagr i
      | B_fill n \<Rightarrow> \<not> b_wb_ack i
      | B_wb n \<Rightarrow> \<not> b_wb_ack i
      | B_inv_req \<Rightarrow> \<not> b_gnt_tagw i
      | B_tag_req \<Rightarrow> \<not> b_gnt_tagw i
      | B_victim \<Rightarrow> list_ex (b_banksLeft s) [0..<4] \<and> \<not> list_ex (\<lambda>n. b_banksLeft s n \<and> b_gnt_bank i n) [0..<4]
      | B_bank_write \<Rightarrow> list_ex (b_banksLeft s) [0..<4] \<and> \<not> list_ex (\<lambda>n. b_banksLeft s n \<and> b_gnt_bank i n) [0..<4]
      | _ \<Rightarrow> False)"

definition banks_left :: "busif \<Rightarrow> nat" where
  "banks_left s = length (filter (b_banksLeft s) [0..<4])"

text \<open>How many clocks are left, waits not counted.\<close>

definition busif_rank :: "busif \<Rightarrow> nat" where
  "busif_rank s =
     (case b_loc s of
        B_tagr \<Rightarrow> 30 | B_tag_read \<Rightarrow> 29 | B_tag_have \<Rightarrow> 28 | B_fill n \<Rightarrow> 27 - n | B_victim \<Rightarrow> 19 + banks_left s
      | B_inv_req \<Rightarrow> 18 | B_inv_1 \<Rightarrow> 17 | B_inv_2 \<Rightarrow> 16 | B_bank_write \<Rightarrow> 11 + banks_left s
      | B_tag_req \<Rightarrow> 10 | B_tag_1 \<Rightarrow> 9 | B_tag_2 \<Rightarrow> 8 | B_wb_start \<Rightarrow> 7 | B_wb n \<Rightarrow> 6 - n | _ \<Rightarrow> 0)"

lemma banks_left_le: "banks_left s \<le> 4"
  unfolding banks_left_def using length_filter_le [of _ "[0..<4 :: nat]"] by simp

lemma filter_shrinks:
  "(\<forall>x \<in> set xs. Q x \<longrightarrow> P x) \<Longrightarrow> x \<in> set xs \<Longrightarrow> P x \<Longrightarrow> \<not> Q x \<Longrightarrow> length (filter Q xs) < length (filter P xs)"
proof (induction xs)
  case (Cons y ys)
  have le: "length (filter Q ys) \<le> length (filter P ys)" using Cons.prems(1) by (induction ys) auto
  show ?case
  proof (cases "x = y")
    case True with le Cons.prems show ?thesis by auto
  next
    case False
    then have "length (filter Q ys) < length (filter P ys)" using Cons by auto
    with Cons.prems(1) show ?thesis by auto
  qed
qed simp

fun busif_moves :: "busif_in list \<Rightarrow> busif_sys \<Rightarrow> nat" where
  "busif_moves [] st = 0"
| "busif_moves (i # is) st = (if busif_stalls i (fst st) then 0 else 1) + busif_moves is (busif_clock i st)"

lemma banks_left_banks: "banks_left (s\<lparr>b_banksLeft := banks f (b_banksLeft s)\<rparr>) = length (filter f [0..<4])"
  unfolding banks_left_def by (rule arg_cong [where f = length], rule filter_cong) (simp_all add: banks_def)

lemma banks_left_shrinks:
  assumes "list_ex (\<lambda>n. b_banksLeft s n \<and> G n) [0..<4]"
  shows "length (filter (\<lambda>n. b_banksLeft s n \<and> \<not> G n) [0..<4]) < banks_left s"
proof -
  obtain n where "n \<in> set [0..<4]" "b_banksLeft s n" "G n" using assms unfolding list_ex_iff by blast
  then show ?thesis unfolding banks_left_def by (intro filter_shrinks [where x = n]) simp_all
qed

lemma banks_left_falls: "length (filter (\<lambda>n. b_banksLeft s n \<and> G n) [0..<4]) \<le> banks_left s"
  unfolding banks_left_def by (simp add: upt_rec)

lemma rank_new_tag: "busif_rank (busif_new_tag i s t) \<le> 10"
  by (simp add: busif_new_tag_def busif_tag_go_def busif_rank_def Let_def)

lemma rank_new_line: "busif_rank (busif_new_line i s t) \<le> 18"
  using rank_new_tag [of i s t] by (simp add: busif_new_line_def busif_inv_go_def busif_rank_def)

lemma rank_victim_iter:
  "busif_rank (busif_victim_iter i t) = 19 + length (filter (\<lambda>n. b_banksLeft t n \<and> \<not> b_gnt_bank i n) [0..<4])"
  unfolding busif_rank_def busif_victim_iter_def
  by (simp add: banks_left_def) (rule arg_cong [where f = length], rule filter_cong, simp_all add: banks_def)

lemma rank_victim: "busif_rank (busif_victim i s t) \<le> 23"
  using rank_new_line [of i s t] length_filter_le [of "\<lambda>n. banks (\<lambda>_. True) (b_banksLeft t) n \<and> \<not> b_gnt_bank i n" "[0..<4]"]
  by (simp add: busif_victim_def rank_victim_iter)

lemma rank_bank_iter: "busif_rank (busif_bank_iter t) = 11 + banks_left t"
  by (simp add: busif_rank_def busif_bank_iter_def banks_left_def)

lemma rank_step_victim:
  assumes "b_loc s = B_victim"
  shows "busif_rank (busif_wake i s) + (if busif_stalls i s then 0 else 1) \<le> busif_rank s"
proof (cases "list_ex (b_banksLeft s) [0..<4]")
  case True
  then have "busif_rank (busif_wake i s) = 19 + length (filter (\<lambda>n. b_banksLeft s n \<and> \<not> b_gnt_bank i n) [0..<4])"
    using assms by (simp add: busif_wake_def rank_victim_iter Let_def)
  then show ?thesis
    using True assms banks_left_falls [of s "\<lambda>n. \<not> b_gnt_bank i n"] banks_left_shrinks [of s "b_gnt_bank i"]
    by (auto simp: busif_stalls_def busif_rank_def)
next
  case False
  let ?t = "s\<lparr>b_odata_reg := banks (\<lambda>n. if b_gnt_bank i n then b_data_in i n else b_odata_reg s n) (b_odata_reg s)\<rparr>"
  show ?thesis using False assms rank_new_line [of i s "?t\<lparr>b_req_bank := banks (\<lambda>_. False) (b_req_bank ?t),
      b_bank_rd := banks (\<lambda>_. False) (b_bank_rd ?t), b_write_victim := True\<rparr>"]
    by (simp add: busif_wake_def busif_rank_def Let_def)
qed

lemma rank_step_bank_write:
  assumes "b_loc s = B_bank_write"
  shows "busif_rank (busif_wake i s) + (if busif_stalls i s then 0 else 1) \<le> busif_rank s"
proof -
  let ?t = "s\<lparr>b_banksLeft := banks (\<lambda>n. b_banksLeft s n \<and> \<not> b_gnt_bank i n) (b_banksLeft s)\<rparr>"
  have w: "busif_wake i s = (if list_ex (b_banksLeft ?t) [0..<4] then busif_bank_iter ?t else busif_new_tag i s (busif_banks_done ?t))"
    using assms by (simp add: busif_wake_def Let_def)
  have r: "busif_rank s = 11 + banks_left s" using assms by (simp add: busif_rank_def)
  show ?thesis
  proof (cases "list_ex (b_banksLeft ?t) [0..<4]")
    case True
    have "busif_rank (busif_wake i s) = 11 + length (filter (\<lambda>n. b_banksLeft s n \<and> \<not> b_gnt_bank i n) [0..<4])"
      unfolding w using True by (simp only: if_True rank_bank_iter banks_left_banks)
    moreover have "list_ex (b_banksLeft s) [0..<4]" using True unfolding list_ex_iff by (auto simp: banks_def)
    ultimately show ?thesis
      using assms r banks_left_falls [of s "\<lambda>n. \<not> b_gnt_bank i n"] banks_left_shrinks [of s "b_gnt_bank i"]
      by (auto simp: busif_stalls_def)
  next
    case False
    have "busif_rank (busif_wake i s) \<le> 10" unfolding w using False rank_new_tag [of i s "busif_banks_done ?t"] by (simp only: if_False)
    then show ?thesis using r by simp
  qed
qed

lemma busif_rank_step:
  assumes "busif_inv X A g0 s g" "b_loc s \<noteq> B_done"
  shows "busif_rank (busif_wake i s) + (if busif_stalls i s then 0 else 1) \<le> busif_rank s"
proof (cases "b_loc s")
  case B_tagr with assms show ?thesis by (simp add: busif_wake_def busif_rank_def busif_stalls_def) next
  case B_tag_read with assms show ?thesis by (simp add: busif_wake_def busif_rank_def busif_stalls_def) next
  case B_tag_have
  then have r: "busif_rank s = 28" "busif_rank (busif_fill 0 (s\<lparr>b_wb_cyc := True\<rparr>)) = 27"
    by (simp_all add: busif_rank_def busif_fill_def)
  have "busif_wake i s = (if b_op_reg s = bioReplace then busif_fill 0 (s\<lparr>b_wb_cyc := True\<rparr>) else busif_victim i s s)"
    using B_tag_have by (simp add: busif_wake_def)
  then show ?thesis using r rank_victim [of i s s] by simp
next
  case (B_fill n)
  then have n: "n < 4" using assms(1) by (simp add: busif_inv_def)
  define t where "t = s\<lparr>b_idata_reg := (b_idata_reg s)(unat (drop_bit 2 (b_adrOfs s)) := b_wb_dat i),
    b_idata_valid := (b_idata_valid s)(unat (drop_bit 2 (b_adrOfs s)) := True),
    b_adr_reg := b_adrBase s OR b_adrOfs s, b_wb_stb := False, b_adrOfs := (b_adrOfs s + 4) AND 15\<rparr>"
  have "busif_wake i s = (if \<not> b_wb_ack i then s else if Suc n < 4 then busif_fill (Suc n) t else busif_victim i s (t\<lparr>b_wb_cyc := False\<rparr>))"
    using B_fill by (simp add: busif_wake_def t_def Let_def)
  moreover have "busif_rank (busif_fill (Suc n) t) = 26 - n" by (simp add: busif_rank_def busif_fill_def)
  ultimately show ?thesis
    using n B_fill rank_victim [of i s "t\<lparr>b_wb_cyc := False\<rparr>"] by (auto simp: busif_rank_def busif_stalls_def)
next
  case B_victim then show ?thesis by (rule rank_step_victim) next
  case B_inv_req then show ?thesis by (simp add: busif_wake_def busif_rank_def busif_stalls_def busif_inv_go_def) next
  case B_inv_1 then show ?thesis by (simp add: busif_wake_def busif_rank_def busif_stalls_def) next
  case B_inv_2
  then show ?thesis
    using banks_left_le [of "s\<lparr>b_tag_wr := False, b_req_tagw := False, b_banksLeft := banks (\<lambda>_. True) (b_banksLeft s)\<rparr>"]
    by (simp add: busif_wake_def rank_bank_iter) (simp add: busif_rank_def)
next
  case B_bank_write then show ?thesis by (rule rank_step_bank_write) next
  case B_tag_req then show ?thesis by (simp add: busif_wake_def busif_rank_def busif_stalls_def busif_tag_go_def) next
  case B_tag_1 then show ?thesis by (simp add: busif_wake_def busif_rank_def busif_stalls_def) next
  case B_tag_2 then show ?thesis by (simp add: busif_wake_def busif_rank_def busif_stalls_def busif_complete_def Let_def) next
  case B_wb_start then show ?thesis by (simp add: busif_wake_def busif_rank_def busif_stalls_def busif_wb_def) next
  case (B_wb n)
  then have "n < 4" using assms(1) by (simp add: busif_inv_def)
  with B_wb show ?thesis
    by (auto simp: busif_wake_def busif_rank_def busif_stalls_def busif_wb_def busif_complete_def Let_def)
qed (use assms in \<open>simp_all add: busif_inv_def\<close>)

lemma busif_moves_bound:
  "\<lbrakk>busif_inv X A g0 s g; busif_env is (s, g); \<forall>k \<le> length is. b_loc (fst (busif_run (take k is) (s, g))) \<noteq> B_done\<rbrakk>
    \<Longrightarrow> busif_moves is (s, g) \<le> busif_rank s"
proof (induction "is" arbitrary: s g)
  case (Cons i js)
  have nd: "b_loc s \<noteq> B_done" using Cons.prems(3) [rule_format, of 0] by (simp add: busif_run_def)
  then have "busif_inv X A g0 (busif_wake i s) (line_step i s g)" using busif_inv_step Cons.prems(1,2) by simp
  moreover have "busif_env js (busif_wake i s, line_step i s g)" using Cons.prems(2) by (simp add: busif_clock_def)
  moreover have "\<forall>k \<le> length js. b_loc (fst (busif_run (take k js) (busif_wake i s, line_step i s g))) \<noteq> B_done"
    using Cons.prems(3) [rule_format, of "Suc _"] by (simp add: busif_run_def busif_clock_def)
  ultimately have "busif_moves js (busif_wake i s, line_step i s g) \<le> busif_rank (busif_wake i s)" by (rule Cons.IH)
  with busif_rank_step [OF Cons.prems(1) nd, of i] show ?case by (simp add: busif_clock_def split: if_splits)
qed simp

section \<open>The memory as a processor sees it\<close>

text \<open>The word at \<open>a\<close>, of the set the line belongs to: from the cache on a hit, else from the memory.\<close>

definition line_view :: "line \<Rightarrow> u32 \<Rightarrow> u32" where
  "line_view g a = (if valid (l_tag g) \<and> tadr (l_tag g) = GetTagOfAdr a then l_word g (GetBankOfAdr a) else l_mem g (a AND NOT 3))"

text \<open>A dirty line is valid, a clean line has the words of the memory.\<close>

definition line_ok :: "u32 \<Rightarrow> line \<Rightarrow> bool" where
  "line_ok A g \<longleftrightarrow> (dirty (l_tag g) \<longrightarrow> valid (l_tag g)) \<and> unat (tadr (l_tag g)) < 2 ^ 19
     \<and> (valid (l_tag g) \<and> \<not> dirty (l_tag g) \<longrightarrow> (\<forall>n < 4. l_word g n = l_mem g (victim_adr A g n)))"

definition line_hit :: "u32 \<Rightarrow> line \<Rightarrow> bool" where
  "line_hit A g \<longleftrightarrow> valid (l_tag g) \<and> tadr (l_tag g) = GetTagOfAdr A"

lemma word_adr: "a AND NOT 3 = ComposeAdress (GetTagOfAdr a) (GetIndexOfAdr a) (GetBankOfAdr a) 0"
  using line_adr_own [of a] by (simp add: line_adr_def)

lemma word_adr_4: "a AND - 4 = ComposeAdress (GetTagOfAdr a) (GetIndexOfAdr a) (GetBankOfAdr a) 0"
  using word_adr [of a] by simp

lemma compose_same:
  assumes "unat t < 2 ^ 19" "unat t' < 2 ^ 19" "unat i < 2 ^ 9" "unat i' < 2 ^ 9" "b < 4" "b' < 4"
  shows "ComposeAdress t i b 0 = ComposeAdress t' i' b' 0 \<longleftrightarrow> t = t' \<and> i = i' \<and> b = b'"
  using split_compose [OF assms(1,3,5)] split_compose [OF assms(2,4,6)] by metis

lemma victim_mem_at:
  assumes "unat (tadr (l_tag g)) < 2 ^ 19" "k \<le> 4" "unat t < 2 ^ 19" "unat i < 2 ^ 9" "b < 4"
  shows "victim_mem A g k (ComposeAdress t i b 0) =
     (if t = tadr (l_tag g) \<and> i = GetIndexOfAdr A \<and> b < k then l_word g b else l_mem g (ComposeAdress t i b 0))"
  using assms(2)
proof (induction k)
  case (Suc k)
  have "ComposeAdress t i b 0 = victim_adr A g k \<longleftrightarrow> t = tadr (l_tag g) \<and> i = GetIndexOfAdr A \<and> b = k"
    unfolding victim_adr_def using assms Suc.prems unat_GetIndexOfAdr by (intro compose_same) simp_all
  with Suc show ?case by (auto simp: victim_mem_Suc)
qed simp

text \<open>The memory after the operation, word by word.\<close>

lemma line_spec_mem:
  assumes "line_spec X A g g'" "unat (tadr (l_tag g)) < 2 ^ 19"
  shows "l_mem g' (a AND NOT 3) =
     (if writes_victim X g \<and> GetTagOfAdr a = tadr (l_tag g) \<and> GetIndexOfAdr a = GetIndexOfAdr A
      then l_word g (GetBankOfAdr a) else l_mem g (a AND NOT 3))"
proof -
  have "victim_mem A g 4 (ComposeAdress (GetTagOfAdr a) (GetIndexOfAdr a) (GetBankOfAdr a) 0) =
     (if GetTagOfAdr a = tadr (l_tag g) \<and> GetIndexOfAdr a = GetIndexOfAdr A \<and> GetBankOfAdr a < 4 then l_word g (GetBankOfAdr a)
      else l_mem g (ComposeAdress (GetTagOfAdr a) (GetIndexOfAdr a) (GetBankOfAdr a) 0))"
    using assms(2) unat_GetTagOfAdr unat_GetIndexOfAdr by (intro victim_mem_at) simp_all
  moreover have "l_mem g' = (if writes_victim X g then victim_mem A g 4 else l_mem g)" using assms(1) by (simp add: line_spec_def)
  ultimately show ?thesis unfolding word_adr by (cases "writes_victim X g") (simp_all only: if_True if_False simp_thms GetBankOfAdr_less)
qed

lemma line_spec_mem_view:
  assumes "line_spec X A g g'" "line_ok A g" "GetIndexOfAdr a = GetIndexOfAdr A" "X \<noteq> bioInvalidate"
  shows "l_mem g' (a AND NOT 3) = line_view g a"
proof -
  note ok = assms(2) [unfolded line_ok_def]
  have m: "l_mem g' (a AND NOT 3) =
      (if dirty (l_tag g) \<and> GetTagOfAdr a = tadr (l_tag g) then l_word g (GetBankOfAdr a) else l_mem g (a AND NOT 3))"
    using line_spec_mem [OF assms(1), of a] ok assms(3,4) by (simp add: writes_victim_def)
  show ?thesis
  proof (cases "valid (l_tag g) \<and> \<not> dirty (l_tag g) \<and> tadr (l_tag g) = GetTagOfAdr a")
    case True
    then have "l_word g (GetBankOfAdr a) = l_mem g (victim_adr A g (GetBankOfAdr a))" using ok by simp
    also have "victim_adr A g (GetBankOfAdr a) = a AND NOT 3" using True assms(3) by (simp add: victim_adr_def word_adr_4)
    finally show ?thesis using True m by (simp add: line_view_def)
  next
    case False
    then show ?thesis using m ok unfolding line_view_def by metis
  qed
qed

lemma line_spec_view:
  assumes "line_spec X A g g'" "line_ok A g" "GetIndexOfAdr a = GetIndexOfAdr A" "X \<in> {1, 3, 7}" "X = 7 \<longrightarrow> \<not> line_hit A g"
  shows "line_view g' a = line_view g a"
proof (cases "valid (l_tag g') \<and> tadr (l_tag g') = GetTagOfAdr a")
  case True
  have t: "valid (l_tag g') = (X = 7 \<or> X = 1 \<and> line_hit A g)" "tadr (l_tag g') = GetTagOfAdr A"
    using assms(1) by (simp_all add: line_spec_def final_tag_def line_hit_def)
  have w: "l_word g' (GetBankOfAdr a) = final_word X A g (GetBankOfAdr a)" using assms(1) by (simp add: line_spec_def)
  have v: "line_view g' a = final_word X A g (GetBankOfAdr a)" using True w by (simp add: line_view_def)
  have a: "GetTagOfAdr A = GetTagOfAdr a" using True t by simp
  show ?thesis
  proof (cases "X = 7")
    case True
    have "line_adr A (GetBankOfAdr a) = a AND NOT 3" using a assms(3) by (simp add: line_adr_def word_adr_4)
    then have "line_view g' a = l_mem g (a AND NOT 3)" unfolding v final_word_def using True by metis
    then show ?thesis using True assms(5) a unfolding line_view_def line_hit_def by metis
  next
    case False
    then have "line_hit A g" using True t by simp
    then show ?thesis using v a False unfolding line_view_def line_hit_def final_word_def by metis
  qed
next
  case False
  then have "line_view g' a = l_mem g' (a AND NOT 3)" unfolding line_view_def by metis
  also have "\<dots> = line_view g a" using line_spec_mem_view [OF assms(1,2,3)] assms(4) by auto
  finally show ?thesis .
qed

lemma line_spec_ok:
  assumes "line_spec X A g g'" "line_ok A g" "X \<in> {1, 3, 7}" "X = 7 \<longrightarrow> \<not> line_hit A g"
  shows "line_ok A g'"
proof -
  have t: "l_tag g' = final_tag X A g" using assms(1) by (simp add: line_spec_def)
  have "l_word g' n = l_mem g' (victim_adr A g' n)" if v: "valid (l_tag g')" and n: "n < 4" for n
  proof -
    have a: "victim_adr A g' n = line_adr A n" using t by (simp add: victim_adr_def line_adr_def final_tag_def)
    have i: "GetIndexOfAdr (line_adr A n) = GetIndexOfAdr A" "GetTagOfAdr (line_adr A n) = GetTagOfAdr A" "GetBankOfAdr (line_adr A n) = n"
      using n by simp_all
    have al: "line_adr A n AND NOT 3 = line_adr A n" unfolding word_adr [of "line_adr A n"] i by (simp add: line_adr_def)
    have "l_word g' n = line_view g' (line_adr A n)" using v t i by (simp add: line_view_def final_tag_def)
    also have "\<dots> = line_view g (line_adr A n)" by (rule line_spec_view [OF assms(1,2) i(1) assms(3,4)])
    also have "\<dots> = l_mem g' (line_adr A n AND NOT 3)" using line_spec_mem_view [OF assms(1,2) i(1)] assms(3) by auto
    finally show ?thesis using a al by simp
  qed
  moreover have "unat (tadr (l_tag g')) < 2 ^ 19" using t unat_GetTagOfAdr by (simp add: final_tag_def)
  ultimately show ?thesis using t by (simp add: line_ok_def final_tag_def)
qed

section \<open>A run\<close>

text \<open>Arbiter and memory answer at once.\<close>

definition prompt :: "3 word \<Rightarrow> u32 \<Rightarrow> busif_sys \<Rightarrow> busif_in" where
  "prompt X A st =
     \<lparr>b_wb_ack = b_wb_cyc (fst st) \<and> b_wb_stb (fst st), b_wb_dat = l_mem (snd st) (b_wb_adr (fst st)), b_op = X, b_nolinelock = True,
      b_bsel = 0xf, b_adr_in = A, b_data_in = l_bank_rd (snd st), b_tag_in = l_tag_rd (snd st), b_gnt_linelock = False,
      b_gnt_tagw = b_req_tagw (fst st), b_gnt_tagr = b_req_tagr (fst st), b_gnt_bank = b_req_bank (fst st)\<rparr>"

fun prompt_inputs :: "nat \<Rightarrow> busif_sys \<Rightarrow> busif_in list" where
  "prompt_inputs 0 st = []"
| "prompt_inputs (Suc n) st = prompt 0 0 st # prompt_inputs n (busif_clock (prompt 0 0 st) st)"

lemma prompt_env: "busif_env (prompt_inputs n st) st"
  by (induction n st rule: prompt_inputs.induct) (auto simp: busif_obeys_def prompt_def)

lemma run_prompt: "busif_run (prompt_inputs n st) st = ((\<lambda>st. busif_clock (prompt 0 0 st) st) ^^ n) st"
  by (induction n st rule: prompt_inputs.induct) (simp_all add: busif_run_def funpow_Suc_right del: funpow.simps)

lemma take_prompt: "take k (prompt_inputs n st) = prompt_inputs (min k n) st"
proof (induction n st arbitrary: k rule: prompt_inputs.induct)
  case (2 n st)
  then show ?case by (cases k) simp_all
qed simp

lemma length_prompt [simp]: "length (prompt_inputs n st) = n"
  by (induction n st rule: prompt_inputs.induct) simp_all

text \<open>A set with a dirty line of another tag; the line at \<open>0x1018\<close> is to replace it.\<close>

definition ex_line :: line where
  "ex_line = \<lparr>l_tag = \<lparr>valid = True, dirty = True, tadr = 5, way = 0\<rparr>, l_word = (\<lambda>n. 0x40 + of_nat n), l_mem = (\<lambda>a. a + 1),
     l_tag_rd = \<lparr>valid = False, dirty = False, tadr = 0, way = 0\<rparr>, l_bank_rd = (\<lambda>_. 0), l_gnt_tagr = False, l_gnt_tagw = False,
     l_gnt_bank = (\<lambda>_. False)\<rparr>"

definition ex_busif :: "3 word \<Rightarrow> busif" where
  "ex_busif X = \<lparr>b_loc = B_tagr, b_wb_cyc = False, b_wb_stb = False, b_wb_we = False, b_wb_sel = 0xf, b_wb_adr = 0, b_wb_dat_o = 0,
     b_busy = True, b_tag_rd = True, b_tag_wr = False, b_bank_rd = (\<lambda>_. False), b_bank_wr = (\<lambda>_. False),
     b_tag_out = \<lparr>valid = False, dirty = False, tadr = 0, way = 0\<rparr>, b_req_linelock = True, b_req_tagw = False, b_req_tagr = True,
     b_req_bank = (\<lambda>_. False), b_op_reg = X, b_nolinelock_reg = False, b_bsel_reg = 0xf, b_adr_reg = 0x1018,
     b_idata_reg = (\<lambda>_. 0), b_odata_reg = (\<lambda>_. 0), b_idata_valid = (\<lambda>_. False),
     b_tag_reg = \<lparr>valid = False, dirty = False, tadr = 0, way = 0\<rparr>, b_banksLeft = (\<lambda>_. False), b_adrBase = 0x1010, b_adrOfs = 8,
     b_write_victim = False\<rparr>"

lemma ex_locked: "X \<in> {1, 2, 3, 7} \<Longrightarrow> busif_locked X 0x1018 (ex_busif X)"
  by (simp add: busif_locked_def ex_busif_def idle_bus_def nobank_def no_word_def)

lemma prompt_moves:
  assumes "busif_inv X A g0 s g" "b_loc s \<noteq> B_done"
  shows "\<not> busif_stalls (prompt 0 0 (s, g)) s"
  using assms by (auto simp: busif_stalls_def prompt_def busif_inv_def list_ex_iff split: busif_loc.splits)

lemma prompt_reaches_done:
  "\<lbrakk>busif_inv X A g0 s g; busif_rank s \<le> n\<rbrakk> \<Longrightarrow> \<exists>k \<le> n. b_loc (fst (busif_run (prompt_inputs k (s, g)) (s, g))) = B_done
     \<and> (\<forall>j < k. b_loc (fst (busif_run (prompt_inputs j (s, g)) (s, g))) \<noteq> B_done)"
proof (induction n arbitrary: s g)
  case 0
  have "b_loc s = B_done"
  proof (rule ccontr)
    assume "b_loc s \<noteq> B_done"
    then show False using busif_rank_step [OF 0(1), of "prompt 0 0 (s, g)"] prompt_moves [OF 0(1)] 0(2) by simp
  qed
  then show ?case by (simp add: busif_run_def)
next
  case (Suc n)
  show ?case
  proof (cases "b_loc s = B_done")
    case True
    then show ?thesis by (intro exI [of _ 0]) (simp add: busif_run_def)
  next
    case False
    let ?i = "prompt 0 0 (s, g)"
    have "busif_obeys ?i s g" using prompt_env [of 1 "(s, g)"] by simp
    then have "busif_inv X A g0 (busif_wake ?i s) (line_step ?i s g)" using busif_inv_step Suc.prems(1) False by blast
    moreover have "busif_rank (busif_wake ?i s) \<le> n"
      using busif_rank_step [OF Suc.prems(1) False, of ?i] prompt_moves [OF Suc.prems(1) False] Suc.prems(2) by simp
    ultimately obtain k where k: "k \<le> n" "b_loc (fst (busif_run (prompt_inputs k (busif_clock ?i (s, g))) (busif_clock ?i (s, g)))) = B_done"
      "\<forall>j < k. b_loc (fst (busif_run (prompt_inputs j (busif_clock ?i (s, g))) (busif_clock ?i (s, g)))) \<noteq> B_done"
      using Suc.IH unfolding busif_clock_def by fastforce
    have r: "busif_run (prompt_inputs (Suc m) (s, g)) (s, g) = busif_run (prompt_inputs m (busif_clock ?i (s, g))) (busif_clock ?i (s, g))" for m
      by (simp add: busif_run_def)
    have "b_loc (fst (busif_run (prompt_inputs j (s, g)) (s, g))) \<noteq> B_done" if "j < Suc k" for j
      using that k(3) False by (cases j) (simp_all add: r busif_run_def)
    then show ?thesis using k r by (intro exI [of _ "Suc k"]) simp
  qed
qed

lemma prompt_runs:
  assumes "busif_locked X A s"
  obtains k where "b_loc (fst (busif_run (prompt_inputs k (s, g)) (s, g))) = B_done"
    and "\<forall>j < length (prompt_inputs k (s, g)). b_loc (fst (busif_run (take j (prompt_inputs k (s, g))) (s, g))) \<noteq> B_done"
proof -
  obtain k where "b_loc (fst (busif_run (prompt_inputs k (s, g)) (s, g))) = B_done"
    "\<forall>j < k. b_loc (fst (busif_run (prompt_inputs j (s, g)) (s, g))) \<noteq> B_done"
    using prompt_reaches_done [OF busif_locked_inv [OF assms] order_refl] by blast
  then show thesis by (intro that [of k]) (simp_all add: take_prompt)
qed

text \<open>C33.  Once it has the line, an operation of the bus interface does what \<open>line_spec\<close> says, whatever waits the arbiter and the
  memory impose: the set has the new tag and the new words, the dirty victim and nothing else is written to the memory; and a
  word it forwards to the read ports during the operation is the word of the memory.\<close>

theorem busif_line_operation:
  assumes "busif_locked X A s" "busif_env is (s, g)" "\<forall>k < length is. b_loc (fst (busif_run (take k is) (s, g))) \<noteq> B_done"
    "busif_run is (s, g) = (s', g')"
  shows "forwards A g s' \<and> (b_loc s' = B_done \<longrightarrow> line_spec X A g g' \<and> \<not> b_busy s' \<and> (\<forall>n < 4. \<not> b_idata_valid s' n))"
proof -
  have I: "busif_inv X A g s' g'" using busif_run_inv [OF busif_locked_inv assms(2,3)] assms(1,4) by simp
  then have "forwards A g s'"
    by (cases "b_loc s'") (simp_all add: busif_inv_def busif_base_def forwards_def no_word_def)
  moreover have "line_spec X A g g' \<and> \<not> b_busy s' \<and> (\<forall>n < 4. \<not> b_idata_valid s' n)" if d: "b_loc s' = B_done"
    using I [unfolded busif_inv_def d busif_loc.case] unfolding no_word_def by blast
  ultimately show ?thesis by blast
qed

theorem busif_line_operation_witness:
  "\<exists>k. case busif_run (prompt_inputs k (ex_busif 7, ex_line)) (ex_busif 7, ex_line) of
     (s', g') \<Rightarrow> b_loc s' = B_done \<and> forwards 0x1018 ex_line s' \<and> line_spec 7 0x1018 ex_line g'"
proof -
  have L: "busif_locked 7 0x1018 (ex_busif 7)" by (rule ex_locked) simp
  obtain k where k: "b_loc (fst (busif_run (prompt_inputs k (ex_busif 7, ex_line)) (ex_busif 7, ex_line))) = B_done"
    and nd: "\<forall>j < length (prompt_inputs k (ex_busif 7, ex_line)).
      b_loc (fst (busif_run (take j (prompt_inputs k (ex_busif 7, ex_line))) (ex_busif 7, ex_line))) \<noteq> B_done"
    by (rule prompt_runs [OF L])
  note T = busif_line_operation [OF L prompt_env nd surjective_pairing]
  show ?thesis using k T by (intro exI [of _ k]) (simp add: case_prod_beta)
qed

text \<open>C36.  The operations end: if the arbiter and the memory let the thread go on 31 times, the operation is done, and
  when they answer at once it is done within 30 clocks.\<close>

theorem busif_terminates:
  assumes "busif_locked X A s"
  shows "(busif_env is (s, g) \<and> 30 < busif_moves is (s, g) \<longrightarrow> (\<exists>k \<le> length is. b_loc (fst (busif_run (take k is) (s, g))) = B_done))
    \<and> (\<exists>k \<le> 30. b_loc (fst (busif_run (prompt_inputs k (s, g)) (s, g))) = B_done)"
proof -
  have I: "busif_inv X A g s g" and r: "busif_rank s = 30"
    using busif_locked_inv [OF assms] assms by (simp_all add: busif_locked_def busif_rank_def)
  have "\<exists>k \<le> 30. b_loc (fst (busif_run (prompt_inputs k (s, g)) (s, g))) = B_done"
    using prompt_reaches_done [OF I, of 30] r by auto
  moreover have "\<exists>k \<le> length is. b_loc (fst (busif_run (take k is) (s, g))) = B_done"
    if "busif_env is (s, g)" "30 < busif_moves is (s, g)"
    using busif_moves_bound [OF I that(1)] that(2) r by fastforce
  ultimately show ?thesis by blast
qed

theorem busif_terminates_witness:
  "\<exists>k \<le> 30. b_loc (fst (busif_run (prompt_inputs k (ex_busif 3, ex_line)) (ex_busif 3, ex_line))) = B_done"
  using busif_terminates [OF ex_locked, of 3 "[]" ex_line] by simp

text \<open>Replacement after a miss, write back and flush keep the memory as the processors see it: every word of the set, in the
  cache or in the memory, is what it was before, no other set is touched, and a clean line agrees with the memory again.\<close>

lemma busif_keeps_memory:
  assumes "busif_locked X A s" "busif_env is (s, g)" "\<forall>k < length is. b_loc (fst (busif_run (take k is) (s, g))) \<noteq> B_done"
    "busif_run is (s, g) = (s', g')" "b_loc s' = B_done" "line_ok A g" "X \<noteq> bioInvalidate" "X = bioReplace \<longrightarrow> \<not> line_hit A g"
  shows "line_ok A g' \<and> (\<forall>a. GetIndexOfAdr a = GetIndexOfAdr A \<longrightarrow> line_view g' a = line_view g a)
    \<and> (\<forall>a. GetIndexOfAdr a \<noteq> GetIndexOfAdr A \<longrightarrow> l_mem g' (a AND NOT 3) = l_mem g (a AND NOT 3))"
proof -
  have "busif_inv X A g s' g'" using busif_run_inv [OF busif_locked_inv assms(2,3)] assms(1,4) by simp
  then have S: "line_spec X A g g'" using assms(5) by (simp add: busif_inv_def)
  have X: "X \<in> {1, 3, 7}" using assms(1,7) by (auto simp: busif_locked_def)
  have u: "unat (tadr (l_tag g)) < 2 ^ 19" using assms(6) by (simp add: line_ok_def)
  have "l_mem g' (a AND NOT 3) = l_mem g (a AND NOT 3)" if "GetIndexOfAdr a \<noteq> GetIndexOfAdr A" for a
    using line_spec_mem [OF S u, of a] that by metis
  then show ?thesis using line_spec_ok [OF S assms(6) X assms(8)] line_spec_view [OF S assms(6) _ X assms(8)] by blast
qed

lemma busif_keeps_memory_witness:
  "\<exists>k. case busif_run (prompt_inputs k (ex_busif 7, ex_line)) (ex_busif 7, ex_line) of
     (s', g') \<Rightarrow> b_loc s' = B_done \<and> line_ok 0x1018 g' \<and> line_view g' 0xB018 = 0x42"
proof -
  have L: "busif_locked 7 0x1018 (ex_busif 7)" by (rule ex_locked) simp
  obtain k where k: "b_loc (fst (busif_run (prompt_inputs k (ex_busif 7, ex_line)) (ex_busif 7, ex_line))) = B_done"
    and nd: "\<forall>j < length (prompt_inputs k (ex_busif 7, ex_line)).
      b_loc (fst (busif_run (take j (prompt_inputs k (ex_busif 7, ex_line))) (ex_busif 7, ex_line))) \<noteq> B_done"
    by (rule prompt_runs [OF L])
  note T = busif_keeps_memory [OF L prompt_env nd surjective_pairing k]
  have "line_ok 0x1018 ex_line" "\<not> line_hit 0x1018 ex_line" by (simp_all add: line_ok_def line_hit_def ex_line_def GetTagOfAdr_def)
  moreover have "GetIndexOfAdr 0xB018 = GetIndexOfAdr 0x1018" "line_view ex_line 0xB018 = 0x42"
    by (simp_all add: line_view_def ex_line_def GetIndexOfAdr_def GetTagOfAdr_def GetBankOfAdr_def)
  ultimately show ?thesis using k T by (intro exI [of _ k]) (simp add: case_prod_beta)
qed

text \<open>C37.  An invalidation of an address that the cache does not hold makes the line that the set does hold invalid without writing
  it back, even when it is dirty: the words last written to it are lost.\<close>

theorem invalidate_loses_other_line:
  assumes "busif_locked bioInvalidate A s" "busif_env is (s, g)" "\<forall>k < length is. b_loc (fst (busif_run (take k is) (s, g))) \<noteq> B_done"
    "busif_run is (s, g) = (s', g')" "b_loc s' = B_done"
    "valid (l_tag g)" "dirty (l_tag g)" "tadr (l_tag g) = GetTagOfAdr B" "GetIndexOfAdr B = GetIndexOfAdr A" "GetTagOfAdr B \<noteq> GetTagOfAdr A"
  shows "line_view g B = l_word g (GetBankOfAdr B) \<and> line_view g' B = l_mem g (B AND NOT 3)"
proof -
  have "busif_inv bioInvalidate A g s' g'" using busif_run_inv [OF busif_locked_inv assms(2,3)] assms(1,4) by simp
  then have S: "line_spec bioInvalidate A g g'" using assms(5) by (simp add: busif_inv_def)
  then have "\<not> valid (l_tag g')" "l_mem g' = l_mem g" by (simp_all add: line_spec_def final_tag_def writes_victim_def)
  then show ?thesis using assms(6,8) by (simp add: line_view_def)
qed

theorem invalidate_loses_other_line_witness:
  "\<exists>k. case busif_run (prompt_inputs k (ex_busif 2, ex_line)) (ex_busif 2, ex_line) of
     (s', g') \<Rightarrow> b_loc s' = B_done \<and> line_view ex_line 0xB01C = 0x43 \<and> line_view g' 0xB01C = 0xB01D"
proof -
  have L: "busif_locked 2 0x1018 (ex_busif 2)" by (rule ex_locked) simp
  obtain k where k: "b_loc (fst (busif_run (prompt_inputs k (ex_busif 2, ex_line)) (ex_busif 2, ex_line))) = B_done"
    and nd: "\<forall>j < length (prompt_inputs k (ex_busif 2, ex_line)).
      b_loc (fst (busif_run (take j (prompt_inputs k (ex_busif 2, ex_line))) (ex_busif 2, ex_line))) \<noteq> B_done"
    by (rule prompt_runs [OF L])
  note T = invalidate_loses_other_line [OF L prompt_env nd surjective_pairing k, where B = "0xB01C"]
  have "GetTagOfAdr 0xB01C = 5" "GetIndexOfAdr 0xB01C = GetIndexOfAdr 0x1018" "GetTagOfAdr 0x1018 = 0" "GetBankOfAdr 0xB01C = 3"
    by (simp_all add: GetTagOfAdr_def GetIndexOfAdr_def GetBankOfAdr_def)
  then show ?thesis using k T by (intro exI [of _ k]) (simp add: case_prod_beta ex_line_def)
qed

end
