(* ===== verification/PnWp.thy ===== *)
theory PnWp
  imports PnRp PnLine
begin

text \<open>
  A write port of the memory unit, module \<open>MWritePort\<close> of \<open>src/sysc/memu.cpp\<close>: the outputs as a function of the inputs and the
  registers, the transition, and the theorems: what a store does to a line, and what store-conditional and cache control
  do not check.  The method is evaluated on settled signals; \<open>bank_data_out\<close> has no default and keeps its last value.
\<close>

section \<open>Signals\<close>

datatype e_writeport_state =
    s_wp_init | s_wp_direct | s_wp_request_linelock_only | s_wp_read_tag | s_wp_have_tag_request_bank | s_wp_read_bank
  | s_wp_write_tag1_and_bank | s_wp_write_tag2_and_bank | s_wp_write_tag1 | s_wp_write_tag2 | s_wp_write_bank
  | s_wp_miss | s_wp_request_busif_only | s_wp_recheck | s_wp_recheck_read_tag | s_wp_replace | s_wp_replace_wait_busif
  | s_wp_special_request_busif_only | s_wp_special | s_wp_special_wait_complete

record wp_in =
  w_reset :: bool
  w_port_wr :: bool
  w_port_direct :: bool
  w_port_bsel :: "4 word"
  w_port_rlink_wcond :: bool
  w_port_writeback :: bool
  w_port_invalidate :: bool
  w_port_adr :: u32
  w_port_data :: u32
  w_busif_busy :: bool
  w_bank_data_in :: u32
  w_tag_in :: SCacheTag
  w_gnt_linelock :: bool
  w_gnt_tagr :: bool
  w_gnt_tagw :: bool
  w_gnt_bank :: "nat \<Rightarrow> bool"
  w_gnt_busif :: bool
  w_snoop_adr :: u32
  w_snoop_stb :: bool

record wp =
  wp_state :: e_writeport_state
  wp_tag_reg :: SCacheTag
  wp_data_reg :: u32
  wp_link_adr_reg :: u32
  wp_link_valid_reg :: bool
  wp_bank_data_out :: u32

record wp_out =
  w_port_ack :: bool
  w_port_wcond_ok :: bool
  w_busif_op :: "3 word"
  w_busif_nolinelock :: bool
  w_tag_rd :: bool
  w_tag_wr :: bool
  w_bank_rd :: bool
  w_bank_wr :: bool
  w_bank_data_out :: u32
  w_tag_out :: SCacheTag
  w_req_linelock :: bool
  w_req_tagr :: bool
  w_req_tagw :: bool
  w_req_bank :: "nat \<Rightarrow> bool"
  w_req_busif :: bool
  w_next_state :: e_writeport_state
  w_next_tag_reg :: SCacheTag
  w_next_data_reg :: u32
  w_next_link_adr_reg :: u32
  w_next_link_valid_reg :: bool
  w_tagr_req_rd :: bool
  w_bank_req_rd :: bool

section \<open>The methods\<close>

definition CombineData :: "4 word \<Rightarrow> u32 \<Rightarrow> u32 \<Rightarrow> u32" where
  "CombineData bsel word0 word1 =
     (if bsel = 0xf then word1
      else fold (\<lambda>n ret. if bit bsel (3 - n) then ret
                          else (ret AND NOT (push_bit (8 * n) 0xff)) OR (word0 AND push_bit (8 * n) 0xff)) [0..<4] word1)"

definition wp_defaults :: "wp_in \<Rightarrow> wp \<Rightarrow> wp_out" where
  "wp_defaults i s =
     \<lparr>w_port_ack = False, w_port_wcond_ok = (wp_link_valid_reg s \<and> wp_link_adr_reg s = w_port_adr i), w_busif_op = bioNothing,
      w_busif_nolinelock = True, w_tag_rd = False, w_tag_wr = False, w_bank_rd = False, w_bank_wr = False,
      w_bank_data_out = wp_bank_data_out s, w_tag_out = wp_tag_reg s, w_req_linelock = False, w_req_tagr = False, w_req_tagw = False,
      w_req_bank = (\<lambda>_. False), w_req_busif = False, w_next_state = wp_state s, w_next_tag_reg = wp_tag_reg s,
      w_next_data_reg = wp_data_reg s, w_next_link_adr_reg = wp_link_adr_reg s,
      w_next_link_valid_reg = (wp_link_valid_reg s \<and> \<not> (w_snoop_stb i \<and> w_snoop_adr i = wp_link_adr_reg s)),
      w_tagr_req_rd = False, w_bank_req_rd = False\<rparr>"

definition wp_init :: "wp_in \<Rightarrow> wp \<Rightarrow> wp_out \<Rightarrow> wp_out" where
  "wp_init i s o0 =
     (if w_port_wr i
      then if w_port_direct i
           then let o1 = o0\<lparr>w_req_busif := True, w_busif_op := bioDirectWrite\<rparr>
                in if w_gnt_busif i \<and> \<not> w_busif_busy i then o1\<lparr>w_next_state := s_wp_direct\<rparr> else o1
           else if w_port_rlink_wcond i \<and> \<not> wp_link_valid_reg s then o0\<lparr>w_port_ack := True\<rparr>
           else let o1 = o0\<lparr>w_req_linelock := True, w_tagr_req_rd := True\<rparr>
                in if w_gnt_tagr i
                   then if w_gnt_linelock i then o1\<lparr>w_next_state := s_wp_read_tag\<rparr> else o1\<lparr>w_next_state := s_wp_request_linelock_only\<rparr>
                   else o1
      else if w_port_writeback i \<or> w_port_invalidate i
      then let o1 = o0\<lparr>w_req_busif := True, w_req_linelock := True\<rparr>;
               o2 = (if w_gnt_linelock i \<and> \<not> w_gnt_busif i then o1\<lparr>w_next_state := s_wp_special_request_busif_only\<rparr> else o1)
           in if w_gnt_busif i \<and> \<not> w_busif_busy i then o2\<lparr>w_next_state := s_wp_special\<rparr> else o2
      else if w_port_rlink_wcond i then o0\<lparr>w_next_link_adr_reg := w_port_adr i, w_next_link_valid_reg := True\<rparr>
      else o0)"

text \<open>Where a hit goes on: words that are not written whole are read first.\<close>

definition wp_write_state :: "SCacheTag \<Rightarrow> e_writeport_state" where
  "wp_write_state tag = (if dirty tag then s_wp_write_bank else s_wp_write_tag1_and_bank)"

definition wp_dirty :: "wp \<Rightarrow> SCacheTag" where
  "wp_dirty s = (wp_tag_reg s)\<lparr>dirty := True\<rparr>"

definition wp_combined :: "wp_in \<Rightarrow> wp \<Rightarrow> u32" where
  "wp_combined i s = CombineData (w_port_bsel i) (wp_data_reg s) (w_port_data i)"

definition wp_switch :: "wp_in \<Rightarrow> wp \<Rightarrow> wp_out \<Rightarrow> wp_out" where
  "wp_switch i s o0 =
     (let gnt = w_gnt_bank i (GetBankOfAdr (w_port_adr i)); tag_in = w_tag_in i
      in case wp_state s of
        s_wp_init \<Rightarrow> wp_init i s o0
      | s_wp_direct \<Rightarrow>
          (let o1 = o0\<lparr>w_req_busif := True, w_busif_op := bioDirectWrite\<rparr>
           in if w_busif_busy i then o1\<lparr>w_port_ack := True, w_next_state := s_wp_init\<rparr> else o1)
      | s_wp_request_linelock_only \<Rightarrow>
          (let o1 = o0\<lparr>w_req_linelock := True\<rparr> in if w_gnt_linelock i then o1\<lparr>w_next_state := s_wp_init\<rparr> else o1)
      | s_wp_read_tag \<Rightarrow>
          (let o1 = o0\<lparr>w_req_linelock := True, w_bank_req_rd := w_port_bsel i < 0xf, w_tag_out := tag_in, w_next_tag_reg := tag_in\<rparr>
           in if \<not> valid tag_in then o1\<lparr>w_next_state := s_wp_miss\<rparr>
              else if w_port_bsel i = 0xf then o1\<lparr>w_next_state := wp_write_state tag_in\<rparr>
              else if gnt then o1\<lparr>w_next_state := s_wp_read_bank\<rparr>
              else o1\<lparr>w_next_state := s_wp_have_tag_request_bank\<rparr>)
      | s_wp_have_tag_request_bank \<Rightarrow>
          (let o1 = o0\<lparr>w_req_linelock := True, w_bank_req_rd := True\<rparr> in if gnt then o1\<lparr>w_next_state := s_wp_read_bank\<rparr> else o1)
      | s_wp_read_bank \<Rightarrow>
          o0\<lparr>w_req_linelock := True, w_bank_req_rd := True, w_next_data_reg := w_bank_data_in i,
             w_next_state := wp_write_state (wp_tag_reg s)\<rparr>
      | s_wp_write_tag1_and_bank \<Rightarrow>
          (let o1 = o0\<lparr>w_req_linelock := True, w_req_tagw := True, w_tag_out := wp_dirty s, w_bank_req_rd := True,
                       w_bank_data_out := wp_combined i s\<rparr>;
               o2 = (if gnt then o1\<lparr>w_bank_wr := True, w_next_state := s_wp_write_tag1\<rparr> else o1);
               o3 = (if w_gnt_tagw i then o2\<lparr>w_tag_wr := True, w_next_state := s_wp_write_tag2_and_bank\<rparr> else o2)
           in if gnt \<and> w_gnt_tagw i then o3\<lparr>w_next_state := s_wp_write_tag2\<rparr> else o3)
      | s_wp_write_tag2_and_bank \<Rightarrow>
          (let o1 = o0\<lparr>w_req_linelock := True, w_req_tagw := True, w_tag_out := wp_dirty s, w_bank_req_rd := True,
                       w_bank_data_out := wp_combined i s\<rparr>
           in if gnt then o1\<lparr>w_port_ack := True, w_req_linelock := False, w_bank_wr := True, w_next_state := s_wp_init\<rparr>
              else o1\<lparr>w_next_state := s_wp_write_bank\<rparr>)
      | s_wp_write_tag1 \<Rightarrow>
          (let o1 = o0\<lparr>w_req_linelock := True, w_req_tagw := True, w_tag_out := wp_dirty s\<rparr>
           in if w_gnt_tagw i then o1\<lparr>w_tag_wr := True, w_next_state := s_wp_write_tag2\<rparr> else o1)
      | s_wp_write_tag2 \<Rightarrow>
          o0\<lparr>w_req_tagw := True, w_tag_out := wp_dirty s, w_tag_wr := True, w_port_ack := True, w_req_linelock := False,
             w_next_state := s_wp_init\<rparr>
      | s_wp_write_bank \<Rightarrow>
          (let o1 = o0\<lparr>w_req_linelock := True, w_bank_req_rd := True, w_bank_wr := True, w_bank_data_out := wp_combined i s\<rparr>
           in if gnt then o1\<lparr>w_port_ack := True, w_req_linelock := False, w_next_state := s_wp_init\<rparr> else o1)
      | s_wp_miss \<Rightarrow>
          (let o1 = o0\<lparr>w_req_busif := True, w_req_linelock := True\<rparr>
           in if w_gnt_busif i \<and> \<not> w_busif_busy i \<and> w_gnt_linelock i then o1\<lparr>w_next_state := s_wp_recheck\<rparr>
              else if \<not> w_gnt_busif i \<and> w_gnt_linelock i then o1\<lparr>w_next_state := s_wp_request_busif_only\<rparr> else o1)
      | s_wp_request_busif_only \<Rightarrow>
          (let o1 = o0\<lparr>w_req_busif := True\<rparr> in if w_gnt_busif i then o1\<lparr>w_next_state := s_wp_miss\<rparr> else o1)
      | s_wp_recheck \<Rightarrow>
          (let o1 = o0\<lparr>w_req_busif := True, w_req_linelock := True, w_tagr_req_rd := True\<rparr>
           in if w_gnt_tagr i then o1\<lparr>w_next_state := s_wp_recheck_read_tag\<rparr> else o1)
      | s_wp_recheck_read_tag \<Rightarrow>
          (let o1 = o0\<lparr>w_req_busif := True, w_req_linelock := True, w_next_tag_reg := tag_in\<rparr>
           in if \<not> valid tag_in then o1\<lparr>w_next_state := s_wp_replace\<rparr>
              else if w_port_bsel i = 0xf then o1\<lparr>w_next_state := wp_write_state tag_in\<rparr>
              else o1\<lparr>w_next_state := s_wp_have_tag_request_bank\<rparr>)
      | s_wp_replace \<Rightarrow>
          (let o1 = o0\<lparr>w_req_busif := True, w_req_linelock := True, w_busif_op := bioReplace\<rparr>
           in if w_busif_busy i then o1\<lparr>w_next_state := s_wp_replace_wait_busif\<rparr> else o1)
      | s_wp_replace_wait_busif \<Rightarrow>
          (let o1 = o0\<lparr>w_req_busif := True, w_req_linelock := True\<rparr>
           in if w_busif_busy i then o1
              else let o2 = o1\<lparr>w_tagr_req_rd := True\<rparr>
                   in if w_gnt_tagr i then o2\<lparr>w_next_state := s_wp_read_tag\<rparr> else o2\<lparr>w_next_state := s_wp_init\<rparr>)
      | s_wp_special_request_busif_only \<Rightarrow>
          (let o1 = o0\<lparr>w_req_busif := True\<rparr> in if w_gnt_busif i then o1\<lparr>w_next_state := s_wp_init\<rparr> else o1)
      | s_wp_special \<Rightarrow>
          (let o1 = o0\<lparr>w_req_busif := True, w_req_linelock := True,
                       w_busif_op := (if w_port_writeback i \<and> w_port_invalidate i then bioFlush
                                      else if w_port_writeback i then bioWriteback else bioInvalidate)\<rparr>
           in if w_busif_busy i then o1\<lparr>w_next_state := s_wp_special_wait_complete\<rparr> else o1)
      | s_wp_special_wait_complete \<Rightarrow>
          (let o1 = o0\<lparr>w_req_busif := True, w_req_linelock := True\<rparr>
           in if w_busif_busy i then o1 else o1\<lparr>w_port_ack := True, w_next_state := s_wp_init\<rparr>))"

definition wp_main :: "wp_in \<Rightarrow> wp \<Rightarrow> wp_out" where
  "wp_main i s =
     (let o1 = (if w_reset i then (wp_defaults i s)\<lparr>w_next_state := s_wp_init, w_next_link_valid_reg := False\<rparr>
                else wp_switch i s (wp_defaults i s))
      in o1\<lparr>w_req_tagr := w_tagr_req_rd o1, w_tag_rd := w_tagr_req_rd o1,
            w_req_bank := (w_req_bank o1)(GetBankOfAdr (w_port_adr i) := w_bank_req_rd o1), w_bank_rd := w_bank_req_rd o1\<rparr>)"

definition wp_transition :: "wp_in \<Rightarrow> wp \<Rightarrow> wp" where
  "wp_transition i s =
     (let out = wp_main i s
      in \<lparr>wp_state = w_next_state out, wp_tag_reg = w_next_tag_reg out, wp_data_reg = w_next_data_reg out,
          wp_link_adr_reg = w_next_link_adr_reg out, wp_link_valid_reg = w_next_link_valid_reg out,
          wp_bank_data_out = w_bank_data_out out\<rparr>)"

section \<open>A store that hits\<close>

lemma bit_255: "bit (255 :: u32) j \<longleftrightarrow> j < 8"
proof -
  have e: "(255 :: u32) = mask 8" by (simp add: mask_eq_exp_minus_1)
  show ?thesis unfolding e bit_mask_iff by auto
qed

lemma bit_combined:
  assumes "k < 32"
  shows "bit (fold (\<lambda>n ret. if bit bsel (3 - n) then ret
       else (ret AND NOT (push_bit (8 * n) 0xff)) OR (word0 AND push_bit (8 * n) 0xff)) [0..<m] (word1 :: u32)) k
     = (if k < 8 * m \<and> \<not> bit bsel (3 - k div 8) then bit word0 k else bit word1 k)"
proof (induction m)
  case (Suc m)
  have lane: "bit (push_bit (8 * m) 255 :: u32) k \<longleftrightarrow> k div 8 = m"
    unfolding bit_push_bit_iff bit_255 using assms by auto
  show ?case
  proof (cases "k div 8 = m")
    case True
    then have "\<not> k < 8 * m" "k < 8 * Suc m" by auto
    then show ?thesis using Suc lane True assms by (simp add: bit_and_iff bit_or_iff bit_not_iff)
  next
    case False
    then have "k < 8 * Suc m \<longleftrightarrow> k < 8 * m" by auto
    then show ?thesis using Suc lane False assms by (simp add: bit_and_iff bit_or_iff bit_not_iff)
  qed
qed simp

lemma CombineData_merge: "CombineData bsel word0 word1 = merge_lanes bsel word1 word0"
proof (rule bit_word_eqI)
  fix k assume "k < LENGTH(32)"
  then have k: "k < 32" by simp
  show "bit (CombineData bsel word0 word1) k = bit (merge_lanes bsel word1 word0) k"
  proof (cases "bsel = 0xf")
    case True
    have "bit (15 :: 4 word) j" if "j < 4" for j using less_4_cases [OF that] by auto
    then show ?thesis using True k by (simp add: CombineData_def bit_merge_lanes)
  next
    case False
    then show ?thesis unfolding CombineData_def using k by (simp only: if_False bit_combined [OF k] bit_merge_lanes [OF k]) simp
  qed
qed

text \<open>What the outputs of the port do to the line, and what the environment keeps to while the port holds it.\<close>

definition wp_line_step :: "wp_in \<Rightarrow> wp \<Rightarrow> line \<Rightarrow> line" where
  "wp_line_step i s g =
     (let out = wp_main i s; b = GetBankOfAdr (w_port_adr i);
          words = (if w_bank_wr out \<and> w_gnt_bank i b then (l_word g)(b := w_bank_data_out out) else l_word g)
      in g\<lparr>l_tag := (if w_tag_wr out \<and> w_gnt_tagw i then w_tag_out out else l_tag g), l_word := words,
           l_bank_rd := (if w_bank_rd out \<and> w_gnt_bank i b then (l_bank_rd g)(b := words b) else l_bank_rd g),
           l_gnt_tagw := w_gnt_tagw i\<rparr>)"

definition wp_obeys :: "u32 \<Rightarrow> 4 word \<Rightarrow> u32 \<Rightarrow> wp_in \<Rightarrow> wp \<Rightarrow> line \<Rightarrow> bool" where
  "wp_obeys A sel D i s g \<longleftrightarrow>
     \<not> w_reset i \<and> w_port_wr i \<and> \<not> w_port_direct i \<and> w_port_adr i = A \<and> w_port_bsel i = sel \<and> w_port_data i = D
     \<and> w_bank_data_in i = l_bank_rd g (GetBankOfAdr A) \<and> (wp_state s = s_wp_read_tag \<longrightarrow> w_tag_in i = tag_seen A (l_tag g))
     \<and> (l_gnt_tagw g \<and> w_req_tagw (wp_main i s) \<longrightarrow> w_gnt_tagw i)"

type_synonym wp_sys = "wp \<times> line"

definition wp_clock :: "wp_in \<Rightarrow> wp_sys \<Rightarrow> wp_sys" where
  "wp_clock i st = (wp_transition i (fst st), wp_line_step i (fst st) (snd st))"

text \<open>Clocks without an acknowledge.\<close>

fun wp_quiet :: "u32 \<Rightarrow> 4 word \<Rightarrow> u32 \<Rightarrow> wp_in list \<Rightarrow> wp_sys \<Rightarrow> bool" where
  "wp_quiet A sel D [] st \<longleftrightarrow> True"
| "wp_quiet A sel D (i # is) st \<longleftrightarrow>
     wp_obeys A sel D i (fst st) (snd st) \<and> \<not> w_port_ack (wp_main i (fst st)) \<and> wp_quiet A sel D is (wp_clock i st)"

text \<open>The line that holds \<open>A\<close>, before and after the store.\<close>

definition wp_hit_line :: "u32 \<Rightarrow> line \<Rightarrow> bool" where
  "wp_hit_line A g \<longleftrightarrow> line_hit A g \<and> way (l_tag g) = 0"

definition stored_tag :: "line \<Rightarrow> SCacheTag" where
  "stored_tag g = (l_tag g)\<lparr>dirty := True\<rparr>"

definition stored_words :: "u32 \<Rightarrow> 4 word \<Rightarrow> u32 \<Rightarrow> line \<Rightarrow> nat \<Rightarrow> u32" where
  "stored_words A sel D g = (let b = GetBankOfAdr A in (l_word g)(b := merge_lanes sel D (l_word g b)))"

definition wp_inv :: "u32 \<Rightarrow> 4 word \<Rightarrow> u32 \<Rightarrow> line \<Rightarrow> wp \<Rightarrow> line \<Rightarrow> bool" where
  "wp_inv A sel D g0 s g \<longleftrightarrow>
     (case wp_state s of
        s_wp_read_tag \<Rightarrow> l_tag g = l_tag g0 \<and> l_word g = l_word g0
      | s_wp_have_tag_request_bank \<Rightarrow> l_tag g = l_tag g0 \<and> l_word g = l_word g0 \<and> wp_tag_reg s = l_tag g0
      | s_wp_read_bank \<Rightarrow> l_tag g = l_tag g0 \<and> l_word g = l_word g0 \<and> wp_tag_reg s = l_tag g0
          \<and> l_bank_rd g (GetBankOfAdr A) = l_word g0 (GetBankOfAdr A)
      | s_wp_write_tag1_and_bank \<Rightarrow> l_tag g = l_tag g0 \<and> l_word g = l_word g0 \<and> wp_tag_reg s = l_tag g0
          \<and> (sel = 0xf \<or> wp_data_reg s = l_word g0 (GetBankOfAdr A))
      | s_wp_write_tag2_and_bank \<Rightarrow> l_tag g = stored_tag g0 \<and> l_word g = l_word g0 \<and> wp_tag_reg s = l_tag g0
          \<and> (sel = 0xf \<or> wp_data_reg s = l_word g0 (GetBankOfAdr A))
      | s_wp_write_tag1 \<Rightarrow> l_tag g = l_tag g0 \<and> l_word g = stored_words A sel D g0 \<and> wp_tag_reg s = l_tag g0
      | s_wp_write_tag2 \<Rightarrow> l_tag g = stored_tag g0 \<and> l_word g = stored_words A sel D g0 \<and> wp_tag_reg s = l_tag g0
      | s_wp_write_bank \<Rightarrow> l_tag g = stored_tag g0 \<and> l_word g = l_word g0
          \<and> (sel = 0xf \<or> wp_data_reg s = l_word g0 (GetBankOfAdr A))
      | _ \<Rightarrow> False)"

lemma merge_known: "sel = 0xf \<or> x = y \<Longrightarrow> merge_lanes sel D x = merge_lanes sel D y"
  by (auto simp: CombineData_merge [symmetric] CombineData_def)

lemma seen_hit: "wp_hit_line A g \<Longrightarrow> tag_seen A (l_tag g) = l_tag g"
  by (simp add: wp_hit_line_def line_hit_def tag_seen_def)

lemma bsel_less: "sel < 0xf \<longleftrightarrow> sel \<noteq> (0xf :: 4 word)"
proof -
  have "(0xf :: 4 word) = - 1" by simp
  then show ?thesis by (simp only: word_order.not_eq_extremum)
qed

lemmas wp_defs = wp_main_def wp_switch_def wp_defaults_def wp_write_state_def wp_dirty_def wp_combined_def wp_transition_def Let_def
lemmas wp_sys_defs = wp_line_step_def wp_obeys_def CombineData_merge stored_words_def stored_tag_def

lemma wp_inv_read_tag:
  assumes "wp_hit_line A g0" "wp_inv A sel D g0 s g" "wp_obeys A sel D i s g" "wp_state s = s_wp_read_tag"
  shows "wp_inv A sel D g0 (wp_transition i s) (wp_line_step i s g) \<and> \<not> w_port_ack (wp_main i s)"
  using assms seen_hit [OF assms(1)] bsel_less [of sel]
  by (cases "dirty (l_tag g0)"; cases "w_gnt_bank i (GetBankOfAdr A)"; cases "sel = 0xf")
    (auto simp: wp_inv_def wp_defs wp_sys_defs wp_hit_line_def line_hit_def)

lemma wp_inv_have_tag:
  assumes "wp_inv A sel D g0 s g" "wp_obeys A sel D i s g" "wp_state s = s_wp_have_tag_request_bank"
  shows "wp_inv A sel D g0 (wp_transition i s) (wp_line_step i s g) \<and> \<not> w_port_ack (wp_main i s)"
  using assms by (cases "w_gnt_bank i (GetBankOfAdr A)") (auto simp: wp_inv_def wp_defs wp_sys_defs)

lemma wp_inv_read_bank:
  assumes "wp_inv A sel D g0 s g" "wp_obeys A sel D i s g" "wp_state s = s_wp_read_bank" "wp_hit_line A g0"
  shows "wp_inv A sel D g0 (wp_transition i s) (wp_line_step i s g) \<and> \<not> w_port_ack (wp_main i s)"
  using assms by (cases "dirty (l_tag g0)") (auto simp: wp_inv_def wp_defs wp_sys_defs)

lemma wp_inv_tag1_and_bank:
  assumes "wp_inv A sel D g0 s g" "wp_obeys A sel D i s g" "wp_state s = s_wp_write_tag1_and_bank"
  shows "wp_inv A sel D g0 (wp_transition i s) (wp_line_step i s g) \<and> \<not> w_port_ack (wp_main i s)"
proof -
  have m: "merge_lanes sel D (wp_data_reg s) = merge_lanes sel D (l_word g0 (GetBankOfAdr A))"
    using assms(1,3) by (intro merge_known) (simp add: wp_inv_def)
  show ?thesis using assms m
    by (cases "w_gnt_bank i (GetBankOfAdr A)"; cases "w_gnt_tagw i") (simp_all add: wp_inv_def wp_defs wp_sys_defs)
qed

lemma wp_inv_write_tag1:
  assumes "wp_inv A sel D g0 s g" "wp_obeys A sel D i s g" "wp_state s = s_wp_write_tag1"
  shows "wp_inv A sel D g0 (wp_transition i s) (wp_line_step i s g) \<and> \<not> w_port_ack (wp_main i s)"
  using assms by (cases "w_gnt_tagw i") (simp_all add: wp_inv_def wp_defs wp_sys_defs)

text \<open>In the other states the store is done by the acknowledge.\<close>

definition wp_stored :: "u32 \<Rightarrow> 4 word \<Rightarrow> u32 \<Rightarrow> line \<Rightarrow> line \<Rightarrow> bool" where
  "wp_stored A sel D g0 g \<longleftrightarrow> l_tag g = stored_tag g0 \<and> l_word g = stored_words A sel D g0"

lemma wp_inv_tag2_and_bank:
  assumes "wp_inv A sel D g0 s g" "wp_obeys A sel D i s g" "wp_state s = s_wp_write_tag2_and_bank"
  shows "if w_port_ack (wp_main i s) then wp_stored A sel D g0 (wp_line_step i s g)
     else wp_inv A sel D g0 (wp_transition i s) (wp_line_step i s g)"
proof -
  have m: "merge_lanes sel D (wp_data_reg s) = merge_lanes sel D (l_word g0 (GetBankOfAdr A))"
    using assms(1,3) by (intro merge_known) (simp add: wp_inv_def)
  show ?thesis using assms m
    by (cases "w_gnt_bank i (GetBankOfAdr A)") (simp_all add: wp_inv_def wp_stored_def wp_defs wp_sys_defs)
qed

lemma wp_inv_write_tag2:
  assumes "wp_inv A sel D g0 s g" "wp_obeys A sel D i s g" "wp_state s = s_wp_write_tag2"
  shows "w_port_ack (wp_main i s) \<and> wp_stored A sel D g0 (wp_line_step i s g)"
  using assms by (simp add: wp_inv_def wp_stored_def wp_defs wp_sys_defs)

lemma wp_inv_write_bank:
  assumes "wp_inv A sel D g0 s g" "wp_obeys A sel D i s g" "wp_state s = s_wp_write_bank"
  shows "if w_port_ack (wp_main i s) then wp_stored A sel D g0 (wp_line_step i s g)
     else wp_inv A sel D g0 (wp_transition i s) (wp_line_step i s g)"
proof -
  have m: "merge_lanes sel D (wp_data_reg s) = merge_lanes sel D (l_word g0 (GetBankOfAdr A))"
    using assms(1,3) by (intro merge_known) (simp add: wp_inv_def)
  show ?thesis using assms m
    by (cases "w_gnt_bank i (GetBankOfAdr A)") (simp_all add: wp_inv_def wp_stored_def wp_defs wp_sys_defs)
qed

lemma wp_inv_step:
  assumes "wp_hit_line A g0" "wp_inv A sel D g0 s g" "wp_obeys A sel D i s g"
  shows "if w_port_ack (wp_main i s) then wp_stored A sel D g0 (wp_line_step i s g)
     else wp_inv A sel D g0 (wp_transition i s) (wp_line_step i s g)"
proof (cases "wp_state s")
  case s_wp_read_tag with wp_inv_read_tag [OF assms] show ?thesis by simp next
  case s_wp_have_tag_request_bank with wp_inv_have_tag [OF assms(2,3)] show ?thesis by simp next
  case s_wp_read_bank with wp_inv_read_bank [OF assms(2,3) _ assms(1)] show ?thesis by simp next
  case s_wp_write_tag1_and_bank with wp_inv_tag1_and_bank [OF assms(2,3)] show ?thesis by simp next
  case s_wp_write_tag2_and_bank with wp_inv_tag2_and_bank [OF assms(2,3)] show ?thesis by simp next
  case s_wp_write_tag1 with wp_inv_write_tag1 [OF assms(2,3)] show ?thesis by simp next
  case s_wp_write_tag2 with wp_inv_write_tag2 [OF assms(2,3)] show ?thesis by simp next
  case s_wp_write_bank with wp_inv_write_bank [OF assms(2,3)] show ?thesis by simp
qed (use assms(2) in \<open>simp_all add: wp_inv_def\<close>)

lemma wp_inv_quiet:
  "\<lbrakk>wp_hit_line A g0; wp_inv A sel D g0 s g; wp_quiet A sel D is (s, g); fold wp_clock is (s, g) = (s', g')\<rbrakk>
    \<Longrightarrow> wp_inv A sel D g0 s' g'"
proof (induction "is" arbitrary: s g)
  case (Cons i js)
  then have "wp_inv A sel D g0 (wp_transition i s) (wp_line_step i s g)" using wp_inv_step [OF Cons.prems(1,2)] by fastforce
  then show ?case using Cons by (simp add: wp_clock_def)
qed simp

text \<open>Clocks in which the port waits for a grant, and how many others are left.\<close>

definition wp_stalls :: "wp_in \<Rightarrow> wp \<Rightarrow> bool" where
  "wp_stalls i s \<longleftrightarrow> w_next_state (wp_main i s) = wp_state s"

definition wp_rank :: "wp \<Rightarrow> nat" where
  "wp_rank s = (case wp_state s of s_wp_read_tag \<Rightarrow> 5 | s_wp_have_tag_request_bank \<Rightarrow> 4 | s_wp_read_bank \<Rightarrow> 3
     | s_wp_write_tag1_and_bank \<Rightarrow> 2 | s_wp_write_tag2_and_bank \<Rightarrow> 1 | s_wp_write_tag1 \<Rightarrow> 1 | _ \<Rightarrow> 0)"

fun wp_moves :: "wp_in list \<Rightarrow> wp_sys \<Rightarrow> nat" where
  "wp_moves [] st = 0"
| "wp_moves (i # is) st = (if wp_stalls i (fst st) then 0 else 1) + wp_moves is (wp_clock i st)"

lemma wp_rank_step:
  assumes "wp_hit_line A g0" "wp_inv A sel D g0 s g" "wp_obeys A sel D i s g" "\<not> w_port_ack (wp_main i s)"
  shows "wp_rank (wp_transition i s) + (if wp_stalls i s then 0 else 1) \<le> wp_rank s"
  using assms seen_hit [OF assms(1)] unfolding wp_rank_def wp_stalls_def
  by (cases "wp_state s"; cases "w_gnt_bank i (GetBankOfAdr A)"; cases "w_gnt_tagw i")
    (auto simp: wp_inv_def wp_obeys_def wp_hit_line_def line_hit_def wp_defs)

lemma wp_moves_bound:
  "\<lbrakk>wp_hit_line A g0; wp_inv A sel D g0 s g; wp_quiet A sel D is (s, g)\<rbrakk> \<Longrightarrow> wp_moves is (s, g) \<le> wp_rank s"
proof (induction "is" arbitrary: s g)
  case (Cons i js)
  then have "wp_inv A sel D g0 (wp_transition i s) (wp_line_step i s g)" using wp_inv_step [OF Cons.prems(1,2)] by fastforce
  then have "wp_moves js (wp_clock i (s, g)) \<le> wp_rank (wp_transition i s)" using Cons by (simp add: wp_clock_def)
  moreover have "wp_rank (wp_transition i s) + (if wp_stalls i s then 0 else 1) \<le> wp_rank s"
    using Cons.prems by (intro wp_rank_step [OF Cons.prems(1,2)]) simp_all
  ultimately show ?case by (simp split: if_splits)
qed simp

text \<open>C35.  A store that finds its line in the cache: however long it waits for banks and tag RAM, the line has either the old or the
  new tag and either the old or the new words, the port waits for grants in all but five clocks, and with the acknowledge the
  selected bytes of the word are written, the other words are as before and the line is dirty.\<close>

theorem write_port_stores:
  assumes "wp_hit_line A g" "wp_state s = s_wp_read_tag" "wp_quiet A sel D is (s, g)" "fold wp_clock is (s, g) = (s', g')"
    "wp_obeys A sel D i s' g'"
  shows "(l_tag g' = l_tag g \<or> l_tag g' = (l_tag g)\<lparr>dirty := True\<rparr>)
    \<and> (\<forall>n. l_word g' n = l_word g n \<or> n = GetBankOfAdr A \<and> l_word g' n = merge_lanes sel D (l_word g n))
    \<and> (w_port_ack (wp_main i s') \<longrightarrow> l_tag (wp_line_step i s' g') = (l_tag g)\<lparr>dirty := True\<rparr>
         \<and> l_word (wp_line_step i s' g') = (l_word g)(GetBankOfAdr A := merge_lanes sel D (l_word g (GetBankOfAdr A))))
    \<and> wp_moves is (s, g) \<le> 5"
proof -
  have I0: "wp_inv A sel D g s g" using assms(2) by (simp add: wp_inv_def)
  have I: "wp_inv A sel D g s' g'" by (rule wp_inv_quiet [OF assms(1) I0 assms(3,4)])
  have "l_tag g' = l_tag g \<or> l_tag g' = stored_tag g" using I by (cases "wp_state s'") (simp_all add: wp_inv_def)
  moreover have "l_word g' = l_word g \<or> l_word g' = stored_words A sel D g" using I by (cases "wp_state s'") (simp_all add: wp_inv_def)
  then have "\<forall>n. l_word g' n = l_word g n \<or> n = GetBankOfAdr A \<and> l_word g' n = merge_lanes sel D (l_word g n)"
    by (auto simp: stored_words_def Let_def split: if_splits)
  moreover have "w_port_ack (wp_main i s') \<longrightarrow> wp_stored A sel D g (wp_line_step i s' g')"
    using wp_inv_step [OF assms(1) I assms(5)] by simp
  moreover have "wp_moves is (s, g) \<le> 5" using wp_moves_bound [OF assms(1) I0 assms(3)] assms(2) by (simp add: wp_rank_def)
  ultimately show ?thesis by (simp add: wp_stored_def stored_tag_def stored_words_def Let_def)
qed

text \<open>A part-word store to a clean line.\<close>

definition ex_wp_line :: line where
  "ex_wp_line = \<lparr>l_tag = \<lparr>valid = True, dirty = False, tadr = 0, way = 0\<rparr>, l_word = (\<lambda>_. 0x11223344), l_mem = (\<lambda>_. 0),
     l_tag_rd = \<lparr>valid = False, dirty = False, tadr = 0, way = 0\<rparr>, l_bank_rd = (\<lambda>_. 0x11223344), l_gnt_tagr = False,
     l_gnt_tagw = False, l_gnt_bank = (\<lambda>_. False)\<rparr>"

definition ex_wp :: "e_writeport_state \<Rightarrow> wp" where
  "ex_wp q = \<lparr>wp_state = q, wp_tag_reg = \<lparr>valid = True, dirty = False, tadr = 0, way = 0\<rparr>, wp_data_reg = 0x11223344,
     wp_link_adr_reg = 0x2000, wp_link_valid_reg = True, wp_bank_data_out = 0\<rparr>"

definition ex_wp_in :: wp_in where
  "ex_wp_in = \<lparr>w_reset = False, w_port_wr = True, w_port_direct = False, w_port_bsel = 0b0100, w_port_rlink_wcond = True,
     w_port_writeback = False, w_port_invalidate = False, w_port_adr = 0x1014, w_port_data = 0xAABBCCDD, w_busif_busy = False,
     w_bank_data_in = 0x11223344, w_tag_in = \<lparr>valid = True, dirty = False, tadr = 0, way = 0\<rparr>, w_gnt_linelock = True,
     w_gnt_tagr = True, w_gnt_tagw = True, w_gnt_bank = (\<lambda>_. True), w_gnt_busif = False, w_snoop_adr = 0, w_snoop_stb = False\<rparr>"

text \<open>What the bank delivers after the write.\<close>

abbreviation (input) ex_wp_last :: wp_in where "ex_wp_last \<equiv> ex_wp_in\<lparr>w_bank_data_in := 0x1122CC44\<rparr>"

lemma ex_wp_hit: "wp_hit_line 0x1014 ex_wp_line"
  by (simp add: wp_hit_line_def line_hit_def ex_wp_line_def GetTagOfAdr_def)

lemma ex_wp_adr: "GetBankOfAdr 0x1014 = 1" "GetTagOfAdr 0x1014 = 0"
  by (simp_all add: GetBankOfAdr_def GetTagOfAdr_def)

lemma ex_wp_merge: "merge_lanes 0b0100 0xAABBCCDD 0x11223344 = 0x1122CC44"
  by (simp add: merge_lanes_def merge_lane_def lane_mask_def)

lemmas ex_wp_simps = ex_wp_def ex_wp_in_def ex_wp_line_def wp_clock_def wp_obeys_def wp_line_step_def tag_seen_def ex_wp_adr
  CombineData_merge ex_wp_merge wp_defs

lemma ex_wp_quiet: "wp_quiet 0x1014 0b0100 0xAABBCCDD (replicate 3 ex_wp_in) (ex_wp s_wp_read_tag, ex_wp_line)"
  by (simp add: eval_nat_numeral) (simp add: ex_wp_simps)

theorem write_port_stores_witness:
  "w_port_ack (wp_main ex_wp_last (fst (fold wp_clock (replicate 3 ex_wp_in) (ex_wp s_wp_read_tag, ex_wp_line))))
    \<and> l_word (wp_line_step ex_wp_last (fst (fold wp_clock (replicate 3 ex_wp_in) (ex_wp s_wp_read_tag, ex_wp_line)))
         (snd (fold wp_clock (replicate 3 ex_wp_in) (ex_wp s_wp_read_tag, ex_wp_line)))) 1 = 0x1122CC44"
proof -
  let ?st = "fold wp_clock (replicate 3 ex_wp_in) (ex_wp s_wp_read_tag, ex_wp_line)"
  have a: "w_port_ack (wp_main ex_wp_last (fst ?st))" by (simp add: eval_nat_numeral) (simp add: ex_wp_simps)
  have o: "wp_obeys 0x1014 0b0100 0xAABBCCDD ex_wp_last (fst ?st) (snd ?st)" by (simp add: eval_nat_numeral) (simp add: ex_wp_simps)
  have q: "wp_state (ex_wp s_wp_read_tag) = s_wp_read_tag" by (simp add: ex_wp_def)
  show ?thesis using write_port_stores [OF ex_wp_hit q ex_wp_quiet surjective_pairing o] a
    by (simp add: ex_wp_adr ex_wp_line_def ex_wp_merge)
qed

section \<open>Store-conditional\<close>

text \<open>While a write is requested the linked address stays.\<close>

lemma wp_link_adr: "w_port_wr i \<Longrightarrow> wp_link_adr_reg (wp_transition i s) = wp_link_adr_reg s"
  by (cases "wp_state s") (simp_all add: wp_defs wp_init_def)

lemma wp_link_adr_quiet:
  "\<lbrakk>wp_quiet A sel D is st; fold wp_clock is st = st'\<rbrakk> \<Longrightarrow> wp_link_adr_reg (fst st') = wp_link_adr_reg (fst st)"
proof (induction "is" arbitrary: st)
  case (Cons i js)
  then have "wp_link_adr_reg (fst st') = wp_link_adr_reg (fst (wp_clock i st))" by simp
  then show ?case using Cons.prems by (simp add: wp_clock_def wp_obeys_def wp_link_adr)
qed simp

lemma wp_wcond: "\<not> w_reset i \<Longrightarrow> w_port_wcond_ok (wp_main i s) \<longleftrightarrow> wp_link_valid_reg s \<and> wp_link_adr_reg s = w_port_adr i"
  by (cases "wp_state s") (simp_all add: wp_defs wp_init_def)

text \<open>A store-conditional is carried out like a plain store when the port holds a valid link of another address: the acknowledge
  says that it failed, and the word has been written all the same.\<close>

lemma store_conditional_unchecked:
  assumes "wp_state s = s_wp_init" "wp_link_valid_reg s" "wp_link_adr_reg s \<noteq> A" "\<not> w_reset j" "w_port_wr j" "w_port_rlink_wcond j"
    "\<not> w_port_direct j" "w_gnt_tagr j" "w_gnt_linelock j" "wp_hit_line A g" "wp_quiet A sel D is (wp_transition j s, g)"
    "fold wp_clock is (wp_transition j s, g) = (s', g')" "wp_obeys A sel D i s' g'" "w_port_ack (wp_main i s')"
  shows "\<not> w_port_wcond_ok (wp_main i s')
    \<and> l_word (wp_line_step i s' g') (GetBankOfAdr A) = merge_lanes sel D (l_word g (GetBankOfAdr A))"
proof -
  have "wp_state (wp_transition j s) = s_wp_read_tag" using assms(1-9) by (simp add: wp_defs wp_init_def)
  then have "wp_inv A sel D g (wp_transition j s) g" by (simp add: wp_inv_def)
  then have "wp_inv A sel D g s' g'" using wp_inv_quiet assms(10-12) by blast
  then have "wp_stored A sel D g (wp_line_step i s' g')" using wp_inv_step [OF assms(10) _ assms(13)] assms(14) by simp
  moreover have "wp_link_adr_reg s' = wp_link_adr_reg s"
    using wp_link_adr_quiet [OF assms(11,12)] wp_link_adr [OF assms(5)] by simp
  then have "\<not> w_port_wcond_ok (wp_main i s')" using assms(3,13) wp_wcond by (simp add: wp_obeys_def)
  ultimately show ?thesis by (simp add: wp_stored_def stored_words_def Let_def)
qed

lemma store_conditional_unchecked_witness:
  "\<exists>s g. \<not> w_port_wcond_ok (wp_main ex_wp_last s) \<and> w_port_ack (wp_main ex_wp_last s) \<and> l_word (wp_line_step ex_wp_last s g) 1 = 0x1122CC44"
proof -
  have j: "wp_transition ex_wp_in (ex_wp s_wp_init) = ex_wp s_wp_read_tag\<lparr>wp_data_reg := 0x11223344\<rparr>"
    by (simp add: ex_wp_simps wp_init_def)
  then have j: "wp_transition ex_wp_in (ex_wp s_wp_init) = ex_wp s_wp_read_tag" by (simp add: ex_wp_def)
  let ?st = "fold wp_clock (replicate 3 ex_wp_in) (wp_transition ex_wp_in (ex_wp s_wp_init), ex_wp_line)"
  have a: "w_port_ack (wp_main ex_wp_last (fst ?st))" unfolding j by (simp add: eval_nat_numeral) (simp add: ex_wp_simps)
  have o: "wp_obeys 0x1014 0b0100 0xAABBCCDD ex_wp_last (fst ?st) (snd ?st)" unfolding j by (simp add: eval_nat_numeral) (simp add: ex_wp_simps)
  have s: "wp_state (ex_wp s_wp_init) = s_wp_init" "wp_link_valid_reg (ex_wp s_wp_init)" "wp_link_adr_reg (ex_wp s_wp_init) \<noteq> 0x1014"
    "\<not> w_reset ex_wp_in" "w_port_wr ex_wp_in" "w_port_rlink_wcond ex_wp_in" "\<not> w_port_direct ex_wp_in" "w_gnt_tagr ex_wp_in"
    "w_gnt_linelock ex_wp_in" by (simp_all add: ex_wp_def ex_wp_in_def)
  have "wp_quiet 0x1014 0b0100 0xAABBCCDD (replicate 3 ex_wp_in) (wp_transition ex_wp_in (ex_wp s_wp_init), ex_wp_line)"
    unfolding j by (rule ex_wp_quiet)
  note T = store_conditional_unchecked [OF s ex_wp_hit this surjective_pairing o a]
  show ?thesis
    by (rule exI [of _ "fst ?st"], rule exI [of _ "snd ?st"]) (use T a in \<open>simp add: ex_wp_adr ex_wp_line_def ex_wp_merge\<close>)
qed

end
