(* ===== verification/PnMemu.thy ===== *)
theory PnMemu
  imports PnArb PnWp
begin

text \<open>
  The memory unit, module \<open>MMemu\<close> of \<open>src/sysc/memu.cpp\<close>: its parts wired together.  Read ports 0 and 1 are the data ports
  and 2 and 3 the instruction ports of the two processors, write port \<open>n\<close> belongs to processor \<open>n\<close>.  The signals between
  the parts settle within a clock: requests do not depend on grants but for the line lock, which a write port drops
  when its last bank is granted; \<open>memu_settle\<close> evaluates arbiter and ports twice, and \<open>memu_settled\<close> shows that
  this is the fixed point.
\<close>

section \<open>Signals\<close>

record memu_in =
  mi_reset :: bool
  mi_wb_ack :: bool
  mi_wb_dat :: u32
  mi_rp_rd :: "nat \<Rightarrow> bool"
  mi_rp_direct :: "nat \<Rightarrow> bool"
  mi_rp_bsel :: "nat \<Rightarrow> 4 word"
  mi_rp_adr :: "nat \<Rightarrow> u32"
  mi_wp_wr :: "nat \<Rightarrow> bool"
  mi_wp_direct :: "nat \<Rightarrow> bool"
  mi_wp_bsel :: "nat \<Rightarrow> 4 word"
  mi_wp_rlink_wcond :: "nat \<Rightarrow> bool"
  mi_wp_writeback :: "nat \<Rightarrow> bool"
  mi_wp_invalidate :: "nat \<Rightarrow> bool"
  mi_wp_adr :: "nat \<Rightarrow> u32"
  mi_wp_data :: "nat \<Rightarrow> u32"

record memu =
  m_tagram :: tagram
  m_bank :: "nat \<Rightarrow> bankram"
  m_busif :: busif
  m_arb :: arb
  m_rp :: "nat \<Rightarrow> rp"
  m_wp :: "nat \<Rightarrow> wp"
  m_rp_busif_data_reg :: u32

text \<open>What the arbiter answers.\<close>

record grants =
  g_linelock :: "nat \<Rightarrow> bool"
  g_tagr :: "nat \<Rightarrow> bool"
  g_tagw :: "nat \<Rightarrow> bool"
  g_bank :: "nat \<Rightarrow> nat \<Rightarrow> bool"
  g_wiadr :: "nat \<Rightarrow> nat \<Rightarrow> u32"
  g_busif :: "nat \<Rightarrow> bool"
  g_snoop :: "(u32 \<times> (nat \<Rightarrow> bool)) option"

section \<open>The ports\<close>

definition memu_rp_in :: "memu_in \<Rightarrow> memu \<Rightarrow> grants \<Rightarrow> nat \<Rightarrow> rp_in" where
  "memu_rp_in x s G p =
     (let cpu = p mod CPU_CORES
      in \<lparr>r_reset = mi_reset x, r_port_rd = mi_rp_rd x p, r_port_direct = mi_rp_direct x p, r_port_adr = mi_rp_adr x p,
          r_busif_adr = b_adr_reg (m_busif s), r_busif_data = m_rp_busif_data_reg s, r_busif_data_valid = b_idata_valid (m_busif s),
          r_busif_busy = b_busy (m_busif s),
          r_bank_data_in = br_rdata (m_bank s (rp_bank_sel_reg (m_rp s p))) (cpu mod BR_PORTS),
          r_tag_in = tr_tag_out (m_tagram s) cpu, r_gnt_tagr = g_tagr G p, r_gnt_bank = (\<lambda>b. g_bank G b p), r_gnt_busif = g_busif G p\<rparr>)"

definition memu_wp_in :: "memu_in \<Rightarrow> memu \<Rightarrow> grants \<Rightarrow> nat \<Rightarrow> wp_in" where
  "memu_wp_in x s G p =
     \<lparr>w_reset = mi_reset x, w_port_wr = mi_wp_wr x p, w_port_direct = mi_wp_direct x p, w_port_bsel = mi_wp_bsel x p,
      w_port_rlink_wcond = mi_wp_rlink_wcond x p, w_port_writeback = mi_wp_writeback x p, w_port_invalidate = mi_wp_invalidate x p,
      w_port_adr = mi_wp_adr x p, w_port_data = mi_wp_data x p, w_busif_busy = b_busy (m_busif s),
      w_bank_data_in = br_rdata (m_bank s (GetBankOfAdr (mi_wp_adr x p))) (p mod BR_PORTS), w_tag_in = tr_tag_out (m_tagram s) p,
      w_gnt_linelock = g_linelock G p, w_gnt_tagr = g_tagr G (RPORTS + p), w_gnt_tagw = g_tagw G p,
      w_gnt_bank = (\<lambda>b. g_bank G b (RPORTS + p)), w_gnt_busif = g_busif G (RPORTS + p),
      w_snoop_adr = (case g_snoop G of None \<Rightarrow> 0xffffffff | Some (a, _) \<Rightarrow> a),
      w_snoop_stb = (case g_snoop G of None \<Rightarrow> False | Some (_, stb) \<Rightarrow> stb p)\<rparr>"

definition memu_ro :: "memu_in \<Rightarrow> memu \<Rightarrow> grants \<Rightarrow> nat \<Rightarrow> rp_out" where
  "memu_ro x s G p = rp_main (memu_rp_in x s G p) (m_rp s p)"

definition memu_wo :: "memu_in \<Rightarrow> memu \<Rightarrow> grants \<Rightarrow> nat \<Rightarrow> wp_out" where
  "memu_wo x s G p = wp_main (memu_wp_in x s G p) (m_wp s p)"

section \<open>The arbiter\<close>

definition memu_arb_in :: "memu_in \<Rightarrow> memu \<Rightarrow> grants \<Rightarrow> arb_in" where
  "memu_arb_in x s G =
     (let ro = memu_ro x s G; wo = memu_wo x s G; bi = m_busif s
      in \<lparr>a_wiadr_busif = GetWayIndexOfAdr (b_adr_reg bi) (way (b_tag_out bi)),
          a_wiadr_rp = (\<lambda>p. GetWayIndexOfAdr (mi_rp_adr x p) (r_way_out (ro p))),
          a_adr_wp = mi_wp_adr x, a_way_wp = (\<lambda>p. way (w_tag_out (wo p))),
          a_req_busif_linelock = b_req_linelock bi, a_req_wp_linelock = (\<lambda>p. w_req_linelock (wo p)),
          a_tagram_ready = tr_ready (m_tagram s), a_req_busif_tagw = b_req_tagw bi, a_req_wp_tagw = (\<lambda>p. w_req_tagw (wo p)),
          a_req_busif_tagr = b_req_tagr bi, a_req_wp_tagr = (\<lambda>p. w_req_tagr (wo p)), a_req_rp_tagr = (\<lambda>p. r_req_tagr (ro p)),
          a_req_busif_bank = b_req_bank bi, a_req_wp_bank = (\<lambda>p. w_req_bank (wo p)), a_req_rp_bank = (\<lambda>p. r_req_bank (ro p)),
          a_req_rp_busif = (\<lambda>p. r_req_busif (ro p)), a_req_wp_busif = (\<lambda>p. w_req_busif (wo p))\<rparr>)"

definition memu_arbitrate :: "memu \<Rightarrow> arb_in \<Rightarrow> grants" where
  "memu_arbitrate s i =
     (let a = m_arb s
      in \<lparr>g_linelock = LineLockMethod i a, g_tagr = fst (TagMethod i a), g_tagw = snd (TagMethod i a),
          g_bank = (\<lambda>b. fst (BankMethod i a b)), g_wiadr = (\<lambda>b. snd (BankMethod i a b)), g_busif = BusIfMethod i a,
          g_snoop = SnoopMethod i (LineLockMethod i a)\<rparr>)"

definition no_grants :: grants where
  "no_grants = \<lparr>g_linelock = \<lambda>_. False, g_tagr = \<lambda>_. False, g_tagw = \<lambda>_. False, g_bank = \<lambda>_ _. False, g_wiadr = \<lambda>_ _. 0,
     g_busif = \<lambda>_. False, g_snoop = None\<rparr>"

definition memu_settle :: "memu_in \<Rightarrow> memu \<Rightarrow> grants" where
  "memu_settle x s =
     (let G1 = memu_arbitrate s (memu_arb_in x s no_grants) in memu_arbitrate s (memu_arb_in x s G1))"

section \<open>The memories and the bus interface\<close>

definition memu_tagram_in :: "memu_in \<Rightarrow> memu \<Rightarrow> grants \<Rightarrow> tagram_in" where
  "memu_tagram_in x s G =
     (let ro = memu_ro x s G; wo = memu_wo x s G; bi = m_busif s; last_cpu = (\<lambda>n. n = CPU_CORES - 1)
      in \<lparr>tr_rd = (\<lambda>n. last_cpu n \<and> b_tag_rd bi \<or> r_tag_rd (ro n) \<or> r_tag_rd (ro (CPU_CORES + n)) \<or> w_tag_rd (wo n)),
          tr_wr = (\<lambda>n. last_cpu n \<and> b_tag_wr bi \<or> w_tag_wr (wo n)),
          tr_adr = (\<lambda>n. if last_cpu n \<and> (g_tagr G (RPORTS + WPORTS) \<or> g_tagw G WPORTS) then b_adr_reg bi
                        else if g_tagr G (RPORTS + n) \<or> g_tagw G n then mi_wp_adr x n
                        else if g_tagr G n then mi_rp_adr x n
                        else if g_tagr G (CPU_CORES + n) then mi_rp_adr x (CPU_CORES + n)
                        else 0xffffffff),
          tr_tag_in = (\<lambda>n. if last_cpu n \<and> g_tagw G WPORTS then b_tag_out bi else w_tag_out (wo n))\<rparr>)"

text \<open>The processors that are linked to side \<open>p\<close> of the bank RAMs.\<close>

definition side_cpus :: "nat \<Rightarrow> nat list" where
  "side_cpus p = filter (\<lambda>cpu. cpu mod BR_PORTS = p) [0..<CPU_CORES]"

definition memu_bankram_in :: "memu_in \<Rightarrow> memu \<Rightarrow> grants \<Rightarrow> nat \<Rightarrow> bankram_in" where
  "memu_bankram_in x s G b =
     (let ro = memu_ro x s G; wo = memu_wo x s G; bi = m_busif s;
          busif = (\<lambda>p. p = BR_PORTS - 1 \<and> g_bank G b IDX_BUSIF)
      in \<lparr>br_rd = (\<lambda>p. list_ex (\<lambda>cpu. g_bank G b (IDX_RP cpu) \<and> r_bank_rd (ro cpu)
                                   \<or> g_bank G b (IDX_IP cpu) \<and> r_bank_rd (ro (CPU_CORES + cpu))
                                   \<or> g_bank G b (IDX_WP cpu) \<and> w_bank_rd (wo cpu)) (side_cpus p)
                       \<or> busif p \<and> b_bank_rd bi b),
          br_wr = (\<lambda>p. list_ex (\<lambda>cpu. g_bank G b (IDX_WP cpu) \<and> w_bank_wr (wo cpu)) (side_cpus p) \<or> busif p \<and> b_bank_wr bi b),
          br_wiadr = g_wiadr G b,
          br_wdata = (\<lambda>p. if busif p then b_idata_reg bi b
                          else fold (\<lambda>cpu d. if g_bank G b (IDX_WP cpu) then w_bank_data_out (wo cpu) else d) (side_cpus p) 0xffffffff)\<rparr>)"

text \<open>The inputs of the bus interface: the last port that has it counts, read ports first.\<close>

definition memu_busif_in :: "memu_in \<Rightarrow> memu \<Rightarrow> grants \<Rightarrow> busif_in" where
  "memu_busif_in x s G =
     (let ro = memu_ro x s G; wo = memu_wo x s G; bi = m_busif s;
          i0 = \<lparr>b_wb_ack = mi_wb_ack x, b_wb_dat = mi_wb_dat x, b_op = bioNothing, b_nolinelock = False, b_bsel = 0, b_adr_in = 0,
                b_data_in = (\<lambda>b. br_rdata (m_bank s b) (BR_PORTS - 1)), b_tag_in = tr_tag_out (m_tagram s) (CPU_CORES - 1),
                b_gnt_linelock = g_linelock G WPORTS, b_gnt_tagw = g_tagw G WPORTS, b_gnt_tagr = g_tagr G (RPORTS + WPORTS),
                b_gnt_bank = (\<lambda>b. g_bank G b IDX_BUSIF)\<rparr>;
          i1 = fold (\<lambda>p i. if g_busif G p
                  then i\<lparr>b_op := r_busif_op (ro p), b_nolinelock := False, b_adr_in := mi_rp_adr x p, b_bsel := mi_rp_bsel x p\<rparr>
                  else i) [0..<RPORTS] i0
      in fold (\<lambda>p i. if g_busif G (RPORTS + p)
                  then i\<lparr>b_op := w_busif_op (wo p), b_nolinelock := w_busif_nolinelock (wo p), b_adr_in := mi_wp_adr x p,
                         b_data_in := (\<lambda>b. if \<not> b_bank_rd bi b then mi_wp_data x p else b_data_in i b), b_bsel := mi_wp_bsel x p\<rparr>
                  else i) [0..<WPORTS] i1)"

section \<open>A clock\<close>

definition memu_step :: "memu_in \<Rightarrow> memu \<Rightarrow> memu" where
  "memu_step x s =
     (let G = memu_settle x s
      in \<lparr>m_tagram = tagram_step CACHE_WAYS (memu_tagram_in x s G) (m_tagram s),
          m_bank = (\<lambda>b. bankram_step (memu_bankram_in x s G b) (m_bank s b)),
          m_busif = busif_step (mi_reset x) (memu_busif_in x s G) (m_busif s),
          m_arb = arb_transition (mi_reset x) (memu_arb_in x s G) (m_arb s),
          m_rp = (\<lambda>p. rp_transition (memu_rp_in x s G p) (m_rp s p)),
          m_wp = (\<lambda>p. wp_transition (memu_wp_in x s G p) (m_wp s p)),
          m_rp_busif_data_reg = b_idata_reg (m_busif s) (GetBankOfAdr (b_adr_reg (m_busif s)))\<rparr>)"

text \<open>The outputs to the bus and to the processors.\<close>

record memu_out =
  mo_wb_cyc :: bool
  mo_wb_stb :: bool
  mo_wb_we :: bool
  mo_wb_sel :: "4 word"
  mo_wb_adr :: u32
  mo_wb_dat :: u32
  mo_rp_ack :: "nat \<Rightarrow> bool"
  mo_rp_data :: "nat \<Rightarrow> u32"
  mo_wp_ack :: "nat \<Rightarrow> bool"
  mo_wp_wcond_ok :: "nat \<Rightarrow> bool"

definition memu_output :: "memu_in \<Rightarrow> memu \<Rightarrow> memu_out" where
  "memu_output x s =
     (let G = memu_settle x s; ro = memu_ro x s G; wo = memu_wo x s G; bi = m_busif s
      in \<lparr>mo_wb_cyc = b_wb_cyc bi, mo_wb_stb = b_wb_stb bi, mo_wb_we = b_wb_we bi, mo_wb_sel = b_wb_sel bi, mo_wb_adr = b_wb_adr bi,
          mo_wb_dat = b_wb_dat_o bi, mo_rp_ack = (\<lambda>p. r_port_ack (ro p)), mo_rp_data = (\<lambda>p. r_port_data (ro p)),
          mo_wp_ack = (\<lambda>p. w_port_ack (wo p)), mo_wp_wcond_ok = (\<lambda>p. w_port_wcond_ok (wo p))\<rparr>)"

section \<open>The signals settle\<close>

text \<open>Selectors of outputs over the conditionals of the methods.\<close>

lemmas rp_if = if_distrib [of r_req_bank] if_distrib [of r_req_busif] if_distrib [of r_way_out] if_distrib [of r_tagr_req_rd]
  if_distrib [of r_bank_req_rd]

lemmas wp_if = if_distrib [of w_req_bank] if_distrib [of w_req_busif] if_distrib [of w_tag_out] if_distrib [of w_tagr_req_rd]
  if_distrib [of w_bank_req_rd] if_distrib [of w_req_tagw] if_distrib [of w_req_linelock]

text \<open>What a read port requests.\<close>

lemma rp_req_tagr: "r_req_tagr (rp_main i s) \<longleftrightarrow> \<not> r_reset i \<and>
    (rp_state s \<in> {s_rp_read_tag, s_rp_read_bank, s_rp_miss_request_tag, s_rp_miss_read_tag}
     \<or> rp_state s = s_rp_init \<and> r_port_rd i \<and> \<not> r_port_direct i \<and> \<not> rp_hit i)"
  by (cases "rp_state s") (simp_all add: rp_defs rp_if)

lemma rp_tag_rd: "r_tag_rd (rp_main i s) = r_req_tagr (rp_main i s)"
  by (simp add: rp_main_def Let_def)

lemma rp_req_bank: "r_req_bank (rp_main i s) b \<longleftrightarrow> b = GetBankOfAdr (r_port_adr i) \<and> \<not> r_reset i
    \<and> rp_state s \<in> {s_rp_read_tag, s_rp_miss_read_tag} \<and> valid (r_tag_in i)"
  by (cases "rp_state s") (simp_all add: rp_defs rp_if)

lemma rp_req_busif: "r_req_busif (rp_main i s) \<longleftrightarrow> \<not> r_reset i \<and>
    (rp_state s \<in> {s_rp_direct_wait_busif, s_rp_miss_wait_busif, s_rp_miss_request_tag, s_rp_miss_read_tag, s_rp_miss_replace}
     \<or> rp_state s \<in> {s_rp_init, s_rp_read_bank} \<and> r_port_rd i \<and> r_port_direct i)"
  by (cases "rp_state s") (simp_all add: rp_defs rp_if)

lemma rp_way_out: "r_way_out (rp_main i s) = way (r_tag_in i)"
  by (cases "rp_state s") (simp_all add: rp_defs rp_if)

text \<open>What a write port requests.\<close>

lemma wp_req_tagr: "w_req_tagr (wp_main i s) \<longleftrightarrow> \<not> w_reset i \<and>
    (wp_state s = s_wp_recheck \<or> wp_state s = s_wp_replace_wait_busif \<and> \<not> w_busif_busy i
     \<or> wp_state s = s_wp_init \<and> w_port_wr i \<and> \<not> w_port_direct i \<and> (w_port_rlink_wcond i \<longrightarrow> wp_link_valid_reg s))"
  by (cases "wp_state s") (simp_all add: wp_defs wp_init_def wp_if)

lemma wp_req_tagw: "w_req_tagw (wp_main i s) \<longleftrightarrow> \<not> w_reset i \<and>
    wp_state s \<in> {s_wp_write_tag1_and_bank, s_wp_write_tag2_and_bank, s_wp_write_tag1, s_wp_write_tag2}"
  by (cases "wp_state s") (simp_all add: wp_defs wp_init_def wp_if)

lemma wp_req_bank: "w_req_bank (wp_main i s) b \<longleftrightarrow> b = GetBankOfAdr (w_port_adr i) \<and> \<not> w_reset i
    \<and> (wp_state s \<in> {s_wp_have_tag_request_bank, s_wp_read_bank, s_wp_write_tag1_and_bank, s_wp_write_tag2_and_bank, s_wp_write_bank}
       \<or> wp_state s = s_wp_read_tag \<and> w_port_bsel i < 0xf)"
  by (cases "wp_state s") (simp_all add: wp_defs wp_init_def wp_if)

lemma wp_req_busif: "w_req_busif (wp_main i s) \<longleftrightarrow> \<not> w_reset i \<and>
    (wp_state s \<in> {s_wp_direct, s_wp_miss, s_wp_request_busif_only, s_wp_recheck, s_wp_recheck_read_tag, s_wp_replace,
        s_wp_replace_wait_busif, s_wp_special_request_busif_only, s_wp_special, s_wp_special_wait_complete}
     \<or> wp_state s = s_wp_init \<and> (w_port_wr i \<and> w_port_direct i \<or> \<not> w_port_wr i \<and> (w_port_writeback i \<or> w_port_invalidate i)))"
  by (cases "wp_state s") (simp_all add: wp_defs wp_init_def wp_if)

lemma wp_tag_out: "w_tag_out (wp_main i s) =
    (if \<not> w_reset i \<and> wp_state s = s_wp_read_tag then w_tag_in i
     else if \<not> w_reset i \<and> wp_state s \<in> {s_wp_write_tag1_and_bank, s_wp_write_tag2_and_bank, s_wp_write_tag1, s_wp_write_tag2}
     then (wp_tag_reg s)\<lparr>dirty := True\<rparr> else wp_tag_reg s)"
  by (cases "wp_state s") (simp_all add: wp_defs wp_init_def wp_if)

lemma wp_req_linelock: "w_req_linelock (wp_main i s) \<longleftrightarrow> \<not> w_reset i \<and>
    (wp_state s \<in> {s_wp_request_linelock_only, s_wp_read_tag, s_wp_have_tag_request_bank, s_wp_read_bank, s_wp_write_tag1_and_bank,
        s_wp_write_tag1, s_wp_miss, s_wp_recheck, s_wp_recheck_read_tag, s_wp_replace, s_wp_replace_wait_busif,
        s_wp_special, s_wp_special_wait_complete}
     \<or> wp_state s \<in> {s_wp_write_tag2_and_bank, s_wp_write_bank} \<and> \<not> w_gnt_bank i (GetBankOfAdr (w_port_adr i))
     \<or> wp_state s = s_wp_init \<and> (if w_port_wr i then \<not> w_port_direct i \<and> (w_port_rlink_wcond i \<longrightarrow> wp_link_valid_reg s)
                                else w_port_writeback i \<or> w_port_invalidate i))"
  by (cases "wp_state s") (simp_all add: wp_defs wp_init_def wp_if)

lemma memu_arb_in_cong:
  assumes "g_bank G = g_bank G'"
  shows "memu_arb_in x s G = memu_arb_in x s G'"
proof -
  have r: "r_req_tagr (memu_ro x s G p) = r_req_tagr (memu_ro x s G' p)" "r_req_bank (memu_ro x s G p) = r_req_bank (memu_ro x s G' p)"
    "r_req_busif (memu_ro x s G p) = r_req_busif (memu_ro x s G' p)" "r_way_out (memu_ro x s G p) = r_way_out (memu_ro x s G' p)" for p
    by (simp_all add: memu_ro_def rp_req_tagr rp_req_bank rp_req_busif rp_way_out fun_eq_iff memu_rp_in_def rp_hit_def Let_def)
  have w: "w_req_tagr (memu_wo x s G p) = w_req_tagr (memu_wo x s G' p)" "w_req_tagw (memu_wo x s G p) = w_req_tagw (memu_wo x s G' p)"
    "w_req_bank (memu_wo x s G p) = w_req_bank (memu_wo x s G' p)" "w_req_busif (memu_wo x s G p) = w_req_busif (memu_wo x s G' p)"
    "w_tag_out (memu_wo x s G p) = w_tag_out (memu_wo x s G' p)" "w_req_linelock (memu_wo x s G p) = w_req_linelock (memu_wo x s G' p)" for p
    using assms by (simp_all add: memu_wo_def wp_req_tagr wp_req_tagw wp_req_bank wp_req_busif wp_tag_out wp_req_linelock fun_eq_iff memu_wp_in_def)
  show ?thesis by (simp add: memu_arb_in_def r w Let_def)
qed

text \<open>The banks are granted without regard to the line lock.\<close>

lemma memu_bank_cong: "g_bank (memu_arbitrate s (memu_arb_in x s G)) = g_bank (memu_arbitrate s (memu_arb_in x s G'))"
proof -
  have r: "r_req_bank (memu_ro x s G p) = r_req_bank (memu_ro x s G' p)" "r_way_out (memu_ro x s G p) = r_way_out (memu_ro x s G' p)" for p
    by (simp_all add: memu_ro_def rp_req_bank rp_way_out fun_eq_iff memu_rp_in_def Let_def)
  have w: "w_req_bank (memu_wo x s G p) = w_req_bank (memu_wo x s G' p)" "w_tag_out (memu_wo x s G p) = w_tag_out (memu_wo x s G' p)" for p
    by (simp_all add: memu_wo_def wp_req_bank wp_tag_out fun_eq_iff memu_wp_in_def)
  have "bank_req (memu_arb_in x s G) = bank_req (memu_arb_in x s G')" "bank_wiadr (memu_arb_in x s G) = bank_wiadr (memu_arb_in x s G')"
    by (simp_all add: bank_req_def bank_wiadr_def memu_arb_in_def r w fun_eq_iff Let_def)
  then have "BankMethod (memu_arb_in x s G) a b = BankMethod (memu_arb_in x s G') a b" for a b by (simp only: BankMethod_def)
  then show ?thesis by (simp add: memu_arbitrate_def Let_def)
qed

lemma memu_settled_in: "memu_arb_in x s (memu_settle x s) = memu_arb_in x s (memu_arbitrate s (memu_arb_in x s no_grants))"
  unfolding memu_settle_def Let_def by (rule memu_arb_in_cong) (rule memu_bank_cong)

lemma memu_settle_fix: "memu_arbitrate s (memu_arb_in x s (memu_settle x s)) = memu_settle x s"
  unfolding memu_settled_in by (simp add: memu_settle_def Let_def)

text \<open>C34.  The signals between arbiter and ports have exactly one stable assignment in every clock, though requests depend on grants
  (a write port drops the line lock with its last bank): the arbiter's answers to the requests that result from them.\<close>

theorem memu_settled: "G = memu_arbitrate s (memu_arb_in x s G) \<longleftrightarrow> G = memu_settle x s"
proof
  assume G: "G = memu_arbitrate s (memu_arb_in x s G)"
  then have "g_bank G = g_bank (memu_arbitrate s (memu_arb_in x s no_grants))" using memu_bank_cong by metis
  then have "memu_arb_in x s G = memu_arb_in x s (memu_arbitrate s (memu_arb_in x s no_grants))" by (rule memu_arb_in_cong)
  with G show "G = memu_settle x s" by (simp add: memu_settle_def Let_def)
next
  assume "G = memu_settle x s"
  then show "G = memu_arbitrate s (memu_arb_in x s G)" by (simp add: memu_settle_fix)
qed

end
