(* ===== verification/PnMemuTag.thy ===== *)
theory PnMemuTag
  imports PnMemu
begin

text \<open>
  The memory unit runs: the tag RAM is used by one writer or by one reader for each processor, what is asked of it is what
  it answers, and the assertions of the code hold in every state that can be reached from a reset.
\<close>

text \<open>The grants are those of the arbiter, with themselves as inputs.\<close>

lemma settled_grants:
  fixes x :: memu_in and s :: memu
  defines "G \<equiv> memu_settle x s"
  defines "i \<equiv> memu_arb_in x s G"
  shows "g_linelock G = LineLockMethod i (m_arb s)" "g_tagr G = fst (TagMethod i (m_arb s))" "g_tagw G = snd (TagMethod i (m_arb s))"
    "g_busif G = BusIfMethod i (m_arb s)" "g_snoop G = SnoopMethod i (LineLockMethod i (m_arb s))"
proof -
  have "G = memu_arbitrate s i" unfolding G_def i_def by (rule memu_settle_fix [symmetric])
  then show "g_linelock G = LineLockMethod i (m_arb s)" "g_tagr G = fst (TagMethod i (m_arb s))" "g_tagw G = snd (TagMethod i (m_arb s))"
    "g_busif G = BusIfMethod i (m_arb s)" "g_snoop G = SnoopMethod i (LineLockMethod i (m_arb s))"
    by (simp_all add: memu_arbitrate_def Let_def)
qed

lemma fold_upt_4: "fold f [0..<4] g = f 3 (f 2 (f 1 (f 0 g)))"
  by (simp add: upt_4)

lemma busif_in_fields:
  "b_gnt_tagw (memu_busif_in x s G) = g_tagw G 2" "b_gnt_tagr (memu_busif_in x s G) = g_tagr G 6"
  "b_tag_in (memu_busif_in x s G) = tr_tag_out (m_tagram s) 1" "b_gnt_linelock (memu_busif_in x s G) = g_linelock G 2"
  by (simp_all add: memu_busif_in_def Let_def fold_upt_4 fold_upt_2)

section \<open>Who writes a tag\<close>

text \<open>A tag is written in two clocks: the first begins with the grant, in the second the tag RAM does not look at its ports.\<close>

definition wp_first :: "wp \<Rightarrow> bool" where
  "wp_first s \<longleftrightarrow> wp_state s = s_wp_write_tag1_and_bank \<or> wp_state s = s_wp_write_tag1"

definition wp_second :: "wp \<Rightarrow> bool" where
  "wp_second s \<longleftrightarrow> wp_state s = s_wp_write_tag2_and_bank \<or> wp_state s = s_wp_write_tag2"

definition busif_first :: "busif \<Rightarrow> bool" where
  "busif_first s \<longleftrightarrow> b_loc s = B_inv_1 \<or> b_loc s = B_tag_1"

definition busif_second :: "busif \<Rightarrow> bool" where
  "busif_second s \<longleftrightarrow> b_loc s = B_inv_2 \<or> b_loc s = B_tag_2"

lemma wp_tag_wr: "w_tag_wr (wp_main i s) \<longleftrightarrow> \<not> w_reset i \<and> (wp_first s \<and> w_gnt_tagw i \<or> wp_state s = s_wp_write_tag2)"
  by (cases "wp_state s") (simp_all add: wp_defs wp_init_def wp_first_def if_distrib [of w_tag_wr])

lemma wp_req_tagw': "w_req_tagw (wp_main i s) \<longleftrightarrow> \<not> w_reset i \<and> (wp_first s \<or> wp_second s)"
  by (auto simp: wp_req_tagw wp_first_def wp_second_def)

lemma wp_second_next: "wp_second (wp_transition i s) \<longleftrightarrow> \<not> w_reset i \<and> wp_first s \<and> w_gnt_tagw i"
  by (cases "wp_state s"; cases "w_gnt_bank i (GetBankOfAdr (w_port_adr i))")
    (simp_all add: wp_defs wp_init_def wp_first_def wp_second_def if_distrib [of w_next_state])

lemma wp_way_next:
  assumes "way (w_tag_in i) = 0" "way (wp_tag_reg s) = 0"
  shows "way (wp_tag_reg (wp_transition i s)) = 0" "way (w_tag_out (wp_main i s)) = 0"
proof -
  show "way (w_tag_out (wp_main i s)) = 0" using assms by (simp add: wp_tag_out)
  show "way (wp_tag_reg (wp_transition i s)) = 0" using assms
    by (cases "wp_state s") (simp_all add: wp_defs wp_init_def if_distrib [of w_next_tag_reg])
qed

text \<open>The bus interface asks for the tag RAM where it waits for it and while it writes.\<close>

definition busif_tag_inv :: "busif \<Rightarrow> bool" where
  "busif_tag_inv s \<longleftrightarrow> (b_tag_wr s \<longleftrightarrow> busif_first s \<or> busif_second s)
     \<and> (busif_first s \<or> busif_second s \<or> b_loc s = B_inv_req \<or> b_loc s = B_tag_req \<longrightarrow> b_req_tagw s)
     \<and> (b_req_tagr s \<longleftrightarrow> b_loc s = B_tagr \<or> b_loc s = B_tag_read)
     \<and> (b_tag_rd s \<longleftrightarrow> b_loc s = B_tagr \<or> b_loc s = B_tag_read)
     \<and> way (b_tag_reg s) = 0 \<and> way (b_tag_out s) = 0"

lemmas busif_defs = busif_top_def busif_idle_def AcceptNewOp_def busif_operate_def busif_cache_op_def busif_tag_request_def
  busif_dread_end_def busif_dwrite_end_def busif_fill_def busif_victim_def busif_victim_iter_def busif_new_line_def busif_inv_go_def
  busif_new_tag_def busif_tag_go_def busif_bank_iter_def busif_banks_done_def busif_wb_def busif_complete_def Let_def

text \<open>A thread that has no business with the tag RAM, and one that is at the end of an activation.\<close>

definition tag_free :: "busif \<Rightarrow> bool" where
  "tag_free t \<longleftrightarrow> \<not> b_tag_wr t \<and> \<not> b_tag_rd t \<and> \<not> b_req_tagr t \<and> way (b_tag_reg t) = 0 \<and> way (b_tag_out t) = 0"

definition tag_end :: "busif_in \<Rightarrow> busif \<Rightarrow> bool" where
  "tag_end i t \<longleftrightarrow> busif_tag_inv t \<and> \<not> busif_second t \<and> (busif_first t \<longrightarrow> b_gnt_tagw i)"

lemmas tag_end_defs = tag_end_def tag_free_def busif_tag_inv_def busif_first_def busif_second_def

lemma tag_end_parts:
  "tag_free t \<Longrightarrow> tag_end i (busif_fill n t)" "tag_free t \<Longrightarrow> tag_end i (busif_wb s n t)" "tag_free t \<Longrightarrow> tag_end i (busif_complete t)"
  "tag_free t \<Longrightarrow> tag_end i (busif_bank_iter t)" "tag_free t \<Longrightarrow> tag_end i (busif_victim_iter i t)"
  "tag_free t \<Longrightarrow> tag_end i (busif_dwrite_end t)" "tag_free t \<Longrightarrow> tag_end i (busif_dread_end i s t)"
  "tag_free t \<Longrightarrow> tag_end i (busif_tag_request i t)" "tag_free t \<Longrightarrow> tag_end i (AcceptNewOp i (t\<lparr>b_loc := B_idle\<rparr>))"
  by (simp_all add: tag_end_defs busif_defs)

lemma tag_end_new_tag: "tag_free t \<Longrightarrow> way (b_tag_reg s) = 0 \<Longrightarrow> tag_end i (busif_new_tag i s t)"
  by (cases "b_gnt_tagw i") (simp_all add: tag_end_defs busif_new_tag_def busif_tag_go_def Let_def)

lemma tag_end_new_line: "tag_free t \<Longrightarrow> way (b_tag_reg s) = 0 \<Longrightarrow> tag_end i (busif_new_line i s t)"
  using tag_end_new_tag by (simp add: busif_new_line_def) (simp add: tag_end_defs busif_inv_go_def)

lemma tag_end_victim:
  assumes "tag_free t" "way (b_tag_reg s) = 0"
  shows "tag_end i (busif_victim i s t)"
proof -
  have "tag_free (t\<lparr>b_tag_out := b_tag_reg s, b_banksLeft := B\<rparr>)" for B using assms by (simp add: tag_free_def)
  then show ?thesis using tag_end_parts(5) tag_end_new_line [OF assms] by (simp add: busif_victim_def)
qed

lemma tag_end_cache_op: "tag_free t \<Longrightarrow> tag_end i (busif_cache_op i s t)"
  using tag_end_parts(8) by (simp add: busif_cache_op_def Let_def tag_free_def) (simp add: tag_end_defs)

lemma tag_end_operate: "tag_free t \<Longrightarrow> tag_end i (busif_operate i s t)"
  using tag_end_parts(6,7) tag_end_cache_op by (simp add: busif_operate_def Let_def tag_free_def) (simp add: tag_end_defs)

lemma tag_end_idle: "tag_free t \<Longrightarrow> tag_end i (busif_idle i s t)"
  using tag_end_parts(9) tag_end_operate by (simp add: busif_idle_def)

lemma tag_end_top: "tag_free (t\<lparr>b_tag_rd := False, b_tag_wr := False\<rparr>) \<Longrightarrow> tag_end i (busif_top i s t)"
  unfolding busif_top_def by (rule tag_end_idle) (simp add: tag_free_def)

lemma tag_free_inv: "busif_tag_inv s \<Longrightarrow> b_loc s \<notin> {B_inv_1, B_inv_2, B_tag_1, B_tag_2, B_tagr, B_tag_read} \<Longrightarrow> tag_free s"
  by (auto simp: busif_tag_inv_def tag_free_def busif_first_def busif_second_def)

lemma tag_free_more:
  "tag_free s \<Longrightarrow> tag_free (s\<lparr>b_wb_cyc := c\<rparr>)" "tag_free s \<Longrightarrow> tag_free (s\<lparr>b_req_linelock := c\<rparr>)" "tag_free s \<Longrightarrow> tag_free (s\<lparr>b_tag_rd := False, b_tag_wr := False\<rparr>)"
  by (simp_all add: tag_free_def)

lemma busif_tag_wake:
  assumes "busif_tag_inv s" "way (b_tag_in i) = 0"
  shows "busif_first s \<and> busif_tag_inv (busif_wake i s) \<and> busif_second (busif_wake i s) \<and> \<not> busif_first (busif_wake i s)
     \<or> \<not> busif_first s \<and> tag_end i (busif_wake i s)"
proof -
  have w: "way (b_tag_reg s) = 0" using assms(1) by (simp add: busif_tag_inv_def)
  note free = tag_free_inv [OF assms(1)]
  note parts = tag_end_parts tag_end_new_tag tag_end_new_line tag_end_victim tag_end_operate tag_end_idle tag_end_top w
  note defs = busif_wake_def busif_first_def
  show ?thesis
  proof (cases "b_loc s")
    case B_inv_1 with assms show ?thesis by (auto simp: defs busif_second_def busif_tag_inv_def)
  next
    case B_tag_1 with assms show ?thesis by (auto simp: defs busif_second_def busif_tag_inv_def)
  next
    case B_inv_2
    then have "tag_free (s\<lparr>b_tag_wr := False, b_req_tagw := False, b_banksLeft := B\<rparr>)" for B
      using assms by (simp add: tag_end_defs)
    with B_inv_2 show ?thesis by (simp add: defs tag_end_parts)
  next
    case B_tag_2
    then have "tag_free (s\<lparr>b_tag_wr := False, b_req_tagw := False\<rparr>)" using assms by (simp add: tag_end_defs)
    with B_tag_2 show ?thesis using tag_end_parts(3) by (simp add: defs Let_def) (simp add: tag_end_defs)
  next
    case B_tagr with assms show ?thesis by (simp add: defs tag_end_defs)
  next
    case B_tag_read with assms show ?thesis by (simp add: defs tag_end_defs)
  next
    case (B_fill n)
    then have "tag_free s" by (simp add: free)
    then have "tag_free (s\<lparr>b_idata_reg := a, b_idata_valid := b, b_adr_reg := c, b_wb_stb := d, b_adrOfs := e\<rparr>)"
      "tag_free (s\<lparr>b_idata_reg := a, b_idata_valid := b, b_adr_reg := c, b_wb_stb := d, b_adrOfs := e, b_wb_cyc := f\<rparr>)" for a b c d e f
      by (simp_all add: tag_free_def)
    with B_fill show ?thesis using assms parts by (simp add: defs Let_def) (simp add: tag_end_defs)
  next
    case B_victim
    then have "tag_free s" by (simp add: free)
    then have "tag_free (s\<lparr>b_odata_reg := a\<rparr>)" "tag_free (s\<lparr>b_odata_reg := a, b_req_bank := b, b_bank_rd := c, b_write_victim := d\<rparr>)" for a b c d
      by (simp_all add: tag_free_def)
    with B_victim show ?thesis by (simp add: defs Let_def parts)
  next
    case B_bank_write
    then have "tag_free s" by (simp add: free)
    then have "tag_free (s\<lparr>b_banksLeft := a\<rparr>)" "tag_free (busif_banks_done (s\<lparr>b_banksLeft := a\<rparr>))" for a
      by (simp_all add: tag_free_def busif_banks_done_def)
    with B_bank_write show ?thesis by (simp add: defs Let_def parts)
  next
    case (B_wb n)
    then have "tag_free s" by (simp add: free)
    then have "tag_free (s\<lparr>b_wb_stb := a\<rparr>)" "tag_free (s\<lparr>b_wb_stb := a, b_wb_cyc := b, b_wb_we := c\<rparr>)" "tag_free s" for a b c
      by (simp_all add: tag_free_def)
    with B_wb show ?thesis using assms parts by (simp add: defs Let_def) (simp add: tag_end_defs)
  next
    case B_wb_start
    then have "tag_free (s\<lparr>b_wb_cyc := a, b_wb_we := b\<rparr>)" for a b using free by (simp add: tag_free_def)
    with B_wb_start show ?thesis by (simp add: defs parts)
  next
    case B_done
    then have "tag_free s" by (simp add: free)
    with B_done show ?thesis using tag_end_top [of "if b_nolinelock_reg s then s else s\<lparr>b_req_linelock := False\<rparr>" i s]
      by (simp add: defs tag_free_more split: if_splits)
  next
    case B_reset
    then have "tag_free s" by (simp add: free)
    with B_reset show ?thesis by (simp add: defs parts tag_free_more)
  next
    case B_dread_end
    then have "tag_free s" by (simp add: free)
    with B_dread_end show ?thesis by (simp add: defs parts tag_free_more)
  next
    case B_dwrite_end
    then have "tag_free s" by (simp add: free)
    with B_dwrite_end show ?thesis by (simp add: defs parts tag_free_more)
  next
    case B_tag_have
    then have "tag_free s" by (simp add: free)
    with B_tag_have show ?thesis by (simp add: defs parts tag_free_more)
  next
    case B_idle
    then have "tag_free s" by (simp add: free)
    with B_idle show ?thesis by (simp add: defs parts)
  next
    case B_dread_ack
    then have "tag_free s" by (simp add: free)
    with B_dread_ack show ?thesis using assms by (simp add: defs parts) (simp add: tag_end_defs)
  next
    case B_dwrite_ack
    then have "tag_free s" by (simp add: free)
    with B_dwrite_ack show ?thesis using assms by (simp add: defs parts) (simp add: tag_end_defs)
  next
    case B_dread_valid with assms show ?thesis by (simp add: defs tag_end_defs)
  next
    case B_linelock
    then have "tag_free s" by (simp add: free)
    with B_linelock show ?thesis using assms by (simp add: defs parts) (simp add: tag_end_defs)
  next
    case B_inv_req with assms show ?thesis by (simp add: defs tag_end_defs busif_inv_go_def)
  next
    case B_tag_req with assms show ?thesis by (simp add: defs tag_end_defs busif_tag_go_def)
  qed
qed

section \<open>What holds in every state\<close>

definition tag_arb_ok :: "arb \<Rightarrow> bool" where
  "tag_arb_ok a \<longleftrightarrow> one_per_side 0 (tagr_reg a) \<and> at_most_one 3 (tagw_reg a) \<and> (any_bit 3 (tagw_reg a) \<longrightarrow> \<not> any_bit 7 (tagr_reg a))"

text \<open>Who is in the second clock of a write: write port 0, 1, bus interface.\<close>

definition memu_second :: "memu \<Rightarrow> nat \<Rightarrow> bool" where
  "memu_second s n \<longleftrightarrow> (if n < 2 then wp_second (m_wp s n) else n = 2 \<and> busif_second (m_busif s))"

definition memu_first :: "memu \<Rightarrow> nat \<Rightarrow> bool" where
  "memu_first s n \<longleftrightarrow> (if n < 2 then wp_first (m_wp s n) else n = 2 \<and> busif_first (m_busif s))"

definition tag_holders :: "memu \<Rightarrow> bool" where
  "tag_holders s \<longleftrightarrow> (\<forall>n < 3. memu_second s n \<or> n = 2 \<and> busif_first (m_busif s) \<longrightarrow> tagw_reg (m_arb s) n)"

definition tagram_inv :: "tagram \<Rightarrow> arb \<Rightarrow> bool" where
  "tagram_inv t a \<longleftrightarrow> tag_ok 1 t \<and> (tr_loc t \<noteq> TR_init \<longrightarrow> tr_ready t) \<and> (\<not> tr_ready t \<longrightarrow> (\<forall>n. \<not> tagr_reg a n \<and> \<not> tagw_reg a n))"

definition ways_zero :: "memu \<Rightarrow> bool" where
  "ways_zero s \<longleftrightarrow> (\<forall>n < 2. way (tr_tag_out (m_tagram s) n) = 0 \<and> way (wp_tag_reg (m_wp s n)) = 0)"

definition memu_inv :: "memu \<Rightarrow> bool" where
  "memu_inv s \<longleftrightarrow> tag_arb_ok (m_arb s) \<and> at_most_one 2 (linelock_reg (m_arb s)) \<and> tagram_inv (m_tagram s) (m_arb s)
     \<and> (tr_loc (m_tagram s) = TR_write \<longleftrightarrow> (\<exists>n < 3. memu_second s n)) \<and> tag_holders s \<and> busif_tag_inv (m_busif s) \<and> ways_zero s"

section \<open>Grants for the tag RAM\<close>

lemma tag_req_linked:
  fixes x :: memu_in and s :: memu and G :: grants
  defines "i \<equiv> memu_arb_in x s G"
  shows "n < 2 \<Longrightarrow> tagw_req i n \<longleftrightarrow> \<not> mi_reset x \<and> (wp_first (m_wp s n) \<or> wp_second (m_wp s n))" "tagw_req i 2 = b_req_tagw (m_busif s)"
    "n < 4 \<Longrightarrow> tagr_req i n = r_req_tagr (memu_ro x s G n)" "n < 2 \<Longrightarrow> tagr_req i (4 + n) = w_req_tagr (memu_wo x s G n)"
    "tagr_req i 6 = b_req_tagr (m_busif s)" "a_tagram_ready i = tr_ready (m_tagram s)"
  by (simp_all add: i_def memu_arb_in_def tagw_req_def tagr_req_def memu_wo_def wp_req_tagw' memu_wp_in_def Let_def)

lemma memu_tag_grants:
  fixes x :: memu_in and s :: memu
  assumes "tag_arb_ok (m_arb s)" "tagram_inv (m_tagram s) (m_arb s)"
  defines "G \<equiv> memu_settle x s"
  defines "i \<equiv> memu_arb_in x s G"
  shows "tagr_good i (m_arb s) (g_tagr G)" "tagw_good i (m_arb s) (g_tagw G)" "any_bit 3 (g_tagw G) \<longrightarrow> \<not> any_bit 7 (g_tagr G)"
    and "g_tagr G n \<or> g_tagw G n \<Longrightarrow> tr_ready (m_tagram s)"
proof -
  note g = settled_grants [of x s, folded G_def, folded i_def]
  have r: "a_tagram_ready i = tr_ready (m_tagram s)" by (simp add: i_def tag_req_linked)
  show "g_tagr G n \<or> g_tagw G n \<Longrightarrow> tr_ready (m_tagram s)" using r by (auto simp: g TagMethod_def split: if_splits)
  have none: "\<not> tr_ready (m_tagram s) \<Longrightarrow> g_tagr G = (\<lambda>_. False) \<and> g_tagw G = (\<lambda>_. False)" using r by (simp add: g TagMethod_def)
  have regs: "\<not> tr_ready (m_tagram s) \<Longrightarrow> \<not> tagr_reg (m_arb s) n \<and> \<not> tagw_reg (m_arb s) n" for n
    using assms(2) by (simp add: tagram_inv_def)
  note T = Tag_good [of "m_arb s" i, folded g, unfolded r]
  show "tagr_good i (m_arb s) (g_tagr G)" using T(1) assms(1) none regs
    by (cases "tr_ready (m_tagram s)") (auto simp: tag_arb_ok_def tagr_good_def one_per_side_0 within_def)
  show "tagw_good i (m_arb s) (g_tagw G)" using T(2) assms(1) none regs
    by (cases "tr_ready (m_tagram s)") (auto simp: tag_arb_ok_def tagw_good_def at_most_one_def within_def)
  show "any_bit 3 (g_tagw G) \<longrightarrow> \<not> any_bit 7 (g_tagr G)" using T(3) assms(1) none
    by (cases "tr_ready (m_tagram s)") (auto simp: tag_arb_ok_def any_bit_simps)
qed

text \<open>The requester of a write keeps what it has.\<close>

lemma memu_tag_kept:
  assumes "memu_inv s" "\<not> mi_reset x" "n < 3" "memu_second s n \<or> n = 2 \<and> busif_first (m_busif s)"
  shows "g_tagw (memu_settle x s) n"
proof -
  let ?i = "memu_arb_in x s (memu_settle x s)"
  note I = assms(1) [unfolded memu_inv_def]
  have "tagw_reg (m_arb s) n" using I assms(3,4) unfolding tag_holders_def by blast
  moreover have "tagw_req ?i n"
  proof (cases "n < 2")
    case True
    then have "wp_second (m_wp s n)" using assms(4) by (simp add: memu_second_def)
    with True assms(2) show ?thesis by (simp add: tag_req_linked)
  next
    case False
    then have n: "n = 2" using assms(3) by simp
    then have "busif_first (m_busif s) \<or> busif_second (m_busif s)" using assms(4) by (auto simp: memu_second_def)
    then have "b_req_tagw (m_busif s)" using I unfolding busif_tag_inv_def by blast
    with n show ?thesis by (simp add: tag_req_linked)
  qed
  ultimately show ?thesis
    using memu_tag_grants(2) [of s x] I unfolding tagw_good_def within_def by blast
qed

text \<open>Who writes in a clock holds the grant; who has the grant and is in the first clock begins the write.\<close>

lemma memu_wo_tag_wr: "\<not> mi_reset x \<Longrightarrow>
    w_tag_wr (memu_wo x s G n) \<longleftrightarrow> wp_first (m_wp s n) \<and> g_tagw G n \<or> wp_state (m_wp s n) = s_wp_write_tag2"
  by (simp add: memu_wo_def wp_tag_wr memu_wp_in_def)

lemma tagram_in_wr: "tr_wr (memu_tagram_in x s G) n \<longleftrightarrow> n = 1 \<and> b_tag_wr (m_busif s) \<or> w_tag_wr (memu_wo x s G n)"
  by (auto simp: memu_tagram_in_def Let_def)

definition memu_begins :: "memu \<Rightarrow> grants \<Rightarrow> nat \<Rightarrow> bool" where
  "memu_begins s G n \<longleftrightarrow> g_tagw G n \<and> memu_first s n"

lemma memu_writers:
  assumes "memu_inv s" "\<not> mi_reset x" "n < 2" "tr_wr (memu_tagram_in x s (memu_settle x s)) n"
  shows "g_tagw (memu_settle x s) n \<or> n = 1 \<and> g_tagw (memu_settle x s) 2"
proof -
  let ?G = "memu_settle x s"
  consider "n = 1" "b_tag_wr (m_busif s)" | "g_tagw ?G n" | "wp_second (m_wp s n)"
    using assms(4) unfolding tagram_in_wr memu_wo_tag_wr [OF assms(2)] wp_second_def by blast
  then show ?thesis
  proof cases
    case 1
    then have "busif_first (m_busif s) \<or> busif_second (m_busif s)" using assms(1) unfolding memu_inv_def busif_tag_inv_def by blast
    then have "g_tagw ?G 2" by (intro memu_tag_kept [OF assms(1,2)]) (auto simp: memu_second_def)
    with 1 show ?thesis by simp
  next
    case 3
    then have "g_tagw ?G n" using assms(3) by (intro memu_tag_kept [OF assms(1,2)]) (simp_all add: memu_second_def)
    then show ?thesis ..
  qed simp
qed

section \<open>A clock keeps it\<close>

lemma LineLock_one:
  assumes "at_most_one 2 (linelock_reg s)"
  shows "at_most_one 2 (LineLockMethod i s)"
proof -
  have choose: "at_most_one 2 (linelock_choose i k g)" if "at_most_one 2 g" "k < 2" for k g
    using that by (simp add: linelock_choose_def at_most_one_first)
  have fold: "at_most_one 2 (fold (\<lambda>n. linelock_choose i ((n + GetPrioCpu s) mod 2)) [0..<2] g)" if "at_most_one 2 g" for g
    by (rule fold_keeps [where P = "at_most_one 2"]) (auto intro: that choose)
  show ?thesis unfolding LineLockMethod_def Let_def using assms by (intro fold) (auto simp: at_most_one_def)
qed

lemma memu_tag_way:
  assumes "ways_zero s" "busif_tag_inv (m_busif s)" "n < 2"
  shows "way (tr_tag_in (memu_tagram_in x s G) n) = 0" "way (wp_tag_reg (wp_transition (memu_wp_in x s G n) (m_wp s n))) = 0"
proof -
  have w: "way (w_tag_in (memu_wp_in x s G n)) = 0" "way (wp_tag_reg (m_wp s n)) = 0" "way (b_tag_out (m_busif s)) = 0"
    using assms by (simp_all add: ways_zero_def busif_tag_inv_def memu_wp_in_def)
  then show "way (tr_tag_in (memu_tagram_in x s G) n) = 0" by (simp add: memu_tagram_in_def memu_wo_def wp_way_next Let_def)
  show "way (wp_tag_reg (wp_transition (memu_wp_in x s G n) (m_wp s n))) = 0" using w by (simp add: wp_way_next)
qed

lemma memu_one_tagw:
  assumes "memu_inv s" "m < 3" "n < 3" "g_tagw (memu_settle x s) m" "g_tagw (memu_settle x s) n"
  shows "m = n"
proof -
  note I = assms(1) [unfolded memu_inv_def]
  have "tagw_good (memu_arb_in x s (memu_settle x s)) (m_arb s) (g_tagw (memu_settle x s))" using I by (intro memu_tag_grants(2)) blast+
  then show ?thesis using assms(2-5) unfolding tagw_good_def at_most_one_def by blast
qed

lemma memu_tag_legal:
  assumes "memu_inv s" "\<not> mi_reset x"
  shows "tag_legal 1 (memu_tagram_in x s (memu_settle x s)) (m_tagram s)"
proof -
  let ?I = "memu_tagram_in x s (memu_settle x s)"
  have "\<not> (tr_wr ?I 0 \<and> tr_wr ?I 1)"
  proof
    assume "tr_wr ?I 0 \<and> tr_wr ?I 1"
    then have g0: "g_tagw (memu_settle x s) 0" and g12: "g_tagw (memu_settle x s) 1 \<or> g_tagw (memu_settle x s) 2"
      using memu_writers [OF assms, of 0] memu_writers [OF assms, of 1] by simp_all
    show False using memu_one_tagw [OF assms(1) _ _ g0, of 1] memu_one_tagw [OF assms(1) _ _ g0, of 2] g12 by auto
  qed
  moreover have "way (tr_tag_in ?I n) = 0" if "n < 2" for n
    using assms(1) that unfolding memu_inv_def by (intro memu_tag_way) blast+
  ultimately show ?thesis by (simp add: tag_legal_def)
qed

lemma memu_second_next:
  assumes "memu_inv s" "\<not> mi_reset x" "n < 3"
  shows "memu_second (memu_step x s) n \<longleftrightarrow> memu_begins s (memu_settle x s) n"
proof (cases "n < 2")
  case True
  with assms(2) show ?thesis
    by (simp add: memu_second_def memu_begins_def memu_first_def memu_step_def wp_second_next memu_wp_in_def Let_def conj_commute)
next
  case False
  then have n: "n = 2" using assms(3) by simp
  let ?G = "memu_settle x s"
  let ?i = "memu_busif_in x s ?G"
  have "busif_tag_inv (m_busif s)" "way (b_tag_in ?i) = 0" using assms(1) by (simp_all add: memu_inv_def busif_in_fields ways_zero_def)
  then have "busif_second (busif_wake ?i (m_busif s)) \<longleftrightarrow> busif_first (m_busif s)" using busif_tag_wake unfolding tag_end_def by blast
  moreover have "busif_first (m_busif s) \<Longrightarrow> g_tagw ?G 2" using memu_tag_kept [OF assms(1,2), of 2] by simp
  ultimately show ?thesis using n assms(2)
    by (auto simp: memu_second_def memu_begins_def memu_first_def memu_step_def busif_step_def Let_def)
qed

text \<open>The port of the tag RAM that writes, when the tag RAM looks at its ports.\<close>

definition begin_port :: "memu \<Rightarrow> grants \<Rightarrow> nat option" where
  "begin_port s G = (if memu_begins s G 0 then Some 0 else if memu_begins s G 1 \<or> memu_begins s G 2 then Some 1 else None)"

lemma memu_begin_port:
  assumes "memu_inv s" "\<not> mi_reset x" "tr_loc (m_tagram s) \<noteq> TR_write"
  shows "tag_writer (memu_tagram_in x s (memu_settle x s)) = begin_port s (memu_settle x s)"
proof -
  let ?G = "memu_settle x s"
  note I = assms(1) [unfolded memu_inv_def]
  have no: "\<not> memu_second s n" if "n < 3" for n using I assms(3) that by blast
  have wp: "w_tag_wr (memu_wo x s ?G n) \<longleftrightarrow> memu_begins s ?G n" if "n < 2" for n
    using that no [of n] unfolding memu_wo_tag_wr [OF assms(2)] memu_begins_def memu_first_def memu_second_def wp_second_def by auto
  have "b_tag_wr (m_busif s) \<longleftrightarrow> busif_first (m_busif s)" using I no [of 2] unfolding busif_tag_inv_def memu_second_def by auto
  moreover have "busif_first (m_busif s) \<longleftrightarrow> memu_begins s ?G 2"
    using memu_tag_kept [OF assms(1,2), of 2] by (auto simp: memu_begins_def memu_first_def)
  ultimately show ?thesis using wp [of 0] wp [of 1] by (auto simp: tag_writer_def begin_port_def tagram_in_wr)
qed

lemma tag_answer_way: "tag_ok 1 t \<Longrightarrow> way (tag_answer 1 t a) = 0"
  by (auto simp: tag_answer_def tag_lookup_def Let_def split: option.splits dest: find_way_Some)

text \<open>What a clock does to the tag RAM.\<close>

lemma tag_ok_ready: "tag_ok ways (t\<lparr>tr_ready := b\<rparr>) = tag_ok ways t"
  by (simp add: tag_ok_def)

lemma tag_legal_ready: "tag_legal ways i (t\<lparr>tr_ready := b\<rparr>) = tag_legal ways i t"
  by (simp add: tag_legal_def)

lemma tagram_write_ready: "tr_ready (tagram_write ways i s0 s) = tr_ready s"
  by (cases "filter (tr_wr i) [0..<2]"; cases "filter (tr_use_wr_reg s0) [0..<2]")
    (simp_all add: tagram_write_def Let_def split: option.split)

lemma tagram_loop_ready: "tr_ready (tagram_loop ways i s) = tr_ready s"
  by (simp add: tagram_loop_def tagram_write_ready fold_upt_2)

lemma tagram_clock:
  assumes "tag_ok 1 t" "tag_legal 1 i t" "tr_loc t \<noteq> TR_write"
  shows "tag_ok 1 (tagram_step 1 i t)"
    and "p < 2 \<Longrightarrow> tr_tag_out (tagram_step 1 i t) p = (if tr_rd i p then tag_answer 1 t (tr_adr i p) else tr_tag_out t p)"
    and "tag_lookup 1 (tagram_step 1 i t) =
       (case tag_writer i of None \<Rightarrow> tag_lookup 1 t | Some p \<Rightarrow> lookup_write (tr_adr i p) (tr_tag_in i p) (tag_lookup 1 t))"
    and "tr_loc (tagram_step 1 i t) = (if tag_writer i = None then TR_main else TR_write)"
    and "tr_ready (tagram_step 1 i t) \<longleftrightarrow> tr_ready t \<or> tr_loc t = TR_init"
proof -
  define u where "u = (if tr_loc t = TR_init then t\<lparr>tr_ready := True\<rparr> else t)"
  have s: "tagram_step 1 i t = tagram_loop 1 i u" using assms(3) by (cases "tr_loc t") (simp_all add: tagram_step_def u_def)
  have u: "tag_ok 1 u" "tag_legal 1 i u" "tag_answer 1 u = tag_answer 1 t" "tag_lookup 1 u = tag_lookup 1 t" "tr_tag_out u = tr_tag_out t"
    using assms(1,2) by (simp_all add: u_def tag_ok_ready tag_legal_ready tag_answer_cong [of "t\<lparr>tr_ready := True\<rparr>" t]
        tag_lookup_cong [of "t\<lparr>tr_ready := True\<rparr>" t])
  note L = tagram_loop_ok [OF u(1,2), unfolded u, folded s]
  show "tag_ok 1 (tagram_step 1 i t)" by (rule L(1))
  show "p < 2 \<Longrightarrow> tr_tag_out (tagram_step 1 i t) p = (if tr_rd i p then tag_answer 1 t (tr_adr i p) else tr_tag_out t p)" using L(2) by blast
  show "tag_lookup 1 (tagram_step 1 i t) =
       (case tag_writer i of None \<Rightarrow> tag_lookup 1 t | Some p \<Rightarrow> lookup_write (tr_adr i p) (tr_tag_in i p) (tag_lookup 1 t))" by (rule L(3))
  show "tr_loc (tagram_step 1 i t) = (if tag_writer i = None then TR_main else TR_write)" by (rule L(4))
  show "tr_ready (tagram_step 1 i t) \<longleftrightarrow> tr_ready t \<or> tr_loc t = TR_init" unfolding s tagram_loop_ready by (auto simp: u_def)
qed

lemma tagram_second_clock: "tr_loc t = TR_write \<Longrightarrow> tagram_step ways i t = t\<lparr>tr_loc := TR_main\<rparr>"
  by (simp add: tagram_step_def)

lemma memu_step_tagram: "m_tagram (memu_step x s) = tagram_step 1 (memu_tagram_in x s (memu_settle x s)) (m_tagram s)"
  by (simp add: memu_step_def Let_def)

lemma memu_step_arb:
  assumes "\<not> mi_reset x"
  shows "tagr_reg (m_arb (memu_step x s)) = g_tagr (memu_settle x s)" "tagw_reg (m_arb (memu_step x s)) = g_tagw (memu_settle x s)"
    "linelock_reg (m_arb (memu_step x s)) = g_linelock (memu_settle x s)" "busif_reg (m_arb (memu_step x s)) = g_busif (memu_settle x s)"
  using assms by (simp_all add: memu_step_def arb_next settled_grants Let_def)

lemma memu_tagram_next:
  assumes "memu_inv s" "\<not> mi_reset x"
  shows "tagram_inv (m_tagram (memu_step x s)) (m_arb (memu_step x s))"
    and "tr_loc (m_tagram (memu_step x s)) = TR_write \<longleftrightarrow> (\<exists>n < 3. memu_second (memu_step x s) n)"
    and "p < 2 \<Longrightarrow> way (tr_tag_out (m_tagram (memu_step x s)) p) = 0"
proof -
  let ?G = "memu_settle x s" and ?t = "m_tagram s"
  let ?I = "memu_tagram_in x s ?G"
  note I = assms(1) [unfolded memu_inv_def]
  have T: "tag_ok 1 ?t" "tr_loc ?t \<noteq> TR_init \<Longrightarrow> tr_ready ?t" using I by (auto simp: tagram_inv_def)
  have w: "way (tr_tag_out ?t p) = 0" if "p < 2" for p using I that by (simp add: ways_zero_def)
  note legal = memu_tag_legal [OF assms]
  have grant: "g_tagr ?G n \<or> g_tagw ?G n \<Longrightarrow> tr_ready ?t" for n using I by (intro memu_tag_grants(4)) blast+
  have P: "tag_ok 1 (tagram_step 1 ?I ?t) \<and> (tr_ready (tagram_step 1 ?I ?t)) \<and> (\<forall>p < 2. way (tr_tag_out (tagram_step 1 ?I ?t) p) = 0)"
  proof (cases "tr_loc ?t = TR_write")
    case True
    then show ?thesis using T w unfolding tagram_second_clock [OF True] by (simp add: tag_ok_def)
  next
    case False
    then show ?thesis using T(2) w tagram_clock(1,2,5) [OF T(1) legal False] tag_answer_way [OF T(1)] by metis
  qed
  then show "tagram_inv (m_tagram (memu_step x s)) (m_arb (memu_step x s))" by (simp add: tagram_inv_def memu_step_tagram)
  show "p < 2 \<Longrightarrow> way (tr_tag_out (m_tagram (memu_step x s)) p) = 0" using P by (simp add: memu_step_tagram)
  have second: "(\<exists>n < 3. memu_second (memu_step x s) n) \<longleftrightarrow> (\<exists>n < 3. memu_begins s ?G n)" using memu_second_next [OF assms] by blast
  show "tr_loc (m_tagram (memu_step x s)) = TR_write \<longleftrightarrow> (\<exists>n < 3. memu_second (memu_step x s) n)"
  proof (cases "tr_loc ?t = TR_write")
    case True
    then obtain h where h: "h < 3" "memu_second s h" using I by blast
    have "\<not> memu_begins s ?G n" if "n < 3" for n
    proof
      assume b: "memu_begins s ?G n"
      then have "n = h" using memu_one_tagw [OF assms(1) that h(1), of x] memu_tag_kept [OF assms h(1)] h(2) by (simp add: memu_begins_def)
      with b h(2) show False by (auto simp: memu_begins_def memu_first_def memu_second_def wp_first_def wp_second_def
        busif_first_def busif_second_def split: if_splits)
    qed
    then show ?thesis using True unfolding second by (simp add: memu_step_tagram tagram_second_clock)
  next
    case False
    have "begin_port s ?G \<noteq> None \<longleftrightarrow> (\<exists>n < 3. memu_begins s ?G n)"
      by (simp add: begin_port_def eval_nat_numeral Ex_less_Suc)
    then show ?thesis unfolding second memu_step_tagram using tagram_clock(4) [OF T(1) legal False] memu_begin_port [OF assms False]
      by (metis tagram_loc.distinct(5))
  qed
qed

lemma memu_inv_step:
  assumes "memu_inv s" "\<not> mi_reset x"
  shows "memu_inv (memu_step x s)"
proof -
  let ?G = "memu_settle x s"
  let ?i = "memu_busif_in x s ?G"
  note I = assms(1) [unfolded memu_inv_def]
  have ok: "tag_arb_ok (m_arb s)" "tagram_inv (m_tagram s) (m_arb s)" using I by blast+
  have W: "busif_tag_inv (m_busif s)" "way (b_tag_in ?i) = 0" using I by (simp_all add: busif_in_fields ways_zero_def)
  have B: "m_busif (memu_step x s) = busif_wake ?i (m_busif s)" using assms(2) by (simp add: memu_step_def busif_step_def Let_def)
  have wake: "busif_tag_inv (m_busif (memu_step x s))" "busif_first (m_busif (memu_step x s)) \<Longrightarrow> g_tagw ?G 2"
    using busif_tag_wake [OF W] unfolding B tag_end_def busif_in_fields by blast+
  have "tag_arb_ok (m_arb (memu_step x s))"
    using memu_tag_grants [OF ok, of x] unfolding tag_arb_ok_def memu_step_arb [OF assms(2)] tagr_good_def tagw_good_def by blast
  moreover have "at_most_one 2 (linelock_reg (m_arb (memu_step x s)))"
    using I unfolding memu_step_arb [OF assms(2)] settled_grants by (intro LineLock_one) blast
  moreover have "tag_holders (memu_step x s)" unfolding tag_holders_def memu_step_arb [OF assms(2)]
    using memu_second_next [OF assms] wake(2) unfolding memu_begins_def by blast
  moreover have "ways_zero (memu_step x s)" unfolding ways_zero_def
  proof (intro allI impI conjI)
    fix n :: nat assume n: "n < 2"
    then show "way (tr_tag_out (m_tagram (memu_step x s)) n) = 0" by (rule memu_tagram_next(3) [OF assms])
    show "way (wp_tag_reg (m_wp (memu_step x s) n)) = 0" using I memu_tag_way(2) [OF _ _ n] by (simp add: memu_step_def Let_def)
  qed
  ultimately show ?thesis using memu_tagram_next(1,2) [OF assms] wake(1) unfolding memu_inv_def by blast
qed

section \<open>Runs from power-up\<close>

text \<open>After power-up: signals are 0; what tags and banks hold is arbitrary.\<close>

definition zero_tag :: SCacheTag where
  "zero_tag = \<lparr>valid = False, dirty = False, tadr = 0, way = 0\<rparr>"

definition memu_power_up :: "(u32 \<Rightarrow> STagEntry) \<Rightarrow> (nat \<Rightarrow> u32 \<Rightarrow> u32) \<Rightarrow> memu" where
  "memu_power_up tags words =
     \<lparr>m_tagram = tagram_start CACHE_WAYS \<lparr>tr_loc = TR_init, tr_ready = False, tr_ram = tags, tr_use_reg = (\<lambda>_. 0),
        tr_use_iadr_reg = (\<lambda>_. 0), tr_use_wr_reg = (\<lambda>_. False), tr_tag_out = (\<lambda>_. zero_tag), tr_fail = False\<rparr>,
      m_bank = (\<lambda>b. \<lparr>br_ram = words b, br_rdata = (\<lambda>_. 0)\<rparr>),
      m_busif = \<lparr>b_loc = B_reset, b_wb_cyc = False, b_wb_stb = False, b_wb_we = False, b_wb_sel = 0, b_wb_adr = 0, b_wb_dat_o = 0,
        b_busy = False, b_tag_rd = False, b_tag_wr = False, b_bank_rd = (\<lambda>_. False), b_bank_wr = (\<lambda>_. False), b_tag_out = zero_tag,
        b_req_linelock = False, b_req_tagw = False, b_req_tagr = False, b_req_bank = (\<lambda>_. False), b_op_reg = 0,
        b_nolinelock_reg = False, b_bsel_reg = 0, b_adr_reg = 0, b_idata_reg = (\<lambda>_. 0), b_odata_reg = (\<lambda>_. 0),
        b_idata_valid = (\<lambda>_. False), b_tag_reg = zero_tag, b_banksLeft = (\<lambda>_. False), b_adrBase = 0, b_adrOfs = 0,
        b_write_victim = False\<rparr>,
      m_arb = arb_power_up, m_rp = (\<lambda>_. \<lparr>rp_state = s_rp_init, rp_bank_sel_reg = 0\<rparr>),
      m_wp = (\<lambda>_. \<lparr>wp_state = s_wp_init, wp_tag_reg = zero_tag, wp_data_reg = 0, wp_link_adr_reg = 0, wp_link_valid_reg = False,
                   wp_bank_data_out = 0\<rparr>),
      m_rp_busif_data_reg = 0\<rparr>"

text \<open>While the reset is on, and after it.\<close>

inductive memu_in_reset :: "memu \<Rightarrow> bool" where
  power_up: "memu_in_reset (memu_power_up tags words)"
| reset_clock: "memu_in_reset s \<Longrightarrow> mi_reset x \<Longrightarrow> memu_in_reset (memu_step x s)"

inductive memu_reach :: "memu \<Rightarrow> bool" where
  released: "memu_in_reset s \<Longrightarrow> memu_reach s"
| clock: "memu_reach s \<Longrightarrow> \<not> mi_reset x \<Longrightarrow> memu_reach (memu_step x s)"

text \<open>Nothing goes on.\<close>

definition arb_idle :: "arb \<Rightarrow> bool" where
  "arb_idle a \<longleftrightarrow> (\<forall>n. \<not> linelock_reg a n \<and> \<not> tagr_reg a n \<and> \<not> tagw_reg a n \<and> \<not> busif_reg a n)"

definition memu_idle :: "memu \<Rightarrow> bool" where
  "memu_idle s \<longleftrightarrow> arb_idle (m_arb s) \<and> tagram_inv (m_tagram s) (m_arb s) \<and> tr_loc (m_tagram s) \<noteq> TR_write
     \<and> b_loc (m_busif s) = B_reset \<and> busif_tag_inv (m_busif s) \<and> ways_zero s
     \<and> (\<forall>n. wp_state (m_wp s n) = s_wp_init \<and> rp_state (m_rp s n) = s_rp_init)"

lemma memu_idle_inv: "memu_idle s \<Longrightarrow> memu_inv s"
  by (auto simp: memu_idle_def memu_inv_def arb_idle_def tag_arb_ok_def one_per_side_def at_most_one_def any_bit_def list_ex_iff
    memu_second_def wp_second_def busif_second_def tag_holders_def busif_first_def)

lemma memu_idle_power_up: "memu_idle (memu_power_up tags words)"
proof -
  have "memu_idle (memu_power_up tags words) \<longleftrightarrow> tag_ok 1 (m_tagram (memu_power_up tags words))"
    by (simp add: memu_idle_def memu_power_up_def arb_idle_def arb_power_up_def tagram_inv_def tagram_start_def ways_zero_def zero_tag_def
      busif_tag_inv_def busif_first_def busif_second_def)
  then show ?thesis using tagram_start_ok [of 1] by (simp add: memu_power_up_def)
qed

lemma memu_idle_reset:
  assumes "memu_idle s" "mi_reset x"
  shows "memu_idle (memu_step x s)"
proof -
  let ?I = "memu_tagram_in x s (memu_settle x s)" and ?t = "m_tagram s"
  note I = assms(1) [unfolded memu_idle_def]
  have B: "\<not> b_tag_wr (m_busif s)" "way (b_tag_reg (m_busif s)) = 0" using I by (simp_all add: busif_tag_inv_def busif_first_def busif_second_def)
  have T: "tag_ok 1 ?t" "tr_loc ?t \<noteq> TR_init \<Longrightarrow> tr_ready ?t" "tr_loc ?t \<noteq> TR_write" using I by (auto simp: tagram_inv_def)
  have wr: "\<not> tr_wr ?I n" for n using B assms(2) by (simp add: tagram_in_wr memu_wo_def wp_tag_wr memu_wp_in_def)
  then have legal: "tag_legal 1 ?I ?t" and none: "tag_writer ?I = None" by (simp_all add: tag_legal_def tag_writer_def)
  note C = tagram_clock [OF T(1) legal T(3), unfolded none]
  have way: "way (tr_tag_out (tagram_step 1 ?I ?t) p) = 0" if "p < 2" for p
    using C(2) [OF that] I that tag_answer_way [OF T(1)] by (simp add: ways_zero_def)
  have tagram: "tagram_inv (tagram_step 1 ?I ?t) (m_arb (memu_step x s))" using C(1,5) T(2) by (auto simp: tagram_inv_def)
  have wp: "wp_state (m_wp (memu_step x s) n) = s_wp_init" "rp_state (m_rp (memu_step x s) n) = s_rp_init" for n
    using assms(2) by (simp_all add: memu_step_def memu_wp_in_def memu_rp_in_def wp_defs rp_defs rp_transition_def)
  have wz: "way (wp_tag_reg (m_wp (memu_step x s) n)) = 0" if "n < 2" for n
    using I memu_tag_way(2) [OF _ _ that] by (simp add: memu_step_def Let_def)
  show ?thesis unfolding memu_idle_def
  proof (intro conjI allI)
    show "arb_idle (m_arb (memu_step x s))" using I assms(2) by (simp add: memu_step_def arb_transition_def arb_idle_def Let_def)
    show "tagram_inv (m_tagram (memu_step x s)) (m_arb (memu_step x s))" using tagram by (simp only: memu_step_tagram)
    show "tr_loc (m_tagram (memu_step x s)) \<noteq> TR_write" using C(4) by (simp only: memu_step_tagram) simp
    show "b_loc (m_busif (memu_step x s)) = B_reset" using assms(2) by (simp add: memu_step_def busif_step_def Let_def)
    show "busif_tag_inv (m_busif (memu_step x s))" using I assms(2)
      by (simp add: memu_step_def busif_step_def busif_tag_inv_def busif_first_def busif_second_def Let_def)
    show "ways_zero (memu_step x s)" using way wz by (simp only: ways_zero_def memu_step_tagram) simp
  qed (use wp in simp_all)
qed

lemma memu_in_reset_idle: "memu_in_reset s \<Longrightarrow> memu_idle s"
  by (induction rule: memu_in_reset.induct) (simp_all add: memu_idle_power_up memu_idle_reset)

lemma memu_reach_inv: "memu_reach s \<Longrightarrow> memu_inv s"
  by (induction rule: memu_reach.induct) (simp_all add: memu_in_reset_idle memu_idle_inv memu_inv_step)

section \<open>Properties\<close>

text \<open>C4.  In every state the memory unit can reach after a reset, whatever the processors and the bus do, the assertions of the code hold:
  one writer at most holds the line lock when its address is snooped, never two ports write the tag RAM at once, and the
  tag RAM never meets a way out of range or two ways with the same line.\<close>

theorem memu_assertions_hold:
  assumes "memu_reach s" "\<not> mi_reset x"
  shows "g_snoop (memu_settle x s) \<noteq> None
    \<and> \<not> (tr_wr (memu_tagram_in x s (memu_settle x s)) 0 \<and> tr_wr (memu_tagram_in x s (memu_settle x s)) 1)
    \<and> \<not> tr_fail (m_tagram (memu_step x s))"
proof -
  note inv = memu_reach_inv [OF assms(1)]
  have "at_most_one 2 (linelock_reg (m_arb s))" using inv by (simp add: memu_inv_def)
  then have "g_snoop (memu_settle x s) \<noteq> None" unfolding settled_grants by (intro snoop_defined LineLock_one)
  moreover have "\<not> tr_fail (m_tagram (memu_step x s))"
    using memu_inv_step [OF inv assms(2)] by (simp add: memu_inv_def tagram_inv_def tag_ok_def)
  ultimately show ?thesis using memu_tag_legal [OF inv assms(2)] by (simp add: tag_legal_def)
qed

text \<open>Who is granted a read is answered.\<close>

lemma tagram_in_rd:
  "n < 2 \<Longrightarrow> r_req_tagr (memu_ro x s G n) \<or> r_req_tagr (memu_ro x s G (2 + n)) \<or> w_req_tagr (memu_wo x s G n) \<or> n = 1 \<and> b_tag_rd (m_busif s)
    \<Longrightarrow> tr_rd (memu_tagram_in x s G) n"
  by (auto simp: memu_tagram_in_def memu_ro_def memu_wo_def rp_tag_rd wp_main_def Let_def)

lemma tagram_in_adr:
  assumes "one_per_side 0 gr" "\<forall>n < 3. \<not> gw n" "g_tagr G = gr" "g_tagw G = gw"
  shows "p < 4 \<Longrightarrow> gr p \<Longrightarrow> tr_adr (memu_tagram_in x s G) (p mod 2) = mi_rp_adr x p"
    "p < 2 \<Longrightarrow> gr (4 + p) \<Longrightarrow> tr_adr (memu_tagram_in x s G) p = mi_wp_adr x p"
    "gr 6 \<Longrightarrow> tr_adr (memu_tagram_in x s G) 1 = b_adr_reg (m_busif s)"
proof -
  have gw: "\<not> gw 0" "\<not> gw 1" "\<not> gw 2" using assms(2) by simp_all
  show "tr_adr (memu_tagram_in x s G) (p mod 2) = mi_rp_adr x p" if "p < 4" "gr p"
    using less_4_cases [OF that(1)] that(2) gw assms(1) unfolding one_per_side_0
    by (elim disjE; simp add: memu_tagram_in_def assms(3,4) Let_def)
  show "tr_adr (memu_tagram_in x s G) p = mi_wp_adr x p" if "p < 2" "gr (4 + p)"
    using that gw assms(1) unfolding one_per_side_0 less_2_cases_iff
    by (elim disjE; simp add: memu_tagram_in_def assms(3,4) Let_def)
  show "tr_adr (memu_tagram_in x s G) 1 = b_adr_reg (m_busif s)" if "gr 6"
    using that by (simp add: memu_tagram_in_def assms(3,4) Let_def)
qed

lemma memu_read_main:
  assumes "memu_inv s" "\<not> mi_reset x" "n < 7" "g_tagr (memu_settle x s) n"
  shows "\<forall>m < 3. \<not> g_tagw (memu_settle x s) m" "tr_loc (m_tagram s) \<noteq> TR_write" "tagr_req (memu_arb_in x s (memu_settle x s)) n"
    "one_per_side 0 (g_tagr (memu_settle x s))"
proof -
  note I = assms(1) [unfolded memu_inv_def]
  have ok: "tag_arb_ok (m_arb s)" "tagram_inv (m_tagram s) (m_arb s)" using I by blast+
  note g = memu_tag_grants [OF ok, of x]
  have "any_bit 7 (g_tagr (memu_settle x s))" using assms(3,4) by (auto intro: any_bitI)
  then have "\<not> any_bit 3 (g_tagw (memu_settle x s))" using g(3) by blast
  then show w: "\<forall>m < 3. \<not> g_tagw (memu_settle x s) m" using any_bitI by blast
  show "tr_loc (m_tagram s) \<noteq> TR_write"
  proof
    assume "tr_loc (m_tagram s) = TR_write"
    then obtain h where "h < 3" "memu_second s h" using I by blast
    then show False using w memu_tag_kept [OF assms(1,2)] by blast
  qed
  show "tagr_req (memu_arb_in x s (memu_settle x s)) n" "one_per_side 0 (g_tagr (memu_settle x s))"
    using g(1) assms(4) unfolding tagr_good_def within_def by blast+
qed

lemma memu_tag_read:
  assumes "memu_inv s" "\<not> mi_reset x"
  defines "G \<equiv> memu_settle x s" and "out \<equiv> tr_tag_out (m_tagram (memu_step x s))"
  shows "p < 4 \<Longrightarrow> g_tagr G p \<Longrightarrow> out (p mod 2) = tag_answer 1 (m_tagram s) (mi_rp_adr x p)"
    and "p < 2 \<Longrightarrow> g_tagr G (4 + p) \<Longrightarrow> out p = tag_answer 1 (m_tagram s) (mi_wp_adr x p)"
    and "g_tagr G 6 \<Longrightarrow> out 1 = tag_answer 1 (m_tagram s) (b_adr_reg (m_busif s))"
proof -
  let ?I = "memu_tagram_in x s G"
  have T: "tag_ok 1 (m_tagram s)" using assms(1) by (simp add: memu_inv_def tagram_inv_def)
  note legal = memu_tag_legal [OF assms(1,2), folded G_def]
  have out: "out n = tag_answer 1 (m_tagram s) (tr_adr ?I n)" if "n < 2" "tr_rd ?I n" "tr_loc (m_tagram s) \<noteq> TR_write" for n
    using tagram_clock(2) [OF T legal that(3) that(1)] that(2) by (simp only: out_def memu_step_tagram G_def) simp
  note main = memu_read_main [OF assms(1,2), folded G_def]
  show "out (p mod 2) = tag_answer 1 (m_tagram s) (mi_rp_adr x p)" if p: "p < 4" "g_tagr G p"
  proof -
    have "p < 7" using p by simp
    note m = main [OF this p(2)]
    have "r_req_tagr (memu_ro x s G p)" using m(3) p(1) by (simp add: tag_req_linked)
    moreover have "p = p mod 2 \<or> p = 2 + p mod 2" using p(1) by presburger
    ultimately have "tr_rd ?I (p mod 2)" by (intro tagram_in_rd) (simp, metis)
    then show ?thesis using out [of "p mod 2"] m(2) tagram_in_adr(1) [OF m(4,1) refl refl p] by simp
  qed
  show "out p = tag_answer 1 (m_tagram s) (mi_wp_adr x p)" if p: "p < 2" "g_tagr G (4 + p)"
  proof -
    have "4 + p < 7" using p by simp
    note m = main [OF this p(2)]
    have "w_req_tagr (memu_wo x s G p)" using m(3) p(1) by (simp add: tag_req_linked)
    then have "tr_rd ?I p" using p(1) by (intro tagram_in_rd) auto
    then show ?thesis using out [OF p(1)] m(2) tagram_in_adr(2) [OF m(4,1) refl refl p] by simp
  qed
  show "out 1 = tag_answer 1 (m_tagram s) (b_adr_reg (m_busif s))" if p: "g_tagr G 6"
  proof -
    have "(6 :: nat) < 7" by simp
    note m = main [OF this p]
    have "b_req_tagr (m_busif s)" using m(3) by (simp add: tag_req_linked)
    then have "b_tag_rd (m_busif s)" using assms(1) unfolding memu_inv_def busif_tag_inv_def by blast
    then have "tr_rd ?I 1" by (intro tagram_in_rd) auto
    then show ?thesis using out [of 1] m(2) tagram_in_adr(3) [OF m(4,1) refl refl p] by simp
  qed
qed

text \<open>Who begins a write changes the map, and nobody else does.\<close>

lemma memu_tag_written:
  assumes "memu_inv s" "\<not> mi_reset x"
  defines "G \<equiv> memu_settle x s" and "L \<equiv> tag_lookup 1 (m_tagram s)" and "L' \<equiv> tag_lookup 1 (m_tagram (memu_step x s))"
  shows "p < 2 \<Longrightarrow> memu_begins s G p \<Longrightarrow> L' = lookup_write (mi_wp_adr x p) ((wp_tag_reg (m_wp s p))\<lparr>dirty := True\<rparr>) L"
    and "memu_begins s G 2 \<Longrightarrow> L' = lookup_write (b_adr_reg (m_busif s)) (b_tag_out (m_busif s)) L"
    and "(\<And>n. n < 3 \<Longrightarrow> \<not> memu_begins s G n) \<Longrightarrow> L' = L"
proof -
  let ?I = "memu_tagram_in x s G"
  note I = assms(1) [unfolded memu_inv_def]
  have ok: "tag_arb_ok (m_arb s)" "tagram_inv (m_tagram s) (m_arb s)" using I by blast+
  have T: "tag_ok 1 (m_tagram s)" using I by (simp add: tagram_inv_def)
  note legal = memu_tag_legal [OF assms(1,2), folded G_def]
  have one: "m = n" if "memu_begins s G m" "memu_begins s G n" "m < 3" "n < 3" for m n
    using memu_one_tagw [OF assms(1) that(3,4), of x] that(1,2) by (simp add: memu_begins_def G_def)
  have loc: "tr_loc (m_tagram s) \<noteq> TR_write" if b: "memu_begins s G n" "n < 3" for n
  proof
    assume "tr_loc (m_tagram s) = TR_write"
    then obtain h where h: "h < 3" "memu_second s h" using I by blast
    then have "n = h" using memu_one_tagw [OF assms(1) b(2) h(1), of x] memu_tag_kept [OF assms(1,2) h(1)] b(1)
      by (simp add: memu_begins_def G_def)
    with b h(2) show False by (auto simp: memu_begins_def memu_first_def memu_second_def wp_first_def wp_second_def
        busif_first_def busif_second_def split: if_splits)
  qed
  have L': "L' = (case begin_port s G of None \<Rightarrow> L | Some p \<Rightarrow> lookup_write (tr_adr ?I p) (tr_tag_in ?I p) L)"
    if "tr_loc (m_tagram s) \<noteq> TR_write"
    using tagram_clock(3) [OF T legal that] memu_begin_port [OF assms(1,2) that] by (simp only: L'_def L_def memu_step_tagram G_def)
  have noread: "\<not> g_tagr G m" if "memu_begins s G n" "n < 3" "m < 7" for m n
    using memu_read_main(1) [OF assms(1,2) that(3), folded G_def] that(1,2) by (auto simp: memu_begins_def)
  have nowrite: "\<not> g_tagw G m" if "memu_begins s G n" "n < 3" "m < 3" "m \<noteq> n" for m n
    using memu_one_tagw [OF assms(1) that(3,2), of x] that(1,4) by (auto simp: memu_begins_def G_def)
  have wtag: "w_tag_out (memu_wo x s G p) = (wp_tag_reg (m_wp s p))\<lparr>dirty := True\<rparr>" if "memu_begins s G p" "p < 2" for p
    using that assms(2) by (auto simp: memu_wo_def wp_tag_out memu_wp_in_def memu_begins_def memu_first_def wp_first_def)
  show "L' = lookup_write (mi_wp_adr x p) ((wp_tag_reg (m_wp s p))\<lparr>dirty := True\<rparr>) L" if p: "p < 2" "memu_begins s G p"
  proof -
    have "begin_port s G = Some p" using p one [of p 0] by (auto simp: begin_port_def less_2_cases_iff)
    moreover have "tr_adr ?I p = mi_wp_adr x p" using p(2) noread [OF p(2), of 6] nowrite [OF p(2), of 2] p(1)
      by (simp add: memu_tagram_in_def memu_begins_def Let_def)
    moreover have "tr_tag_in ?I p = w_tag_out (memu_wo x s G p)" using nowrite [OF p(2), of 2] p(1) by (simp add: memu_tagram_in_def Let_def)
    ultimately show ?thesis using L' loc [OF p(2)] p wtag by simp
  qed
  show "L' = lookup_write (b_adr_reg (m_busif s)) (b_tag_out (m_busif s)) L" if b: "memu_begins s G 2"
  proof -
    have "begin_port s G = Some 1" using b one [of 2 0] by (auto simp: begin_port_def)
    then show ?thesis using L' loc [OF b] b by (simp add: memu_tagram_in_def memu_begins_def Let_def)
  qed
  show "L' = L" if none: "\<And>n. n < 3 \<Longrightarrow> \<not> memu_begins s G n"
  proof (cases "tr_loc (m_tagram s) = TR_write")
    case True
    then show ?thesis by (simp only: L'_def L_def memu_step_tagram tagram_second_clock) (simp add: tag_lookup_def fun_eq_iff)
  next
    case False
    have "begin_port s G = None" using none by (simp add: begin_port_def)
    with L' [OF False] show ?thesis by simp
  qed
qed

text \<open>C3.  The tag RAM in the memory unit, in every state that can be reached after a reset: each port that is granted a read gets what the
  RAM knows of the address it asked for, a port that is granted a write changes what is known at its address, and nothing else
  ever does, though a write takes two clocks and requests come from seven ports.\<close>

theorem memu_tag_access:
  assumes "memu_reach s" "\<not> mi_reset x"
  defines "G \<equiv> memu_settle x s" and "t \<equiv> m_tagram s" and "t' \<equiv> m_tagram (memu_step x s)"
  shows "(\<forall>p < 4. g_tagr G p \<longrightarrow> tr_tag_out t' (p mod 2) = tag_answer 1 t (mi_rp_adr x p))
    \<and> (\<forall>p < 2. g_tagr G (4 + p) \<longrightarrow> tr_tag_out t' p = tag_answer 1 t (mi_wp_adr x p))
    \<and> (g_tagr G 6 \<longrightarrow> tr_tag_out t' 1 = tag_answer 1 t (b_adr_reg (m_busif s)))
    \<and> (\<forall>p < 2. memu_begins s G p \<longrightarrow>
          tag_lookup 1 t' = lookup_write (mi_wp_adr x p) ((wp_tag_reg (m_wp s p))\<lparr>dirty := True\<rparr>) (tag_lookup 1 t))
    \<and> (memu_begins s G 2 \<longrightarrow> tag_lookup 1 t' = lookup_write (b_adr_reg (m_busif s)) (b_tag_out (m_busif s)) (tag_lookup 1 t))
    \<and> ((\<forall>n < 3. \<not> memu_begins s G n) \<longrightarrow> tag_lookup 1 t' = tag_lookup 1 t)"
  using memu_tag_read [OF memu_reach_inv [OF assms(1)] assms(2), folded G_def t_def t'_def]
    memu_tag_written [OF memu_reach_inv [OF assms(1)] assms(2), folded G_def t_def t'_def]
  by blast

text \<open>After one clock of reset, read port 0 asks for an address.\<close>

definition ex_memu_in :: "bool \<Rightarrow> memu_in" where
  "ex_memu_in reset = \<lparr>mi_reset = reset, mi_wb_ack = False, mi_wb_dat = 0, mi_rp_rd = (\<lambda>p. p = 0), mi_rp_direct = (\<lambda>_. False),
     mi_rp_bsel = (\<lambda>_. 0xf), mi_rp_adr = (\<lambda>_. 0x1234), mi_wp_wr = (\<lambda>_. False), mi_wp_direct = (\<lambda>_. False),
     mi_wp_bsel = (\<lambda>_. 0), mi_wp_rlink_wcond = (\<lambda>_. False), mi_wp_writeback = (\<lambda>_. False), mi_wp_invalidate = (\<lambda>_. False),
     mi_wp_adr = (\<lambda>_. 0), mi_wp_data = (\<lambda>_. 0)\<rparr>"

definition ex_memu :: memu where
  "ex_memu = memu_step (ex_memu_in True) (memu_power_up (\<lambda>_. \<lparr>e_valid = (\<lambda>_. True), e_dirty = (\<lambda>_. True), e_tadr = (\<lambda>_. 0), e_use = 0\<rparr>) (\<lambda>_ _. 7))"

lemma ex_memu_reach: "memu_in_reset ex_memu" "memu_reach ex_memu"
proof -
  show "memu_in_reset ex_memu" unfolding ex_memu_def
    by (rule memu_in_reset.intros(2) [OF memu_in_reset.intros(1)]) (simp add: ex_memu_in_def)
  then show "memu_reach ex_memu" by (rule memu_reach.intros(1))
qed

lemma ex_memu_ready: "tr_ready (m_tagram ex_memu)"
  unfolding ex_memu_def memu_step_tagram
  by (simp add: tagram_step_def memu_power_up_def tagram_start_def tagram_loop_ready)

lemma ex_memu_read: "g_tagr (memu_settle (ex_memu_in False) ex_memu) 0"
proof -
  let ?x = "ex_memu_in False"
  let ?G = "memu_settle ?x ex_memu"
  let ?i = "memu_arb_in ?x ex_memu ?G"
  note idle = memu_in_reset_idle [OF ex_memu_reach(1), unfolded memu_idle_def]
  have "\<not> b_req_tagw (m_busif ex_memu)"
    by (simp add: ex_memu_def memu_step_def memu_power_up_def busif_step_def ex_memu_in_def Let_def)
  then have nw: "\<not> any_bit 3 (tagw_req ?i)" using idle
    by (simp add: any_bit_simps tag_req_linked wp_first_def wp_second_def)
  have "\<not> b_idata_valid (m_busif ex_memu) n" for n
    by (simp add: ex_memu_def memu_step_def memu_power_up_def busif_step_def ex_memu_in_def banks_def Let_def)
  then have r: "tagr_req ?i 0" using idle
    by (simp add: tag_req_linked memu_ro_def rp_req_tagr memu_rp_in_def rp_hit_def ex_memu_in_def Let_def)
  have none: "\<not> tagr_req ?i 2" "\<not> tagr_req ?i 4" using idle
    by (simp_all add: tag_req_linked(3) tag_req_linked(4) [of 0, simplified] memu_ro_def rp_req_tagr memu_rp_in_def memu_wo_def wp_req_tagr memu_wp_in_def
      ex_memu_in_def Let_def)
  obtain m where m: "m < 7" "RAMPORT m = RAMPORT 0" "g_tagr ?G m"
    using Tag_readers [OF _ nw r, of "m_arb ex_memu"] ex_memu_ready by (auto simp: tag_req_linked settled_grants)
  have "tagr_good ?i (m_arb ex_memu) (g_tagr ?G)" using memu_reach_inv [OF ex_memu_reach(2)]
    unfolding memu_inv_def by (intro memu_tag_grants) blast+
  then have "tagr_req ?i m" using m(3) unfolding tagr_good_def within_def by blast
  then show ?thesis using m none less_7_cases [OF m(1)] by auto
qed

theorem memu_assertions_hold_witness:
  "g_snoop (memu_settle (ex_memu_in False) ex_memu) \<noteq> None \<and> \<not> tr_fail (m_tagram (memu_step (ex_memu_in False) ex_memu))"
  using memu_assertions_hold [OF ex_memu_reach(2), of "ex_memu_in False"] by (simp add: ex_memu_in_def)

theorem memu_tag_access_witness:
  "g_tagr (memu_settle (ex_memu_in False) ex_memu) 0
    \<and> tr_tag_out (m_tagram (memu_step (ex_memu_in False) ex_memu)) 0 = tag_answer 1 (m_tagram ex_memu) 0x1234"
proof -
  have "\<not> mi_reset (ex_memu_in False)" by (simp add: ex_memu_in_def)
  from memu_tag_access [OF ex_memu_reach(2) this] ex_memu_read
  have "tr_tag_out (m_tagram (memu_step (ex_memu_in False) ex_memu)) (0 mod 2) = tag_answer 1 (m_tagram ex_memu) (mi_rp_adr (ex_memu_in False) 0)"
    by (meson zero_less_numeral)
  then show ?thesis using ex_memu_read by (simp add: ex_memu_in_def)
qed

end
