(* ===== verification/PnMemuRead.thy ===== *)
theory PnMemuRead
  imports PnMemuTag
begin

text \<open>
  What a read port of the memory unit delivers (\<open>MReadPort\<close> within \<open>MMemu\<close>, \<open>src/sysc/memu.cpp\<close>): the tag it looks at is that of
  its address and stays it until the bank is granted, the bank RAM gets the port's index, and the word comes out in the clock
  after the acknowledge.
\<close>

section \<open>Runs\<close>

text \<open>
  The rule of \<open>memu.h\<close> for the processors: a port that asks for a word keeps its request and its address until
  the acknowledge.
\<close>

definition requests_held :: "memu_in \<Rightarrow> memu \<Rightarrow> memu_in \<Rightarrow> bool" where
  "requests_held x s x' \<longleftrightarrow> (\<forall>p < 4. mi_rp_rd x p \<and> \<not> mo_rp_ack (memu_output x s) p
     \<longrightarrow> mi_rp_rd x' p \<and> mi_rp_adr x' p = mi_rp_adr x p)"

text \<open>The inputs and the state of a clock.\<close>

inductive memu_runs :: "memu_in \<Rightarrow> memu \<Rightarrow> bool" where
  memu_released: "memu_in_reset s \<Longrightarrow> memu_runs x s"
| memu_next: "memu_runs x s \<Longrightarrow> \<not> mi_reset x \<Longrightarrow> requests_held x s x' \<Longrightarrow> memu_runs x' (memu_step x s)"

lemma memu_runs_reach: "memu_runs x s \<Longrightarrow> memu_reach s"
  by (induction rule: memu_runs.induct) (blast intro: memu_reach.intros)+

section \<open>Tags and banks while a port waits\<close>

abbreviation (input) looks_at_tag :: "e_readport_state \<Rightarrow> bool" where
  "looks_at_tag st \<equiv> st = s_rp_read_tag \<or> st = s_rp_miss_read_tag"

abbreviation (input) waits :: "e_readport_state \<Rightarrow> bool" where
  "waits st \<equiv> st \<in> {s_rp_direct_wait_busif, s_rp_miss_wait_busif, s_rp_miss_request_tag, s_rp_miss_replace}"

definition read_inv :: "memu_in \<Rightarrow> memu \<Rightarrow> bool" where
  "read_inv x s \<longleftrightarrow> (\<forall>p < 4.
     (looks_at_tag (rp_state (m_rp s p)) \<longrightarrow> mi_rp_rd x p \<and> tagr_reg (m_arb s) p
        \<and> valid (tr_tag_out (m_tagram s) (p mod 2)) = (tag_lookup 1 (m_tagram s) (mi_rp_adr x p) \<noteq> None))
     \<and> (waits (rp_state (m_rp s p)) \<longrightarrow> mi_rp_rd x p)
     \<and> (\<forall>b < 4. bank_reg (m_arb s) b p \<longrightarrow> \<not> looks_at_tag (rp_state (m_rp s p))))
   \<and> (\<forall>b < 4. one_per_side 4 (bank_reg (m_arb s) b))"

lemma ro_req_bank: "r_req_bank (memu_ro x s G p) b \<longleftrightarrow> b = GetBankOfAdr (mi_rp_adr x p) \<and> \<not> mi_reset x
    \<and> looks_at_tag (rp_state (m_rp s p)) \<and> valid (tr_tag_out (m_tagram s) (p mod 2))"
  by (auto simp: memu_ro_def rp_req_bank memu_rp_in_def Let_def)

text \<open>The banks are granted as the arbiter's rules say, without any assumption on addresses: no two holders share a side.\<close>

lemma memu_banks:
  assumes "read_inv x s" "b < 4"
  defines "i \<equiv> memu_arb_in x s (memu_settle x s)"
  shows "bank_good i (m_arb s) b (g_bank (memu_settle x s) b) (g_wiadr (memu_settle x s) b)"
proof -
  have g: "g_bank (memu_settle x s) b = fst (BankMethod i (m_arb s) b)" "g_wiadr (memu_settle x s) b = snd (BankMethod i (m_arb s) b)"
    using memu_settle_fix [of s x] unfolding i_def by (metis grants.select_convs(4,5) memu_arbitrate_def)+
  have no: "\<not> (bank_reg (m_arb s) b p \<and> bank_req i b p)" if "p < 4" for p
    using assms(1,2) that by (auto simp: read_inv_def i_def memu_arb_in_def bank_req_def ro_req_bank Let_def)
  have one: "one_per_side 4 (bank_reg (m_arb s) b)" using assms(1,2) by (simp add: read_inv_def)
  have "m = n" if "m < 7" "n < 7" "bank_reg (m_arb s) b m \<and> bank_req i b m" "bank_reg (m_arb s) b n \<and> bank_req i b n" "RAMPORT m = RAMPORT n"
    for m n
  proof -
    have "4 \<le> m" "4 \<le> n" using no that by (meson not_le)+
    then show ?thesis using one that unfolding one_per_side_def by blast
  qed
  then show ?thesis unfolding g by (intro Bank_good one) blast
qed

lemma memu_step_bank_reg: "\<not> mi_reset x \<Longrightarrow> b < 4 \<Longrightarrow> bank_reg (m_arb (memu_step x s)) b = g_bank (memu_settle x s) b"
  using memu_settle_fix [of s x] by (simp add: memu_step_def arb_next_bank Let_def) (metis grants.select_convs(4) memu_arbitrate_def)

text \<open>A port that looks at a tag keeps the tag RAM.\<close>

lemma memu_tag_held:
  assumes "memu_inv s" "read_inv x s" "\<not> mi_reset x" "p < 4" "looks_at_tag (rp_state (m_rp s p))"
  shows "g_tagr (memu_settle x s) p"
proof -
  let ?i = "memu_arb_in x s (memu_settle x s)"
  have "tag_arb_ok (m_arb s)" "tagram_inv (m_tagram s) (m_arb s)" using assms(1) unfolding memu_inv_def by blast+
  then have "tagr_good ?i (m_arb s) (g_tagr (memu_settle x s))" by (rule memu_tag_grants)
  moreover have "tagr_req ?i p" using assms(3-5) by (auto simp: tag_req_linked memu_ro_def rp_req_tagr memu_rp_in_def Let_def)
  moreover have "tagr_reg (m_arb s) p" using assms(2,4,5) unfolding read_inv_def by blast
  ultimately show ?thesis unfolding tagr_good_def within_def by blast
qed

text \<open>While a port reads a tag, no tag is written.\<close>

lemma memu_tag_steady:
  assumes "memu_inv s" "\<not> mi_reset x" "p < 4" "g_tagr (memu_settle x s) p"
  shows "tag_lookup 1 (m_tagram (memu_step x s)) = tag_lookup 1 (m_tagram s)"
proof -
  have "p < 7" using assms(3) by simp
  then show ?thesis using memu_read_main(1) [OF assms(1,2) _ assms(4)]
    by (intro memu_tag_written(3) [OF assms(1,2)]) (auto simp: memu_begins_def)
qed

lemma read_inv_step:
  assumes "memu_inv s" "read_inv x s" "\<not> mi_reset x" "requests_held x s x'"
  shows "read_inv x' (memu_step x s)"
proof -
  let ?G = "memu_settle x s" and ?s' = "memu_step x s"
  have rp: "m_rp ?s' p = rp_transition (memu_rp_in x s ?G p) (m_rp s p)" for p by (simp add: memu_step_def Let_def)
  then have st: "rp_state (m_rp ?s' p) = r_next_state (rp_main (memu_rp_in x s ?G p) (m_rp s p))" for p by (simp add: rp_transition_def)
  have nr: "\<not> r_reset (memu_rp_in x s ?G p)" for p using assms(3) by (simp add: memu_rp_in_def Let_def)
  have F: "r_port_rd (memu_rp_in x s ?G p) = mi_rp_rd x p" "r_gnt_tagr (memu_rp_in x s ?G p) = g_tagr ?G p" for p
    by (simp_all add: memu_rp_in_def Let_def)
  have ack: "mo_rp_ack (memu_output x s) p = r_port_ack (rp_main (memu_rp_in x s ?G p) (m_rp s p))" for p
    by (simp add: memu_output_def memu_ro_def Let_def)
  have tag: "mi_rp_rd x' p \<and> tagr_reg (m_arb ?s') p
      \<and> valid (tr_tag_out (m_tagram ?s') (p mod 2)) = (tag_lookup 1 (m_tagram ?s') (mi_rp_adr x' p) \<noteq> None)"
    if p: "p < 4" "looks_at_tag (rp_state (m_rp ?s' p))" for p
  proof -
    note T = rp_next_tag [OF nr, of p "m_rp s p", folded st, OF p(2), unfolded F]
    have rd: "mi_rp_rd x p" using T(4,5) assms(2) p(1) unfolding read_inv_def by auto
    have g: "g_tagr ?G p" using T(3) memu_tag_held [OF assms(1-3) p(1)] by blast
    have h: "mi_rp_rd x' p" "mi_rp_adr x' p = mi_rp_adr x p" using assms(4) p(1) rd T(2) unfolding requests_held_def ack by blast+
    show ?thesis using h g memu_tag_read(1) [OF assms(1,3) p(1) g] memu_tag_steady [OF assms(1,3) p(1) g]
      by (simp add: memu_step_arb [OF assms(3)] tag_answer_def Let_def)
  qed
  have wait: "mi_rp_rd x' p" if p: "p < 4" "waits (rp_state (m_rp ?s' p))" for p
  proof -
    note W = rp_next_wait [OF nr, of p "m_rp s p", folded st, OF p(2), unfolded F]
    have "mi_rp_rd x p" using W(2) assms(2) p(1) unfolding read_inv_def by auto
    then show ?thesis using assms(4) p(1) W(1) unfolding requests_held_def ack by blast
  qed
  have bank: "\<not> looks_at_tag (rp_state (m_rp ?s' p))" if p: "p < 4" "b < 4" "bank_reg (m_arb ?s') b p" for p b
  proof -
    have g: "g_bank ?G b p" using p memu_step_bank_reg [OF assms(3) p(2)] by simp
    then have "bank_req (memu_arb_in x s ?G) b p" using memu_banks [OF assms(2) p(2)] unfolding bank_good_def within_def by blast
    then have r: "r_req_bank (memu_ro x s ?G p) b" using p(1) by (simp add: bank_req_def memu_arb_in_def Let_def)
    show ?thesis using r g unfolding st ro_req_bank by (auto simp: rp_defs memu_rp_in_def)
  qed
  have "one_per_side 4 (bank_reg (m_arb ?s') b)" if "b < 4" for b
    using memu_banks [OF assms(2) that] memu_step_bank_reg [OF assms(3) that] by (simp add: bank_good_def)
  then show ?thesis using tag wait bank unfolding read_inv_def by blast
qed

lemma memu_reset_banks: "memu_in_reset s \<Longrightarrow> \<not> bank_reg (m_arb s) b n"
  by (induction rule: memu_in_reset.induct) (simp_all add: memu_power_up_def arb_power_up_def memu_step_def arb_transition_def Let_def)

lemma memu_runs_inv: "memu_runs x s \<Longrightarrow> read_inv x s"
proof (induction rule: memu_runs.induct)
  case (memu_released s x)
  then have "rp_state (m_rp s p) = s_rp_init" for p using memu_in_reset_idle unfolding memu_idle_def by blast
  then show ?case using memu_reset_banks [OF memu_released] by (simp add: read_inv_def one_per_side_def)
next
  case (memu_next x s x')
  then show ?case using read_inv_step memu_reach_inv [OF memu_runs_reach] by blast
qed

section \<open>The word\<close>

text \<open>The word that the cache holds for an address, if it holds one.\<close>

definition cache_word :: "memu \<Rightarrow> u32 \<Rightarrow> u32 option" where
  "cache_word s a = map_option (\<lambda>(w, _). br_ram (m_bank s (GetBankOfAdr a)) (GetWayIndexOfAdr a (of_nat w))) (tag_lookup 1 (m_tagram s) a)"

lemma memu_bank_read:
  assumes "read_inv x s" "p < 4" "b < 4" "g_bank (memu_settle x s) b p" "r_bank_rd (memu_ro x s (memu_settle x s) p)"
  shows "br_rdata (m_bank (memu_step x s) b) (p mod 2) =
     br_ram (m_bank (memu_step x s) b) (GetWayIndexOfAdr (mi_rp_adr x p) (way (tr_tag_out (m_tagram s) (p mod 2))))"
proof -
  let ?G = "memu_settle x s"
  let ?i = "memu_bankram_in x s ?G b"
  have "bank_wiadr (memu_arb_in x s ?G) p = g_wiadr ?G b (RAMPORT p)"
    using memu_banks [OF assms(1,3)] assms(4) unfolding bank_good_def by blast
  then have "br_wiadr ?i (p mod 2) = GetWayIndexOfAdr (mi_rp_adr x p) (way (tr_tag_out (m_tagram s) (p mod 2)))"
    using assms(2) by (simp add: memu_bankram_in_def bank_wiadr_def memu_arb_in_def memu_ro_def rp_way_out memu_rp_in_def RAMPORT_def Let_def)
  moreover have "br_rd ?i (p mod 2)"
    using less_4_cases [OF assms(2)] assms(4,5)
    by (elim disjE) (simp_all add: memu_bankram_in_def side_cpus_def upt_2 Let_def, simp_all add: numeral_2_eq_2 numeral_3_eq_3)
  ultimately show ?thesis by (simp add: memu_step_def bankram_step_def Let_def)
qed

text \<open>After the reset, read port 0 reads past the cache; the bus answers in the third clock.\<close>

definition ex_direct_in :: "bool \<Rightarrow> memu_in" where
  "ex_direct_in ack = (ex_memu_in False)\<lparr>mi_rp_direct := \<lambda>_. True, mi_wb_ack := ack, mi_wb_dat := 0x2a\<rparr>"

definition ex_direct :: "nat \<Rightarrow> memu" where
  "ex_direct n = ((memu_step (ex_direct_in True)) ^^ (n - 2)) ((memu_step (ex_direct_in False) ^^ min n 2) ex_memu)"

lemma ex_direct_steps:
  "ex_direct 0 = ex_memu" "ex_direct 1 = memu_step (ex_direct_in False) (ex_direct 0)"
  "ex_direct 2 = memu_step (ex_direct_in False) (ex_direct 1)" "ex_direct 3 = memu_step (ex_direct_in True) (ex_direct 2)"
  by (simp_all add: ex_direct_def numeral_2_eq_2 numeral_3_eq_3)

lemma ex_direct_in_simps:
  "mi_reset (ex_direct_in c) = False" "mi_wb_ack (ex_direct_in c) = c" "mi_wb_dat (ex_direct_in c) = 0x2a"
  "mi_rp_rd (ex_direct_in c) p \<longleftrightarrow> p = 0" "mi_rp_direct (ex_direct_in c) p" "mi_rp_adr (ex_direct_in c) p = 0x1234"
  "\<not> mi_wp_wr (ex_direct_in c) p" "\<not> mi_wp_writeback (ex_direct_in c) p" "\<not> mi_wp_invalidate (ex_direct_in c) p"
  by (simp_all add: ex_direct_in_def ex_memu_in_def)

lemma ex_memu_simps:
  "b_loc (m_busif ex_memu) = B_reset" "b_op_reg (m_busif ex_memu) = bioNothing" "\<not> b_idata_valid (m_busif ex_memu) 1"
  "rp_state (m_rp ex_memu p) = s_rp_init" "wp_state (m_wp ex_memu p) = s_wp_init"
  using memu_in_reset_idle [OF ex_memu_reach(1), unfolded memu_idle_def]
  by (simp_all add: ex_memu_def memu_step_def memu_power_up_def busif_step_def ex_memu_in_def banks_def Let_def)

lemma ex_direct_grant: "g_busif (memu_settle (ex_direct_in False) ex_memu) n \<longleftrightarrow> n = 0"
proof -
  let ?G = "memu_settle (ex_direct_in False) ex_memu"
  let ?i = "memu_arb_in (ex_direct_in False) ex_memu ?G"
  have req: "busif_req ?i n \<longleftrightarrow> n = 0" for n
    by (auto simp: busif_req_def memu_arb_in_def memu_ro_def memu_wo_def rp_req_busif wp_req_busif memu_rp_in_def memu_wp_in_def
        ex_memu_simps ex_direct_in_simps Let_def)
  have "at_most_one 6 (busif_reg (m_arb ex_memu))"
    using memu_in_reset_idle [OF ex_memu_reach(1)] by (simp add: memu_idle_def arb_idle_def at_most_one_def)
  then have "busif_good ?i (m_arb ex_memu) (g_busif ?G)" unfolding settled_grants by (rule BusIf_good)
  then have "m = 0" if "g_busif ?G m" for m using that req unfolding busif_good_def within_def by blast
  moreover have "any_bit 6 (g_busif ?G)" using BusIf_some [of ?i 0] req unfolding settled_grants by blast
  ultimately show ?thesis unfolding any_bit_simps by metis
qed

lemma memu_step_busif: "\<not> mi_reset x \<Longrightarrow> m_busif (memu_step x s) = busif_wake (memu_busif_in x s (memu_settle x s)) (m_busif s)"
  and memu_step_rp: "m_rp (memu_step x s) p = rp_transition (memu_rp_in x s (memu_settle x s) p) (m_rp s p)"
  by (simp_all add: memu_step_def busif_step_def Let_def)

lemma ex_direct_bus_in:
  "b_op (memu_busif_in (ex_direct_in False) ex_memu (memu_settle (ex_direct_in False) ex_memu)) = bioDirectRead"
  "b_adr_in (memu_busif_in (ex_direct_in False) ex_memu (memu_settle (ex_direct_in False) ex_memu)) = 0x1234"
  "b_wb_ack (memu_busif_in (ex_direct_in c) s G) = c" "b_wb_dat (memu_busif_in (ex_direct_in c) s G) = 0x2a"
  by (simp_all add: memu_busif_in_def fold_upt_4 fold_upt_2 ex_direct_grant memu_ro_def memu_rp_in_def rp_defs ex_memu_simps
      ex_direct_in_simps Let_def)

lemma ex_direct_1:
  "b_loc (m_busif (ex_direct 1)) = B_idle" "b_op_reg (m_busif (ex_direct 1)) = bioDirectRead" "b_adr_reg (m_busif (ex_direct 1)) = 0x1234"
  "\<not> b_idata_valid (m_busif (ex_direct 1)) 1" "rp_state (m_rp (ex_direct 1) 0) = s_rp_direct_wait_busif"
proof -
  have r: "\<not> mi_reset (ex_direct_in False)" by (simp add: ex_direct_in_simps)
  show "b_loc (m_busif (ex_direct 1)) = B_idle" "b_op_reg (m_busif (ex_direct 1)) = bioDirectRead" "b_adr_reg (m_busif (ex_direct 1)) = 0x1234"
    "\<not> b_idata_valid (m_busif (ex_direct 1)) 1"
    unfolding ex_direct_steps(2) ex_direct_steps(1) memu_step_busif [OF r] busif_wake_def
    using ex_memu_simps(1-3) by (simp_all add: busif_top_def busif_idle_def AcceptNewOp_def ex_direct_bus_in)
  show "rp_state (m_rp (ex_direct 1) 0) = s_rp_direct_wait_busif"
    unfolding ex_direct_steps(2) ex_direct_steps(1)
    by (simp add: memu_step_rp rp_transition_def memu_rp_in_def rp_defs ex_memu_simps ex_direct_grant
        ex_direct_in_simps)
qed

lemma ex_direct_bank: "GetBankOfAdr 0x1234 = 1"
  by (simp add: GetBankOfAdr_def)

lemma ex_direct_wait:
  assumes "rp_state (m_rp s 0) = s_rp_direct_wait_busif" "\<not> b_idata_valid (m_busif s) 1"
  shows "rp_state (m_rp (memu_step (ex_direct_in c) s) 0) = s_rp_direct_wait_busif"
  using assms by (simp add: memu_step_rp rp_transition_def memu_rp_in_def rp_defs rp_hit_def ex_direct_in_simps ex_direct_bank)

lemma ex_direct_2:
  "b_loc (m_busif (ex_direct 2)) = B_dread_ack" "b_adr_reg (m_busif (ex_direct 2)) = 0x1234"
  "\<not> b_idata_valid (m_busif (ex_direct 2)) 1" "rp_state (m_rp (ex_direct 2) 0) = s_rp_direct_wait_busif"
proof -
  have r: "\<not> mi_reset (ex_direct_in False)" by (simp add: ex_direct_in_simps)
  show "b_loc (m_busif (ex_direct 2)) = B_dread_ack" "b_adr_reg (m_busif (ex_direct 2)) = 0x1234" "\<not> b_idata_valid (m_busif (ex_direct 2)) 1"
    unfolding ex_direct_steps(3) memu_step_busif [OF r] busif_wake_def
    using ex_direct_1(1-4) by (simp_all add: busif_idle_def busif_operate_def ex_direct_bus_in)
  show "rp_state (m_rp (ex_direct 2) 0) = s_rp_direct_wait_busif" unfolding ex_direct_steps(3) by (rule ex_direct_wait [OF ex_direct_1(5,4)])
qed

lemma ex_direct_3:
  "b_adr_reg (m_busif (ex_direct 3)) = 0x1234" "b_idata_valid (m_busif (ex_direct 3)) 1" "b_idata_reg (m_busif (ex_direct 3)) 1 = 0x2a"
  "rp_state (m_rp (ex_direct 3) 0) = s_rp_direct_wait_busif"
proof -
  have r: "\<not> mi_reset (ex_direct_in True)" by (simp add: ex_direct_in_simps)
  show "b_adr_reg (m_busif (ex_direct 3)) = 0x1234" "b_idata_valid (m_busif (ex_direct 3)) 1" "b_idata_reg (m_busif (ex_direct 3)) 1 = 0x2a"
    using ex_direct_2(1,2) ex_direct_bank
    by (simp_all add: ex_direct_steps(4) memu_step_busif [OF r] busif_wake_def busif_dread_end_def ex_direct_bus_in Let_def)
  show "rp_state (m_rp (ex_direct 3) 0) = s_rp_direct_wait_busif" unfolding ex_direct_steps(4) by (rule ex_direct_wait [OF ex_direct_2(4,3)])
qed

lemma ex_direct_runs: "memu_runs (ex_direct_in False) (ex_direct 3)" "mo_rp_ack (memu_output (ex_direct_in False) (ex_direct 3)) 0"
proof -
  have h: "requests_held (ex_direct_in c) s (ex_direct_in c')" for c s c' by (simp add: requests_held_def ex_direct_in_simps)
  have r: "\<not> mi_reset (ex_direct_in c)" for c by (simp add: ex_direct_in_simps)
  have "memu_runs (ex_direct_in False) (ex_direct 0)" unfolding ex_direct_steps(1) by (rule memu_released [OF ex_memu_reach(1)])
  then have "memu_runs (ex_direct_in False) (ex_direct 1)" unfolding ex_direct_steps(2) by (rule memu_next [OF _ r h])
  then have "memu_runs (ex_direct_in True) (ex_direct 2)" unfolding ex_direct_steps(3) by (rule memu_next [OF _ r h])
  then show "memu_runs (ex_direct_in False) (ex_direct 3)" unfolding ex_direct_steps(4) by (rule memu_next [OF _ r h])
  show "mo_rp_ack (memu_output (ex_direct_in False) (ex_direct 3)) 0" using ex_direct_3
    by (simp add: memu_output_def memu_ro_def memu_rp_in_def rp_defs rp_hit_def ex_direct_in_simps ex_direct_bank)
qed

section \<open>Properties\<close>

text \<open>C5.  A processor that reads through a port of the memory unit gets the word of its address, in every run from power-up in which requests are
  held until they are acknowledged: the data in the clock after the acknowledge is the word that the cache then holds for the
  address, its tag still being that of the address; or the bus interface had this very address and its word valid at the
  acknowledge, and the data is that word.  No other request, grant, bank or tag access in between makes the port deliver
  anything else.\<close>

theorem memu_read_port:
  assumes "memu_runs x s" "\<not> mi_reset x" "\<not> mi_reset x'" "p < 4" "mo_rp_ack (memu_output x s) p"
  defines "a \<equiv> mi_rp_adr x p" and "b \<equiv> m_busif s" and "s' \<equiv> memu_step x s"
  defines "d \<equiv> mo_rp_data (memu_output x' s') p"
  shows "cache_word s' a = Some d
    \<or> b_adr_reg b = a \<and> b_idata_valid b (GetBankOfAdr a) \<and> d = b_idata_reg b (GetBankOfAdr a)"
proof -
  let ?G = "memu_settle x s" and ?G' = "memu_settle x' s'"
  let ?i = "memu_rp_in x s ?G p" and ?r = "m_rp s p"
  have inv: "memu_inv s" "read_inv x s" using memu_reach_inv [OF memu_runs_reach] memu_runs_inv assms(1) by blast+
  have F: "\<not> r_reset ?i" "r_port_adr ?i = a" "r_port_ack (rp_main ?i ?r)" "\<And>n. r_gnt_bank ?i n = g_bank ?G n p"
    using assms(2,5) by (simp_all add: memu_rp_in_def memu_output_def memu_ro_def a_def Let_def)
  have r': "m_rp s' p = rp_transition ?i ?r" by (simp add: s'_def memu_step_def Let_def)
  have d: "d = (if rp_state (m_rp s' p) = s_rp_read_bank then br_rdata (m_bank s' (rp_bank_sel_reg (m_rp s' p))) (p mod 2)
      else m_rp_busif_data_reg s')"
    using rp_data [of "memu_rp_in x' s' ?G' p" "m_rp s' p"] assms(3) by (simp add: d_def memu_output_def memu_ro_def memu_rp_in_def Let_def)
  consider "rp_hit ?i" "r_next_state (rp_main ?i ?r) = s_rp_init"
    | "looks_at_tag (rp_state ?r)" "valid (r_tag_in ?i)" "r_bank_rd (rp_main ?i ?r)" "g_bank ?G (GetBankOfAdr a) p"
      "r_next_state (rp_main ?i ?r) = s_rp_read_bank" "r_next_bank_sel (rp_main ?i ?r) = GetBankOfAdr a"
    using rp_ack_cases [OF F(1,3)] unfolding F(2,4) by blast
  then show ?thesis
  proof cases
    case 1
    then have "d = b_idata_reg b (GetBankOfAdr (b_adr_reg b))" using d r' by (simp add: rp_transition_def s'_def memu_step_def b_def Let_def)
    moreover have "b_adr_reg b = a \<and> b_idata_valid b (GetBankOfAdr a)" using 1(1) by (auto simp: rp_hit_def memu_rp_in_def a_def b_def Let_def)
    ultimately show ?thesis by simp
  next
    case 2
    have g: "g_tagr ?G p" by (rule memu_tag_held [OF inv assms(2,4) 2(1)])
    have w: "way (tr_tag_out (m_tagram s) (p mod 2)) = 0" using inv(1) by (simp add: memu_inv_def ways_zero_def)
    have t: "tag_lookup 1 (m_tagram s') a \<noteq> None"
      using inv(2) 2(1,2) assms(4) memu_tag_steady [OF inv(1) assms(2,4) g]
      by (auto simp: read_inv_def s'_def a_def memu_rp_in_def Let_def)
    then obtain n e where n: "tag_lookup 1 (m_tagram s') a = Some (n, e)" by auto
    have "n = 0" using n by (auto simp: tag_lookup_def Let_def find_way_def upt_rec split: if_splits)
    moreover have "d = br_ram (m_bank s' (GetBankOfAdr a)) (GetWayIndexOfAdr a 0)"
      using d r' 2(5,6) memu_bank_read [OF inv(2) assms(4) _ 2(4)] 2(3) w
      by (simp add: rp_transition_def s'_def memu_ro_def a_def)
    ultimately show ?thesis using n by (simp add: cache_word_def)
  qed
qed

theorem memu_read_port_witness:
  "cache_word (memu_step (ex_direct_in False) (ex_direct 3)) 0x1234
      = Some (mo_rp_data (memu_output (ex_direct_in False) (memu_step (ex_direct_in False) (ex_direct 3))) 0)
    \<or> mo_rp_data (memu_output (ex_direct_in False) (memu_step (ex_direct_in False) (ex_direct 3))) 0 = 0x2a"
  using memu_read_port [OF ex_direct_runs(1) _ _ _ ex_direct_runs(2), of "ex_direct_in False"] ex_direct_3 ex_direct_bank
  by (auto simp: ex_direct_in_simps)

end
