(* ===== verification/PnUart.thy ===== *)
theory PnUart
  imports Prelude
begin

text \<open>
  The UART of the testbench, \<open>CUart\<close> of \<open>src/sysc/uart16450.cpp\<close>: registers, FIFOs, interrupt identification, transmitter and
  receiver as jobs of a scheduler.  \<open>CUart::Init\<close> sets \<open>vapi_id\<close> to 0, so the VAPI branches are not reached and left out.  The
  results of \<open>read\<close> on the terminal are a list (\<open>u_in\<close>; an exhausted list stands for no input), what is written is
  \<open>u_out\<close>.  \<open>lastUart\<close> is the UART itself.
\<close>

section \<open>Registers\<close>

text \<open>The jobs of the scheduler, and what \<open>channel_read\<close> returns.\<close>

datatype uart_job = J_char_clock | J_send_break | J_tx_send | J_int_cti | J_recv_char | J_check_char

datatype uart_read = Rd_error | Rd_eof | Rd_char byte

record uart =
  u_txbuf :: "nat \<Rightarrow> byte"
  u_rxbuf :: "nat \<Rightarrow> u16"
  u_dll :: byte
  u_dlh :: byte
  u_ier :: byte
  u_iir :: byte
  u_fcr :: byte
  u_lcr :: byte
  u_mcr :: byte
  u_lsr :: byte
  u_msr :: byte
  u_scr :: byte
  u_txser :: byte
  u_rxser :: u16
  u_loopback :: byte
  u_txbuf_head :: nat
  u_txbuf_tail :: nat
  u_rxbuf_head :: nat
  u_rxbuf_tail :: nat
  u_txbuf_full :: u32
  u_rxbuf_full :: u32
  u_receiveing :: bool
  u_recv_break :: bool
  u_ints :: u32
  u_char_clks :: nat
  u_fifo_len :: nat
  u_irqPending :: bool
  u_events :: "(int \<times> uart_job) list"
  u_curTime :: int
  u_in :: "uart_read list"
  u_out :: "byte list"

abbreviation (input) UART_MAX_FIFO_LEN :: nat where "UART_MAX_FIFO_LEN \<equiv> 16"
abbreviation (input) UART_CLOCK_DIVIDER :: nat where "UART_CLOCK_DIVIDER \<equiv> 16"
abbreviation (input) UART_FGETC_SLOWDOWN :: nat where "UART_FGETC_SLOWDOWN \<equiv> 100"
abbreviation (input) UART_CHAR_TIMEOUT :: nat where "UART_CHAR_TIMEOUT \<equiv> 4"

abbreviation (input) UART_LCR_DLAB :: byte where "UART_LCR_DLAB \<equiv> 0x80"
abbreviation (input) UART_LCR_SBC :: byte where "UART_LCR_SBC \<equiv> 0x40"
abbreviation (input) UART_LCR_PARITY :: byte where "UART_LCR_PARITY \<equiv> 0x08"
abbreviation (input) UART_LCR_STOP :: byte where "UART_LCR_STOP \<equiv> 0x04"
abbreviation (input) UART_LCR_RESET :: byte where "UART_LCR_RESET \<equiv> 0x03"
abbreviation (input) UART_LSR_RXERR :: byte where "UART_LSR_RXERR \<equiv> 0x80"
abbreviation (input) UART_LSR_TXSERE :: byte where "UART_LSR_TXSERE \<equiv> 0x40"
abbreviation (input) UART_LSR_TXBUFE :: byte where "UART_LSR_TXBUFE \<equiv> 0x20"
abbreviation (input) UART_LSR_OVRRUN :: byte where "UART_LSR_OVRRUN \<equiv> 0x02"
abbreviation (input) UART_LSR_RDRDY :: byte where "UART_LSR_RDRDY \<equiv> 0x01"
abbreviation (input) UART_IIR_NO_INT :: byte where "UART_IIR_NO_INT \<equiv> 0x01"
abbreviation (input) UART_IIR_MSI :: byte where "UART_IIR_MSI \<equiv> 0x00"
abbreviation (input) UART_IIR_THRI :: byte where "UART_IIR_THRI \<equiv> 0x02"
abbreviation (input) UART_IIR_RDI :: byte where "UART_IIR_RDI \<equiv> 0x04"
abbreviation (input) UART_IIR_RLSI :: byte where "UART_IIR_RLSI \<equiv> 0x06"
abbreviation (input) UART_IIR_CTI :: byte where "UART_IIR_CTI \<equiv> 0x0c"
abbreviation (input) UART_IER_MSI :: byte where "UART_IER_MSI \<equiv> 0x08"
abbreviation (input) UART_IER_RLSI :: byte where "UART_IER_RLSI \<equiv> 0x04"
abbreviation (input) UART_IER_THRI :: byte where "UART_IER_THRI \<equiv> 0x02"
abbreviation (input) UART_IER_RDI :: byte where "UART_IER_RDI \<equiv> 0x01"
abbreviation (input) UART_MCR_LOOP :: byte where "UART_MCR_LOOP \<equiv> 0x10"

text \<open>\<open>fcr >> 6\<close> selects the level of the receiver interrupt.\<close>

definition UART_FIFO_TRIGGER :: "byte \<Rightarrow> u32" where
  "UART_FIFO_TRIGGER x = (if x = 0 then 1 else if x = 1 then 4 else if x = 2 then 8 else if x = 3 then 14 else 0)"

definition char_clks :: "byte \<Rightarrow> byte \<Rightarrow> byte \<Rightarrow> nat" where
  "char_clks dll dlh lcr =
     (let bauds0 = 2 + (if lcr AND UART_LCR_PARITY \<noteq> 0 then 2 else 0);
          bauds1 = bauds0 + (if lcr AND UART_LCR_STOP \<noteq> 0 then 4 else if lcr AND 3 \<noteq> 0 then 2 else 3);
          bauds2 = bauds1 + 10 + 2 * unat (lcr AND 3)
      in (unat dlh * 256 + unat dll) * bauds2 div 2)"

section \<open>Scheduler\<close>

text \<open>Times are \<open>int\<close>, 32 bits wide: a sum beyond them wraps around.  The place of a new event is found with its relative time.\<close>

abbreviation (input) INT_MAX :: int where "INT_MAX \<equiv> 2 ^ 31 - 1"

definition int32 :: "int \<Rightarrow> int" where
  "int32 x = (x + 2 ^ 31) mod 2 ^ 32 - 2 ^ 31"

fun sched_insert :: "int \<Rightarrow> int \<times> uart_job \<Rightarrow> (int \<times> uart_job) list \<Rightarrow> (int \<times> uart_job) list" where
  "sched_insert jobTime ev [] = [ev]"
| "sched_insert jobTime ev (e # es) = (if fst e \<le> jobTime then e # sched_insert jobTime ev es else ev # e # es)"

definition SchedAdd :: "uart_job \<Rightarrow> nat \<Rightarrow> uart \<Rightarrow> uart" where
  "SchedAdd job jobTime u =
     u\<lparr>u_events := sched_insert (int jobTime) (int32 (u_curTime u + int jobTime), job) (u_events u)\<rparr>"

definition SchedFindRemove :: "uart_job \<Rightarrow> uart \<Rightarrow> uart" where
  "SchedFindRemove job u = u\<lparr>u_events := filter (\<lambda>e. snd e \<noteq> job) (u_events u)\<rparr>"

section \<open>Interrupts\<close>

definition int_bit :: "byte \<Rightarrow> u32" where
  "int_bit intr = push_bit (unat intr) 1"

definition int_pending :: "byte \<Rightarrow> uart \<Rightarrow> bool" where
  "int_pending intr u \<longleftrightarrow> u_ints u AND int_bit intr \<noteq> 0"

text \<open>Reports \<open>intr\<close>: \<open>iir\<close> and the interrupt line.\<close>

definition report_int :: "byte \<Rightarrow> uart \<Rightarrow> uart" where
  "report_int intr u = u\<lparr>u_iir := intr, u_irqPending := True\<rparr>"

definition uart_int_msi :: "uart \<Rightarrow> uart" where
  "uart_int_msi u =
     (let u1 = u\<lparr>u_ints := u_ints u OR int_bit UART_IIR_MSI\<rparr>
      in if u_ier u AND UART_IER_MSI = 0 then u1
         else if u_iir u AND UART_IIR_NO_INT \<noteq> 0 \<or> u_iir u = UART_IIR_MSI then report_int UART_IIR_MSI u1 else u1)"

definition uart_int_thri :: "uart \<Rightarrow> uart" where
  "uart_int_thri u =
     (let u1 = u\<lparr>u_ints := u_ints u OR int_bit UART_IIR_THRI\<rparr>
      in if u_ier u AND UART_IER_THRI = 0 then u1
         else if u_iir u AND UART_IIR_NO_INT \<noteq> 0 \<or> u_iir u = UART_IIR_MSI \<or> u_iir u = UART_IIR_THRI
         then report_int UART_IIR_THRI u1 else u1)"

definition uart_int_cti :: "uart \<Rightarrow> uart" where
  "uart_int_cti u =
     (let u1 = u\<lparr>u_ints := u_ints u OR int_bit UART_IIR_CTI\<rparr>
      in if u_ier u AND UART_IER_RDI = 0 then u1
         else if u_iir u \<noteq> UART_IIR_RLSI \<and> u_iir u \<noteq> UART_IIR_RDI then report_int UART_IIR_CTI u1 else u1)"

definition uart_int_rdi :: "uart \<Rightarrow> uart" where
  "uart_int_rdi u =
     (let u1 = u\<lparr>u_ints := u_ints u OR int_bit UART_IIR_RDI\<rparr>
      in if u_ier u AND UART_IER_RDI = 0 then u1
         else if u_iir u \<noteq> UART_IIR_RLSI then report_int UART_IIR_RDI u1 else u1)"

definition uart_int_rlsi :: "uart \<Rightarrow> uart" where
  "uart_int_rlsi u =
     (let u1 = u\<lparr>u_ints := u_ints u OR int_bit UART_IIR_RLSI\<rparr>
      in if u_ier u AND UART_IER_RLSI = 0 then u1 else report_int UART_IIR_RLSI u1)"

definition uart_check_rlsi :: "uart \<Rightarrow> uart" where
  "uart_check_rlsi u = (if u_lsr u AND 0x1e \<noteq> 0 then uart_int_rlsi u else u)"

definition uart_check_rdi :: "uart \<Rightarrow> uart" where
  "uart_check_rdi u = (if UART_FIFO_TRIGGER (drop_bit 6 (u_fcr u)) \<le> u_rxbuf_full u then uart_int_rdi u else u)"

definition uart_next_int :: "uart \<Rightarrow> uart" where
  "uart_next_int u =
     (if int_pending UART_IIR_RLSI u \<and> u_ier u AND UART_IER_RLSI \<noteq> 0 then uart_int_rlsi u
      else if int_pending UART_IIR_RDI u \<and> u_ier u AND UART_IER_RDI \<noteq> 0 then uart_int_rdi u
      else if int_pending UART_IIR_CTI u \<and> u_ier u AND UART_IER_RDI \<noteq> 0 then uart_int_cti u
      else if int_pending UART_IIR_THRI u \<and> u_ier u AND UART_IER_THRI \<noteq> 0 then uart_int_thri u
      else if int_pending UART_IIR_MSI u \<and> u_ier u AND UART_IER_MSI \<noteq> 0 then uart_int_msi u
      else u\<lparr>u_irqPending := False, u_iir := UART_IIR_NO_INT\<rparr>)"

definition uart_clear_int :: "byte \<Rightarrow> uart \<Rightarrow> uart" where
  "uart_clear_int intr u =
     (let u1 = u\<lparr>u_ints := u_ints u AND NOT (int_bit intr)\<rparr>;
          u2 = (if intr = UART_IIR_CTI then SchedFindRemove J_int_cti u1 else u1)
      in if intr \<noteq> u_iir u2 then u2 else uart_next_int u2)"

section \<open>Transmitter\<close>

text \<open>The modem lines in loopback mode.\<close>

definition loop_msr :: "byte \<Rightarrow> byte \<Rightarrow> byte" where
  "loop_msr mcr msr0 =
     (let msr1 = (if mcr AND 0x08 \<noteq> drop_bit 4 (msr0 AND 0x80) then msr0 OR 0x08 else msr0);
          msr2 = (if mcr AND 0x04 < drop_bit 4 (msr1 AND 0x40) then msr1 OR 0x04 else msr1);
          msr3 = (if mcr AND 0x02 \<noteq> drop_bit 3 (msr2 AND 0x10) then msr2 OR 0x01 else msr2);
          msr4 = (if mcr AND 0x01 \<noteq> drop_bit 5 (msr3 AND 0x20) then msr3 OR 0x02 else msr3)
      in (msr4 AND NOT 0xf0) OR push_bit 4 (mcr AND 0x08) OR push_bit 4 (mcr AND 0x04)
         OR push_bit 3 (mcr AND 0x02) OR push_bit 5 (mcr AND 0x01))"

definition uart_loopback :: "uart \<Rightarrow> uart" where
  "uart_loopback u =
     (if u_mcr u AND UART_MCR_LOOP = 0 then u
      else let msr = loop_msr (u_mcr u) (u_msr u); u1 = u\<lparr>u_msr := msr\<rparr>
           in if msr AND 0x0f \<noteq> 0 then uart_int_msi u1 else u1)"

definition send_char :: "uart \<Rightarrow> uart" where
  "send_char u =
     (if u_mcr u AND UART_MCR_LOOP \<noteq> 0 then u\<lparr>u_loopback := u_txser u\<rparr> else u\<lparr>u_out := u_out u @ [u_txser u]\<rparr>)"

definition uart_tx_send :: "uart \<Rightarrow> uart" where
  "uart_tx_send u =
     (let u1 = u\<lparr>u_txser := u_txbuf u (u_txbuf_tail u), u_txbuf_tail := (u_txbuf_tail u + 1) mod u_fifo_len u,
                 u_txbuf_full := u_txbuf_full u - 1, u_lsr := u_lsr u AND NOT UART_LSR_TXSERE\<rparr>;
          u2 = (if u_lcr u AND UART_LCR_SBC = 0 then SchedAdd J_char_clock (u_char_clks u * UART_CLOCK_DIVIDER) u1
                else SchedAdd J_send_break 0 u1)
      in if u_txbuf_full u2 = 0 then uart_int_thri (u2\<lparr>u_lsr := u_lsr u2 OR UART_LSR_TXBUFE\<rparr>) else u2)"

text \<open>The end of \<open>uart_char_clock\<close> and \<open>uart_send_break\<close>: the next character, if there is one.\<close>

definition uart_tx_next :: "uart \<Rightarrow> uart" where
  "uart_tx_next u = (if u_txbuf_full u = 0 then u\<lparr>u_lsr := u_lsr u OR UART_LSR_TXSERE\<rparr> else uart_tx_send u)"

definition uart_char_clock :: "uart \<Rightarrow> uart" where
  "uart_char_clock u = uart_tx_next (send_char u)"

definition uart_send_break :: "uart \<Rightarrow> uart" where
  "uart_send_break u = uart_tx_next u"

section \<open>Receiver\<close>

definition uart_add_char :: "u16 \<Rightarrow> uart \<Rightarrow> uart" where
  "uart_add_char ch u =
     (let u1 = uart_clear_int UART_IIR_CTI (u\<lparr>u_lsr := u_lsr u OR UART_LSR_RDRDY\<rparr>);
          u2 = SchedAdd J_int_cti (u_char_clks u1 * UART_CHAR_TIMEOUT * UART_CLOCK_DIVIDER) u1;
          u3 = (if of_nat (u_fifo_len u2) < u_rxbuf_full u2 + 1
                then uart_int_rlsi (u2\<lparr>u_lsr := u_lsr u2 OR (UART_LSR_OVRRUN OR UART_LSR_RXERR)\<rparr>)
                else let v = u2\<lparr>u_rxbuf := (u_rxbuf u2)(u_rxbuf_head u2 := ch),
                                u_rxbuf_head := (u_rxbuf_head u2 + 1) mod u_fifo_len u2, u_rxbuf_full := u_rxbuf_full u2 + 1\<rparr>
                     in if u_rxbuf_full u2 = 0 then uart_check_rlsi (v\<lparr>u_lsr := u_lsr v OR ucast (drop_bit 8 ch)\<rparr>) else v)
      in uart_check_rdi u3)"

definition uart_sched_recv_check :: "uart \<Rightarrow> uart" where
  "uart_sched_recv_check u = SchedAdd J_check_char (UART_FGETC_SLOWDOWN * UART_CLOCK_DIVIDER) u"

definition uart_recv_char :: "uart \<Rightarrow> uart" where
  "uart_recv_char u =
     (let char_to_add = u_rxser u AND ((push_bit (unat (u_lcr u AND 3) + 5) 1 - 1) OR 0xff00);
          u1 = (if u_mcr u AND UART_MCR_LOOP \<noteq> 0
                then SchedAdd J_recv_char (u_char_clks u * UART_CLOCK_DIVIDER)
                       (u\<lparr>u_rxser := ucast (u_loopback u), u_receiveing := True\<rparr>)
                else uart_sched_recv_check (u\<lparr>u_receiveing := False\<rparr>))
      in uart_add_char char_to_add u1)"

text \<open>\<open>channel_read\<close> is \<open>read\<close> on the terminal, which is set to non-blocking: without input it returns -1.\<close>

definition channel_read :: "uart \<Rightarrow> uart_read \<times> uart" where
  "channel_read u = (case u_in u of [] \<Rightarrow> (Rd_error, u) | r # rs \<Rightarrow> (r, u\<lparr>u_in := rs\<rparr>))"

definition uart_check_char :: "uart \<Rightarrow> uart" where
  "uart_check_char u =
     (let (r, u1) = channel_read u
      in case r of
           Rd_char c \<Rightarrow> SchedAdd J_recv_char (u_char_clks u1 * UART_CLOCK_DIVIDER) (u1\<lparr>u_rxser := ucast c, u_receiveing := True\<rparr>)
         | Rd_eof \<Rightarrow> SchedAdd J_check_char (UART_FGETC_SLOWDOWN * UART_CLOCK_DIVIDER) u1
         | Rd_error \<Rightarrow> u1)"

section \<open>Register accesses\<close>

definition uart_write_tx :: "byte \<Rightarrow> uart \<Rightarrow> uart" where
  "uart_write_tx value u =
     (let u1 = u\<lparr>u_lsr := u_lsr u AND NOT UART_LSR_TXBUFE\<rparr>;
          u2 = (if u_txbuf_full u1 < of_nat (u_fifo_len u1)
                then let v = u1\<lparr>u_txbuf := (u_txbuf u1)(u_txbuf_head u1 := value),
                                u_txbuf_head := (u_txbuf_head u1 + 1) mod u_fifo_len u1, u_txbuf_full := u_txbuf_full u1 + 1\<rparr>
                     in if u_txbuf_full u1 = 0 \<and> u_lsr u1 AND UART_LSR_TXSERE \<noteq> 0 then SchedAdd J_tx_send 0 v else v
                else u1\<lparr>u_txbuf := (u_txbuf u1)(u_txbuf_head u1 := value)\<rparr>)
      in uart_clear_int UART_IIR_THRI u2)"

definition uart_write_fcr :: "byte \<Rightarrow> uart \<Rightarrow> uart" where
  "uart_write_fcr value0 u =
     (let fie = (value0 AND 0x01 \<noteq> 0);
          value = (if u_fifo_len u = 1 \<and> fie \<or> u_fifo_len u \<noteq> 1 \<and> \<not> fie then value0 OR (0x02 OR 0x04) else value0);
          u1 = u\<lparr>u_fcr := value0 AND 0xc0, u_fifo_len := (if fie then 16 else 1)\<rparr>;
          u2 = (if value AND 0x04 \<noteq> 0
                then let v = u1\<lparr>u_txbuf_head := 0, u_txbuf_tail := 0, u_txbuf_full := 0, u_lsr := u_lsr u1 OR UART_LSR_TXBUFE\<rparr>
                     in SchedFindRemove J_tx_send (if u_fifo_len v = 16 then uart_int_thri v else v)
                else u1)
      in if value AND 0x02 \<noteq> 0
         then uart_clear_int UART_IIR_CTI (uart_clear_int UART_IIR_RDI
                (u2\<lparr>u_rxbuf_head := 0, u_rxbuf_tail := 0, u_rxbuf_full := 0, u_lsr := u_lsr u2 AND NOT UART_LSR_RDRDY\<rparr>))
         else u2)"

definition uart_write_lcr :: "byte \<Rightarrow> uart \<Rightarrow> uart" where
  "uart_write_lcr value u =
     (let sbc = (value AND UART_LCR_SBC \<noteq> 0); sending = (u_lsr u AND UART_LSR_TXSERE = 0);
          u1 = (if u_lcr u AND UART_LCR_SBC = value AND UART_LCR_SBC \<or> \<not> sending then u
                else if sbc then SchedAdd J_send_break 0 (SchedFindRemove J_char_clock u)
                else SchedFindRemove J_char_clock (SchedAdd J_tx_send 0 u))
      in u1\<lparr>u_lcr := value, u_char_clks := char_clks (u_dll u1) (u_dlh u1) value\<rparr>)"

definition uart_write_byte :: "u32 \<Rightarrow> byte \<Rightarrow> uart \<Rightarrow> uart" where
  "uart_write_byte addr value u =
     (let dlab = (u_lcr u AND UART_LCR_DLAB \<noteq> 0)
      in if dlab \<and> addr = 0 then u\<lparr>u_dll := value, u_char_clks := char_clks value (u_dlh u) (u_lcr u)\<rparr>
         else if dlab \<and> addr = 1 then u\<lparr>u_dlh := value\<rparr>
         else if addr = 0 then uart_write_tx value u
         else if addr = 2 then uart_write_fcr value u
         else if addr = 1 then uart_next_int (u\<lparr>u_ier := value AND 0x0f\<rparr>)
         else if addr = 3 then uart_write_lcr value u
         else if addr = 4 then uart_loopback (u\<lparr>u_mcr := value AND 0x1f\<rparr>)
         else if addr = 7 then u\<lparr>u_scr := value\<rparr>
         else u)"

text \<open>A read of the receive buffer: the oldest character, then what the next one has to say.\<close>

definition uart_rx_take :: "uart \<Rightarrow> byte \<times> uart" where
  "uart_rx_take u =
     (if u_rxbuf_full u \<noteq> 0
      then (ucast (u_rxbuf u (u_rxbuf_tail u)),
            u\<lparr>u_rxbuf_tail := (u_rxbuf_tail u + 1) mod u_fifo_len u, u_rxbuf_full := u_rxbuf_full u - 1\<rparr>)
      else (0, u))"

definition uart_rx_next :: "uart \<Rightarrow> uart" where
  "uart_rx_next u =
     (if u_rxbuf_full u \<noteq> 0
      then uart_check_rdi (uart_check_rlsi
             (SchedAdd J_int_cti (u_char_clks u * UART_CHAR_TIMEOUT * UART_CLOCK_DIVIDER)
               (u\<lparr>u_lsr := u_lsr u OR (UART_LSR_RDRDY OR ucast (drop_bit 8 (u_rxbuf u (u_rxbuf_tail u))))\<rparr>)))
      else u\<lparr>u_lsr := u_lsr u AND NOT UART_LSR_RDRDY\<rparr>)"

definition uart_read_rx :: "uart \<Rightarrow> byte \<times> uart" where
  "uart_read_rx u =
     (let (value, u1) = uart_rx_take u
      in (value, uart_rx_next (uart_clear_int UART_IIR_CTI (uart_clear_int UART_IIR_RDI u1))))"

definition uart_read_byte :: "u32 \<Rightarrow> uart \<Rightarrow> byte \<times> uart" where
  "uart_read_byte addr u =
     (let dlab = (u_lcr u AND UART_LCR_DLAB \<noteq> 0)
      in if dlab \<and> addr = 0 then (u_dll u, u)
         else if dlab \<and> addr = 1 then (u_dlh u, u)
         else if addr = 0 then uart_read_rx u
         else if addr = 1 then (u_ier u AND 0x0f, u)
         else if addr = 2 then ((u_iir u AND 0x0f) OR 0xc0, if u_iir u = UART_IIR_THRI then uart_clear_int UART_IIR_THRI u else u)
         else if addr = 3 then (u_lcr u, u)
         else if addr = 5 then (u_lsr u, uart_clear_int UART_IIR_RLSI (u\<lparr>u_lsr := u_lsr u AND NOT 0x9e\<rparr>))
         else if addr = 6 then (u_msr u, uart_loopback (uart_clear_int UART_IIR_MSI (u\<lparr>u_msr := 0\<rparr>)))
         else if addr = 7 then (u_scr u, u)
         else (0, u))"

section \<open>Reset and simulation\<close>

text \<open>\<open>uart_reset\<close> for the object \<open>CUart::Init\<close> allocates: a 16450.\<close>

definition uart_reset :: "uart_read list \<Rightarrow> uart" where
  "uart_reset input = uart_sched_recv_check
     \<lparr>u_txbuf = (\<lambda>_. 0), u_rxbuf = (\<lambda>_. 0), u_dll = 0, u_dlh = 0, u_ier = 0, u_iir = UART_IIR_NO_INT, u_fcr = 0,
      u_lcr = UART_LCR_RESET, u_mcr = 0, u_lsr = UART_LSR_TXBUFE OR UART_LSR_TXSERE, u_msr = 0, u_scr = 0, u_txser = 0,
      u_rxser = 0, u_loopback = 0, u_txbuf_head = 0, u_txbuf_tail = 0, u_rxbuf_head = 0, u_rxbuf_tail = 0, u_txbuf_full = 0,
      u_rxbuf_full = 0, u_receiveing = False, u_recv_break = False, u_ints = 0, u_char_clks = 0, u_fifo_len = 1,
      u_irqPending = False, u_events = [], u_curTime = 0, u_in = input, u_out = []\<rparr>"

definition uart_run_job :: "uart_job \<Rightarrow> uart \<Rightarrow> uart" where
  "uart_run_job job =
     (case job of J_char_clock \<Rightarrow> uart_char_clock | J_send_break \<Rightarrow> uart_send_break | J_tx_send \<Rightarrow> uart_tx_send
      | J_int_cti \<Rightarrow> uart_int_cti | J_recv_char \<Rightarrow> uart_recv_char | J_check_char \<Rightarrow> uart_check_char)"

text \<open>The loop of \<open>Simulate\<close>, with the number of events it may run.\<close>

fun run_events :: "nat \<Rightarrow> uart \<Rightarrow> uart option" where
  "run_events n u =
     (case u_events u of
        [] \<Rightarrow> Some u
      | (time, job) # es \<Rightarrow>
          if u_curTime u < time then Some u
          else (case n of 0 \<Rightarrow> None | Suc k \<Rightarrow> run_events k (uart_run_job job (u\<lparr>u_events := es\<rparr>))))"

definition sim_set_back :: "uart \<Rightarrow> uart" where
  "sim_set_back u =
     (if u_curTime u \<ge> 2 ^ 30
      then u\<lparr>u_curTime := u_curTime u - 2 ^ 30, u_events := map (\<lambda>(t, job). (int32 (t - 2 ^ 30), job)) (u_events u)\<rparr> else u)"

text \<open>The new time, with the wrap-around the code expects, and the time of the next event.\<close>

definition sim_advance :: "int \<Rightarrow> uart \<Rightarrow> uart" where
  "sim_advance steps u = (let t = int32 (u_curTime u + steps) in u\<lparr>u_curTime := (if t < 0 then 2 ^ 30 else t)\<rparr>)"

definition sim_result :: "uart \<Rightarrow> int" where
  "sim_result u = (case u_events u of [] \<Rightarrow> INT_MAX | e # _ \<Rightarrow> fst e)"

definition Simulate :: "nat \<Rightarrow> int \<Rightarrow> uart \<Rightarrow> (int \<times> uart) option" where
  "Simulate n steps u = map_option (\<lambda>v. (sim_result v, v)) (run_events n (sim_advance steps (sim_set_back u)))"

definition uart_IsAdressed :: "u32 \<Rightarrow> u32 \<Rightarrow> bool" where
  "uart_IsAdressed baseAdr adr \<longleftrightarrow> adr AND NOT 0xf = baseAdr"

section \<open>What the interrupt functions and the scheduler leave alone\<close>

text \<open>All but the interrupt state and the events.\<close>

definition uart_core :: "uart \<Rightarrow> uart" where
  "uart_core u = u\<lparr>u_ints := 0, u_iir := 0, u_irqPending := False, u_events := []\<rparr>"

lemmas uart_int_defs = uart_int_msi_def uart_int_thri_def uart_int_cti_def uart_int_rdi_def uart_int_rlsi_def report_int_def Let_def

lemma core_ints:
  "uart_core (uart_int_msi u) = uart_core u" "uart_core (uart_int_thri u) = uart_core u" "uart_core (uart_int_cti u) = uart_core u"
  "uart_core (uart_int_rdi u) = uart_core u" "uart_core (uart_int_rlsi u) = uart_core u"
  by (simp_all add: uart_core_def uart_int_defs)

lemma core_sched:
  "uart_core (SchedAdd job t u) = uart_core u" "uart_core (SchedFindRemove job u) = uart_core u"
  by (simp_all add: uart_core_def SchedAdd_def SchedFindRemove_def)

lemma core_checks: "uart_core (uart_check_rlsi u) = uart_core u" "uart_core (uart_check_rdi u) = uart_core u"
  by (simp_all add: uart_check_rlsi_def uart_check_rdi_def core_ints)

lemma core_next: "uart_core (uart_next_int u) = uart_core u"
proof -
  have "uart_core (u\<lparr>u_irqPending := b, u_iir := i\<rparr>) = uart_core u" for b i by (simp add: uart_core_def)
  then show ?thesis by (simp add: uart_next_int_def core_ints)
qed

lemma core_clear: "uart_core (uart_clear_int intr u) = uart_core u"
proof -
  have "uart_core (u\<lparr>u_ints := i\<rparr>) = uart_core u" for i by (simp add: uart_core_def)
  then show ?thesis by (simp add: uart_clear_int_def Let_def core_next core_sched)
qed

lemma core_fields:
  assumes "uart_core v = uart_core u"
  shows "u_txbuf v = u_txbuf u" "u_rxbuf v = u_rxbuf u" "u_dll v = u_dll u" "u_dlh v = u_dlh u" "u_ier v = u_ier u" "u_fcr v = u_fcr u"
    "u_lcr v = u_lcr u" "u_mcr v = u_mcr u" "u_lsr v = u_lsr u" "u_msr v = u_msr u" "u_scr v = u_scr u" "u_txser v = u_txser u"
    "u_rxser v = u_rxser u" "u_loopback v = u_loopback u" "u_txbuf_head v = u_txbuf_head u" "u_txbuf_tail v = u_txbuf_tail u"
    "u_rxbuf_head v = u_rxbuf_head u" "u_rxbuf_tail v = u_rxbuf_tail u" "u_txbuf_full v = u_txbuf_full u"
    "u_rxbuf_full v = u_rxbuf_full u" "u_char_clks v = u_char_clks u" "u_fifo_len v = u_fifo_len u" "u_curTime v = u_curTime u"
    "u_in v = u_in u" "u_out v = u_out u"
  using assms unfolding uart_core_def by (cases u; cases v; simp)+

lemmas uart_frame [simp] = core_fields [OF core_ints(1)] core_fields [OF core_ints(2)] core_fields [OF core_ints(3)]
  core_fields [OF core_ints(4)] core_fields [OF core_ints(5)] core_fields [OF core_sched(1)] core_fields [OF core_sched(2)]
  core_fields [OF core_checks(1)] core_fields [OF core_checks(2)] core_fields [OF core_next] core_fields [OF core_clear]

text \<open>The events: interrupts touch none but the timeout.\<close>

lemma events_ints [simp]:
  "u_events (uart_int_msi u) = u_events u" "u_events (uart_int_thri u) = u_events u" "u_events (uart_int_cti u) = u_events u"
  "u_events (uart_int_rdi u) = u_events u" "u_events (uart_int_rlsi u) = u_events u" "u_events (uart_check_rlsi u) = u_events u"
  "u_events (uart_check_rdi u) = u_events u"
  by (simp_all add: uart_int_defs uart_check_rlsi_def uart_check_rdi_def)

lemma events_next [simp]: "u_events (uart_next_int u) = u_events u"
  by (simp add: uart_next_int_def)

lemma events_clear: "u_events (uart_clear_int intr u) =
    (if intr = UART_IIR_CTI then filter (\<lambda>e. snd e \<noteq> J_int_cti) (u_events u) else u_events u)"
  by (simp add: uart_clear_int_def SchedFindRemove_def Let_def)

section \<open>Interrupt identification\<close>

lemma int_pending_bit: "unat i < 32 \<Longrightarrow> int_pending i u \<longleftrightarrow> bit (u_ints u) (unat i)"
proof -
  assume i: "unat i < 32"
  have "u_ints u AND int_bit i = (if bit (u_ints u) (unat i) then int_bit i else 0)"
    by (rule bit_word_eqI) (auto simp: int_bit_def bit_and_iff bit_exp_iff)
  moreover have "int_bit i \<noteq> 0" using i by (simp add: int_bit_def push_bit_eq_0_iff)
  ultimately show ?thesis by (simp add: int_pending_def)
qed

lemma bit_int_bit: "unat i < 32 \<Longrightarrow> bit (int_bit i) n \<longleftrightarrow> n = unat i"
  by (auto simp: int_bit_def bit_exp_iff)

text \<open>The interrupts in the order of their priority, highest first, with the bit that enables them.\<close>

definition int_prio :: "(byte \<times> byte) list" where
  "int_prio = [(UART_IIR_RLSI, UART_IER_RLSI), (UART_IIR_RDI, UART_IER_RDI), (UART_IIR_CTI, UART_IER_RDI),
     (UART_IIR_THRI, UART_IER_THRI), (UART_IIR_MSI, UART_IER_MSI)]"

definition int_on :: "nat \<Rightarrow> uart \<Rightarrow> bool" where
  "int_on k u \<longleftrightarrow> int_pending (fst (int_prio ! k)) u \<and> u_ier u AND snd (int_prio ! k) \<noteq> 0"

lemma less_5_cases: "(k :: nat) < 5 \<Longrightarrow> k = 0 \<or> k = 1 \<or> k = 2 \<or> k = 3 \<or> k = 4"
  by auto

lemma int_prio_nth:
  "int_prio ! 0 = (6, 4)" "int_prio ! 1 = (4, 1)" "int_prio ! 2 = (0xc, 1)" "int_prio ! 3 = (2, 2)" "int_prio ! 4 = (0, 8)"
  by (simp_all add: int_prio_def)

lemma int_on_bits: "int_on 0 u \<longleftrightarrow> bit (u_ints u) 6 \<and> u_ier u AND 4 \<noteq> 0" "int_on 1 u \<longleftrightarrow> bit (u_ints u) 4 \<and> u_ier u AND 1 \<noteq> 0"
  "int_on 2 u \<longleftrightarrow> bit (u_ints u) 12 \<and> u_ier u AND 1 \<noteq> 0" "int_on 3 u \<longleftrightarrow> bit (u_ints u) 2 \<and> u_ier u AND 2 \<noteq> 0"
  "int_on 4 u \<longleftrightarrow> bit (u_ints u) 0 \<and> u_ier u AND 8 \<noteq> 0"
  unfolding int_on_def int_prio_nth by (simp_all add: int_pending_bit)

lemma ex_less_5: "(\<exists>k < 5. P k) \<longleftrightarrow> P 0 \<or> P 1 \<or> P 2 \<or> P 3 \<or> P (4 :: nat)"
  by (auto simp: numeral_eq_Suc Ex_less_Suc)

text \<open>The line and \<open>iir\<close> agree, and something is reported as long as an enabled interrupt is pending.\<close>

definition irq_ok :: "uart \<Rightarrow> bool" where
  "irq_ok u \<longleftrightarrow> u_iir u \<in> {0, 1, 2, 4, 6, 0xc} \<and> (u_irqPending u \<longleftrightarrow> u_iir u \<noteq> 1) \<and> ((\<exists>k < 5. int_on k u) \<longrightarrow> u_iir u \<noteq> 1)"

lemma irq_ok_iff: "irq_ok u \<longleftrightarrow> u_iir u \<in> {0, 1, 2, 4, 6, 0xc} \<and> (u_irqPending u \<longleftrightarrow> u_iir u \<noteq> 1)
    \<and> (u_iir u = 1 \<longrightarrow> \<not> (bit (u_ints u) 6 \<and> u_ier u AND 4 \<noteq> 0) \<and> \<not> (bit (u_ints u) 4 \<and> u_ier u AND 1 \<noteq> 0)
         \<and> \<not> (bit (u_ints u) 12 \<and> u_ier u AND 1 \<noteq> 0) \<and> \<not> (bit (u_ints u) 2 \<and> u_ier u AND 2 \<noteq> 0)
         \<and> \<not> (bit (u_ints u) 0 \<and> u_ier u AND 8 \<noteq> 0))"
  unfolding irq_ok_def ex_less_5 int_on_bits by blast

lemma irq_ok_ints:
  assumes "irq_ok u"
  shows "irq_ok (uart_int_msi u)" "irq_ok (uart_int_thri u)" "irq_ok (uart_int_cti u)" "irq_ok (uart_int_rdi u)" "irq_ok (uart_int_rlsi u)"
  using assms unfolding irq_ok_iff
  by (auto simp: uart_int_defs bit_or_iff bit_int_bit)

lemma irq_ok_next:
  assumes "u_iir u \<in> {0, 1, 2, 4, 6, 0xc}" "u_irqPending u \<longleftrightarrow> u_iir u \<noteq> 1"
  shows "irq_ok (uart_next_int u)"
proof -
  have p: "int_pending 6 u \<longleftrightarrow> bit (u_ints u) 6" "int_pending 4 u \<longleftrightarrow> bit (u_ints u) 4" "int_pending 0xc u \<longleftrightarrow> bit (u_ints u) 12"
    "int_pending 2 u \<longleftrightarrow> bit (u_ints u) 2" "int_pending 0 u \<longleftrightarrow> bit (u_ints u) 0" by (simp_all add: int_pending_bit)
  show ?thesis using assms unfolding uart_next_int_def p irq_ok_iff
    by (auto simp: uart_int_defs)
qed

lemma irq_ok_clear: "irq_ok u \<Longrightarrow> irq_ok (uart_clear_int intr u)"
  by (auto simp: uart_clear_int_def Let_def SchedFindRemove_def irq_ok_next [unfolded irq_ok_def] intro!: irq_ok_next)
    (auto simp: irq_ok_iff bit_and_iff)

lemma irq_ok_checks: "irq_ok u \<Longrightarrow> irq_ok (uart_check_rlsi u)" "irq_ok u \<Longrightarrow> irq_ok (uart_check_rdi u)"
  by (simp_all add: uart_check_rlsi_def uart_check_rdi_def irq_ok_ints)

lemma irq_ok_cong: "u_ints v = u_ints u \<Longrightarrow> u_iir v = u_iir u \<Longrightarrow> u_irqPending v = u_irqPending u \<Longrightarrow> u_ier v = u_ier u \<Longrightarrow> irq_ok v = irq_ok u"
  unfolding irq_ok_iff by simp

section \<open>Bounds\<close>

text \<open>Places in range, and the receive FIFO: \<open>full\<close> characters from \<open>tail\<close> to \<open>head\<close>.\<close>

definition fifos_ok :: "uart \<Rightarrow> bool" where
  "fifos_ok u \<longleftrightarrow> (u_fifo_len u = 1 \<or> u_fifo_len u = 16) \<and> u_txbuf_head u < u_fifo_len u \<and> u_txbuf_tail u < u_fifo_len u
     \<and> u_rxbuf_tail u < u_fifo_len u \<and> unat (u_rxbuf_full u) \<le> u_fifo_len u
     \<and> u_rxbuf_head u = (u_rxbuf_tail u + unat (u_rxbuf_full u)) mod u_fifo_len u"

definition uart_ok :: "uart \<Rightarrow> bool" where
  "uart_ok u \<longleftrightarrow> fifos_ok u \<and> irq_ok u"

lemma fifos_ok_cong:
  assumes "uart_core v = uart_core u"
  shows "fifos_ok v = fifos_ok u"
  unfolding fifos_ok_def core_fields [OF assms] ..

lemma irq_ok_sched: "irq_ok (SchedAdd job t u) = irq_ok u" "irq_ok (SchedFindRemove job u) = irq_ok u"
  by (rule irq_ok_cong; simp add: SchedAdd_def SchedFindRemove_def)+

lemmas fifos_ok_core [simp] = fifos_ok_cong [OF core_ints(1)] fifos_ok_cong [OF core_ints(2)] fifos_ok_cong [OF core_ints(3)]
  fifos_ok_cong [OF core_ints(4)] fifos_ok_cong [OF core_ints(5)] fifos_ok_cong [OF core_sched(1)] fifos_ok_cong [OF core_sched(2)]
  fifos_ok_cong [OF core_checks(1)] fifos_ok_cong [OF core_checks(2)] fifos_ok_cong [OF core_next] fifos_ok_cong [OF core_clear]

lemma uart_ok_parts [simp]:
  "uart_ok u \<Longrightarrow> uart_ok (uart_int_msi u)" "uart_ok u \<Longrightarrow> uart_ok (uart_int_thri u)" "uart_ok u \<Longrightarrow> uart_ok (uart_int_cti u)"
  "uart_ok u \<Longrightarrow> uart_ok (uart_int_rdi u)" "uart_ok u \<Longrightarrow> uart_ok (uart_int_rlsi u)" "uart_ok u \<Longrightarrow> uart_ok (uart_check_rlsi u)"
  "uart_ok u \<Longrightarrow> uart_ok (uart_check_rdi u)" "uart_ok u \<Longrightarrow> uart_ok (uart_clear_int intr u)"
  "uart_ok (SchedAdd job t u) = uart_ok u" "uart_ok (SchedFindRemove job u) = uart_ok u"
  by (simp_all add: uart_ok_def irq_ok_ints irq_ok_checks irq_ok_clear irq_ok_sched)

text \<open>Changes of other registers.\<close>

lemma uart_ok_cong:
  assumes "u_ints v = u_ints u" "u_iir v = u_iir u" "u_irqPending v = u_irqPending u" "u_ier v = u_ier u" "u_fifo_len v = u_fifo_len u"
    "u_txbuf_head v = u_txbuf_head u" "u_txbuf_tail v = u_txbuf_tail u" "u_rxbuf_head v = u_rxbuf_head u" "u_rxbuf_tail v = u_rxbuf_tail u"
    "u_rxbuf_full v = u_rxbuf_full u"
  shows "uart_ok v = uart_ok u"
  unfolding uart_ok_def fifos_ok_def irq_ok_cong [OF assms(1-4)] assms ..

lemma uart_ok_upd [simp]:
  "uart_ok (u\<lparr>u_lsr := a\<rparr>) = uart_ok u" "uart_ok (u\<lparr>u_msr := a\<rparr>) = uart_ok u" "uart_ok (u\<lparr>u_mcr := a\<rparr>) = uart_ok u"
  "uart_ok (u\<lparr>u_scr := a\<rparr>) = uart_ok u" "uart_ok (u\<lparr>u_dlh := a\<rparr>) = uart_ok u" "uart_ok (u\<lparr>u_dll := a, u_char_clks := n\<rparr>) = uart_ok u"
  "uart_ok (u\<lparr>u_lcr := a, u_char_clks := n\<rparr>) = uart_ok u" "uart_ok (u\<lparr>u_out := l\<rparr>) = uart_ok u" "uart_ok (u\<lparr>u_in := l'\<rparr>) = uart_ok u"
  "uart_ok (u\<lparr>u_loopback := a\<rparr>) = uart_ok u" "uart_ok (u\<lparr>u_receiveing := b\<rparr>) = uart_ok u" "uart_ok (u\<lparr>u_events := es\<rparr>) = uart_ok u"
  "uart_ok (u\<lparr>u_rxser := c\<rparr>) = uart_ok u" "uart_ok (u\<lparr>u_curTime := t\<rparr>) = uart_ok u"
  "uart_ok (u\<lparr>u_curTime := t, u_events := es\<rparr>) = uart_ok u" "uart_ok (u\<lparr>u_txbuf := B\<rparr>) = uart_ok u"
  by (rule uart_ok_cong; simp)+

lemma uart_ok_loopback: "uart_ok u \<Longrightarrow> uart_ok (uart_loopback u)"
  by (simp add: uart_loopback_def Let_def)

lemma uart_ok_irq: "uart_ok u \<Longrightarrow> u_iir u \<in> {0, 1, 2, 4, 6, 0xc} \<and> (u_irqPending u \<longleftrightarrow> u_iir u \<noteq> 1)"
  by (simp add: uart_ok_def irq_ok_def)

lemma uart_ok_ier: "uart_ok u \<Longrightarrow> uart_ok (uart_next_int (u\<lparr>u_ier := a\<rparr>))"
proof -
  assume u: "uart_ok u"
  then have "irq_ok (uart_next_int (u\<lparr>u_ier := a\<rparr>))" by (intro irq_ok_next) (auto dest: uart_ok_irq)
  then show ?thesis using u by (simp add: uart_ok_def) (simp add: fifos_ok_def)
qed

text \<open>Changes of the FIFOs.\<close>

lemma uart_ok_tx:
  assumes "uart_ok u"
  shows "uart_ok (u\<lparr>u_txbuf := B, u_txbuf_head := (u_txbuf_head u + 1) mod u_fifo_len u, u_txbuf_full := n\<rparr>)"
    "uart_ok (u\<lparr>u_txser := b, u_txbuf_tail := (u_txbuf_tail u + 1) mod u_fifo_len u, u_txbuf_full := n, u_lsr := l\<rparr>)"
  using assms by (auto simp: uart_ok_def irq_ok_iff fifos_ok_def)

lemma uart_ok_len: "uart_ok u \<Longrightarrow> 0 < u_fifo_len u \<and> unat (of_nat (u_fifo_len u) :: u32) = u_fifo_len u"
  by (auto simp: uart_ok_def fifos_ok_def)

lemma uart_ok_rx_full:
  assumes "uart_ok u"
  shows "of_nat (u_fifo_len u) < u_rxbuf_full u + 1 \<longleftrightarrow> unat (u_rxbuf_full u) = u_fifo_len u"
    "unat (u_rxbuf_full u + 1) = unat (u_rxbuf_full u) + 1"
proof -
  have b: "unat (u_rxbuf_full u) \<le> 16" and l: "unat (u_rxbuf_full u) \<le> u_fifo_len u" using assms by (auto simp: uart_ok_def fifos_ok_def)
  show s: "unat (u_rxbuf_full u + 1) = unat (u_rxbuf_full u) + 1" using b by (simp add: unat_word_ariths)
  show "of_nat (u_fifo_len u) < u_rxbuf_full u + 1 \<longleftrightarrow> unat (u_rxbuf_full u) = u_fifo_len u"
    using l uart_ok_len [OF assms] by (auto simp: word_less_nat_alt s)
qed

lemma uart_ok_rx_add:
  assumes "uart_ok u" "unat (u_rxbuf_full u) < u_fifo_len u"
  shows "uart_ok (u\<lparr>u_rxbuf := B, u_rxbuf_head := (u_rxbuf_head u + 1) mod u_fifo_len u, u_rxbuf_full := u_rxbuf_full u + 1\<rparr>)"
  using assms uart_ok_rx_full(2) [OF assms(1)] by (auto simp: uart_ok_def irq_ok_iff fifos_ok_def mod_simps)

lemma uart_ok_rx_take:
  assumes "uart_ok u" "u_rxbuf_full u \<noteq> 0"
  shows "uart_ok (u\<lparr>u_rxbuf_tail := (u_rxbuf_tail u + 1) mod u_fifo_len u, u_rxbuf_full := u_rxbuf_full u - 1\<rparr>)"
proof -
  have f: "0 < unat (u_rxbuf_full u)" using assms(2) by (simp add: unat_gt_0)
  have m: "unat (u_rxbuf_full u - 1) = unat (u_rxbuf_full u) - 1" using assms(2) by (simp add: unat_minus_one)
  have "((u_rxbuf_tail u + 1) mod u_fifo_len u + (unat (u_rxbuf_full u) - 1)) mod u_fifo_len u
      = (u_rxbuf_tail u + 1 + (unat (u_rxbuf_full u) - 1)) mod u_fifo_len u" by (rule mod_add_left_eq)
  also have "u_rxbuf_tail u + 1 + (unat (u_rxbuf_full u) - 1) = u_rxbuf_tail u + unat (u_rxbuf_full u)" using f by simp
  finally have "fifos_ok (u\<lparr>u_rxbuf_tail := (u_rxbuf_tail u + 1) mod u_fifo_len u, u_rxbuf_full := u_rxbuf_full u - 1\<rparr>)"
    using assms(1) m by (auto simp: uart_ok_def fifos_ok_def)
  then show ?thesis using assms(1) by (simp add: uart_ok_def irq_ok_iff)
qed

text \<open>Resets of the FIFOs, with a new length.\<close>

lemma uart_ok_fcr: "uart_ok u \<Longrightarrow> uart_ok (uart_write_fcr value u)"
proof -
  assume u: "uart_ok u"
  define fie where "fie \<longleftrightarrow> value AND 0x01 \<noteq> 0"
  define v where "v = (if u_fifo_len u = 1 \<and> fie \<or> u_fifo_len u \<noteq> 1 \<and> \<not> fie then value OR (0x02 OR 0x04) else value)"
  define u1 where "u1 = u\<lparr>u_fcr := value AND 0xc0, u_fifo_len := (if fie then 16 else 1)\<rparr>"
  define t where "t = u1\<lparr>u_txbuf_head := 0, u_txbuf_tail := 0, u_txbuf_full := 0, u_lsr := u_lsr u1 OR UART_LSR_TXBUFE\<rparr>"
  define u2 where "u2 = (if v AND 0x04 \<noteq> 0 then SchedFindRemove J_tx_send (if u_fifo_len t = 16 then uart_int_thri t else t) else u1)"
  define r where "r = u2\<lparr>u_rxbuf_head := 0, u_rxbuf_tail := 0, u_rxbuf_full := 0, u_lsr := u_lsr u2 AND NOT UART_LSR_RDRDY\<rparr>"
  have W: "uart_write_fcr value u = (if v AND 0x02 \<noteq> 0 then uart_clear_int UART_IIR_CTI (uart_clear_int UART_IIR_RDI r) else u2)"
    unfolding uart_write_fcr_def r_def u2_def t_def u1_def v_def fie_def Let_def ..
  have len: "u_fifo_len u = 1 \<or> u_fifo_len u = 16" using u by (simp add: uart_ok_def fifos_ok_def)
  have irq: "irq_ok u1" "irq_ok t" using u by (simp_all add: uart_ok_def irq_ok_iff u1_def t_def)
  then have "irq_ok u2" by (simp add: u2_def irq_ok_sched irq_ok_ints)
  then have irq_r: "irq_ok r" by (simp add: irq_ok_iff r_def)
  have v2: "(v AND 0x02 \<noteq> 0 \<and> v AND 0x04 \<noteq> 0) \<or> u_fifo_len u = (if fie then 16 else 1)"
    using len by (auto simp: v_def bit.conj_disj_distrib2 word_bw_assocs)
  have len1: "u_fifo_len u1 = 1 \<or> u_fifo_len u1 = 16" by (simp add: u1_def)
  have len2: "u_fifo_len u2 = u_fifo_len u1" by (simp add: u2_def t_def)
  show ?thesis
  proof (cases "v AND 0x02 \<noteq> 0 \<and> v AND 0x04 \<noteq> 0")
    case True
    then have "u_txbuf_head u2 = 0" "u_txbuf_tail u2 = 0" by (simp_all add: u2_def t_def)
    then have "fifos_ok r" using len1 len2 by (auto simp: fifos_ok_def r_def)
    then show ?thesis using True irq_r by (simp add: W uart_ok_def irq_ok_clear)
  next
    case False
    then have l: "u_fifo_len u1 = u_fifo_len u" using v2 by (auto simp: u1_def)
    then have "fifos_ok u1" using u by (auto simp: uart_ok_def fifos_ok_def u1_def)
    moreover from this have "fifos_ok t" by (auto simp: fifos_ok_def t_def)
    ultimately have "fifos_ok u2" by (simp add: u2_def)
    moreover from this have "fifos_ok r" by (auto simp: fifos_ok_def r_def)
    ultimately show ?thesis using irq_r \<open>irq_ok u2\<close> by (simp add: W uart_ok_def irq_ok_clear)
  qed
qed

text \<open>Every access and every job keeps it.\<close>

lemma uart_ok_write_tx: "uart_ok u \<Longrightarrow> uart_ok (uart_write_tx value u)"
proof -
  assume u: "uart_ok u"
  define u1 where "u1 = u\<lparr>u_lsr := u_lsr u AND NOT UART_LSR_TXBUFE\<rparr>"
  have u1: "uart_ok u1" using u by (simp add: u1_def)
  define v where "v = u1\<lparr>u_txbuf := (u_txbuf u1)(u_txbuf_head u1 := value),
      u_txbuf_head := (u_txbuf_head u1 + 1) mod u_fifo_len u1, u_txbuf_full := u_txbuf_full u1 + 1\<rparr>"
  have v: "uart_ok v" unfolding v_def by (rule uart_ok_tx) (rule u1)
  show ?thesis unfolding uart_write_tx_def Let_def u1_def [symmetric] v_def [symmetric] using u1 v by simp
qed

lemma uart_ok_write_lcr: "uart_ok u \<Longrightarrow> uart_ok (uart_write_lcr value u)"
  by (simp add: uart_write_lcr_def Let_def)

lemma uart_ok_write: "uart_ok u \<Longrightarrow> uart_ok (uart_write_byte addr value u)"
  by (simp add: uart_write_byte_def Let_def uart_ok_write_tx uart_ok_fcr uart_ok_ier uart_ok_write_lcr uart_ok_loopback)

lemma uart_ok_read_rx: "uart_ok u \<Longrightarrow> uart_ok (snd (uart_read_rx u))"
proof -
  have "uart_ok u \<Longrightarrow> uart_ok (snd (uart_rx_take u))" using uart_ok_rx_take by (simp add: uart_rx_take_def)
  moreover have "uart_ok v \<Longrightarrow> uart_ok (uart_rx_next v)" for v by (simp add: uart_rx_next_def)
  moreover assume "uart_ok u"
  ultimately show ?thesis by (simp add: uart_read_rx_def split_beta Let_def)
qed

lemma uart_ok_read: "uart_ok u \<Longrightarrow> uart_ok (snd (uart_read_byte addr u))"
  by (simp add: uart_read_byte_def Let_def uart_ok_read_rx uart_ok_loopback)

lemma uart_ok_tx_send: "uart_ok u \<Longrightarrow> uart_ok (uart_tx_send u)"
proof -
  assume u: "uart_ok u"
  define u1 where "u1 = u\<lparr>u_txser := u_txbuf u (u_txbuf_tail u), u_txbuf_tail := (u_txbuf_tail u + 1) mod u_fifo_len u,
                 u_txbuf_full := u_txbuf_full u - 1, u_lsr := u_lsr u AND NOT UART_LSR_TXSERE\<rparr>"
  have u1: "uart_ok u1" unfolding u1_def by (rule uart_ok_tx) (rule u)
  show ?thesis unfolding uart_tx_send_def u1_def [symmetric] using u1 by (simp add: Let_def)
qed

lemma uart_ok_add_char: "uart_ok u \<Longrightarrow> uart_ok (uart_add_char ch u)"
proof -
  assume u: "uart_ok u"
  define u1 where "u1 = uart_clear_int UART_IIR_CTI (u\<lparr>u_lsr := u_lsr u OR UART_LSR_RDRDY\<rparr>)"
  define u2 where "u2 = SchedAdd J_int_cti (u_char_clks u1 * UART_CHAR_TIMEOUT * UART_CLOCK_DIVIDER) u1"
  have u2: "uart_ok u2" using u by (simp add: u2_def u1_def)
  define v where "v = u2\<lparr>u_rxbuf := (u_rxbuf u2)(u_rxbuf_head u2 := ch),
      u_rxbuf_head := (u_rxbuf_head u2 + 1) mod u_fifo_len u2, u_rxbuf_full := u_rxbuf_full u2 + 1\<rparr>"
  have v: "unat (u_rxbuf_full u2) < u_fifo_len u2 \<Longrightarrow> uart_ok v" unfolding v_def by (rule uart_ok_rx_add [OF u2])
  have full: "\<not> of_nat (u_fifo_len u2) < u_rxbuf_full u2 + 1 \<Longrightarrow> unat (u_rxbuf_full u2) < u_fifo_len u2"
    using uart_ok_rx_full(1) [OF u2] u2 by (auto simp: uart_ok_def fifos_ok_def)
  define c where "c \<longleftrightarrow> of_nat (u_fifo_len u2) < u_rxbuf_full u2 + 1"
  show ?thesis unfolding uart_add_char_def Let_def u1_def [symmetric] u2_def [symmetric] v_def [symmetric] c_def [symmetric]
    using u2 v [OF full [folded c_def]] by simp
qed

lemma uart_ok_job: "uart_ok u \<Longrightarrow> uart_ok (uart_run_job job u)"
  by (cases job) (simp_all add: uart_run_job_def uart_char_clock_def uart_send_break_def uart_tx_next_def send_char_def uart_ok_tx_send
    uart_recv_char_def uart_ok_add_char uart_sched_recv_check_def uart_check_char_def channel_read_def Let_def
    split: list.split uart_read.split)

lemma uart_ok_run: "uart_ok u \<Longrightarrow> run_events n u = Some v \<Longrightarrow> uart_ok v"
proof (induction n u rule: run_events.induct)
  case (1 n u)
  show ?case
  proof (cases "u_events u")
    case Nil
    with 1 show ?thesis by simp
  next
    case (Cons e es)
    then obtain time job where e: "u_events u = (time, job) # es" by (cases e) auto
    show ?thesis
    proof (cases "u_curTime u < time")
      case True
      with 1 e show ?thesis by simp
    next
      case False
      then obtain k where k: "n = Suc k" using 1 e by (cases n) auto
      have "uart_ok (uart_run_job job (u\<lparr>u_events := es\<rparr>))" using 1 by (intro uart_ok_job) simp
      then show ?thesis using 1 e False k by (simp del: run_events.simps add: run_events.simps [of _ u])
    qed
  qed
qed

text \<open>What a program and the testbench can do with the UART.\<close>

inductive uart_reach :: "uart \<Rightarrow> bool" where
  uart_init: "uart_reach (uart_reset input)"
| uart_write: "uart_reach u \<Longrightarrow> uart_reach (uart_write_byte addr value u)"
| uart_read: "uart_reach u \<Longrightarrow> uart_reach (snd (uart_read_byte addr u))"
| uart_simulate: "uart_reach u \<Longrightarrow> Simulate n steps u = Some (r, v) \<Longrightarrow> uart_reach v"

lemma uart_ok_reset: "uart_ok (uart_reset input)"
  by (simp add: uart_reset_def uart_sched_recv_check_def) (simp add: uart_ok_def fifos_ok_def irq_ok_iff)

lemma uart_reach_ok: "uart_reach u \<Longrightarrow> uart_ok u"
proof (induction rule: uart_reach.induct)
  case (uart_simulate u n steps r v)
  have "uart_ok (sim_advance steps (sim_set_back u))" using uart_simulate by (simp add: sim_advance_def sim_set_back_def Let_def)
  then show ?case using uart_simulate uart_ok_run by (auto simp: Simulate_def simp del: run_events.simps)
qed (simp_all add: uart_ok_reset uart_ok_write uart_ok_read)

section \<open>Ring buffers\<close>

definition ring :: "(nat \<Rightarrow> 'a) \<Rightarrow> nat \<Rightarrow> nat \<Rightarrow> nat \<Rightarrow> 'a list" where
  "ring f t n l = map (\<lambda>i. f ((t + i) mod l)) [0..<n]"

lemma ring_0 [simp]: "ring f t 0 l = []"
  by (simp add: ring_def)

lemma length_ring [simp]: "length (ring f t n l) = n"
  by (simp add: ring_def)

lemma ring_other: "i < n \<Longrightarrow> n < l \<Longrightarrow> (t + i) mod l \<noteq> (t + n) mod (l :: nat)"
proof
  assume i: "i < n" "n < l" and e: "(t + i) mod l = (t + n) mod l"
  then have "l dvd (t + n) - (t + i)" using mod_eq_dvd_iff_nat [of "t + i" "t + n" l] by simp
  then have "l dvd n - i" by simp
  with i show False by (auto dest: dvd_imp_le)
qed

lemma ring_put: "n < l \<Longrightarrow> ring (f((t + n) mod l := x)) t (Suc n) l = ring f t n l @ [x]"
  using ring_other [of _ n l t] by (auto simp: ring_def)

lemma ring_take: "0 < n \<Longrightarrow> ring f t n l = f (t mod l) # ring f ((t + 1) mod l) (n - 1) l"
proof -
  assume "0 < n"
  then have "[0..<n] = 0 # map Suc [0..<n - 1]" by (metis Suc_diff_1 map_Suc_upt upt_conv_Cons)
  then show ?thesis by (simp add: ring_def mod_simps)
qed

section \<open>Receiving\<close>

definition rx_queue :: "uart \<Rightarrow> u16 list" where
  "rx_queue u = ring (u_rxbuf u) (u_rxbuf_tail u) (unat (u_rxbuf_full u)) (u_fifo_len u)"

lemma rx_queue_core:
  assumes "uart_core v = uart_core u"
  shows "rx_queue v = rx_queue u"
  unfolding rx_queue_def core_fields [OF assms] ..

lemmas rx_queue_frame [simp] = rx_queue_core [OF core_ints(1)] rx_queue_core [OF core_ints(2)] rx_queue_core [OF core_ints(3)]
  rx_queue_core [OF core_ints(4)] rx_queue_core [OF core_ints(5)] rx_queue_core [OF core_sched(1)] rx_queue_core [OF core_sched(2)]
  rx_queue_core [OF core_checks(1)] rx_queue_core [OF core_checks(2)] rx_queue_core [OF core_next] rx_queue_core [OF core_clear]

lemma rx_queue_lsr [simp]: "rx_queue (u\<lparr>u_lsr := l\<rparr>) = rx_queue u"
  by (simp add: rx_queue_def)

lemma uart_read_rx_queue:
  assumes "uart_ok u"
  shows "rx_queue (snd (uart_read_rx u)) = tl (rx_queue u)"
    "fst (uart_read_rx u) = (case rx_queue u of [] \<Rightarrow> 0 | c # _ \<Rightarrow> ucast c)"
proof -
  have t: "u_rxbuf_tail u mod u_fifo_len u = u_rxbuf_tail u" using assms by (simp add: uart_ok_def fifos_ok_def)
  have "rx_queue (snd (uart_rx_take u)) = tl (rx_queue u) \<and> fst (uart_rx_take u) = (case rx_queue u of [] \<Rightarrow> 0 | c # _ \<Rightarrow> ucast c)"
  proof (cases "u_rxbuf_full u = 0")
    case True
    then show ?thesis by (simp add: uart_rx_take_def rx_queue_def)
  next
    case False
    then have "0 < unat (u_rxbuf_full u)" "unat (u_rxbuf_full u - 1) = unat (u_rxbuf_full u) - 1"
      by (simp_all add: unat_gt_0 unat_minus_one)
    then show ?thesis using ring_take [of "unat (u_rxbuf_full u)" "u_rxbuf u" "u_rxbuf_tail u" "u_fifo_len u"] t False
      by (simp add: uart_rx_take_def rx_queue_def)
  qed
  moreover have "rx_queue (uart_rx_next v) = rx_queue v" for v by (simp add: uart_rx_next_def)
  ultimately show "rx_queue (snd (uart_read_rx u)) = tl (rx_queue u)"
    "fst (uart_read_rx u) = (case rx_queue u of [] \<Rightarrow> 0 | c # _ \<Rightarrow> ucast c)"
    by (simp_all add: uart_read_rx_def split_beta Let_def)
qed

lemma uart_add_char_queue:
  assumes "uart_ok u"
  shows "rx_queue (uart_add_char ch u) = (if length (rx_queue u) < u_fifo_len u then rx_queue u @ [ch] else rx_queue u)"
    "length (rx_queue u) = u_fifo_len u \<Longrightarrow> u_lsr (uart_add_char ch u) = u_lsr u OR 0x83"
proof -
  define u1 where "u1 = uart_clear_int UART_IIR_CTI (u\<lparr>u_lsr := u_lsr u OR UART_LSR_RDRDY\<rparr>)"
  define u2 where "u2 = SchedAdd J_int_cti (u_char_clks u1 * UART_CHAR_TIMEOUT * UART_CLOCK_DIVIDER) u1"
  have u2: "uart_ok u2" using assms by (simp add: u2_def u1_def)
  have q: "rx_queue u2 = rx_queue u" "u_fifo_len u2 = u_fifo_len u" "u_rxbuf_full u2 = u_rxbuf_full u"
    "u_lsr u2 = u_lsr u OR 1" by (simp_all add: u2_def u1_def)
  define v where "v = u2\<lparr>u_rxbuf := (u_rxbuf u2)(u_rxbuf_head u2 := ch),
      u_rxbuf_head := (u_rxbuf_head u2 + 1) mod u_fifo_len u2, u_rxbuf_full := u_rxbuf_full u2 + 1\<rparr>"
  define c where "c \<longleftrightarrow> of_nat (u_fifo_len u2) < u_rxbuf_full u2 + 1"
  have c: "c \<longleftrightarrow> length (rx_queue u) = u_fifo_len u" using uart_ok_rx_full(1) [OF u2] by (simp add: c_def q) (simp add: rx_queue_def)
  have le: "length (rx_queue u) \<le> u_fifo_len u" using assms by (simp add: rx_queue_def uart_ok_def fifos_ok_def)
  have add: "rx_queue v = rx_queue u2 @ [ch]" if "\<not> c"
  proof -
    have "unat (u_rxbuf_full u2) < u_fifo_len u2" using that le c by (simp add: q rx_queue_def)
    moreover have "u_rxbuf_head u2 = (u_rxbuf_tail u2 + unat (u_rxbuf_full u2)) mod u_fifo_len u2" using u2 by (simp add: uart_ok_def fifos_ok_def)
    ultimately show ?thesis using uart_ok_rx_full(2) [OF u2] by (simp add: rx_queue_def v_def ring_put)
  qed
  have split: "uart_add_char ch u = uart_check_rdi (if c
      then uart_int_rlsi (u2\<lparr>u_lsr := u_lsr u2 OR (UART_LSR_OVRRUN OR UART_LSR_RXERR)\<rparr>)
      else if u_rxbuf_full u2 = 0 then uart_check_rlsi (v\<lparr>u_lsr := u_lsr v OR ucast (drop_bit 8 ch)\<rparr>) else v)"
    unfolding uart_add_char_def Let_def u1_def [symmetric] u2_def [symmetric] v_def [symmetric] c_def [symmetric] ..
  show "rx_queue (uart_add_char ch u) = (if length (rx_queue u) < u_fifo_len u then rx_queue u @ [ch] else rx_queue u)"
    unfolding split using c le add q(1) by (cases c) simp_all
  show "u_lsr (uart_add_char ch u) = u_lsr u OR 0x83" if "length (rx_queue u) = u_fifo_len u"
    unfolding split using c that by (simp add: q or.assoc)
qed

section \<open>Transmitting\<close>

definition jobs :: "uart_job \<Rightarrow> uart \<Rightarrow> nat" where
  "jobs j u = length (filter (\<lambda>e. snd e = j) (u_events u))"

lemma filter_insert: "length (filter P (sched_insert t e es)) = length (filter P es) + (if P e then 1 else 0)"
  by (induction es) auto

lemma jobs_add: "jobs j (SchedAdd k t u) = jobs j u + (if j = k then 1 else 0)"
  by (simp add: jobs_def SchedAdd_def filter_insert)

lemma jobs_remove: "jobs j (SchedFindRemove k u) = (if j = k then 0 else jobs j u)"
  by (auto simp: jobs_def SchedFindRemove_def intro!: arg_cong [where f = length] filter_cong)

lemma jobs_ints [simp]:
  "jobs j (uart_int_msi u) = jobs j u" "jobs j (uart_int_thri u) = jobs j u" "jobs j (uart_int_cti u) = jobs j u"
  "jobs j (uart_int_rdi u) = jobs j u" "jobs j (uart_int_rlsi u) = jobs j u" "jobs j (uart_check_rlsi u) = jobs j u"
  "jobs j (uart_check_rdi u) = jobs j u" "jobs j (uart_next_int u) = jobs j u"
  by (simp_all add: jobs_def)

lemma jobs_clear: "j \<noteq> J_int_cti \<Longrightarrow> jobs j (uart_clear_int intr u) = jobs j u"
  by (auto simp: jobs_def events_clear intro!: arg_cong [where f = length] filter_cong)

text \<open>The transmitter: what it holds, and the jobs it has waiting.\<close>

definition tx_busy :: "uart \<Rightarrow> bool" where
  "tx_busy u \<longleftrightarrow> \<not> bit (u_lsr u) 6"

definition tx_queue :: "uart \<Rightarrow> byte list" where
  "tx_queue u = ring (u_txbuf u) (u_txbuf_tail u) (unat (u_txbuf_full u)) (u_fifo_len u)"

text \<open>The characters on their way: written out, in the shift register, in the FIFO.\<close>

definition tx_view :: "uart \<Rightarrow> byte list" where
  "tx_view u = u_out u @ (if tx_busy u then [u_txser u] else []) @ tx_queue u"

definition tx_jobs_ok :: "bool \<Rightarrow> nat \<Rightarrow> nat \<Rightarrow> nat \<Rightarrow> nat \<Rightarrow> bool" where
  "tx_jobs_ok busy full clocks sends breaks \<longleftrightarrow> breaks = 0 \<and>
     (if busy then clocks = 1 \<and> sends = 0 else clocks = 0 \<and> sends = (if full = 0 then 0 else 1))"

definition tx_ok :: "uart \<Rightarrow> bool" where
  "tx_ok u \<longleftrightarrow> uart_ok u \<and> \<not> bit (u_mcr u) 4 \<and> \<not> bit (u_lcr u) 6 \<and> unat (u_txbuf_full u) \<le> u_fifo_len u
     \<and> u_txbuf_head u = (u_txbuf_tail u + unat (u_txbuf_full u)) mod u_fifo_len u
     \<and> tx_jobs_ok (tx_busy u) (unat (u_txbuf_full u)) (jobs J_char_clock u) (jobs J_tx_send u) (jobs J_send_break u)
     \<and> drop_bit 8 (u_rxser u) = 0 \<and> (\<forall>n. drop_bit 8 (u_rxbuf u n) = 0)"

lemma tx_same:
  assumes "uart_ok v = uart_ok u" "bit (u_mcr v) 4 = bit (u_mcr u) 4" "bit (u_lcr v) 6 = bit (u_lcr u) 6" "u_txbuf_full v = u_txbuf_full u"
    "u_txbuf_head v = u_txbuf_head u" "u_txbuf_tail v = u_txbuf_tail u" "u_fifo_len v = u_fifo_len u" "bit (u_lsr v) 6 = bit (u_lsr u) 6"
    "jobs J_char_clock v = jobs J_char_clock u" "jobs J_tx_send v = jobs J_tx_send u" "jobs J_send_break v = jobs J_send_break u"
    "u_rxser v = u_rxser u" "u_rxbuf v = u_rxbuf u" "u_txbuf v = u_txbuf u" "u_txser v = u_txser u" "u_out v = u_out u"
  shows "tx_ok v = tx_ok u" "tx_view v = tx_view u"
  unfolding tx_ok_def tx_view_def tx_queue_def tx_busy_def assms by simp_all

text \<open>Parts that have nothing to do with the transmitter.\<close>

definition tx_keeps :: "(uart \<Rightarrow> uart) \<Rightarrow> bool" where
  "tx_keeps f \<longleftrightarrow> (\<forall>u. tx_ok u \<longrightarrow> tx_ok (f u) \<and> tx_view (f u) = tx_view u)"

lemma tx_keeps_parts:
  "tx_keeps uart_int_msi" "tx_keeps uart_int_thri" "tx_keeps uart_int_cti" "tx_keeps uart_int_rdi" "tx_keeps uart_int_rlsi"
  "tx_keeps uart_check_rlsi" "tx_keeps uart_check_rdi" "tx_keeps (uart_clear_int intr)"
  unfolding tx_keeps_def
  by (intro allI impI conjI; (subst tx_same; simp add: tx_ok_def jobs_clear))+

lemma tx_keeps_sched: "j = J_int_cti \<or> j = J_recv_char \<or> j = J_check_char \<Longrightarrow> tx_keeps (SchedAdd j t)"
  unfolding tx_keeps_def by (intro allI impI conjI; (elim disjE; subst tx_same; simp add: tx_ok_def jobs_add))

lemma tx_keepsD: "tx_keeps f \<Longrightarrow> tx_ok u \<Longrightarrow> tx_ok (f u)" "tx_keeps f \<Longrightarrow> tx_ok u \<Longrightarrow> tx_view (f u) = tx_view u"
  by (simp_all add: tx_keeps_def)

lemma bit_and_0x40: "(x :: byte) AND 0x40 = 0 \<longleftrightarrow> \<not> bit x 6" "x AND 0x40 = y AND 0x40 \<longleftrightarrow> bit x 6 = bit y 6"
  and bit_and_0x10: "(x :: byte) AND 0x10 = 0 \<longleftrightarrow> \<not> bit x 4"
proof -
  have p: "(0x40 :: byte) = push_bit 6 1" "(0x10 :: byte) = push_bit 4 1" by simp_all
  have b: "bit (x AND 0x40) n \<longleftrightarrow> n = 6 \<and> bit x 6" "bit (x AND 0x10) n \<longleftrightarrow> n = 4 \<and> bit x 4" for x :: byte and n
    unfolding p bit_and_iff bit_push_bit_iff bit_1_iff by auto
  show "x AND 0x40 = y AND 0x40 \<longleftrightarrow> bit x 6 = bit y 6"
  proof
    assume "x AND 0x40 = y AND 0x40"
    then have "bit (x AND 0x40) 6 = bit (y AND 0x40) 6" by (rule arg_cong)
    then show "bit x 6 = bit y 6" unfolding b by simp
  qed (rule bit_word_eqI, simp add: b del: bit_and_iff)
  show "x AND 0x40 = 0 \<longleftrightarrow> \<not> bit x 6" "x AND 0x10 = 0 \<longleftrightarrow> \<not> bit x 4"
    using b(1) [of x 6] b(2) [of x 4] bit_word_eqI [of "x AND 0x40" 0] bit_word_eqI [of "x AND 0x10" 0] b by (metis bit_0_eq bot_fun_def bot_bool_def)+
qed

lemma tx_same_rx:
  assumes "tx_ok u" "uart_ok v" "u_mcr v = u_mcr u" "u_lcr v = u_lcr u" "u_txbuf_full v = u_txbuf_full u"
    "u_txbuf_head v = u_txbuf_head u" "u_txbuf_tail v = u_txbuf_tail u" "u_fifo_len v = u_fifo_len u" "bit (u_lsr v) 6 = bit (u_lsr u) 6"
    "jobs J_char_clock v = jobs J_char_clock u" "jobs J_tx_send v = jobs J_tx_send u" "jobs J_send_break v = jobs J_send_break u"
    "drop_bit 8 (u_rxser v) = 0" "\<forall>n. drop_bit 8 (u_rxbuf v n) = 0" "u_txbuf v = u_txbuf u" "u_txser v = u_txser u" "u_out v = u_out u"
  shows "tx_ok v \<and> tx_view v = tx_view u"
  using assms(1,2,13,14) unfolding tx_ok_def tx_view_def tx_queue_def tx_busy_def assms(3-12) assms(15-17) by simp

text \<open>The part of \<open>tx_ok\<close> that is not about jobs.\<close>

definition tx_base :: "uart \<Rightarrow> bool" where
  "tx_base u \<longleftrightarrow> uart_ok u \<and> \<not> bit (u_mcr u) 4 \<and> \<not> bit (u_lcr u) 6 \<and> unat (u_txbuf_full u) \<le> u_fifo_len u
     \<and> u_txbuf_head u = (u_txbuf_tail u + unat (u_txbuf_full u)) mod u_fifo_len u
     \<and> drop_bit 8 (u_rxser u) = 0 \<and> (\<forall>n. drop_bit 8 (u_rxbuf u n) = 0)"

lemma tx_ok_base: "tx_ok u \<longleftrightarrow> tx_base u
    \<and> tx_jobs_ok (tx_busy u) (unat (u_txbuf_full u)) (jobs J_char_clock u) (jobs J_tx_send u) (jobs J_send_break u)"
  by (auto simp: tx_ok_def tx_base_def)

lemma tx_send_ok:
  assumes "tx_base u" "u_txbuf_full u \<noteq> 0" "jobs J_char_clock u = 0" "jobs J_tx_send u = 0" "jobs J_send_break u = 0"
  shows "tx_ok (uart_tx_send u) \<and> tx_view (uart_tx_send u) = u_out u @ tx_queue u"
proof -
  define u1 where "u1 = u\<lparr>u_txser := u_txbuf u (u_txbuf_tail u), u_txbuf_tail := (u_txbuf_tail u + 1) mod u_fifo_len u,
                 u_txbuf_full := u_txbuf_full u - 1, u_lsr := u_lsr u AND NOT UART_LSR_TXSERE\<rparr>"
  define u2 where "u2 = SchedAdd J_char_clock (u_char_clks u * UART_CLOCK_DIVIDER) u1"
  have T: "uart_tx_send u = (if u_txbuf_full u2 = 0 then uart_int_thri (u2\<lparr>u_lsr := u_lsr u2 OR UART_LSR_TXBUFE\<rparr>) else u2)"
    using assms(1) unfolding uart_tx_send_def Let_def u1_def [symmetric] u2_def [symmetric] by (simp add: tx_base_def bit_and_0x40 u1_def [symmetric])
  have f: "0 < unat (u_txbuf_full u)" "unat (u_txbuf_full u - 1) = unat (u_txbuf_full u) - 1" using assms(2) by (simp_all add: unat_gt_0 unat_minus_one)
  have len: "u_txbuf_tail u mod u_fifo_len u = u_txbuf_tail u" using assms(1) by (simp add: tx_base_def uart_ok_def fifos_ok_def)
  have "((u_txbuf_tail u + 1) mod u_fifo_len u + (unat (u_txbuf_full u) - 1)) mod u_fifo_len u
      = (u_txbuf_tail u + 1 + (unat (u_txbuf_full u) - 1)) mod u_fifo_len u" by (rule mod_add_left_eq)
  also have "u_txbuf_tail u + 1 + (unat (u_txbuf_full u) - 1) = u_txbuf_tail u + unat (u_txbuf_full u)" using f by simp
  finally have head: "u_txbuf_head u2 = (u_txbuf_tail u2 + unat (u_txbuf_full u2)) mod u_fifo_len u2"
    using assms(1) f(2) by (simp add: u2_def u1_def tx_base_def)
  have le: "unat (u_txbuf_full u) - Suc 0 \<le> u_fifo_len u" using assms(1) unfolding tx_base_def by linarith
  have "uart_ok u1" unfolding u1_def by (rule uart_ok_tx(2)) (use assms(1) in \<open>simp add: tx_base_def\<close>)
  then have base: "tx_base u2" using assms(1) f head le by (simp add: tx_base_def u2_def) (simp add: u1_def)
  have b6: "\<not> bit (u_lsr u2) 6" by (simp add: u2_def u1_def bit_and_iff bit_not_iff)
  have "jobs j u1 = jobs j u" for j by (simp add: u1_def jobs_def)
  then have j: "jobs J_char_clock u2 = 1" "jobs J_tx_send u2 = 0" "jobs J_send_break u2 = 0" using assms(3-5) by (simp_all add: u2_def jobs_add)
  have ok2: "tx_ok u2" using base b6 j by (simp add: tx_ok_base tx_busy_def tx_jobs_ok_def)
  have "tx_queue u = u_txser u2 # tx_queue u2"
    using ring_take [OF f(1), of "u_txbuf u" "u_txbuf_tail u" "u_fifo_len u"] f(2) len by (simp add: tx_queue_def u2_def u1_def)
  then have v2: "tx_view u2 = u_out u @ tx_queue u" using b6 by (simp add: tx_view_def tx_busy_def) (simp add: u2_def u1_def)
  have s: "tx_ok (u2\<lparr>u_lsr := u_lsr u2 OR UART_LSR_TXBUFE\<rparr>) = tx_ok u2" "tx_view (u2\<lparr>u_lsr := u_lsr u2 OR UART_LSR_TXBUFE\<rparr>) = tx_view u2"
    by (rule tx_same; simp add: bit_or_iff jobs_def)+
  show ?thesis unfolding T using ok2 v2 s tx_keepsD [OF tx_keeps_parts(2), of "u2\<lparr>u_lsr := u_lsr u2 OR UART_LSR_TXBUFE\<rparr>"] by simp
qed

text \<open>The jobs, taken from the list.\<close>

lemma jobs_pop: "u_events u = (t, k) # es \<Longrightarrow> jobs j (u\<lparr>u_events := es\<rparr>) = jobs j u - (if j = k then 1 else 0)"
  by (simp add: jobs_def)

lemma tx_base_pop: "tx_base (u\<lparr>u_events := es\<rparr>) = tx_base u"
  by (simp add: tx_base_def)

lemma tx_job_send:
  assumes "tx_ok u" "u_events u = (t, J_tx_send) # es"
  shows "tx_ok (uart_tx_send (u\<lparr>u_events := es\<rparr>)) \<and> tx_view (uart_tx_send (u\<lparr>u_events := es\<rparr>)) = tx_view u"
proof -
  have "0 < jobs J_tx_send u" using assms(2) by (simp add: jobs_def)
  then have J: "\<not> tx_busy u" "unat (u_txbuf_full u) \<noteq> 0" "jobs J_char_clock u = 0" "jobs J_tx_send u = 1" "jobs J_send_break u = 0"
    using assms(1) by (auto simp: tx_ok_base tx_jobs_ok_def split: if_splits)
  then have f: "u_txbuf_full u \<noteq> 0" by auto
  let ?u = "u\<lparr>u_events := es\<rparr>"
  have "tx_base ?u" "u_txbuf_full ?u \<noteq> 0" "jobs J_char_clock ?u = 0" "jobs J_tx_send ?u = 0" "jobs J_send_break ?u = 0"
    using assms(1) J f by (simp_all add: tx_ok_base tx_base_pop jobs_pop [OF assms(2)])
  from tx_send_ok [OF this] J(1) show ?thesis by (simp add: tx_view_def tx_queue_def)
qed

lemma tx_job_clock:
  assumes "tx_ok u" "u_events u = (t, J_char_clock) # es"
  shows "tx_ok (uart_char_clock (u\<lparr>u_events := es\<rparr>)) \<and> tx_view (uart_char_clock (u\<lparr>u_events := es\<rparr>)) = tx_view u"
proof -
  have "0 < jobs J_char_clock u" using assms(2) by (simp add: jobs_def)
  then have J: "tx_busy u" "jobs J_char_clock u = 1" "jobs J_tx_send u = 0" "jobs J_send_break u = 0"
    using assms(1) by (auto simp: tx_ok_base tx_jobs_ok_def split: if_splits)
  define v where "v = (u\<lparr>u_events := es\<rparr>)\<lparr>u_out := u_out u @ [u_txser u]\<rparr>"
  have mcr: "\<not> bit (u_mcr u) 4" using assms(1) by (simp add: tx_ok_def)
  have C: "uart_char_clock (u\<lparr>u_events := es\<rparr>) = uart_tx_next v"
    using mcr by (simp add: uart_char_clock_def send_char_def bit_and_0x10 v_def)
  have base: "tx_base v" using assms(1) by (simp add: tx_ok_base v_def) (simp add: tx_base_def)
  have "jobs j v = jobs j (u\<lparr>u_events := es\<rparr>)" for j by (simp add: v_def jobs_def)
  then have j: "jobs J_char_clock v = 0" "jobs J_tx_send v = 0" "jobs J_send_break v = 0" using J by (simp_all add: jobs_pop [OF assms(2)])
  have view: "tx_view u = u_out v @ tx_queue v" using J(1) by (simp add: tx_view_def v_def tx_queue_def)
  show ?thesis
  proof (cases "u_txbuf_full v = 0")
    case True
    define w where "w = v\<lparr>u_lsr := u_lsr v OR UART_LSR_TXSERE\<rparr>"
    have "tx_base w" using base by (simp add: tx_base_def w_def)
    moreover have "\<not> tx_busy w" by (simp add: tx_busy_def w_def bit_or_iff)
    moreover have "jobs j w = jobs j v" for j by (simp add: w_def jobs_def)
    ultimately have "tx_ok w" using j True by (simp add: tx_ok_base tx_jobs_ok_def) (simp add: w_def)
    moreover have "tx_view w = tx_view u" unfolding view using \<open>\<not> tx_busy w\<close> by (simp add: tx_view_def) (simp add: w_def tx_queue_def)
    ultimately show ?thesis using True by (simp add: C uart_tx_next_def w_def)
  next
    case False
    then show ?thesis using tx_send_ok [OF base False j] view by (simp add: C uart_tx_next_def)
  qed
qed

lemma rx_char_mask: "drop_bit 8 (x :: u16) = 0 \<Longrightarrow> drop_bit 8 (x AND m) = 0"
  by (simp add: drop_bit_and)

lemma drop_bit_ucast_byte: "drop_bit 8 (ucast (c :: byte) :: u16) = 0"
  by (rule bit_word_eqI) (auto simp: bit_drop_bit_eq bit_ucast_iff dest: bit_imp_le_length)

lemma tx_add_char:
  assumes "tx_ok u" "drop_bit 8 ch = 0"
  shows "tx_ok (uart_add_char ch u) \<and> tx_view (uart_add_char ch u) = tx_view u"
proof -
  define u1 where "u1 = uart_clear_int UART_IIR_CTI (u\<lparr>u_lsr := u_lsr u OR UART_LSR_RDRDY\<rparr>)"
  define u2 where "u2 = SchedAdd J_int_cti (u_char_clks u1 * UART_CHAR_TIMEOUT * UART_CLOCK_DIVIDER) u1"
  define v where "v = u2\<lparr>u_rxbuf := (u_rxbuf u2)(u_rxbuf_head u2 := ch),
      u_rxbuf_head := (u_rxbuf_head u2 + 1) mod u_fifo_len u2, u_rxbuf_full := u_rxbuf_full u2 + 1\<rparr>"
  define c where "c \<longleftrightarrow> of_nat (u_fifo_len u2) < u_rxbuf_full u2 + 1"
  define w where "w = uart_check_rdi (if c
      then uart_int_rlsi (u2\<lparr>u_lsr := u_lsr u2 OR (UART_LSR_OVRRUN OR UART_LSR_RXERR)\<rparr>)
      else if u_rxbuf_full u2 = 0 then uart_check_rlsi (v\<lparr>u_lsr := u_lsr v OR ucast (drop_bit 8 ch)\<rparr>) else v)"
  have W: "uart_add_char ch u = w"
    unfolding uart_add_char_def Let_def w_def u1_def [symmetric] u2_def [symmetric] v_def [symmetric] c_def [symmetric] ..
  have ok: "uart_ok w" using assms(1) uart_ok_add_char W by (metis tx_ok_def)
  have j2: "jobs j u2 = jobs j u" if "j \<noteq> J_int_cti" for j
    using that by (simp add: u2_def u1_def jobs_add jobs_clear) (simp add: jobs_def)
  have jl: "jobs j (u2\<lparr>u_lsr := l\<rparr>) = jobs j u2" "jobs j v = jobs j u2" "jobs j (v\<lparr>u_lsr := l\<rparr>) = jobs j u2" for j l
    by (simp_all add: jobs_def v_def)
  have "tx_ok w \<and> tx_view w = tx_view u"
  proof (rule tx_same_rx [OF assms(1) ok])
    show "bit (u_lsr w) 6 = bit (u_lsr u) 6" by (simp add: w_def v_def u2_def u1_def bit_or_iff assms(2))
    show "\<forall>n. drop_bit 8 (u_rxbuf w n) = 0" using assms by (simp add: w_def v_def u2_def u1_def tx_ok_def)
    show "drop_bit 8 (u_rxser w) = 0" using assms by (simp add: w_def v_def u2_def u1_def tx_ok_def)
    show "jobs J_char_clock w = jobs J_char_clock u" "jobs J_tx_send w = jobs J_tx_send u" "jobs J_send_break w = jobs J_send_break u"
      by (simp_all add: w_def jl j2)
  qed (simp_all add: w_def v_def u2_def u1_def)
  then show ?thesis by (simp only: W)
qed

lemma tx_pop_other: "tx_ok u \<Longrightarrow> u_events u = (t, k) # es \<Longrightarrow> k \<noteq> J_char_clock \<Longrightarrow> k \<noteq> J_tx_send \<Longrightarrow> k \<noteq> J_send_break
    \<Longrightarrow> tx_ok (u\<lparr>u_events := es\<rparr>) \<and> tx_view (u\<lparr>u_events := es\<rparr>) = tx_view u"
  by (rule tx_same_rx) (simp_all add: tx_ok_def jobs_pop)

lemma tx_recv_char:
  assumes "tx_ok u"
  shows "tx_ok (uart_recv_char u) \<and> tx_view (uart_recv_char u) = tx_view u"
proof -
  define v where "v = uart_sched_recv_check (u\<lparr>u_receiveing := False\<rparr>)"
  have "tx_ok v \<and> tx_view v = tx_view u" unfolding v_def uart_sched_recv_check_def
    by (rule tx_same_rx [OF assms]) (use assms in \<open>simp_all add: tx_ok_def jobs_add, simp_all add: jobs_def\<close>)
  moreover have "\<not> bit (u_mcr u) 4" "drop_bit 8 (u_rxser u) = 0" using assms by (simp_all add: tx_ok_def)
  ultimately show ?thesis using tx_add_char [of v] by (simp add: uart_recv_char_def Let_def bit_and_0x10 v_def rx_char_mask)
qed

lemma tx_check_char:
  assumes "tx_ok u"
  shows "tx_ok (uart_check_char u) \<and> tx_view (uart_check_char u) = tx_view u"
proof -
  obtain r u1 where c: "channel_read u = (r, u1)" by (cases "channel_read u")
  then have "\<exists>l. u1 = u\<lparr>u_in := l\<rparr>" by (auto simp: channel_read_def split: list.splits intro: exI [of _ "u_in u"])
  then obtain l where l: "u1 = u\<lparr>u_in := l\<rparr>" ..
  have ok1: "tx_ok u1 \<and> tx_view u1 = tx_view u" unfolding l
    by (rule tx_same_rx [OF assms]) (use assms in \<open>simp_all add: tx_ok_def jobs_def\<close>)
  have ser: "tx_ok (u1\<lparr>u_rxser := ucast c, u_receiveing := b\<rparr>) \<and> tx_view (u1\<lparr>u_rxser := ucast c, u_receiveing := b\<rparr>) = tx_view u1" for c :: byte and b
    by (rule tx_same_rx [OF conjunct1 [OF ok1]]) (use ok1 in \<open>simp_all add: tx_ok_def drop_bit_ucast_byte jobs_def\<close>)
  show ?thesis using ok1 ser tx_keepsD [OF tx_keeps_sched]
    by (simp add: uart_check_char_def c split: uart_read.split)
qed

lemma tx_job:
  assumes "tx_ok u" "u_events u = (t, job) # es"
  shows "tx_ok (uart_run_job job (u\<lparr>u_events := es\<rparr>)) \<and> tx_view (uart_run_job job (u\<lparr>u_events := es\<rparr>)) = tx_view u"
proof (cases job)
  case J_send_break
  then have "0 < jobs J_send_break u" using assms(2) by (simp add: jobs_def)
  then show ?thesis using assms(1) by (simp add: tx_ok_def tx_jobs_ok_def)
next
  case J_char_clock
  then show ?thesis using tx_job_clock [OF assms(1)] assms(2) by (simp add: uart_run_job_def)
next
  case J_tx_send
  then show ?thesis using tx_job_send [OF assms(1)] assms(2) by (simp add: uart_run_job_def)
next
  case J_int_cti
  then show ?thesis using tx_pop_other [OF assms] tx_keepsD [OF tx_keeps_parts(3)] by (simp add: uart_run_job_def)
next
  case J_recv_char
  then show ?thesis using tx_pop_other [OF assms] tx_recv_char by (simp add: uart_run_job_def)
next
  case J_check_char
  then show ?thesis using tx_pop_other [OF assms] tx_check_char by (simp add: uart_run_job_def)
qed

lemma tx_run: "tx_ok u \<Longrightarrow> run_events n u = Some v \<Longrightarrow> tx_ok v \<and> tx_view v = tx_view u"
proof (induction n u rule: run_events.induct)
  case (1 n u)
  show ?case
  proof (cases "u_events u")
    case Nil
    with 1 show ?thesis by simp
  next
    case (Cons e es)
    then obtain time job where e: "u_events u = (time, job) # es" by (cases e) auto
    show ?thesis
    proof (cases "u_curTime u < time")
      case True
      with 1 e show ?thesis by simp
    next
      case False
      then obtain k where k: "n = Suc k" using 1 e by (cases n) auto
      have r: "run_events k (uart_run_job job (u\<lparr>u_events := es\<rparr>)) = Some v"
        using 1 e False k by (simp del: run_events.simps add: run_events.simps [of _ u])
      note job = tx_job [OF "1.prems"(1) e]
      have "tx_ok v \<and> tx_view v = tx_view (uart_run_job job (u\<lparr>u_events := es\<rparr>))"
        using "1.IH" [OF e refl False k] job r by blast
      with job show ?thesis by simp
    qed
  qed
qed

text \<open>Accesses that neither send nor reset: they do not switch to break or loopback mode or change the length of the FIFO.\<close>

definition plain_write :: "u32 \<Rightarrow> byte \<Rightarrow> uart \<Rightarrow> bool" where
  "plain_write addr value u \<longleftrightarrow> (addr = 0 \<longrightarrow> u_lcr u AND UART_LCR_DLAB \<noteq> 0) \<and> (addr = 3 \<longrightarrow> \<not> bit value 6) \<and> (addr = 4 \<longrightarrow> \<not> bit value 4)
     \<and> (addr = 2 \<longrightarrow> value AND 0x04 = 0 \<and> (u_fifo_len u = 1 \<longleftrightarrow> value AND 0x01 = 0))"

lemma tx_keeps_regs:
  assumes "tx_ok u"
  shows "tx_ok (u\<lparr>u_dll := a, u_char_clks := n\<rparr>) \<and> tx_view (u\<lparr>u_dll := a, u_char_clks := n\<rparr>) = tx_view u"
    "tx_ok (u\<lparr>u_dlh := a\<rparr>) \<and> tx_view (u\<lparr>u_dlh := a\<rparr>) = tx_view u"
    "tx_ok (u\<lparr>u_scr := a\<rparr>) \<and> tx_view (u\<lparr>u_scr := a\<rparr>) = tx_view u"
    "\<not> bit a 6 \<Longrightarrow> tx_ok (u\<lparr>u_lcr := a, u_char_clks := n\<rparr>) \<and> tx_view (u\<lparr>u_lcr := a, u_char_clks := n\<rparr>) = tx_view u"
    "\<not> bit a 4 \<Longrightarrow> tx_ok (u\<lparr>u_mcr := a\<rparr>) \<and> tx_view (u\<lparr>u_mcr := a\<rparr>) = tx_view u"
    "tx_ok (u\<lparr>u_msr := a\<rparr>) \<and> tx_view (u\<lparr>u_msr := a\<rparr>) = tx_view u"
    "bit l 6 = bit (u_lsr u) 6 \<Longrightarrow> tx_ok (u\<lparr>u_lsr := l\<rparr>) \<and> tx_view (u\<lparr>u_lsr := l\<rparr>) = tx_view u"
  using assms unfolding tx_ok_def tx_view_def tx_busy_def tx_queue_def jobs_def by simp_all

lemma tx_rx_part:
  assumes "tx_ok u"
  shows "tx_ok (snd (uart_read_rx u)) \<and> tx_view (snd (uart_read_rx u)) = tx_view u"
proof -
  define u1 where "u1 = snd (uart_rx_take u)"
  have "uart_ok u1" using assms uart_ok_rx_take by (simp add: u1_def uart_rx_take_def tx_ok_def)
  then have k1: "tx_ok u1 \<and> tx_view u1 = tx_view u"
    by (intro tx_same_rx [OF assms]) (use assms in \<open>simp_all add: u1_def uart_rx_take_def tx_ok_def jobs_def\<close>)
  define u2 where "u2 = uart_clear_int UART_IIR_CTI (uart_clear_int UART_IIR_RDI u1)"
  have k2: "tx_ok u2 \<and> tx_view u2 = tx_view u" using k1 tx_keepsD [OF tx_keeps_parts(8)] by (simp add: u2_def)
  have c: "drop_bit 8 (u_rxbuf u2 n) = 0" for n using k2 by (simp add: tx_ok_def)
  have k3: "tx_ok (uart_rx_next u2) \<and> tx_view (uart_rx_next u2) = tx_view u2"
  proof (cases "u_rxbuf_full u2 = 0")
    case True
    then show ?thesis using k2 tx_keeps_regs(7) [of u2 "u_lsr u2 AND NOT UART_LSR_RDRDY"] by (simp add: uart_rx_next_def bit_and_iff bit_not_iff)
  next
    case False
    have "bit (u_lsr u2 OR 1) 6 = bit (u_lsr u2) 6" by (simp add: bit_or_iff)
    then have "tx_ok (u2\<lparr>u_lsr := u_lsr u2 OR 1\<rparr>) \<and> tx_view (u2\<lparr>u_lsr := u_lsr u2 OR 1\<rparr>) = tx_view u2" using k2 by (intro tx_keeps_regs(7)) simp_all
    then show ?thesis using False
      by (simp add: uart_rx_next_def c tx_keepsD [OF tx_keeps_parts(6)] tx_keepsD [OF tx_keeps_parts(7)] tx_keepsD [OF tx_keeps_sched])
  qed
  have "snd (uart_read_rx u) = uart_rx_next u2" by (simp add: uart_read_rx_def split_beta Let_def u1_def u2_def)
  then show ?thesis using k2 k3 by simp
qed

lemma tx_loopback: "tx_ok u \<Longrightarrow> uart_loopback u = u"
  by (simp add: uart_loopback_def tx_ok_def bit_and_0x10)

lemma tx_read:
  assumes "tx_ok u"
  shows "tx_ok (snd (uart_read_byte addr u)) \<and> tx_view (snd (uart_read_byte addr u)) = tx_view u"
proof -
  have l: "bit (u_lsr u AND NOT 0x9e) 6 = bit (u_lsr u) 6" by (simp add: bit_and_iff bit_not_iff)
  have "tx_ok (uart_clear_int UART_IIR_RLSI (u\<lparr>u_lsr := u_lsr u AND NOT 0x9e\<rparr>))
      \<and> tx_view (uart_clear_int UART_IIR_RLSI (u\<lparr>u_lsr := u_lsr u AND NOT 0x9e\<rparr>)) = tx_view u"
    using tx_keeps_regs(7) [OF assms l] tx_keepsD [OF tx_keeps_parts(8)] by simp
  moreover have "tx_ok (uart_clear_int UART_IIR_MSI (u\<lparr>u_msr := 0\<rparr>)) \<and> tx_view (uart_clear_int UART_IIR_MSI (u\<lparr>u_msr := 0\<rparr>)) = tx_view u"
    using tx_keeps_regs(6) [OF assms] tx_keepsD [OF tx_keeps_parts(8)] by simp
  moreover have "tx_ok (uart_clear_int UART_IIR_THRI u) \<and> tx_view (uart_clear_int UART_IIR_THRI u) = tx_view u"
    using assms tx_keepsD [OF tx_keeps_parts(8)] by simp
  ultimately show ?thesis using assms tx_rx_part [OF assms] by (simp add: uart_read_byte_def Let_def tx_loopback)
qed

lemma tx_write_plain:
  assumes "tx_ok u" "plain_write addr value u"
  shows "tx_ok (uart_write_byte addr value u) \<and> tx_view (uart_write_byte addr value u) = tx_view u"
proof -
  have ok: "uart_ok (uart_write_byte addr value u)" using assms(1) by (intro uart_ok_write) (simp add: tx_ok_def)
  consider (dll) "addr = 0" "u_lcr u AND UART_LCR_DLAB \<noteq> 0" | (dlh) "addr = 1" "u_lcr u AND UART_LCR_DLAB \<noteq> 0"
    | (fcr) "addr = 2" | (ier) "addr = 1" "u_lcr u AND UART_LCR_DLAB = 0" | (lcr) "addr = 3" | (mcr) "addr = 4" | (scr) "addr = 7"
    | (other) "addr \<notin> {0, 1, 2, 3, 4, 7}"
    using assms(2) by (auto simp: plain_write_def)
  then show ?thesis
  proof cases
    case dll then show ?thesis using tx_keeps_regs(1) [OF assms(1)] by (simp add: uart_write_byte_def Let_def)
  next
    case dlh then show ?thesis using tx_keeps_regs(2) [OF assms(1)] by (simp add: uart_write_byte_def Let_def)
  next
    case scr then show ?thesis using tx_keeps_regs(3) [OF assms(1)] by (simp add: uart_write_byte_def Let_def)
  next
    case lcr
    then have v: "\<not> bit value 6" using assms(2) by (simp add: plain_write_def)
    have "uart_write_lcr value u = u\<lparr>u_lcr := value, u_char_clks := char_clks (u_dll u) (u_dlh u) value\<rparr>"
      using v assms(1) unfolding uart_write_lcr_def Let_def bit_and_0x40 by (simp add: tx_ok_def)
    then show ?thesis using lcr tx_keeps_regs(4) [OF assms(1) v] by (simp add: uart_write_byte_def Let_def)
  next
    case mcr
    then have "\<not> bit (value AND 0x1f) 4" using assms(2) by (simp add: plain_write_def bit_and_iff)
    from tx_keeps_regs(5) [OF assms(1) this] mcr show ?thesis using tx_loopback by (simp add: uart_write_byte_def Let_def)
  next
    case ier
    have w: "uart_write_byte addr value u = uart_next_int (u\<lparr>u_ier := value AND 0x0f\<rparr>)" using ier by (simp add: uart_write_byte_def)
    have "jobs j (u\<lparr>u_ier := a\<rparr>) = jobs j u" for j a by (simp add: jobs_def)
    then show ?thesis unfolding w by (intro tx_same_rx [OF assms(1)]) (use assms(1) ok w in \<open>simp_all add: tx_ok_def\<close>)
  next
    case fcr
    define u2 where "u2 = u\<lparr>u_fcr := value AND 0xc0, u_fifo_len := (if value AND 0x01 \<noteq> 0 then 16 else 1)\<rparr>"
    define r where "r = u2\<lparr>u_rxbuf_head := 0, u_rxbuf_tail := 0, u_rxbuf_full := 0, u_lsr := u_lsr u2 AND NOT UART_LSR_RDRDY\<rparr>"
    have len: "u_fifo_len u = 1 \<or> u_fifo_len u = 16" using assms(1) by (simp add: tx_ok_def uart_ok_def fifos_ok_def)
    have v: "value AND 0x04 = 0" "u_fifo_len u = 1 \<longleftrightarrow> value AND 0x01 = 0" using fcr assms(2) by (simp_all add: plain_write_def)
    then have same: "u_fifo_len u2 = u_fifo_len u" using len by (auto simp: u2_def)
    have no: "\<not> (u_fifo_len u = 1 \<and> value AND 0x01 \<noteq> 0 \<or> u_fifo_len u \<noteq> 1 \<and> \<not> value AND 0x01 \<noteq> 0)" using v by blast
    have "uart_write_fcr value u =
        (if value AND 0x02 \<noteq> 0 then uart_clear_int UART_IIR_CTI (uart_clear_int UART_IIR_RDI r) else u2)"
      using v(1) unfolding uart_write_fcr_def Let_def if_not_P [OF no] u2_def [symmetric] r_def by simp
    then have w: "uart_write_byte addr value u =
        (if value AND 0x02 \<noteq> 0 then uart_clear_int UART_IIR_CTI (uart_clear_int UART_IIR_RDI r) else u2)"
      using fcr by (simp add: uart_write_byte_def)
    have "jobs j r = jobs j u" "jobs j u2 = jobs j u" for j by (simp_all add: r_def u2_def jobs_def)
    moreover have "u_fifo_len r = u_fifo_len u" using same by (simp add: r_def)
    ultimately show ?thesis unfolding w using same
      by (intro tx_same_rx [OF assms(1)])
        (use assms(1) ok w in \<open>simp_all add: tx_ok_def jobs_clear, simp_all add: r_def u2_def bit_and_iff bit_not_iff\<close>)
  next
    case other then show ?thesis using assms(1) by (simp add: uart_write_byte_def Let_def)
  qed
qed

text \<open>A character is accepted when the FIFO has room.\<close>

definition tx_room :: "uart \<Rightarrow> bool" where
  "tx_room u \<longleftrightarrow> u_lcr u AND UART_LCR_DLAB = 0 \<and> u_txbuf_full u < of_nat (u_fifo_len u)"

lemma tx_write_char:
  assumes "tx_ok u" "tx_room u"
  shows "tx_ok (uart_write_byte 0 value u) \<and> tx_view (uart_write_byte 0 value u) = tx_view u @ [value]"
proof -
  define u1 where "u1 = u\<lparr>u_lsr := u_lsr u AND NOT UART_LSR_TXBUFE\<rparr>"
  define v where "v = u1\<lparr>u_txbuf := (u_txbuf u1)(u_txbuf_head u1 := value),
      u_txbuf_head := (u_txbuf_head u1 + 1) mod u_fifo_len u1, u_txbuf_full := u_txbuf_full u1 + 1\<rparr>"
  define w where "w = (if u_txbuf_full u1 = 0 \<and> u_lsr u1 AND UART_LSR_TXSERE \<noteq> 0 then SchedAdd J_tx_send 0 v else v)"
  have len: "u_fifo_len u = 1 \<or> u_fifo_len u = 16" "uart_ok u" using assms(1) by (simp_all add: tx_ok_def uart_ok_def fifos_ok_def)
  have n: "unat (u_txbuf_full u) < u_fifo_len u" using assms(2) uart_ok_len [OF len(2)] by (simp add: tx_room_def word_less_nat_alt)
  then have n1: "unat (u_txbuf_full u + 1) = unat (u_txbuf_full u) + 1" using len(1) by (auto simp: unat_word_ariths)
  have W: "uart_write_byte 0 value u = uart_clear_int UART_IIR_THRI w"
    using assms(2) unfolding uart_write_byte_def uart_write_tx_def Let_def w_def u1_def [symmetric] v_def [symmetric]
    by (simp add: tx_room_def u1_def)
  have b6: "bit (u_lsr u1) 6 = bit (u_lsr u) 6" by (simp add: u1_def bit_and_iff bit_not_iff)
  have busy: "tx_busy w = tx_busy u" "u_lsr u1 AND UART_LSR_TXSERE \<noteq> 0 \<longleftrightarrow> \<not> tx_busy u"
    using b6 by (simp_all add: tx_busy_def bit_and_0x40 w_def) (simp_all add: v_def)
  have "uart_ok u1" using len by (simp add: u1_def)
  then have "uart_ok v" unfolding v_def by (rule uart_ok_tx)
  then have base: "tx_base w" using assms(1) n n1
    by (simp add: w_def tx_base_def) (simp add: v_def u1_def tx_ok_def mod_simps)
  have jv: "jobs j v = jobs j u" for j by (simp add: v_def u1_def jobs_def)
  have f: "u_txbuf_full w = u_txbuf_full u + 1" "u_txbuf_full u1 = u_txbuf_full u" "unat (u_txbuf_full u) = 0 \<longleftrightarrow> u_txbuf_full u = 0"
    by (simp_all add: w_def v_def u1_def unat_eq_zero)
  have "tx_ok w" unfolding tx_ok_base f n1 busy(1)
    using base assms(1) by (auto simp: w_def tx_ok_base tx_jobs_ok_def jobs_add jv busy f split: if_splits)
  moreover have "tx_queue w = tx_queue v" by (simp add: tx_queue_def w_def)
  moreover have "tx_queue v = tx_queue u @ [value]" using assms(1) n1 ring_put [OF n] by (simp add: tx_queue_def v_def u1_def tx_ok_def)
  ultimately have q: "tx_queue w = tx_queue u @ [value]" and ok_w: "tx_ok w" by simp_all
  from q have "tx_view w = tx_view u @ [value]" by (simp add: tx_view_def busy) (simp add: w_def v_def u1_def)
  then show ?thesis unfolding W using ok_w tx_keepsD [OF tx_keeps_parts(8)] by simp
qed

text \<open>A character for a full FIFO is stored at its head, which is the place of the oldest one waiting.\<close>

lemma ring_overwrite: "0 < l \<Longrightarrow> t < l \<Longrightarrow> ring (f(t := x)) t l l = (ring f t l l)[0 := x]"
proof (rule nth_equalityI)
  fix i assume "0 < l" "t < l" "i < length (ring (f(t := x)) t l l)"
  then have "i < l" by simp
  moreover have "(t + i) mod l = t \<longleftrightarrow> i = 0" if "i < l"
    using ring_other [of 0 i l t] \<open>t < l\<close> that by (cases "i = 0") auto
  ultimately show "ring (f(t := x)) t l l ! i = (ring f t l l)[0 := x] ! i" by (simp add: ring_def nth_list_update)
qed simp

definition tx_accept :: "uart \<Rightarrow> byte list \<Rightarrow> byte \<Rightarrow> byte list" where
  "tx_accept u cs c = (if u_txbuf_full u < of_nat (u_fifo_len u) then cs @ [c] else cs[length cs - u_fifo_len u := c])"

lemma tx_write_full:
  assumes "tx_ok u" "u_lcr u AND UART_LCR_DLAB = 0" "\<not> u_txbuf_full u < of_nat (u_fifo_len u)"
  shows "tx_ok (uart_write_byte 0 value u) \<and> tx_view (uart_write_byte 0 value u) = (tx_view u)[length (tx_view u) - u_fifo_len u := value]"
proof -
  define v where "v = u\<lparr>u_lsr := u_lsr u AND NOT UART_LSR_TXBUFE, u_txbuf := (u_txbuf u)(u_txbuf_head u := value)\<rparr>"
  have ok: "uart_ok u" "unat (u_txbuf_full u) \<le> u_fifo_len u" "0 < u_fifo_len u" "u_txbuf_tail u < u_fifo_len u"
    using assms(1) by (auto simp: tx_ok_def uart_ok_def fifos_ok_def)
  then have n: "unat (u_txbuf_full u) = u_fifo_len u" using assms(3) uart_ok_len [OF ok(1)] by (simp add: word_less_nat_alt)
  then have head: "u_txbuf_head u = u_txbuf_tail u" using assms(1) ok(4) by (simp add: tx_ok_def)
  have W: "uart_write_byte 0 value u = uart_clear_int UART_IIR_THRI v"
    using assms(2,3) unfolding uart_write_byte_def uart_write_tx_def Let_def by (simp add: v_def)
  have b6: "tx_busy v = tx_busy u" by (simp add: tx_busy_def v_def bit_and_iff bit_not_iff)
  have jv: "jobs j v = jobs j u" for j by (simp add: v_def jobs_def)
  have f: "u_txbuf_full v = u_txbuf_full u" "u_txbuf_head v = u_txbuf_head u" "u_txbuf_tail v = u_txbuf_tail u" "u_fifo_len v = u_fifo_len u"
    "u_out v = u_out u" "u_txser v = u_txser u" by (simp_all add: v_def)
  have "uart_ok v" using ok(1) by (simp add: v_def)
  then have "tx_ok v" using assms(1) unfolding tx_ok_def b6 jv f by (simp add: v_def)
  moreover have q: "tx_queue v = (tx_queue u)[0 := value]"
    using ring_overwrite [OF ok(3,4), of "u_txbuf u" "value"] n head unfolding tx_queue_def f by (simp add: v_def)
  moreover have "tx_view v = (tx_view u)[length (tx_view u) - u_fifo_len u := value]"
    using n unfolding tx_view_def b6 f q by (simp add: list_update_append tx_queue_def)
  ultimately show ?thesis unfolding W using tx_keepsD [OF tx_keeps_parts(8)] by simp
qed

text \<open>Histories with the characters that were sent.\<close>

inductive uart_sends :: "uart \<Rightarrow> byte list \<Rightarrow> bool" where
  sends_init: "uart_sends (uart_reset input) []"
| sends_char: "uart_sends u cs \<Longrightarrow> u_lcr u AND UART_LCR_DLAB = 0 \<Longrightarrow> uart_sends (uart_write_byte 0 c u) (tx_accept u cs c)"
| sends_write: "uart_sends u cs \<Longrightarrow> plain_write addr value u \<Longrightarrow> uart_sends (uart_write_byte addr value u) cs"
| sends_read: "uart_sends u cs \<Longrightarrow> uart_sends (snd (uart_read_byte addr u)) cs"
| sends_simulate: "uart_sends u cs \<Longrightarrow> Simulate n steps u = Some (r, v) \<Longrightarrow> uart_sends v cs"

lemma tx_ok_reset: "tx_ok (uart_reset input) \<and> tx_view (uart_reset input) = []"
  using uart_ok_reset [of input]
  by (simp add: tx_ok_def tx_view_def tx_queue_def tx_busy_def)
    (simp add: uart_reset_def uart_sched_recv_check_def jobs_add tx_jobs_ok_def bit_or_iff, simp add: jobs_def)

lemma tx_sim:
  assumes "tx_ok u" "Simulate n steps u = Some (r, v)"
  shows "tx_ok v \<and> tx_view v = tx_view u"
proof -
  have b: "tx_ok (sim_set_back u) \<and> tx_view (sim_set_back u) = tx_view u"
    by (rule tx_same_rx [OF assms(1)])
      (use assms(1) in \<open>simp_all add: sim_set_back_def tx_ok_def, simp_all add: jobs_def filter_map comp_def case_prod_beta\<close>)
  define u1 where "u1 = sim_advance steps (sim_set_back u)"
  have "tx_ok u1 \<and> tx_view u1 = tx_view (sim_set_back u)"
    by (rule tx_same_rx [OF conjunct1 [OF b]]) (use b in \<open>simp_all add: u1_def sim_advance_def tx_ok_def Let_def jobs_def\<close>)
  moreover have "run_events n u1 = Some v" using assms(2) by (auto simp: Simulate_def u1_def simp del: run_events.simps)
  ultimately show ?thesis using tx_run [of u1 n v] b by simp
qed

lemma uart_sends_view: "uart_sends u cs \<Longrightarrow> tx_ok u \<and> tx_view u = cs"
proof (induction rule: uart_sends.induct)
  case (sends_simulate u cs n steps r v)
  then show ?case using tx_sim by blast
next
  case (sends_char u cs c)
  then show ?case using tx_write_char [of u c] tx_write_full [of u c] by (cases "tx_room u") (auto simp: tx_accept_def tx_room_def)
qed (simp_all add: tx_ok_reset tx_write_plain tx_read)

section \<open>Simulate returns\<close>

text \<open>The clocks of a character.\<close>

lemma char_clks_le: "char_clks dll dlh lcr \<le> 786420"
proof -
  define b where "b = (2 + (if lcr AND UART_LCR_PARITY \<noteq> 0 then 2 else 0)) + (if lcr AND UART_LCR_STOP \<noteq> 0 then 4 else if lcr AND 3 \<noteq> 0 then 2 else 3)
      + 10 + 2 * unat (lcr AND 3)"
  have "lcr AND 3 \<le> 3" by (rule word_and_le1)
  then have "unat (lcr AND 3) \<le> 3" by (simp add: word_le_nat_alt)
  then have b: "b \<le> 24" by (simp add: b_def)
  have "unat dlh < 256" "unat dll < 256" using unsigned_less [of dlh] unsigned_less [of dll] by simp_all
  then have "unat dlh * 256 + unat dll \<le> 65535" by linarith
  then have "(unat dlh * 256 + unat dll) * b \<le> 65535 * 24" using b by (rule mult_le_mono)
  then show ?thesis unfolding char_clks_def Let_def b_def [symmetric] by linarith
qed

definition due :: "uart_job \<Rightarrow> uart \<Rightarrow> nat" where
  "due j u = length (filter (\<lambda>e. snd e = j \<and> fst e \<le> u_curTime u) (u_events u))"

lemma due_add_other: "j \<noteq> k \<Longrightarrow> due j (SchedAdd k n u) = due j u"
  and due_add_le: "due j (SchedAdd k n u) \<le> due j u + 1"
  by (simp_all add: due_def SchedAdd_def filter_insert)

text \<open>A clock that is so far from the largest integer that no job of the UART overflows it.\<close>

definition time_ok :: "int \<Rightarrow> bool" where
  "time_ok t \<longleftrightarrow> 0 \<le> t \<and> t + 2 ^ 26 \<le> INT_MAX"

lemma int32_id: "- (2 ^ 31) \<le> x \<Longrightarrow> x \<le> INT_MAX \<Longrightarrow> int32 x = x"
  by (simp add: int32_def)

lemma due_add: "time_ok (u_curTime u) \<Longrightarrow> 0 < n \<Longrightarrow> n \<le> 2 ^ 26 \<Longrightarrow> due j (SchedAdd k n u) = due j u"
  using int32_id [of "u_curTime u + int n"] by (simp add: due_def SchedAdd_def filter_insert time_ok_def)

lemma due_ints [simp]:
  "due j (uart_int_msi u) = due j u" "due j (uart_int_thri u) = due j u" "due j (uart_int_cti u) = due j u"
  "due j (uart_int_rdi u) = due j u" "due j (uart_int_rlsi u) = due j u" "due j (uart_check_rlsi u) = due j u"
  "due j (uart_check_rdi u) = due j u"
  by (simp_all add: due_def)

lemma due_clear: "due j (uart_clear_int intr u) = (if intr = UART_IIR_CTI \<and> j = J_int_cti then 0 else due j u)"
  by (auto simp: due_def events_clear intro!: arg_cong [where f = length] filter_cong)

lemma due_upd [simp]:
  "due j (u\<lparr>u_lsr := l\<rparr>) = due j u" "due j (u\<lparr>u_out := os\<rparr>) = due j u" "due j (u\<lparr>u_loopback := b\<rparr>) = due j u"
  "due j (u\<lparr>u_receiveing := c\<rparr>) = due j u" "due j (u\<lparr>u_rxser := x\<rparr>) = due j u" "due j (u\<lparr>u_rxser := x, u_receiveing := c\<rparr>) = due j u" "due j (u\<lparr>u_in := i\<rparr>) = due j u"
  "due j (u\<lparr>u_in := i, u_rxser := x, u_receiveing := c\<rparr>) = due j u" "due j (u\<lparr>u_in := i, u_rxser := x\<rparr>) = due j u"
  "due j (u\<lparr>u_rxbuf := B, u_rxbuf_head := h, u_rxbuf_full := f\<rparr>) = due j u"
  "due j (u\<lparr>u_txser := b, u_txbuf_tail := t, u_txbuf_full := f, u_lsr := l\<rparr>) = due j u"
  by (simp_all add: due_def)

text \<open>No job of the others adds a \<open>J_tx_send\<close>; a sent character leaves the FIFO; a check leads to a character, a character to a timeout.\<close>

definition sim_weight :: "uart \<Rightarrow> nat" where
  "sim_weight u = 3 * due J_check_char u + 2 * due J_recv_char u + due J_int_cti u + due J_char_clock u + due J_send_break u"

definition sim_measure :: "uart \<Rightarrow> nat \<times> nat \<times> nat" where
  "sim_measure u = (due J_tx_send u, unat (u_txbuf_full u), sim_weight u)"

abbreviation (input) sim_less :: "((nat \<times> nat \<times> nat) \<times> (nat \<times> nat \<times> nat)) set" where
  "sim_less \<equiv> less_than <*lex*> less_than <*lex*> less_than"

lemma tx_send_due: "due J_tx_send (uart_tx_send u) = due J_tx_send u" "u_txbuf_full (uart_tx_send u) = u_txbuf_full u - 1"
  by (simp_all add: uart_tx_send_def Let_def due_add_other) (simp add: due_def)

lemma tx_next_less:
  assumes "due J_tx_send v = a" "unat (u_txbuf_full v) = b" "sim_weight v < c"
  shows "(sim_measure (uart_tx_next v), (a, b, c)) \<in> sim_less"
proof (cases "u_txbuf_full v = 0")
  case True
  then show ?thesis using assms by (simp add: uart_tx_next_def sim_measure_def sim_weight_def)
next
  case False
  then have "0 < unat (u_txbuf_full v)" "unat (u_txbuf_full v - 1) = unat (u_txbuf_full v) - 1" by (simp_all add: unat_minus_one unat_gt_0)
  then have "unat (u_txbuf_full v - 1) < b" using assms(2) by linarith
  then show ?thesis using False assms(1) by (simp add: uart_tx_next_def sim_measure_def tx_send_due)
qed

lemma add_char_due: "j \<noteq> J_int_cti \<Longrightarrow> due j (uart_add_char ch u) = due j u" "due J_int_cti (uart_add_char ch u) \<le> 1"
  "u_txbuf_full (uart_add_char ch u) = u_txbuf_full u"
  using due_add_le [of J_int_cti J_int_cti "u_char_clks u * UART_CHAR_TIMEOUT * UART_CLOCK_DIVIDER"
      "uart_clear_int UART_IIR_CTI (u\<lparr>u_lsr := u_lsr u OR UART_LSR_RDRDY\<rparr>)"]
  by (simp_all add: uart_add_char_def Let_def due_add_other due_clear)

lemma job_less:
  assumes "u_events u = (t, job) # es" "t \<le> u_curTime u" "\<not> (bit (u_mcr u) 4 \<and> u_char_clks u = 0)"
    "time_ok (u_curTime u)" "u_char_clks u \<le> 786420"
  shows "(sim_measure (uart_run_job job (u\<lparr>u_events := es\<rparr>)), sim_measure u) \<in> sim_less"
proof -
  define v where "v = u\<lparr>u_events := es\<rparr>"
  have d: "due j u = due j v + (if j = job then 1 else 0)" for j using assms(1,2) by (simp add: due_def v_def)
  have f: "u_txbuf_full v = u_txbuf_full u" "u_mcr v = u_mcr u" "u_char_clks v = u_char_clks u" "time_ok (u_curTime v)"
    using assms(4) by (simp_all add: v_def)
  have same: "due J_tx_send v = due J_tx_send u" if "job \<noteq> J_tx_send" using d that by simp
  show ?thesis unfolding v_def [symmetric]
  proof (cases job)
    case J_tx_send
    then show "(sim_measure (uart_run_job job v), sim_measure u) \<in> sim_less"
      using d [of J_tx_send] by (simp add: uart_run_job_def sim_measure_def tx_send_due)
  next
    case J_send_break
    then show "(sim_measure (uart_run_job job v), sim_measure u) \<in> sim_less"
      unfolding sim_measure_def [of u] uart_run_job_def
      using same f d by (simp add: uart_send_break_def) (rule tx_next_less; simp add: sim_weight_def)
  next
    case J_char_clock
    have "due j (send_char v) = due j v" "u_txbuf_full (send_char v) = u_txbuf_full v" for j by (simp_all add: send_char_def)
    then show "(sim_measure (uart_run_job job v), sim_measure u) \<in> sim_less"
      unfolding sim_measure_def [of u] uart_run_job_def using J_char_clock same f d
      by (simp add: uart_char_clock_def) (rule tx_next_less; simp add: sim_weight_def)
  next
    case J_int_cti
    then show "(sim_measure (uart_run_job job v), sim_measure u) \<in> sim_less"
      using same f d by (simp add: uart_run_job_def sim_measure_def sim_weight_def)
  next
    case J_recv_char
    define w where "w = (if u_mcr v AND UART_MCR_LOOP \<noteq> 0
        then SchedAdd J_recv_char (u_char_clks v * UART_CLOCK_DIVIDER) (v\<lparr>u_rxser := ucast (u_loopback v), u_receiveing := True\<rparr>)
        else uart_sched_recv_check (v\<lparr>u_receiveing := False\<rparr>))"
    have w: "due j w = due j v" "u_txbuf_full w = u_txbuf_full v" for j
      using assms(3,5) f by (auto simp: w_def uart_sched_recv_check_def due_add bit_and_0x10)
    obtain ch where r: "uart_recv_char v = uart_add_char ch w" unfolding uart_recv_char_def Let_def w_def by blast
    have "due J_int_cti (uart_add_char ch w) \<le> 1" by (rule add_char_due(2))
    then show "(sim_measure (uart_run_job job v), sim_measure u) \<in> sim_less"
      using J_recv_char same f d by (simp add: uart_run_job_def r sim_measure_def sim_weight_def add_char_due w)
  next
    case J_check_char
    obtain r v1 where c: "channel_read v = (r, v1)" by (cases "channel_read v")
    then have "\<exists>l. v1 = v\<lparr>u_in := l\<rparr>" by (auto simp: channel_read_def split: list.splits intro: exI [of _ "u_in v"])
    then obtain l where l: "v1 = v\<lparr>u_in := l\<rparr>" ..
    have "due j (uart_check_char v) \<le> due j v + (if j = J_recv_char then 1 else 0)" "u_txbuf_full (uart_check_char v) = u_txbuf_full v"
      "due J_tx_send (uart_check_char v) = due J_tx_send v" for j
      using f(4) by (auto simp: uart_check_char_def c l due_add due_add_other split: uart_read.split intro: order_trans [OF due_add_le])
    note c = this(1) [of J_check_char] this(1) [of J_recv_char] this(1) [of J_int_cti] this(1) [of J_char_clock] this(1) [of J_send_break]
      and k = this(2,3)
    have u: "due J_check_char u = Suc (due J_check_char v)" "due J_recv_char u = due J_recv_char v" "due J_int_cti u = due J_int_cti v"
      "due J_char_clock u = due J_char_clock v" "due J_send_break u = due J_send_break v" using d J_check_char by simp_all
    have "sim_weight (uart_check_char v) < sim_weight u" using c unfolding sim_weight_def u by simp
    then show "(sim_measure (uart_run_job job v), sim_measure u) \<in> sim_less"
      using J_check_char same f(1) k by (simp add: uart_run_job_def sim_measure_def)
  qed
qed

lemma job_config: "u_mcr (uart_run_job job u) = u_mcr u" "u_char_clks (uart_run_job job u) = u_char_clks u"
    "u_curTime (uart_run_job job u) = u_curTime u"
  by (cases job; simp add: uart_run_job_def uart_char_clock_def uart_send_break_def uart_tx_next_def send_char_def uart_tx_send_def
    uart_recv_char_def uart_add_char_def uart_sched_recv_check_def uart_check_char_def channel_read_def Let_def
    split: list.split uart_read.split)+

lemma run_config: "run_events n u = Some v \<Longrightarrow> u_char_clks v = u_char_clks u"
proof (induction n arbitrary: u)
  case 0
  then show ?case by (auto split: list.splits if_splits)
next
  case (Suc n)
  show ?case
  proof (cases "u_events u = [] \<or> u_curTime u < fst (hd (u_events u))")
    case True
    then show ?thesis using Suc.prems by (cases "u_events u") auto
  next
    case False
    then obtain t job es where e: "u_events u = (t, job) # es" "t \<le> u_curTime u" by (cases "u_events u") auto
    then have "run_events n (uart_run_job job (u\<lparr>u_events := es\<rparr>)) = Some v" using Suc.prems by simp
    then show ?thesis using Suc.IH by (fastforce simp: job_config simp del: run_events.simps)
  qed
qed

lemma uart_reach_clks: "uart_reach u \<Longrightarrow> u_char_clks u \<le> 786420"
proof (induction rule: uart_reach.induct)
  case (uart_write u addr x)
  then show ?case using char_clks_le
    by (simp add: uart_write_byte_def uart_write_tx_def uart_write_fcr_def uart_write_lcr_def uart_loopback_def Let_def)
next
  case (uart_read u addr)
  then show ?case
    by (simp add: uart_read_byte_def uart_read_rx_def uart_rx_take_def uart_rx_next_def uart_loopback_def Let_def case_prod_beta)
next
  case (uart_simulate u n steps r v)
  have "u_char_clks (sim_advance steps (sim_set_back u)) = u_char_clks u" by (simp add: sim_advance_def sim_set_back_def Let_def)
  then show ?case using uart_simulate run_config by (auto simp: Simulate_def simp del: run_events.simps)
qed (simp add: uart_reset_def uart_sched_recv_check_def)

lemma run_events_ends:
  assumes "\<not> (bit (u_mcr u) 4 \<and> u_char_clks u = 0)" "time_ok (u_curTime u)" "u_char_clks u \<le> 786420"
  shows "\<exists>n v. run_events n u = Some v"
proof -
  have "wf (inv_image sim_less sim_measure)" by (intro wf_inv_image wf_lex_prod wf_less_than)
  then show ?thesis using assms
  proof (induction u rule: wf_induct_rule)
  case (less u)
  show ?case
  proof (cases "u_events u = [] \<or> u_curTime u < fst (hd (u_events u))")
    case True
    then have "run_events 0 u = Some u" by (cases "u_events u") auto
    then show ?thesis by blast
  next
    case False
    then obtain t job es where e: "u_events u = (t, job) # es" "t \<le> u_curTime u" by (cases "u_events u") auto
    have "(uart_run_job job (u\<lparr>u_events := es\<rparr>), u) \<in> inv_image sim_less sim_measure"
      using job_less [OF e less.prems] by (simp only: in_inv_image)
    moreover have "\<not> (bit (u_mcr (uart_run_job job (u\<lparr>u_events := es\<rparr>))) 4 \<and> u_char_clks (uart_run_job job (u\<lparr>u_events := es\<rparr>)) = 0)"
      using less.prems by (simp add: job_config)
    moreover have "time_ok (u_curTime (uart_run_job job (u\<lparr>u_events := es\<rparr>)))" "u_char_clks (uart_run_job job (u\<lparr>u_events := es\<rparr>)) \<le> 786420"
      using less.prems by (simp_all add: job_config)
    ultimately obtain n v where "run_events n (uart_run_job job (u\<lparr>u_events := es\<rparr>)) = Some v" using less.IH by blast
    then have "run_events (Suc n) u = Some v" using e by (simp del: run_events.simps add: run_events.simps [of _ u])
    then show ?thesis by blast
  qed
qed
qed

lemma rx_queue_upd [simp]:
  "rx_queue (u\<lparr>u_msr := a\<rparr>) = rx_queue u" "rx_queue (u\<lparr>u_mcr := a\<rparr>) = rx_queue u" "rx_queue (u\<lparr>u_scr := a\<rparr>) = rx_queue u"
  "rx_queue (u\<lparr>u_ier := a\<rparr>) = rx_queue u" "rx_queue (u\<lparr>u_dlh := a\<rparr>) = rx_queue u" "rx_queue (u\<lparr>u_dll := a, u_char_clks := n\<rparr>) = rx_queue u"
  "rx_queue (u\<lparr>u_lcr := a, u_char_clks := n\<rparr>) = rx_queue u" "rx_queue (u\<lparr>u_lsr := a, u_txbuf := B\<rparr>) = rx_queue u"
  "rx_queue (u\<lparr>u_txbuf := B\<rparr>) = rx_queue u" "rx_queue (u\<lparr>u_txbuf := B, u_txbuf_head := h, u_txbuf_full := f\<rparr>) = rx_queue u"
  by (simp_all add: rx_queue_def)

lemma rx_queue_loopback [simp]: "rx_queue (uart_loopback u) = rx_queue u"
  by (simp add: uart_loopback_def Let_def)

lemma rx_queue_write: "addr \<noteq> 2 \<longrightarrow> rx_queue (uart_write_byte addr value u) = rx_queue u"
proof -
  have "rx_queue (uart_write_tx value u) = rx_queue u" by (simp add: uart_write_tx_def Let_def)
  then show ?thesis by (simp add: uart_write_byte_def uart_write_lcr_def Let_def)
qed

lemma rx_queue_read: "addr \<noteq> 0 \<longrightarrow> rx_queue (snd (uart_read_byte addr u)) = rx_queue u"
  by (simp add: uart_read_byte_def Let_def)

lemma next_int_on: "uart_next_int u =
    (if int_on 0 u then uart_int_rlsi u else if int_on 1 u then uart_int_rdi u else if int_on 2 u then uart_int_cti u
     else if int_on 3 u then uart_int_thri u else if int_on 4 u then uart_int_msi u else u\<lparr>u_irqPending := False, u_iir := UART_IIR_NO_INT\<rparr>)"
  unfolding uart_next_int_def int_on_def int_prio_nth fst_conv snd_conv by (rule refl)

lemma int_prio_bit: "i < 5 \<Longrightarrow> k < 5 \<Longrightarrow> unat (fst (int_prio ! i)) < 32 \<and> (unat (fst (int_prio ! k)) = unat (fst (int_prio ! i)) \<longleftrightarrow> i = k)"
  by (drule less_5_cases, drule less_5_cases, elim disjE; simp add: int_prio_def)

section \<open>Times\<close>

text \<open>The times of the events are integers of 32 bits; when the clock is at the largest one, all of them are due.\<close>

definition times_ok :: "uart \<Rightarrow> bool" where
  "times_ok u \<longleftrightarrow> (\<forall>e \<in> set (u_events u). fst e \<le> INT_MAX)"

lemma int32_le: "int32 x \<le> INT_MAX"
  using pos_mod_bound [of "2 ^ 32" "x + 2 ^ 31"] by (simp add: int32_def)

lemma set_insert: "set (sched_insert t e es) = insert e (set es)"
  by (induction es) auto

lemma times_add [simp]: "times_ok (SchedAdd job t u) = times_ok u"
  using int32_le by (simp add: times_ok_def SchedAdd_def set_insert)

lemma times_remove: "times_ok u \<Longrightarrow> times_ok (SchedFindRemove job u)"
  by (simp add: times_ok_def SchedFindRemove_def)

lemma times_clear: "times_ok u \<Longrightarrow> times_ok (uart_clear_int intr u)"
  by (simp add: times_ok_def events_clear)

lemma times_ints [simp]:
  "times_ok (uart_int_msi u) = times_ok u" "times_ok (uart_int_thri u) = times_ok u" "times_ok (uart_int_cti u) = times_ok u"
  "times_ok (uart_int_rdi u) = times_ok u" "times_ok (uart_int_rlsi u) = times_ok u" "times_ok (uart_check_rlsi u) = times_ok u"
  "times_ok (uart_check_rdi u) = times_ok u" "times_ok (uart_next_int u) = times_ok u"
  by (simp_all add: times_ok_def)

lemma times_cong: "u_events v = u_events u \<Longrightarrow> times_ok u \<Longrightarrow> times_ok v"
  by (simp add: times_ok_def)

lemma times_upd [simp]:
  "times_ok (u\<lparr>u_txbuf := a\<rparr>) = times_ok u" "times_ok (u\<lparr>u_lsr := b\<rparr>) = times_ok u" "times_ok (u\<lparr>u_mcr := b\<rparr>) = times_ok u"
  "times_ok (u\<lparr>u_dll := b\<rparr>) = times_ok u" "times_ok (u\<lparr>u_dlh := b\<rparr>) = times_ok u" "times_ok (u\<lparr>u_ier := b\<rparr>) = times_ok u"
  "times_ok (u\<lparr>u_fcr := b\<rparr>) = times_ok u" "times_ok (u\<lparr>u_lcr := b\<rparr>) = times_ok u" "times_ok (u\<lparr>u_msr := b\<rparr>) = times_ok u"
  "times_ok (u\<lparr>u_scr := b\<rparr>) = times_ok u" "times_ok (u\<lparr>u_txser := b\<rparr>) = times_ok u" "times_ok (u\<lparr>u_rxser := c\<rparr>) = times_ok u"
  "times_ok (u\<lparr>u_rxbuf := d\<rparr>) = times_ok u" "times_ok (u\<lparr>u_loopback := b\<rparr>) = times_ok u" "times_ok (u\<lparr>u_txbuf_head := n\<rparr>) = times_ok u"
  "times_ok (u\<lparr>u_txbuf_tail := n\<rparr>) = times_ok u" "times_ok (u\<lparr>u_rxbuf_head := n\<rparr>) = times_ok u" "times_ok (u\<lparr>u_rxbuf_tail := n\<rparr>) = times_ok u"
  "times_ok (u\<lparr>u_txbuf_full := w\<rparr>) = times_ok u" "times_ok (u\<lparr>u_rxbuf_full := w\<rparr>) = times_ok u" "times_ok (u\<lparr>u_receiveing := p\<rparr>) = times_ok u"
  "times_ok (u\<lparr>u_char_clks := n\<rparr>) = times_ok u" "times_ok (u\<lparr>u_fifo_len := n\<rparr>) = times_ok u" "times_ok (u\<lparr>u_curTime := t\<rparr>) = times_ok u"
  "times_ok (u\<lparr>u_in := is\<rparr>) = times_ok u" "times_ok (u\<lparr>u_out := os\<rparr>) = times_ok u"
  by (simp_all add: times_ok_def)

lemmas times_parts = times_clear times_remove

lemma times_tx_send: "times_ok u \<Longrightarrow> times_ok (uart_tx_send u)"
  by (simp add: uart_tx_send_def Let_def)

lemma times_add_char: "times_ok u \<Longrightarrow> times_ok (uart_add_char ch u)"
proof -
  assume "times_ok u"
  then have "times_ok (uart_clear_int UART_IIR_CTI (u\<lparr>u_lsr := u_lsr u OR UART_LSR_RDRDY\<rparr>))" by (intro times_clear) simp
  then show ?thesis by (simp add: uart_add_char_def Let_def)
qed

lemma times_job: "times_ok u \<Longrightarrow> times_ok (uart_run_job job u)"
proof (cases job)
  case J_check_char
  then show "times_ok u \<Longrightarrow> times_ok (uart_run_job job u)"
    by (auto simp: uart_run_job_def uart_check_char_def channel_read_def split: list.split uart_read.split)
next
  case J_recv_char
  then show "times_ok u \<Longrightarrow> times_ok (uart_run_job job u)"
    unfolding uart_run_job_def uart_recv_char_def Let_def uart_sched_recv_check_def by (simp add: times_add_char)
qed (simp_all add: uart_run_job_def uart_char_clock_def uart_send_break_def uart_tx_next_def send_char_def times_tx_send)

lemma times_write_tx: "times_ok u \<Longrightarrow> times_ok (uart_write_tx x u)"
  unfolding uart_write_tx_def Let_def by (intro times_clear) simp

lemma times_write_fcr: "times_ok u \<Longrightarrow> times_ok (uart_write_fcr x u)"
  unfolding uart_write_fcr_def Let_def by (auto intro!: times_clear times_remove)

lemma times_write_lcr: "times_ok u \<Longrightarrow> times_ok (uart_write_lcr x u)"
  unfolding uart_write_lcr_def Let_def by (auto intro: times_remove)

lemma times_loopback: "times_ok u \<Longrightarrow> times_ok (uart_loopback u)"
  by (simp add: uart_loopback_def Let_def)

lemma times_write: "times_ok u \<Longrightarrow> times_ok (uart_write_byte addr x u)"
  by (simp add: uart_write_byte_def Let_def times_write_tx times_write_fcr times_write_lcr times_loopback)

lemma times_read_rx: "times_ok u \<Longrightarrow> times_ok (snd (uart_read_rx u))"
proof -
  assume "times_ok u"
  then have "times_ok (snd (uart_rx_take u))" by (simp add: uart_rx_take_def)
  then have "times_ok (uart_clear_int UART_IIR_CTI (uart_clear_int UART_IIR_RDI (snd (uart_rx_take u))))" by (intro times_clear)
  then show ?thesis by (simp add: uart_read_rx_def case_prod_beta uart_rx_next_def)
qed

lemma times_read: "times_ok u \<Longrightarrow> times_ok (snd (uart_read_byte addr u))"
  by (simp add: uart_read_byte_def Let_def times_read_rx times_clear times_loopback)

lemma times_advance: "times_ok u \<Longrightarrow> times_ok (sim_advance steps (sim_set_back u))"
  using int32_le by (auto simp: sim_advance_def sim_set_back_def Let_def times_ok_def)

lemma times_run: "times_ok u \<Longrightarrow> run_events n u = Some v \<Longrightarrow> times_ok v"
proof (induction n arbitrary: u)
  case 0
  then show ?case by (auto split: list.splits if_splits)
next
  case (Suc n)
  show ?case
  proof (cases "u_events u = [] \<or> u_curTime u < fst (hd (u_events u))")
    case True
    then show ?thesis using Suc.prems by (cases "u_events u") auto
  next
    case False
    then obtain t job es where e: "u_events u = (t, job) # es" "t \<le> u_curTime u" by (cases "u_events u") auto
    then have "run_events n (uart_run_job job (u\<lparr>u_events := es\<rparr>)) = Some v" using Suc.prems by simp
    moreover have "times_ok (u\<lparr>u_events := es\<rparr>)" using Suc.prems e by (simp add: times_ok_def)
    ultimately show ?thesis using Suc.IH times_job by blast
  qed
qed

lemma times_reach: "uart_reach u \<Longrightarrow> times_ok u"
proof (induction rule: uart_reach.induct)
  case (uart_init input)
  show ?case by (simp add: uart_reset_def uart_sched_recv_check_def) (simp add: times_ok_def)
next
  case (uart_simulate u n steps r v)
  then have "run_events n (sim_advance steps (sim_set_back u)) = Some v" by (auto simp: Simulate_def simp del: run_events.simps)
  then show ?case using times_run [OF times_advance [OF uart_simulate.IH]] by blast
qed (simp_all add: times_write times_read)

text \<open>The job of the receiver stays: in loopback mode it schedules itself, and no other job removes it.\<close>

lemma recv_stays:
  assumes "bit (u_mcr u) 4" "job = J_recv_char \<or> (\<exists>t. (t, J_recv_char) \<in> set (u_events u))"
  shows "0 < jobs J_recv_char (uart_run_job job u)"
proof -
  have j: "0 < jobs J_recv_char u" if "job \<noteq> J_recv_char" using assms(2) that by (force simp: jobs_def filter_empty_conv)
  have ju: "jobs k (w\<lparr>u_txser := a, u_txbuf_tail := b, u_txbuf_full := c, u_lsr := d\<rparr>) = jobs k w" "jobs k (w\<lparr>u_lsr := d\<rparr>) = jobs k w"
    "jobs k (w\<lparr>u_txser := a, u_txbuf_tail := b, u_txbuf_full := c\<rparr>) = jobs k w"
    "jobs k (w\<lparr>u_rxbuf := x, u_rxbuf_head := h, u_rxbuf_full := c\<rparr>) = jobs k w" for k w a b c d x h
    by (simp_all add: jobs_def)
  have jt: "jobs J_recv_char (uart_tx_send w) = jobs J_recv_char w" for w
    by (simp add: uart_tx_send_def Let_def jobs_add ju)
  have ja: "jobs J_recv_char (uart_add_char ch w) = jobs J_recv_char w" for ch w
    by (simp add: uart_add_char_def Let_def jobs_add jobs_clear ju)
  show ?thesis
  proof (cases job)
    case J_recv_char
    then show ?thesis using assms(1) by (simp add: uart_run_job_def uart_recv_char_def Let_def ja jobs_add bit_and_0x10)
  next
    case J_check_char
    then show ?thesis using j
      by (auto simp: uart_run_job_def uart_check_char_def channel_read_def jobs_add split: list.split uart_read.split) (simp_all add: jobs_def)
  qed (use j jt in \<open>simp_all add: uart_run_job_def uart_char_clock_def uart_send_break_def uart_tx_next_def send_char_def\<close>, simp_all add: jobs_def)
qed

lemma wraps_forever:
  "u_curTime u = INT_MAX \<Longrightarrow> bit (u_mcr u) 4 \<Longrightarrow> times_ok u \<Longrightarrow> \<exists>t. (t, J_recv_char) \<in> set (u_events u) \<Longrightarrow> run_events n u = None"
proof (induction n arbitrary: u)
  case 0
  then show ?case by (cases "u_events u") (auto simp: times_ok_def)
next
  case (Suc n)
  then obtain t job es where e: "u_events u = (t, job) # es" by (cases "u_events u") auto
  define v where "v = uart_run_job job (u\<lparr>u_events := es\<rparr>)"
  have le: "t \<le> u_curTime u" "times_ok (u\<lparr>u_events := es\<rparr>)" using Suc.prems e by (simp_all add: times_ok_def)
  have "0 < jobs J_recv_char v" unfolding v_def by (rule recv_stays) (use Suc.prems e in auto)
  then have "\<exists>t. (t, J_recv_char) \<in> set (u_events v)" unfolding jobs_def by (force simp: filter_empty_conv)
  moreover have "u_curTime v = INT_MAX" "bit (u_mcr v) 4" "times_ok v" using Suc.prems le by (simp_all add: v_def job_config times_job)
  ultimately have "run_events n v = None" by (rule Suc.IH [rotated 3])
  then show ?case using e le by (simp add: v_def)
qed

section \<open>Properties\<close>


lemma ex_uart_first:
  "tx_room (uart_reset [])"
  "\<exists>r v. Simulate (Suc (Suc 0)) 1 (uart_write_byte 0 0x41 (uart_reset [])) = Some (r, v) \<and> tx_room v \<and> u_out (uart_write_byte 0 0x42 v) = [0x41]"
  by (simp_all add: tx_room_def uart_reset_def uart_sched_recv_check_def SchedAdd_def uart_write_byte_def uart_write_tx_def
      uart_clear_int_def SchedFindRemove_def sim_advance_def sim_set_back_def uart_run_job_def uart_tx_send_def uart_int_defs
      int32_def uart_char_clock_def uart_tx_next_def send_char_def Simulate_def uart_next_int_def)


text \<open>C8.  The receive FIFO is a queue: in every state the UART can reach, a read of the receive buffer returns the oldest character
  (0 when there is none) and leaves the others; a character that arrives goes to the end, or, when the FIFO is full, is dropped
  with the overrun bit set; and every other register access but a FIFO control write keeps the queue.\<close>

theorem uart_receives_in_order:
  assumes "uart_reach u"
  shows "(u_lcr u AND 0x80 = 0 \<longrightarrow> fst (uart_read_byte 0 u) = (case rx_queue u of [] \<Rightarrow> 0 | c # _ \<Rightarrow> ucast c)
      \<and> rx_queue (snd (uart_read_byte 0 u)) = tl (rx_queue u))
    \<and> rx_queue (uart_add_char ch u) = (if length (rx_queue u) < u_fifo_len u then rx_queue u @ [ch] else rx_queue u)
    \<and> (length (rx_queue u) = u_fifo_len u \<longrightarrow> u_lsr (uart_add_char ch u) = u_lsr u OR 0x83)
    \<and> (addr \<noteq> 0 \<longrightarrow> rx_queue (snd (uart_read_byte addr u)) = rx_queue u)
    \<and> (addr \<noteq> 2 \<longrightarrow> rx_queue (uart_write_byte addr value u) = rx_queue u)"
  using uart_read_rx_queue [OF uart_reach_ok [OF assms]] uart_add_char_queue [OF uart_reach_ok [OF assms], of ch]
    rx_queue_read rx_queue_write
  by (simp add: uart_read_byte_def [of 0])

theorem uart_receives_in_order_witness:
  "rx_queue (uart_add_char 0x42 (uart_reset [])) = rx_queue (uart_reset []) @ [0x42] \<and> fst (uart_read_byte 0 (uart_reset [])) = 0"
  using uart_receives_in_order [OF uart_init, of "[]" "0x42"]
  by (simp add: uart_reset_def uart_sched_recv_check_def SchedAdd_def rx_queue_def)

text \<open>In every state the UART can reach the FIFO places are in range and the receive FIFO is no fuller than its length, \<open>iir\<close> is one
  of the five interrupts or 1, the interrupt line is up exactly when \<open>iir\<close> names an interrupt, and an enabled interrupt that is pending
  is never left unreported.\<close>

lemma uart_consistent:
  assumes "uart_reach u"
  shows "(u_fifo_len u = 1 \<or> u_fifo_len u = 16) \<and> u_txbuf_head u < u_fifo_len u \<and> u_txbuf_tail u < u_fifo_len u
    \<and> u_rxbuf_head u < u_fifo_len u \<and> u_rxbuf_tail u < u_fifo_len u \<and> unat (u_rxbuf_full u) \<le> u_fifo_len u
    \<and> u_iir u \<in> {0, 1, 2, 4, 6, 0xc} \<and> (u_irqPending u \<longleftrightarrow> u_iir u \<noteq> 1)
    \<and> (\<forall>k < 5. int_pending (fst (int_prio ! k)) u \<and> u_ier u AND snd (int_prio ! k) \<noteq> 0 \<longrightarrow> u_irqPending u)"
  using uart_reach_ok [OF assms] unfolding uart_ok_def fifos_ok_def irq_ok_def int_on_def by auto

lemma uart_consistent_witness: "uart_reach (uart_write_byte 2 1 (uart_reset [])) \<and> u_fifo_len (uart_write_byte 2 1 (uart_reset [])) = 16
    \<and> u_txbuf_head (uart_write_byte 2 1 (uart_reset [])) < 16"
proof -
  have r: "uart_reach (uart_write_byte 2 1 (uart_reset []))" by (rule uart_write [OF uart_init])
  moreover have "u_fifo_len (uart_write_byte 2 1 (uart_reset [])) = 16"
    by (simp add: uart_write_byte_def uart_write_fcr_def uart_reset_def uart_sched_recv_check_def SchedAdd_def Let_def)
  ultimately show ?thesis using uart_consistent [OF r] by simp
qed

text \<open>C9.  \<open>Simulate\<close> returns from every reachable state: its loop runs finitely many jobs, unless the UART is in loopback mode with the
  divisor latch 0, and provided the new time is at least 2^26 below the largest integer, so that no rescheduled job wraps around
  (which holds for every \<open>steps\<close> up to 2^30 - 2^26).\<close>

theorem simulate_returns:
  assumes "uart_reach u" "\<not> (bit (u_mcr u) 4 \<and> u_char_clks u = 0)" "u_curTime (sim_advance steps (sim_set_back u)) + 2 ^ 26 \<le> INT_MAX"
  shows "\<exists>n v. Simulate n steps u = Some (sim_result v, v)"
proof -
  have "u_mcr (sim_advance steps (sim_set_back u)) = u_mcr u" "u_char_clks (sim_advance steps (sim_set_back u)) = u_char_clks u"
    "0 \<le> u_curTime (sim_advance steps (sim_set_back u))"
    by (simp_all add: sim_advance_def sim_set_back_def Let_def)
  then obtain n v where "run_events n (sim_advance steps (sim_set_back u)) = Some v"
    using run_events_ends [of "sim_advance steps (sim_set_back u)"] assms(2,3) uart_reach_clks [OF assms(1)] by (auto simp: time_ok_def)
  then have "Simulate n steps u = Some (sim_result v, v)" by (simp add: Simulate_def del: run_events.simps)
  then show ?thesis by blast
qed

theorem simulate_returns_witness: "\<exists>n v. Simulate n 2000 (uart_reset [Rd_char 0x41]) = Some (sim_result v, v)"
  by (rule simulate_returns [OF uart_init])
    (simp_all add: uart_reset_def uart_sched_recv_check_def SchedAdd_def sim_advance_def sim_set_back_def int32_def)


lemma ex_uart_loop:
  "\<exists>r v. Simulate (Suc 0) 1600 (uart_write_byte 0 1 (uart_write_byte 3 0x83 (uart_reset [Rd_char 0x41]))) = Some (r, v)
    \<and> u_curTime v = 1600 \<and> u_char_clks v = 10 \<and> u_events v = [(1760, J_recv_char)]"
  by (simp add: uart_reset_def uart_sched_recv_check_def SchedAdd_def uart_write_byte_def uart_write_lcr_def char_clks_def
      sim_advance_def sim_set_back_def uart_run_job_def int32_def uart_check_char_def channel_read_def Simulate_def)

lemma loopback_keeps:
  "u_curTime (uart_loopback u) = u_curTime u" "u_char_clks (uart_loopback u) = u_char_clks u" "u_events (uart_loopback u) = u_events u"
  "u_mcr (uart_loopback u) = u_mcr u"
  by (simp_all add: uart_loopback_def Let_def)


text \<open>C13.  The next interrupt is chosen while \<open>iir\<close> still names the one just cleared: when a program clears the reported interrupt
  and one of lower priority is pending and enabled, \<open>iir\<close> and the interrupt line stay as they are, so the UART goes on reporting an
  interrupt that is no longer pending.\<close>

theorem uart_stale_interrupt:
  assumes "k < j" "j < 5" "u_iir u = fst (int_prio ! k)" "int_on j u" "\<forall>i < k. \<not> int_on i u"
  shows "u_iir (uart_clear_int (fst (int_prio ! k)) u) = fst (int_prio ! k)
    \<and> u_irqPending (uart_clear_int (fst (int_prio ! k)) u) = u_irqPending u
    \<and> \<not> int_pending (fst (int_prio ! k)) (uart_clear_int (fst (int_prio ! k)) u)"
proof -
  define v where "v = (let u1 = u\<lparr>u_ints := u_ints u AND NOT (int_bit (fst (int_prio ! k)))\<rparr>
    in if fst (int_prio ! k) = UART_IIR_CTI then SchedFindRemove J_int_cti u1 else u1)"
  have v: "u_iir v = fst (int_prio ! k)" "u_irqPending v = u_irqPending u" "u_ints v = u_ints u AND NOT (int_bit (fst (int_prio ! k)))"
    "u_ier v = u_ier u" using assms(3) by (simp_all add: v_def SchedFindRemove_def Let_def)
  have clear: "uart_clear_int (fst (int_prio ! k)) u = uart_next_int v"
    using v(1) unfolding uart_clear_int_def v_def Let_def by simp
  have k: "k < 5" using assms(1,2) by simp
  have bits: "int_pending (fst (int_prio ! i)) w \<longleftrightarrow> bit (u_ints w) (unat (fst (int_prio ! i)))" if "i < 5" for i w
    using int_prio_bit [OF that that] by (simp add: int_pending_bit)
  have on: "int_on i v \<longleftrightarrow> int_on i u \<and> i \<noteq> k" if "i < 5" for i
    using int_prio_bit [OF that k] int_prio_bit [OF k k]
    by (auto simp: int_on_def bits that v bit_and_iff bit_not_iff bit_int_bit)
  have "int_on j v" "\<forall>i < 5. i \<le> k \<longrightarrow> \<not> int_on i v" using on assms(1,2,4,5) by (auto simp: le_less)
  note j_on = this
  define i where "i = (LEAST i. int_on i v)"
  have "int_on i v" "i \<le> j" unfolding i_def using j_on(1) by (rule LeastI, rule Least_le)
  moreover have "\<forall>m < i. \<not> int_on m v" unfolding i_def using not_less_Least by blast
  moreover have "i < 5" using \<open>i \<le> j\<close> assms(2) by simp
  moreover have "k < i" using j_on(2) \<open>int_on i v\<close> \<open>i < 5\<close> by (meson not_less)
  ultimately have i: "k < i" "i < 5" "int_on i v" "\<forall>m < i. \<not> int_on m v" by blast+
  have "uart_next_int v = v\<lparr>u_ints := u_ints v OR int_bit (fst (int_prio ! i))\<rparr>"
  proof -
    have on_i: "u_ier v AND snd (int_prio ! i) \<noteq> 0" using i(3) by (simp add: int_on_def)
    have "i = 1 \<and> u_iir v = 6 \<or> i = 2 \<and> u_iir v \<in> {6, 4} \<or> i = 3 \<and> u_iir v \<in> {6, 4, 0xc} \<or> i = 4 \<and> u_iir v \<in> {6, 4, 0xc, 2}"
      using less_5_cases [OF i(2)] i(1) unfolding v(1) by (elim disjE; hypsubst_thin; simp add: int_prio_def numeral_eq_Suc less_Suc_eq) auto
    then show ?thesis
    proof (elim disjE conjE)
      assume c: "i = 1" "u_iir v = 6"
      then show ?thesis using i(3,4) on_i by (simp add: next_int_on uart_int_defs int_prio_def)
    next
      assume c: "i = 2" "u_iir v \<in> {6, 4}"
      then have "uart_next_int v = uart_int_cti v" using i(3,4) by (simp add: next_int_on)
      then show ?thesis using c by (auto simp: uart_int_cti_def Let_def int_prio_def)
    next
      assume c: "i = 3" "u_iir v \<in> {6, 4, 0xc}"
      then have "uart_next_int v = uart_int_thri v" using i(3,4) by (simp add: next_int_on)
      then show ?thesis using c by (auto simp: uart_int_thri_def Let_def int_prio_def)
    next
      assume c: "i = 4" "u_iir v \<in> {6, 4, 0xc, 2}"
      then have "uart_next_int v = uart_int_msi v" using i(3,4) by (simp add: next_int_on)
      then show ?thesis using c by (auto simp: uart_int_msi_def Let_def int_prio_def)
    qed
  qed
  moreover have "\<not> int_pending (fst (int_prio ! k)) (v\<lparr>u_ints := u_ints v OR int_bit (fst (int_prio ! i))\<rparr>)"
    using int_prio_bit [OF i(2) k] int_prio_bit [OF k k] i(1)
    by (simp add: bits [OF k] v bit_or_iff bit_and_iff bit_not_iff bit_int_bit)
  ultimately show ?thesis using v(1,2) by (simp add: clear)
qed

text \<open>A character and an empty transmitter, both enabled: after the character is read, \<open>iir\<close> still says there is one.\<close>

theorem uart_stale_interrupt_witness:
  "u_iir (uart_clear_int 4 (uart_int_thri (uart_int_rdi (uart_reset []\<lparr>u_ier := 3\<rparr>)))) = 4
    \<and> \<not> int_pending 4 (uart_clear_int 4 (uart_int_thri (uart_int_rdi (uart_reset []\<lparr>u_ier := 3\<rparr>))))"
proof -
  define u where "u = uart_int_thri (uart_int_rdi (uart_reset []\<lparr>u_ier := 3\<rparr>))"
  have "u_ier u = 3" "u_iir u = 4" "u_ints u = 0x14"
    by (simp_all add: u_def uart_reset_def uart_sched_recv_check_def SchedAdd_def uart_int_defs int_bit_def)
  then have "u_iir u = fst (int_prio ! 1)" "int_on 3 u" "\<forall>i < 1. \<not> int_on i u" by (simp_all add: int_on_bits int_prio_def)
  from uart_stale_interrupt [of 1 3 u, OF _ _ this] show ?thesis by (simp add: u_def [symmetric] int_prio_def)
qed

text \<open>C14.  \<open>SchedAdd\<close> looks for the place of a new event with its delay instead of its time: once the clock has advanced, an event gets in
  front of an earlier one, and \<open>Simulate\<close> then does not run the earlier one when it is due.\<close>

theorem sched_add_misorders:
  assumes "u_events u = (t, j) # es" "int jobTime < t" "t \<le> time" "time < int32 (u_curTime u + int jobTime)"
  shows "u_events (SchedAdd job jobTime u) = (int32 (u_curTime u + int jobTime), job) # (t, j) # es
    \<and> run_events n (SchedAdd job jobTime u\<lparr>u_curTime := time\<rparr>) = Some (SchedAdd job jobTime u\<lparr>u_curTime := time\<rparr>)"
  using assms by (simp add: SchedAdd_def)

theorem sched_add_misorders_witness:
  "u_events (SchedAdd J_char_clock 800 (uart_reset []\<lparr>u_curTime := 1000\<rparr>)) = [(1800, J_char_clock), (1600, J_check_char)]
    \<and> run_events 9 (SchedAdd J_char_clock 800 (uart_reset []\<lparr>u_curTime := 1000\<rparr>)\<lparr>u_curTime := 1700\<rparr>)
      = Some (SchedAdd J_char_clock 800 (uart_reset []\<lparr>u_curTime := 1000\<rparr>)\<lparr>u_curTime := 1700\<rparr>)"
  using sched_add_misorders [of "uart_reset []\<lparr>u_curTime := 1000\<rparr>" 1600 J_check_char "[]" 800 1700 J_char_clock 9]
  by (simp add: uart_reset_def uart_sched_recv_check_def SchedAdd_def int32_def del: run_events.simps)

end
