(* ===== verification/PnPeriph.thy ===== *)
theory PnPeriph
  imports PnUart PnLine
begin

text \<open>
  The testbench around the processor: the memory \<open>CMemory\<close> of \<open>src/sysc/memory.h\<close> and \<open>memory.cpp\<close> and the bus slave
  \<open>MPeripherals\<close> of \<open>src/sysc/peripherals.cpp\<close>, which serves accesses to memory and UART.  The bus slave keeps the protocol that
  \<open>PnLine\<close> asks of the other side of the bus, so the operations of the bus interface work on the bytes of this memory.
  An access outside the array of the memory is \<open>None\<close>.
\<close>

section \<open>Memory\<close>

text \<open>\<open>base\<close> and \<open>size\<close> are added as unsigned numbers.\<close>

record memory =
  m_base :: u32
  m_size :: u32
  m_data :: "byte list"

definition Memory_Init :: "u32 \<Rightarrow> u32 \<Rightarrow> memory" where
  "Memory_Init base sz = \<lparr>m_base = base, m_size = sz, m_data = replicate (unat sz) 0\<rparr>"

definition mem_IsAdressed :: "u32 \<Rightarrow> memory \<Rightarrow> bool" where
  "mem_IsAdressed adr m \<longleftrightarrow> m_base m \<le> adr \<and> adr \<le> m_base m + m_size m"

definition mem_ReadByte :: "u32 \<Rightarrow> memory \<Rightarrow> byte option" where
  "mem_ReadByte adr m = (let k = unat (adr - m_base m) in if k < length (m_data m) then Some (m_data m ! k) else None)"

definition mem_WriteByte :: "u32 \<Rightarrow> byte \<Rightarrow> memory \<Rightarrow> memory option" where
  "mem_WriteByte adr val m =
     (let k = unat (adr - m_base m) in if k < length (m_data m) then Some (m\<lparr>m_data := (m_data m)[k := val]\<rparr>) else None)"

text \<open>Several bytes, one after the other; the first that fails ends it.\<close>

fun get_all :: "('a \<Rightarrow> 'm \<Rightarrow> 'b option) \<Rightarrow> 'a list \<Rightarrow> 'm \<Rightarrow> 'b list option" where
  "get_all get [] m = Some []"
| "get_all get (a # as) m = Option.bind (get a m) (\<lambda>b. map_option ((#) b) (get_all get as m))"

fun put_all :: "('a \<Rightarrow> 'b \<Rightarrow> 'm \<Rightarrow> 'm option) \<Rightarrow> ('a \<times> 'b) list \<Rightarrow> 'm \<Rightarrow> 'm option" where
  "put_all put [] m = Some m"
| "put_all put ((a, b) # xs) m = Option.bind (put a b m) (put_all put xs)"

text \<open>Big-endian numbers, as the sums of shifted bytes the code writes.\<close>

definition be_word :: "byte list \<Rightarrow> u32" where
  "be_word bs = push_bit 24 (ucast (bs ! 0)) + push_bit 16 (ucast (bs ! 1)) + push_bit 8 (ucast (bs ! 2)) + ucast (bs ! 3)"

definition byte_lane :: "u32 \<Rightarrow> nat \<Rightarrow> byte" where
  "byte_lane w n = ucast (drop_bit (24 - 8 * n) w)"

definition mem_ReadHalfWord :: "u32 \<Rightarrow> memory \<Rightarrow> u16 option" where
  "mem_ReadHalfWord adr m =
     map_option (\<lambda>bs. push_bit 8 (ucast (bs ! 0)) + ucast (bs ! 1)) (get_all mem_ReadByte [adr, adr + 1] m)"

definition mem_WriteHalfWord :: "u32 \<Rightarrow> u16 \<Rightarrow> memory \<Rightarrow> memory option" where
  "mem_WriteHalfWord adr val m = put_all mem_WriteByte [(adr, ucast (drop_bit 8 val)), (adr + 1, ucast val)] m"

definition mem_ReadWord :: "u32 \<Rightarrow> memory \<Rightarrow> u32 option" where
  "mem_ReadWord adr m = map_option be_word (get_all mem_ReadByte [adr, adr + 1, adr + 2, adr + 3] m)"

definition mem_WriteWord :: "u32 \<Rightarrow> u32 \<Rightarrow> memory \<Rightarrow> memory option" where
  "mem_WriteWord adr val m = put_all mem_WriteByte
     [(adr, byte_lane val 0), (adr + 1, byte_lane val 1), (adr + 2, byte_lane val 2), (adr + 3, byte_lane val 3)] m"

section \<open>The bus slave\<close>

datatype per_pc = P_idle | P_delay nat | P_done

text \<open>Where the main thread waits, its locals, the outputs, the two devices, and the wait of the UART's thread.\<close>

record periph =
  p_pc :: per_pc
  p_we :: bool
  p_adr :: u32
  p_val :: u32
  p_sel :: "4 word"
  p_ack :: bool
  p_err :: bool
  p_rty :: bool
  p_dat :: u32
  p_mem :: memory
  p_uart :: "uart option"
  p_ubase :: u32
  p_uwait :: nat

record bus_in =
  i_stb :: bool
  i_cyc :: bool
  i_we :: bool
  i_sel :: "4 word"
  i_adr :: u32
  i_dat :: u32

abbreviation (input) WRITE_DELAY :: nat where "WRITE_DELAY \<equiv> 10"
abbreviation (input) READ_DELAY :: nat where "READ_DELAY \<equiv> 10"

text \<open>The lanes that bit \<open>n\<close> of \<open>sel\<close> selects, in the order of the loops.\<close>

definition sel_lanes :: "4 word \<Rightarrow> nat list" where
  "sel_lanes sel = filter (bit sel) [0..<4]"

definition uart_write_lanes :: "u32 \<Rightarrow> u32 \<Rightarrow> 4 word \<Rightarrow> u32 \<Rightarrow> uart \<Rightarrow> uart" where
  "uart_write_lanes base adr sel val u =
     fold (\<lambda>n. uart_write_byte (adr + of_nat n - base) (byte_lane val n)) (sel_lanes sel) u"

definition uart_read_lanes :: "u32 \<Rightarrow> u32 \<Rightarrow> 4 word \<Rightarrow> uart \<Rightarrow> u32 \<times> uart" where
  "uart_read_lanes base adr sel u =
     fold (\<lambda>n (val, u). let (b, v) = uart_read_byte (adr + of_nat n - base) u in (val OR push_bit (24 - 8 * n) (ucast b), v))
       (sel_lanes sel) (0, u)"

definition mem_write_lanes :: "u32 \<Rightarrow> 4 word \<Rightarrow> u32 \<Rightarrow> memory \<Rightarrow> memory option" where
  "mem_write_lanes adr sel val m =
     (if sel = 15 then mem_WriteWord adr val m
      else put_all mem_WriteByte (map (\<lambda>n. (adr + of_nat n, byte_lane val n)) (sel_lanes sel)) m)"

definition mem_read_lanes :: "u32 \<Rightarrow> 4 word \<Rightarrow> memory \<Rightarrow> u32 option" where
  "mem_read_lanes adr sel m =
     (if sel = 15 then mem_ReadWord adr m
      else map_option (\<lambda>bs. fold (\<lambda>(n, b) val. val OR push_bit (24 - 8 * n) (ucast b)) (zip (sel_lanes sel) bs) 0)
             (get_all mem_ReadByte (map (\<lambda>n. adr + of_nat n) (sel_lanes sel)) m))"

definition uart_adressed :: "periph \<Rightarrow> bool" where
  "uart_adressed p \<longleftrightarrow> p_uart p \<noteq> None \<and> uart_IsAdressed (p_ubase p) (p_adr p)"

text \<open>A transfer to an address nobody owns is acknowledged all the same.\<close>

definition periph_write :: "periph \<Rightarrow> periph option" where
  "periph_write p =
     (if uart_adressed p
      then Some (p\<lparr>p_uart := map_option (uart_write_lanes (p_ubase p) (p_adr p) (p_sel p) (p_val p)) (p_uart p)\<rparr>)
      else if mem_IsAdressed (p_adr p) (p_mem p)
      then map_option (\<lambda>m. p\<lparr>p_mem := m\<rparr>) (mem_write_lanes (p_adr p) (p_sel p) (p_val p) (p_mem p))
      else Some p)"

definition periph_read :: "periph \<Rightarrow> periph option" where
  "periph_read p =
     (if uart_adressed p
      then let (val, u) = uart_read_lanes (p_ubase p) (p_adr p) (p_sel p) (the (p_uart p))
           in Some (p\<lparr>p_dat := val, p_uart := Some u\<rparr>)
      else if mem_IsAdressed (p_adr p) (p_mem p)
      then map_option (\<lambda>val. p\<lparr>p_dat := val\<rparr>) (mem_read_lanes (p_adr p) (p_sel p) (p_mem p))
      else Some (p\<lparr>p_dat := 0xffffffff\<rparr>))"

definition MainThread :: "bus_in \<Rightarrow> periph \<Rightarrow> periph option" where
  "MainThread i p =
     (case p_pc p of
        P_idle \<Rightarrow>
          if i_stb i \<and> i_cyc i
          then Some (p\<lparr>p_we := i_we i, p_adr := i_adr i, p_val := i_dat i, p_sel := i_sel i,
                       p_pc := P_delay (if i_we i then WRITE_DELAY else READ_DELAY)\<rparr>)
          else Some p
      | P_delay n \<Rightarrow>
          if 1 < n then Some (p\<lparr>p_pc := P_delay (n - 1)\<rparr>)
          else map_option (\<lambda>q. q\<lparr>p_ack := True, p_pc := P_done\<rparr>) (if p_we p then periph_write p else periph_read p)
      | P_done \<Rightarrow> Some (p\<lparr>p_ack := False, p_err := False, p_pc := P_idle\<rparr>))"

definition periph_reset :: "periph \<Rightarrow> periph" where
  "periph_reset p = p\<lparr>p_rty := False, p_ack := False, p_err := False, p_pc := P_idle, p_uwait := 10\<rparr>"

text \<open>The thread of the UART, with the number of events \<open>Simulate\<close> may run.\<close>

definition UartThread :: "nat \<Rightarrow> periph \<Rightarrow> periph option" where
  "UartThread n p =
     (if 1 < p_uwait p then Some (p\<lparr>p_uwait := p_uwait p - 1\<rparr>)
      else case p_uart p of
             None \<Rightarrow> Some (p\<lparr>p_uwait := 10\<rparr>)
           | Some u \<Rightarrow> map_option (\<lambda>(r, v). p\<lparr>p_uart := Some v, p_uwait := 10\<rparr>) (Simulate n 100 u))"

fun MainThread_run :: "bus_in list \<Rightarrow> periph \<Rightarrow> periph option" where
  "MainThread_run [] p = Some p"
| "MainThread_run (i # is) p = Option.bind (MainThread i p) (MainThread_run is)"

section \<open>Byte stores\<close>

text \<open>What the accesses of several bytes need of those of one.\<close>

locale byte_store =
  fixes get :: "u32 \<Rightarrow> 'm \<Rightarrow> byte option" and put :: "u32 \<Rightarrow> byte \<Rightarrow> 'm \<Rightarrow> 'm option"
  assumes put_ok: "put a b m = None \<longleftrightarrow> get a m = None"
    and get_put: "put a b m = Some m' \<Longrightarrow> get x m' = (if x = a then Some b else get x m)"
begin

lemma put_all_get:
  "put_all put xs m = Some m' \<Longrightarrow> get x m' = (case map_of (rev xs) x of Some b \<Rightarrow> Some b | None \<Rightarrow> get x m)"
proof (induction xs arbitrary: m)
  case (Cons ab xs)
  obtain a b where ab: "ab = (a, b)" by (cases ab)
  with Cons.prems obtain m1 where m1: "put a b m = Some m1" "put_all put xs m1 = Some m'" by (auto split: bind_splits)
  show ?case using Cons.IH [OF m1(2)] get_put [OF m1(1), of x] by (auto simp: ab map_add_def split: option.split)
qed simp

lemma put_all_ok: "put_all put xs m \<noteq> None \<longleftrightarrow> (\<forall>a \<in> set (map fst xs). get a m \<noteq> None)"
proof (induction xs arbitrary: m)
  case (Cons ab xs)
  obtain a b where ab: "ab = (a, b)" by (cases ab)
  show ?case
  proof (cases "put a b m")
    case None
    then show ?thesis using put_ok [of a b m] by (simp add: ab)
  next
    case (Some m1)
    have "get a m \<noteq> None" using put_ok [of a b m] Some by simp
    then show ?thesis using Cons.IH [of m1] get_put [OF Some] by (auto simp: ab Some)
  qed
qed simp

lemma get_all_ok: "get_all get as m = (if \<forall>a \<in> set as. get a m \<noteq> None then Some (map (\<lambda>a. the (get a m)) as) else None)"
  by (induction as) (auto split: bind_splits)

end

lemma unat_diff_eq: "unat (a - c) = unat (x - c :: u32) \<longleftrightarrow> a = x"
  by (simp add: word_unat_eq_iff [symmetric])

interpretation cm: byte_store mem_ReadByte mem_WriteByte
  by unfold_locales (auto simp: mem_ReadByte_def mem_WriteByte_def Let_def nth_list_update unat_diff_eq split: if_splits)

lemma mem_frame: "put_all mem_WriteByte xs m = Some m' \<Longrightarrow> m_base m' = m_base m \<and> m_size m' = m_size m \<and> length (m_data m') = length (m_data m)"
  by (induction xs arbitrary: m) (auto simp: mem_WriteByte_def Let_def split: bind_splits if_splits)

section \<open>Words and their bytes\<close>

lemma bit_be_word:
  assumes "k < 32"
  shows "bit (be_word [b0, b1, b2, b3]) k = bit ([b0, b1, b2, b3] ! (3 - k div 8)) (k mod 8)"
proof -
  let ?w = "push_bit 24 (ucast b0) OR push_bit 16 (ucast b1) OR push_bit 8 (ucast b2) OR ucast b3 :: u32"
  have none: "push_bit 24 (ucast b0) AND push_bit 16 (ucast b1 :: u32) = 0"
    "(push_bit 24 (ucast b0) OR push_bit 16 (ucast b1)) AND push_bit 8 (ucast b2 :: u32) = 0"
    "(push_bit 24 (ucast b0) OR push_bit 16 (ucast b1) OR push_bit 8 (ucast b2)) AND (ucast b3 :: u32) = 0"
    by (rule bit_word_eqI, auto simp: bit_and_iff bit_or_iff bit_push_bit_iff bit_ucast_iff byte_bit_beyond)+
  have "be_word [b0, b1, b2, b3] = ?w"
    unfolding be_word_def nth_Cons_0 using none by (simp add: disjunctive_add_eq_or or.assoc)
  moreover have "bit ?w k = bit ([b0, b1, b2, b3] ! (3 - k div 8)) (k mod 8)"
  proof -
    define j q where "j = k mod 8" and "q = k div 8"
    then have k: "k = 8 * q + j" "j < 8" "q = 0 \<or> q = 1 \<or> q = 2 \<or> q = 3" using assms by auto
    from k(3) show ?thesis unfolding j_def [symmetric] q_def [symmetric] using k(2)
      by (elim disjE) (auto simp: k(1) bit_or_iff bit_push_bit_iff bit_ucast_iff byte_bit_beyond)
  qed
  ultimately show ?thesis by simp
qed

lemma map_lanes: "map f [0..<4] = [f 0, f 1, f 2, f (3 :: nat)]"
  by (simp add: upt_rec numeral_2_eq_2 numeral_3_eq_3)

lemma bit_be_word_map: "k < 32 \<Longrightarrow> bit (be_word (map f [0..<4])) k = bit (f (3 - k div 8)) (k mod 8)"
proof -
  assume k: "k < 32"
  have "3 - k div 8 = 0 \<or> 3 - k div 8 = 1 \<or> 3 - k div 8 = 2 \<or> 3 - k div 8 = 3" by linarith
  then have "[f 0, f 1, f 2, f 3] ! (3 - k div 8) = f (3 - k div 8)" by (elim disjE) simp_all
  then show ?thesis using bit_be_word [OF k, of "f 0" "f 1" "f 2" "f 3"] by (simp add: map_lanes)
qed

lemma lane_bit: "24 - 8 * (3 - k div 8) + k mod 8 = k" if "k < 32" for k :: nat
  using that by presburger

lemma bit_byte_lane: "n < 4 \<Longrightarrow> k < 8 \<Longrightarrow> bit (byte_lane w n) k = bit w (24 - 8 * n + k)"
  by (simp add: byte_lane_def bit_ucast_iff bit_drop_bit_eq)

lemma be_word_lanes: "be_word (map (byte_lane w) [0..<4]) = w"
proof (rule bit_word_eqI)
  fix k assume "k < LENGTH(32)"
  then have k: "k < 32" by simp
  then show "bit (be_word (map (byte_lane w) [0..<4])) k = bit w k"
    using lane_bit [OF k] by (simp add: bit_be_word_map bit_byte_lane)
qed

text \<open>Replacing the selected bytes is \<open>merge_lanes\<close>.\<close>

lemma be_word_merge:
  "be_word (map (\<lambda>n. if bit sel n then byte_lane val n else byte_lane w n) [0..<4]) = merge_lanes sel val w"
proof (rule bit_word_eqI)
  fix k assume "k < LENGTH(32)"
  then have k: "k < 32" by simp
  show "bit (be_word (map (\<lambda>n. if bit sel n then byte_lane val n else byte_lane w n) [0..<4])) k = bit (merge_lanes sel val w) k"
    using lane_bit [OF k] by (simp add: bit_be_word_map bit_byte_lane bit_merge_lanes k)
qed

section \<open>Accesses of a word\<close>

lemma lane_nat_eq: "n < 4 \<Longrightarrow> k < 4 \<Longrightarrow> of_nat n = (of_nat k :: u32) \<longleftrightarrow> n = k"
  by (simp add: word_of_nat_eq_iff take_bit_nat_eq_self)

lemma lane_adr_eq: "n < 4 \<Longrightarrow> k < 4 \<Longrightarrow> adr + of_nat n = adr + (of_nat k :: u32) \<longleftrightarrow> n = k"
  by (simp add: lane_nat_eq)

lemma lane_place:
  assumes "k < (4 :: nat)" "j < (8 :: nat)"
  shows "24 - 8 * k + j < 32 \<and> 3 - (24 - 8 * k + j) div 8 = k \<and> (24 - 8 * k + j) mod 8 = j"
proof -
  have "k = 0 \<or> k = 1 \<or> k = 2 \<or> k = 3" using assms(1) by auto
  moreover have "(24 + j) mod 8 = j" "(16 + j) mod 8 = j" "(8 + j) mod 8 = j" using assms(2) by presburger+
  ultimately show ?thesis using assms(2) by (elim disjE) auto
qed

lemma bit_15: "bit (15 :: 4 word) n \<longleftrightarrow> n < 4"
proof -
  have "(15 :: 4 word) = mask 4" by (simp add: mask_eq_exp_minus_1)
  then show ?thesis by (simp only: bit_mask_iff) simp
qed

lemma sel_lanes_15: "sel_lanes 15 = [0, 1, 2, 3]"
  using map_lanes [of id] by (simp add: sel_lanes_def bit_15 numeral_2_eq_2 numeral_3_eq_3)

text \<open>The accesses of whole words in the bus slave are the loops over the four lanes.\<close>

lemma mem_write_lanes_eq:
  "mem_write_lanes adr sel val m = put_all mem_WriteByte (map (\<lambda>n. (adr + of_nat n, byte_lane val n)) (sel_lanes sel)) m"
  by (simp add: mem_write_lanes_def sel_lanes_15 mem_WriteWord_def)

lemma lanes_map_of:
  assumes "k < 4"
  shows "map_of (rev (map (\<lambda>n. (adr + of_nat n, f n)) (sel_lanes sel))) (adr + (of_nat k :: u32)) = (if bit sel k then Some (f k) else None)"
proof -
  let ?xs = "map (\<lambda>n. (adr + (of_nat n :: u32), f n)) (sel_lanes sel)"
  have "distinct (map fst ?xs)"
    by (auto simp: sel_lanes_def distinct_map inj_on_def comp_def lane_nat_eq)
  then have d: "distinct (map fst (rev ?xs))" by (simp only: rev_map [symmetric] distinct_rev)
  show ?thesis
  proof (cases "bit sel k")
    case True
    then have "(adr + of_nat k, f k) \<in> set (rev ?xs)" using assms by (auto simp: sel_lanes_def)
    then show ?thesis using True by (simp only: map_of_eq_Some_iff [OF d] if_True)
  next
    case False
    then have "adr + of_nat k \<notin> fst ` set (rev ?xs)" using assms by (auto simp: sel_lanes_def lane_nat_eq)
    then show ?thesis using False by (simp only: map_of_eq_None_iff if_False simp_thms)
  qed
qed

lemma mem_write_byte:
  assumes "mem_write_lanes adr sel val m = Some m'"
  shows "k < 4 \<Longrightarrow> mem_ReadByte (adr + of_nat k) m' = (if bit sel k then Some (byte_lane val k) else mem_ReadByte (adr + of_nat k) m)"
    and "(\<forall>k < 4. x \<noteq> adr + of_nat k) \<Longrightarrow> mem_ReadByte x m' = mem_ReadByte x m"
proof -
  note G = cm.put_all_get [OF assms [unfolded mem_write_lanes_eq]]
  show "mem_ReadByte (adr + of_nat k) m' = (if bit sel k then Some (byte_lane val k) else mem_ReadByte (adr + of_nat k) m)" if "k < 4"
    unfolding G lanes_map_of [OF that] by simp
  assume "\<forall>k < 4. x \<noteq> adr + of_nat k"
  then have "map_of (rev (map (\<lambda>n. (adr + of_nat n, byte_lane val n)) (sel_lanes sel))) x = None"
    unfolding map_of_eq_None_iff by (auto simp: sel_lanes_def)
  then show "mem_ReadByte x m' = mem_ReadByte x m" unfolding G by simp
qed

definition word_there :: "u32 \<Rightarrow> memory \<Rightarrow> bool" where
  "word_there adr m \<longleftrightarrow> (\<forall>k < 4. mem_ReadByte (adr + of_nat k) m \<noteq> None)"

lemma ReadWord_lanes: "mem_ReadWord adr m = (if word_there adr m then Some (be_word (map (\<lambda>k. the (mem_ReadByte (adr + of_nat k) m)) [0..<4])) else None)"
proof -
  have "[adr, adr + 1, adr + 2, adr + 3] = map (\<lambda>k. adr + of_nat k) [0..<4]" by (simp add: map_lanes)
  moreover have "(\<forall>a \<in> set (map (\<lambda>k. adr + of_nat k) [0..<4]). mem_ReadByte a m \<noteq> None) = word_there adr m"
    unfolding word_there_def by auto
  ultimately show ?thesis unfolding mem_ReadWord_def cm.get_all_ok by (simp add: comp_def)
qed

lemma byte_of_word: "mem_ReadWord adr m = Some w \<Longrightarrow> k < 4 \<Longrightarrow> mem_ReadByte (adr + of_nat k) m = Some (byte_lane w k)"
proof -
  assume w: "mem_ReadWord adr m = Some w" and k: "k < 4"
  then have t: "word_there adr m" and e: "w = be_word (map (\<lambda>k. the (mem_ReadByte (adr + of_nat k) m)) [0..<4])"
    by (simp_all add: ReadWord_lanes split: if_splits)
  have "byte_lane w k = the (mem_ReadByte (adr + of_nat k) m)"
  proof (rule bit_word_eqI)
    fix j assume "j < LENGTH(8)"
    then have j: "j < 8" by simp
    note lane_place [OF k j]
    then show "bit (byte_lane w k) j = bit (the (mem_ReadByte (adr + of_nat k) m)) j"
      by (simp add: bit_byte_lane k j) (simp add: e bit_be_word_map)
  qed
  moreover have "mem_ReadByte (adr + of_nat k) m \<noteq> None" using t k by (simp add: word_there_def)
  ultimately show ?thesis by auto
qed

lemma mem_write_word:
  assumes "mem_write_lanes adr sel val m = Some m'" "mem_ReadWord adr m = Some w"
  shows "mem_ReadWord adr m' = Some (merge_lanes sel val w)"
proof -
  have b: "mem_ReadByte (adr + of_nat k) m' = Some (if bit sel k then byte_lane val k else byte_lane w k)" if "k < 4" for k
    using mem_write_byte(1) [OF assms(1) that] byte_of_word [OF assms(2) that] by simp
  then have "word_there adr m'" by (simp add: word_there_def)
  moreover have "map (\<lambda>k. the (mem_ReadByte (adr + of_nat k) m')) [0..<4] = map (\<lambda>k. if bit sel k then byte_lane val k else byte_lane w k) [0..<4]"
    using b by (intro map_cong) auto
  ultimately show ?thesis unfolding ReadWord_lanes by (simp only: if_True be_word_merge)
qed

lemma mem_write_there: "word_there adr m \<Longrightarrow> \<exists>m'. mem_write_lanes adr sel val m = Some m'"
proof -
  assume "word_there adr m"
  then have "put_all mem_WriteByte (map (\<lambda>n. (adr + of_nat n, byte_lane val n)) (sel_lanes sel)) m \<noteq> None"
    unfolding cm.put_all_ok by (auto simp: word_there_def sel_lanes_def)
  then show ?thesis by (auto simp: mem_write_lanes_eq)
qed

lemma map_option_fold: "map_option f (map_option g x) = map_option (\<lambda>y. f (g y)) x"
  by (cases x) simp_all

text \<open>The selected bytes at their places, zeros elsewhere.\<close>

lemma bit_lanes_or:
  "bit (fold (\<lambda>n val. val OR push_bit (24 - 8 * n) (ucast (g n :: byte))) ns (v :: u32)) k
     \<longleftrightarrow> bit v k \<or> (\<exists>n \<in> set ns. bit (push_bit (24 - 8 * n) (ucast (g n) :: u32)) k)"
  by (induction ns arbitrary: v) (auto simp: bit_or_iff)

lemma mem_read_word:
  assumes "mem_ReadWord adr m = Some w"
  shows "mem_read_lanes adr sel m = Some (merge_lanes sel w 0)"
proof (cases "sel = 15")
  case True
  have "merge_lanes 15 w 0 = w" using merge_full [of w 0] by simp
  then show ?thesis using True assms by (simp add: mem_read_lanes_def)
next
  case False
  define g where "g n = the (mem_ReadByte (adr + of_nat n) m)" for n
  have g: "mem_ReadByte (adr + of_nat n) m = Some (byte_lane w n)" if "n < 4" for n by (rule byte_of_word [OF assms that])
  have ns: "\<forall>n \<in> set (sel_lanes sel). n < 4" by (simp add: sel_lanes_def)
  have "get_all mem_ReadByte (map (\<lambda>n. adr + of_nat n) (sel_lanes sel)) m = Some (map (byte_lane w) (sel_lanes sel))"
    using g ns by (auto simp: cm.get_all_ok)
  moreover have "fold (\<lambda>(n, b) val. val OR push_bit (24 - 8 * n) (ucast b)) (zip ns (map h ns)) v
      = fold (\<lambda>n val. val OR push_bit (24 - 8 * n) (ucast (h n :: byte))) ns (v :: u32)" for ns h v
    by (induction ns arbitrary: v) simp_all
  moreover have "fold (\<lambda>n val. val OR push_bit (24 - 8 * n) (ucast (byte_lane w n))) (sel_lanes sel) 0 = merge_lanes sel w 0"
  proof (rule bit_word_eqI)
    fix k assume "k < LENGTH(32)"
    then have k: "k < 32" by simp
    have "bit (push_bit (24 - 8 * n) (ucast (byte_lane w n)) :: u32) k \<longleftrightarrow> 3 - k div 8 = n \<and> bit w k" if n: "n < 4" for n
    proof
      assume b: "bit (push_bit (24 - 8 * n) (ucast (byte_lane w n)) :: u32) k"
      then have le: "24 - 8 * n \<le> k" and bb: "bit (byte_lane w n) (k - (24 - 8 * n))" by (auto simp: bit_push_bit_iff bit_ucast_iff)
      then have lt: "k - (24 - 8 * n) < 8" using bit_imp_le_length [OF bb] by simp
      then show "3 - k div 8 = n \<and> bit w k" using lane_place [OF n lt] le bb by (simp add: bit_byte_lane n)
    next
      assume a: "3 - k div 8 = n \<and> bit w k"
      then have "24 - 8 * n \<le> k" "k - (24 - 8 * n) = k mod 8" using lane_bit [OF k] by (metis le_add1, metis add_diff_cancel_left')
      then show "bit (push_bit (24 - 8 * n) (ucast (byte_lane w n)) :: u32) k"
        using a k lane_bit [OF k] by (simp add: bit_push_bit_iff bit_ucast_iff bit_byte_lane n)
    qed
    note lane = this
    define q where "q = 3 - k div 8"
    have q: "q < 4" by (simp add: q_def)
    have "(\<exists>n \<in> set (sel_lanes sel). bit (push_bit (24 - 8 * n) (ucast (byte_lane w n)) :: u32) k) \<longleftrightarrow> bit sel q \<and> bit w k"
    proof
      assume "\<exists>n \<in> set (sel_lanes sel). bit (push_bit (24 - 8 * n) (ucast (byte_lane w n)) :: u32) k"
      then obtain n where n: "n \<in> set (sel_lanes sel)" "bit (push_bit (24 - 8 * n) (ucast (byte_lane w n)) :: u32) k" by blast
      have "n < 4" "bit sel n" using n(1) by (simp_all add: sel_lanes_def)
      then show "bit sel q \<and> bit w k" using n(2) lane [of n] by (simp add: q_def)
    next
      assume "bit sel q \<and> bit w k"
      then show "\<exists>n \<in> set (sel_lanes sel). bit (push_bit (24 - 8 * n) (ucast (byte_lane w n)) :: u32) k"
        using lane [OF q] q by (intro bexI [of _ q]) (simp_all add: q_def sel_lanes_def)
    qed
    then show "bit (fold (\<lambda>n val. val OR push_bit (24 - 8 * n) (ucast (byte_lane w n))) (sel_lanes sel) (0 :: u32)) k = bit (merge_lanes sel w 0) k"
      using bit_lanes_or [of "byte_lane w" "sel_lanes sel" 0 k] unfolding bit_merge_lanes [OF k] q_def [symmetric] by auto
  qed
  ultimately show ?thesis using False by (simp add: mem_read_lanes_def)
qed

section \<open>The bus interface in front of the bus slave\<close>

text \<open>The wiring of the testbench.\<close>

definition bus_of :: "busif \<Rightarrow> bus_in" where
  "bus_of s = \<lparr>i_stb = b_wb_stb s, i_cyc = b_wb_cyc s, i_we = b_wb_we s, i_sel = b_wb_sel s, i_adr = b_wb_adr s, i_dat = b_wb_dat_o s\<rparr>"

definition wired :: "busif_in \<Rightarrow> periph \<Rightarrow> busif_in" where
  "wired i p = i\<lparr>b_wb_ack := p_ack p, b_wb_dat := p_dat p\<rparr>"

text \<open>The interface waits for the bus at four places of its thread; there it holds its outputs.\<close>

definition bus_waits :: "busif \<Rightarrow> bool" where
  "bus_waits s \<longleftrightarrow> (case b_loc s of B_fill _ \<Rightarrow> True | B_wb _ \<Rightarrow> True | B_dread_ack \<Rightarrow> True | B_dwrite_ack \<Rightarrow> True | _ \<Rightarrow> False)"

definition bus_ok :: "busif \<Rightarrow> bool" where
  "bus_ok s \<longleftrightarrow> (if bus_waits s then b_wb_stb s \<and> b_wb_cyc s else \<not> b_wb_stb s)"

lemma bus_holds: "bus_waits s \<Longrightarrow> \<not> b_wb_ack i \<Longrightarrow> busif_wake i s = s"
  by (auto simp: bus_waits_def busif_wake_def split: busif_loc.splits)

lemmas bus_path = bus_ok_def bus_waits_def busif_complete_def busif_tag_go_def busif_inv_go_def busif_bank_iter_def
  busif_victim_iter_def busif_banks_done_def busif_dwrite_end_def AcceptNewOp_def

lemma bus_path_eq:
  "b_wb_stb (busif_new_tag i s t) = b_wb_stb t" "\<not> bus_waits (busif_new_tag i s t)"
  "b_wb_stb (busif_new_line i s t) = b_wb_stb t" "\<not> bus_waits (busif_new_line i s t)"
  by (simp_all add: busif_new_tag_def busif_new_line_def Let_def bus_path)

lemma bus_path_victim:
  "b_wb_stb (busif_victim i s t) = b_wb_stb t" "\<not> bus_waits (busif_victim i s t)"
  "b_wb_stb (busif_tag_request i t) = b_wb_stb t" "\<not> bus_waits (busif_tag_request i t)"
  using bus_path_eq by (simp_all add: busif_victim_def busif_tag_request_def Let_def bus_path)

lemma bus_ok_none: "\<not> bus_waits s \<Longrightarrow> \<not> b_wb_stb s \<Longrightarrow> bus_ok s"
  by (simp add: bus_ok_def)

lemma bus_ok_idle: "\<not> b_wb_ack i \<Longrightarrow> \<not> b_wb_stb t \<Longrightarrow> bus_ok (busif_idle i s t)"
  using bus_path_victim
  by (auto simp: busif_idle_def busif_operate_def busif_cache_op_def Let_def bus_ok_def AcceptNewOp_def)
    (auto simp: bus_waits_def)

lemma bus_ok_top: "\<not> b_wb_ack i \<Longrightarrow> bus_ok (busif_top i s t)"
  unfolding busif_top_def by (rule bus_ok_idle) simp_all

lemma bus_ok_parts:
  "b_wb_cyc t \<Longrightarrow> bus_ok (busif_fill n t)" "b_wb_cyc t \<Longrightarrow> bus_ok (busif_wb s n t)"
  "\<not> b_wb_stb t \<Longrightarrow> bus_ok (busif_victim i s t)" "\<not> b_wb_stb t \<Longrightarrow> bus_ok (busif_new_line i s t)"
  "\<not> b_wb_stb t \<Longrightarrow> bus_ok (busif_new_tag i s t)" "\<not> b_wb_stb t \<Longrightarrow> bus_ok (busif_tag_request i t)"
  "\<not> b_wb_stb t \<Longrightarrow> bus_ok (busif_complete t)" "\<not> b_wb_stb t \<Longrightarrow> bus_ok (busif_tag_go t)"
  "\<not> b_wb_stb t \<Longrightarrow> bus_ok (busif_inv_go s t)" "\<not> b_wb_stb t \<Longrightarrow> bus_ok (busif_bank_iter t)"
  "\<not> b_wb_stb t \<Longrightarrow> bus_ok (busif_victim_iter i t)" "bus_ok (busif_dread_end i s t)" "bus_ok (busif_dwrite_end t)"
  using bus_path_eq bus_path_victim
  by (simp_all add: busif_fill_def busif_wb_def busif_dread_end_def Let_def bus_path bus_ok_none)

lemma bus_ok_wake:
  assumes "bus_ok s" "b_wb_ack i \<longrightarrow> bus_waits s"
  shows "bus_ok (busif_wake i s)"
proof (cases "bus_waits s")
  case True
  show ?thesis
  proof (cases "b_wb_ack i")
    case ack: True
    have c: "b_wb_cyc s" using True assms(1) by (simp add: bus_ok_def)
    show ?thesis
    proof (cases "b_loc s")
      case (B_fill n)
      define t where "t = s\<lparr>b_idata_reg := (b_idata_reg s)(unat (drop_bit 2 (b_adrOfs s)) := b_wb_dat i),
        b_idata_valid := (b_idata_valid s)(unat (drop_bit 2 (b_adrOfs s)) := True), b_adr_reg := b_adrBase s OR b_adrOfs s,
        b_wb_stb := False, b_adrOfs := (b_adrOfs s + 4) AND 15\<rparr>"
      have w: "busif_wake i s = (if Suc n < CACHE_BANKS then busif_fill (Suc n) t else busif_victim i s (t\<lparr>b_wb_cyc := False\<rparr>))"
        using ack unfolding busif_wake_def B_fill busif_loc.case Let_def t_def by simp
      have "b_wb_cyc t" "\<not> b_wb_stb (t\<lparr>b_wb_cyc := False\<rparr>)" using c by (simp_all add: t_def)
      then show ?thesis unfolding w by (auto intro: bus_ok_parts)
    next
      case (B_wb n)
      then have w: "busif_wake i s = (if Suc n < CACHE_BANKS then busif_wb s (Suc n) (s\<lparr>b_wb_stb := False\<rparr>)
          else busif_complete (s\<lparr>b_wb_stb := False, b_wb_cyc := False, b_wb_we := False\<rparr>))"
        using ack by (simp add: busif_wake_def Let_def)
      show ?thesis unfolding w using c by (auto intro: bus_ok_parts)
    qed (use True ack in \<open>simp_all add: bus_waits_def busif_wake_def bus_ok_parts\<close>)
  next
    case False
    then show ?thesis using bus_holds [OF True False] assms(1) by simp
  qed
next
  case False
  then have n: "\<not> b_wb_ack i" "\<not> b_wb_stb s" using assms by (simp_all add: bus_ok_def)
  show ?thesis
    by (cases "b_loc s"; use n False in \<open>simp add: busif_wake_def bus_ok_top bus_ok_idle bus_ok_parts busif_banks_done_def Let_def\<close>;
        use n False in \<open>simp add: bus_ok_none bus_waits_def\<close>)
qed

text \<open>Word addresses that the slave takes to its memory.\<close>

definition ram :: "periph \<Rightarrow> u32 \<Rightarrow> bool" where
  "ram p a \<longleftrightarrow> a AND 3 = 0 \<and> word_there a (p_mem p) \<and> mem_IsAdressed a (p_mem p) \<and> \<not> (p_uart p \<noteq> None \<and> uart_IsAdressed (p_ubase p) a)"

text \<open>What the bus interface asks for: words of the memory, read as a whole.\<close>

definition asks_ram :: "busif \<Rightarrow> periph \<Rightarrow> bool" where
  "asks_ram s p \<longleftrightarrow> (bus_waits s \<longrightarrow> ram p (b_wb_adr s) \<and> (b_wb_we s \<or> b_wb_sel s = 15))"

definition latched :: "busif \<Rightarrow> periph \<Rightarrow> bool" where
  "latched s p \<longleftrightarrow> bus_waits s \<and> p_we p = b_wb_we s \<and> p_adr p = b_wb_adr s \<and> p_val p = b_wb_dat_o s \<and> p_sel p = b_wb_sel s"

text \<open>The memory of \<open>PnLine\<close> is the one of the slave, but for a write that is done and not acknowledged yet.\<close>

definition holds_mem :: "(u32 \<Rightarrow> u32) \<Rightarrow> periph \<Rightarrow> bool" where
  "holds_mem f p \<longleftrightarrow> (\<forall>a. ram p a \<longrightarrow> mem_ReadWord a (p_mem p) = Some (f a))"

definition serves :: "busif \<Rightarrow> periph \<Rightarrow> (u32 \<Rightarrow> u32) \<Rightarrow> bool" where
  "serves s p f \<longleftrightarrow> bus_ok s \<and> \<not> (p_ack p \<noteq> (p_pc p = P_done)) \<and>
     (case p_pc p of
        P_idle \<Rightarrow> holds_mem f p
      | P_delay n \<Rightarrow> latched s p \<and> holds_mem f p
      | P_done \<Rightarrow> latched s p \<and> (if b_wb_we s
          then holds_mem (f(b_wb_adr s := merge_lanes (b_wb_sel s) (b_wb_dat_o s) (f (b_wb_adr s)))) p
          else holds_mem f p \<and> p_dat p = f (b_wb_adr s)))"

lemma ram_cong:
  assumes "\<And>x. (mem_ReadByte x (p_mem q) = None) = (mem_ReadByte x (p_mem p) = None)" "m_base (p_mem q) = m_base (p_mem p)"
    "m_size (p_mem q) = m_size (p_mem p)" "p_uart q = p_uart p" "p_ubase q = p_ubase p"
  shows "ram q a = ram p a"
  using assms by (simp add: ram_def word_there_def mem_IsAdressed_def)

lemma ram_upd [simp]: "ram (p\<lparr>p_ack := k\<rparr>) a = ram p a" "ram (p\<lparr>p_ack := k, p_err := e'\<rparr>) a = ram p a" "ram (p\<lparr>p_we := w, p_adr := b, p_val := v, p_sel := e\<rparr>) a = ram p a" "ram (p\<lparr>p_we := w, p_adr := b, p_val := v, p_sel := e, p_pc := c\<rparr>) a = ram p a" "ram (p\<lparr>p_pc := c\<rparr>) a = ram p a"
  "ram (p\<lparr>p_ack := k, p_pc := c\<rparr>) a = ram p a" "ram (p\<lparr>p_ack := k, p_err := e', p_pc := c\<rparr>) a = ram p a" "ram (p\<lparr>p_dat := v\<rparr>) a = ram p a"
  "ram (p\<lparr>p_ack := k, p_dat := v, p_pc := c\<rparr>) a = ram p a"
  by (rule ram_cong; simp)+

lemma aligned_apart:
  assumes "a AND 3 = 0" "b AND 3 = 0" "a \<noteq> (b :: u32)" "k < 4" "j < 4"
  shows "a + of_nat k \<noteq> b + of_nat j"
proof
  assume e: "a + of_nat k = b + of_nat j"
  have four: "unat a mod 4 = 0" "unat b mod 4 = 0" using assms(1,2) by (metis unat_0 unat_and_3)+
  have "unat (x + of_nat i) = unat x + i" if "unat x mod 4 = 0" "i < 4" for x :: u32 and i
  proof -
    define q where "q = unat x div 4"
    have q: "unat x = 4 * q" using that(1) mult_div_mod_eq [of 4 "unat x"] by (simp add: q_def)
    have "unat x < 4294967296" using unsigned_less [of x] by simp
    then have "4 * q < 4 * 1073741824" using q by simp
    then have "unat x + i < 2 ^ 32" using that q by simp
    then show ?thesis using that(2) by (simp add: unat_word_ariths unat_of_nat)
  qed
  then have "unat a + k = unat b + j" using e four assms(4,5) by metis
  then have "unat a = unat b" using four assms(4,5) by presburger
  then show False using assms(3) by (simp add: word_unat_eq_iff)
qed

text \<open>A write to a word of the memory.\<close>

lemma write_ram:
  assumes "ram p a" "holds_mem f p" "mem_write_lanes a sel val (p_mem p) = Some m"
  shows "holds_mem (f(a := merge_lanes sel val (f a))) (p\<lparr>p_mem := m\<rparr>)"
proof -
  have r: "ram (p\<lparr>p_mem := m\<rparr>) x = ram p x" for x
  proof (rule ram_cong)
    show "(mem_ReadByte y (p_mem (p\<lparr>p_mem := m\<rparr>)) = None) = (mem_ReadByte y (p_mem p) = None)" for y
      using mem_frame [OF assms(3) [unfolded mem_write_lanes_eq]] by (simp add: mem_ReadByte_def Let_def)
  qed (use mem_frame [OF assms(3) [unfolded mem_write_lanes_eq]] in simp_all)
  have "mem_ReadWord x m = Some ((f(a := merge_lanes sel val (f a))) x)" if x: "ram p x" for x
  proof (cases "x = a")
    case True
    then show ?thesis using mem_write_word [OF assms(3)] assms(1,2) by (simp add: holds_mem_def)
  next
    case False
    have "mem_ReadByte (x + of_nat k) m = mem_ReadByte (x + of_nat k) (p_mem p)" if "k < 4" for k
      using aligned_apart [of x a k] x assms(1) False that by (intro mem_write_byte(2) [OF assms(3)]) (simp add: ram_def)
    then have "word_there x m = word_there x (p_mem p)" "map (\<lambda>k. the (mem_ReadByte (x + of_nat k) m)) [0..<4] = map (\<lambda>k. the (mem_ReadByte (x + of_nat k) (p_mem p))) [0..<4]"
      by (auto simp: word_there_def)
    then have "mem_ReadWord x m = mem_ReadWord x (p_mem p)" unfolding ReadWord_lanes by (simp only:)
    then show ?thesis using assms(2) x False by (simp add: holds_mem_def)
  qed
  then show ?thesis unfolding holds_mem_def r by simp
qed

text \<open>One clock of both: the slave answers as \<open>PnLine\<close> asks.\<close>

lemma serves_step:
  assumes "serves s p (l_mem g)" "asks_ram s p"
  shows "p_ack p \<longrightarrow> b_wb_cyc s \<and> b_wb_stb s" and "p_ack p \<and> \<not> b_wb_we s \<longrightarrow> p_dat p = l_mem g (b_wb_adr s)"
    and "\<exists>q. MainThread (bus_of s) p = Some q \<and> serves (busif_wake (wired i p) s) q (l_mem (line_step (wired i p) s g))"
proof -
  have ok: "bus_ok s" and ack: "p_ack p \<longleftrightarrow> p_pc p = P_done" using assms(1) by (auto simp: serves_def)
  have w: "b_wb_ack (wired i p) = p_ack p" by (simp add: wired_def)
  have W: "bus_waits s" if "p_pc p \<noteq> P_idle" using assms(1) that by (auto simp: serves_def latched_def split: per_pc.splits)
  show "p_ack p \<longrightarrow> b_wb_cyc s \<and> b_wb_stb s" using ack W ok by (auto simp: bus_ok_def)
  show "p_ack p \<and> \<not> b_wb_we s \<longrightarrow> p_dat p = l_mem g (b_wb_adr s)" using assms(1) ack by (auto simp: serves_def)
  have ok': "bus_ok (busif_wake (wired i p) s)" using bus_ok_wake [OF ok] w ack W by auto
  have mem: "l_mem (line_step (wired i p) s g) = l_mem g" if "\<not> p_ack p" using that by (simp add: line_step_def w)
  have hold: "busif_wake (wired i p) s = s" if "bus_waits s" "\<not> p_ack p" using bus_holds that w by simp
  show "\<exists>q. MainThread (bus_of s) p = Some q \<and> serves (busif_wake (wired i p) s) q (l_mem (line_step (wired i p) s g))"
  proof (cases "p_pc p")
    case P_idle
    then have m: "holds_mem (l_mem g) p" "\<not> p_ack p" using assms(1) ack by (simp_all add: serves_def)
    show ?thesis
    proof (cases "bus_waits s")
      case True
      then show ?thesis using P_idle m ok mem hold
        by (simp add: MainThread_def bus_of_def serves_def bus_ok_def) (auto simp: latched_def holds_mem_def)
    next
      case False
      then have "MainThread (bus_of s) p = Some p" using P_idle ok by (simp add: MainThread_def bus_of_def bus_ok_def)
      then show ?thesis using P_idle m ok' mem by (simp add: serves_def)
    qed
  next
    case (P_delay n)
    then have m: "holds_mem (l_mem g) p" "\<not> p_ack p" and L: "latched s p" and Ws: "bus_waits s"
      using assms(1) ack W by (simp_all add: serves_def)
    show ?thesis
    proof (cases "1 < n")
      case True
      then show ?thesis using P_delay m L Ws ok mem hold
        by (simp add: MainThread_def serves_def) (auto simp: latched_def holds_mem_def)
    next
      case False
      have R: "ram p (p_adr p)" "b_wb_we s \<or> p_sel p = 15" using assms(2) Ws L by (simp_all add: asks_ram_def latched_def)
      have word: "mem_ReadWord (p_adr p) (p_mem p) = Some (l_mem g (p_adr p))" using m(1) R(1) by (simp add: holds_mem_def)
      have own: "\<not> uart_adressed p" "mem_IsAdressed (p_adr p) (p_mem p)" using R(1) by (simp_all add: ram_def uart_adressed_def)
      show ?thesis
      proof (cases "b_wb_we s")
        case True
        obtain mm where mm: "mem_write_lanes (p_adr p) (p_sel p) (p_val p) (p_mem p) = Some mm"
          using mem_write_there [of "p_adr p" "p_mem p"] R(1) unfolding ram_def by blast
        have H: "holds_mem ((l_mem g)(p_adr p := merge_lanes (p_sel p) (p_val p) (l_mem g (p_adr p)))) (p\<lparr>p_mem := mm\<rparr>)"
          by (rule write_ram [OF R(1) m(1) mm])
        have "MainThread (bus_of s) p = Some (p\<lparr>p_mem := mm, p_ack := True, p_pc := P_done\<rparr>)"
          using P_delay False True L own mm by (simp add: MainThread_def periph_write_def latched_def)
        moreover have "holds_mem f (p\<lparr>p_mem := mm, p_ack := True, p_pc := P_done\<rparr>) = holds_mem f (p\<lparr>p_mem := mm\<rparr>)" for f
          by (simp add: holds_mem_def ram_def)
        ultimately show ?thesis using H L True ok Ws m(2) by (simp add: serves_def mem hold) (simp add: latched_def)
      next
        case no: False
        then have sel: "p_sel p = 15" using R(2) by simp
        have "merge_lanes 15 x 0 = x" for x using merge_full [of x 0] by simp
        then have "mem_read_lanes (p_adr p) (p_sel p) (p_mem p) = Some (l_mem g (p_adr p))" using mem_read_word [OF word, of 15] sel by simp
        then have "MainThread (bus_of s) p = Some (p\<lparr>p_dat := l_mem g (p_adr p), p_ack := True, p_pc := P_done\<rparr>)"
          using P_delay False no L own by (simp add: MainThread_def periph_read_def latched_def)
        moreover have "holds_mem f (p\<lparr>p_dat := v, p_ack := True, p_pc := P_done\<rparr>) = holds_mem f p" for f v
          by (simp add: holds_mem_def ram_def)
        ultimately show ?thesis using L no ok Ws m by (simp add: serves_def mem hold) (simp add: latched_def)
      qed
    qed
  next
    case P_done
    then have a: "p_ack p" and L: "latched s p" and Ws: "bus_waits s" using assms(1) ack W by (simp_all add: serves_def)
    have "MainThread (bus_of s) p = Some (p\<lparr>p_ack := False, p_err := False, p_pc := P_idle\<rparr>)" using P_done by (simp add: MainThread_def)
    moreover have "holds_mem f (p\<lparr>p_ack := False, p_err := False, p_pc := P_idle\<rparr>) = holds_mem f p" for f
      by (simp add: holds_mem_def)
    moreover have "l_mem (line_step (wired i p) s g) = (if b_wb_we s
        then (l_mem g)(b_wb_adr s := merge_lanes (b_wb_sel s) (b_wb_dat_o s) (l_mem g (b_wb_adr s))) else l_mem g)"
      using a Ws ok by (simp add: line_step_def w bus_ok_def)
    ultimately show ?thesis using ok' assms(1) P_done by (simp add: serves_def)
  qed
qed

text \<open>Bus interface and slave together: the inputs the interface sees, and where it ends.\<close>

fun bus_run :: "busif_in list \<Rightarrow> periph \<Rightarrow> busif_sys \<Rightarrow> (busif_in list \<times> periph \<times> busif_sys) option" where
  "bus_run [] p st = Some ([], p, st)"
| "bus_run (i # is) p st = Option.bind (MainThread (bus_of (fst st)) p)
     (\<lambda>q. map_option (\<lambda>(js, r). (wired i p # js, r)) (bus_run is q (busif_clock (wired i p) st)))"

text \<open>What the arbiter and the cache RAMs do is as in \<open>busif_obeys\<close>.\<close>

definition arb_obeys_busif :: "busif_in \<Rightarrow> busif \<Rightarrow> line \<Rightarrow> bool" where
  "arb_obeys_busif i s g \<longleftrightarrow>
     (b_gnt_tagr i \<longrightarrow> b_req_tagr s) \<and> (b_gnt_tagw i \<longrightarrow> b_req_tagw s) \<and> (\<forall>n < 4. b_gnt_bank i n \<longrightarrow> b_req_bank s n)
     \<and> (l_gnt_tagr g \<and> b_req_tagr s \<longrightarrow> b_gnt_tagr i) \<and> (l_gnt_tagw g \<and> b_req_tagw s \<longrightarrow> b_gnt_tagw i)
     \<and> (\<forall>n < 4. l_gnt_bank g n \<and> b_req_bank s n \<longrightarrow> b_gnt_bank i n)
     \<and> b_tag_in i = l_tag_rd g \<and> (\<forall>n < 4. b_bank_rd s n \<longrightarrow> b_data_in i n = l_bank_rd g n)"

lemma obeys_wired:
  assumes "arb_obeys_busif i s g" "serves s p (l_mem g)" "asks_ram s p"
  shows "busif_obeys (wired i p) s g"
  using assms(1) serves_step(1,2) [OF assms(2,3)] by (simp add: busif_obeys_def arb_obeys_busif_def wired_def)

lemma main_frame: "MainThread i p = Some q \<Longrightarrow> \<not> uart_adressed p \<Longrightarrow> ram q a = ram p a"
proof -
  assume m: "MainThread i p = Some q" and u: "\<not> uart_adressed p"
  have r: "ram (p\<lparr>p_mem := m\<rparr>) x = ram p x" if "mem_write_lanes ad sel val (p_mem p) = Some m" for m ad sel val x
    using mem_frame [OF that [unfolded mem_write_lanes_eq]] by (simp add: ram_def word_there_def mem_ReadByte_def mem_IsAdressed_def Let_def)
  have s: "ram (p'\<lparr>p_ack := b, p_pc := c\<rparr>) x = ram p' x" for p' b c x by simp
  show ?thesis
  proof (cases "p_pc p")
    case (P_delay n)
    show ?thesis
    proof (cases "1 < n")
      case False
      obtain q' where q': "(if p_we p then periph_write p else periph_read p) = Some q'" "q = q'\<lparr>p_ack := True, p_pc := P_done\<rparr>"
        using m P_delay False by (auto simp: MainThread_def)
      have "ram q' a = ram p a" using q'(1) u r by (auto simp: periph_write_def periph_read_def split: if_splits)
      then show ?thesis using q'(2) by simp
    qed (use m P_delay in \<open>auto simp: MainThread_def\<close>)
  qed (use m in \<open>auto simp: MainThread_def split: if_splits\<close>)
qed

lemma serves_quiet: "serves s p f \<Longrightarrow> asks_ram s p \<Longrightarrow> p_pc p \<noteq> P_idle \<Longrightarrow> \<not> uart_adressed p"
  by (auto simp: serves_def latched_def asks_ram_def ram_def uart_adressed_def split: per_pc.splits)

fun bus_env :: "busif_in list \<Rightarrow> periph \<Rightarrow> busif_sys \<Rightarrow> bool" where
  "bus_env [] p st \<longleftrightarrow> True"
| "bus_env (i # is) p st \<longleftrightarrow> arb_obeys_busif i (fst st) (snd st) \<and> asks_ram (fst st) p
     \<and> (\<forall>q. MainThread (bus_of (fst st)) p = Some q \<longrightarrow> bus_env is q (busif_clock (wired i p) st))"

lemma bus_run_serves:
  "serves (fst st) p (l_mem (snd st)) \<Longrightarrow> bus_env is p st \<Longrightarrow>
     \<exists>js q. bus_run is p st = Some (js, q, busif_run js st) \<and> length js = length is \<and> busif_env js st
       \<and> serves (fst (busif_run js st)) q (l_mem (snd (busif_run js st)))"
proof (induction "is" arbitrary: p st)
  case Nil
  then show ?case by (simp add: busif_run_def)
next
  case (Cons i "is")
  obtain s g where st: "st = (s, g)" by (cases st)
  have S: "serves s p (l_mem g)" "arb_obeys_busif i s g" "asks_ram s p" using Cons.prems by (simp_all add: st)
  obtain q where q: "MainThread (bus_of s) p = Some q"
    "serves (busif_wake (wired i p) s) q (l_mem (line_step (wired i p) s g))" using serves_step(3) [OF S(1,3)] by blast
  let ?st = "busif_clock (wired i p) st"
  have "serves (fst ?st) q (l_mem (snd ?st))" "bus_env is q ?st" using q Cons.prems(2) by (simp_all add: st busif_clock_def)
  from Cons.IH [OF this] obtain js r where js: "bus_run is q ?st = Some (js, r, busif_run js ?st)" "length js = length is" "busif_env js ?st"
    "serves (fst (busif_run js ?st)) r (l_mem (snd (busif_run js ?st)))" by blast
  have "busif_run (wired i p # js) st = busif_run js ?st" by (simp add: busif_run_def)
  moreover have "bus_run (i # is) p st = Some (wired i p # js, r, busif_run js ?st)" using q(1) js(1) by (simp add: st)
  moreover have "busif_env (wired i p # js) st" using obeys_wired [OF S(2,1,3)] js(3) by (simp add: st)
  ultimately show ?case using js(2,4) by (intro exI [of _ "wired i p # js"] exI [of _ r]) simp
qed

section \<open>Cache lines and the memory\<close>

text \<open>The words of the line and of its victim are words of the memory.\<close>

definition line_in_ram :: "u32 \<Rightarrow> line \<Rightarrow> periph \<Rightarrow> bool" where
  "line_in_ram A g p \<longleftrightarrow> (\<forall>n < 4. ram p (line_adr A n) \<and> (dirty (l_tag g) \<longrightarrow> ram p (victim_adr A g n)))"

lemma line_asks_ram: "busif_inv X A g0 s g \<Longrightarrow> line_in_ram A g0 p \<Longrightarrow> asks_ram s p"
  by (auto simp: asks_ram_def bus_waits_def busif_inv_def busif_base_def line_in_ram_def writes_victim_def split: busif_loc.splits)

text \<open>The arbiter, until the operation is done.\<close>

fun line_env :: "busif_in list \<Rightarrow> periph \<Rightarrow> busif_sys \<Rightarrow> bool" where
  "line_env [] p st \<longleftrightarrow> True"
| "line_env (i # is) p st \<longleftrightarrow> b_loc (fst st) \<noteq> B_done \<and> arb_obeys_busif i (fst st) (snd st)
     \<and> (\<forall>q. MainThread (bus_of (fst st)) p = Some q \<longrightarrow> line_env is q (busif_clock (wired i p) st))"

lemma serves_ram:
  assumes "serves s p f" "asks_ram s p" "MainThread (bus_of s) p = Some q"
  shows "ram q a = ram p a"
proof (cases "p_pc p = P_idle")
  case True
  then show ?thesis using assms(3) by (auto simp: MainThread_def split: if_splits)
next
  case False
  then show ?thesis using main_frame [OF assms(3) serves_quiet [OF assms(1,2)]] by simp
qed

lemma line_step_both:
  assumes "busif_inv X A g0 s g" "serves s p (l_mem g)" "line_in_ram A g0 p" "arb_obeys_busif i s g" "b_loc s \<noteq> B_done"
  obtains q where "MainThread (bus_of s) p = Some q" "busif_obeys (wired i p) s g"
    "busif_inv X A g0 (busif_wake (wired i p) s) (line_step (wired i p) s g)"
    "serves (busif_wake (wired i p) s) q (l_mem (line_step (wired i p) s g))" "line_in_ram A g0 q"
proof -
  note asks = line_asks_ram [OF assms(1,3)]
  have ob: "busif_obeys (wired i p) s g" by (rule obeys_wired [OF assms(4,2) asks])
  obtain q where q: "MainThread (bus_of s) p = Some q" "serves (busif_wake (wired i p) s) q (l_mem (line_step (wired i p) s g))"
    using serves_step(3) [OF assms(2) asks] by blast
  have "line_in_ram A g0 q" using assms(3) serves_ram [OF assms(2) asks q(1)] by (simp add: line_in_ram_def)
  then show thesis using that [OF q(1) ob busif_inv_step [OF assms(1) ob assms(5)] q(2)] by blast
qed

lemma line_run:
  "\<lbrakk>busif_inv X A g0 s g; serves s p (l_mem g); line_in_ram A g0 p; line_env is p (s, g)\<rbrakk> \<Longrightarrow>
     \<exists>js q s' g'. bus_run is p (s, g) = Some (js, q, s', g') \<and> busif_env js (s, g) \<and> busif_run js (s, g) = (s', g')
       \<and> busif_inv X A g0 s' g' \<and> serves s' q (l_mem g')"
proof (induction "is" arbitrary: p s g)
  case Nil
  then show ?case by (simp add: busif_run_def)
next
  case (Cons i "is")
  have e: "arb_obeys_busif i s g" "b_loc s \<noteq> B_done" using Cons.prems(4) by simp_all
  let ?i = "wired i p"
  obtain q where q: "MainThread (bus_of s) p = Some q" "busif_obeys ?i s g" "busif_inv X A g0 (busif_wake ?i s) (line_step ?i s g)"
    "serves (busif_wake ?i s) q (l_mem (line_step ?i s g))" "line_in_ram A g0 q"
    by (rule line_step_both [OF Cons.prems(1-3) e])
  have "line_env is q (busif_wake ?i s, line_step ?i s g)" using Cons.prems(4) q(1) by (simp add: busif_clock_def)
  from Cons.IH [OF q(3-5) this] obtain js r s' g' where js: "bus_run is q (busif_wake ?i s, line_step ?i s g) = Some (js, r, s', g')"
    "busif_env js (busif_wake ?i s, line_step ?i s g)" "busif_run js (busif_wake ?i s, line_step ?i s g) = (s', g')"
    "busif_inv X A g0 s' g'" "serves s' r (l_mem g')" by blast
  have "bus_run (i # is) p (s, g) = Some (?i # js, r, s', g')" using q(1) js(1) by (simp add: busif_clock_def)
  moreover have "busif_env (?i # js) (s, g)" using q(2) js(2) by (simp add: busif_clock_def)
  moreover have "busif_run (?i # js) (s, g) = (s', g')" using js(3) by (simp add: busif_run_def busif_clock_def)
  ultimately show ?case using js(4,5) by blast
qed

text \<open>How long the slave takes: 12 clocks for a transfer.\<close>

definition slave_wait :: "periph \<Rightarrow> nat" where
  "slave_wait p = (case p_pc p of P_idle \<Rightarrow> 11 | P_delay n \<Rightarrow> n | P_done \<Rightarrow> 0)"

definition slave_ok :: "periph \<Rightarrow> bool" where
  "slave_ok p \<longleftrightarrow> (\<forall>n. p_pc p = P_delay n \<longrightarrow> 1 \<le> n \<and> n \<le> 10)"

lemma slave_step:
  assumes "MainThread i p = Some q" "slave_ok p"
  shows "slave_ok q \<and> slave_wait q \<le> 11 \<and> (p_pc p \<noteq> P_done \<and> (p_pc p = P_idle \<longrightarrow> i_stb i \<and> i_cyc i) \<longrightarrow> slave_wait q < slave_wait p)"
proof (cases "p_pc p")
  case P_idle
  then show ?thesis using assms by (auto simp: MainThread_def slave_ok_def slave_wait_def split: if_splits)
next
  case (P_delay n)
  show ?thesis
  proof (cases "1 < n")
    case True
    then show ?thesis using assms P_delay by (auto simp: MainThread_def slave_ok_def slave_wait_def)
  next
    case False
    then have "p_pc q = P_done" using assms P_delay by (auto simp: MainThread_def)
    then show ?thesis using assms(2) P_delay by (simp add: slave_ok_def slave_wait_def)
  qed
next
  case P_done
  then show ?thesis using assms by (auto simp: MainThread_def slave_ok_def slave_wait_def)
qed

lemma prompt_obeys_arb: "arb_obeys_busif (prompt 0 0 (s, g)) s g"
  by (simp add: arb_obeys_busif_def prompt_def)

lemma line_ends:
  "\<lbrakk>busif_inv X A g0 s g; serves s p (l_mem g); line_in_ram A g0 p; slave_ok p; busif_rank s * 12 + slave_wait p \<le> m\<rbrakk> \<Longrightarrow>
     \<exists>is. length is \<le> m \<and> line_env is p (s, g) \<and> (\<exists>js q st. bus_run is p (s, g) = Some (js, q, st) \<and> b_loc (fst st) = B_done)"
proof (induction m arbitrary: s g p rule: less_induct)
  case (less m)
  show ?case
  proof (cases "b_loc s = B_done")
    case True
    then show ?thesis by (intro exI [of _ "[]"]) simp
  next
    case False
    define i where "i = prompt 0 0 (s, g)"
    let ?i = "wired i p"
    obtain q where q: "MainThread (bus_of s) p = Some q" "busif_obeys ?i s g" "busif_inv X A g0 (busif_wake ?i s) (line_step ?i s g)"
      "serves (busif_wake ?i s) q (l_mem (line_step ?i s g))" "line_in_ram A g0 q"
      by (rule line_step_both [OF less.prems(1-3) prompt_obeys_arb False, folded i_def])
    have S: "slave_ok q" "slave_wait q \<le> 11"
      "p_pc p \<noteq> P_done \<and> (p_pc p = P_idle \<longrightarrow> b_wb_stb s \<and> b_wb_cyc s) \<longrightarrow> slave_wait q < slave_wait p"
      using slave_step [OF q(1) less.prems(4)] by (simp_all add: bus_of_def)
    have rank: "busif_rank (busif_wake ?i s) + (if busif_stalls ?i s then 0 else 1) \<le> busif_rank s"
      by (rule busif_rank_step [OF less.prems(1) False])
    have ack: "p_ack p \<longleftrightarrow> p_pc p = P_done" "bus_ok s" using less.prems(2) by (auto simp: serves_def)
    have "slave_wait q < slave_wait p" if st: "busif_stalls ?i s"
    proof -
      have "\<not> busif_stalls i s" using prompt_moves [OF less.prems(1) False] by (simp add: i_def)
      then have "bus_waits s" "\<not> p_ack p" using st
        by (auto simp: busif_stalls_def wired_def bus_waits_def split: busif_loc.splits)
      then show ?thesis using S(3) ack by (simp add: bus_ok_def)
    qed
    then have "busif_rank (busif_wake ?i s) * 12 + slave_wait q < busif_rank s * 12 + slave_wait p"
      using rank S(2) by (cases "busif_stalls ?i s") auto
    then have lt: "busif_rank (busif_wake ?i s) * 12 + slave_wait q < m" using less.prems(5) by simp
    from less.IH [OF lt q(3-5) S(1) order_refl] obtain js l r st where
      js: "length js \<le> busif_rank (busif_wake ?i s) * 12 + slave_wait q" "line_env js q (busif_wake ?i s, line_step ?i s g)"
        "bus_run js q (busif_wake ?i s, line_step ?i s g) = Some (l, r, st)" "b_loc (fst st) = B_done" by blast
    have "line_env (i # js) p (s, g)" using js(2) q(1) False prompt_obeys_arb by (simp add: busif_clock_def i_def)
    moreover have "bus_run (i # js) p (s, g) = Some (?i # l, r, st)" using js(3) q(1) by (simp add: busif_clock_def)
    moreover have "length (i # js) \<le> m" using js(1) lt by simp
    ultimately show ?thesis using js(4) by blast
  qed
qed

section \<open>Properties\<close>

lemma line_init: "bus_ok s \<Longrightarrow> p_pc p = P_idle \<Longrightarrow> \<not> p_ack p \<Longrightarrow> holds_mem f p \<Longrightarrow> serves s p f"
  by (simp add: serves_def)

lemma locked_bus_ok: "busif_locked X A s \<Longrightarrow> bus_ok s"
  by (auto simp: busif_locked_def idle_bus_def bus_ok_def bus_waits_def)

text \<open>C6.  Bus interface, bus slave and memory together: an operation on a cache line whose words are in the memory, begun while the
  slave is idle, keeps the protocol of the bus on both sides under any arbiter; when it is done the tag and the words of the line are
  as specified and the bytes of the memory hold what the specification says (the victim written back, everything else unchanged).
  With an arbiter that grants at once it is done within 371 clocks.\<close>

theorem memory_line_operation:
  assumes "busif_locked X A s" "p_pc p = P_idle" "\<not> p_ack p" "holds_mem (l_mem g) p" "line_in_ram A g p"
  shows "(line_env is p (s, g) \<longrightarrow> (\<exists>js q s' g'. bus_run is p (s, g) = Some (js, q, s', g') \<and> busif_env js (s, g)
        \<and> (b_loc s' = B_done \<longrightarrow> line_spec X A g g' \<and> holds_mem (if writes_victim X g then victim_mem A g 4 else l_mem g) q)))
    \<and> (\<exists>js l q st. length js \<le> 371 \<and> line_env js p (s, g) \<and> bus_run js p (s, g) = Some (l, q, st) \<and> b_loc (fst st) = B_done)"
proof -
  have I: "busif_inv X A g s g" by (rule busif_locked_inv [OF assms(1)])
  have S: "serves s p (l_mem g)" by (rule line_init [OF locked_bus_ok [OF assms(1)] assms(2-4)])
  have fin: "line_spec X A g g' \<and> holds_mem (if writes_victim X g then victim_mem A g 4 else l_mem g) q"
    if "busif_inv X A g s' g'" "serves s' q (l_mem g')" "b_loc s' = B_done" for s' g' q
  proof -
    have spec: "line_spec X A g g'" using that(1,3) by (simp add: busif_inv_def)
    have "\<not> latched s' q" using that(3) by (simp add: latched_def bus_waits_def)
    then have "holds_mem (l_mem g') q" using that(2) by (auto simp: serves_def split: per_pc.splits)
    then show ?thesis using spec by (simp add: line_spec_def)
  qed
  have "busif_rank s * 12 + slave_wait p \<le> 371" using assms(1,2) by (simp add: busif_locked_def busif_rank_def slave_wait_def)
  moreover have "slave_ok p" using assms(2) by (simp add: slave_ok_def)
  ultimately have "\<exists>js l q st. length js \<le> 371 \<and> line_env js p (s, g) \<and> bus_run js p (s, g) = Some (l, q, st) \<and> b_loc (fst st) = B_done"
    using line_ends [OF I S assms(5)] by blast
  moreover have "\<exists>js q s' g'. bus_run is p (s, g) = Some (js, q, s', g') \<and> busif_env js (s, g)
      \<and> (b_loc s' = B_done \<longrightarrow> line_spec X A g g' \<and> holds_mem (if writes_victim X g then victim_mem A g 4 else l_mem g) q)"
    if "line_env is p (s, g)"
    using line_run [OF I S assms(5) that] fin by blast
  ultimately show ?thesis by blast
qed

text \<open>The line at \<open>0x1018\<close> replaces a dirty line, with a memory of 128 kilobytes.\<close>

definition ex_periph :: periph where
  "ex_periph = \<lparr>p_pc = P_idle, p_we = False, p_adr = 0, p_val = 0, p_sel = 0, p_ack = False, p_err = False, p_rty = False, p_dat = 0,
     p_mem = Memory_Init 0 0x20000, p_uart = None, p_ubase = 0, p_uwait = 10\<rparr>"

lemma zero_memory: "mem_ReadByte a (Memory_Init 0 sz) = (if a < sz then Some 0 else None)"
  by (simp add: mem_ReadByte_def Memory_Init_def Let_def word_less_nat_alt)

lemma zero_word: "word_there a (Memory_Init 0 sz) \<Longrightarrow> mem_ReadWord a (Memory_Init 0 sz) = Some 0"
proof -
  assume t: "word_there a (Memory_Init 0 sz)"
  then have "the (mem_ReadByte (a + of_nat k) (Memory_Init 0 sz)) = 0" if "k < 4" for k
    using that unfolding word_there_def zero_memory by (auto split: if_splits)
  from this [of 0] this [of 1] this [of 2] this [of 3]
  have "map (\<lambda>k. the (mem_ReadByte (a + of_nat k) (Memory_Init 0 sz))) [0..<4] = [0, 0, 0, 0]" by (simp add: map_lanes)
  then show ?thesis using t unfolding ReadWord_lanes by (simp add: be_word_def)
qed

lemma ex_in_ram: "a AND 3 = 0 \<Longrightarrow> a < 0x10000 \<Longrightarrow> ram ex_periph a"
proof -
  assume a: "a AND 3 = 0" "a < 0x10000"
  then have "unat a < 65536" by (simp add: word_less_nat_alt)
  then have "unat (a + of_nat k) = unat a + k" if "k < 4" for k using that by (simp add: unat_word_ariths unat_of_nat)
  then have "a + of_nat k < 0x20000" if "k < 4" for k using that \<open>unat a < 65536\<close> by (simp add: word_less_nat_alt)
  then have "word_there a (Memory_Init 0 0x20000)" unfolding word_there_def zero_memory by simp
  moreover have "a \<le> 0x20000" using a(2) by (simp add: word_le_nat_alt word_less_nat_alt)
  ultimately show ?thesis using a(1) by (simp add: ram_def mem_IsAdressed_def ex_periph_def) (simp add: Memory_Init_def)
qed

theorem memory_line_operation_witness:
  "\<exists>js l q s' g'. length js \<le> 371 \<and> bus_run js ex_periph (ex_busif 7, ex_line\<lparr>l_mem := \<lambda>_. 0\<rparr>) = Some (l, q, s', g')
    \<and> b_loc s' = B_done \<and> holds_mem (victim_mem 0x1018 (ex_line\<lparr>l_mem := \<lambda>_. 0\<rparr>) 4) q"
proof -
  define g where "g = ex_line\<lparr>l_mem := \<lambda>_. 0\<rparr>"
  have n4: "n = 0 \<or> n = 1 \<or> n = 2 \<or> n = 3" if "n < (4 :: nat)" for n using that by auto
  have L: "busif_locked 7 0x1018 (ex_busif 7)" by (rule ex_locked) simp
  have p: "p_pc ex_periph = P_idle" "\<not> p_ack ex_periph" by (simp_all add: ex_periph_def)
  have h: "holds_mem (l_mem g) ex_periph"
    using zero_word by (auto simp: holds_mem_def g_def ram_def ex_periph_def)
  have r: "line_in_ram 0x1018 g ex_periph"
    unfolding line_in_ram_def
    by (intro allI impI conjI; drule n4; elim disjE; intro ex_in_ram;
        simp add: line_adr_def victim_adr_def ComposeAdress_def GetTagOfAdr_def GetIndexOfAdr_def g_def ex_line_def)
  note T = memory_line_operation [OF L p h r]
  obtain js l q s' g' where run: "length js \<le> 371" "line_env js ex_periph (ex_busif 7, g)"
    "bus_run js ex_periph (ex_busif 7, g) = Some (l, q, s', g')" "b_loc s' = B_done" using T [of "[]"] by fastforce
  have "writes_victim 7 g" by (simp add: writes_victim_def g_def ex_line_def)
  then have "holds_mem (victim_mem 0x1018 g 4) q" using T [of js] run by auto
  then show ?thesis using run unfolding g_def by blast
qed

text \<open>The clocks of a transfer.\<close>

definition take_request :: "bus_in \<Rightarrow> periph \<Rightarrow> periph" where
  "take_request i p = p\<lparr>p_we := i_we i, p_adr := i_adr i, p_val := i_dat i, p_sel := i_sel i\<rparr>"

lemma delay_run: "p_pc p = P_delay (Suc n) \<Longrightarrow> length js = n \<Longrightarrow> MainThread_run js p = Some (p\<lparr>p_pc := P_delay 1\<rparr>)"
proof (induction js arbitrary: n p)
  case Nil
  then show ?case by simp
next
  case (Cons j js)
  then obtain m where m: "n = Suc m" by (cases n) auto
  then have "MainThread j p = Some (p\<lparr>p_pc := P_delay (Suc m)\<rparr>)" using Cons.prems(1) by (simp add: MainThread_def)
  then show ?case using Cons.IH [of "p\<lparr>p_pc := P_delay (Suc m)\<rparr>" m] Cons.prems(2) m by simp
qed

lemma run_append: "MainThread_run (is @ js) p = Option.bind (MainThread_run is p) (MainThread_run js)"
proof (induction "is" arbitrary: p)
  case (Cons i "is")
  then show ?case by (cases "MainThread i p") simp_all
qed simp

lemma transfer_run:
  assumes "p_pc p = P_idle" "i_stb i \<and> i_cyc i" "length js = 9"
  shows "MainThread_run (i # js) p = Some (take_request i p\<lparr>p_pc := P_delay 1\<rparr>)"
proof -
  have "MainThread i p = Some (take_request i p\<lparr>p_pc := P_delay 10\<rparr>)" using assms(1,2) by (simp add: MainThread_def take_request_def)
  moreover have "MainThread_run js (take_request i p\<lparr>p_pc := P_delay 10\<rparr>) = Some (take_request i p\<lparr>p_pc := P_delay 1\<rparr>)"
    using delay_run [of "take_request i p\<lparr>p_pc := P_delay 10\<rparr>" 9 js] assms(3) by simp
  ultimately show ?thesis by simp
qed

text \<open>C11.  A transfer to the memory, whatever the inputs are after its first clock: the slave acknowledges it after ten more clocks and for one
  clock only; a write has then changed exactly the selected bytes of the word, a read delivers the selected bytes and zeros.\<close>

theorem slave_serves_memory:
  assumes "p_pc p = P_idle" "i_stb i \<and> i_cyc i" "length js = 9"
    "mem_IsAdressed (i_adr i) (p_mem p)" "\<not> (p_uart p \<noteq> None \<and> uart_IsAdressed (p_ubase p) (i_adr i))"
    "mem_ReadWord (i_adr i) (p_mem p) = Some w"
  shows "\<exists>q r. MainThread_run (i # js @ [j]) p = Some q \<and> p_ack q \<and> MainThread k q = Some r \<and> \<not> p_ack r \<and> p_pc r = P_idle
    \<and> p_mem r = p_mem q
    \<and> (if i_we i
       then mem_ReadWord (i_adr i) (p_mem q) = Some (merge_lanes (i_sel i) (i_dat i) w)
         \<and> (\<forall>x. (\<forall>n < 4. x \<noteq> i_adr i + of_nat n) \<longrightarrow> mem_ReadByte x (p_mem q) = mem_ReadByte x (p_mem p))
       else p_dat q = merge_lanes (i_sel i) w 0 \<and> p_mem q = p_mem p)"
proof -
  define t where "t = take_request i p\<lparr>p_pc := P_delay 1\<rparr>"
  have t: "p_mem t = p_mem p" "p_adr t = i_adr i" "p_sel t = i_sel i" "p_val t = i_dat i" "p_we t = i_we i" "\<not> uart_adressed t" "p_pc t = P_delay 1"
    using assms(5) by (simp_all add: t_def take_request_def uart_adressed_def)
  have run: "MainThread_run (i # js @ [j]) p = MainThread j t"
    using transfer_run [OF assms(1-3)] run_append [of "i # js" "[j]" p] by (cases "MainThread j t") (simp_all add: t_def)
  have fin: "\<exists>r. MainThread k q = Some r \<and> \<not> p_ack r \<and> p_pc r = P_idle \<and> p_mem r = p_mem q" if "p_pc q = P_done" for q
    using that by (simp add: MainThread_def)
  show ?thesis
  proof (cases "i_we i")
    case True
    have "word_there (i_adr i) (p_mem p)" using assms(6) by (simp add: ReadWord_lanes split: if_splits)
    then obtain m where m: "mem_write_lanes (i_adr i) (i_sel i) (i_dat i) (p_mem p) = Some m" using mem_write_there by blast
    then have "MainThread j t = Some (t\<lparr>p_mem := m, p_ack := True, p_pc := P_done\<rparr>)"
      using t True assms(4) by (simp add: MainThread_def periph_write_def)
    then show ?thesis
      unfolding run using fin [of "t\<lparr>p_mem := m, p_ack := True, p_pc := P_done\<rparr>"] True mem_write_word [OF m assms(6)] mem_write_byte(2) [OF m] by simp
  next
    case False
    have "MainThread j t = Some (t\<lparr>p_dat := merge_lanes (i_sel i) w 0, p_ack := True, p_pc := P_done\<rparr>)"
      using t False assms(4) mem_read_word [OF assms(6)] by (simp add: MainThread_def periph_read_def)
    then show ?thesis
      unfolding run using fin [of "t\<lparr>p_dat := merge_lanes (i_sel i) w 0, p_ack := True, p_pc := P_done\<rparr>"] False t(1) by simp
  qed
qed

text \<open>One byte of a word: a write of its second lane.\<close>

definition ex_write :: bus_in where
  "ex_write = \<lparr>i_stb = True, i_cyc = True, i_we = True, i_sel = 2, i_adr = 8, i_dat = 0x11223344\<rparr>"

theorem slave_serves_memory_witness:
  "\<exists>q. MainThread_run (ex_write # replicate 9 ex_write @ [ex_write]) ex_periph = Some q \<and> p_ack q
    \<and> mem_ReadWord 8 (p_mem q) = Some 0x00220000"
proof -
  have r: "ram ex_periph 8" by (rule ex_in_ram) simp_all
  then have "mem_ReadWord (i_adr ex_write) (p_mem ex_periph) = Some 0"
    using zero_word by (simp add: ram_def ex_periph_def ex_write_def)
  moreover have "mem_IsAdressed (i_adr ex_write) (p_mem ex_periph)" using r by (simp add: ram_def ex_write_def)
  ultimately obtain q where "MainThread_run (ex_write # replicate 9 ex_write @ [ex_write]) ex_periph = Some q" "p_ack q"
    "mem_ReadWord (i_adr ex_write) (p_mem q) = Some (merge_lanes (i_sel ex_write) (i_dat ex_write) 0)"
    using slave_serves_memory [of ex_periph ex_write "replicate 9 ex_write" 0 ex_write ex_write]
    by (auto simp: ex_periph_def ex_write_def)
  moreover have "merge_lanes 2 0x11223344 0 = 0x00220000"
    by (simp add: merge_lanes_def merge_lane_def lane_mask_def bit_numeral_rec)
  ultimately show ?thesis by (simp add: ex_write_def)
qed

text \<open>C15.  The memory says it owns the address one past its end: an access there, which the slave should take for one to an address nobody
  owns, goes outside the array.\<close>

theorem memory_owns_too_much:
  assumes "length (m_data (p_mem p)) = unat (m_size (p_mem p))" "m_base (p_mem p) \<le> m_base (p_mem p) + m_size (p_mem p)"
    "p_adr p = m_base (p_mem p) + m_size (p_mem p)" "\<not> uart_adressed p" "bit (p_sel p) 0" "p_pc p = P_delay 1"
  shows "mem_IsAdressed (p_adr p) (p_mem p) \<and> MainThread i p = None"
proof -
  have a: "mem_IsAdressed (p_adr p) (p_mem p)" using assms(2,3) by (simp add: mem_IsAdressed_def)
  have n: "mem_ReadByte (p_adr p) (p_mem p) = None" using assms(1,3) by (simp add: mem_ReadByte_def Let_def)
  then have n0: "mem_ReadByte (p_adr p + of_nat 0) (p_mem p) = None" by simp
  have z: "0 \<in> set (sel_lanes (p_sel p))" using assms(5) by (simp add: sel_lanes_def)
  then have "p_adr p + of_nat 0 \<in> set (map (\<lambda>n. p_adr p + of_nat n) (sel_lanes (p_sel p)))" unfolding set_map by (rule imageI)
  then have r: "\<not> (\<forall>a \<in> set (map (\<lambda>n. p_adr p + of_nat n) (sel_lanes (p_sel p))). mem_ReadByte a (p_mem p) \<noteq> None)"
    using n0 by blast
  have "mem_read_lanes (p_adr p) (p_sel p) (p_mem p) = None"
  proof (cases "p_sel p = 15")
    case True
    then show ?thesis using n by (simp add: mem_read_lanes_def mem_ReadWord_def)
  next
    case False
    then show ?thesis unfolding mem_read_lanes_def cm.get_all_ok if_not_P [OF r] if_not_P [OF False] by simp
  qed
  moreover have "mem_write_lanes (p_adr p) (p_sel p) v (p_mem p) = None" for v
    using z n cm.put_all_ok [of "map (\<lambda>n. (p_adr p + of_nat n, byte_lane v n)) (sel_lanes (p_sel p))" "p_mem p"]
    by (force simp: mem_write_lanes_eq)
  ultimately show ?thesis using a assms(4,6) by (simp add: MainThread_def periph_read_def periph_write_def)
qed

theorem memory_owns_too_much_witness:
  "MainThread ex_write (ex_periph\<lparr>p_adr := 0x20000, p_sel := 1, p_pc := P_delay 1\<rparr>) = None"
proof -
  have "mem_IsAdressed 0x20000 (p_mem ex_periph) \<and> MainThread ex_write (ex_periph\<lparr>p_adr := 0x20000, p_sel := 1, p_pc := P_delay 1\<rparr>) = None"
    using memory_owns_too_much [of "ex_periph\<lparr>p_adr := 0x20000, p_sel := 1, p_pc := P_delay 1\<rparr>" ex_write]
    by (simp add: ex_periph_def Memory_Init_def uart_adressed_def)
  then show ?thesis ..
qed



text \<open>The UART's thread touches nothing but the UART, and the characters on their way stay the same.\<close>

lemma UartThread_sends:
  assumes "UartThread n p = Some q" "p_uart p = Some u" "uart_sends u cs"
  shows "\<exists>v. p_uart q = Some v \<and> uart_sends v cs" and "q\<lparr>p_uart := p_uart p, p_uwait := p_uwait p\<rparr> = p"
  using assms by (auto simp: UartThread_def intro: sends_simulate split: if_splits)

end
