(* ===== verification/PnLfsr.thy ===== *)
theory PnLfsr
  imports Prelude
begin

text \<open>
  The linear feedback shift registers of \<open>src/sysc/lfsr.cpp\<close>, from which the tag RAM and the arbiter take their counters in the
  configurations with random choice (\<open>GetPrimePoly (8, 0)\<close> and \<open>GetPrimePoly (16, 0)\<close>): the tables of polynomials, which are
  meant to be primitive, the step, and the number of ones of a word.
\<close>

section \<open>Tables\<close>

text \<open>Row \<open>n\<close> is for degree \<open>n + 2\<close>.\<close>

definition polysAvailable :: "nat list" where
  "polysAvailable =
     [1, 2, 2, 6, 6, 16, 16, 16, 16, 16, 16, 16, 16, 16, 16, 16, 16, 16, 16, 16, 16, 16, 14, 16, 16, 16, 16, 16, 16, 16, 16]"

definition primePolyListFewXors :: "u32 list list" where
  "primePolyListFewXors =
    [[0x3],
     [0x3, 0x5],
     [0x3, 0x9],
     [0x5, 0x9, 0xf, 0x17, 0x1b, 0x1d],
     [0x3, 0x1b, 0x21, 0x27, 0x2d, 0x33],
     [0x3, 0x9, 0xf, 0x11, 0x1d, 0x2b, 0x39, 0x3f, 0x41, 0x4b, 0x4d, 0x53, 0x55, 0x65, 0x71, 0x77],
     [0x1d, 0x2b, 0x2d, 0x5f, 0x4d, 0x63, 0x65, 0x69, 0x71, 0x8d, 0x87, 0xa9, 0xc3, 0xcf, 0xe7, 0xf5],
     [0x11, 0x2d, 0x59, 0x69, 0x77, 0x95, 0xd1, 0xdb, 0x113, 0x131, 0x161, 0x185, 0x18f, 0x1b9, 0x1e3, 0x1e9],
     [0x9, 0x1b, 0x6f, 0xd7, 0x81, 0x10d, 0x119, 0x131, 0x18f, 0x1a1, 0x1c7, 0x213, 0x215, 0x223, 0x2c1, 0x393],
     [0x5, 0x2b, 0x63, 0x8d, 0x113, 0x125, 0x145, 0x149, 0x201, 0x207, 0x213, 0x215, 0x291, 0x341, 0x40d, 0x419],
     [0x53, 0x69, 0x99, 0xd1, 0x123, 0x161, 0x185, 0x225, 0x2c1, 0x321, 0x407, 0x6a0, 0x891, 0x941, 0xc05, 0xc11],
     [0x1b, 0x8b, 0x143, 0x243, 0x25b, 0x289, 0x425, 0x521, 0x941, 0xc21, 0x1007, 0x1019, 0x10a1, 0x1209, 0x1301, 0x1601],
     [0x2b, 0x53, 0x143, 0x309, 0x443, 0x813, 0x843, 0xc81, 0x10a1, 0x1803, 0x200d, 0x2015, 0x2141, 0x2501, 0x2601, 0x2a01],
     [0x3, 0x11, 0x81, 0x101, 0x611, 0x801, 0x909, 0x1091, 0x200b, 0x2501, 0x3401, 0x4001, 0x4007, 0x4301, 0x5005, 0x6003],
     [0x2d, 0x26d, 0x285, 0x483, 0x489, 0x861, 0xc21, 0x100b, 0x1241, 0x2241, 0x4281, 0x6801, 0x8241, 0x900f, 0xa011, 0xe013],
     [0x9, 0x21, 0x41, 0x801, 0x1001, 0x2023, 0x4001, 0x4091, 0x6401, 0xa801, 0xd001, 0x1000d, 0x10031, 0x10601, 0x13001, 0x1c001],
     [0x27, 0x81, 0x489, 0x4a1, 0x801, 0xf0f, 0x2901, 0x2bc9, 0x4023, 0x8025, 0x8901, 0x9bc1, 0x12009, 0x22011, 0x32001, 0x38781],
     [0x27, 0x63, 0x3c9, 0x168a, 0x2139, 0x8441, 0xa201, 0x10013, 0x10025, 0x10049, 0x10121, 0x11201, 0x21401, 0x2f043, 0x40181,
      0x46001],
     [0x9, 0x229, 0x1809, 0x3021, 0x10023, 0x10089, 0x12201, 0x18801, 0x20001, 0x20049, 0x22011, 0x28801, 0x80019, 0x800c1,
      0x80301, 0x88011],
     [0x5, 0x4221, 0x8105, 0x11081, 0x18401, 0x20045, 0x24401, 0x40013, 0x40481, 0x40901, 0x80001, 0x800a1, 0x82041, 0x88011,
      0x100061, 0x120009],
     [0x3, 0x2409, 0x20109, 0x22101, 0x60003, 0x81201, 0x84021, 0x89001, 0xa4001, 0x10000b, 0x100a01, 0x200001, 0x200031,
      0x200601, 0x218001, 0x280005],
     [0x21, 0x201, 0x4001, 0x40001, 0x50005, 0x2000a1, 0x200501, 0x400007, 0x400031, 0x400061, 0x400181, 0x400c01, 0x40c001,
      0x418001, 0x4c0001, 0x600003],
     [0x1b, 0x87, 0xa011, 0x10281, 0x28101, 0x100a01, 0x180003, 0x800031, 0xb00001, 0xc20001, 0x1ba555, 0x2fe633, 0x554bb1,
      0x98cfe9],
     [0x9, 0x81, 0x40001, 0x50005, 0x400001, 0x500005, 0x800029, 0x800281, 0x800a01, 0x801401, 0x8a0001, 0xd00001, 0x1000601,
      0x1000c01, 0x1003001, 0x1c00001],
     [0x47, 0x183, 0x220011, 0x221001, 0x280005, 0x284001, 0x400221, 0x800013, 0x848001, 0x890001, 0x10000a1, 0x10a0001,
      0x2001801, 0x20c0001, 0x2400009, 0x3100001],
     [0x27, 0x183, 0x800045, 0x800221, 0x844001, 0x1000025, 0x1002401, 0x1480001, 0x2001401, 0x2014001, 0x2200011, 0x2400009,
      0x3000003, 0x400000d, 0x4180001, 0x6400001],
     [0x9, 0x201, 0x2001, 0x8001, 0x80001, 0x402081, 0x408201, 0x800085, 0x800841, 0x808401, 0x810801, 0x1000023, 0x1088001,
      0x2000001, 0x8000031, 0x8000181],
     [0x5, 0x280005, 0x1000085, 0x2000045, 0x4000025, 0x4001201, 0x4012001, 0x4090001, 0x8000001, 0x8000501, 0x8000a01, 0x8140001,
      0x8400021, 0x8800011, 0x9000009, 0x10c00001],
     [0x53, 0x18003, 0x100803, 0x902001, 0x800205, 0x800103, 0x1000821, 0x4008801, 0x4022001, 0x8000121, 0x8900001, 0x10200081,
      0x2000c001, 0x20080401, 0x20400081, 0x25000001],
     [0x9, 0x41, 0x81, 0x2001, 0x2000001, 0x10000001, 0x20000501, 0x20002801, 0x2000a001, 0x20280001, 0x22800001, 0x2a000001,
      0x400000c1, 0x40006001, 0x40600001, 0x70000001],
     [0xaf, 0x12009, 0xa0011, 0x840021, 0x2002041, 0x2408001, 0x4000821, 0x4080081, 0x8004201, 0x8200041, 0xa100001, 0x1000a001,
      0x18000003, 0x20090001, 0x80000031, 0xea000001]]"

definition primePolyListManyXors :: "u32 list list" where
  "primePolyListManyXors =
    [[0x3],
     [0x3, 0x5],
     [0x3, 0x9],
     [0xf, 0x17, 0x1b, 0x1d, 0x5, 0x9],
     [0x27, 0x1b, 0x33, 0x2d, 0x3, 0x21],
     [0x3f, 0x6f, 0x77, 0x7d, 0xf, 0x27, 0x2b, 0x4b, 0x53, 0x1d, 0x55, 0x65, 0x39, 0x71, 0x3, 0x9],
     [0x5f, 0xcf, 0xe7, 0xf5, 0x87, 0x2b, 0x63, 0xc3, 0x1d, 0x2d, 0x4d, 0x8d, 0x65, 0x69, 0xa9, 0x71],
     [0x17f, 0x1fb, 0x5f, 0x11f, 0x6f, 0xaf, 0xcf, 0x14f, 0x18f, 0x77, 0xb7, 0x1c7, 0x13b, 0xdb, 0x15b, 0x16b],
     [0xff, 0x27f, 0x2df, 0x1f7, 0x1fb, 0x3db, 0x3f3, 0x2fd, 0x37d, 0x3f9, 0x6f, 0x24f, 0x18f, 0x237, 0xd7, 0x157],
     [0x17f, 0x27f, 0x4bf, 0x33f, 0x2df, 0x35f, 0x65f, 0x59f, 0x69f, 0x2ef, 0x36f, 0x56f, 0x3af, 0x6cf, 0x1f7, 0x4f7],
     [0x7bf, 0xbbf, 0xfbb, 0xfbd, 0x27f, 0x33f, 0x1df, 0xc9f, 0xb1f, 0x8ef, 0xe2f, 0x9cf, 0xccf, 0xe8f, 0x5d7, 0xb57],
     [0xfff, 0x1bff, 0x1ff7, 0x1ffd, 0x11ff, 0xb7f, 0x157f, 0x1abf, 0xf3f, 0x1b3f, 0x1e3f, 0x7df, 0xedf, 0x1adf, 0xf5f, 0x1f1f],
     [0x33ff, 0x3cff, 0x3e7f, 0x3f3f, 0x1fdf, 0x2fdf, 0x3f9f, 0x3fe7, 0x3dfb, 0x3dfd, 0x5ff, 0x11ff, 0x18ff, 0x28ff, 0x77f, 0x157f],
     [0x3fff, 0x77ff, 0x7eff, 0x7f7f, 0x7fef, 0x7ffd, 0x17ff, 0x1bff, 0x63ff, 0x4dff, 0x4eff, 0x72ff, 0x6cff, 0x577f, 0x3d7f,
      0x3e7f],
     [0x6fff, 0xafff, 0xfb7f, 0xfdbf, 0xbfdf, 0xefdf, 0xdfef, 0xf7ef, 0xeff7, 0xf7fb, 0xffeb, 0xffed, 0x4bff, 0x1dff, 0x39ff,
      0x59ff],
     [0x1dfff, 0x1efff, 0x1ffdf, 0x1ffef, 0x14fff, 0xd7ff, 0x1cbff, 0x15dff, 0x1adff, 0x1cdff, 0x175ff, 0x1e5ff, 0x1d9ff, 0xbeff,
      0x13eff, 0x1d6ff],
     [0x33fff, 0x1f7ff, 0x3dbff, 0x37dff, 0x3edff, 0x3beff, 0x37f7f, 0x3df7f, 0x2ffbf, 0x3dfbf, 0x3fdbf, 0x37fdf, 0x3efdf,
      0x3f7df, 0x3fedf, 0x3fbef],
     [0x4bfff, 0x1dfff, 0x59fff, 0x5cfff, 0x677ff, 0x3b7ff, 0x6b7ff, 0x797ff, 0x5e7ff, 0x57bff, 0x5bbff, 0x75bff, 0x3ebff,
      0x7cbff, 0x3f3ff, 0x5f3ff],
     [0x3ffff, 0xd7fff, 0xe7fff, 0xddfff, 0xf9fff, 0xef7ff, 0xfd7ff, 0xfe7ff, 0xdfdff, 0xfddff, 0xfdeff, 0xffcff, 0xfef7f,
      0xff77f, 0xffd7f, 0xfff3f],
     [0x137fff, 0x197fff, 0x1c7fff, 0x13bfff, 0x15bfff, 0xddfff, 0x1cdfff, 0xf5fff, 0x179fff, 0x1f1fff, 0x15efff, 0x1cefff,
      0x176fff, 0x1d6fff, 0x1bcfff, 0xef7ff],
     [0x1bffff, 0x1dffff, 0x2effff, 0x2f7fff, 0x2fefff, 0x3df7ff, 0x2ffdff, 0x3f7dff, 0x3f7eff, 0x3fbf7f, 0x3fdf7f, 0x1fffdf,
      0x2fffdf, 0x3ff7df, 0x37ffef, 0x1ffff7],
     [0x3fffff, 0x7dffff, 0x7f7fff, 0x7fdfff, 0x7ffbff, 0x7ffeff, 0x7fffbf, 0x7ffffd, 0x36ffff, 0x3affff, 0x5affff, 0x74ffff,
      0x767fff, 0x2fbfff, 0x37bfff, 0x67bfff],
     [0xebffff, 0x7dffff, 0x7f7fff, 0xbf7fff, 0x7fbfff, 0xfefdff, 0xff7eff, 0xffffaf, 0xfffdfb, 0xfffbfd, 0xfffdfd, 0xffff7d,
      0x63ffff, 0x55ffff, 0x95ffff, 0xbc7fff],
     [0x1dfffff, 0x1feffff, 0x1fffdff, 0x1ffffef, 0x3fffff, 0xafffff, 0x12fffff, 0x167ffff, 0x19bffff, 0x1b3ffff, 0x1e3ffff,
      0x13dffff, 0x1d5ffff, 0x1e5ffff, 0x1e9ffff, 0xbeffff],
     [0x2efffff, 0x1fbffff, 0x37bffff, 0x2fdffff, 0x3ef7fff, 0x3dfbfff, 0x3ff5fff, 0x37fefff, 0x3f7efff, 0x3bff7ff, 0x3f7f7ff,
      0x3ffd7ff, 0x37ffdff, 0x3ff7f7f, 0x3ffbf7f, 0x3fff7bf],
     [0x47fffff, 0x55fffff, 0x36fffff, 0x3b7ffff, 0x737ffff, 0x3d7ffff, 0x6d7ffff, 0x757ffff, 0x5e7ffff, 0x2fbffff, 0x4fbffff,
      0x3f3ffff, 0x57dffff, 0x76dffff, 0x5f5ffff, 0x6f9ffff],
     [0xdfdffff, 0xfddffff, 0xff6ffff, 0xeffbfff, 0xfdfbfff, 0xfbfdfff, 0xfefdfff, 0xefff7ff, 0xf7ff7ff, 0xfffedff, 0xfff7eff,
      0xfffbf7f, 0xffff77f, 0xfff7fbf, 0xffdffdf, 0xffdffef],
     [0x1f7fffff, 0x1ffbffff, 0x1ffff7ff, 0x1fffffbf, 0x5ffffff, 0x9ffffff, 0xb7fffff, 0x1a7fffff, 0x16bfffff, 0xf3fffff,
      0x15dfffff, 0x1bafffff, 0xef7ffff, 0x1cf7ffff, 0x1d77ffff, 0xfb7ffff],
     [0x3dbfffff, 0x1fdfffff, 0x3f6fffff, 0x37fdffff, 0x3dfeffff, 0x3dff7fff, 0x3fdfbfff, 0x3ff7dfff, 0x3fefefff, 0x3feff7ff,
      0x3ffdf7ff, 0x3ff7fbff, 0x3ffbfbff, 0x3dfffdff, 0x3ffefdff, 0x3f7ffeff],
     [0x6fffffff, 0x7dffffff, 0x7effffff, 0x7ffbffff, 0x7fffdfff, 0x7fffff7f, 0x7fffffbf, 0x7ffffff7, 0xfffffff, 0x1bffffff,
      0x63ffffff, 0x35ffffff, 0x55ffffff, 0x3cffffff, 0x74ffffff, 0x677fffff],
     [0x5fffffff, 0x77ffffff, 0xd7ffffff, 0xfef7ffff, 0x7ffdffff, 0x7fffefff, 0xdfffefff, 0xf7fff7ff, 0xdffffdff, 0xffffdeff,
      0x7fffffdf, 0xffdfffdf, 0xff7ffff7, 0xffeffff7, 0xffffffd7, 0xf7fffffd]]"

section \<open>Functions\<close>

text \<open>The remainder of C has the sign of the dividend; a row has 16 entries, 0 where its initialiser gives none, and an index outside it
  is \<open>None\<close>.\<close>

definition c_rem :: "int \<Rightarrow> int \<Rightarrow> int" where
  "c_rem a b = (if a < 0 then - ((- a) mod b) else a mod b)"

definition table_at :: "u32 list list \<Rightarrow> nat \<Rightarrow> int \<Rightarrow> u32 option" where
  "table_at tab row k =
     (if 0 \<le> k \<and> k < 16 then Some (if nat k < length (tab ! row) then tab ! row ! nat k else 0) else None)"

definition GetPrimePoly :: "int \<Rightarrow> int \<Rightarrow> u32 option" where
  "GetPrimePoly degree select =
     (if degree < 2 \<or> 32 < degree then None
      else let row = nat (degree - 2); sel = c_rem select 32; n = int (polysAvailable ! row)
           in if sel < 16 then table_at primePolyListFewXors row (c_rem sel n)
              else table_at primePolyListManyXors row (c_rem (sel - 16) n))"

definition GetNextLfsrState :: "u32 \<Rightarrow> nat \<Rightarrow> u32 \<Rightarrow> u32" where
  "GetNextLfsrState state width poly =
     (let oldBit0 = bit state 0; state1 = (if oldBit0 then state XOR poly else state)
      in drop_bit 1 state1 OR (if oldBit0 then push_bit (width - 1) 1 else 0))"

function GetOnes :: "u32 \<Rightarrow> nat" where
  "GetOnes word = (if word = 0 then 0 else unat (word AND 1) + GetOnes (drop_bit 1 word))"
  by auto
termination
proof (relation "measure unat")
  show "(drop_bit 1 word, word) \<in> measure unat" if "word \<noteq> 0" for word :: u32
  proof -
    have "0 < unat word" using that by (simp add: unat_gt_0)
    then have "unat word div 2 < unat word" by simp
    then show ?thesis by (simp add: unsigned_drop_bit_eq drop_bit_eq_div unat_div_distrib)
  qed
qed simp

declare GetOnes.simps [simp del]

section \<open>The step\<close>

lemma high_bit: "take_bit w (s :: u32) = s \<Longrightarrow> w \<le> j \<Longrightarrow> \<not> bit s j"
  by (metis bit_take_bit_iff not_less)

lemma bit_next_state:
  assumes "1 \<le> w" "w \<le> 32" "take_bit w s = s" "take_bit w p = p"
  shows "bit (GetNextLfsrState s w p) k \<longleftrightarrow> (if k = w - 1 then bit s 0 else k < w - 1 \<and> bit s (k + 1) \<noteq> (bit s 0 \<and> bit p (k + 1)))"
proof -
  have b: "bit (GetNextLfsrState s w p) k \<longleftrightarrow> bit s (k + 1) \<noteq> (bit s 0 \<and> bit p (k + 1)) \<or> bit s 0 \<and> k = w - 1"
    using assms(1,2) by (auto simp: GetNextLfsrState_def Let_def bit_or_iff bit_drop_bit_eq bit_xor_iff bit_exp_iff)
  show ?thesis
  proof (cases "w \<le> k + 1")
    case True
    then show ?thesis unfolding b using high_bit [OF assms(3) True] high_bit [OF assms(4) True] by auto
  next
    case False
    then show ?thesis unfolding b by auto
  qed
qed

text \<open>The states of \<open>w\<close> bits.\<close>

definition lfsr_states :: "nat \<Rightarrow> u32 set" where
  "lfsr_states w = {s. s \<noteq> 0 \<and> take_bit w s = s}"

lemma finite_lfsr_states [simp]: "finite (lfsr_states w)"
  by simp

lemma next_state_in:
  assumes "1 \<le> w" "w \<le> 32" "take_bit w p = p" "s \<in> lfsr_states w"
  shows "GetNextLfsrState s w p \<in> lfsr_states w"
proof -
  have s: "take_bit w s = s" "s \<noteq> 0" using assms(4) by (simp_all add: lfsr_states_def)
  note B = bit_next_state [OF assms(1,2) s(1) assms(3)]
  have "take_bit w (GetNextLfsrState s w p) = GetNextLfsrState s w p"
    by (rule bit_word_eqI) (use assms(1) in \<open>auto simp: bit_take_bit_iff B split: if_splits\<close>)
  moreover have "GetNextLfsrState s w p \<noteq> 0"
  proof
    assume z: "GetNextLfsrState s w p = 0"
    have z0: "\<not> bit s 0" using B [of "w - 1"] z by simp
    have "\<not> bit s k" for k
    proof (cases k)
      case (Suc j)
      show ?thesis
      proof (cases "w \<le> k")
        case False
        then show ?thesis using B [of j] z z0 Suc by (simp split: if_splits)
      qed (rule high_bit [OF s(1)])
    qed (simp add: z0)
    then have "s = 0" by (intro bit_word_eqI) simp
    then show False using s(2) by simp
  qed
  ultimately show ?thesis by (simp add: lfsr_states_def)
qed

lemma next_state_inj:
  assumes "1 \<le> w" "w \<le> 32" "take_bit w p = p"
  shows "inj_on (\<lambda>s. GetNextLfsrState s w p) (lfsr_states w)"
proof (rule inj_onI)
  fix s t assume "s \<in> lfsr_states w" "t \<in> lfsr_states w" and e: "GetNextLfsrState s w p = GetNextLfsrState t w p"
  then have st: "take_bit w s = s" "take_bit w t = t" by (simp_all add: lfsr_states_def)
  note B = bit_next_state [OF assms(1,2) st(1) assms(3)] bit_next_state [OF assms(1,2) st(2) assms(3)]
  have z: "bit s 0 = bit t 0" using B [of "w - 1"] e by simp
  show "s = t"
  proof (rule bit_word_eqI)
    fix k
    show "bit s k = bit t k"
    proof (cases k)
      case (Suc j)
      show ?thesis
      proof (cases "w \<le> k")
        case True
        then show ?thesis using high_bit [OF st(1)] high_bit [OF st(2)] by blast
      next
        case False
        then have "j < w - 1" "j \<noteq> w - 1" using Suc by simp_all
        then show ?thesis using B [of j] e z Suc by auto
      qed
    qed (simp add: z)
  qed
qed

lemma next_state_bij:
  assumes "1 \<le> w" "w \<le> 32" "take_bit w p = p"
  shows "bij_betw (\<lambda>s. GetNextLfsrState s w p) (lfsr_states w) (lfsr_states w)"
proof -
  have "(\<lambda>s. GetNextLfsrState s w p) ` lfsr_states w \<subseteq> lfsr_states w" using next_state_in [OF assms] by blast
  then have "(\<lambda>s. GetNextLfsrState s w p) ` lfsr_states w = lfsr_states w"
    by (rule endo_inj_surj [OF finite_lfsr_states _ next_state_inj [OF assms]])
  then show ?thesis using next_state_inj [OF assms] by (simp add: bij_betw_def)
qed

section \<open>Cycles\<close>

lemma funpow_num: "(f ^^ numeral k) x = (f ^^ pred_numeral k) (f x)"
  by (simp add: numeral_eq_Suc funpow_Suc_right del: funpow.simps)

lemma period_mult: "(f ^^ n) x = x \<Longrightarrow> (f ^^ (n * k)) x = x"
  by (induction k) (simp_all add: funpow_add)

lemma period_mod: "(f ^^ a) x = x \<Longrightarrow> (f ^^ b) x = x \<Longrightarrow> (f ^^ (b mod a)) x = x"
proof -
  assume a: "(f ^^ a) x = x" and b: "(f ^^ b) x = x"
  have "(f ^^ b) x = (f ^^ (b mod a + a * (b div a))) x" by simp
  also have "\<dots> = (f ^^ (b mod a)) x" unfolding funpow_add comp_def period_mult [OF a] ..
  finally show "(f ^^ (b mod a)) x = x" using b by simp
qed

lemma period_gcd: "(f ^^ a) x = x \<Longrightarrow> (f ^^ b) x = x \<Longrightarrow> (f ^^ gcd a b) x = x" for a b :: nat
proof (induction a b rule: gcd_nat_induct)
  case (step a b)
  then show ?case using period_mod [of b f x a] by (simp add: gcd_red_nat [of a b])
qed simp

lemma funpow_in: "\<forall>s \<in> S. f s \<in> S \<Longrightarrow> x \<in> S \<Longrightarrow> (f ^^ n) x \<in> S"
  by (induction n) auto

lemma funpow_cancel: "inj_on f S \<Longrightarrow> \<forall>s \<in> S. f s \<in> S \<Longrightarrow> x \<in> S \<Longrightarrow> (f ^^ n) x = (f ^^ (n + d)) x \<Longrightarrow> (f ^^ d) x = x"
proof (induction n)
  case (Suc n)
  have "(f ^^ n) x \<in> S" "(f ^^ (n + d)) x \<in> S" using funpow_in [OF Suc.prems(2,3)] by blast+
  then have "(f ^^ n) x = (f ^^ (n + d)) x" using Suc.prems(1,4) by (auto dest: inj_onD)
  then show ?case using Suc by blast
qed simp

text \<open>A permutation whose period at a point divides the number of points, but divides none of its proper divisors, goes through all of them.\<close>

lemma full_cycle:
  assumes "inj_on f S" "\<forall>s \<in> S. f s \<in> S" "finite S" "x \<in> S" "(f ^^ card S) x = x"
    "\<And>d. d dvd card S \<Longrightarrow> d < card S \<Longrightarrow> (f ^^ d) x \<noteq> x"
  shows "(\<lambda>n. (f ^^ n) x) ` {0..<card S} = S"
proof -
  have pos: "0 < card S" using assms(3,4) by (auto simp: card_gt_0_iff)
  have "(f ^^ i) x \<noteq> (f ^^ j) x" if "i < j" "j < card S" for i j
  proof
    assume "(f ^^ i) x = (f ^^ j) x"
    then have "(f ^^ (j - i)) x = x" using funpow_cancel [OF assms(1,2,4), of i "j - i"] that by simp
    then have "(f ^^ gcd (j - i) (card S)) x = x" by (rule period_gcd [OF _ assms(5)])
    moreover have "gcd (j - i) (card S) < card S" using that gcd_le1_nat [of "j - i" "card S"] by linarith
    ultimately show False using assms(6) [of "gcd (j - i) (card S)"] by simp
  qed
  then have "inj_on (\<lambda>n. (f ^^ n) x) {0..<card S}" by (intro linorder_inj_onI) auto
  then have "card ((\<lambda>n. (f ^^ n) x) ` {0..<card S}) = card S" by (simp add: card_image)
  moreover have "(\<lambda>n. (f ^^ n) x) ` {0..<card S} \<subseteq> S" using funpow_in [OF assms(2,4)] by blast
  ultimately show ?thesis using card_subset_eq [OF assms(3)] by blast
qed

section \<open>The tables\<close>

text \<open>The number of ones is the number of set bits.\<close>

lemma bits_split: "{k. bit (w :: u32) k} = (if bit w 0 then {0} else {}) \<union> Suc ` {k. bit (drop_bit 1 w) k}" (is "?A = ?B")
proof -
  have "k \<in> ?A \<longleftrightarrow> k \<in> ?B" for k by (cases k) (auto simp: bit_drop_bit_eq)
  then show ?thesis by blast
qed

lemma GetOnes_card: "GetOnes w = card {k. bit w k}"
proof (induction w rule: GetOnes.induct)
  case (1 w)
  have fin: "finite {k. bit (v :: u32) k}" for v by (rule finite_subset [of _ "{0..<32}"]) (auto dest: bit_imp_le_length)
  have "card {k. bit w k} = (if bit w 0 then 1 else 0) + card {k. bit (drop_bit 1 w) k}"
    by (subst bits_split) (auto simp: card_image card_insert_if fin)
  moreover have "unat (w AND 1) = (if bit w 0 then 1 else 0)" by (simp only: and_one_eq bit_0 odd_iff_mod_2_eq_one) (auto simp: mod_2_eq_odd)
  ultimately show ?case using 1 by (subst GetOnes.simps) simp
qed

text \<open>For a literal.\<close>

primrec num_ones :: "num \<Rightarrow> nat" where
  "num_ones Num.One = 1"
| "num_ones (num.Bit0 k) = num_ones k"
| "num_ones (num.Bit1 k) = Suc (num_ones k)"

lemma unat_below: "n < 4294967296 \<Longrightarrow> unat (of_nat n :: u32) = n"
  by (simp add: unat_of_nat take_bit_nat_eq_self)

lemma GetOnes_double:
  assumes "2 * n + b < 4294967296" "b < 2"
  shows "GetOnes (of_nat (2 * n + b)) = b + GetOnes (of_nat n)"
proof -
  define x y :: u32 where "x = of_nat (2 * n + b)" and "y = of_nat n"
  have u: "unat x = 2 * n + b" "unat y = n" 
    unfolding x_def y_def using unat_below [OF assms(1)] unat_below [of n] assms(1) by auto
  have "unat (drop_bit 1 x) = n" using assms(2) by (simp add: unat_div_distrib u drop_bit_eq_div)
  then have h: "drop_bit 1 x = y" by (metis u(2) word_unat_eq_iff)
  have o: "unat (x AND 1) = b" using assms(2) by (simp add: and_one_eq unat_mod_distrib u)
  have "GetOnes x = b + GetOnes y"
  proof (cases "x = 0")
    case True
    then have "y = 0 \<and> b = 0" using u by (auto simp: word_unat_eq_iff)
    then show ?thesis using True by simp
  next
    case False
    then show ?thesis using h o by (subst GetOnes.simps) simp
  qed
  then show ?thesis unfolding x_def y_def .
qed

lemma GetOnes_literal: "(numeral k :: nat) < 4294967296 \<Longrightarrow> GetOnes (numeral k) = num_ones k"
proof (induction k)
  case One
  then show ?case by (simp add: GetOnes.simps [of 1] GetOnes.simps [of 0])
next
  case (Bit0 k)
  define n :: nat where "n = numeral k"
  have e: "numeral (num.Bit0 k) = 2 * n + 0" "(of_nat n :: u32) = numeral k" 
    by (simp_all only: numeral_Bit0 [of k] n_def of_nat_numeral mult_2 add_0_right)
  have l: "2 * n + 0 < 4294967296" using Bit0.prems unfolding e(1) .
  then have "n < 4294967296" by simp
  then have "GetOnes (numeral k) = num_ones k" unfolding n_def by (rule Bit0.IH)
  then show ?case using GetOnes_double [OF l] e(2) unfolding e(1) [symmetric] of_nat_numeral by simp
next
  case (Bit1 k)
  define n :: nat where "n = numeral k"
  have e: "numeral (num.Bit1 k) = 2 * n + 1" "(of_nat n :: u32) = numeral k" 
    by (simp_all only: numeral_Bit1 [of k] n_def of_nat_numeral mult_2)
  have l: "2 * n + 1 < 4294967296" using Bit1.prems unfolding e(1) .
  then have "n < 4294967296" by simp
  then have "GetOnes (numeral k) = num_ones k" unfolding n_def by (rule Bit1.IH)
  then show ?case using GetOnes_double [OF l] e(2) unfolding e(1) [symmetric] of_nat_numeral by simp
qed

text \<open>
  Row by row: enough entries, each of the degree of the row, and, but for the exceptions \<open>xs\<close>, with a constant term and
  an even number of ones, so that \<open>x\<^sup>d + p\<close> has neither the factor \<open>x\<close> nor \<open>x + 1\<close>.
\<close>

definition row_ok :: "(nat \<times> nat) set \<Rightarrow> nat \<times> nat \<Rightarrow> u32 list \<Rightarrow> bool" where
  "row_ok xs = (\<lambda>(d, n) row. 0 < n \<and> n \<le> length row \<and> length row \<le> 16
     \<and> list_all (\<lambda>(j, p). unat p < 2 ^ d \<and> ((d, j) \<in> xs \<or> odd p \<and> even (GetOnes p))) (enumerate 0 row))"

lemma tables_ok:
  "list_all2 (row_ok {(12, 11), (19, 3)}) (zip [2..<33] polysAvailable) primePolyListFewXors"
  "list_all2 (row_ok {}) (zip [2..<33] polysAvailable) primePolyListManyXors"
  by (simp_all add: row_ok_def GetOnes_literal primePolyListFewXors_def primePolyListManyXors_def polysAvailable_def upt_rec)

lemma table_at_ok:
  assumes "list_all2 (row_ok xs) (zip [2..<33] polysAvailable) tab" "2 \<le> d" "d \<le> 32" "0 \<le> k"
  shows "\<exists>p. table_at tab (d - 2) (c_rem k (int (polysAvailable ! (d - 2)))) = Some p \<and> take_bit d p = p
    \<and> ((d, nat (c_rem k (int (polysAvailable ! (d - 2))))) \<in> xs \<or> odd p \<and> even (GetOnes p))"
proof -
  define r n where "r = d - 2" and "n = polysAvailable ! r"
  have "r < 31" using assms(2,3) by (simp add: r_def)
  then have r: "r < 31" "[2..<33] ! r = d" using assms(2) by (simp_all only: nth_upt) (simp add: r_def)
  have len: "length polysAvailable = 31" by (simp add: polysAvailable_def)
  have "row_ok xs (d, n) (tab ! r)"
    using list_all2_nthD [OF assms(1), of r] r len by (simp add: n_def del: upt_Suc)
  then have n: "0 < n" "n \<le> length (tab ! r)" "length (tab ! r) \<le> 16"
    "\<forall>j < length (tab ! r). unat (tab ! r ! j) < 2 ^ d \<and> ((d, j) \<in> xs \<or> odd (tab ! r ! j) \<and> even (GetOnes (tab ! r ! j)))"
    by (auto simp: row_ok_def list_all_length nth_enumerate_eq)
  define j where "j = nat (c_rem k (int n))"
  have j: "0 \<le> c_rem k (int n)" "j < n" using assms(4) n(1) by (simp_all add: c_rem_def j_def nat_less_iff)
  then have t: "table_at tab r (c_rem k (int n)) = Some (tab ! r ! j)" using n(2,3) by (auto simp: table_at_def j_def)
  have "j < length (tab ! r)" using n(2) j(2) by simp
  note g = n(4) [rule_format, OF this]
  then have "take_bit d (unat (tab ! r ! j)) = unat (tab ! r ! j)" by (intro take_bit_nat_eq_self) blast
  then have "take_bit d (tab ! r ! j) = tab ! r ! j" by (simp add: word_unat_eq_iff unsigned_take_bit_eq)
  then show ?thesis using t g unfolding n_def r_def j_def by blast
qed

section \<open>Division by x\<close>

text \<open>
  The state as a polynomial over two elements, bit \<open>k\<close> the coefficient of \<open>x ^ k\<close>: the product with \<open>x\<close> modulo \<open>x ^ d + p\<close>.
\<close>

definition mul_x :: "nat \<Rightarrow> u32 \<Rightarrow> u32 \<Rightarrow> u32" where
  "mul_x d p s = take_bit d (push_bit 1 s) XOR (if bit s (d - 1) then p else 0)"

lemma bit_mul_x:
  assumes "d \<le> 32"
  shows "bit (mul_x d p s) k \<longleftrightarrow> (k < d \<and> 0 < k \<and> bit s (k - 1)) \<noteq> (bit s (d - 1) \<and> bit p k)"
proof -
  have "bit (push_bit 1 s) k \<longleftrightarrow> k < 32 \<and> 0 < k \<and> bit s (k - 1)"
    by (simp only: bit_push_bit_iff) (auto simp: Suc_le_eq)
  then show ?thesis using assms by (auto simp: mul_x_def bit_xor_iff bit_take_bit_iff simp del: push_bit_of_Suc_0 push_bit_Suc)
qed

lemma mul_x_inverse:
  assumes "1 \<le> d" "d \<le> 32" "take_bit d s = s" "take_bit d p = p" "bit p 0"
  shows "mul_x d p (GetNextLfsrState s d p) = s" "GetNextLfsrState (mul_x d p s) d p = s"
proof -
  note B = bit_next_state [OF assms(1,2) assms(3,4)] and M = bit_mul_x [OF assms(2)]
  show "mul_x d p (GetNextLfsrState s d p) = s"
  proof (rule bit_word_eqI)
    fix k
    show "bit (mul_x d p (GetNextLfsrState s d p)) k = bit s k"
    proof (cases "k < d")
      case True
      then show ?thesis using assms(1,5) by (cases k) (auto simp: M B)
    qed (use high_bit [OF assms(3)] high_bit [OF assms(4)] in \<open>auto simp: M\<close>)
  qed
  have low: "take_bit d (mul_x d p s) = mul_x d p s"
    by (rule bit_word_eqI) (use high_bit [OF assms(4)] in \<open>auto simp: bit_take_bit_iff M not_less\<close>)
  show "GetNextLfsrState (mul_x d p s) d p = s"
  proof (rule bit_word_eqI)
    fix k
    show "bit (GetNextLfsrState (mul_x d p s) d p) k = bit s k"
      unfolding bit_next_state [OF assms(1,2) low assms(4)] M
      using assms(1,5) high_bit [OF assms(3), of k] by (cases "k < d") auto
  qed
qed

section \<open>Properties\<close>

text \<open>C30.  Every entry of the two tables but two has the degree of its row, a constant term and an even number of ones, as a primitive
  polynomial has (\<open>x ^ d + p\<close> has neither the factor \<open>x\<close> nor \<open>x + 1\<close>); and with it the step is the division of the state by \<open>x\<close>
  modulo \<open>x ^ d + p\<close>: it undoes the product with \<open>x\<close>, and the product undoes it.  (The two entries, choice 11 of degree 12 and choice 3 of
  degree 19, are even.)\<close>

theorem lfsr_divides_by_x:
  assumes "2 \<le> d" "d \<le> 32" "0 \<le> select" "(d, select mod 32) \<notin> {(12, 11), (19, 3)}"
  shows "\<exists>p. GetPrimePoly (int d) select = Some p \<and> take_bit d p = p \<and> bit p 0 \<and> even (GetOnes p)
    \<and> (\<forall>s. take_bit d s = s \<longrightarrow> mul_x d p (GetNextLfsrState s d p) = s \<and> GetNextLfsrState (mul_x d p s) d p = s)"
proof -
  have "nat (int d - 2) = d - 2" using assms(1) by simp
  then have g: "GetPrimePoly (int d) select = (if select mod 32 < 16
      then table_at primePolyListFewXors (d - 2) (c_rem (select mod 32) (int (polysAvailable ! (d - 2))))
      else table_at primePolyListManyXors (d - 2) (c_rem (select mod 32 - 16) (int (polysAvailable ! (d - 2)))))"
    using assms(1-3) by (simp add: GetPrimePoly_def Let_def c_rem_def)
  obtain p where p: "GetPrimePoly (int d) select = Some p" "take_bit d p = p" "odd p" "even (GetOnes p)"
  proof (cases "select mod 32 < 16")
    case True
    have row: "polysAvailable ! 10 = 16" "polysAvailable ! 17 = 16" by (simp_all add: polysAvailable_def)
    have "(d, nat (c_rem (select mod 32) (int (polysAvailable ! (d - 2))))) \<notin> {(12, 11), (19, 3)}"
      using assms(4) True row by (auto simp: c_rem_def)
    then show thesis using that table_at_ok [OF tables_ok(1) assms(1,2), of "select mod 32"] True g by auto
  next
    case False
    then show thesis using that table_at_ok [OF tables_ok(2) assms(1,2), of "select mod 32 - 16"] g by auto
  qed
  then show ?thesis using mul_x_inverse [of d _ p] assms(1,2) by (auto simp: bit_0)
qed

theorem lfsr_divides_by_x_witness:
  "\<exists>p. GetPrimePoly 16 0 = Some p \<and> take_bit 16 p = p \<and> bit p 0 \<and> even (GetOnes p)
    \<and> {s. take_bit 16 s = s} \<subseteq> {s. mul_x 16 p (GetNextLfsrState s 16 p) = s \<and> GetNextLfsrState (mul_x 16 p s) 16 p = s}"
  using lfsr_divides_by_x [of 16 0] by (simp add: Ball_def subset_eq)

lemma tag_counter_steps:
  "((\<lambda>s. GetNextLfsrState s 8 0x1d) ^^ 15) 0xff = 0xe6"
  "((\<lambda>s. GetNextLfsrState s 8 0x1d) ^^ 51) 0xff = 0x97"
  "((\<lambda>s. GetNextLfsrState s 8 0x1d) ^^ 85) 0xff = 0xdf"
  "((\<lambda>s. GetNextLfsrState s 8 0x1d) ^^ 255) 0xff = 0xff"
  by (simp_all add: GetNextLfsrState_def funpow_num)

lemma card_states_8: "lfsr_states 8 = of_nat ` {1..<256}"
proof
  show "lfsr_states 8 \<subseteq> of_nat ` {1..<256}"
  proof
    fix s assume s: "s \<in> lfsr_states 8"
    then have "unat s = take_bit 8 (unat s)" by (metis (mono_tags) lfsr_states_def mem_Collect_eq unsigned_take_bit_eq)
    also have "\<dots> < 256" by (simp add: take_bit_eq_mod)
    finally have "unat s \<in> {1..<256}" using s by (simp add: lfsr_states_def unat_gt_0 Suc_le_eq)
    then show "s \<in> of_nat ` {1..<256}" by (intro image_eqI [of _ _ "unat s"]) simp_all
  qed
  show "of_nat ` {1..<256} \<subseteq> lfsr_states 8"
  proof
    fix s :: u32 assume "s \<in> of_nat ` {1..<256}"
    then obtain n where n: "s = of_nat n" "1 \<le> n" "n < 256" by auto
    then have u: "unat s = n" by (simp add: unat_of_nat take_bit_nat_eq_self)
    have "take_bit 8 (unat s) = unat s" unfolding u using n by (intro take_bit_nat_eq_self) simp
    then have "take_bit 8 s = s" by (simp add: word_unat_eq_iff unsigned_take_bit_eq)
    then show "s \<in> lfsr_states 8" using u n(2) by (auto simp: lfsr_states_def)
  qed
qed

lemma divisors_255: "d dvd 255 \<Longrightarrow> d < 255 \<Longrightarrow> d dvd 15 \<or> d dvd 51 \<or> d dvd 85" for d :: nat
proof -
  assume a: "d dvd 255" "d < 255"
  have "\<forall>d \<in> {0..<255}. d dvd 255 \<longrightarrow> d dvd 15 \<or> d dvd 51 \<or> d dvd (85 :: nat)" by code_simp
  then show ?thesis using a by auto
qed

text \<open>C31.  The random counter of the tag RAM (degree 8, choice 0) goes from its reset value 0xff through all 255
  states other than zero.\<close>

theorem lfsr_tag_counter:
  "GetPrimePoly 8 0 = Some 0x1d \<and> (\<lambda>n. ((\<lambda>s. GetNextLfsrState s 8 0x1d) ^^ n) 0xff) ` {0..<255} = lfsr_states 8"
proof -
  have t: "take_bit 8 (0x1d :: u32) = 0x1d" by simp
  have "inj_on (of_nat :: nat \<Rightarrow> u32) {1..<256}" by (rule inj_onI) (simp add: word_of_nat_eq_iff take_bit_nat_eq_self)
  then have card: "card (lfsr_states 8) = 255" unfolding card_states_8 by (subst card_image) simp_all
  have one: "0xff \<in> lfsr_states 8" by (simp add: lfsr_states_def)
  have "(\<lambda>n. ((\<lambda>s. GetNextLfsrState s 8 0x1d) ^^ n) 0xff) ` {0..<card (lfsr_states 8)} = lfsr_states 8"
  proof (rule full_cycle)
    show "inj_on (\<lambda>s. GetNextLfsrState s 8 0x1d) (lfsr_states 8)" by (rule next_state_inj) (simp_all add: t)
    show "\<forall>s \<in> lfsr_states 8. GetNextLfsrState s 8 0x1d \<in> lfsr_states 8" using next_state_in [of 8 "0x1d"] t by simp
    show "((\<lambda>s. GetNextLfsrState s 8 0x1d) ^^ d) 0xff \<noteq> 0xff" if "d dvd card (lfsr_states 8)" "d < card (lfsr_states 8)" for d
    proof
      assume p: "((\<lambda>s. GetNextLfsrState s 8 0x1d) ^^ d) 0xff = 0xff"
      have "\<not> d dvd 51" "\<not> d dvd 85" "\<not> d dvd 15"
        using period_mult [OF p] tag_counter_steps by (auto elim!: dvdE)
      then show False using divisors_255 [of d] that unfolding card by blast
    qed
  qed (use one card tag_counter_steps in simp_all)
  moreover have "GetPrimePoly 8 0 = Some 0x1d"
    by (simp add: GetPrimePoly_def c_rem_def table_at_def primePolyListFewXors_def polysAvailable_def)
  ultimately show ?thesis unfolding card by simp
qed

lemma in_lfsr_states: "s \<in> lfsr_states d \<longleftrightarrow> s \<noteq> 0 \<and> take_bit d s = s"
  by (simp add: lfsr_states_def)

lemma weak_polys:
  "GetPrimePoly 7 10 = Some 0x4d" "GetPrimePoly 10 13 = Some 0x223" "GetPrimePoly 12 11 = Some 0x6a0"
  "GetPrimePoly 13 14 = Some 0x1301" "GetPrimePoly 14 7 = Some 0xc81" "GetPrimePoly 19 3 = Some 0x168a"
  by (simp_all add: GetPrimePoly_def c_rem_def table_at_def primePolyListFewXors_def polysAvailable_def)

text \<open>Six of the eight entries of the tables that are not primitive: from some state other than zero the register falls into a short
  cycle (the length is the last number), for degrees 12 and 19 even of a single state.  (The other two are choice 7 of degree 12 and
  choice 14 of degree 14, with cycles of 1365 and 5461 states.)\<close>

lemma lfsr_short_cycles:
  "list_all (\<lambda>(d, select, s, n). s \<in> lfsr_states d \<and> n < 2 ^ d - 1 \<and>
       map_option (\<lambda>p. ((\<lambda>s. GetNextLfsrState s d p) ^^ n) s) (GetPrimePoly (int d) select) = Some s)
     [(7, 10, 0x2f, 3), (10, 13, 1, 33), (12, 11, 0xd9f, 1), (13, 14, 0xbdb, 3), (14, 7, 0x13f, 63), (19, 3, 0x7f279, 1 :: nat)]"
  by (simp add: weak_polys in_lfsr_states GetNextLfsrState_def funpow_num)

end
