(* ===== verification/Spec2Isabelle.thy ===== *)
theory Spec2Isabelle
  imports Soc PnSystem PnMemuRead PnPeriph PnLfsr
begin

text \<open>
  Verification of the programs of the ParaNut repository: the core of the ParaNut processor as its SystemC model
  describes it (\<open>src/sysc\<close>), and the GDB server through which a debugger controls a simulated
  system (\<open>src/orpsocv2/bench/verilog/vpi/c\<close>).

  \<^bold>\<open>The processor.\<close>  A ParaNut core is three units around a memory unit.  The instruction fetch unit (\<open>MIfu\<close>,
  \<open>ifu.cpp\<close>) prefetches words into a buffer and hands them to the execution unit (\<open>MExu\<close>, \<open>exu.cpp\<close>), which executes
  them and sends loads, stores and cache operations to the load/store unit (\<open>MLsu\<close>, \<open>lsu.cpp\<close>); that unit has a write
  buffer of four words in front of the memory unit.  \<open>paranut.cpp\<close> wires them.  Each module is a record of its
  registers and a function for one clock edge: a read of a SystemC signal gives the value before the edge, a later write
  overrides an earlier one, local variables are bound names.  The thread of the execution unit stops at every \<open>wait ()\<close>; the
  places where it may stop are the datatype \<open>exu_loc\<close>, and \<open>exu_step\<close> runs from one to the next.
  A failed \<open>ASSERT\<close> or \<open>ERROR\<close>, which ends the simulation, is a state of its own (\<open>L_abort\<close>, \<open>o_abort\<close>,
  \<open>ifu_fail\<close>).  \<open>x_undef\<close> and \<open>l_undef\<close> are the values that code without a \<open>return\<close> or without an
  initialisation delivers.

    \<^item> \<open>PnBase\<close>: sizes and address ranges of \<open>config.h\<close>, the byte lanes of a word, and the locale \<open>buffered_memory\<close>, the
      contract of a unit in front of a memory.
    \<^item> \<open>PnIfu\<close>: \<open>MIfu::TransitionMethod\<close>.  From reset on, whatever the latency of the memory and whenever the execution unit
      asks for the next instruction or jumps, the instruction register holds the word of the program at the program counter, and
      the program counters follow in program order; the unit makes progress when the memory answers.
    \<^item> \<open>PnLsu\<close>, \<open>PnLsuSeq\<close>: \<open>MLsu::OutputMethod\<close> and the turn of \<open>MLsu::TransitionThread\<close>.  The first has the invariants of
      the write buffer, the second the runs: the memory a core sees is the memory behind the unit overlaid with the
      buffer (an interpretation of \<open>buffered_memory\<close>), so loads return what a plain memory would, and a flush empties the
      buffer.
    \<^item> \<open>PnExu\<close>, \<open>PnOr1k\<close>: \<open>RunAlu\<close>, \<open>GetSpr\<close>, \<open>SetSpr\<close> and \<open>MainThread\<close> with its whole decoder; then a reference of the
      integer instructions of the architecture (\<open>or1k_insn or1k_arith\<close>), the proof that the unit takes the clocks it should and
      leaves the registers and flags of the reference, and exactly where it does not (\<open>insn_deviates\<close>).
    \<^item> \<open>PnCore\<close>, \<open>PnSystem\<close>: the composition.  \<open>exu_inv\<close> says at which places of the thread which request is made; with it
      the execution unit keeps the protocols that the theorems on the other two units assume, in every reachable state, and
      the theorems combine to statements on whole runs of a core.  \<open>InterconnectMethod\<close> is in \<open>PnCore\<close>.

  The memory unit is the environment of these theories: \<open>ifu_obeys\<close>, \<open>lsu_obeys\<close>, \<open>core_env\<close> and \<open>core_mem\<close> state the
  protocol of \<open>memu.h\<close> (an acknowledge only for a request, read data one clock after it).

  \<^bold>\<open>The memory unit.\<close>  \<open>MMemu\<close> (\<open>memu.cpp\<close>) is a write-back cache with ports for two processors.  Its modules are theories of
  their own, and each is verified against what it may assume of the others:

    \<^item> \<open>PnTag\<close>: the split of addresses, \<open>MTagRam\<close> with its replacement order, \<open>MBankRam\<close>.  The tag RAM is a map from addresses
      to ways and states of lines, for one, two and four ways; the replaced way is the least recently used.
    \<^item> \<open>PnArb\<close>: \<open>MArbiter\<close>.  Grants exclude each other where they must, and somebody who waits gets a grant.
    \<^item> \<open>PnBusIf\<close>, \<open>PnLine\<close>: \<open>MBusIf\<close> as a machine with one place per \<open>wait ()\<close>, and the proof that a replacement, write back,
      flush or invalidation changes the line as its specification says, keeps memory as processors see it, and ends.
    \<^item> \<open>PnRp\<close>, \<open>PnWp\<close>: \<open>MReadPort\<close> and \<open>MWritePort\<close>.  A store that hits writes its bytes and nothing else.
    \<^item> \<open>PnMemu\<close>, \<open>PnMemuTag\<close>, \<open>PnMemuRead\<close>: the modules wired as \<open>MMemu::InitSubmodules\<close> and \<open>InterconnectMethod\<close> do.  The combinational
      signals have one stable assignment; in every state that is reached after a reset (\<open>memu_reach\<close>, rule induction
      over \<open>memu_inv\<close>) the tag RAM answers those who hold it and the assertions of the code hold; and a
      read port delivers the word that the cache holds for its address, or the one the bus interface forwards (\<open>memu_read_port\<close>), of
      which \<open>PnLine\<close> shows that it is the word of the memory.
    \<^item> \<open>PnLfsr\<close>: the shift registers of \<open>lfsr.cpp\<close>, which replace the counters of tag RAM and arbiter in configurations with
      random choice.  The step is the division by \<open>x\<close> modulo the polynomial, and all entries of the tables but two have the
      constant term and the parity of a primitive polynomial; a full cycle is proved from the divisors of its length.

  \<^bold>\<open>The testbench.\<close>  The processor runs in a testbench with a memory and a UART behind a bus slave.

    \<^item> \<open>PnUart\<close>: \<open>CUart\<close> (\<open>uart16450.cpp\<close>) with its scheduler.  What the terminal delivers is a list, what is written to it another;
      the jobs are a datatype and \<open>Simulate\<close> runs those that are due, with fuel, which \<open>simulate_returns\<close> shows to be enough (a
      lexicographic measure on the jobs due) as long as the clock stays 2^26 below the largest integer.  Times are integers of 32
      bits (\<open>int32\<close> wraps them around).  \<open>uart_reach\<close> is the closure under register accesses and simulated time: FIFO
      places stay in range, the interrupt line agrees with the identification register, the receive FIFO is a queue, and
      what is sent leaves in order, but for characters that a full FIFO loses.
    \<^item> \<open>PnPeriph\<close>: \<open>CMemory\<close> (\<open>memory.h\<close>), an array of bytes in which an access outside is \<open>None\<close>, an interpretation of the locale
      \<open>byte_store\<close>; and \<open>MPeripherals\<close> (\<open>peripherals.cpp\<close>).  The slave keeps the bus protocol that \<open>PnLine\<close> assumes of the memory
      (\<open>serves\<close>), so a cache line operation does what it specifies to the bytes of this memory, within 371 clocks: 30 steps of
      the bus interface with at most 12 clocks each, and the 11 clocks a first transfer may take.

  \<^bold>\<open>The GDB server.\<close>  \<open>gdb.c\<close> answers the packets of the remote serial protocol on a socket.  It reaches the debug
  unit of the simulated processor through \<open>rsp-rtl_sim.c\<close>, which writes commands to pipes; on the other side
  \<open>jp_vpi.c\<close>, called from \<open>vpi_debug_module.v\<close> inside the simulator, reads them and drives the JTAG port.

    \<^item> \<open>Prelude\<close>, \<open>CLib\<close>: machine words, byte buffers and the C library functions the server calls (\<open>sscanf\<close>,
      \<open>sprintf\<close>, \<open>strcmp\<close> on byte lists).
    \<^item> \<open>RspCodec\<close>, \<open>RspSock\<close>: digits, escapes and byte order with their round trips; \<open>get_packet\<close>, \<open>put_packet\<close> and what they
      call.  The socket is the list of results its system calls give, so every loop uses up an event and terminates.
    \<^item> \<open>MpHash\<close>: the matchpoint table with its chains, shown to be a map (locale \<open>mp_table\<close>).
    \<^item> \<open>DebugIf\<close>: the functions of \<open>rsp-rtl_sim.h\<close> as a record of operations, and the contract \<open>dbg_target\<close> the server
      relies on.
    \<^item> \<open>GdbState\<close>, \<open>GdbRun\<close>, \<open>GdbRegs\<close>, \<open>GdbMem\<close>, \<open>GdbBreak\<close>, \<open>GdbServer\<close>: the globals and access functions, then the
      handlers of \<open>gdb.c\<close> by group, then the dispatcher and the main loop.  \<open>wait_client\<close> goes through the events of the
      listening socket; \<open>handle_rsp_loop\<close> takes the number of rounds as an argument, since the server runs until it is killed.
      \<open>fault\<close>, and \<open>sock_ub\<close> in the packet layer, record that the C code left an array or overflowed an integer.
    \<^item> \<open>JpVpi\<close>, \<open>RtlSim\<close>: the two ends of the pipes.  The simulator runs until it waits for input (\<open>vpi_run\<close>, which ends because
      each step uses bytes of a pipe); its store for block transfers has 4096 words as in the Verilog source.
    \<^item> \<open>Soc\<close>: the memory and registers behind the JTAG tasks, and the proof that the accesses through pipes, VPI tasks and
      debug module keep \<open>dbg_target\<close> (its interpretation).  What the hardware
      keeps of a value written to a special register is a parameter (\<open>tv_keeps\<close>), and a write of the PPC is one of the NPC.  This theory proves the statements on the server over that system.

  \<^bold>\<open>What the proofs showed of the code\<close> is in the theorems that describe a deviation: replies that overflow the packet
  buffer (\<open>rsp_read_mem_overflows\<close>), a hardware breakpoint without a free pair (\<open>hw_breakpoint_without_pair\<close>), the dropped reset
  (\<open>dbg_cpu0_write_ctrl_drops_reset\<close>), the instruction behind \<open>l.sys\<close> that is executed (\<open>core_sys_executes_next\<close>), rotations by
  more than 16 and the flags of subtractions and multiplications (\<open>exu_implements_or1k\<close>), requests the load/store unit never completes
  (\<open>lsu_unchecked_requests\<close>), polynomials that are not primitive (\<open>lfsr_short_cycles\<close>), further cores that cannot be enabled (\<open>exu_copu_idle\<close>), an array index of -1 at power-up
  (\<open>ifu_power_up_out_of_bounds\<close>), and the fetch port that takes its cache decision from a data address
  (\<open>fetch_direct_by_data_address\<close>).

  In the testbench these are the order of the UART's events (\<open>sched_add_misorders\<close>), an interrupt that stays reported
  (\<open>uart_stale_interrupt\<close>), the address after the end of the memory (\<open>memory_owns_too_much\<close>) and the clock that wraps around
  (\<open>simulate_wraps_forever\<close>).

  \<^bold>\<open>Not modelled\<close>: the command line and main loop of the testbench, its ELF loader, dumps and disassembler (\<open>paranut_tb.cpp\<close>,
  \<open>memory.cpp\<close>, \<open>base.cpp\<close>), the VAPI branches of the UART, which \<open>CUart::Init\<close> switches off; the rest of the run-time library and
  the image utilities under \<open>orpsocv2/sw\<close>.  Tracing, dumps, performance counters and debug output only report.  The VHDL and
  Verilog sources are not C and appear through the abstract \<open>soc\<close> only; benchmarks and test programs are workloads.
\<close>

section \<open>A concrete system\<close>

text \<open>The server of the examples: connected, in control of a processor stalled at 0x100, link idle.\<close>

definition ex_mem :: "u32 \<Rightarrow> byte" where
  "ex_mem a = ucast a"

text \<open>
  What the OR1200 in its default configuration, without hardware breakpoints, keeps of a value written to SR (17
  bits, FO fixed) and to the debug registers: two bits of DMR1 and the low 14 of DSR and DRR.
\<close>

definition ex_keeps :: "u32 \<Rightarrow> u32 \<Rightarrow> u32" where
  "ex_keeps r w =
     (if r = SR_CPU_REG_ADD then (w AND 0x1ffff) OR 0x8000
      else if r = 0x3010 then w AND 0x00c00000
      else if r = 0x3014 \<or> r = 0x3015 then w AND 0x3fff
      else if 0x3000 \<le> r \<and> r < 0x3014 then 0 else w)"

definition ex_soc :: soc where
  "ex_soc = \<lparr>soc_ir = JI_DEBUG, soc_sel = 0, soc_reset = False,
     soc_view = \<lparr>tv_mem = ex_mem, tv_spr = (\<lambda>_. 0), tv_npc = 0x100, tv_flushed = False, tv_stalled = True, tv_keeps = ex_keeps\<rparr>\<rparr>"

definition ex_rtl :: "soc rtl" where
  "ex_rtl = \<lparr>current_chain = 0, dbg_chain = 0, retry_no = 0, stuck = False, bad_ack = False,
     sim = \<lparr>command_pipe = [], rsp_to_vpi_pipe = [], vpi_to_rsp_pipe = [], vpi_pc = Polling,
            data_storage = replicate 4096 0, heap_junk = 0, hw = ex_soc\<rparr>\<rparr>"

definition ex_gdb :: "soc rtl gdb" where
  "ex_gdb = \<lparr>client_waiting = False, sigval = TARGET_SIGNAL_TRAP, start_addr = 0x100, mp_table_of = mp_hash_init,
     stallState = STALLED, npcIsCached = False, npcCachedValue = 0, dbg_regs_cache = zero_cache,
     dbg_regs_cache_dirty = 0, gpr_regs = replicate 32 0, err_of = 0, gdb_chain = None,
     client = \<lparr>client_fd = 3, rd_evs = map RdByte [0x2b, 0x2b, 0x2b], wr_evs = [], sent = [], sock_ub = False\<rparr>,
     p_buf = \<lparr>buf_data = replicate GDB_BUF_MAX 0, buf_len = 0\<rparr>, garbage = 0, fault = False, exited = False, tgt = ex_rtl\<rparr>"

abbreviation D_rtl :: "soc rtl dbg_ops" where
  "D_rtl \<equiv> rtl_ops soc_tasks"

lemma ex_rtl_ok: "rtl_ok ex_rtl"
  by (simp add: rtl_ok_def idle_def chains_agree_def ex_rtl_def ex_soc_def)

lemma ex_in_control: "in_control rtl_view rtl_ok ex_gdb" and ex_coherent: "npc_coherent rtl_view ex_gdb"
  by (simp_all add: in_control_def npc_coherent_def ex_gdb_def ex_rtl_ok)
    (simp_all add: rtl_view_def ex_rtl_def ex_soc_def)

lemma ex_wf_cache: "wf_cache (dbg_regs_cache ex_gdb)"
  by (simp add: ex_gdb_def zero_cache_def wf_cache_of_words)

section \<open>Execution control\<close>

text \<open>
  C21. \<open>set_npc\<close> through the pipes, the VPI tasks and the debug unit makes the processor resume at the new
  address, \<open>get_npc\<close> then returns it although the flushed pipeline reads as zero, and memory and the
  other registers keep their values.
\<close>

theorem set_npc_then_get_npc:
  assumes "in_control rtl_view rtl_ok s" "npc_coherent rtl_view s"
  shows "let s' = set_npc D_rtl addr s
     in fst (get_npc D_rtl s') = addr \<and> tv_npc (rtl_view (tgt s')) = addr \<and> npc_coherent rtl_view s'
        \<and> in_control rtl_view rtl_ok s' \<and> tv_mem (rtl_view (tgt s')) = tv_mem (rtl_view (tgt s))
        \<and> tv_spr (rtl_view (tgt s')) = tv_spr (rtl_view (tgt s))"
proof -
  obtain s' where s': "set_npc D_rtl addr s = s'" "moved s s'" "rtl_ok (tgt s')" "npcIsCached s'" "npcCachedValue s' = addr"
    "rtl_view (tgt s') = (rtl_view (tgt s))\<lparr>tv_npc := addr,
       tv_flushed := (tv_flushed (rtl_view (tgt s)) \<or> addr \<noteq> tv_npc (rtl_view (tgt s)))\<rparr>"
    by (rule rtl.set_npc_effect [OF assms])
  have c: "in_control rtl_view rtl_ok s'" "npc_coherent rtl_view s'"
    using assms s' by (simp_all add: in_control_def npc_coherent_def moved_def)
  have "fst (get_npc D_rtl s') = addr"
    by (rule rtl.get_npc_effect [OF c]) (use s' in simp)
  with s' c show ?thesis by (simp add: Let_def)
qed

theorem set_npc_then_get_npc_witness:
  "fst (get_npc D_rtl (set_npc D_rtl 0x2000 ex_gdb)) = 0x2000"
  using set_npc_then_get_npc [OF ex_in_control ex_coherent, of "0x2000"] by (simp add: Let_def)

text \<open>
  C20. A step request, with or without an address, leaves the processor running from the address it names (the
  current NPC for the bare \<open>s\<close>).  The debug registers, and no others, are written: with the values the server
  has cached, but for single-step trace set in DMR1, breakpoint generation from watchpoints off in DMR2, the
  trap exception diverted to the debug unit in DSR and DRR cleared (\<open>step_cache\<close>).  Each register holds what the
  hardware keeps of the word that reaches it.  Memory is untouched, nothing is sent, and the server waits for the
  stop.
\<close>

theorem rsp_step_releases:
  assumes "in_control rtl_view rtl_ok s" "npc_coherent rtl_view s" "wf_cache (dbg_regs_cache s)"
    and "resume_request ''s'' (buf_data (p_buf s)) (tv_npc (rtl_view (tgt s))) addr"
  shows "let s' = rsp_step D_rtl s; v = rtl_view (tgt s')
     in tv_npc v = addr \<and> \<not> tv_stalled v \<and> debug_written (step_cache (dbg_regs_cache s)) (rtl_view (tgt s)) v
        \<and> tv_mem v = tv_mem (rtl_view (tgt s)) \<and> client s' = client s \<and> client_waiting s' \<and> stallState s' = UNSTALLED
        \<and> dbg_regs_cache_dirty s' = - 1"
  using rtl.step_effect [OF assms refl] by (simp add: Let_def)

text \<open>DMR1 and DSR after a step of the example, whose cached registers are zero.\<close>

theorem rsp_step_releases_witness:
  "let v = rtl_view (tgt (rsp_step D_rtl (with_packet (bytes ''s'') ex_gdb)))
   in tv_npc v = 0x100 \<and> tv_spr v 0x3010 = 0x00400000 \<and> tv_spr v 0x3014 = 0x2000 \<and> tv_spr v 0x3015 = 0"
proof -
  let ?s = "with_packet (bytes ''s'') ex_gdb"
  have "cstr (buf_data (p_buf ?s)) = bytes ''s''"
    by (rule cstr_with_packet) simp_all
  then have "resume_request ''s'' (buf_data (p_buf ?s)) (tv_npc (rtl_view (tgt ?s))) 0x100"
    by (simp add: resume_request_def ex_gdb_def ex_rtl_def ex_soc_def rtl_view_def)
  from rsp_step_releases [OF _ _ _ this] ex_in_control ex_coherent ex_wf_cache
  have r: "tv_npc (rtl_view (tgt (rsp_step D_rtl ?s))) = 0x100"
    "debug_written (step_cache zero_cache) (rtl_view (tgt ex_gdb)) (rtl_view (tgt (rsp_step D_rtl ?s)))"
    by (simp_all add: Let_def) (simp add: ex_gdb_def)
  have k: "tv_keeps (rtl_view (tgt ex_gdb)) = ex_keeps" by (simp add: ex_gdb_def ex_rtl_def ex_soc_def rtl_view_def)
  have w: "shifted_words (cache_words (step_cache zero_cache)) ! 16 = 0x00400000"
    "shifted_words (cache_words (step_cache zero_cache)) ! 20 = 0x2000"
    "shifted_words (cache_words (step_cache zero_cache)) ! 21 = 0"
    by code_simp+
  have g: "tv_spr (rtl_view (tgt (rsp_step D_rtl ?s))) (0x3000 + of_nat i) =
      ex_keeps (0x3000 + of_nat i) (shifted_words (cache_words (step_cache zero_cache)) ! i)" if "i < 22" for i
    using r(2) that unfolding debug_written_def k by blast
  show ?thesis
    using r(1) g [of 16] g [of 20] g [of 21] w by (simp add: Let_def ex_keeps_def)
qed

text \<open>
  A continue request leaves the processor running from the address it names, with the cached debug registers
  written but for single-step trace cleared, traps diverted to the debug unit and DRR cleared; nothing is sent.
\<close>

lemma rsp_continue_releases:
  assumes "in_control rtl_view rtl_ok s" "npc_coherent rtl_view s" "wf_cache (dbg_regs_cache s)"
    and "resume_request ''c'' (buf_data (p_buf s)) (tv_npc (rtl_view (tgt s))) addr"
  shows "let s' = rsp_continue D_rtl s; v = rtl_view (tgt s')
     in tv_npc v = addr \<and> \<not> tv_stalled v \<and> debug_written (continue_cache (dbg_regs_cache s)) (rtl_view (tgt s)) v
        \<and> tv_mem v = tv_mem (rtl_view (tgt s)) \<and> client s' = client s \<and> client_waiting s' \<and> stallState s' = UNSTALLED
        \<and> dbg_regs_cache_dirty s' = - 1"
  using rtl.continue_effect [OF assms refl] by (simp add: Let_def)

lemma rsp_continue_releases_witness:
  "tv_npc (rtl_view (tgt (rsp_continue D_rtl (with_packet (bytes ''c'' @ xdigits (unat (0x2000 :: u32))) ex_gdb)))) = 0x2000"
proof -
  let ?s = "with_packet (bytes ''c'' @ xdigits (unat (0x2000 :: u32))) ex_gdb"
  have x: "xdigits 8192 = [0x32, 0x30, 0x30, 0x30]"
    by (simp add: xdigits.simps hexchars_def)
  have "cstr (buf_data (p_buf ?s)) = bytes ''c'' @ xdigits (unat (0x2000 :: u32))"
    by (rule cstr_with_packet) (simp_all add: x)
  then have "resume_request ''c'' (buf_data (p_buf ?s)) (tv_npc (rtl_view (tgt ?s))) 0x2000"
    by (simp add: resume_request_def)
  from rsp_continue_releases [OF _ _ _ this] ex_in_control ex_coherent ex_wf_cache show ?thesis
    by (simp add: Let_def)
qed

section \<open>Memory breakpoints\<close>

text \<open>
  C19. Setting a memory breakpoint twice, as GDB does when it repeats a packet, and removing it once puts
  back every byte of memory and the table of matchpoints; in between the trap instruction is in memory.
\<close>

theorem breakpoint_restores_memory:
  assumes "in_control rtl_view rtl_ok s" "mp_wf (mp_table_of s)" "mp_map (mp_table_of s) (BP_MEMORY, addr) = None"
    and "addr AND 3 = 0"
  shows "let put = with_packet (matchpoint_text ''Z'' 0x30 addr); del = with_packet (matchpoint_text ''z'' 0x30 addr);
       s1 = rsp_insert_matchpoint D_rtl (put s); s2 = rsp_insert_matchpoint D_rtl (put s1);
       s3 = rsp_remove_matchpoint D_rtl (del s2)
     in mem_range (tv_mem (rtl_view (tgt s1))) addr 4 = [0x21, 0, 0, 1]
        \<and> tv_mem (rtl_view (tgt s2)) = tv_mem (rtl_view (tgt s1))
        \<and> tv_mem (rtl_view (tgt s3)) = tv_mem (rtl_view (tgt s)) \<and> mp_map (mp_table_of s3) = mp_map (mp_table_of s)"
proof -
  let ?m = "tv_mem (rtl_view (tgt s))"
  let ?old = "le_word (swap4 (mem_range ?m addr 4))"
  define s1 where s1: "s1 = rsp_insert_matchpoint D_rtl (with_packet (matchpoint_text ''Z'' 0x30 addr) s)"
  define s2 where s2: "s2 = rsp_insert_matchpoint D_rtl (with_packet (matchpoint_text ''Z'' 0x30 addr) s1)"
  define s3 where s3: "s3 = rsp_remove_matchpoint D_rtl (with_packet (matchpoint_text ''z'' 0x30 addr) s2)"
  have packet: "cstr (buf_data (p_buf (with_packet (matchpoint_text ''Z'' 0x30 addr) t))) = matchpoint_text ''Z'' 0x30 addr"
    "cstr (buf_data (p_buf (with_packet (matchpoint_text ''z'' 0x30 addr) t))) = matchpoint_text ''z'' 0x30 addr"
    for t :: "soc rtl gdb"
    by (simp_all add: cstr_matchpoint)
  have e1: "in_control rtl_view rtl_ok s1" "tv_mem (rtl_view (tgt s1)) = mem_store addr trap_bytes ?m"
    "mp_table_of s1 = mp_hash_add BP_MEMORY addr ?old (mp_table_of s)"
    using rtl.insert_memory_breakpoint [OF _ assms(4) packet(1) s1 [symmetric]] assms(1) by simp_all
  have e2: "in_control rtl_view rtl_ok s2" "tv_mem (rtl_view (tgt s2)) = mem_store addr trap_bytes ?m"
    "mp_table_of s2 = mp_hash_add BP_MEMORY addr
       (le_word (swap4 (mem_range (tv_mem (rtl_view (tgt s1))) addr 4))) (mp_table_of s1)"
    using rtl.insert_memory_breakpoint [OF _ assms(4) packet(1) s2 [symmetric]] e1 trap_bytes_length
    by (simp_all add: mem_store_twice)
  have map2: "mp_map (mp_table_of s2) = (mp_map (mp_table_of s))((BP_MEMORY, addr) \<mapsto> ?old)" and wf2: "mp_wf (mp_table_of s2)"
    using assms(2,3) by (simp_all add: e2(3) e1(3) mp_map_add mp_wf_add)
  obtain mpe h where d: "mp_hash_delete BP_MEMORY addr (mp_table_of s2) = (Some mpe, h)" "me_instr mpe = ?old"
    "mp_map h = mp_map (mp_table_of s)"
    by (rule memory_entry_deleted [OF map2 wf2 assms(3)])
  have "tv_mem (rtl_view (tgt s3)) = mem_store addr (swap4 (le_bytes ?old)) (tv_mem (rtl_view (tgt s2))) \<and> mp_table_of s3 = h"
    using rtl.remove_memory_breakpoint [OF _ assms(4) packet(2) _ s3 [symmetric], of mpe h] e2(1) d by simp
  moreover have "swap4 (le_bytes ?old) = mem_range ?m addr 4"
    by (simp add: le_bytes_le_word4 del: le_word.simps)
  ultimately show ?thesis
    using e1(2) e2(2) d(3) mem_store_restore [of trap_bytes addr ?m] mem_range_store [of trap_bytes addr ?m] trap_bytes_length
    by (simp add: Let_def flip: s1 s2 s3) (simp add: trap_bytes_value)
qed

theorem breakpoint_restores_memory_witness:
  "let s3 = rsp_remove_matchpoint D_rtl (with_packet (matchpoint_text ''z'' 0x30 0x400)
      (rsp_insert_matchpoint D_rtl (with_packet (matchpoint_text ''Z'' 0x30 0x400)
        (rsp_insert_matchpoint D_rtl (with_packet (matchpoint_text ''Z'' 0x30 0x400) ex_gdb)))))
   in tv_mem (rtl_view (tgt s3)) = tv_mem (rtl_view (tgt ex_gdb))"
  using breakpoint_restores_memory [OF ex_in_control, of "0x400"] mp_wf_init
  by (simp add: Let_def mp_map_init ex_gdb_def)

section \<open>Memory requests\<close>

text \<open>
  A memory read sends back the bytes of the range, except that the part transferred as a block of whole
  words has the four bytes of every word in reverse order; the bytes before the first word boundary and after
  the last whole word are in order.  Memory and registers are untouched.
\<close>

lemma rsp_read_mem_reply:
  assumes "in_control rtl_view rtl_ok s" "length (buf_data (p_buf s)) = GDB_BUF_MAX" "len \<le> 140"
    and "cstr (buf_data (p_buf s)) = mem_request ''m'' addr len"
  shows "let s' = rsp_read_mem D_rtl s
     in \<exists>xs ys zs. xs @ ys @ zs = mem_range (tv_mem (rtl_view (tgt s))) addr len
        \<and> length xs = min ((4 - unat (addr AND 3)) mod 4) len \<and> length ys mod 4 = 0 \<and> length zs < 4
        \<and> client s' = put_packet (hex_pairs (xs @ swap4 ys @ zs)) (client s)
        \<and> rtl_view (tgt s') = rtl_view (tgt s) \<and> fault s' = fault s"
proof -
  obtain xs ys zs where p: "xs @ ys @ zs = mem_range (tv_mem (rtl_view (tgt s))) addr len"
    "span_bytes (tv_mem (rtl_view (tgt s))) addr len = xs @ swap4 ys @ zs"
    "length xs = span_head addr len" "length ys mod 4 = 0" "length zs < 4"
    by (rule span_bytes_split)
  let ?bs = "xs @ swap4 ys @ zs"
  obtain t' where r: "rsp_read_mem D_rtl s = reply_bytes ?bs (s\<lparr>gdb_chain := Some SC_WISHBONE, err_of := 0, tgt := t'\<rparr>)"
    and t': "rtl_view t' = rtl_view (tgt s)"
    using rtl.read_mem_effect [OF assms(1,4)] assms(3) unfolding p(2) by auto
  have l: "length ?bs \<le> 140" using p(2) assms(3) by (metis length_span_bytes)
  from reply_bytes_sent [OF _ l, of "s\<lparr>gdb_chain := Some SC_WISHBONE, err_of := 0, tgt := t'\<rparr>"] assms(2) r t' p span_head_eq [of addr len]
  show ?thesis
    unfolding Let_def by (intro exI [of _ xs] exI [of _ ys] exI [of _ zs]) simp
qed

lemma rsp_read_mem_reply_witness:
  "rtl_view (tgt (rsp_read_mem D_rtl (with_packet (mem_request ''m'' 0x402 7) ex_gdb))) = rtl_view (tgt ex_gdb)"
proof -
  have x: "mem_request ''m'' 0x402 7 = bytes ''m402,7''"
    by (simp add: mem_request_def xdigits.simps hexchars_def)
  have c: "cstr (buf_data (p_buf (with_packet (mem_request ''m'' 0x402 7) ex_gdb))) = mem_request ''m'' 0x402 7"
    by (rule cstr_with_packet) (simp_all add: x)
  show ?thesis
    using rsp_read_mem_reply [OF _ _ _ c] ex_in_control by (auto simp: Let_def x)
qed

text \<open>
  C32. A request for 141 to 280 bytes passes the length check, which compares with twice the buffer size, and
  the reply is written past the end of the packet buffer.
\<close>

theorem rsp_read_mem_overflows:
  assumes "in_control rtl_view rtl_ok s" "length (buf_data (p_buf s)) = GDB_BUF_MAX" "140 < len" "len \<le> 280"
    and "cstr (buf_data (p_buf s)) = mem_request ''m'' addr len"
  shows "fault (rsp_read_mem D_rtl s)"
  using rtl.read_mem_effect [OF assms(1,5,4)] assms(2,3) by (auto intro!: reply_bytes_fault)

theorem rsp_read_mem_overflows_witness:
  "fault (rsp_read_mem D_rtl (with_packet (mem_request ''m'' 0x400 256) ex_gdb))"
proof -
  have x: "mem_request ''m'' 0x400 256 = bytes ''m400,100''"
    by (simp add: mem_request_def xdigits.simps hexchars_def)
  have c: "cstr (buf_data (p_buf (with_packet (mem_request ''m'' 0x400 256) ex_gdb))) = mem_request ''m'' 0x400 256"
    by (rule cstr_with_packet) (simp_all add: x)
  show ?thesis
    using rsp_read_mem_overflows [OF _ _ _ _ c] ex_in_control by (simp add: x)
qed

text \<open>
  C24. A symbolic memory write at a word address stores the whole words of its data in order, leaves all other
  memory and the registers alone and answers OK; up to three bytes after the last whole word are dropped, and
  the answer is OK all the same.
\<close>

theorem rsp_write_mem_stores:
  assumes "in_control rtl_view rtl_ok s" "addr AND 3 = 0" "length bs < 140"
    and "cstr (buf_data (p_buf s)) = mem_request ''M'' addr (length bs) @ 0x3a # hex_pairs bs"
    and "buf_len (p_buf s) = length (mem_request ''M'' addr (length bs) @ 0x3a # hex_pairs bs)"
  shows "let s' = rsp_write_mem D_rtl s
     in rtl_view (tgt s') = (rtl_view (tgt s))\<lparr>tv_mem := mem_store addr (take (length bs div 4 * 4) bs) (tv_mem (rtl_view (tgt s)))\<rparr>
        \<and> client s' = put_str_packet (bytes ''OK'') (client s) \<and> in_control rtl_view rtl_ok s' \<and> fault s' = fault s"
  using rtl.write_mem_effect [OF assms] assms(1) by (auto simp: Let_def in_control_def)

theorem rsp_write_mem_stores_witness:
  "tv_mem (rtl_view (tgt (rsp_write_mem D_rtl
      (with_packet (mem_request ''M'' 0x400 6 @ 0x3a # hex_pairs [0xca, 0xfe, 0xba, 0xbe, 0x12, 0x34]) ex_gdb))))
   = mem_store 0x400 [0xca, 0xfe, 0xba, 0xbe] ex_mem"
proof -
  let ?bs = "[0xca, 0xfe, 0xba, 0xbe, 0x12, 0x34] :: byte list"
  have x: "mem_request ''M'' 0x400 n = bytes ''M400,6''" if "n = 6" for n
    using that by (simp add: mem_request_def xdigits.simps hexchars_def)
  have c: "cstr (buf_data (p_buf (with_packet (mem_request ''M'' 0x400 6 @ 0x3a # hex_pairs ?bs) ex_gdb)))
      = mem_request ''M'' 0x400 (length ?bs) @ 0x3a # hex_pairs ?bs"
    using hex_pairs_no_nul [of ?bs] by (subst cstr_with_packet) (simp_all add: x del: hex_pairs_Cons)
  show ?thesis
    using rsp_write_mem_stores [OF _ _ _ c] ex_in_control
    by (simp add: Let_def ex_gdb_def ex_rtl_def ex_soc_def rtl_view_def x)
qed

text \<open>
  C25. A binary write of whole words at a word address stores its data in order, but the following memory read
  of the same range reports every word with its bytes reversed: the write swaps the words before the block
  transfer, the read does not swap them back.
\<close>

theorem rsp_write_mem_bin_then_read:
  assumes "in_control rtl_view rtl_ok s" "addr AND 3 = 0" "block_ok (length bs)" "length bs \<le> 140"
    and "buf_data (p_buf s) = mem_request ''X'' addr (length bs) @ 0x3a # escape bs @ rest"
    and "length (buf_data (p_buf s)) = GDB_BUF_MAX" "rest \<noteq> []"
    and "buf_len (p_buf s) = length (mem_request ''X'' addr (length bs)) + 1 + length (escape bs)"
  shows "let s1 = rsp_write_mem_bin D_rtl s;
       s2 = rsp_read_mem D_rtl (with_packet (mem_request ''m'' addr (length bs)) s1)
     in client s1 = put_str_packet (bytes ''OK'') (client s) \<and> fault s2 = fault s
        \<and> rtl_view (tgt s1) = (rtl_view (tgt s))\<lparr>tv_mem := mem_store addr bs (tv_mem (rtl_view (tgt s)))\<rparr>
        \<and> client s2 = put_packet (hex_pairs (swap4 bs)) (client s1)"
proof -
  define s1 where s1: "s1 = rsp_write_mem_bin D_rtl s"
  have "length bs < 281" using assms(4) by simp
  note w = rtl.write_mem_bin_effect [OF assms(1-3) this assms(5-8) s1 [symmetric]]
  let ?msg = "mem_request ''m'' addr (length bs)"
  have msg: "length ?msg \<le> 18"
    using length_xdigits_u32 [of addr] length_xdigits [of "length bs" 8] assms(4) by (simp add: mem_request_def)
  have c: "cstr (buf_data (p_buf (with_packet ?msg s1))) = ?msg"
    using mem_request_no_nul [of "''m''"] msg by (intro cstr_with_packet) simp_all
  let ?m = "mem_store addr bs (tv_mem (rtl_view (tgt s)))"
  have al: "span_head addr (length bs) = 0" "span_words addr (length bs) = length bs"
    using assms(2,3) by (auto simp: span_head_def span_words_def block_ok_def)
  have "mem_range ?m addr (length bs) = bs" using assms(4) by (intro mem_range_store) simp
  then have sb: "span_bytes ?m addr (length bs) = swap4 bs"
    by (simp add: span_bytes_def al)
  obtain t' where r: "rsp_read_mem D_rtl (with_packet ?msg s1) =
      reply_bytes (swap4 bs) ((with_packet ?msg s1)\<lparr>gdb_chain := Some SC_WISHBONE, err_of := 0, tgt := t'\<rparr>)"
    using rtl.read_mem_effect [OF _ c] w assms(4) sb by auto
  from reply_bytes_sent [of "(with_packet ?msg s1)\<lparr>gdb_chain := Some SC_WISHBONE, err_of := 0, tgt := t'\<rparr>" "swap4 bs"]
    assms(4) msg w r show ?thesis
    by (simp add: Let_def flip: s1)
qed

theorem rsp_write_mem_bin_then_read_witness:
  "tv_mem (rtl_view (tgt (rsp_write_mem_bin D_rtl
      (with_packet (mem_request ''X'' 0x400 4 @ 0x3a # escape [0x7d, 0, 0x23, 1]) ex_gdb))))
   = mem_store 0x400 [0x7d, 0, 0x23, 1] ex_mem"
proof -
  let ?bs = "[0x7d, 0, 0x23, 1] :: byte list"
  have x: "mem_request ''X'' 0x400 n = bytes ''X400,4''" if "n = 4" for n
    using that by (simp add: mem_request_def xdigits.simps hexchars_def)
  have "buf_data (p_buf (with_packet (mem_request ''X'' 0x400 4 @ 0x3a # escape ?bs) ex_gdb)) =
      mem_request ''X'' 0x400 (length ?bs) @ 0x3a # escape ?bs @ replicate 268 0"
    by (simp add: with_packet_def x escape_char_def)
  from rsp_write_mem_bin_then_read [OF _ _ _ _ this] ex_in_control show ?thesis
    by (simp add: Let_def ex_gdb_def ex_rtl_def ex_soc_def rtl_view_def x escape_char_def block_ok_def)
qed

section \<open>Hardware breakpoints\<close>

definition hw_put :: "u32 \<Rightarrow> 't gdb \<Rightarrow> 't gdb" where
  "hw_put addr = with_packet (matchpoint_text ''Z'' 0x31 addr)"

definition hw_del :: "u32 \<Rightarrow> 't gdb \<Rightarrow> 't gdb" where
  "hw_del addr = with_packet (matchpoint_text ''z'' 0x31 addr)"

lemma hw_packet:
  "cstr (buf_data (p_buf (hw_put addr s))) = matchpoint_text ''Z'' 0x31 addr"
  "cstr (buf_data (p_buf (hw_del addr s))) = matchpoint_text ''z'' 0x31 addr"
  by (simp_all add: hw_put_def hw_del_def cstr_matchpoint)

lemma hw_packet_sels [simp]:
  "dbg_regs_cache (hw_put addr s) = dbg_regs_cache s" "dbg_regs_cache_dirty (hw_put addr s) = dbg_regs_cache_dirty s"
  "dbg_regs_cache (hw_del addr s) = dbg_regs_cache s" "dbg_regs_cache_dirty (hw_del addr s) = dbg_regs_cache_dirty s"
  "fault (hw_put addr s) = fault s" "fault (hw_del addr s) = fault s" "tgt (hw_put addr s) = tgt s" "tgt (hw_del addr s) = tgt s"
  "client (hw_put addr s) = client s" "client (hw_del addr s) = client s"
  by (simp_all add: hw_put_def hw_del_def)

definition ex_hw :: "soc rtl gdb" where
  "ex_hw = ex_gdb\<lparr>dbg_regs_cache := zero_cache\<lparr>dcr := replicate 8 1\<rparr>\<rparr>"

lemma ex_hw_facts: "wf_cache (dbg_regs_cache ex_hw)" "dbg_regs_cache_dirty ex_hw \<noteq> - 1"
  "count_free_dcrdvr_pairs (dbg_regs_cache ex_hw) = 8" "hw_breaks (dbg_regs_cache ex_hw) = {#}"
  by (simp_all add: ex_hw_def ex_gdb_def zero_cache_def wf_cache_of_words cache_of_words_def wf_cache_def
      count_free_dcrdvr_pairs_def pair_free_def dcr_cc_def dcr_dp_def hw_breaks_def upt_conv_Cons)

text \<open>
  With a pair free, a \<open>Z1\<close> packet adds its address to the hardware breakpoints, takes exactly one free pair,
  enables that pair in DMR2, marks the cache to be written and answers OK, without touching the processor.
\<close>

lemma hw_breakpoint_inserted:
  assumes "wf_cache (dbg_regs_cache s)" "dbg_regs_cache_dirty s \<noteq> - 1" "count_free_dcrdvr_pairs (dbg_regs_cache s) \<noteq> 0"
  shows "let s' = rsp_insert_matchpoint D (hw_put addr s); c = dbg_regs_cache s; c' = dbg_regs_cache s'
     in hw_breaks c' = add_mset addr (hw_breaks c) \<and> Suc (count_free_dcrdvr_pairs c') = count_free_dcrdvr_pairs c
        \<and> (\<exists>i < OR1K_MAX_MATCHPOINTS. pair_free c i \<and> dvr c' ! i = addr \<and> bit (dmr2 c') (12 + i)) \<and> wf_cache c'
        \<and> dbg_regs_cache_dirty s' = 1 \<and> tgt s' = tgt s \<and> fault s' = fault s
        \<and> client s' = put_str_packet (bytes ''OK'') (client s)"
proof -
  obtain i where i: "i < 8" "pair_free (dbg_regs_cache s) i" "rsp_insert_matchpoint D (hw_put addr s) = put_str ''OK''
       ((hw_put addr s)\<lparr>dbg_regs_cache := pair_taken (dbg_regs_cache s) i addr, dbg_regs_cache_dirty := 1\<rparr>)"
    by (rule hw_inserted [OF hw_packet(1), of addr s D]) (use assms in simp_all)
  note b = pair_taken_breaks [OF i(1,2) assms(1), of addr]
  have "dvr (pair_taken (dbg_regs_cache s) i addr) ! i = addr"
    using i(1) assms(1) by (simp add: pair_taken_def wf_cache_def)
  with i b show ?thesis by (auto simp: Let_def)
qed

lemma hw_breakpoint_inserted_witness:
  "hw_breaks (dbg_regs_cache (rsp_insert_matchpoint D_rtl (hw_put 0x400 ex_hw))) = {#0x400#}"
  using hw_breakpoint_inserted [of ex_hw D_rtl "0x400"] ex_hw_facts by (simp add: Let_def)

text \<open>
  A \<open>Z1\<close> packet followed by the \<open>z1\<close> packet of the same address, not otherwise a breakpoint, gives the pair
  back: the hardware breakpoints and the number of free pairs are as before, and the pair is off in DMR2.
\<close>

lemma hw_breakpoint_roundtrip:
  assumes "wf_cache (dbg_regs_cache s)" "dbg_regs_cache_dirty s \<noteq> - 1" "count_free_dcrdvr_pairs (dbg_regs_cache s) \<noteq> 0"
    and "addr \<notin># hw_breaks (dbg_regs_cache s)"
  shows "let s1 = rsp_insert_matchpoint D (hw_put addr s); s2 = rsp_remove_matchpoint D (hw_del addr s1);
       c = dbg_regs_cache s; c2 = dbg_regs_cache s2
     in hw_breaks c2 = hw_breaks c \<and> count_free_dcrdvr_pairs c2 = count_free_dcrdvr_pairs c
        \<and> (\<exists>i < OR1K_MAX_MATCHPOINTS. pair_free c i \<and> dmr2 c2 = dmr2 c AND NOT (push_bit (12 + i) 1))
        \<and> fault s2 = fault s \<and> tgt s2 = tgt s
        \<and> client s2 = put_str_packet (bytes ''OK'') (put_str_packet (bytes ''OK'') (client s))"
proof -
  let ?c = "dbg_regs_cache s"
  obtain i where i: "i < 8" "pair_free ?c i" "rsp_insert_matchpoint D (hw_put addr s) = put_str ''OK''
       ((hw_put addr s)\<lparr>dbg_regs_cache := pair_taken ?c i addr, dbg_regs_cache_dirty := 1\<rparr>)"
    by (rule hw_inserted [OF hw_packet(1), of addr s D]) (use assms in simp_all)
  define s1 where s1: "s1 = rsp_insert_matchpoint D (hw_put addr s)"
  note b = pair_taken_breaks [OF i(1,2) assms(1), of addr]
  have c1: "dbg_regs_cache s1 = pair_taken ?c i addr" "dbg_regs_cache_dirty s1 = 1" "tgt s1 = tgt s" "fault s1 = fault s"
    "client s1 = put_str_packet (bytes ''OK'') (client s)" by (simp_all add: s1 i(3))
  obtain k where k: "k < 8" "pair_breaks (pair_taken ?c i addr) k = {#addr#}"
    "rsp_remove_matchpoint D (hw_del addr s1) = put_str ''OK''
       ((hw_del addr s1)\<lparr>dbg_regs_cache := pair_given_back (pair_taken ?c i addr) k, dbg_regs_cache_dirty := 1\<rparr>)"
    by (rule hw_removed [OF hw_packet(2), of addr s1 D]) (use c1 b in simp_all)
  have "k = i"
  proof (rule ccontr)
    assume "k \<noteq> i"
    then have "dvr ?c ! k = addr \<and> dcr_cc (dcr ?c ! k) = OR1K_CC_EQ"
      using k(2) by (simp add: pair_breaks_def pair_taken_def split: if_splits)
    with k(1) assms(4) show False by (force simp: hw_breaks_def)
  qed
  note g = pair_given_back_breaks [OF k(1,2) b(4)]
  have "dcr_dp (dcr (pair_taken ?c i addr) ! i) \<noteq> 0"
    using i(1,2) assms(1) by (simp add: pair_taken_def wf_cache_def pair_free_def)
  moreover have "dmr2 (pair_given_back (pair_taken ?c i addr) i) = dmr2 ?c AND NOT (push_bit (12 + i) 1)"
    by (simp add: pair_given_back_def pair_taken_def) (rule bit_word_eqI, auto simp: bit_simps)
  ultimately show ?thesis
    using g(1,2) b(1,2) i(1,2) k(3) c1 \<open>k = i\<close> by (auto simp: Let_def simp flip: s1)
qed

lemma hw_breakpoint_roundtrip_witness:
  "count_free_dcrdvr_pairs (dbg_regs_cache (rsp_remove_matchpoint D_rtl (hw_del 0x400
      (rsp_insert_matchpoint D_rtl (hw_put 0x400 ex_hw))))) = 8"
  using hw_breakpoint_roundtrip [of ex_hw "0x400" D_rtl] ex_hw_facts by (simp add: Let_def)

text \<open>
  With no pair free, a \<open>Z1\<close> packet is answered twice, first as not supported and then with OK, and the handler
  writes the breakpoint into pair -1, before the start of the arrays.
\<close>

lemma hw_breakpoint_without_pair:
  assumes "dbg_regs_cache_dirty s \<noteq> - 1" "count_free_dcrdvr_pairs (dbg_regs_cache s) = 0"
  shows "let s' = rsp_insert_matchpoint D (hw_put addr s)
     in fault s' \<and> client s' = put_str_packet (bytes ''OK'') (put_str_packet (bytes '''') (client s))
        \<and> hw_breaks (dbg_regs_cache s') = hw_breaks (dbg_regs_cache s)"
proof -
  have "find_free_dcrdvr_pair (dbg_regs_cache s) = - 1"
    using assms(2) by (simp add: find_free_dcrdvr_pair_def first_from_None count_free_dcrdvr_pairs_def filter_empty_conv)
  then show ?thesis
    using assms(1) by (simp add: Let_def rsp_insert_matchpoint_def hw_args [OF hw_packet(1)] get_cached
        insert_hw_watchpoint_def enable_hw_breakpoint_def valid_pair_def hw_breaks_def)
qed

lemma hw_breakpoint_without_pair_witness:
  "fault (rsp_insert_matchpoint D_rtl (hw_put 0x400 ex_gdb))"
proof -
  have "count_free_dcrdvr_pairs (dbg_regs_cache ex_gdb) = 0" "dbg_regs_cache_dirty ex_gdb \<noteq> - 1"
    by (simp_all add: ex_gdb_def zero_cache_def cache_of_words_def count_free_dcrdvr_pairs_def pair_free_def dcr_dp_def
        upt_conv_Cons)
  from hw_breakpoint_without_pair [OF this(2,1)] show ?thesis by (simp add: Let_def)
qed

text \<open>
  A \<open>z1\<close> packet for an address that is no hardware breakpoint is answered with E01, but only after the handler
  has written to pair -1.
\<close>

lemma hw_breakpoint_unknown:
  assumes "dbg_regs_cache_dirty s \<noteq> - 1" "addr \<notin># hw_breaks (dbg_regs_cache s)"
  shows "let s' = rsp_remove_matchpoint D (hw_del addr s)
     in fault s' \<and> client s' = put_str_packet (bytes ''E01'') (client s)"
proof -
  have "find_matching_dcrdvr_pair addr OR1K_CC_EQ (dbg_regs_cache s) = - 1"
    using assms(2) by (force simp: find_matching_dcrdvr_pair_def first_from_None hw_breaks_def)
  then show ?thesis
    using assms(1) by (simp add: Let_def rsp_remove_matchpoint_def hw_args [OF hw_packet(2)]
        remove_hw_watchpoint_def disable_hw_breakpoint_def valid_pair_def)
qed

lemma hw_breakpoint_unknown_witness:
  "fault (rsp_remove_matchpoint D_rtl (hw_del 0x400 ex_hw))"
  using hw_breakpoint_unknown [of ex_hw "0x400" D_rtl] ex_hw_facts by (simp add: Let_def)

section \<open>Registers\<close>

text \<open>
  C23. After a \<open>P\<close> request for one of the 35 registers the register holds what the hardware keeps of the value
  (all of it for a general register and the NPC, the implemented bits for the SR), a \<open>p\<close> request replies exactly
  that, for the NPC too although the flushed pipeline no longer shows it, and no other register and no memory
  changes.  The PPC is different: the hardware takes a write to it for one to the program counter, so the NPC
  changes, and the PPC reads as before.
\<close>

theorem write_reg_then_read_reg:
  assumes "in_control rtl_view rtl_ok s" "npc_coherent rtl_view s" "n < NUM_REGS"
  shows "let s1 = rsp_write_reg D_rtl (with_packet (reg_request ''P'' n @ 0x3d # reg_digits v) s);
       s2 = rsp_read_reg D_rtl (with_packet (reg_request ''p'' n) s1);
       old = rtl_view (tgt s)
     in client s2 = put_packet (reg_digits (if n = PPC_REGNUM then reg_value old n else if n = NPC_REGNUM then v
              else tv_keeps old (spr_of n) v)) (put_str_packet (bytes ''OK'') (client s))
        \<and> tv_mem (rtl_view (tgt s2)) = tv_mem old \<and> fault s2 = fault s
        \<and> (\<forall>m < NUM_REGS. m \<noteq> n \<longrightarrow> reg_value (rtl_view (tgt s2)) m =
             (if n = PPC_REGNUM \<and> m = NPC_REGNUM then v else reg_value old m))"
proof -
  let ?put = "reg_request ''P'' n @ 0x3d # reg_digits v" and ?get = "reg_request ''p'' n"
  define s1 where s1: "s1 = rsp_write_reg D_rtl (with_packet ?put s)"
  define s2 where s2: "s2 = rsp_read_reg D_rtl (with_packet ?get s1)"
  have l: "length (xdigits n) \<le> 2" using length_xdigits [of n 2] assms(3) by simp
  have c1: "cstr (buf_data (p_buf (with_packet ?put s))) = ?put"
    by (rule cstr_with_packet) (use l xdigits_no_nul [of n] reg_digits_no_nul [of v] in \<open>simp_all add: reg_request_def\<close>)
  have c2: "cstr (buf_data (p_buf (with_packet ?get s1))) = ?get"
    by (rule cstr_with_packet) (use l xdigits_no_nul [of n] in \<open>simp_all add: reg_request_def\<close>)
  note w = rtl.write_one_reg [OF _ _ assms(3) c1 s1 [symmetric], simplified with_packet_control, OF assms(1,2)]
  note r = rtl.read_one_reg [OF _ _ assms(3) c2 s2 [symmetric], simplified with_packet_control]
  from w r assms(3) show ?thesis by (auto simp: Let_def written_value_def simp flip: s1 s2)
qed

theorem write_reg_then_read_reg_witness:
  "client (rsp_read_reg D_rtl (with_packet (reg_request ''p'' 33)
      (rsp_write_reg D_rtl (with_packet (reg_request ''P'' 33 @ 0x3d # reg_digits 0x2000) ex_gdb)))) =
    put_packet (reg_digits 0x2000) (put_str_packet (bytes ''OK'') (client ex_gdb))
   \<and> client (rsp_read_reg D_rtl (with_packet (reg_request ''p'' 34)
      (rsp_write_reg D_rtl (with_packet (reg_request ''P'' 34 @ 0x3d # reg_digits 0x7ff00001) ex_gdb)))) =
    put_packet (reg_digits 0x8001) (put_str_packet (bytes ''OK'') (client ex_gdb))"
proof -
  have k: "tv_keeps (rtl_view (tgt ex_gdb)) = ex_keeps" by (simp add: ex_gdb_def ex_rtl_def ex_soc_def rtl_view_def)
  have "spr_of 34 = SR_CPU_REG_ADD" by (simp add: spr_of_def)
  then show ?thesis
    using write_reg_then_read_reg [OF ex_in_control ex_coherent, of 33 "0x2000"]
      write_reg_then_read_reg [OF ex_in_control ex_coherent, of 34 "0x7ff00001"] by (simp add: Let_def k ex_keeps_def)
qed

text \<open>
  The reply to a \<open>g\<close> request is the digits of the general registers and the PPC, then a NUL in place of the
  first digit of the NPC, the seven other digits of the NPC as the pipeline shows it (zero after it was flushed,
  whatever NPC was set) and the digits of the SR; the processor is untouched.
\<close>

lemma rsp_read_all_regs_reply:
  assumes "in_control rtl_view rtl_ok s"
  shows "let s' = rsp_read_all_regs D_rtl s; v = rtl_view (tgt s)
     in client s' = put_packet (concat (map (\<lambda>n. reg_digits (reg_value v n)) [0..<33])
            @ 0 # tl (reg_digits (if tv_flushed v then 0 else tv_npc v)) @ reg_digits (reg_value v 34)) (client s)
        \<and> rtl_view (tgt s') = v \<and> fault s' = fault s"
proof -
  have "reg_read v NPC_CPU_REG_ADD = (if tv_flushed v then 0 else tv_npc v)" "reg_read v SR_CPU_REG_ADD = reg_value v 34" for v
    by (simp_all add: reg_read_def reg_value_def spr_of_def)
  with rtl.read_all_regs_effect [OF assms] block_digits [of "rtl_view (tgt s)"] show ?thesis
    by (auto simp: Let_def simp flip: append_assoc)
qed

lemma rsp_read_all_regs_reply_witness:
  "rtl_view (tgt (rsp_read_all_regs D_rtl ex_gdb)) = rtl_view (tgt ex_gdb)"
  using rsp_read_all_regs_reply [OF ex_in_control] by (simp add: Let_def)

end
